(* ===== verification/Prelude.thy ===== *)
theory Prelude
  imports Main "HOL-Library.Word" "HOL-Library.Char_ord" "HOL-Library.List_Lexorder"
begin

unbundle bit_operations_syntax

text \<open>
  What every component shares: bytes and the native (little-endian) and network (big-endian)
  layouts of integers in a buffer, C arrays that are read and written at an offset, the run-time
  failures of the C++ code as values, and \<open>std::map\<close> as an association list sorted by key.
\<close>

section \<open>Collections of rewrite rules\<close>

named_theorems byte_simps \<open>lengths and round trips of the integer layouts\<close>
named_theorems buf_simps \<open>reads and writes of a buffer at an offset\<close>
named_theorems omap_simps \<open>lookup, insertion and removal in an ordered map\<close>

section \<open>Run-time failures\<close>

text \<open>
  What ends or corrupts the process where the source does not check: an access outside of an
  array, a null pointer, a pointer that was never set, a failed \<open>assert\<close> (the Makefile never
  defines \<open>NDEBUG\<close>), a lock taken twice by one thread, an integer divided by zero.
\<close>

datatype crash = OutOfBounds | NullDeref | Uninitialised | AssertFailed | Deadlock | DivideByZero

type_synonym 'a outcome = "crash + 'a"

lemma map_sum_Inr: "map_sum (\<lambda>e. e) f a = Inr y \<longleftrightarrow> (\<exists>x. a = Inr x \<and> y = f x)"
  by (cases a) auto

section \<open>Bytes and integer layouts\<close>

type_synonym byte = "8 word"
type_synonym u16 = "16 word"
type_synonym u32 = "32 word"
type_synonym u64 = "64 word"

primrec le_nat :: "byte list \<Rightarrow> nat" where
  "le_nat [] = 0"
| "le_nat (b # bs) = unat b + 256 * le_nat bs"

primrec le_bytes :: "nat \<Rightarrow> nat \<Rightarrow> byte list" where
  "le_bytes 0 x = []"
| "le_bytes (Suc k) x = of_nat (x mod 256) # le_bytes k (x div 256)"

definition be_nat :: "byte list \<Rightarrow> nat" where
  "be_nat bs = le_nat (rev bs)"

definition be_bytes :: "nat \<Rightarrow> nat \<Rightarrow> byte list" where
  "be_bytes k x = rev (le_bytes k x)"

lemma length_le_bytes [simp, byte_simps]: "length (le_bytes k x) = k"
  by (induction k arbitrary: x) auto

lemma length_be_bytes [simp, byte_simps]: "length (be_bytes k x) = k"
  by (simp add: be_bytes_def)

lemma take_le_bytes [byte_simps]: "m \<le> k \<Longrightarrow> take m (le_bytes k x) = le_bytes m x"
proof (induction k arbitrary: m x)
  case (Suc k)
  then show ?case by (cases m) auto
qed simp

lemma unat_byte_of_nat [byte_simps]: "unat (of_nat (x mod 256) :: byte) = x mod 256"
  by (simp add: unat_of_nat take_bit_eq_mod)

lemma le_nat_le_bytes [byte_simps]: "le_nat (le_bytes k x) = x mod 256 ^ k"
proof (induction k arbitrary: x)
  case (Suc k)
  have "x mod 256 ^ Suc k = 256 * (x div 256 mod 256 ^ k) + x mod 256"
    by (simp add: mod_mult2_eq)
  with Suc show ?case by (simp add: unat_byte_of_nat)
qed simp

lemma unat_byte_bound [simp]: "unat (b :: byte) < 256"
  using unsigned_less [of b] by simp

lemma unat_u16_mod [simp, byte_simps]: "unat (x :: u16) mod 65536 = unat x"
proof -
  have "unat x < 65536" using unsigned_less [of x] by simp
  then show ?thesis by simp
qed

lemma unat_u32_mod [simp, byte_simps]: "unat (x :: u32) mod 4294967296 = unat x"
proof -
  have "unat x < 4294967296" using unsigned_less [of x] by simp
  then show ?thesis by simp
qed

lemma unat_u64_mod [simp, byte_simps]: "unat (x :: u64) mod 18446744073709551616 = unat x"
proof -
  have "unat x < 18446744073709551616" using unsigned_less [of x] by simp
  then show ?thesis by simp
qed

lemma le_nat_bound: "le_nat bs < 256 ^ length bs"
proof (induction bs)
  case (Cons b bs)
  have "unat b < 256" by simp
  with Cons have "unat b + 256 * le_nat bs < 256 + 256 * (256 ^ length bs - 1)"
    by (simp add: add_less_le_mono)
  also have "\<dots> = 256 ^ length (b # bs)"
    by (simp add: right_diff_distrib')
  finally show ?case by simp
qed simp

lemma le_bytes_le_nat [byte_simps]: "le_bytes (length bs) (le_nat bs) = bs"
proof (induction bs)
  case (Cons b bs)
  have "(unat b + 256 * le_nat bs) mod 256 = unat b" by simp
  moreover have "(unat b + 256 * le_nat bs) div 256 = le_nat bs" by simp
  ultimately show ?case using Cons by simp
qed simp

lemma be_nat_be_bytes [byte_simps]: "be_nat (be_bytes k x) = x mod 256 ^ k"
  by (simp add: be_nat_def be_bytes_def le_nat_le_bytes)

lemma be_bytes_be_nat [byte_simps]: "be_bytes (length bs) (be_nat bs) = bs"
  using le_bytes_le_nat [of "rev bs"] by (simp add: be_nat_def be_bytes_def)

lemma be_nat_bound: "be_nat bs < 256 ^ length bs"
  using le_nat_bound [of "rev bs"] by (simp add: be_nat_def)

text \<open>The conversions between host and network order.\<close>

definition ntohl :: "u32 \<Rightarrow> u32" where
  "ntohl w = of_nat (be_nat (le_bytes 4 (unat w)))"

definition htonl :: "u32 \<Rightarrow> u32" where
  "htonl w = of_nat (le_nat (be_bytes 4 (unat w)))"

definition ntohs :: "u16 \<Rightarrow> u16" where
  "ntohs w = of_nat (be_nat (le_bytes 2 (unat w)))"

definition htons :: "u16 \<Rightarrow> u16" where
  "htons w = of_nat (le_nat (be_bytes 2 (unat w)))"

text \<open>Loads and stores of native integers in memory.\<close>

definition load_u16 :: "byte list \<Rightarrow> u16" where
  "load_u16 bs = of_nat (le_nat bs)"

definition load_u32 :: "byte list \<Rightarrow> u32" where
  "load_u32 bs = of_nat (le_nat bs)"

definition store_u32 :: "u32 \<Rightarrow> byte list" where
  "store_u32 w = le_bytes 4 (unat w)"

lemma unat_of_nat_u16: "n < 65536 \<Longrightarrow> unat (of_nat n :: u16) = n"
  by (simp add: unat_of_nat take_bit_eq_mod)

lemma unat_of_nat_u32: "n < 4294967296 \<Longrightarrow> unat (of_nat n :: u32) = n"
  by (simp add: unat_of_nat take_bit_eq_mod)

lemma le_bytes_of_length: "length bs = k \<Longrightarrow> le_bytes k (le_nat bs) = bs"
  using le_bytes_le_nat [of bs] by simp

lemma ntohl_load [byte_simps]: "length bs = 4 \<Longrightarrow> ntohl (load_u32 bs) = of_nat (be_nat bs)"
  using le_nat_bound [of bs]
  by (simp add: ntohl_def load_u32_def unat_of_nat_u32 le_bytes_of_length)

lemma ntohs_load [byte_simps]: "length bs = 2 \<Longrightarrow> ntohs (load_u16 bs) = of_nat (be_nat bs)"
  using le_nat_bound [of bs]
  by (simp add: ntohs_def load_u16_def unat_of_nat_u16 le_bytes_of_length)

lemma store_htonl [byte_simps]: "store_u32 (htonl w) = be_bytes 4 (unat w)"
proof -
  have "le_nat (be_bytes 4 (unat w)) < 4294967296"
    using le_nat_bound [of "be_bytes 4 (unat w)"] by simp
  then show ?thesis
    by (simp add: store_u32_def htonl_def unat_of_nat_u32 le_bytes_of_length)
qed

lemma ntohl_htonl [simp]: "ntohl (htonl w) = w"
proof -
  have "ntohl (htonl w) = of_nat (be_nat (store_u32 (htonl w)))"
    by (simp add: ntohl_def store_u32_def)
  then show ?thesis by (simp add: store_htonl be_nat_be_bytes)
qed

lemma be_nat_be_bytes_u32 [simp]: "of_nat (be_nat (be_bytes 4 (unat w))) = (w :: u32)"
  by (simp add: be_nat_be_bytes)

lemma length_store_u32 [simp]: "length (store_u32 w) = 4"
  by (simp add: store_u32_def)

section \<open>Bytes and text\<close>

definition text_of :: "byte list \<Rightarrow> string" where
  "text_of bs = map (\<lambda>b. char_of (unat b)) bs"

definition bytes_of :: "string \<Rightarrow> byte list" where
  "bytes_of s = map (\<lambda>c. of_nat (of_char c)) s"

lemma length_bytes_of [simp]: "length (bytes_of s) = length s"
  by (simp add: bytes_of_def)

lemma text_of_bytes_of [simp]: "text_of (bytes_of s) = s"
proof -
  have "char_of (unat (of_nat (of_char c) :: byte)) = c" for c :: char
  proof -
    have "(of_char c :: nat) < 256" using of_char_mod_256 [of c] by (metis mod_less_divisor zero_less_numeral)
    then have "unat (of_nat (of_char c) :: byte) = of_char c" by (simp add: unat_of_nat take_bit_eq_mod)
    then show ?thesis by simp
  qed
  then show ?thesis by (simp add: text_of_def bytes_of_def map_idI)
qed

section \<open>Buffers\<close>

text \<open>\<open>get_at off n buf\<close> reads \<open>n\<close> bytes at an offset, \<open>put_at off bs buf\<close> overwrites bytes in place.\<close>

definition get_at :: "nat \<Rightarrow> nat \<Rightarrow> 'a list \<Rightarrow> 'a list" where
  "get_at off n buf = take n (drop off buf)"

definition put_at :: "nat \<Rightarrow> 'a list \<Rightarrow> 'a list \<Rightarrow> 'a list" where
  "put_at off bs buf = take off buf @ bs @ drop (off + length bs) buf"

lemma length_get_at [simp, buf_simps]:
  "off + n \<le> length buf \<Longrightarrow> length (get_at off n buf) = n"
  by (simp add: get_at_def)

lemma length_put_at [simp, buf_simps]:
  "off + length bs \<le> length buf \<Longrightarrow> length (put_at off bs buf) = length buf"
  by (simp add: put_at_def)

lemma get_put_same [buf_simps]:
  "off + length bs \<le> length buf \<Longrightarrow> n = length bs \<Longrightarrow> get_at off n (put_at off bs buf) = bs"
  by (simp add: get_at_def put_at_def)

lemma get_put_before [buf_simps]:
  assumes "o1 + n \<le> o2" "o2 + length bs \<le> length buf"
  shows "get_at o1 n (put_at o2 bs buf) = get_at o1 n buf"
proof (rule nth_equalityI)
  show "length (get_at o1 n (put_at o2 bs buf)) = length (get_at o1 n buf)"
    using assms by (simp add: get_at_def)
next
  fix i assume "i < length (get_at o1 n (put_at o2 bs buf))"
  with assms have "i < n" by (simp add: get_at_def)
  with assms show "get_at o1 n (put_at o2 bs buf) ! i = get_at o1 n buf ! i"
    by (simp add: get_at_def put_at_def nth_append)
qed

lemma get_put_after [buf_simps]:
  assumes "o2 + length bs \<le> o1" "o1 + n \<le> length buf"
  shows "get_at o1 n (put_at o2 bs buf) = get_at o1 n buf"
proof (rule nth_equalityI)
  show "length (get_at o1 n (put_at o2 bs buf)) = length (get_at o1 n buf)"
    using assms by (simp add: get_at_def put_at_def)
next
  fix i assume "i < length (get_at o1 n (put_at o2 bs buf))"
  with assms have "i < n" by (simp add: get_at_def put_at_def)
  with assms show "get_at o1 n (put_at o2 bs buf) ! i = get_at o1 n buf ! i"
    by (simp add: get_at_def put_at_def nth_append nth_drop)
qed

lemma put_at_nth_other [buf_simps]:
  assumes "i < off \<or> off + length bs \<le> i" "off + length bs \<le> length buf" "i < length buf"
  shows "put_at off bs buf ! i = buf ! i"
  using assms by (auto simp: put_at_def nth_append)

section \<open>Characters\<close>

text \<open>A \<open>std::string\<close> may hold a NUL; what C functions see of it ends there.\<close>

definition NUL :: char where
  "NUL = CHR 0x00"

definition c_str :: "string \<Rightarrow> string" where
  "c_str s = takeWhile (\<lambda>c. c \<noteq> NUL) s"

abbreviation LF :: char where "LF \<equiv> CHR 0x0A"
abbreviation CR :: char where "CR \<equiv> CHR 0x0D"
abbreviation TAB :: char where "TAB \<equiv> CHR 0x09"

section \<open>Ordered maps\<close>

text \<open>
  \<open>std::map\<close> and \<open>std::set\<close> iterate in key order, so a map is a list of pairs with strictly
  increasing keys; \<open>omap_of\<close> is the invariant.
\<close>

type_synonym ('k, 'v) omap = "('k \<times> 'v) list"

definition omap_of :: "('k::linorder, 'v) omap \<Rightarrow> bool" where
  "omap_of m \<longleftrightarrow> sorted_wrt (<) (map fst m)"

primrec omap_find :: "('k::linorder, 'v) omap \<Rightarrow> 'k \<Rightarrow> 'v option" where
  "omap_find [] k = None"
| "omap_find (p # m) k = (if fst p = k then Some (snd p) else omap_find m k)"

primrec omap_put :: "'k \<Rightarrow> 'v \<Rightarrow> ('k::linorder, 'v) omap \<Rightarrow> ('k, 'v) omap" where
  "omap_put k v [] = [(k, v)]"
| "omap_put k v (p # m) =
     (if k < fst p then (k, v) # p # m
      else if k = fst p then (k, v) # m else p # omap_put k v m)"

primrec omap_erase :: "'k \<Rightarrow> ('k::linorder, 'v) omap \<Rightarrow> ('k, 'v) omap" where
  "omap_erase k [] = []"
| "omap_erase k (p # m) = (if fst p = k then m else p # omap_erase k m)"

lemma omap_of_Nil [simp, omap_simps]: "omap_of []"
  by (simp add: omap_of_def)

lemma omap_of_Cons [omap_simps]:
  "omap_of (p # m) \<longleftrightarrow> (\<forall>k \<in> fst ` set m. fst p < k) \<and> omap_of m"
  by (auto simp: omap_of_def)

lemma omap_find_None [omap_simps]: "omap_find m k = None \<longleftrightarrow> k \<notin> fst ` set m"
  by (induction m) auto

lemma omap_find_Some_in: "omap_find m k = Some v \<Longrightarrow> (k, v) \<in> set m"
  by (induction m) (auto split: if_splits)

lemma omap_in_find: "omap_of m \<Longrightarrow> (k, v) \<in> set m \<Longrightarrow> omap_find m k = Some v"
proof (induction m)
  case (Cons p m)
  show ?case
  proof (cases "(k, v) = p")
    case False
    with Cons.prems have "(k, v) \<in> set m" by simp
    moreover from this Cons.prems have "fst p \<noteq> k" by (force simp: omap_of_Cons)
    ultimately show ?thesis using Cons by (simp add: omap_of_Cons)
  qed auto
qed simp

lemma keys_omap_put [omap_simps]: "fst ` set (omap_put k v m) = insert k (fst ` set m)"
  by (induction m) auto

lemma keys_omap_erase [omap_simps]:
  "omap_of m \<Longrightarrow> fst ` set (omap_erase k m) = fst ` set m - {k}"
  by (induction m) (auto simp: omap_of_Cons)

lemma omap_find_put [simp, omap_simps]:
  "omap_find (omap_put k v m) j = (if j = k then Some v else omap_find m j)"
  by (induction m) auto

lemma omap_find_erase [omap_simps]:
  "omap_of m \<Longrightarrow> omap_find (omap_erase k m) j = (if j = k then None else omap_find m j)"
proof (induction m)
  case (Cons p m)
  then show ?case by (force simp: omap_of_Cons omap_find_None)
qed simp

lemma omap_of_put [intro, omap_simps]: "omap_of m \<Longrightarrow> omap_of (omap_put k v m)"
proof (induction m)
  case (Cons p m)
  then show ?case by (auto simp: omap_of_Cons keys_omap_put)
qed (simp add: omap_of_def)

lemma omap_of_erase [intro, omap_simps]: "omap_of m \<Longrightarrow> omap_of (omap_erase k m)"
  by (induction m) (auto simp: omap_of_Cons keys_omap_erase)

lemma set_omap_erase_subset: "set (omap_erase k m) \<subseteq> set m"
  by (induction m) auto

lemma omap_put_put [omap_simps]: "omap_put k v (omap_put k u m) = omap_put k v m"
  by (induction m) auto

lemma length_omap_erase:
  "omap_of m \<Longrightarrow> k \<in> fst ` set m \<Longrightarrow> Suc (length (omap_erase k m)) = length m"
  by (induction m) (auto simp: omap_of_Cons)

lemma omap_put_new_last:
  "omap_of m \<Longrightarrow> \<forall>j \<in> fst ` set m. j < k \<Longrightarrow> omap_put k v m = m @ [(k, v)]"
  by (induction m) (auto simp: omap_of_Cons)

lemma set_omap_put: "set (omap_put k v m) \<subseteq> insert (k, v) (set m)"
  by (induction m) auto

lemma omap_find_map_of: "omap_find m k = map_of m k"
  by (induction m) auto

lemma omap_eqI:
  assumes "omap_of a" "omap_of b" "\<And>k. omap_find a k = omap_find b k"
  shows "a = b"
proof -
  have s: "set a = set b"
    using omap_in_find [OF assms(1)] omap_in_find [OF assms(2)] omap_find_Some_in assms(3) by (metis subrelI subset_antisym)
  have "inj_on fst (set b)"
  proof (rule inj_onI)
    fix p q
    assume "p \<in> set b" "q \<in> set b" "fst p = fst q"
    then have "Some (snd p) = Some (snd q)"
      using omap_in_find [OF assms(2)] by (metis prod.collapse)
    then show "p = q" using \<open>fst p = fst q\<close> by (simp add: prod_eq_iff)
  qed
  then show ?thesis using assms(1,2) s
    by (intro map_sorted_distinct_set_unique [of fst])
      (auto simp: omap_of_def strict_sorted_iff)
qed

lemma omap_put_same: "omap_of m \<Longrightarrow> omap_find m k = Some x \<Longrightarrow> omap_put k x m = m"
  by (rule omap_eqI) (auto simp: omap_of_put)

section \<open>Tables that only take new keys\<close>

text \<open>
  Forwards and sessions are filed under a key that must not be in use yet; what a client of such a
  table needs is that a new entry is found under its key and that no other lookup changes.
\<close>

locale keyed_table =
  fixes find :: "'t \<Rightarrow> 'k \<Rightarrow> 'v option" and ins :: "'k \<Rightarrow> 'v \<Rightarrow> 't \<Rightarrow> 't" and inv :: "'t \<Rightarrow> bool"
  assumes inv_ins: "inv t \<Longrightarrow> find t k = None \<Longrightarrow> inv (ins k v t)"
    and find_ins: "inv t \<Longrightarrow> find t k = None \<Longrightarrow> find (ins k v t) j = (if j = k then Some v else find t j)"
begin

definition add_new :: "'k \<times> 'v \<Rightarrow> 't \<Rightarrow> 't" where
  "add_new e t = (if find t (fst e) = None then ins (fst e) (snd e) t else t)"

lemma inv_add: "inv t \<Longrightarrow> inv (add_new e t)"
  by (simp add: add_new_def inv_ins)

lemma inv_adds: "inv t \<Longrightarrow> inv (fold add_new es t)"
  by (induction es arbitrary: t) (simp_all add: inv_add)

text \<open>An entry is never overwritten.\<close>

lemma kept: "inv t \<Longrightarrow> find t j = Some u \<Longrightarrow> find (add_new e t) j = Some u"
  by (cases "find t (fst e)") (auto simp: add_new_def find_ins)

lemma kept_adds: "inv t \<Longrightarrow> find t j = Some u \<Longrightarrow> find (fold add_new es t) j = Some u"
  by (induction es arbitrary: t) (simp_all add: kept inv_add)

lemma added: "inv t \<Longrightarrow> find (add_new (k, v) t) k \<noteq> None"
  by (auto simp: add_new_def find_ins)

end

text \<open>
  A table in which a key can also be filed anew and dropped, as in \<open>std::map\<close>. Both leave every
  other key alone.
\<close>

locale updatable_table = keyed_table find ins inv
  for find :: "'t \<Rightarrow> 'k \<Rightarrow> 'v option" and ins :: "'k \<Rightarrow> 'v \<Rightarrow> 't \<Rightarrow> 't" and inv :: "'t \<Rightarrow> bool" +
  fixes del :: "'k \<Rightarrow> 't \<Rightarrow> 't"
  assumes inv_put: "inv t \<Longrightarrow> inv (ins k v t)"
    and find_put: "inv t \<Longrightarrow> find (ins k v t) j = (if j = k then Some v else find t j)"
    and inv_del: "inv t \<Longrightarrow> inv (del k t)"
    and find_del: "inv t \<Longrightarrow> find (del k t) j = (if j = k then None else find t j)"
begin

text \<open>The table as a map, and what a sequence of updates and removals makes of it.\<close>

definition agrees :: "'t \<Rightarrow> ('k \<Rightarrow> 'v option) \<Rightarrow> bool" where
  "agrees t m \<longleftrightarrow> inv t \<and> find t = m"

lemma agrees_put: "agrees t m \<Longrightarrow> agrees (ins k v t) (m(k \<mapsto> v))"
  by (auto simp: agrees_def inv_put find_put)

lemma agrees_del: "agrees t m \<Longrightarrow> agrees (del k t) (m(k := None))"
  by (auto simp: agrees_def inv_del find_del)

lemma agrees_find: "agrees t m \<Longrightarrow> find t k = m k"
  by (auto simp: agrees_def)

lemma agrees_self: "inv t \<Longrightarrow> agrees t (find t)"
  by (simp add: agrees_def)

lemmas agrees_intros = agrees_put agrees_del agrees_self

end

end
