(* ===== verification/Framing.thy ===== *)
theory Framing
  imports Prelude
begin

text \<open>
  The interface between a byte stream and the frames in it. A parser looks at the bytes received
  so far and either finds a complete frame at their start or asks for more; \<open>decode_frames\<close> is the
  reference reader, which takes every complete frame there is. The laws a parser promises are the
  locale \<open>frame_parser\<close>; what any reader of chunks may rely on is proved once inside it.
\<close>

function decode_frames :: "('b list \<Rightarrow> ('c \<times> nat) option) \<Rightarrow> 'b list \<Rightarrow> 'c list \<times> 'b list" where
  "decode_frames p s =
     (case p s of
        None \<Rightarrow> ([], s)
      | Some (c, n) \<Rightarrow>
          if 0 < n \<and> n \<le> length s
          then (let (cs, r) = decode_frames p (drop n s) in (c # cs, r))
          else ([], s))"
  by pat_completeness auto
termination
  by (relation "measure (\<lambda>(p, s). length s)") auto

declare decode_frames.simps [simp del]

locale frame_parser =
  fixes parse :: "'b list \<Rightarrow> ('c \<times> nat) option"
  assumes parse_length: "parse s = Some (c, n) \<Longrightarrow> 0 < n \<and> n \<le> length s"
    and parse_more: "parse s = Some (c, n) \<Longrightarrow> parse (s @ t) = Some (c, n)"
begin

lemma decode_none: "parse s = None \<Longrightarrow> decode_frames parse s = ([], s)"
  by (subst decode_frames.simps) simp

lemma decode_some:
  "parse s = Some (c, n) \<Longrightarrow>
   decode_frames parse s = (let (cs, r) = decode_frames parse (drop n s) in (c # cs, r))"
  by (subst decode_frames.simps) (simp add: parse_length)

text \<open>Decoding is compatible with cutting the stream anywhere.\<close>

lemma decode_append:
  "decode_frames parse (s @ t) =
     (let (cs, r) = decode_frames parse s; (ds, q) = decode_frames parse (r @ t) in (cs @ ds, q))"
proof (induction s rule: length_induct)
  case (1 s)
  show ?case
  proof (cases "parse s")
    case None
    then show ?thesis by (simp add: decode_none split: prod.splits)
  next
    case (Some a)
    obtain c n where a: "a = (c, n)" by (cases a)
    with Some have p: "parse s = Some (c, n)" by simp
    from parse_length [OF p] have n: "0 < n" "n \<le> length s" by auto
    then have "length (drop n s) < length s" by simp
    with 1 have ih: "decode_frames parse (drop n s @ t) =
      (let (cs, r) = decode_frames parse (drop n s); (ds, q) = decode_frames parse (r @ t)
       in (cs @ ds, q))" by blast
    have "drop n (s @ t) = drop n s @ t" using n by simp
    with ih show ?thesis
      by (simp add: decode_some [OF p] decode_some [OF parse_more [OF p]] split: prod.splits)
  qed
qed

text \<open>The rest the reference reader leaves holds no complete frame, and nothing is lost.\<close>

lemma decode_rest_incomplete: "parse (snd (decode_frames parse s)) = None"
proof (induction s rule: length_induct)
  case (1 s)
  show ?case
  proof (cases "parse s")
    case (Some a)
    obtain c n where "a = (c, n)" by (cases a)
    with Some have p: "parse s = Some (c, n)" by simp
    from parse_length [OF p] have "length (drop n s) < length s" by auto
    with 1 have "parse (snd (decode_frames parse (drop n s))) = None" by blast
    then show ?thesis by (simp add: decode_some [OF p] case_prod_unfold Let_def)
  qed (simp add: decode_none)
qed

lemma decode_twice:
  "decode_frames parse (snd (decode_frames parse s)) = ([], snd (decode_frames parse s))"
  by (rule decode_none) (rule decode_rest_incomplete)

text \<open>
  A reader that has taken some frames off the front of the stream and keeps the rest, and is
  then given more bytes: taking frames early never changes the frames of the whole stream.
\<close>

lemma decode_resume:
  assumes "decode_frames parse s = (cs @ fst (decode_frames parse r), snd (decode_frames parse r))"
  shows "decode_frames parse (s @ t) =
    (cs @ fst (decode_frames parse (r @ t)), snd (decode_frames parse (r @ t)))"
  using assms by (simp add: decode_append [of s t] decode_append [of r t] split: prod.splits)

end

end
