(* ===== verification/Wire.thy ===== *)
theory Wire
  imports Framing
begin

text \<open>
  The command channel between the conference control server and the bridge:
  \<open>bridgeserver/IceConnection.h\<close>, \<open>bridgeserver/IceConnection.cpp\<close> and
  \<open>constructCommandBuffer\<close> of \<open>bridgeserver/IceService.cpp\<close>. A command is a 16 byte header (4 bytes
  operation, 8 bytes session id, 4 bytes length, in host order) and its content. Integers are laid
  out little endian, the order of the hosts the server is built for.
\<close>

section \<open>Commands\<close>

datatype ICE_OP =
    ICE_OP_NON | ICE_OP_PREPARE_SESSION | ICE_OP_LOCAL_INFO | ICE_OP_START_SESSION
  | ICE_OP_JOIN_SESSION | ICE_OP_ICE_RESULT | ICE_OP_RELAY_SESSION | ICE_OP_STOP_SESSION
  | ICE_OP_END

fun op_value :: "ICE_OP \<Rightarrow> u32" where
  "op_value ICE_OP_NON = 0"
| "op_value ICE_OP_PREPARE_SESSION = 1"
| "op_value ICE_OP_LOCAL_INFO = 2"
| "op_value ICE_OP_START_SESSION = 3"
| "op_value ICE_OP_JOIN_SESSION = 4"
| "op_value ICE_OP_ICE_RESULT = 5"
| "op_value ICE_OP_RELAY_SESSION = 6"
| "op_value ICE_OP_STOP_SESSION = 7"
| "op_value ICE_OP_END = 50"

text \<open>The cast \<open>(ICE_OP)command.op\<close>: any other number is no enumerator.\<close>

definition op_cast :: "u32 \<Rightarrow> ICE_OP option" where
  "op_cast w =
     (if w = 0 then Some ICE_OP_NON else if w = 1 then Some ICE_OP_PREPARE_SESSION
      else if w = 2 then Some ICE_OP_LOCAL_INFO else if w = 3 then Some ICE_OP_START_SESSION
      else if w = 4 then Some ICE_OP_JOIN_SESSION else if w = 5 then Some ICE_OP_ICE_RESULT
      else if w = 6 then Some ICE_OP_RELAY_SESSION else if w = 7 then Some ICE_OP_STOP_SESSION
      else if w = 50 then Some ICE_OP_END else None)"

lemma op_cast_value [simp]: "op_cast (op_value p) = Some p"
  by (cases p) (simp_all add: op_cast_def)

lemma op_value_inject [simp]: "op_value p = op_value q \<longleftrightarrow> p = q"
  by (metis op_cast_value option.inject)

fun enumKey :: "ICE_OP option \<Rightarrow> string" where
  "enumKey (Some ICE_OP_NON) = ''ICE_OP_NON''"
| "enumKey (Some ICE_OP_PREPARE_SESSION) = ''ICE_OP_PREPARE_SESSION''"
| "enumKey (Some ICE_OP_LOCAL_INFO) = ''ICE_OP_LOCAL_INFO''"
| "enumKey (Some ICE_OP_START_SESSION) = ''ICE_OP_START_SESSION''"
| "enumKey (Some ICE_OP_JOIN_SESSION) = ''ICE_OP_JOIN_SESSION''"
| "enumKey (Some ICE_OP_ICE_RESULT) = ''ICE_OP_ICE_RESULT''"
| "enumKey (Some ICE_OP_RELAY_SESSION) = ''ICE_OP_RELAY_SESSION''"
| "enumKey (Some ICE_OP_STOP_SESSION) = ''ICE_OP_STOP_SESSION''"
| "enumKey (Some ICE_OP_END) = ''ICE_OP_END''"
| "enumKey None = []"

type_synonym SessionID = u64

record IceCommand =
  cmd_op :: u32
  cmd_sessionId :: SessionID
  cmd_content :: "byte list"

definition ICE_COMMAND_HEADER_LEN :: nat where
  "ICE_COMMAND_HEADER_LEN = 16"

definition MAX_COMMAND_LEN :: nat where
  "MAX_COMMAND_LEN = 10 * 1024"

lemmas wire_consts = ICE_COMMAND_HEADER_LEN_def MAX_COMMAND_LEN_def

section \<open>Writing a command\<close>

text \<open>
  The guard adds in 32 bits, as \<open>uint32_t + unsigned\<close> does. \<open>data\<close> is the memory the caller
  passes (\<open>None\<close> for a null pointer): copying more bytes than it or the buffer has is out of bounds.
\<close>

definition constructCommandBuffer ::
  "byte list \<Rightarrow> ICE_OP \<Rightarrow> SessionID \<Rightarrow> byte list option \<Rightarrow> u32 \<Rightarrow> (bool \<times> byte list) outcome" where
  "constructCommandBuffer buffer op sid data dataLen =
     (if dataLen + of_nat ICE_COMMAND_HEADER_LEN > of_nat MAX_COMMAND_LEN then Inr (False, buffer)
      else if length buffer < ICE_COMMAND_HEADER_LEN then Inl OutOfBounds
      else
        let buf1 = put_at 0 (le_bytes 4 (unat (op_value op))) buffer;
            buf2 = put_at 4 (le_bytes 8 (unat sid)) buf1;
            buf3 = put_at (ICE_COMMAND_HEADER_LEN - 4) (le_bytes 4 (unat dataLen)) buf2
        in case data of
             None \<Rightarrow> Inr (True, buf3)
           | Some src \<Rightarrow>
               if unat dataLen \<le> length src \<and> ICE_COMMAND_HEADER_LEN + unat dataLen \<le> length buf3
               then Inr (True, put_at ICE_COMMAND_HEADER_LEN (take (unat dataLen) src) buf3)
               else Inl OutOfBounds)"

section \<open>Reading commands\<close>

text \<open>
  \<open>parseCommand\<close> on the \<open>nLength\<close> bytes at \<open>pDataBuffer\<close>; \<open>None\<close> is its \<open>return false\<close>. The length
  is read through an \<open>unsigned short*\<close>: two bytes.
\<close>

definition parse_frame :: "byte list \<Rightarrow> (IceCommand \<times> nat) option" where
  "parse_frame d =
     (if length d < ICE_COMMAND_HEADER_LEN then None
      else let contentLen = le_nat (get_at (ICE_COMMAND_HEADER_LEN - 4) 2 d)
           in if contentLen > length d - ICE_COMMAND_HEADER_LEN then None
              else Some (\<lparr>cmd_op = of_nat (le_nat (get_at 0 4 d)),
                          cmd_sessionId = of_nat (le_nat (get_at 4 8 d)),
                          cmd_content = get_at ICE_COMMAND_HEADER_LEN contentLen d\<rparr>,
                         ICE_COMMAND_HEADER_LEN + contentLen))"

definition parseCommand :: "byte list \<Rightarrow> (IceCommand \<times> nat) option outcome" where
  "parseCommand d = (if length d = 0 then Inl AssertFailed else Inr (parse_frame d))"

lemma parse_frame_length: "parse_frame s = Some (c, n) \<Longrightarrow> 16 \<le> n \<and> n \<le> length s"
  by (auto simp: parse_frame_def wire_consts Let_def split: if_splits)

lemma parse_frame_more: "parse_frame s = Some (c, n) \<Longrightarrow> parse_frame (s @ t) = Some (c, n)"
  by (auto simp: parse_frame_def wire_consts get_at_def Let_def split: if_splits)

interpretation wire: frame_parser parse_frame
proof unfold_locales
  fix s c n assume "parse_frame s = Some (c, n)"
  then show "0 < n \<and> n \<le> length s" using parse_frame_length by fastforce
qed (rule parse_frame_more)

text \<open>
  The loop of \<open>handleCommand\<close>. Its guard compares the bytes used with the length of the data that
  just arrived, not with the length of the buffer.
\<close>

function handle_loop :: "byte list \<Rightarrow> nat \<Rightarrow> nat \<Rightarrow> (IceCommand list \<times> nat) outcome" where
  "handle_loop buf dataLen totalUsedLen =
     (if dataLen > totalUsedLen then
        (case parseCommand (drop totalUsedLen buf) of
           Inl e \<Rightarrow> Inl e
         | Inr None \<Rightarrow> Inr ([], totalUsedLen)
         | Inr (Some (command, usedLen)) \<Rightarrow>
             (case handle_loop buf dataLen (totalUsedLen + usedLen) of
                Inl e \<Rightarrow> Inl e
              | Inr (commands, used) \<Rightarrow> Inr (command # commands, used)))
      else Inr ([], totalUsedLen))"
  by pat_completeness auto
termination
  by (relation "measure (\<lambda>(buf, dataLen, used). dataLen - used)")
     (auto simp: parseCommand_def dest: parse_frame_length split: if_splits)

declare handle_loop.simps [simp del]

text \<open>
  One call: the commands handed to \<open>handleIceCommand\<close>, in order, and the new \<open>recvBuffer_\<close>.
\<close>

definition handleCommand :: "byte list \<Rightarrow> byte list \<Rightarrow> (IceCommand list \<times> byte list) outcome" where
  "handleCommand recvBuffer data =
     (if length data = 0 then Inl AssertFailed
      else let buf = recvBuffer @ data
           in case handle_loop buf (length data) 0 of
                Inl e \<Rightarrow> Inl e
              | Inr (commands, used) \<Rightarrow>
                  if \<not> used \<le> length buf then Inl AssertFailed
                  else Inr (commands, if used = length buf then [] else drop used buf))"

text \<open>
  \<open>Connection::readCallback\<close> empties the input in pieces of at most \<open>sizeof(msg) - 1\<close> bytes and
  hands each to \<open>handleCommand\<close>.
\<close>

function read_pieces :: "byte list \<Rightarrow> byte list list" where
  "read_pieces input =
     (if length input = 0 then [] else take 4095 input # read_pieces (drop 4095 input))"
  by pat_completeness auto
termination by (relation "measure length") auto

declare read_pieces.simps [simp del]

fun handle_pieces :: "byte list \<Rightarrow> byte list list \<Rightarrow> (IceCommand list \<times> byte list) outcome" where
  "handle_pieces recvBuffer [] = Inr ([], recvBuffer)"
| "handle_pieces recvBuffer (d # ds) =
     (case handleCommand recvBuffer d of
        Inl e \<Rightarrow> Inl e
      | Inr (cs, recvBuffer') \<Rightarrow>
          (case handle_pieces recvBuffer' ds of
             Inl e \<Rightarrow> Inl e
           | Inr (cs', recvBuffer'') \<Rightarrow> Inr (cs @ cs', recvBuffer'')))"

definition readCallback :: "byte list \<Rightarrow> byte list \<Rightarrow> (IceCommand list \<times> byte list) outcome" where
  "readCallback recvBuffer input = handle_pieces recvBuffer (read_pieces input)"

section \<open>The stream is read exactly\<close>

lemma handle_loop_decodes:
  assumes "used \<le> length buf" "dataLen \<le> length buf"
  shows "\<exists>cs t. handle_loop buf dataLen used = Inr (cs, t) \<and> used \<le> t \<and> t \<le> length buf
    \<and> decode_frames parse_frame (drop used buf) =
        (cs @ fst (decode_frames parse_frame (drop t buf)),
         snd (decode_frames parse_frame (drop t buf)))
    \<and> (dataLen \<le> t \<or> parse_frame (drop t buf) = None)"
  using assms
proof (induction buf dataLen used rule: handle_loop.induct)
  case (1 buf dataLen used)
  show ?case
  proof (cases "dataLen > used")
    case False
    then show ?thesis using "1.prems" by (simp add: handle_loop.simps)
  next
    case True
    then have pc: "parseCommand (drop used buf) = Inr (parse_frame (drop used buf))"
      using "1.prems" by (simp add: parseCommand_def)
    show ?thesis
    proof (cases "parse_frame (drop used buf)")
      case None
      then show ?thesis using True pc "1.prems"
        by (simp add: handle_loop.simps [of buf dataLen used] wire.decode_none)
    next
      case (Some a)
      obtain c n where a: "a = (c, n)" by (cases a)
      with Some have p: "parse_frame (drop used buf) = Some (c, n)" by simp
      have n: "n \<le> length buf - used" using parse_frame_length [OF p] by simp
      with "1.prems" have le: "used + n \<le> length buf" by simp
      from True pc p le "1.prems"(2) have "\<exists>cs t. handle_loop buf dataLen (used + n) = Inr (cs, t)
        \<and> used + n \<le> t \<and> t \<le> length buf
        \<and> decode_frames parse_frame (drop (used + n) buf) =
            (cs @ fst (decode_frames parse_frame (drop t buf)),
             snd (decode_frames parse_frame (drop t buf)))
        \<and> (dataLen \<le> t \<or> parse_frame (drop t buf) = None)"
        by (intro "1.IH" [of "Some (c, n)" "(c, n)" c n]) simp_all
      then obtain cs t where
        h: "handle_loop buf dataLen (used + n) = Inr (cs, t)" "used + n \<le> t" "t \<le> length buf"
          "decode_frames parse_frame (drop (used + n) buf) =
            (cs @ fst (decode_frames parse_frame (drop t buf)),
             snd (decode_frames parse_frame (drop t buf)))"
          "dataLen \<le> t \<or> parse_frame (drop t buf) = None"
        by blast
      have "drop n (drop used buf) = drop (used + n) buf" by (simp add: add.commute)
      with h(4) wire.decode_some [OF p] have
        "decode_frames parse_frame (drop used buf) =
          (c # cs @ fst (decode_frames parse_frame (drop t buf)),
           snd (decode_frames parse_frame (drop t buf)))" by simp
      then show ?thesis using True pc p h by (simp add: handle_loop.simps [of buf dataLen used])
    qed
  qed
qed

text \<open>
  One call never fails an assertion; what it leaves, decoded later, continues the stream; and
  it stops early only when it has used as many bytes as arrived.
\<close>

lemma handleCommand_decodes:
  assumes "data \<noteq> []"
  shows "\<exists>cs r. handleCommand recv data = Inr (cs, r)
    \<and> decode_frames parse_frame (recv @ data) =
        (cs @ fst (decode_frames parse_frame r), snd (decode_frames parse_frame r))
    \<and> (length r \<le> length recv \<or> parse_frame r = None)"
proof -
  from handle_loop_decodes [of 0 "recv @ data" "length data"] obtain cs t where
    h: "handle_loop (recv @ data) (length data) 0 = Inr (cs, t)" "t \<le> length (recv @ data)"
      "decode_frames parse_frame (recv @ data) =
        (cs @ fst (decode_frames parse_frame (drop t (recv @ data))),
         snd (decode_frames parse_frame (drop t (recv @ data))))"
      "length data \<le> t \<or> parse_frame (drop t (recv @ data)) = None"
    by auto
  let ?r = "drop t (recv @ data)"
  have hc: "handleCommand recv data = Inr (cs, ?r)"
    using h(1,2) assms by (auto simp: handleCommand_def Let_def simp del: drop_append)
  have "length ?r \<le> length recv \<or> parse_frame ?r = None" using h(4) by auto
  with hc h(3) show ?thesis by blast
qed

lemma concat_read_pieces [simp]: "concat (read_pieces s) = s"
  by (induction s rule: read_pieces.induct) (subst read_pieces.simps, auto)

lemma read_pieces_nonempty: "d \<in> set (read_pieces s) \<Longrightarrow> d \<noteq> [] \<and> length d \<le> 4095"
  by (induction s rule: read_pieces.induct) (subst (asm) (2) read_pieces.simps, auto split: if_splits)

lemma handle_pieces_decodes:
  assumes "[] \<notin> set ds"
  shows "\<exists>cs r. handle_pieces recv ds = Inr (cs, r)
    \<and> decode_frames parse_frame (recv @ concat ds) =
        (cs @ fst (decode_frames parse_frame r), snd (decode_frames parse_frame r))"
  using assms
proof (induction ds arbitrary: recv)
  case Nil
  show ?case by simp
next
  case (Cons d ds)
  then have "d \<noteq> []" by auto
  from handleCommand_decodes [OF this, of recv] obtain cs r where
    h: "handleCommand recv d = Inr (cs, r)"
      "decode_frames parse_frame (recv @ d) =
        (cs @ fst (decode_frames parse_frame r), snd (decode_frames parse_frame r))" by blast
  from Cons obtain cs' r' where
    i: "handle_pieces r ds = Inr (cs', r')"
      "decode_frames parse_frame (r @ concat ds) =
        (cs' @ fst (decode_frames parse_frame r'), snd (decode_frames parse_frame r'))"
    by fastforce
  from wire.decode_resume [OF h(2), of "concat ds"] i(2)
  have "decode_frames parse_frame (recv @ concat (d # ds)) =
      ((cs @ cs') @ fst (decode_frames parse_frame r'), snd (decode_frames parse_frame r'))"
    by simp
  moreover have "handle_pieces recv (d # ds) = Inr (cs @ cs', r')" using h(1) i(1) by simp
  ultimately show ?case by blast
qed

section \<open>Properties\<close>

lemma header_guard:
  "(dataLen + of_nat ICE_COMMAND_HEADER_LEN > (of_nat MAX_COMMAND_LEN :: u32))
    \<longleftrightarrow> 10224 < unat dataLen \<and> unat dataLen < 2 ^ 32 - 16"
proof -
  have b: "unat dataLen < 2 ^ 32" using unsigned_less [of dataLen] by simp
  have "unat (dataLen + 16) = (unat dataLen + 16) mod 2 ^ 32"
    by (simp add: unat_word_ariths)
  moreover have "(unat dataLen + 16) mod 2 ^ 32
      = (if unat dataLen < 2 ^ 32 - 16 then unat dataLen + 16 else unat dataLen + 16 - 2 ^ 32)"
    using b by (simp add: mod_if)
  ultimately show ?thesis using b
    by (auto simp: wire_consts word_less_nat_alt split: if_splits)
qed

lemma written_frame:
  assumes "length buffer = MAX_COMMAND_LEN" "length content \<le> MAX_COMMAND_LEN - ICE_COMMAND_HEADER_LEN"
  shows "\<exists>buf. constructCommandBuffer buffer op sid (Some content) (of_nat (length content))
      = Inr (True, buf) \<and> length buf = length buffer
    \<and> take (16 + length content) buf =
        le_bytes 4 (unat (op_value op)) @ le_bytes 8 (unat sid) @ le_bytes 4 (length content) @ content"
proof -
  have len: "length content \<le> 10224" and b: "length buffer = 10240"
    using assms by (simp_all add: wire_consts)
  have u: "unat (of_nat (length content) :: u32) = length content"
    using len by (simp add: unat_of_nat take_bit_eq_mod)
  have g: "\<not> of_nat (length content) + of_nat ICE_COMMAND_HEADER_LEN > (of_nat MAX_COMMAND_LEN :: u32)"
    using u len by (subst header_guard) simp
  show ?thesis
    using g u len b
    by (simp add: constructCommandBuffer_def wire_consts put_at_def Let_def)
qed

lemma parse_written_frame:
  assumes "n < 2 ^ 32" "n mod 65536 \<le> length body"
  shows "parse_frame (le_bytes 4 (unat opw) @ le_bytes 8 (unat sid) @ le_bytes 4 n @ body)
    = Some (\<lparr>cmd_op = opw, cmd_sessionId = sid, cmd_content = take (n mod 65536) body\<rparr>,
            16 + n mod 65536)"
proof -
  let ?d = "le_bytes 4 (unat opw) @ le_bytes 8 (unat sid) @ le_bytes 4 n @ body"
  have l: "take 2 (le_bytes 4 n) = le_bytes 2 n" by (simp add: take_le_bytes)
  have len: "le_nat (get_at 12 2 ?d) = n mod 65536"
    using l by (simp add: get_at_def le_nat_le_bytes)
  have opv: "of_nat (le_nat (get_at 0 4 ?d)) = opw"
    by (simp add: get_at_def le_nat_le_bytes)
  have sidv: "of_nat (le_nat (get_at 4 8 ?d)) = sid"
    by (simp add: get_at_def le_nat_le_bytes)
  have cont: "get_at 16 k ?d = take k body" for k by (simp add: get_at_def)
  have "\<not> length ?d < 16" and "\<not> n mod 65536 > length ?d - 16"
    using assms(2) by simp_all
  then show ?thesis
    by (simp only: parse_frame_def wire_consts Let_def if_False diff_numeral_simps len opv sidv cont)
       (simp add: len)
qed

text \<open>
  C1: Round trip of the command channel. Any operation, session id and content that fits the
  10 KB command buffer is written without touching memory outside of it, and the receiver's
  parser, given those bytes with anything after them, returns exactly that command and the
  number of bytes it occupied.
\<close>
theorem command_roundtrip:
  assumes "length buffer = MAX_COMMAND_LEN" "length content \<le> MAX_COMMAND_LEN - ICE_COMMAND_HEADER_LEN"
  shows "\<exists>buf. constructCommandBuffer buffer op sid (Some content) (of_nat (length content))
      = Inr (True, buf) \<and> length buf = length buffer
    \<and> parseCommand (take (16 + length content) buf @ rest)
      = Inr (Some (\<lparr>cmd_op = op_value op, cmd_sessionId = sid, cmd_content = content\<rparr>,
                   16 + length content))"
proof -
  from written_frame [OF assms, of op sid] obtain buf where
    w: "constructCommandBuffer buffer op sid (Some content) (of_nat (length content)) = Inr (True, buf)"
      "length buf = length buffer"
      "take (16 + length content) buf =
        le_bytes 4 (unat (op_value op)) @ le_bytes 8 (unat sid) @ le_bytes 4 (length content) @ content"
    by blast
  have "length content < 2 ^ 32" "length content mod 65536 = length content"
    using assms(2) by (simp_all add: wire_consts)
  with parse_written_frame [of "length content" "content @ rest" "op_value op" sid] w
  have "parseCommand (take (16 + length content) buf @ rest)
      = Inr (Some (\<lparr>cmd_op = op_value op, cmd_sessionId = sid, cmd_content = content\<rparr>,
                   16 + length content))"
    by (simp add: parseCommand_def)
  with w(1,2) show ?thesis by blast
qed

theorem command_roundtrip_witness:
  "\<exists>buf. constructCommandBuffer (replicate 10240 0) ICE_OP_LOCAL_INFO 7 (Some [123, 125]) 2
      = Inr (True, buf) \<and> length buf = 10240
    \<and> parseCommand (take 18 buf @ [1]) =
        Inr (Some (\<lparr>cmd_op = 2, cmd_sessionId = 7, cmd_content = [123, 125]\<rparr>, 18))"
  using command_roundtrip [of "replicate 10240 0" "[123, 125]" ICE_OP_LOCAL_INFO 7 "[1]"]
  by (simp add: wire_consts)

text \<open>
  The length guard of the writer, on every length: up to 10224 bytes are written, larger
  lengths are refused and leave the buffer alone, except for the last sixteen values of
  \<open>uint32_t\<close>, where the guard's addition wraps to a small number: the guard passes and the copy
  runs out of the buffer.
\<close>
theorem constructCommandBuffer_guard:
  assumes "length buffer = MAX_COMMAND_LEN" "unat dataLen \<le> length src"
  shows "case constructCommandBuffer buffer op sid (Some src) dataLen of
      Inr (True, buf) \<Rightarrow> unat dataLen \<le> 10224
    | Inr (False, buf) \<Rightarrow> 10224 < unat dataLen \<and> unat dataLen < 2 ^ 32 - 16 \<and> buf = buffer
    | Inl e \<Rightarrow> e = OutOfBounds \<and> 2 ^ 32 - 16 \<le> unat dataLen"
proof (cases "dataLen + of_nat ICE_COMMAND_HEADER_LEN > (of_nat MAX_COMMAND_LEN :: u32)")
  case True
  then show ?thesis using header_guard [of dataLen] by (simp add: constructCommandBuffer_def)
next
  case False
  then have "unat dataLen \<le> 10224 \<or> 2 ^ 32 - 16 \<le> unat dataLen"
    using header_guard [of dataLen] by auto
  with False assms show ?thesis
    by (auto simp: constructCommandBuffer_def Let_def wire_consts)
qed

theorem constructCommandBuffer_guard_witness:
  "case constructCommandBuffer (replicate 10240 0) ICE_OP_LOCAL_INFO 7 (Some (replicate 20000 1)) 20000 of
      Inr (True, buf) \<Rightarrow> unat (20000 :: u32) \<le> 10224
    | Inr (False, buf) \<Rightarrow> 10224 < unat (20000 :: u32) \<and> unat (20000 :: u32) < 2 ^ 32 - 16
        \<and> buf = replicate 10240 0
    | Inl e \<Rightarrow> e = OutOfBounds \<and> 2 ^ 32 - 16 \<le> unat (20000 :: u32)"
  using constructCommandBuffer_guard
    [of "replicate 10240 0" 20000 "replicate 20000 1" ICE_OP_LOCAL_INFO 7]
  by (simp add: wire_consts)


text \<open>
  When fewer bytes than a header were buffered, one call of \<open>handleCommand\<close> hands out every
  complete command there is: it behaves as the reference reader.
\<close>
theorem handleCommand_complete:
  assumes "length recv < ICE_COMMAND_HEADER_LEN" "data \<noteq> []"
  shows "handleCommand recv data = Inr (decode_frames parse_frame (recv @ data))"
proof -
  from handleCommand_decodes [OF assms(2), of recv] obtain cs r where
    h: "handleCommand recv data = Inr (cs, r)"
      "decode_frames parse_frame (recv @ data) =
        (cs @ fst (decode_frames parse_frame r), snd (decode_frames parse_frame r))"
      "length r \<le> length recv \<or> parse_frame r = None" by blast
  with assms(1) have "parse_frame r = None"
    by (auto simp: parse_frame_def wire_consts)
  with h show ?thesis by (simp add: wire.decode_none)
qed

theorem handleCommand_complete_witness:
  "handleCommand [1, 0, 0] (0 # le_bytes 8 7 @ le_bytes 4 1 @ [65, 66])
    = Inr (decode_frames parse_frame ([1, 0, 0] @ 0 # le_bytes 8 7 @ le_bytes 4 1 @ [65, 66]))"
  by (rule handleCommand_complete) (simp_all add: wire_consts)

text \<open>
  With more than a header buffered the loop can stop too early: here the last byte of one
  command and a second, complete command arrive together, the first is handed out, and the
  second stays in the buffer although it is complete.
\<close>
theorem handleCommand_leaves_command:
  "\<exists>c1 c2 recv data r. parse_frame recv = None
    \<and> handleCommand recv data = Inr ([c1], r)
    \<and> decode_frames parse_frame (recv @ data) = ([c1, c2], [])
    \<and> parse_frame r = Some (c2, length r)"
proof -
  let ?a = "le_bytes 4 1 @ le_bytes 8 7 @ le_bytes 4 17 @ replicate 16 65"
  let ?b = "65 # le_bytes 4 7 @ le_bytes 8 7 @ le_bytes 4 0"
  let ?c1 = "\<lparr>cmd_op = 1, cmd_sessionId = 7, cmd_content = replicate 17 65\<rparr>"
  let ?c2 = "\<lparr>cmd_op = 7, cmd_sessionId = 7, cmd_content = []\<rparr>"
  have a: "parse_frame ?a = None"
    by (simp add: parse_frame_def wire_consts get_at_def take_le_bytes le_nat_le_bytes Let_def)
  have r17: "replicate 16 65 @ [65] = replicate 17 (65 :: byte)"
    using replicate_append_same [of 16 "65 :: byte"] replicate_Suc [of 16 "65 :: byte"] by simp
  have p1: "parse_frame (?a @ ?b) = Some (?c1, 33)"
    using parse_written_frame [of 17 "replicate 16 65 @ ?b" 1 7]
    using r17 by simp
  let ?s = "le_bytes 4 7 @ le_bytes 8 7 @ le_bytes 4 0 :: byte list"
  have p2: "parse_frame ?s = Some (?c2, 16)"
    using parse_written_frame [of 0 "[]" 7 7] by simp
  have dr: "drop 33 (?a @ ?b) = ?s" by simp
  have d2: "decode_frames parse_frame ?s = ([?c2], [])"
    by (simp add: wire.decode_some [OF p2] wire.decode_none parse_frame_def wire_consts)
  have d1: "decode_frames parse_frame (?a @ ?b) = ([?c1, ?c2], [])"
    by (simp only: wire.decode_some [OF p1] dr d2) simp
  have l33: "handle_loop (?a @ ?b) (length ?b) 33 = Inr ([], 33)"
    by (subst handle_loop.simps) simp
  have "handle_loop (?a @ ?b) (length ?b) 0 = Inr ([?c1], 33)"
    using p1 l33 by (subst handle_loop.simps) (simp add: parseCommand_def)
  then have "handleCommand ?a ?b = Inr ([?c1], drop 33 (?a @ ?b))"
    by (simp add: handleCommand_def Let_def del: drop_append)
  then have "handleCommand ?a ?b = Inr ([?c1], ?s)" by (simp only: dr)
  moreover have "parse_frame ?s = Some (?c2, length ?s)" using p2 by simp
  ultimately show ?thesis using a d1 by blast
qed

text \<open>
  The header documents a four byte content length and the writer stores four bytes, but the
  reader loads two: a frame announcing \<open>n\<close> bytes is taken to end after \<open>n mod 65536\<close> of them, so
  contents of 64 KB and more leave the reader inside the content of the command.
\<close>
theorem parseCommand_length_16bit:
  assumes "n < 2 ^ 32" "n \<le> length body"
  shows "parseCommand (le_bytes 4 (unat opw) @ le_bytes 8 (unat sid) @ le_bytes 4 n @ body)
    = Inr (Some (\<lparr>cmd_op = opw, cmd_sessionId = sid, cmd_content = take (n mod 65536) body\<rparr>,
                 16 + n mod 65536))"
proof -
  have "n mod 65536 \<le> length body" using assms(2) by (meson le_trans mod_less_eq_dividend)
  with parse_written_frame [OF assms(1)] show ?thesis by (simp add: parseCommand_def)
qed

theorem parseCommand_length_16bit_witness:
  "parseCommand (le_bytes 4 (unat (6 :: u32)) @ le_bytes 8 (unat (7 :: u64)) @ le_bytes 4 65537
      @ replicate 65537 65)
    = Inr (Some (\<lparr>cmd_op = 6, cmd_sessionId = 7, cmd_content = take (65537 mod 65536) (replicate 65537 65)\<rparr>,
                 16 + 65537 mod 65536))"
  by (rule parseCommand_length_16bit) simp_all

end
