(* ===== verification/MediaFilter.thy ===== *)
theory MediaFilter
  imports Prelude
begin

text \<open>
  The per-packet media processing of \<open>bridgeserver/MediaFilter.h\<close>: the time stamp filter for audio,
  the marker bit filter for H.264 video, and the cache from which video packets are sent again on
  request of the XMPP client. Packets live in the receive buffer of the forwarder, which is larger
  than the datagram in it; \<open>dataLen\<close> is the length of the datagram.
\<close>

section \<open>The RTP header\<close>

text \<open>
  The packed struct \<open>rtp_hdr\<close> as the compiler lays it out on a little-endian host: bit fields from
  the low end of each byte, integers as stored (network order).
\<close>

record rtp_hdr =
  hdr_cc :: nat
  hdr_x :: bool
  hdr_p :: bool
  hdr_v :: nat
  hdr_pt :: nat
  hdr_m :: bool
  hdr_seq :: u16
  hdr_ts :: u32
  hdr_ssrc :: u32

definition sizeof_rtp_hdr :: nat where
  "sizeof_rtp_hdr = 12"

definition rtp_hdr_at :: "byte list \<Rightarrow> rtp_hdr" where
  "rtp_hdr_at d =
     \<lparr>hdr_cc = unat (d ! 0 AND 15), hdr_x = bit (d ! 0) 4, hdr_p = bit (d ! 0) 5,
      hdr_v = unat (drop_bit 6 (d ! 0)), hdr_pt = unat (d ! 1 AND 127), hdr_m = bit (d ! 1) 7,
      hdr_seq = load_u16 (get_at 2 2 d), hdr_ts = load_u32 (get_at 4 4 d),
      hdr_ssrc = load_u32 (get_at 8 4 d)\<rparr>"

definition timeStamp :: "rtp_hdr \<Rightarrow> u32" where
  "timeStamp h = ntohl (hdr_ts h)"

definition setTimeStamp :: "u32 \<Rightarrow> rtp_hdr \<Rightarrow> rtp_hdr" where
  "setTimeStamp t h = h\<lparr>hdr_ts := htonl t\<rparr>"

definition rtp_sequence :: "rtp_hdr \<Rightarrow> u16" where
  "rtp_sequence h = ntohs (hdr_seq h)"

lemma timeStamp_set [simp]: "timeStamp (setTimeStamp t h) = t"
  by (simp add: timeStamp_def setTimeStamp_def)

section \<open>Audio\<close>

text \<open>
  \<open>AudioRtpFilter::filter\<close>: multiplies the time stamp by a positive ratio or divides it by the
  magnitude of a negative one, in 32 bits. The result is the return value and the buffer.
\<close>

definition audio_filter :: "byte list \<Rightarrow> nat \<Rightarrow> int \<Rightarrow> bool \<times> byte list" where
  "audio_filter data dataLen sample_ratio =
     (if dataLen < sizeof_rtp_hdr then (True, data)
      else if sample_ratio = 0 then (True, data)
      else let ps = load_u32 (get_at 4 4 data);
               ps' = (if sample_ratio > 0 then htonl (ntohl ps * of_int sample_ratio)
                      else htonl (ntohl ps div of_int (- sample_ratio)))
           in (True, put_at 4 (store_u32 ps') data))"

section \<open>Video\<close>

text \<open>\<open>VideoRtpFilter::filter\<close>: sets the marker bit of single NAL unit packets.\<close>

definition video_filter :: "byte list \<Rightarrow> nat \<Rightarrow> bool \<times> byte list" where
  "video_filter data dataLen =
     (if dataLen < sizeof_rtp_hdr + 2 then (True, data)
      else let nal_type = data ! sizeof_rtp_hdr AND 0x1F
           in if nal_type > 0 \<and> nal_type < 24
              then (True, data[1 := data ! 1 OR 0x80])
              else (True, data))"

section \<open>Sending video again\<close>

definition MAX_CACHE_RTP_PKT_COUNT :: nat where
  "MAX_CACHE_RTP_PKT_COUNT = 1024"

record VideoResendService =
  rtpPackages :: "byte list list"
  supportResend :: bool

text \<open>The constructor reads \<open>xmpp_resend_video\<close> of the configuration; an absent key is empty.\<close>

definition new_VideoResendService :: "string \<Rightarrow> VideoResendService" where
  "new_VideoResendService xmpp_resend_video =
     \<lparr>rtpPackages = replicate MAX_CACHE_RTP_PKT_COUNT [],
      supportResend = (xmpp_resend_video \<noteq> ''false'')\<rparr>"

definition packet_seq :: "byte list \<Rightarrow> u16" where
  "packet_seq packet = ntohs (load_u16 (get_at 2 2 packet))"

definition cacheData :: "byte list \<Rightarrow> nat \<Rightarrow> VideoResendService \<Rightarrow> VideoResendService" where
  "cacheData rtpData dataLen v =
     (if dataLen < 12 then v
      else v\<lparr>rtpPackages := (rtpPackages v)
               [unat (packet_seq rtpData) mod MAX_CACHE_RTP_PKT_COUNT := take dataLen rtpData]\<rparr>)"

text \<open>
  The loop \<open>for (uint16_t seq = startSeq; seq <= endSeq; seq++)\<close>: the counter wraps at 65535.
  The result is the packets sent; \<open>None\<close> is a loop that never ends.
\<close>

partial_function (option) resend_loop ::
  "byte list list \<Rightarrow> u16 \<Rightarrow> u16 \<Rightarrow> byte list list \<Rightarrow> byte list list outcome option" where
  "resend_loop packages seq endSeq sent =
     (if seq \<le> endSeq then
        (let packet = packages ! (unat seq mod MAX_CACHE_RTP_PKT_COUNT)
         in if length packet < 12 then Some (Inl AssertFailed)
            else resend_loop packages (seq + 1) endSeq
                   (if packet_seq packet = seq then sent @ [packet] else sent))
      else Some (Inr sent))"

text \<open>\<open>handle\<close>: whether the packet was a resend request, and the packets sent for it.\<close>

definition handle_resend ::
  "byte list \<Rightarrow> VideoResendService \<Rightarrow> (bool \<times> byte list list) outcome option" where
  "handle_resend rtpData v =
     (if rtpData ! 0 \<noteq> 0xfb then Some (Inr (False, []))
      else if \<not> supportResend v then Some (Inr (True, []))
      else let startSeq = ntohs (load_u16 (get_at 1 2 rtpData));
               endSeq = ntohs (load_u16 (get_at 3 2 rtpData))
           in if startSeq > endSeq then Some (Inr (True, []))
              else if length (rtpPackages v) \<noteq> MAX_CACHE_RTP_PKT_COUNT then Some (Inl AssertFailed)
              else (case resend_loop (rtpPackages v) startSeq endSeq [] of
                      None \<Rightarrow> None
                    | Some (Inl e) \<Rightarrow> Some (Inl e)
                    | Some (Inr sent) \<Rightarrow> Some (Inr (True, sent))))"

section \<open>A cache with one packet per slot\<close>

text \<open>
  What the sender of cached packets needs from the cache: storing a packet makes it the content of
  its slot and leaves the other slots alone.
\<close>

locale slot_cache =
  fixes store :: "'p \<Rightarrow> 'c \<Rightarrow> 'c" and content :: "'c \<Rightarrow> nat \<Rightarrow> 'p"
    and slot :: "'p \<Rightarrow> nat" and valid :: "'p \<Rightarrow> bool" and inv :: "'c \<Rightarrow> bool"
  assumes inv_store: "inv c \<Longrightarrow> valid p \<Longrightarrow> inv (store p c)"
    and content_same: "inv c \<Longrightarrow> valid p \<Longrightarrow> content (store p c) (slot p) = p"
    and content_other: "inv c \<Longrightarrow> valid p \<Longrightarrow> i \<noteq> slot p \<Longrightarrow> content (store p c) i = content c i"
begin

lemma inv_fold: "inv c \<Longrightarrow> \<forall>p \<in> set ps. valid p \<Longrightarrow> inv (fold store ps c)"
  by (induction ps arbitrary: c) (auto intro: inv_store)

lemma content_fold_other:
  "inv c \<Longrightarrow> \<forall>p \<in> set ps. valid p \<and> slot p \<noteq> i \<Longrightarrow> content (fold store ps c) i = content c i"
  by (induction ps arbitrary: c) (auto simp: content_other inv_store)

text \<open>A packet stays in its slot until another packet for that slot arrives.\<close>

lemma content_last:
  assumes "inv c" "\<forall>q \<in> set ps. valid q" "valid p" "\<forall>q \<in> set qs. valid q \<and> slot q \<noteq> slot p"
  shows "content (fold store (ps @ p # qs) c) (slot p) = p"
proof -
  let ?c = "fold store ps c"
  have "inv ?c" using assms by (simp add: inv_fold)
  then have "inv (store p ?c)" "content (store p ?c) (slot p) = p"
    using assms(3) by (simp_all add: inv_store content_same)
  then show ?thesis using content_fold_other [of "store p ?c" qs "slot p"] assms(4) by simp
qed

end

definition cache_slot :: "byte list \<Rightarrow> nat" where
  "cache_slot p = unat (packet_seq p) mod MAX_CACHE_RTP_PKT_COUNT"

definition cache_inv :: "VideoResendService \<Rightarrow> bool" where
  "cache_inv v \<longleftrightarrow> length (rtpPackages v) = MAX_CACHE_RTP_PKT_COUNT
    \<and> (\<forall>i < MAX_CACHE_RTP_PKT_COUNT. rtpPackages v ! i = []
         \<or> 12 \<le> length (rtpPackages v ! i) \<and> cache_slot (rtpPackages v ! i) = i)"

definition cache_packet :: "byte list \<Rightarrow> VideoResendService \<Rightarrow> VideoResendService" where
  "cache_packet p v = cacheData p (length p) v"

lemma packet_seq_take: "4 \<le> n \<Longrightarrow> packet_seq (take n d) = packet_seq d"
  by (simp add: packet_seq_def get_at_def drop_take)

lemma cacheData_take:
  assumes "n \<le> length d" shows "cacheData d n v = cache_packet (take n d) v"
  using assms by (simp add: cacheData_def cache_packet_def packet_seq_take)

lemma cache_slot_bound [simp]: "cache_slot p < MAX_CACHE_RTP_PKT_COUNT"
  by (simp add: cache_slot_def MAX_CACHE_RTP_PKT_COUNT_def)

interpretation cache: slot_cache cache_packet "\<lambda>v i. rtpPackages v ! i" cache_slot
  "\<lambda>p. 12 \<le> length p" cache_inv
proof unfold_locales
  fix c :: VideoResendService and p :: "byte list"
  assume inv: "cache_inv c" and p: "12 \<le> length p"
  have upd: "rtpPackages (cache_packet p c) = (rtpPackages c)[cache_slot p := p]"
    using p by (simp add: cache_packet_def cacheData_def cache_slot_def)
  have len: "length (rtpPackages c) = MAX_CACHE_RTP_PKT_COUNT" using inv by (simp add: cache_inv_def)
  show "cache_inv (cache_packet p c)"
    using inv p by (auto simp: cache_inv_def upd nth_list_update)
  show "rtpPackages (cache_packet p c) ! cache_slot p = p" using len by (simp add: upd)
  fix i assume "i \<noteq> cache_slot p"
  then show "rtpPackages (cache_packet p c) ! i = rtpPackages c ! i" by (simp add: upd)
qed

lemma cache_inv_new: "cache_inv (new_VideoResendService s)"
  by (simp add: cache_inv_def new_VideoResendService_def)

section \<open>The resend loop\<close>

definition resend_spec :: "byte list list \<Rightarrow> nat \<Rightarrow> nat \<Rightarrow> byte list list" where
  "resend_spec packages a b =
     map (\<lambda>n. packages ! (n mod MAX_CACHE_RTP_PKT_COUNT))
       (filter (\<lambda>n. packet_seq (packages ! (n mod MAX_CACHE_RTP_PKT_COUNT)) = of_nat n) [a ..< Suc b])"

lemma resend_step:
  "seq \<le> endSeq \<Longrightarrow> 12 \<le> length (packages ! (unat seq mod MAX_CACHE_RTP_PKT_COUNT)) \<Longrightarrow>
   resend_loop packages seq endSeq sent =
     resend_loop packages (seq + 1) endSeq
       (if packet_seq (packages ! (unat seq mod MAX_CACHE_RTP_PKT_COUNT)) = seq
        then sent @ [packages ! (unat seq mod MAX_CACHE_RTP_PKT_COUNT)] else sent)"
  by (subst resend_loop.simps) (simp add: Let_def)

lemma seq_next: "(seq :: u16) \<le> e \<Longrightarrow> e \<noteq> 0xffff \<Longrightarrow> unat (seq + 1) = Suc (unat seq)"
proof -
  assume a: "seq \<le> e" "e \<noteq> 0xffff"
  have "unat e < 65536" using unsigned_less [of e] by simp
  moreover have "unat e \<noteq> 65535" using a(2) by (metis unat_of_nat_u16 word_unat_eq_iff
    numeral_less_iff of_nat_numeral semiring_norm(76) semiring_norm(78) semiring_norm(80) semiring_norm(81))
  moreover have "unat seq \<le> unat e" using a(1) by (simp add: word_le_nat_alt)
  ultimately show ?thesis by (simp add: unat_word_ariths)
qed

lemma resend_loop_returns:
  assumes "endSeq \<noteq> 0xffff" shows "\<exists>r. resend_loop packages seq endSeq sent = Some r"
proof (induction "Suc (unat endSeq) - unat seq" arbitrary: seq sent rule: less_induct)
  case less
  show ?case
  proof (cases "seq \<le> endSeq \<and> 12 \<le> length (packages ! (unat seq mod MAX_CACHE_RTP_PKT_COUNT))")
    case True
    then have "unat seq \<le> unat endSeq" by (simp add: word_le_nat_alt)
    moreover have "unat (seq + 1) = Suc (unat seq)" using True assms by (auto intro: seq_next)
    ultimately have "Suc (unat endSeq) - unat (seq + 1) < Suc (unat endSeq) - unat seq"
      by linarith
    then show ?thesis using less True by (simp add: resend_step)
  qed (auto simp: resend_loop.simps [of packages seq] Let_def)
qed

lemma resend_loop_sends:
  assumes "endSeq \<noteq> 0xffff"
    and "\<And>n. unat seq \<le> n \<Longrightarrow> n \<le> unat endSeq \<Longrightarrow>
      12 \<le> length (packages ! (n mod MAX_CACHE_RTP_PKT_COUNT))"
  shows "resend_loop packages seq endSeq sent
    = Some (Inr (sent @ resend_spec packages (unat seq) (unat endSeq)))"
  using assms(2)
proof (induction "Suc (unat endSeq) - unat seq" arbitrary: seq sent rule: less_induct)
  case less
  show ?case
  proof (cases "seq \<le> endSeq")
    case True
    then have u: "unat seq \<le> unat endSeq" by (simp add: word_le_nat_alt)
    have nx: "unat (seq + 1) = Suc (unat seq)" using True assms(1) by (rule seq_next)
    have "Suc (unat endSeq) - unat (seq + 1) < Suc (unat endSeq) - unat seq" using u nx by simp
    moreover have "[unat seq ..< Suc (unat endSeq)] = unat seq # [Suc (unat seq) ..< Suc (unat endSeq)]"
      using u by (subst upt_conv_Cons) simp_all
    ultimately show ?thesis using less True u nx
      by (simp add: resend_step resend_spec_def)
  next
    case False
    then have "unat endSeq < unat seq" by (simp add: word_le_nat_alt)
    with False show ?thesis by (simp add: resend_loop.simps [of packages seq] resend_spec_def)
  qed
qed

text \<open>With the last sequence number as the end of the range the guard never fails.\<close>

lemma resend_loop_to_max:
  assumes "resend_loop packages seq 0xffff sent = Some r"
  shows "r = Inl AssertFailed \<and> (\<exists>i < MAX_CACHE_RTP_PKT_COUNT. length (packages ! i) < 12)"
proof -
  have le: "s \<le> (0xffff :: u16)" for s
  proof -
    have "unat s < 65536" using unsigned_less [of s] by simp
    then show ?thesis by (simp add: word_le_nat_alt)
  qed
  have b: "unat s mod MAX_CACHE_RTP_PKT_COUNT < MAX_CACHE_RTP_PKT_COUNT" for s :: u16
    by (simp add: MAX_CACHE_RTP_PKT_COUNT_def)
  have "endSeq = 0xffff \<longrightarrow>
      r = Inl AssertFailed \<and> (\<exists>i < MAX_CACHE_RTP_PKT_COUNT. length (packages ! i) < 12)"
    if "resend_loop packages seq endSeq sent = Some r" for endSeq
  proof (rule resend_loop.raw_induct [where P = "\<lambda>packages seq endSeq sent r. endSeq = 0xffff \<longrightarrow>
      r = Inl AssertFailed \<and> (\<exists>i < MAX_CACHE_RTP_PKT_COUNT. length (packages ! i) < 12)", OF _ that])
    fix f packages seq endSeq sent r
    assume "\<And>packages seq endSeq sent r. f packages seq endSeq sent = Some r \<Longrightarrow> endSeq = 0xffff \<longrightarrow>
        r = Inl AssertFailed \<and> (\<exists>i < MAX_CACHE_RTP_PKT_COUNT. length (packages ! i) < 12)"
      and "(if seq \<le> endSeq then
          (let packet = packages ! (unat seq mod MAX_CACHE_RTP_PKT_COUNT)
           in if length packet < 12 then Some (Inl AssertFailed)
              else f packages (seq + 1) endSeq
                     (if packet_seq packet = seq then sent @ [packet] else sent))
        else Some (Inr sent)) = Some r"
    with le [of seq] b [of seq]
    show "endSeq = 0xffff \<longrightarrow>
        r = Inl AssertFailed \<and> (\<exists>i < MAX_CACHE_RTP_PKT_COUNT. length (packages ! i) < 12)"
      by (auto simp: Let_def split: if_splits)
  qed
  with assms show ?thesis by blast
qed

section \<open>Properties\<close>

definition resend_request :: "u16 \<Rightarrow> u16 \<Rightarrow> byte list \<Rightarrow> byte list" where
  "resend_request a b rest = 0xfb # be_bytes 2 (unat a) @ be_bytes 2 (unat b) @ rest"

lemma resend_request_fields [simp]:
  "resend_request a b rest ! 0 = 0xfb"
  "ntohs (load_u16 (get_at (Suc 0) 2 (resend_request a b rest))) = a"
  "ntohs (load_u16 (get_at 3 2 (resend_request a b rest))) = b"
proof -
  have "get_at 1 2 (resend_request a b rest) = be_bytes 2 (unat a)"
    by (simp add: resend_request_def get_at_def)
  then show "ntohs (load_u16 (get_at (Suc 0) 2 (resend_request a b rest))) = a"
    by (simp add: ntohs_load be_nat_be_bytes)
  have "get_at 3 2 (resend_request a b rest) = be_bytes 2 (unat b)"
    by (simp add: resend_request_def get_at_def)
  then show "ntohs (load_u16 (get_at 3 2 (resend_request a b rest))) = b"
    by (simp add: ntohs_load be_nat_be_bytes)
qed (simp add: resend_request_def)

lemma relayed_packet_resent:
  assumes "cache_inv v" "supportResend v"
    and "\<forall>q \<in> set ps. 12 \<le> length q" "12 \<le> length p"
    and "\<forall>q \<in> set qs. 12 \<le> length q \<and> cache_slot q \<noteq> cache_slot p"
    and "packet_seq p \<noteq> 0xffff"
  shows "handle_resend (resend_request (packet_seq p) (packet_seq p) rest)
      (fold cache_packet (ps @ p # qs) v) = Some (Inr (True, [p]))"
proof -
  let ?v = "fold cache_packet (ps @ p # qs) v"
  have slot: "rtpPackages ?v ! cache_slot p = p"
    using cache.content_last [OF assms(1,3,4,5)] by simp
  have inv: "cache_inv ?v"
    using assms cache.inv_fold [of v "ps @ p # qs"] by auto
  have sup: "supportResend (fold cache_packet qs w) = supportResend w" for qs w
    by (induction qs arbitrary: w) (simp_all add: cache_packet_def cacheData_def)
  have "resend_loop (rtpPackages ?v) (packet_seq p) (packet_seq p) []
      = Some (Inr ([] @ resend_spec (rtpPackages ?v) (unat (packet_seq p)) (unat (packet_seq p))))"
    using assms(4,6) slot by (intro resend_loop_sends) (auto simp: cache_slot_def)
  moreover have "resend_spec (rtpPackages ?v) (unat (packet_seq p)) (unat (packet_seq p)) = [p]"
    using slot by (simp add: resend_spec_def cache_slot_def)
  ultimately show ?thesis
    using assms(2) inv sup by (simp add: handle_resend_def cache_inv_def del: fold_append fold.simps)
qed

text \<open>
  A video packet that was relayed is sent again on request: after any run of relayed packets,
  a request for exactly its sequence number is answered with exactly that packet, byte for byte,
  as long as no later packet took its slot (the next one that can is 1024 sequence numbers away).
\<close>
theorem relayed_packet_is_resent:
  assumes "cache_inv v" "supportResend v"
    and "\<forall>q \<in> set ps. 12 \<le> length q" "12 \<le> length p"
    and "\<forall>q \<in> set qs. 12 \<le> length q \<and> cache_slot q \<noteq> cache_slot p"
    and "packet_seq p \<noteq> 0xffff"
  shows "handle_resend (resend_request (packet_seq p) (packet_seq p) rest)
      (fold cache_packet (ps @ p # qs) v) = Some (Inr (True, [p]))"
  using assms by (rule relayed_packet_resent)

text \<open>
  A request for a range is answered with the cached packets of the range, each at its place,
  in order of their sequence numbers, and nothing else, provided every slot of the range has been
  filled and the range does not end at 65535.
\<close>
theorem resend_range:
  assumes "supportResend v" "length (rtpPackages v) = MAX_CACHE_RTP_PKT_COUNT"
    and "a \<le> b" "b \<noteq> 0xffff"
    and "\<And>n. unat a \<le> n \<Longrightarrow> n \<le> unat b \<Longrightarrow>
      12 \<le> length (rtpPackages v ! (n mod MAX_CACHE_RTP_PKT_COUNT))"
  shows "handle_resend (resend_request a b rest) v
    = Some (Inr (True, resend_spec (rtpPackages v) (unat a) (unat b)))"
proof -
  have "resend_loop (rtpPackages v) a b []
      = Some (Inr ([] @ resend_spec (rtpPackages v) (unat a) (unat b)))"
    by (rule resend_loop_sends [OF assms(4,5)])
  moreover have "\<not> a > b" using assms(3) by simp
  ultimately show ?thesis using assms(1,2) by (simp add: handle_resend_def Let_def)
qed

text \<open>
  Every request whose range ends before 65535 is finished: the loop returns, with the packets
  or with the failed assertion of an empty slot.
\<close>
theorem resend_terminates:
  assumes "b \<noteq> 0xffff"
  shows "\<exists>r. handle_resend (resend_request a b rest) v = Some r"
proof -
  from resend_loop_returns [OF assms, of "rtpPackages v" a "[]"] obtain r where
    "resend_loop (rtpPackages v) a b [] = Some r" by blast
  then show ?thesis by (auto simp: handle_resend_def Let_def split: sum.splits)
qed

text \<open>
  A request whose range ends at sequence number 65535 is never answered: the 16 bit counter
  wraps below the end of the range, so the service ends in a failed assertion at an empty slot or,
  once all slots are filled, loops forever.
\<close>
theorem resend_to_65535_never_answers:
  assumes "supportResend v" "length (rtpPackages v) = MAX_CACHE_RTP_PKT_COUNT"
  shows "handle_resend (resend_request a 0xffff rest) v \<in> {None, Some (Inl AssertFailed)}
    \<and> ((\<forall>i < MAX_CACHE_RTP_PKT_COUNT. 12 \<le> length (rtpPackages v ! i)) \<longrightarrow>
        handle_resend (resend_request a 0xffff rest) v = None)"
proof -
  have "unat a < 65536" using unsigned_less [of a] by simp
  then have "a \<le> 0xffff" by (simp add: word_le_nat_alt)
  then have h: "handle_resend (resend_request a 0xffff rest) v
      = (case resend_loop (rtpPackages v) a 0xffff [] of None \<Rightarrow> None
         | Some (Inl e) \<Rightarrow> Some (Inl e) | Some (Inr sent) \<Rightarrow> Some (Inr (True, sent)))"
    using assms by (auto simp: handle_resend_def Let_def)
  show ?thesis
    using resend_loop_to_max [of "rtpPackages v" a "[]"]
    by (cases "resend_loop (rtpPackages v) a 0xffff []") (fastforce simp: h)+
qed

section \<open>Concrete runs\<close>

definition sample_packet :: "nat \<Rightarrow> byte list" where
  "sample_packet n = [128, 96] @ be_bytes 2 n @ replicate 8 0"

lemma sample_packet_facts [simp]:
  "length (sample_packet n) = 12"
  "n < 65536 \<Longrightarrow> packet_seq (sample_packet n) = of_nat n"
proof -
  have "get_at 2 2 (sample_packet n) = be_bytes 2 n" by (simp add: sample_packet_def get_at_def)
  then show "n < 65536 \<Longrightarrow> packet_seq (sample_packet n) = of_nat n"
    by (simp add: packet_seq_def ntohs_load be_nat_be_bytes)
qed (simp add: sample_packet_def)

theorem relayed_packet_is_resent_witness:
  "handle_resend (resend_request 5 5 [])
      (fold cache_packet ([sample_packet 4] @ sample_packet 5 # [sample_packet 6])
        (new_VideoResendService ''true''))
    = Some (Inr (True, [sample_packet 5]))"
  using relayed_packet_is_resent [of "new_VideoResendService ''true''" "[sample_packet 4]"
      "sample_packet 5" "[sample_packet 6]" "[]", OF cache_inv_new]
  by (simp add: cache_slot_def MAX_CACHE_RTP_PKT_COUNT_def new_VideoResendService_def)

definition full_cache :: VideoResendService where
  "full_cache = \<lparr>rtpPackages = map sample_packet [0 ..< 1024], supportResend = True\<rparr>"

lemma full_cache_facts [simp]:
  "supportResend full_cache" "length (rtpPackages full_cache) = MAX_CACHE_RTP_PKT_COUNT"
  "i < MAX_CACHE_RTP_PKT_COUNT \<Longrightarrow> rtpPackages full_cache ! i = sample_packet i"
  by (simp_all add: full_cache_def MAX_CACHE_RTP_PKT_COUNT_def)

theorem resend_range_witness:
  "handle_resend (resend_request 3 5 []) full_cache
    = Some (Inr (True, resend_spec (rtpPackages full_cache) (unat (3 :: u16)) (unat (5 :: u16))))"
  by (rule resend_range)
     (simp_all add: MAX_CACHE_RTP_PKT_COUNT_def full_cache_facts [unfolded MAX_CACHE_RTP_PKT_COUNT_def])

theorem resend_terminates_witness: "\<exists>r. handle_resend (resend_request 3 9 []) full_cache = Some r"
  by (rule resend_terminates) simp

theorem resend_to_65535_never_answers_witness:
  "handle_resend (resend_request 65000 0xffff []) full_cache = None"
  using resend_to_65535_never_answers [of full_cache 65000 "[]"] by simp

section \<open>The filters\<close>

text \<open>
  The audio filter accepts every packet and changes the time stamp only: a packet with a full
  header gets the time stamp multiplied (modulo \<open>2^32\<close>) or divided by the ratio, every other byte
  and the length stay; shorter packets and ratio 0 change nothing.
\<close>
theorem audio_filter_effect:
  assumes "dataLen \<le> length data"
  shows "fst (audio_filter data dataLen r)
    \<and> length (snd (audio_filter data dataLen r)) = length data
    \<and> (\<forall>i < length data. i \<notin> {4 ..< 8} \<longrightarrow> snd (audio_filter data dataLen r) ! i = data ! i)
    \<and> (12 \<le> dataLen \<longrightarrow>
        timeStamp (rtp_hdr_at (snd (audio_filter data dataLen r))) =
          (if r > 0 then timeStamp (rtp_hdr_at data) * of_int r
           else if r < 0 then timeStamp (rtp_hdr_at data) div of_int (- r)
           else timeStamp (rtp_hdr_at data)))"
proof (cases "12 \<le> dataLen \<and> r \<noteq> 0")
  case True
  let ?t = "ntohl (load_u32 (get_at 4 4 data))"
  let ?t' = "if r > 0 then ?t * of_int r else ?t div of_int (- r)"
  have f: "audio_filter data dataLen r = (True, put_at 4 (store_u32 (htonl ?t')) data)"
    using True by (auto simp: audio_filter_def sizeof_rtp_hdr_def Let_def)
  have len: "4 + length (store_u32 (htonl ?t')) \<le> length data" using True assms by simp
  have "get_at 4 4 (put_at 4 (store_u32 (htonl ?t')) data) = store_u32 (htonl ?t')"
    by (rule get_put_same [OF len]) simp
  then have "timeStamp (rtp_hdr_at (put_at 4 (store_u32 (htonl ?t')) data)) = ?t'"
    by (simp add: timeStamp_def rtp_hdr_at_def ntohl_load store_htonl)
  moreover have "timeStamp (rtp_hdr_at data) = ?t" by (simp add: timeStamp_def rtp_hdr_at_def)
  moreover have "put_at 4 (store_u32 (htonl ?t')) data ! i = data ! i"
    if "i < length data" "i \<notin> {4 ..< 8}" for i
    using that len by (intro put_at_nth_other) auto
  ultimately show ?thesis using True len by (simp only: f) auto
next
  case False
  then show ?thesis by (auto simp: audio_filter_def sizeof_rtp_hdr_def)
qed

theorem audio_filter_effect_witness:
  "timeStamp (rtp_hdr_at (snd (audio_filter (replicate 20 1) 20 3)))
    = timeStamp (rtp_hdr_at (replicate 20 1)) * 3"
  using audio_filter_effect [of 20 "replicate 20 1" 3] by simp

text \<open>
  A time stamp that is scaled up by \<open>k\<close> in one direction and down by \<open>k\<close> in the other comes
  back unchanged when the scaled value fits 32 bits; scaled down first, it loses its remainder.
\<close>
theorem audio_filter_there_and_back:
  assumes "12 \<le> dataLen" "dataLen \<le> length data" "0 < k" "k < 2 ^ 31"
  shows "let t = timeStamp (rtp_hdr_at data);
             up = snd (audio_filter data dataLen (int k));
             down = snd (audio_filter data dataLen (- int k))
         in (unat t * k < 2 ^ 32 \<longrightarrow>
              timeStamp (rtp_hdr_at (snd (audio_filter up dataLen (- int k)))) = t)
          \<and> unat (timeStamp (rtp_hdr_at (snd (audio_filter down dataLen (int k)))))
              = unat t - unat t mod k"
proof -
  let ?t = "timeStamp (rtp_hdr_at data)"
  let ?up = "snd (audio_filter data dataLen (int k))"
  let ?down = "snd (audio_filter data dataLen (- int k))"
  have k: "unat (of_nat k :: u32) = k" using assms(4) by (intro unat_of_nat_u32) simp
  note e = audio_filter_effect [OF assms(2)]
  have up: "timeStamp (rtp_hdr_at ?up) = ?t * of_nat k" "length ?up = length data"
    using e [of "int k"] assms(1,3) by auto
  have down: "timeStamp (rtp_hdr_at ?down) = ?t div of_nat k" "length ?down = length data"
    using e [of "- int k"] assms(1,3) by auto
  have u2: "timeStamp (rtp_hdr_at (snd (audio_filter ?up dataLen (- int k)))) = ?t * of_nat k div of_nat k"
    using audio_filter_effect [of dataLen ?up "- int k"] up assms(1,2,3) by simp
  have d2: "timeStamp (rtp_hdr_at (snd (audio_filter ?down dataLen (int k)))) = ?t div of_nat k * of_nat k"
    using audio_filter_effect [of dataLen ?down "int k"] down assms(1,2,3) by simp
  have "?t * of_nat k div of_nat k = ?t" if "unat ?t * k < 2 ^ 32"
  proof -
    have "unat (?t * of_nat k) = unat ?t * k" using that k by (simp add: unat_word_ariths)
    then have "unat (?t * of_nat k div of_nat k) = unat ?t" using assms(3) k
      by (simp add: unat_div)
    then show ?thesis by (simp add: word_unat_eq_iff)
  qed
  moreover have "unat (?t div of_nat k * of_nat k) = unat ?t - unat ?t mod k"
  proof -
    have "unat ?t div k * k \<le> unat ?t" by simp
    also have "unat ?t < 2 ^ 32" using unsigned_less [of ?t] by simp
    finally have a: "unat ?t div k * k < 4294967296" by simp
    have "unat (?t div of_nat k) = unat ?t div k" using k by (simp add: unat_div)
    with a k have "unat (?t div of_nat k * of_nat k) = unat ?t div k * k"
      by (simp add: unat_word_ariths(2))
    then show ?thesis by (simp add: minus_mod_eq_div_mult)
  qed
  ultimately show ?thesis by (simp only: Let_def u2 d2) blast
qed

theorem audio_filter_there_and_back_witness:
  "let t = timeStamp (rtp_hdr_at (replicate 12 1));
       up = snd (audio_filter (replicate 12 1) 12 (int 3));
       down = snd (audio_filter (replicate 12 1) 12 (- int 3))
   in (unat t * 3 < 2 ^ 32 \<longrightarrow> timeStamp (rtp_hdr_at (snd (audio_filter up 12 (- int 3)))) = t)
    \<and> unat (timeStamp (rtp_hdr_at (snd (audio_filter down 12 (int 3))))) = unat t - unat t mod 3"
  by (rule audio_filter_there_and_back) simp_all

text \<open>
  The video filter accepts every packet, keeps its length and payload, and changes the marker
  bit of the header at most: it is set on packets whose payload starts a single NAL unit (types
  1 to 23) and every other header field stays.
\<close>
theorem video_filter_effect:
  assumes "dataLen \<le> length data"
  shows "fst (video_filter data dataLen)
    \<and> length (snd (video_filter data dataLen)) = length data
    \<and> (\<forall>i < length data. i \<noteq> 1 \<longrightarrow> snd (video_filter data dataLen) ! i = data ! i)
    \<and> rtp_hdr_at (snd (video_filter data dataLen)) =
        (if 14 \<le> dataLen \<and> unat (data ! 12) mod 32 \<in> {1 ..< 24}
         then (rtp_hdr_at data)\<lparr>hdr_m := True\<rparr> else rtp_hdr_at data)"
proof -
  have nal: "(data ! 12 AND 31 > 0 \<and> data ! 12 AND 31 < 24) \<longleftrightarrow> unat (data ! 12) mod 32 \<in> {1 ..< 24}"
  proof -
    have "data ! 12 AND 31 = take_bit 5 (data ! 12)" by (simp add: take_bit_eq_mask mask_eq_exp_minus_1)
    then have "data ! 12 AND 31 = data ! 12 mod 32" by (simp add: take_bit_eq_mod)
    then have "unat (data ! 12 AND 31) = unat (data ! 12) mod 32" by (simp add: unat_mod)
    then show ?thesis by (auto simp: word_less_nat_alt)
  qed
  have g: "get_at off n (data[Suc 0 := x]) = get_at off n data" if "2 \<le> off" for off n x
    using that by (simp add: get_at_def drop_update_cancel)
  show ?thesis
  proof (cases "14 \<le> dataLen \<and> unat (data ! 12) mod 32 \<in> {1 ..< 24}")
    case True
    then have f: "video_filter data dataLen = (True, data[1 := data ! 1 OR 128])"
      using nal by (simp add: video_filter_def sizeof_rtp_hdr_def Let_def)
    have b1: "(data ! 1 OR 128) AND 127 = data ! 1 AND 127"
      by (simp add: bit.conj_disj_distrib2)
    have b2: "bit (data ! 1 OR 128) 7" by (simp add: bit_simps)
    have "rtp_hdr_at (data[1 := data ! 1 OR 128]) = (rtp_hdr_at data)\<lparr>hdr_m := True\<rparr>"
      using True assms b1 b2 by (simp add: rtp_hdr_at_def g)
    then show ?thesis using True by (simp add: f)
  next
    case False
    then show ?thesis using nal by (auto simp: video_filter_def sizeof_rtp_hdr_def Let_def)
  qed
qed

theorem video_filter_effect_witness:
  "hdr_m (rtp_hdr_at (snd (video_filter (replicate 12 0 @ [101, 7]) 14)))"
  using video_filter_effect [of 14 "replicate 12 0 @ [101, 7]"] by (simp add: nth_append)

end
