(* ===== verification/Forward.thy ===== *)
theory Forward
  imports MediaFilter
begin

text \<open>
  The media forwarder: \<open>bridgeserver/ForwardService.h\<close>, \<open>bridgeserver/ForwardService.cpp\<close> and
  \<open>createUdpSocket\<close> of \<open>bridgeserver/util.cpp\<close>. One \<open>Forward\<close> per local address relays datagrams
  between a WebRTC peer and an XMPP peer over one socket. System calls are observed as a list of
  effects; what the system answers is given by the record \<open>udp_os\<close>.
\<close>

section \<open>Addresses\<close>

record AddrPair =
  local_ip :: string
  local_port :: int
  remote_ip :: string
  remote_port :: int
  local_fd :: int

text \<open>The sixteen bytes of \<open>sockaddr_in\<close>, the padding included: \<open>memcmp\<close> sees it.\<close>

record sockaddr_in =
  sin_family :: u16
  sin_port :: u16
  sin_addr :: u32
  sin_zero :: "byte list"

record Address =
  addr_ip :: string
  addr_port :: u16

definition Address_lt :: "Address \<Rightarrow> Address \<Rightarrow> bool" where
  "Address_lt a b \<longleftrightarrow> addr_ip a < addr_ip b \<or> addr_port a < addr_port b"

definition Address_eq :: "Address \<Rightarrow> Address \<Rightarrow> bool" where
  "Address_eq a b \<longleftrightarrow> addr_ip b = addr_ip a \<and> addr_port b = addr_port a"

datatype MEDIA_TYPE = MEDIA_AUDIO | MEDIA_VIDEO

section \<open>The system\<close>

datatype net_effect =
    Opened int
  | Closed int
  | EventAdded int
  | EventFreed int
  | SentTo int "byte list" sockaddr_in

record udp_os =
  os_socket :: int
  os_bind :: int
  os_event_new :: bool
  os_inet_addr :: "string \<Rightarrow> u32"
  os_now :: int
  os_stack :: "byte list"

text \<open>The descriptor of a socket that cannot be bound is dropped without being closed.\<close>

definition createUdpSocket :: "udp_os \<Rightarrow> int \<Rightarrow> int \<times> net_effect list" where
  "createUdpSocket os port =
     (if os_socket os < 0 then (-1, [])
      else if os_bind os < 0 then (-1, [Opened (os_socket os)])
      else (os_socket os, [Opened (os_socket os)]))"

section \<open>Forwards\<close>

definition FORWARD_ALIVE_CHECK_TIME :: int where
  "FORWARD_ALIVE_CHECK_TIME = 10 * 60"

definition MAX_UDP_PACKET_LEN :: nat where
  "MAX_UDP_PACKET_LEN = 10 * 1024"

definition AUDIO_RATIO_WEBRTC2XMPP :: int where
  "AUDIO_RATIO_WEBRTC2XMPP = -3"

record Forward =
  iceInfo :: AddrPair
  mediaType :: MEDIA_TYPE
  webrtcAddr :: sockaddr_in
  xmppAddr :: sockaddr_in
  ev_udp :: int
  fwd_buffer :: "byte list"
  lastPackageTime :: int
  xmppVideoResend :: VideoResendService

text \<open>
  \<open>forwards_\<close> in iteration order. \<open>std::map\<close> looks a key up, and inserts it, at the first entry
  whose key is not below it; here as there the only comparison is \<open>operator<\<close>.
\<close>

type_synonym ForwardMap = "(Address \<times> Forward) list"

definition findForward :: "ForwardMap \<Rightarrow> Address \<Rightarrow> Forward option" where
  "findForward fs local =
     (case dropWhile (\<lambda>e. Address_lt (fst e) local) fs of
        [] \<Rightarrow> None
      | e # _ \<Rightarrow> if Address_lt local (fst e) then None else Some (snd e))"

definition insertForward :: "Address \<Rightarrow> Forward \<Rightarrow> ForwardMap \<Rightarrow> ForwardMap" where
  "insertForward local f fs =
     takeWhile (\<lambda>e. Address_lt (fst e) local) fs @ (local, f)
       # dropWhile (\<lambda>e. Address_lt (fst e) local) fs"

text \<open>The destructor, run when an entry is erased.\<close>

definition delete_Forward :: "Forward \<Rightarrow> net_effect list" where
  "delete_Forward f =
     (if local_fd (iceInfo f) > 0 then [Closed (local_fd (iceInfo f))] else [])
     @ [EventFreed (ev_udp f)]"

text \<open>
  \<open>startForward\<close>. The file descriptor of the event is the one given by ICE or a new socket on the
  local port. When no event can be made, the fresh entry is erased while its \<open>iceInfo\<close> was never
  set: its destructor reads an uninitialised descriptor. \<open>AF_INET\<close> is 2.
\<close>

definition init_Forward ::
  "udp_os \<Rightarrow> string \<Rightarrow> MEDIA_TYPE \<Rightarrow> AddrPair \<Rightarrow> sockaddr_in \<Rightarrow> int \<Rightarrow> Forward" where
  "init_Forward os resend_cfg media ice webrtc fd =
     \<lparr>iceInfo = ice, mediaType = media, webrtcAddr = webrtc,
      xmppAddr = \<lparr>sin_family = 2, sin_port = htons (of_int (remote_port ice)),
                  sin_addr = os_inet_addr os (remote_ip ice), sin_zero = replicate 8 0\<rparr>,
      ev_udp = fd, fwd_buffer = os_stack os, lastPackageTime = os_now os,
      xmppVideoResend = new_VideoResendService resend_cfg\<rparr>"

definition startForward ::
  "udp_os \<Rightarrow> string \<Rightarrow> MEDIA_TYPE \<Rightarrow> AddrPair \<Rightarrow> sockaddr_in \<Rightarrow> ForwardMap
    \<Rightarrow> (ForwardMap \<times> net_effect list) outcome" where
  "startForward os resend_cfg media ice webrtc forwards =
     (if \<not> local_port ice > 0 then Inl AssertFailed
      else
        let (fd, eff) = (if local_fd ice > 0 then (local_fd ice, [])
                         else createUdpSocket os (local_port ice))
        in if fd \<le> 0 then Inr (forwards, eff)
           else
             let local = \<lparr>addr_ip = local_ip ice, addr_port = of_int (local_port ice)\<rparr>
             in if findForward forwards local \<noteq> None then Inr (forwards, eff)
                else if \<not> os_event_new os then Inl Uninitialised
                else Inr (insertForward local (init_Forward os resend_cfg media ice webrtc fd) forwards,
                          eff @ [EventAdded fd]))"

text \<open>The ten minute timer: entries without traffic are erased.\<close>

fun forward_timeout_cb :: "int \<Rightarrow> ForwardMap \<Rightarrow> ForwardMap \<times> net_effect list" where
  "forward_timeout_cb curTime [] = ([], [])"
| "forward_timeout_cb curTime ((a, f) # fs) =
     (let (fs', eff) = forward_timeout_cb curTime fs
      in if curTime - lastPackageTime f > FORWARD_ALIVE_CHECK_TIME
         then (fs', delete_Forward f @ eff) else ((a, f) # fs', eff))"

definition isWebrtcAddr :: "Forward \<Rightarrow> sockaddr_in \<Rightarrow> bool" where
  "isWebrtcAddr f tempadd =
     (if webrtcAddr f = tempadd then True
      else if sin_port (webrtcAddr f) = sin_port (xmppAddr f) then False
      else sin_port tempadd = sin_port (webrtcAddr f))"

section \<open>Relaying datagrams\<close>

text \<open>
  A datagram with the time at which it is read, its bytes and its sender. One turn of the loop of
  \<open>udpCallback\<close>, from \<open>recvfrom\<close> on: the new \<open>Forward\<close> and what is sent.
\<close>

type_synonym datagram = "int \<times> byte list \<times> sockaddr_in"

definition relay_datagram ::
  "datagram \<Rightarrow> Forward \<Rightarrow> (Forward \<times> net_effect list) outcome option" where
  "relay_datagram dg f =
     (case dg of (now, bytes, from) \<Rightarrow>
        let dataLen = min (length bytes) MAX_UDP_PACKET_LEN;
            buffer = put_at 0 (take dataLen bytes) (fwd_buffer f);
            f1 = f\<lparr>fwd_buffer := buffer, lastPackageTime := now\<rparr>;
            send = (\<lambda>g to. [SentTo (ev_udp g) (take dataLen (fwd_buffer g)) to])
        in if isWebrtcAddr f1 from then
             (case mediaType f1 of
                MEDIA_VIDEO \<Rightarrow>
                  (let (ok, b) = video_filter (fwd_buffer f1) dataLen;
                       g = f1\<lparr>fwd_buffer := b,
                              xmppVideoResend := cacheData b dataLen (xmppVideoResend f1)\<rparr>
                   in if \<not> ok then Some (Inl AssertFailed)
                      else Some (Inr (g, send g (xmppAddr g))))
              | MEDIA_AUDIO \<Rightarrow>
                  (let (ok, b) = audio_filter (fwd_buffer f1) dataLen AUDIO_RATIO_WEBRTC2XMPP;
                       g = f1\<lparr>fwd_buffer := b\<rparr>
                   in if \<not> ok then Some (Inl AssertFailed)
                      else Some (Inr (g, send g (xmppAddr g)))))
           else
             (case mediaType f1 of
                MEDIA_VIDEO \<Rightarrow>
                  (case handle_resend (fwd_buffer f1) (xmppVideoResend f1) of
                     None \<Rightarrow> None
                   | Some (Inl e) \<Rightarrow> Some (Inl e)
                   | Some (Inr (True, sent)) \<Rightarrow>
                       Some (Inr (f1, map (\<lambda>p. SentTo (ev_udp f1) p (xmppAddr f1)) sent))
                   | Some (Inr (False, sent)) \<Rightarrow> Some (Inr (f1, send f1 (webrtcAddr f1))))
              | MEDIA_AUDIO \<Rightarrow>
                  (let (ok, b) = audio_filter (fwd_buffer f1) dataLen (- AUDIO_RATIO_WEBRTC2XMPP);
                       g = f1\<lparr>fwd_buffer := b\<rparr>
                   in if \<not> ok then Some (Inr (g, []))
                      else Some (Inr (g, send g (webrtcAddr g))))))"

text \<open>
  The loop: it ends when there is nothing to read or an empty datagram is read; the third
  component is what stays in the socket.
\<close>

fun udp_loop ::
  "datagram list \<Rightarrow> Forward \<Rightarrow> (Forward \<times> net_effect list \<times> datagram list) outcome option" where
  "udp_loop [] f = Some (Inr (f, [], []))"
| "udp_loop (dg # dgs) f =
     (if fst (snd dg) = [] then Some (Inr (f, [], dgs))
      else (case relay_datagram dg f of
              None \<Rightarrow> None
            | Some (Inl e) \<Rightarrow> Some (Inl e)
            | Some (Inr (g, eff)) \<Rightarrow>
                (case udp_loop dgs g of
                   None \<Rightarrow> None
                 | Some (Inl e) \<Rightarrow> Some (Inl e)
                 | Some (Inr (h, eff', rest)) \<Rightarrow> Some (Inr (h, eff @ eff', rest)))))"

definition udpCallback ::
  "u16 \<Rightarrow> datagram list \<Rightarrow> Forward \<Rightarrow> (Forward \<times> net_effect list \<times> datagram list) outcome option" where
  "udpCallback what dgs f =
     (if \<not> bit what 1 then Some (Inr (f, [], dgs)) else udp_loop dgs f)"

section \<open>The buffer and the datagram in it\<close>

lemma put_at_0: "put_at 0 d buf = d @ drop (length d) buf"
  by (simp add: put_at_def)

lemma take_put_at_0 [simp]: "take (length d) (put_at 0 d buf) = d"
  by (simp add: put_at_0)

lemma take_put_at_0_length: "length p = n \<Longrightarrow> take n (put_at 0 p buf) = p"
  by auto

lemma put_at_0_nth: "i < length d \<Longrightarrow> put_at 0 d buf ! i = d ! i"
  by (simp add: put_at_0 nth_append)

lemma get_at_0: "off + n \<le> length d \<Longrightarrow> get_at off n (put_at 0 d buf) = get_at off n d"
  by (simp add: put_at_0 get_at_def)

lemma put_at_inside:
  "off + length s \<le> length d \<Longrightarrow> put_at off s (put_at 0 d buf) = put_at 0 (put_at off s d) buf"
  by (simp add: put_at_def)

lemma length_audio_filter [simp]: "n \<le> length d \<Longrightarrow> length (snd (audio_filter d n r)) = length d"
  by (simp add: audio_filter_def sizeof_rtp_hdr_def Let_def)

lemma audio_filter_in_buffer:
  "audio_filter (put_at 0 d buf) (length d) r
    = (True, put_at 0 (snd (audio_filter d (length d) r)) buf)"
  by (simp add: audio_filter_def sizeof_rtp_hdr_def Let_def get_at_0 put_at_inside)

lemma length_video_filter [simp]: "length (snd (video_filter d n)) = length d"
  by (simp add: video_filter_def Let_def)

lemma video_filter_in_buffer:
  "video_filter (put_at 0 d buf) (length d)
    = (True, put_at 0 (snd (video_filter d (length d))) buf)"
proof (cases "14 \<le> length d")
  case True
  then have "(put_at 0 d buf)[Suc 0 := x] = put_at 0 (d[Suc 0 := x]) buf" for x
    by (simp add: put_at_0 list_update_append)
  with True show ?thesis
    by (simp add: video_filter_def sizeof_rtp_hdr_def Let_def put_at_0_nth)
qed (simp add: video_filter_def sizeof_rtp_hdr_def)

section \<open>What a forward keeps\<close>

definition forward_inv :: "Forward \<Rightarrow> bool" where
  "forward_inv f \<longleftrightarrow> length (fwd_buffer f) = MAX_UDP_PACKET_LEN \<and> cache_inv (xmppVideoResend f)"

definition same_session :: "Forward \<Rightarrow> Forward \<Rightarrow> bool" where
  "same_session f g \<longleftrightarrow> iceInfo g = iceInfo f \<and> mediaType g = mediaType f
    \<and> webrtcAddr g = webrtcAddr f \<and> xmppAddr g = xmppAddr f \<and> ev_udp g = ev_udp f
    \<and> supportResend (xmppVideoResend g) = supportResend (xmppVideoResend f)"

text \<open>The payload a datagram of at most the buffer's size is forwarded with.\<close>

definition forwarded_payload :: "MEDIA_TYPE \<Rightarrow> bool \<Rightarrow> byte list \<Rightarrow> byte list" where
  "forwarded_payload media to_xmpp d =
     (case media of
        MEDIA_AUDIO \<Rightarrow> snd (audio_filter d (length d)
          (if to_xmpp then AUDIO_RATIO_WEBRTC2XMPP else - AUDIO_RATIO_WEBRTC2XMPP))
      | MEDIA_VIDEO \<Rightarrow> if to_xmpp then snd (video_filter d (length d)) else d)"

lemma length_forwarded_payload [simp]: "length (forwarded_payload media x d) = length d"
  by (simp add: forwarded_payload_def split: MEDIA_TYPE.split)

lemma isWebrtcAddr_upd [simp]:
  "isWebrtcAddr (f\<lparr>fwd_buffer := b, lastPackageTime := t\<rparr>) a = isWebrtcAddr f a"
  by (simp add: isWebrtcAddr_def)

lemma cacheData_inv: "cache_inv v \<Longrightarrow> n \<le> length d \<Longrightarrow> cache_inv (cacheData d n v)"
  using cache.inv_store [of v "take n d"]
  by (cases "12 \<le> n") (simp_all add: cacheData_take, simp add: cache_packet_def cacheData_def)

lemma supportResend_cacheData [simp]: "supportResend (cacheData d n v) = supportResend v"
  by (simp add: cacheData_def)

lemma cacheData_in_buffer: "cacheData (put_at 0 d buf) (length d) v = cache_packet d v"
proof -
  have "cacheData (put_at 0 d buf) (length d) v = cache_packet (take (length d) (put_at 0 d buf)) v"
    by (rule cacheData_take) (simp add: put_at_0)
  then show ?thesis by simp
qed

text \<open>One lemma per direction and medium: the step as the payload it sends.\<close>

lemma relay_from_webrtc:
  assumes "forward_inv f" "length d \<le> MAX_UDP_PACKET_LEN" "isWebrtcAddr f from"
  shows "\<exists>g. relay_datagram (now, d, from) f = Some (Inr (g,
      [SentTo (ev_udp f) (forwarded_payload (mediaType f) True d) (xmppAddr f)]))
    \<and> forward_inv g \<and> same_session f g \<and> lastPackageTime g = now
    \<and> xmppVideoResend g = (if mediaType f = MEDIA_VIDEO
        then cache_packet (forwarded_payload MEDIA_VIDEO True d) (xmppVideoResend f)
        else xmppVideoResend f)"
proof (cases "mediaType f")
  case MEDIA_AUDIO
  with assms show ?thesis
    by (simp add: relay_datagram_def Let_def min_absorb1 audio_filter_in_buffer
        forwarded_payload_def forward_inv_def same_session_def take_put_at_0_length)
next
  case MEDIA_VIDEO
  let ?p = "snd (video_filter d (length d))"
  have "cacheData (put_at 0 ?p (fwd_buffer f)) (length d) v = cache_packet ?p v" for v
    using cacheData_in_buffer [of ?p "fwd_buffer f" v] by simp
  moreover have "cache_inv (cache_packet ?p (xmppVideoResend f))"
    using cacheData_inv [of "xmppVideoResend f" "length ?p" ?p] assms(1)
    by (simp add: forward_inv_def cache_packet_def)
  moreover have "take (length d) (put_at 0 ?p (fwd_buffer f)) = ?p"
    using take_put_at_0 [of ?p] by simp
  ultimately show ?thesis using assms MEDIA_VIDEO
    by (simp add: relay_datagram_def Let_def min_absorb1 video_filter_in_buffer
        forwarded_payload_def forward_inv_def same_session_def cache_packet_def)
qed

lemma relay_from_xmpp:
  assumes "forward_inv f" "d \<noteq> []" "length d \<le> MAX_UDP_PACKET_LEN" "\<not> isWebrtcAddr f from"
    and "mediaType f = MEDIA_VIDEO \<Longrightarrow> d ! 0 \<noteq> 0xfb"
  shows "\<exists>g. relay_datagram (now, d, from) f = Some (Inr (g,
      [SentTo (ev_udp f) (forwarded_payload (mediaType f) False d) (webrtcAddr f)]))
    \<and> forward_inv g \<and> same_session f g \<and> lastPackageTime g = now
    \<and> xmppVideoResend g = xmppVideoResend f"
proof (cases "mediaType f")
  case MEDIA_AUDIO
  with assms show ?thesis
    by (simp add: relay_datagram_def Let_def min_absorb1 audio_filter_in_buffer
        forwarded_payload_def forward_inv_def same_session_def take_put_at_0_length)
next
  case MEDIA_VIDEO
  moreover from this assms have "put_at 0 d (fwd_buffer f) ! 0 \<noteq> 0xfb"
    by (simp add: put_at_0_nth)
  ultimately show ?thesis using assms
    by (simp add: relay_datagram_def Let_def min_absorb1 handle_resend_def
        forwarded_payload_def forward_inv_def same_session_def)
qed

section \<open>The map of forwards\<close>

text \<open>Neither \<open>a < b\<close> nor \<open>b < a\<close> is equality, but both can hold: it is no strict weak order.\<close>

lemma Address_lt_not_le: "Address_lt a b \<longleftrightarrow> \<not> (addr_ip b \<le> addr_ip a \<and> addr_port b \<le> addr_port a)"
  by (auto simp: Address_lt_def)

lemma Address_eqI: "\<not> Address_lt a b \<Longrightarrow> \<not> Address_lt b a \<Longrightarrow> (a :: Address) = b"
  by (rule Address.equality) (auto simp: Address_lt_def)

lemma Address_lt_irrefl [simp]: "\<not> Address_lt a a"
  by (simp add: Address_lt_def)

definition forwards_ordered :: "ForwardMap \<Rightarrow> bool" where
  "forwards_ordered fs \<longleftrightarrow> sorted_wrt Address_lt (map fst fs)"

lemma forwards_ordered_Cons:
  "forwards_ordered (e # fs) \<longleftrightarrow> (\<forall>x \<in> set fs. Address_lt (fst e) (fst x)) \<and> forwards_ordered fs"
  by (simp add: forwards_ordered_def)

lemma findForward_map_of: "forwards_ordered fs \<Longrightarrow> findForward fs a = map_of fs a"
proof (induction fs)
  case (Cons e fs)
  show ?case
  proof (cases "Address_lt (fst e) a")
    case True
    then have "fst e \<noteq> a" by auto
    with True Cons show ?thesis by (cases e) (simp add: findForward_def forwards_ordered_Cons)
  next
    case False
    show ?thesis
    proof (cases "Address_lt a (fst e)")
      case True
      have "map_of (e # fs) a = None"
      proof -
        have "a \<noteq> fst x" if "x \<in> set fs" for x
        proof
          assume "a = fst x"
          with that Cons.prems have "Address_lt (fst e) a" by (simp add: forwards_ordered_Cons)
          with False show False by simp
        qed
        moreover from True have "a \<noteq> fst e" by auto
        ultimately show ?thesis by (auto simp: map_of_eq_None_iff)
      qed
      with True False show ?thesis by (simp add: findForward_def)
    next
      case False2: False
      with False have "fst e = a" by (rule Address_eqI)
      with False show ?thesis by (cases e) (simp add: findForward_def)
    qed
  qed
qed (simp add: findForward_def)

lemma set_insertForward: "set (insertForward a f fs) = insert (a, f) (set fs)"
proof -
  have "set fs = set (takeWhile P fs) \<union> set (dropWhile P fs)" for P
    by (metis set_append takeWhile_dropWhile_id)
  then show ?thesis by (auto simp: insertForward_def)
qed

lemma insertForward_ordered:
  assumes "forwards_ordered fs" "findForward fs a = None"
  shows "forwards_ordered (insertForward a f fs)"
  using assms
proof (induction fs)
  case (Cons e fs)
  show ?case
  proof (cases "Address_lt (fst e) a")
    case True
    with Cons have "forwards_ordered (insertForward a f fs)"
      by (simp add: findForward_def forwards_ordered_Cons)
    moreover have "insertForward a f (e # fs) = e # insertForward a f fs"
      using True by (simp add: insertForward_def)
    ultimately show ?thesis using True Cons.prems
      by (simp add: set_insertForward forwards_ordered_Cons)
  next
    case False
    then have le: "addr_ip a \<le> addr_ip (fst e)" "addr_port a \<le> addr_port (fst e)"
      by (auto simp: Address_lt_not_le)
    have "Address_lt a (fst e)" using Cons.prems(2) False
      by (auto simp: findForward_def split: if_splits)
    moreover have "Address_lt a (fst x)" if "x \<in> set fs" for x
      using that Cons.prems(1) le by (fastforce simp: forwards_ordered_Cons Address_lt_def)
    ultimately show ?thesis using False Cons.prems(1)
      by (simp add: insertForward_def forwards_ordered_Cons)
  qed
qed (simp add: insertForward_def forwards_ordered_def)

section \<open>The service as a state machine\<close>

text \<open>What the event loop does with the service: start a forward, deliver datagrams, run the timer.\<close>

inductive fs_step :: "ForwardMap \<Rightarrow> net_effect list \<Rightarrow> ForwardMap \<Rightarrow> bool" where
  start: "startForward os cfg media ice webrtc fs = Inr (fs', eff) \<Longrightarrow>
    length (os_stack os) = MAX_UDP_PACKET_LEN \<Longrightarrow> fs_step fs eff fs'"
| deliver: "fs = xs @ (a, f) # ys \<Longrightarrow> udpCallback what dgs f = Some (Inr (g, eff, rest)) \<Longrightarrow>
    fs_step fs eff (xs @ (a, g) # ys)"
| timer: "forward_timeout_cb now fs = (fs', eff) \<Longrightarrow> fs_step fs eff fs'"

inductive fs_reachable :: "ForwardMap \<Rightarrow> bool" where
  init: "fs_reachable []"
| step: "fs_reachable fs \<Longrightarrow> fs_step fs eff fs' \<Longrightarrow> fs_reachable fs'"

inductive_cases fs_stepE: "fs_step fs eff fs'"

text \<open>
  An entry is filed under its local address, its socket is open and its buffer and cache are
  well formed.
\<close>

definition entry_ok :: "Address \<Rightarrow> Forward \<Rightarrow> bool" where
  "entry_ok a f \<longleftrightarrow> forward_inv f \<and> 0 < ev_udp f \<and> 0 < local_port (iceInfo f)
     \<and> a = \<lparr>addr_ip = local_ip (iceInfo f), addr_port = of_int (local_port (iceInfo f))\<rparr>
     \<and> (0 < local_fd (iceInfo f) \<longrightarrow> local_fd (iceInfo f) = ev_udp f)"

definition forwards_ok :: "ForwardMap \<Rightarrow> bool" where
  "forwards_ok fs \<longleftrightarrow> forwards_ordered fs \<and> (\<forall>(a, f) \<in> set fs. entry_ok a f)"

lemma same_session_refl [simp]: "same_session f f"
  by (simp add: same_session_def)

lemma same_session_trans: "same_session f g \<Longrightarrow> same_session g h \<Longrightarrow> same_session f h"
  by (simp add: same_session_def)

lemma entry_ok_same: "entry_ok a f \<Longrightarrow> forward_inv g \<Longrightarrow> same_session f g \<Longrightarrow> entry_ok a g"
  by (simp add: entry_ok_def same_session_def)

text \<open>Whatever the sender and the content, a datagram that is survived keeps the forward well formed.\<close>

lemma relay_datagram_trunc:
  "relay_datagram (now, d, from) f = relay_datagram (now, take MAX_UDP_PACKET_LEN d, from) f"
proof -
  have "min (length (take MAX_UDP_PACKET_LEN d)) MAX_UDP_PACKET_LEN = min (length d) MAX_UDP_PACKET_LEN"
    by simp
  moreover have "take (min (length d) MAX_UDP_PACKET_LEN) (take MAX_UDP_PACKET_LEN d)
      = take (min (length d) MAX_UDP_PACKET_LEN) d" by simp
  ultimately show ?thesis by (simp only: relay_datagram_def prod.case Let_def)
qed

lemma relay_from_xmpp_resend:
  assumes "forward_inv f" "d \<noteq> []" "length d \<le> MAX_UDP_PACKET_LEN" "\<not> isWebrtcAddr f from"
    and "mediaType f = MEDIA_VIDEO" "d ! 0 = 0xfb"
    and "relay_datagram (now, d, from) f = Some (Inr (g, eff))"
  shows "forward_inv g \<and> same_session f g \<and> lastPackageTime g = now
    \<and> xmppVideoResend g = xmppVideoResend f
    \<and> (\<exists>sent. eff = map (\<lambda>p. SentTo (ev_udp f) p (xmppAddr f)) sent)"
proof -
  have "put_at 0 d (fwd_buffer f) ! 0 = 0xfb" using assms by (simp add: put_at_0_nth)
  then have "\<exists>sent. handle_resend (put_at 0 d (fwd_buffer f)) (xmppVideoResend f) = Some (Inr (True, sent))
      \<and> Some (Inr (g, eff)) = Some (Inr (f\<lparr>fwd_buffer := put_at 0 d (fwd_buffer f), lastPackageTime := now\<rparr>,
             map (\<lambda>p. SentTo (ev_udp f) p (xmppAddr f)) sent)) "
    using assms(3-7)
    by (auto simp: relay_datagram_def Let_def min_absorb1 handle_resend_def
        split: option.splits sum.splits if_splits)
  then show ?thesis using assms(1,3) by (auto simp: forward_inv_def same_session_def)
qed

lemma relay_keeps:
  assumes "forward_inv f" "d \<noteq> []" "relay_datagram (now, d, from) f = Some (Inr (g, eff))"
  shows "forward_inv g \<and> same_session f g"
proof -
  let ?d = "take MAX_UDP_PACKET_LEN d"
  have d: "?d \<noteq> []" "length ?d \<le> MAX_UDP_PACKET_LEN"
    using assms(2) by (simp_all add: MAX_UDP_PACKET_LEN_def)
  have r: "relay_datagram (now, ?d, from) f = Some (Inr (g, eff))"
    using assms(3) relay_datagram_trunc by metis
  show ?thesis
  proof (cases "isWebrtcAddr f from")
    case True
    then show ?thesis using relay_from_webrtc [OF assms(1) d(2), of "from" now] r by auto
  next
    case False
    show ?thesis
    proof (cases "mediaType f = MEDIA_VIDEO \<and> ?d ! 0 = 0xfb")
      case True
      then show ?thesis using relay_from_xmpp_resend [OF assms(1) d False _ _ r] by auto
    next
      case F: False
      then show ?thesis using relay_from_xmpp [OF assms(1) d False, of now] r by auto
    qed
  qed
qed

lemma udp_loop_keeps:
  "forward_inv f \<Longrightarrow> udp_loop dgs f = Some (Inr (g, eff, rest)) \<Longrightarrow> forward_inv g \<and> same_session f g"
proof (induction dgs arbitrary: f eff)
  case (Cons dg dgs)
  show ?case
  proof (cases "fst (snd dg) = []")
    case False
    with Cons.prems(2) obtain h e1 e2 where
      h: "relay_datagram dg f = Some (Inr (h, e1))" "udp_loop dgs h = Some (Inr (g, e2, rest))"
      by (auto split: option.splits sum.splits)
    have "forward_inv h \<and> same_session f h"
      using relay_keeps [OF Cons.prems(1), of "fst (snd dg)" "fst dg" "snd (snd dg)"] False h(1) by simp
    with Cons.IH [OF _ h(2)] show ?thesis by (auto intro: same_session_trans)
  qed (use Cons.prems in simp)
qed simp

lemma udpCallback_keeps:
  "forward_inv f \<Longrightarrow> udpCallback what dgs f = Some (Inr (g, eff, rest)) \<Longrightarrow>
    forward_inv g \<and> same_session f g"
  by (auto simp: udpCallback_def udp_loop_keeps split: if_splits)

lemma insertForward_find:
  assumes "forwards_ordered fs" "findForward fs a = None"
  shows "findForward (insertForward a f fs) b = (if b = a then Some f else findForward fs b)"
proof -
  let ?P = "\<lambda>e. Address_lt (fst e) a"
  have n: "map_of fs a = None" using assms by (simp add: findForward_map_of)
  have "map_of fs = map_of (takeWhile ?P fs @ dropWhile ?P fs)" by simp
  then have fs: "map_of fs = map_of (dropWhile ?P fs) ++ map_of (takeWhile ?P fs)"
    by (simp only: map_of_append)
  with n have t: "map_of (takeWhile ?P fs) a = None" by simp
  have "map_of (insertForward a f fs) b = (if b = a then Some f else map_of fs b)"
    using t by (auto simp: insertForward_def fs map_add_def split: option.splits)
  with insertForward_ordered [OF assms, of f] assms(1) show ?thesis
    by (simp add: findForward_map_of)
qed

interpretation forwards: keyed_table findForward insertForward forwards_ordered
  by unfold_locales (auto simp: insertForward_ordered insertForward_find)

lemma forward_timeout_filter:
  "forward_timeout_cb now fs =
    (filter (\<lambda>(a, f). now - lastPackageTime f \<le> FORWARD_ALIVE_CHECK_TIME) fs,
     concat (map (\<lambda>(a, f). delete_Forward f)
       (filter (\<lambda>(a, f). FORWARD_ALIVE_CHECK_TIME < now - lastPackageTime f) fs)))"
  by (induction fs rule: forward_timeout_cb.induct) (auto simp: split_beta)

lemma forwards_ok_filter: "forwards_ok fs \<Longrightarrow> forwards_ok (filter P fs)"
  by (auto simp: forwards_ok_def forwards_ordered_def sorted_wrt_map sorted_wrt_filter)

text \<open>The local address of a forward, and the descriptor it works on with what making it did.\<close>

definition ice_local :: "AddrPair \<Rightarrow> Address" where
  "ice_local ice = \<lparr>addr_ip = local_ip ice, addr_port = of_int (local_port ice)\<rparr>"

definition ice_socket :: "udp_os \<Rightarrow> AddrPair \<Rightarrow> int \<times> net_effect list" where
  "ice_socket os ice =
     (if local_fd ice > 0 then (local_fd ice, []) else createUdpSocket os (local_port ice))"

lemma startForward_unfold:
  "0 < local_port ice \<Longrightarrow> startForward os cfg media ice webrtc fs =
     (if fst (ice_socket os ice) \<le> 0 \<or> findForward fs (ice_local ice) \<noteq> None
      then Inr (fs, snd (ice_socket os ice))
      else if \<not> os_event_new os then Inl Uninitialised
      else Inr (insertForward (ice_local ice)
                  (init_Forward os cfg media ice webrtc (fst (ice_socket os ice))) fs,
                snd (ice_socket os ice) @ [EventAdded (fst (ice_socket os ice))]))"
  by (simp add: startForward_def Let_def case_prod_unfold ice_local_def ice_socket_def)

lemma startForward_cases:
  assumes "startForward os cfg media ice webrtc fs = Inr (fs', eff)"
  obtains
    (none) "fs' = fs" "eff = snd (ice_socket os ice)"
  | (new) "fs' = insertForward (ice_local ice)
        (init_Forward os cfg media ice webrtc (fst (ice_socket os ice))) fs"
      "findForward fs (ice_local ice) = None" "0 < local_port ice" "0 < fst (ice_socket os ice)"
      "eff = snd (ice_socket os ice) @ [EventAdded (fst (ice_socket os ice))]"
proof -
  have "0 < local_port ice" using assms by (simp add: startForward_def split: if_splits)
  with assms show thesis
    using none new by (auto simp: startForward_unfold not_le split: if_splits)
qed

lemma startForward_ok:
  assumes "forwards_ok fs" "length (os_stack os) = MAX_UDP_PACKET_LEN"
    and "startForward os cfg media ice webrtc fs = Inr (fs', eff)"
  shows "forwards_ok fs'"
  using assms(3)
proof (cases rule: startForward_cases)
  case none
  then show ?thesis using assms(1) by simp
next
  case new
  have "forward_inv (init_Forward os cfg media ice webrtc (fst (ice_socket os ice)))"
    using assms(2) by (simp add: forward_inv_def init_Forward_def cache_inv_new)
  with new have "entry_ok (ice_local ice)
      (init_Forward os cfg media ice webrtc (fst (ice_socket os ice)))"
    by (simp add: entry_ok_def init_Forward_def ice_local_def)
       (simp add: ice_socket_def)
  moreover have "forwards_ordered fs'" using assms(1) new
    by (simp add: forwards_ok_def insertForward_ordered)
  ultimately show ?thesis using assms(1) new by (simp add: forwards_ok_def set_insertForward)
qed

lemma fs_step_ok: "fs_step fs eff fs' \<Longrightarrow> forwards_ok fs \<Longrightarrow> forwards_ok fs'"
proof (induction rule: fs_step.induct)
  case (start os cfg media ice webrtc fs fs' eff)
  then show ?case by (blast intro: startForward_ok)
next
  case (deliver fs xs a f ys what dgs g eff rest)
  then have e: "entry_ok a f" by (simp add: forwards_ok_def)
  with deliver have "forward_inv g \<and> same_session f g"
    using udpCallback_keeps by (auto simp: entry_ok_def)
  with e have "entry_ok a g" by (auto intro: entry_ok_same)
  with deliver show ?case by (auto simp: forwards_ok_def forwards_ordered_def)
next
  case (timer now fs fs' eff)
  then show ?case using forwards_ok_filter by (auto simp: forward_timeout_filter)
qed

section \<open>Properties\<close>


definition sample_os :: udp_os where
  "sample_os = \<lparr>os_socket = 9, os_bind = 0, os_event_new = True, os_inet_addr = \<lambda>_. 1, os_now = 100,
    os_stack = replicate MAX_UDP_PACKET_LEN 0\<rparr>"

definition sample_ice :: "int \<Rightarrow> AddrPair" where
  "sample_ice fd = \<lparr>local_ip = ''a'', local_port = 5, remote_ip = ''b'', remote_port = 6, local_fd = fd\<rparr>"

definition sample_peer :: sockaddr_in where
  "sample_peer = \<lparr>sin_family = 2, sin_port = 99, sin_addr = 1, sin_zero = replicate 8 0\<rparr>"

definition sample_forward :: "int \<Rightarrow> MEDIA_TYPE \<Rightarrow> Forward" where
  "sample_forward fd media =
     \<lparr>iceInfo = sample_ice fd, mediaType = media, webrtcAddr = sample_peer,
      xmppAddr = \<lparr>sin_family = 2, sin_port = htons 6, sin_addr = 1, sin_zero = replicate 8 0\<rparr>,
      ev_udp = (if 0 < fd then fd else 9), fwd_buffer = replicate MAX_UDP_PACKET_LEN 0,
      lastPackageTime = 100, xmppVideoResend = new_VideoResendService ''true''\<rparr>"

abbreviation sample_local :: Address where
  "sample_local \<equiv> \<lparr>addr_ip = ''a'', addr_port = 5\<rparr>"

lemma sample_start:
  "startForward sample_os ''true'' media (sample_ice fd) sample_peer []
    = Inr ([(sample_local, sample_forward fd media)],
           (if 0 < fd then [EventAdded fd] else [Opened 9, EventAdded 9]))"
  by (simp add: startForward_def sample_os_def sample_ice_def sample_forward_def findForward_def
      insertForward_def init_Forward_def createUdpSocket_def Let_def)

lemma sample_reachable: "fs_reachable [(sample_local, sample_forward fd media)]"
  by (rule fs_reachable.step [OF fs_reachable.init fs_step.start [OF sample_start]])
     (simp add: sample_os_def)

lemma sample_forward_inv: "forward_inv (sample_forward fd media)"
  by (simp add: forward_inv_def sample_forward_def cache_inv_new)


text \<open>What the loop sends for one datagram that is no resend request.\<close>

definition route :: "Forward \<Rightarrow> datagram \<Rightarrow> net_effect" where
  "route f dg = (case dg of (now, d, from) \<Rightarrow>
     if isWebrtcAddr f from
     then SentTo (ev_udp f) (forwarded_payload (mediaType f) True d) (xmppAddr f)
     else SentTo (ev_udp f) (forwarded_payload (mediaType f) False d) (webrtcAddr f))"

definition media_datagram :: "Forward \<Rightarrow> datagram \<Rightarrow> bool" where
  "media_datagram f dg = (case dg of (now, d, from) \<Rightarrow>
     d \<noteq> [] \<and> length d \<le> MAX_UDP_PACKET_LEN
     \<and> (mediaType f = MEDIA_VIDEO \<and> \<not> isWebrtcAddr f from \<longrightarrow> d ! 0 \<noteq> 0xfb))"

lemma isWebrtcAddr_same: "same_session f g \<Longrightarrow> isWebrtcAddr g a = isWebrtcAddr f a"
  by (simp add: same_session_def isWebrtcAddr_def)

lemma route_same: "same_session f g \<Longrightarrow> route g dg = route f dg"
  by (auto simp: route_def isWebrtcAddr_same split: prod.splits) (auto simp: same_session_def)

lemma media_datagram_same: "same_session f g \<Longrightarrow> media_datagram g dg = media_datagram f dg"
  by (auto simp: media_datagram_def isWebrtcAddr_same split: prod.splits) (auto simp: same_session_def)

definition cache_after :: "Forward \<Rightarrow> datagram \<Rightarrow> VideoResendService \<Rightarrow> VideoResendService" where
  "cache_after f dg = (case dg of (now, d, from) \<Rightarrow>
     if mediaType f = MEDIA_VIDEO \<and> isWebrtcAddr f from
     then cache_packet (forwarded_payload MEDIA_VIDEO True d) else (\<lambda>v. v))"

lemma cache_after_same: "same_session f g \<Longrightarrow> cache_after g dg = cache_after f dg"
  by (auto simp: cache_after_def isWebrtcAddr_same split: prod.splits) (auto simp: same_session_def)

lemma relay_media:
  assumes "forward_inv f" "media_datagram f dg"
  shows "\<exists>g. relay_datagram dg f = Some (Inr (g, [route f dg])) \<and> forward_inv g \<and> same_session f g
    \<and> lastPackageTime g = fst dg \<and> xmppVideoResend g = cache_after f dg (xmppVideoResend f)"
proof -
  obtain now d "from" where dg: "dg = (now, d, from)" by (cases dg) auto
  show ?thesis
  proof (cases "isWebrtcAddr f from")
    case True
    with assms relay_from_webrtc [of f d "from" now] show ?thesis
      by (auto simp: dg route_def media_datagram_def cache_after_def)
  next
    case False
    with assms relay_from_xmpp [of f d "from" now] show ?thesis
      by (auto simp: dg route_def media_datagram_def cache_after_def)
  qed
qed

lemma udp_loop_media:
  assumes "forward_inv f" "\<forall>dg \<in> set dgs. media_datagram f dg"
  shows "\<exists>g. udp_loop (dgs @ dgs2) f =
      (case udp_loop dgs2 g of None \<Rightarrow> None | Some (Inl e) \<Rightarrow> Some (Inl e)
       | Some (Inr (h, eff, rest)) \<Rightarrow> Some (Inr (h, map (route f) dgs @ eff, rest)))
    \<and> forward_inv g \<and> same_session f g \<and> lastPackageTime g = last (lastPackageTime f # map fst dgs)
    \<and> xmppVideoResend g = fold (cache_after f) dgs (xmppVideoResend f)"
  using assms
proof (induction dgs arbitrary: f)
  case Nil
  then show ?case by (intro exI [of _ f]) (auto split: option.splits sum.splits)
next
  case (Cons dg dgs)
  then have m: "media_datagram f dg" and "fst (snd dg) \<noteq> []"
    by (auto simp: media_datagram_def split: prod.splits)
  from relay_media [OF Cons.prems(1) m] obtain g where
    g: "relay_datagram dg f = Some (Inr (g, [route f dg]))" "forward_inv g" "same_session f g"
      "lastPackageTime g = fst dg" "xmppVideoResend g = cache_after f dg (xmppVideoResend f)" by blast
  have "\<forall>x \<in> set dgs. media_datagram g x" using Cons.prems(2) g(3) by (simp add: media_datagram_same)
  from Cons.IH [OF g(2) this] obtain h where
    h: "udp_loop (dgs @ dgs2) g =
      (case udp_loop dgs2 h of None \<Rightarrow> None | Some (Inl e) \<Rightarrow> Some (Inl e)
       | Some (Inr (k, eff, rest)) \<Rightarrow> Some (Inr (k, map (route g) dgs @ eff, rest)))"
      "forward_inv h" "same_session g h" "lastPackageTime h = last (lastPackageTime g # map fst dgs)"
      "xmppVideoResend h = fold (cache_after g) dgs (xmppVideoResend g)" by blast
  have r: "route g = route f" "cache_after g = cache_after f"
    using g(3) by (auto simp: route_same cache_after_same)
  show ?case
    using g h \<open>fst (snd dg) \<noteq> []\<close>
    by (intro exI [of _ h])
       (auto simp: r intro: same_session_trans split: option.splits sum.splits)
qed



lemma fold_cache_after:
  "mediaType f = MEDIA_VIDEO \<Longrightarrow> isWebrtcAddr f w \<Longrightarrow>
    fold (cache_after f) (map (\<lambda>d. (now, d, w)) ds)
      = fold cache_packet (map (forwarded_payload MEDIA_VIDEO True) ds)"
  by (induction ds) (auto simp: cache_after_def)

lemma packet_seq_forwarded [simp]:
  "packet_seq (forwarded_payload MEDIA_VIDEO True d) = packet_seq d"
proof -
  have "get_at 2 2 (d[Suc 0 := x]) = get_at 2 2 d" for x
    by (simp add: get_at_def drop_update_cancel)
  then show ?thesis
    by (simp add: forwarded_payload_def video_filter_def packet_seq_def Let_def)
qed


lemma sample_video_peer:
  "isWebrtcAddr (sample_forward fd media) sample_peer"
  "\<not> isWebrtcAddr (sample_forward fd media)
      \<lparr>sin_family = 2, sin_port = 6, sin_addr = 1, sin_zero = []\<rparr>"
  by (simp_all add: isWebrtcAddr_def sample_forward_def sample_peer_def)


text \<open>
  One datagram can end the server: on a video forward with an empty cache, any sender that is
  not the WebRTC peer and sends a resend request for any range makes the callback fail the
  assertion on the empty slot instead of answering.
\<close>
theorem resend_request_aborts:
  assumes "mediaType f = MEDIA_VIDEO" "xmppVideoResend f = new_VideoResendService ''true''"
    and "\<not> isWebrtcAddr f x" "a \<le> b" "bit what 1"
  shows "udpCallback what ((now, resend_request a b [], x) # dgs) f = Some (Inl AssertFailed)"
proof -
  let ?b = "put_at 0 (resend_request a b []) (fwd_buffer f)"
  have len: "length (resend_request a b []) = 5" "5 \<le> MAX_UDP_PACKET_LEN"
    by (simp_all add: resend_request_def MAX_UDP_PACKET_LEN_def)
  have b: "?b = resend_request a b (drop 5 (fwd_buffer f))"
    using len by (simp add: put_at_0 resend_request_def)
  have "resend_loop (replicate MAX_CACHE_RTP_PKT_COUNT []) a b [] = Some (Inl AssertFailed)"
    using assms(4) by (subst resend_loop.simps) (simp add: Let_def MAX_CACHE_RTP_PKT_COUNT_def)
  then have "handle_resend ?b (xmppVideoResend f) = Some (Inl AssertFailed)"
    using assms(2,4) by (simp add: b handle_resend_def new_VideoResendService_def Let_def)
  moreover have "resend_request a b [] \<noteq> []" by (simp add: resend_request_def)
  ultimately show ?thesis using assms(1,3,5) len
    by (simp add: udpCallback_def relay_datagram_def Let_def min_absorb1)
qed

theorem resend_request_aborts_witness:
  "udpCallback 2 [(101, resend_request 3 4 [], \<lparr>sin_family = 2, sin_port = 6, sin_addr = 1, sin_zero = []\<rparr>)]
    (sample_forward 7 MEDIA_VIDEO) = Some (Inl AssertFailed)"
  by (rule resend_request_aborts)
     (simp_all add: sample_video_peer, simp_all add: sample_forward_def bit_simps)

text \<open>
  The ten minute timer removes exactly the forwards without a datagram for more than ten
  minutes and keeps the others untouched; a descriptor is closed exactly when a removed forward
  got it from ICE, so sockets the service made itself are never closed.
\<close>
theorem timeout_removes_dead:
  assumes "forwards_ok fs"
  shows "let (fs', eff) = forward_timeout_cb now fs in
      (\<forall>a. findForward fs' a = (case findForward fs a of None \<Rightarrow> None
         | Some f \<Rightarrow> if now - lastPackageTime f \<le> 600 then Some f else None))
    \<and> (\<forall>fd. Closed fd \<in> set eff \<longleftrightarrow>
         (\<exists>a f. findForward fs a = Some f \<and> now - lastPackageTime f > 600
            \<and> local_fd (iceInfo f) = fd \<and> fd > 0))"
proof -
  let ?P = "\<lambda>(a, f). now - lastPackageTime f \<le> FORWARD_ALIVE_CHECK_TIME"
  have o: "forwards_ordered fs" using assms by (simp add: forwards_ok_def)
  have "forwards_ok (filter ?P fs)" using assms by (rule forwards_ok_filter)
  then have o': "forwards_ordered (filter ?P fs)" by (simp add: forwards_ok_def)
  have d: "distinct (map fst fs)" using o
    by (auto simp: forwards_ordered_def sorted_wrt_iff_nth_less distinct_conv_nth)
       (metis Address_lt_irrefl linorder_neqE_nat length_map nth_map)
  have d': "distinct (map fst (filter ?P fs))" using d by (rule distinct_map_filter)
  have m: "map_of (filter ?P fs) a = Some f \<longleftrightarrow> map_of fs a = Some f \<and> ?P (a, f)" for a f
    using d d' by (simp only: map_of_eq_Some_iff) auto
  have "map_of (filter ?P fs) a = (case map_of fs a of None \<Rightarrow> None
      | Some f \<Rightarrow> if now - lastPackageTime f \<le> 600 then Some f else None)" for a
    using m [of a] by (cases "map_of (filter ?P fs) a")
      (auto simp: FORWARD_ALIVE_CHECK_TIME_def split: option.split)
  moreover have "Closed fd \<in> set (concat (map (\<lambda>(a, f). delete_Forward f)
        (filter (\<lambda>(a, f). FORWARD_ALIVE_CHECK_TIME < now - lastPackageTime f) fs))) \<longleftrightarrow>
      (\<exists>a f. map_of fs a = Some f \<and> now - lastPackageTime f > 600
        \<and> local_fd (iceInfo f) = fd \<and> fd > 0)" for fd
    using d by (auto simp: delete_Forward_def map_of_eq_Some_iff FORWARD_ALIVE_CHECK_TIME_def
        split: if_splits)
  ultimately show ?thesis
    by (simp only: forward_timeout_filter findForward_map_of [OF o] findForward_map_of [OF o']
        Let_def prod.case) blast
qed

theorem timeout_removes_dead_witness:
  "let (fs', eff) = forward_timeout_cb 800 [(sample_local, sample_forward 7 MEDIA_VIDEO)] in
      (\<forall>a. findForward fs' a = (case findForward [(sample_local, sample_forward 7 MEDIA_VIDEO)] a of
           None \<Rightarrow> None | Some f \<Rightarrow> if 800 - lastPackageTime f \<le> 600 then Some f else None))
    \<and> (\<forall>fd. Closed fd \<in> set eff \<longleftrightarrow>
         (\<exists>a f. findForward [(sample_local, sample_forward 7 MEDIA_VIDEO)] a = Some f
            \<and> 800 - lastPackageTime f > 600 \<and> local_fd (iceInfo f) = fd \<and> fd > 0))"
proof (rule timeout_removes_dead)
  show "forwards_ok [(sample_local, sample_forward 7 MEDIA_VIDEO)]"
    using sample_forward_inv [of 7 MEDIA_VIDEO]
    by (simp add: forwards_ok_def forwards_ordered_def entry_ok_def)
       (simp add: sample_forward_def sample_ice_def)
qed



text \<open>
  The sender test compares the padding of the two addresses, which the network stack does not
  define for the stored one: a datagram from the WebRTC peer's own address is taken for the XMPP
  peer's, and is sent back to where it came from, when both peers use one port number and the
  padding differs.
\<close>
theorem webrtc_packet_echoed:
  "\<exists>f from d. sin_family from = sin_family (webrtcAddr f) \<and> sin_port from = sin_port (webrtcAddr f)
    \<and> sin_addr from = sin_addr (webrtcAddr f) \<and> d \<noteq> []
    \<and> (\<exists>g. relay_datagram (0, d, from) f = Some (Inr (g, [SentTo (ev_udp f) d (webrtcAddr f)])))"
proof -
  let ?f = "(sample_forward 7 MEDIA_VIDEO)\<lparr>webrtcAddr :=
    \<lparr>sin_family = 2, sin_port = htons 6, sin_addr = 1, sin_zero = replicate 8 7\<rparr>\<rparr>"
  let ?from = "\<lparr>sin_family = 2, sin_port = htons 6, sin_addr = 1, sin_zero = replicate 8 0\<rparr>"
  have f: "forward_inv ?f" using sample_forward_inv [of 7 MEDIA_VIDEO] by (simp add: forward_inv_def)
  have n: "\<not> isWebrtcAddr ?f ?from" by (simp add: isWebrtcAddr_def sample_forward_def)
  have m: "mediaType ?f = MEDIA_VIDEO" by (simp add: sample_forward_def)
  from relay_from_xmpp [OF f _ _ n, of "[1]" 0] m
  have "\<exists>g. relay_datagram (0, [1], ?from) ?f = Some (Inr (g, [SentTo (ev_udp ?f) [1] (webrtcAddr ?f)]))"
    by (auto simp: forwarded_payload_def MAX_UDP_PACKET_LEN_def)
  then show ?thesis by (intro exI [of _ ?f] exI [of _ ?from] exI [of _ "[1]"]) simp
qed

end
