(* ===== verification/JsonValue.thy ===== *)
theory JsonValue
  imports Prelude
begin

text \<open>
  The value type of the embedded jsoncpp (\<open>third/eice/src/jsoncpp.cpp\<close>, namespace \<open>Json_em\<close>):
  \<open>json_tool.h\<close>, and class \<open>Value\<close> without comments and source offsets. A \<open>char*\<close> is the text before
  its first NUL. A \<open>double\<close> is its IEEE 754 bits. An exception is the left of a sum, with its message.
\<close>

type_synonym 'a throws = "string + 'a"

section \<open>json_tool.h\<close>

definition char_of_word :: "u32 \<Rightarrow> char" where
  "char_of_word w = char_of (unat w mod 256)"

definition codePointToUTF8 :: "u32 \<Rightarrow> string" where
  "codePointToUTF8 cp =
     (if cp \<le> 0x7f then [char_of_word cp]
      else if cp \<le> 0x7FF then
        [char_of_word (0xC0 OR (0x1f AND drop_bit 6 cp)),
         char_of_word (0x80 OR (0x3f AND cp))]
      else if cp \<le> 0xFFFF then
        [char_of_word (0xE0 OR (0xf AND drop_bit 12 cp)),
         char_of_word (0x80 OR (0x3f AND drop_bit 6 cp)),
         char_of_word (0x80 OR (0x3f AND cp))]
      else if cp \<le> 0x10FFFF then
        [char_of_word (0xF0 OR (0x7 AND drop_bit 18 cp)),
         char_of_word (0x80 OR (0x3f AND drop_bit 12 cp)),
         char_of_word (0x80 OR (0x3f AND drop_bit 6 cp)),
         char_of_word (0x80 OR (0x3f AND cp))]
      else [])"

definition isControlCharacter :: "char \<Rightarrow> bool" where
  "isControlCharacter ch \<longleftrightarrow> 0 < (of_char ch :: nat) \<and> (of_char ch :: nat) \<le> 0x1F"

text \<open>The digits are written backwards into the buffer; here the digits so far are the argument.\<close>

fun uintToString :: "nat \<Rightarrow> string \<Rightarrow> string" where
  "uintToString value current =
     (let current = char_of (value mod 10 + 48) # current
      in if value div 10 \<noteq> 0 then uintToString (value div 10) current else current)"

declare uintToString.simps [simp del]

definition fixNumericLocale :: "string \<Rightarrow> string" where
  "fixNumericLocale s = map (\<lambda>c. if c = CHR '','' then CHR ''.'' else c) s"

section \<open>Limits and doubles\<close>

definition minInt :: int where "minInt = - (2 ^ 31)"
definition maxInt :: int where "maxInt = 2 ^ 31 - 1"
definition maxUInt :: int where "maxUInt = 2 ^ 32 - 1"
definition minInt64 :: int where "minInt64 = - (2 ^ 63)"
definition maxInt64 :: int where "maxInt64 = 2 ^ 63 - 1"
definition maxUInt64 :: int where "maxUInt64 = 2 ^ 64 - 1"

lemmas int_limits = minInt_def maxInt_def maxUInt_def minInt64_def maxInt64_def maxUInt64_def

type_synonym cdouble = u64

definition dbl_sign :: "cdouble \<Rightarrow> bool" where
  "dbl_sign d = bit d 63"

definition dbl_exp :: "cdouble \<Rightarrow> nat" where
  "dbl_exp d = unat (take_bit 11 (drop_bit 52 d))"

definition dbl_frac :: "cdouble \<Rightarrow> nat" where
  "dbl_frac d = unat (take_bit 52 d)"

definition dbl_nan :: "cdouble \<Rightarrow> bool" where
  "dbl_nan d \<longleftrightarrow> dbl_exp d = 2047 \<and> dbl_frac d \<noteq> 0"

definition dbl_inf :: "cdouble \<Rightarrow> bool" where
  "dbl_inf d \<longleftrightarrow> dbl_exp d = 2047 \<and> dbl_frac d = 0"

text \<open>A finite double is \<open>dbl_mant d * 2 ^ dbl_scale d\<close>, the scale possibly negative.\<close>

definition dbl_mant :: "cdouble \<Rightarrow> int" where
  "dbl_mant d = (let m = (if dbl_exp d = 0 then int (dbl_frac d) else 2 ^ 52 + int (dbl_frac d))
                 in if dbl_sign d then - m else m)"

definition dbl_scale :: "cdouble \<Rightarrow> int" where
  "dbl_scale d = (if dbl_exp d = 0 then -1074 else int (dbl_exp d) - 1075)"

text \<open>Three-way comparison of a number \<open>m * 2 ^ e\<close> with another: brought to a common scale.\<close>

definition scaled_le :: "int \<Rightarrow> int \<Rightarrow> int \<Rightarrow> int \<Rightarrow> bool" where
  "scaled_le m e m' e' \<longleftrightarrow> m * 2 ^ nat (e - min e e') \<le> m' * 2 ^ nat (e' - min e e')"

definition dbl_le :: "cdouble \<Rightarrow> cdouble \<Rightarrow> bool" where
  "dbl_le a b \<longleftrightarrow> \<not> dbl_nan a \<and> \<not> dbl_nan b \<and>
     (if dbl_inf a then dbl_sign a \<or> (dbl_inf b \<and> \<not> dbl_sign b)
      else if dbl_inf b then \<not> dbl_sign b
      else scaled_le (dbl_mant a) (dbl_scale a) (dbl_mant b) (dbl_scale b))"

definition dbl_lt :: "cdouble \<Rightarrow> cdouble \<Rightarrow> bool" where
  "dbl_lt a b \<longleftrightarrow> dbl_le a b \<and> \<not> dbl_le b a"

definition dbl_eq :: "cdouble \<Rightarrow> cdouble \<Rightarrow> bool" where
  "dbl_eq a b \<longleftrightarrow> dbl_le a b \<and> dbl_le b a"

definition dbl_ge_int :: "cdouble \<Rightarrow> int \<Rightarrow> bool" where
  "dbl_ge_int d n \<longleftrightarrow> \<not> dbl_nan d \<and>
     (if dbl_inf d then \<not> dbl_sign d else scaled_le n 0 (dbl_mant d) (dbl_scale d))"

definition dbl_le_int :: "cdouble \<Rightarrow> int \<Rightarrow> bool" where
  "dbl_le_int d n \<longleftrightarrow> \<not> dbl_nan d \<and>
     (if dbl_inf d then dbl_sign d else scaled_le (dbl_mant d) (dbl_scale d) n 0)"

text \<open>Truncation towards zero, and whether there is nothing to truncate (\<open>modf\<close>).\<close>

definition dbl_to_int :: "cdouble \<Rightarrow> int" where
  "dbl_to_int d =
     (let a = \<bar>dbl_mant d\<bar>;
          t = (if dbl_scale d \<ge> 0 then a * 2 ^ nat (dbl_scale d) else a div 2 ^ nat (- dbl_scale d))
      in if dbl_sign d then - t else t)"

definition IsIntegral :: "cdouble \<Rightarrow> bool" where
  "IsIntegral d \<longleftrightarrow> dbl_inf d \<or> \<not> dbl_nan d \<and>
     (dbl_scale d \<ge> 0 \<or> dbl_mant d mod 2 ^ nat (- dbl_scale d) = 0)"

section \<open>Values\<close>

text \<open>
  Arrays are maps from index to value and may have holes; objects are maps ordered by \<open>strcmp\<close>.
\<close>

datatype Value =
    nullValue
  | intValue int
  | uintValue nat
  | realValue cdouble
  | stringValue string
  | booleanValue bool
  | arrayValue "(nat \<times> Value) list"
  | objectValue "(string \<times> Value) list"

fun Value_type :: "Value \<Rightarrow> nat" where
  "Value_type nullValue = 0"
| "Value_type (intValue _) = 1"
| "Value_type (uintValue _) = 2"
| "Value_type (realValue _) = 3"
| "Value_type (stringValue _) = 4"
| "Value_type (booleanValue _) = 5"
| "Value_type (arrayValue _) = 6"
| "Value_type (objectValue _) = 7"

definition Value_of_string :: "string \<Rightarrow> Value" where
  "Value_of_string s = stringValue (c_str s)"

definition isNull :: "Value \<Rightarrow> bool" where "isNull v \<longleftrightarrow> Value_type v = 0"
definition isBool :: "Value \<Rightarrow> bool" where "isBool v \<longleftrightarrow> Value_type v = 5"
definition isString :: "Value \<Rightarrow> bool" where "isString v \<longleftrightarrow> Value_type v = 4"
definition isArray :: "Value \<Rightarrow> bool" where "isArray v \<longleftrightarrow> Value_type v = 6"
definition isObject :: "Value \<Rightarrow> bool" where "isObject v \<longleftrightarrow> Value_type v = 7"

fun isInt :: "Value \<Rightarrow> bool" where
  "isInt (intValue i) = (minInt \<le> i \<and> i \<le> maxInt)"
| "isInt (uintValue u) = (int u \<le> maxInt)"
| "isInt (realValue d) = (dbl_ge_int d minInt \<and> dbl_le_int d maxInt \<and> IsIntegral d)"
| "isInt _ = False"

fun isUInt :: "Value \<Rightarrow> bool" where
  "isUInt (intValue i) = (0 \<le> i \<and> i \<le> maxUInt)"
| "isUInt (uintValue u) = (int u \<le> maxUInt)"
| "isUInt (realValue d) = (dbl_ge_int d 0 \<and> dbl_le_int d maxUInt \<and> IsIntegral d)"
| "isUInt _ = False"

text \<open>\<open>double(maxInt64)\<close> is \<open>2^63\<close> and \<open>maxUInt64AsDouble\<close> is \<open>2^64\<close>.\<close>

fun isInt64 :: "Value \<Rightarrow> bool" where
  "isInt64 (intValue i) = True"
| "isInt64 (uintValue u) = (int u \<le> maxInt64)"
| "isInt64 (realValue d) =
     (dbl_ge_int d minInt64 \<and> \<not> dbl_ge_int d (2 ^ 63) \<and> IsIntegral d)"
| "isInt64 _ = False"

fun isUInt64 :: "Value \<Rightarrow> bool" where
  "isUInt64 (intValue i) = (0 \<le> i)"
| "isUInt64 (uintValue u) = True"
| "isUInt64 (realValue d) = (dbl_ge_int d 0 \<and> \<not> dbl_ge_int d (2 ^ 64) \<and> IsIntegral d)"
| "isUInt64 _ = False"

definition isIntegral :: "Value \<Rightarrow> bool" where
  "isIntegral v \<longleftrightarrow> isInt64 v \<or> isUInt64 v"

definition isDouble :: "Value \<Rightarrow> bool" where
  "isDouble v \<longleftrightarrow> Value_type v = 3 \<or> isIntegral v"

definition isNumeric :: "Value \<Rightarrow> bool" where
  "isNumeric v \<longleftrightarrow> isIntegral v \<or> isDouble v"

section \<open>Conversions\<close>

text \<open>
  \<open>valueToString\<close> of integers (\<open>json_writer.cpp\<close>); of doubles it is \<open>snprintf\<close> with \<open>%.16g\<close>, which is
  given by the C library: the parameter \<open>pf\<close>.
\<close>

definition valueToString_UInt :: "nat \<Rightarrow> string" where
  "valueToString_UInt value = uintToString value []"

definition valueToString_Int :: "int \<Rightarrow> string" where
  "valueToString_Int value =
     (if value < 0 then CHR ''-'' # uintToString (nat (- value)) [] else uintToString (nat value) [])"

definition valueToString_double :: "(cdouble \<Rightarrow> string) \<Rightarrow> cdouble \<Rightarrow> string" where
  "valueToString_double pf value =
     fixNumericLocale (if \<not> dbl_inf value \<and> \<not> dbl_nan value then pf value
       else if dbl_nan value then ''null''
       else if dbl_sign value then ''-1e+9999'' else ''1e+9999'')"

definition valueToString_bool :: "bool \<Rightarrow> string" where
  "valueToString_bool value = (if value then ''true'' else ''false'')"

fun asCString :: "Value \<Rightarrow> string throws" where
  "asCString (stringValue s) = Inr s"
| "asCString _ = Inl ''in Json_em::Value::asCString(): requires stringValue''"

fun asString :: "(cdouble \<Rightarrow> string) \<Rightarrow> Value \<Rightarrow> string throws" where
  "asString pf nullValue = Inr []"
| "asString pf (stringValue s) = Inr s"
| "asString pf (booleanValue b) = Inr (if b then ''true'' else ''false'')"
| "asString pf (intValue i) = Inr (valueToString_Int i)"
| "asString pf (uintValue u) = Inr (valueToString_UInt u)"
| "asString pf (realValue d) = Inr (valueToString_double pf d)"
| "asString pf _ = Inl ''Type is not convertible to string''"

definition InRange :: "cdouble \<Rightarrow> int \<Rightarrow> int \<Rightarrow> bool" where
  "InRange d lo hi \<longleftrightarrow> dbl_ge_int d lo \<and> dbl_le_int d hi"

fun asInt :: "Value \<Rightarrow> int throws" where
  "asInt (intValue i) =
     (if isInt (intValue i) then Inr i else Inl ''LargestInt out of Int range'')"
| "asInt (uintValue u) =
     (if isInt (uintValue u) then Inr (int u) else Inl ''LargestUInt out of Int range'')"
| "asInt (realValue d) =
     (if InRange d minInt maxInt then Inr (dbl_to_int d) else Inl ''double out of Int range'')"
| "asInt nullValue = Inr 0"
| "asInt (booleanValue b) = Inr (if b then 1 else 0)"
| "asInt _ = Inl ''Value is not convertible to Int.''"

fun asUInt :: "Value \<Rightarrow> int throws" where
  "asUInt (intValue i) =
     (if isUInt (intValue i) then Inr i else Inl ''LargestInt out of UInt range'')"
| "asUInt (uintValue u) =
     (if isUInt (uintValue u) then Inr (int u) else Inl ''LargestUInt out of UInt range'')"
| "asUInt (realValue d) =
     (if InRange d 0 maxUInt then Inr (dbl_to_int d) else Inl ''double out of UInt range'')"
| "asUInt nullValue = Inr 0"
| "asUInt (booleanValue b) = Inr (if b then 1 else 0)"
| "asUInt _ = Inl ''Value is not convertible to UInt.''"

text \<open>
  \<open>InRange\<close> compares with the limit converted to double, \<open>2^63\<close> or \<open>2^64\<close>: that value passes the
  test, and converting it overflows, which is undefined (\<open>None\<close>).
\<close>

fun asInt64 :: "Value \<Rightarrow> int throws option" where
  "asInt64 (intValue i) = Some (Inr i)"
| "asInt64 (uintValue u) =
     Some (if isInt64 (uintValue u) then Inr (int u) else Inl ''LargestUInt out of Int64 range'')"
| "asInt64 (realValue d) =
     (if InRange d minInt64 (2 ^ 63)
      then if dbl_to_int d \<le> maxInt64 then Some (Inr (dbl_to_int d)) else None
      else Some (Inl ''double out of Int64 range''))"
| "asInt64 nullValue = Some (Inr 0)"
| "asInt64 (booleanValue b) = Some (Inr (if b then 1 else 0))"
| "asInt64 _ = Some (Inl ''Value is not convertible to Int64.'')"

fun asUInt64 :: "Value \<Rightarrow> int throws option" where
  "asUInt64 (intValue i) =
     Some (if isUInt64 (intValue i) then Inr i else Inl ''LargestInt out of UInt64 range'')"
| "asUInt64 (uintValue u) = Some (Inr (int u))"
| "asUInt64 (realValue d) =
     (if InRange d 0 (2 ^ 64)
      then if dbl_to_int d \<le> maxUInt64 then Some (Inr (dbl_to_int d)) else None
      else Some (Inl ''double out of UInt64 range''))"
| "asUInt64 nullValue = Some (Inr 0)"
| "asUInt64 (booleanValue b) = Some (Inr (if b then 1 else 0))"
| "asUInt64 _ = Some (Inl ''Value is not convertible to UInt64.'')"

fun asBool :: "Value \<Rightarrow> bool throws" where
  "asBool (booleanValue b) = Inr b"
| "asBool nullValue = Inr False"
| "asBool (intValue i) = Inr (i \<noteq> 0)"
| "asBool (uintValue u) = Inr (u \<noteq> 0)"
| "asBool (realValue d) = Inr (dbl_nan d \<or> dbl_mant d \<noteq> 0)"
| "asBool _ = Inl ''Value is not convertible to bool.''"

section \<open>Arrays and objects\<close>

definition Value_size :: "Value \<Rightarrow> nat" where
  "Value_size v =
     (case v of
        arrayValue m \<Rightarrow> (if m \<noteq> [] then fst (last m) + 1 else 0)
      | objectValue m \<Rightarrow> length m
      | _ \<Rightarrow> 0)"

definition Value_empty :: "Value \<Rightarrow> bool" where
  "Value_empty v = (if isNull v \<or> isArray v \<or> isObject v then Value_size v = 0 else False)"

definition Value_clear :: "Value \<Rightarrow> Value throws" where
  "Value_clear v =
     (case v of
        nullValue \<Rightarrow> Inr nullValue
      | arrayValue _ \<Rightarrow> Inr (arrayValue [])
      | objectValue _ \<Rightarrow> Inr (objectValue [])
      | _ \<Rightarrow> Inl ''in Json_em::Value::clear(): requires complex value'')"

text \<open>
  The non-const \<open>operator[]\<close> returns a reference and inserts a null where there is nothing:
  \<open>index_ref\<close> is the container after the call and the value referred to, \<open>index_set\<close> is \<open>v[i] = x\<close>.
\<close>

definition index_ref :: "Value \<Rightarrow> nat \<Rightarrow> (Value \<times> Value) throws" where
  "index_ref v index =
     (case v of
        nullValue \<Rightarrow> Inr (arrayValue [(index, nullValue)], nullValue)
      | arrayValue m \<Rightarrow>
          (case omap_find m index of
             Some x \<Rightarrow> Inr (v, x)
           | None \<Rightarrow> Inr (arrayValue (omap_put index nullValue m), nullValue))
      | _ \<Rightarrow> Inl ''in Json_em::Value::operator[](ArrayIndex): requires arrayValue'')"

definition index_set :: "Value \<Rightarrow> nat \<Rightarrow> Value \<Rightarrow> Value throws" where
  "index_set v index x =
     (case index_ref v index of
        Inl e \<Rightarrow> Inl e
      | Inr (arrayValue m, _) \<Rightarrow> Inr (arrayValue (omap_put index x m))
      | Inr (w, _) \<Rightarrow> Inr w)"

text \<open>The const \<open>operator[]\<close>: \<open>None\<close> is the address of \<open>Value::null\<close>.\<close>

definition index_at :: "Value \<Rightarrow> nat \<Rightarrow> Value option throws" where
  "index_at v index =
     (case v of
        nullValue \<Rightarrow> Inr None
      | arrayValue m \<Rightarrow> Inr (omap_find m index)
      | _ \<Rightarrow> Inl ''in Json_em::Value::operator[](ArrayIndex)const: requires arrayValue'')"

definition get_index :: "Value \<Rightarrow> nat \<Rightarrow> Value \<Rightarrow> Value throws" where
  "get_index v index defaultValue = map_sum (\<lambda>e. e) (\<lambda>r. case r of None \<Rightarrow> defaultValue | Some x \<Rightarrow> x)
     (index_at v index)"

definition isValidIndex :: "Value \<Rightarrow> nat \<Rightarrow> bool" where
  "isValidIndex v index \<longleftrightarrow> index < Value_size v"

definition Value_append :: "Value \<Rightarrow> Value \<Rightarrow> Value throws" where
  "Value_append v x = index_set v (Value_size v) x"

definition Value_resize :: "Value \<Rightarrow> nat \<Rightarrow> Value throws" where
  "Value_resize v newSize =
     (case (case v of nullValue \<Rightarrow> arrayValue [] | _ \<Rightarrow> v) of
        arrayValue m \<Rightarrow>
          (let oldSize = Value_size (arrayValue m)
           in if newSize = 0 then Inr (arrayValue [])
              else if newSize > oldSize then map_sum (\<lambda>e. e) fst (index_ref (arrayValue m) (newSize - 1))
              else Inr (arrayValue (fold omap_erase [newSize ..< oldSize] m)))
      | _ \<Rightarrow> Inl ''in Json_em::Value::resize(): requires arrayValue'')"

definition member_ref :: "Value \<Rightarrow> string \<Rightarrow> (Value \<times> Value) throws" where
  "member_ref v key =
     (case v of
        nullValue \<Rightarrow> Inr (objectValue [(c_str key, nullValue)], nullValue)
      | objectValue m \<Rightarrow>
          (case omap_find m (c_str key) of
             Some x \<Rightarrow> Inr (v, x)
           | None \<Rightarrow> Inr (objectValue (omap_put (c_str key) nullValue m), nullValue))
      | _ \<Rightarrow> Inl ''in Json_em::Value::resolveReference(): requires objectValue'')"

definition member_set :: "Value \<Rightarrow> string \<Rightarrow> Value \<Rightarrow> Value throws" where
  "member_set v key x =
     (case member_ref v key of
        Inl e \<Rightarrow> Inl e
      | Inr (objectValue m, _) \<Rightarrow> Inr (objectValue (omap_put (c_str key) x m))
      | Inr (w, _) \<Rightarrow> Inr w)"

definition member_at :: "Value \<Rightarrow> string \<Rightarrow> Value option throws" where
  "member_at v key =
     (case v of
        nullValue \<Rightarrow> Inr None
      | objectValue m \<Rightarrow> Inr (omap_find m (c_str key))
      | _ \<Rightarrow> Inl ''in Json_em::Value::operator[](char const*)const: requires objectValue'')"

definition member_get :: "Value \<Rightarrow> string \<Rightarrow> Value \<Rightarrow> Value throws" where
  "member_get v key defaultValue = map_sum (\<lambda>e. e) (\<lambda>r. case r of None \<Rightarrow> defaultValue | Some x \<Rightarrow> x)
     (member_at v key)"

definition isMember :: "Value \<Rightarrow> string \<Rightarrow> bool throws" where
  "isMember v key = map_sum (\<lambda>e. e) (\<lambda>r. r \<noteq> None) (member_at v key)"

definition removeMember :: "Value \<Rightarrow> string \<Rightarrow> (Value \<times> Value) throws" where
  "removeMember v key =
     (case v of
        nullValue \<Rightarrow> Inr (v, nullValue)
      | objectValue m \<Rightarrow>
          (case omap_find m (c_str key) of
             None \<Rightarrow> Inr (v, nullValue)
           | Some old \<Rightarrow> Inr (objectValue (omap_erase (c_str key) m), old))
      | _ \<Rightarrow> Inl ''in Json_em::Value::removeMember(): requires objectValue'')"

definition getMemberNames :: "Value \<Rightarrow> string list throws" where
  "getMemberNames v =
     (case v of
        nullValue \<Rightarrow> Inr []
      | objectValue m \<Rightarrow> Inr (map fst m)
      | _ \<Rightarrow> Inl ''in Json_em::Value::getMemberNames(), value must be objectValue'')"

text \<open>\<open>isConvertibleTo\<close>, its argument a type number; on a number \<open>asDouble() == 0.0\<close> means zero.\<close>

fun number_is_zero :: "Value \<Rightarrow> bool" where
  "number_is_zero (intValue i) = (i = 0)"
| "number_is_zero (uintValue u) = (u = 0)"
| "number_is_zero (realValue d) = (\<not> dbl_nan d \<and> \<not> dbl_inf d \<and> dbl_mant d = 0)"
| "number_is_zero _ = False"

definition isConvertibleTo :: "Value \<Rightarrow> nat \<Rightarrow> bool outcome" where
  "isConvertibleTo v other =
     (if other = 0 then
        Inr (isNumeric v \<and> number_is_zero v \<or> v = booleanValue False \<or> v = stringValue []
             \<or> v = arrayValue [] \<or> v = objectValue [] \<or> isNull v)
      else if other = 1 then
        Inr (isInt v \<or> (case v of realValue d \<Rightarrow> InRange d minInt maxInt | _ \<Rightarrow> False)
             \<or> isBool v \<or> isNull v)
      else if other = 2 then
        Inr (isUInt v \<or> (case v of realValue d \<Rightarrow> InRange d 0 maxUInt | _ \<Rightarrow> False)
             \<or> isBool v \<or> isNull v)
      else if other = 3 \<or> other = 5 then Inr (isNumeric v \<or> isBool v \<or> isNull v)
      else if other = 4 then Inr (isNumeric v \<or> isBool v \<or> isString v \<or> isNull v)
      else if other = 6 then Inr (isArray v \<or> isNull v)
      else if other = 7 then Inr (isObject v \<or> isNull v)
      else Inl AssertFailed)"

section \<open>Comparison\<close>

text \<open>
  \<open>operator<\<close> orders by type, then by content; containers by size, then as \<open>std::map\<close> compares:
  lexicographically, each pair by key and then by value.
\<close>

function Value_lt :: "Value \<Rightarrow> Value \<Rightarrow> bool"
  and array_lt :: "(nat \<times> Value) list \<Rightarrow> (nat \<times> Value) list \<Rightarrow> bool"
  and object_lt :: "(string \<times> Value) list \<Rightarrow> (string \<times> Value) list \<Rightarrow> bool" where
  "Value_lt v w =
     (case (v, w) of
        (intValue i, intValue j) \<Rightarrow> i < j
      | (uintValue i, uintValue j) \<Rightarrow> i < j
      | (realValue a, realValue b) \<Rightarrow> dbl_lt a b
      | (booleanValue a, booleanValue b) \<Rightarrow> \<not> a \<and> b
      | (stringValue a, stringValue b) \<Rightarrow> a < b
      | (arrayValue a, arrayValue b) \<Rightarrow>
          if length a \<noteq> length b then length a < length b else array_lt a b
      | (objectValue a, objectValue b) \<Rightarrow>
          if length a \<noteq> length b then length a < length b else object_lt a b
      | _ \<Rightarrow> Value_type v < Value_type w)"
| "array_lt as bs =
     (case (as, bs) of
        ([], _) \<Rightarrow> bs \<noteq> []
      | (_, []) \<Rightarrow> False
      | ((i, a) # as', (j, b) # bs') \<Rightarrow>
          if i < j \<or> \<not> j < i \<and> Value_lt a b then True
          else if j < i \<or> \<not> i < j \<and> Value_lt b a then False
          else array_lt as' bs')"
| "object_lt as bs =
     (case (as, bs) of
        ([], _) \<Rightarrow> bs \<noteq> []
      | (_, []) \<Rightarrow> False
      | ((i, a) # as', (j, b) # bs') \<Rightarrow>
          if i < j \<or> \<not> j < i \<and> Value_lt a b then True
          else if j < i \<or> \<not> i < j \<and> Value_lt b a then False
          else object_lt as' bs')"
  by pat_completeness auto
termination
  by (relation "measure (\<lambda>x. case x of
        Inl (v, w) \<Rightarrow> size v + size w
      | Inr (Inl (as, bs)) \<Rightarrow> size_list (\<lambda>p. Suc (size (snd p))) as + size_list (\<lambda>p. Suc (size (snd p))) bs
      | Inr (Inr (as, bs)) \<Rightarrow> size_list (\<lambda>p. Suc (size (snd p))) as + size_list (\<lambda>p. Suc (size (snd p))) bs)")
     (auto simp: size_prod_simp)

declare Value_lt.simps [simp del] array_lt.simps [simp del] object_lt.simps [simp del]

function Value_eq :: "Value \<Rightarrow> Value \<Rightarrow> bool"
  and array_eq :: "(nat \<times> Value) list \<Rightarrow> (nat \<times> Value) list \<Rightarrow> bool"
  and object_eq :: "(string \<times> Value) list \<Rightarrow> (string \<times> Value) list \<Rightarrow> bool" where
  "Value_eq v w =
     (case (v, w) of
        (nullValue, nullValue) \<Rightarrow> True
      | (intValue i, intValue j) \<Rightarrow> i = j
      | (uintValue i, uintValue j) \<Rightarrow> i = j
      | (realValue a, realValue b) \<Rightarrow> dbl_eq a b
      | (booleanValue a, booleanValue b) \<Rightarrow> a = b
      | (stringValue a, stringValue b) \<Rightarrow> a = b
      | (arrayValue a, arrayValue b) \<Rightarrow> length a = length b \<and> array_eq a b
      | (objectValue a, objectValue b) \<Rightarrow> length a = length b \<and> object_eq a b
      | _ \<Rightarrow> False)"
| "array_eq as bs =
     (case (as, bs) of
        ([], []) \<Rightarrow> True
      | ((i, a) # as', (j, b) # bs') \<Rightarrow> i = j \<and> Value_eq a b \<and> array_eq as' bs'
      | _ \<Rightarrow> False)"
| "object_eq as bs =
     (case (as, bs) of
        ([], []) \<Rightarrow> True
      | ((i, a) # as', (j, b) # bs') \<Rightarrow> i = j \<and> Value_eq a b \<and> object_eq as' bs'
      | _ \<Rightarrow> False)"
  by pat_completeness auto
termination
  by (relation "measure (\<lambda>x. case x of
        Inl (v, w) \<Rightarrow> size v
      | Inr (Inl (as, bs)) \<Rightarrow> size_list (\<lambda>p. Suc (size (snd p))) as
      | Inr (Inr (as, bs)) \<Rightarrow> size_list (\<lambda>p. Suc (size (snd p))) as)")
     (auto simp: size_prod_simp)

declare Value_eq.simps [simp del] array_eq.simps [simp del] object_eq.simps [simp del]

definition Value_compare :: "Value \<Rightarrow> Value \<Rightarrow> int" where
  "Value_compare v w = (if Value_lt v w then -1 else if Value_lt w v then 1 else 0)"

section \<open>Building and reading values\<close>

text \<open>Members assigned one after the other to a null value, and \<open>append\<close> to an array.\<close>

definition value_of_members :: "(string \<times> Value) list \<Rightarrow> Value" where
  "value_of_members kvs = (if kvs = [] then nullValue else objectValue (fold (\<lambda>(k, v). omap_put k v) kvs []))"

definition value_of_items :: "Value list \<Rightarrow> Value" where
  "value_of_items vs = (if vs = [] then nullValue else arrayValue (enumerate 0 vs))"

text \<open>Reading the inserting \<open>operator[]\<close>, and a conversion after it; a wrong type throws.\<close>

definition throw_bind :: "'a throws \<Rightarrow> ('a \<Rightarrow> 'b throws) \<Rightarrow> 'b throws" where
  "throw_bind m f = (case m of Inl e \<Rightarrow> Inl e | Inr x \<Rightarrow> f x)"

lemma throw_bind_simps [simp]: "throw_bind (Inl e) f = Inl e" "throw_bind (Inr x) f = f x"
  by (simp_all add: throw_bind_def)

definition vmember :: "Value \<Rightarrow> string \<Rightarrow> Value throws" where
  "vmember v key = map_sum (\<lambda>e. e) snd (member_ref v key)"

definition string_member :: "(cdouble \<Rightarrow> string) \<Rightarrow> Value \<Rightarrow> string \<Rightarrow> string throws" where
  "string_member pf v key = throw_bind (vmember v key) (asString pf)"

definition int_member :: "Value \<Rightarrow> string \<Rightarrow> int throws" where
  "int_member v key = throw_bind (vmember v key) asInt"

end
