(* ===== verification/JsonReader.thy ===== *)
theory JsonReader
  imports JsonValue
begin

text \<open>
  The reader of the embedded jsoncpp (\<open>json_reader.cpp\<close> in \<open>third/eice/src/jsoncpp.cpp\<close>), with
  \<open>collectComments\<close> off and without the source offsets of values; \<open>JsonComments\<close> has both. A
  \<open>Location\<close>, a pointer into the document, is the rest of the document from there on: the end is the
  empty rest, and what is read at it is the terminating NUL of \<open>c_str()\<close>. \<open>sscanf\<close> and \<open>snprintf\<close> on doubles are the parameter \<open>clib\<close>.
\<close>

section \<open>Tokens\<close>

type_synonym Location = string

abbreviation QUOTE :: char where "QUOTE \<equiv> CHR 0x22"
abbreviation BACKSLASH :: char where "BACKSLASH \<equiv> CHR 0x5C"

record clib =
  scan_double :: "string \<Rightarrow> cdouble option"
  print_double :: "cdouble \<Rightarrow> string"

record Features =
  allowComments :: bool
  strictRoot :: bool
  allowDroppedNullPlaceholders :: bool
  allowNumericKeys :: bool

definition Features_all :: Features where
  "Features_all = \<lparr>allowComments = True, strictRoot = False, allowDroppedNullPlaceholders = False,
     allowNumericKeys = False\<rparr>"

definition Features_strictMode :: Features where
  "Features_strictMode = \<lparr>allowComments = False, strictRoot = True,
     allowDroppedNullPlaceholders = False, allowNumericKeys = False\<rparr>"

datatype TokenType =
    tokenEndOfStream | tokenObjectBegin | tokenObjectEnd | tokenArrayBegin | tokenArrayEnd
  | tokenString | tokenNumber | tokenTrue | tokenFalse | tokenNull | tokenArraySeparator
  | tokenMemberSeparator | tokenComment | tokenError

record Token =
  tok_type :: TokenType
  tok_start :: Location
  tok_end :: Location

definition tok_text :: "Token \<Rightarrow> string" where
  "tok_text t = take (length (tok_start t) - length (tok_end t)) (tok_start t)"

record ErrorInfo =
  err_token :: Token
  err_message :: string
  err_extra :: "Location option"

record Reader =
  rd_current :: Location
  rd_errors :: "ErrorInfo list"

definition addError :: "string \<Rightarrow> Token \<Rightarrow> Location option \<Rightarrow> Reader \<Rightarrow> Reader" where
  "addError message token extra R =
     R\<lparr>rd_errors := rd_errors R @ [\<lparr>err_token = token, err_message = message, err_extra = extra\<rparr>]\<rparr>"

definition deref :: "Location \<Rightarrow> char" where
  "deref cs = (case cs of [] \<Rightarrow> NUL | c # _ \<Rightarrow> c)"

definition getNextChar :: "Location \<Rightarrow> char \<times> Location" where
  "getNextChar cs = (case cs of [] \<Rightarrow> (NUL, []) | c # rest \<Rightarrow> (c, rest))"

definition is_space :: "char \<Rightarrow> bool" where
  "is_space c \<longleftrightarrow> c = CHR '' '' \<or> c = TAB \<or> c = CR \<or> c = LF"

definition skipSpaces :: "Location \<Rightarrow> Location" where
  "skipSpaces cs = dropWhile is_space cs"

definition match :: "Location \<Rightarrow> string \<Rightarrow> bool \<times> Location" where
  "match cs pattern =
     (if length cs < length pattern then (False, cs)
      else if take (length pattern) cs \<noteq> pattern then (False, cs)
      else (True, drop (length pattern) cs))"

fun readCStyleComment :: "Location \<Rightarrow> bool \<times> Location" where
  "readCStyleComment [] = (False, [])"
| "readCStyleComment (c # cs) =
     (if c = CHR ''*'' \<and> deref cs = CHR ''/''
      then (let (d, rest) = getNextChar cs in (d = CHR ''/'', rest))
      else readCStyleComment cs)"

fun readCppStyleComment :: "Location \<Rightarrow> bool \<times> Location" where
  "readCppStyleComment [] = (True, [])"
| "readCppStyleComment (c # cs) =
     (if c = CR \<or> c = LF then (True, cs) else readCppStyleComment cs)"

definition readComment :: "Location \<Rightarrow> bool \<times> Location" where
  "readComment cs =
     (let (c, cs1) = getNextChar cs
      in if c = CHR ''*'' then readCStyleComment cs1
         else if c = CHR ''/'' then readCppStyleComment cs1
         else (False, cs1))"

definition is_digit :: "char \<Rightarrow> bool" where
  "is_digit c \<longleftrightarrow> (48 :: nat) \<le> of_char c \<and> of_char c \<le> (57 :: nat)"

definition is_number_char :: "char \<Rightarrow> bool" where
  "is_number_char c \<longleftrightarrow> is_digit c \<or> c \<in> {CHR ''.'', CHR ''e'', CHR ''E'', CHR ''+'', CHR ''-''}"

definition readNumber :: "Location \<Rightarrow> Location" where
  "readNumber cs = dropWhile is_number_char cs"

text \<open>\<open>c\<close> is the last character read in the loop, the one after a backslash excepted.\<close>

fun readString :: "char \<Rightarrow> Location \<Rightarrow> bool \<times> Location" where
  "readString c [] = (c = QUOTE, [])"
| "readString _ (c # cs) =
     (if c = BACKSLASH then (case cs of [] \<Rightarrow> (False, []) | _ # cs' \<Rightarrow> readString c cs')
      else if c = QUOTE then (True, cs)
      else readString c cs)"

text \<open>
  The switch of \<open>readToken\<close> on the character \<open>c\<close> just read: the token type, \<open>ok\<close> and the position.
  \<open>readToken\<close> always returns true; the position after it is the end of its token.
\<close>

definition token_switch :: "char \<Rightarrow> Location \<Rightarrow> TokenType \<times> bool \<times> Location" where
  "token_switch c cs1 =
     (if c = CHR ''{'' then (tokenObjectBegin, True, cs1)
      else if c = CHR ''}'' then (tokenObjectEnd, True, cs1)
      else if c = CHR ''['' then (tokenArrayBegin, True, cs1)
      else if c = CHR '']'' then (tokenArrayEnd, True, cs1)
      else if c = QUOTE then (tokenString, readString NUL cs1)
      else if c = CHR ''/'' then (tokenComment, readComment cs1)
      else if is_digit c \<or> c = CHR ''-'' then (tokenNumber, True, readNumber cs1)
      else if c = CHR ''t'' then (tokenTrue, match cs1 ''rue'')
      else if c = CHR ''f'' then (tokenFalse, match cs1 ''alse'')
      else if c = CHR ''n'' then (tokenNull, match cs1 ''ull'')
      else if c = CHR '','' then (tokenArraySeparator, True, cs1)
      else if c = CHR '':'' then (tokenMemberSeparator, True, cs1)
      else if c = NUL then (tokenEndOfStream, True, cs1)
      else (tokenError, False, cs1))"

definition readToken :: "Location \<Rightarrow> Token" where
  "readToken cs0 =
     (let cs = skipSpaces cs0;
          (c, cs1) = getNextChar cs;
          (ty, ok, cs2) = token_switch c cs1
      in \<lparr>tok_type = (if ok then ty else tokenError), tok_start = cs, tok_end = cs2\<rparr>)"

section \<open>Progress\<close>

lemma length_skipSpaces: "length (skipSpaces cs) \<le> length cs"
  by (simp add: skipSpaces_def length_dropWhile_le)

lemma length_getNextChar: "length (snd (getNextChar cs)) \<le> length cs"
  by (cases cs) (simp_all add: getNextChar_def)

lemma length_readCStyleComment: "length (snd (readCStyleComment cs)) \<le> length cs"
proof (induction cs)
  case (Cons c cs)
  show ?case
  proof (cases "c = CHR ''*'' \<and> deref cs = CHR ''/''")
    case True
    then have "snd (readCStyleComment (c # cs)) = snd (getNextChar cs)"
      by (simp add: case_prod_unfold Let_def)
    with length_getNextChar [of cs] show ?thesis by simp
  next
    case False
    then have "readCStyleComment (c # cs) = readCStyleComment cs"
      by (simp only: readCStyleComment.simps if_False)
    with Cons show ?thesis by simp
  qed
qed simp

lemma length_readCppStyleComment: "length (snd (readCppStyleComment cs)) \<le> length cs"
proof (induction cs)
  case (Cons c cs)
  then show ?case by (cases "c = CR \<or> c = LF") (simp_all only: readCppStyleComment.simps if_True if_False,
    simp_all)
qed simp

lemma length_readComment: "length (snd (readComment cs)) \<le> length cs"
proof -
  have "length (snd (readCStyleComment (snd (getNextChar cs)))) \<le> length cs"
    using length_readCStyleComment length_getNextChar by (rule le_trans)
  moreover have "length (snd (readCppStyleComment (snd (getNextChar cs)))) \<le> length cs"
    using length_readCppStyleComment length_getNextChar by (rule le_trans)
  ultimately show ?thesis
    using length_getNextChar [of cs]
    by (simp add: readComment_def case_prod_unfold Let_def)
qed

lemma length_readString: "length (snd (readString c cs)) \<le> length cs"
proof (induction c cs rule: readString.induct)
  case (2 uu c cs)
  then show ?case
    by (cases "c = BACKSLASH"; cases cs; cases "c = QUOTE") (simp_all add: le_SucI)
qed simp

lemma length_match: "length (snd (match cs p)) \<le> length cs"
  by (simp add: match_def)

lemma length_readNumber: "length (readNumber cs) \<le> length cs"
  by (simp add: readNumber_def length_dropWhile_le)

lemma length_if_snd:
  "length (snd (snd a)) \<le> n \<Longrightarrow> length (snd (snd b)) \<le> n \<Longrightarrow>
    length (snd (snd (if c then a else b))) \<le> n"
  by simp

lemma length_token_switch: "length (snd (snd (token_switch c cs))) \<le> length cs"
  unfolding token_switch_def
  by (intro length_if_snd)
     (simp_all only: length_readComment length_readString length_readNumber length_match
       snd_conv le_refl)

lemma length_readToken_Cons: "skipSpaces cs = c # cs1 \<Longrightarrow> length (tok_end (readToken cs)) \<le> length cs1"
  using length_token_switch [of c cs1]
  by (simp add: readToken_def Let_def getNextChar_def case_prod_unfold)

lemma token_switch_NUL: "token_switch NUL cs = (tokenEndOfStream, True, cs)"
  by (simp add: token_switch_def NUL_def is_digit_def)

lemma readToken_Nil: "skipSpaces cs = [] \<Longrightarrow>
    readToken cs = \<lparr>tok_type = tokenEndOfStream, tok_start = [], tok_end = []\<rparr>"
  by (simp add: readToken_def Let_def getNextChar_def token_switch_NUL)

lemma readToken_end_of_document: "skipSpaces cs = [] \<Longrightarrow> tok_type (readToken cs) = tokenEndOfStream"
  by (simp add: readToken_Nil)

text \<open>A token that is not the end of the document takes at least one character.\<close>

lemma readToken_progress:
  assumes "tok_type (readToken cs) \<noteq> tokenEndOfStream"
  shows "length (tok_end (readToken cs)) < length cs"
proof (cases "skipSpaces cs")
  case Nil
  with assms readToken_end_of_document show ?thesis by blast
next
  case (Cons c cs1)
  then have "length (tok_end (readToken cs)) \<le> length cs1" by (rule length_readToken_Cons)
  also have "\<dots> < length (skipSpaces cs)" by (simp add: Cons)
  also have "\<dots> \<le> length cs" by (rule length_skipSpaces)
  finally show ?thesis .
qed

lemma readToken_length: "length (tok_end (readToken cs)) \<le> length cs"
proof (cases "skipSpaces cs")
  case Nil
  then show ?thesis by (simp add: readToken_Nil)
next
  case (Cons c cs1)
  then have "length (tok_end (readToken cs)) \<le> length cs1" by (rule length_readToken_Cons)
  with Cons length_skipSpaces [of cs] show ?thesis by simp
qed

section \<open>Skipping\<close>

text \<open>The first token that is no comment: \<open>skipCommentTokens\<close>, and the loops of the same shape.\<close>

function skip_comments :: "Location \<Rightarrow> Token" where
  "skip_comments cs =
     (if tok_type (readToken cs) = tokenComment then skip_comments (tok_end (readToken cs))
      else readToken cs)"
  by pat_completeness auto
termination by (relation "measure length") (auto intro: readToken_progress)

declare skip_comments.simps [simp del]

definition skipCommentTokens :: "Features \<Rightarrow> Location \<Rightarrow> Token" where
  "skipCommentTokens F cs = (if allowComments F then skip_comments cs else readToken cs)"

function skip_until :: "TokenType \<Rightarrow> Location \<Rightarrow> Location" where
  "skip_until ty cs =
     (if tok_type (readToken cs) = ty \<or> tok_type (readToken cs) = tokenEndOfStream
      then tok_end (readToken cs)
      else skip_until ty (tok_end (readToken cs)))"
  by pat_completeness auto
termination by (relation "measure (length \<circ> snd)") (auto intro: readToken_progress)

declare skip_until.simps [simp del]

text \<open>Reading a token adds no error, so truncating the list of errors leaves it as it is.\<close>

definition recoverFromError :: "TokenType \<Rightarrow> Reader \<Rightarrow> Reader" where
  "recoverFromError skipUntilToken R =
     (let errorCount = length (rd_errors R)
      in R\<lparr>rd_current := skip_until skipUntilToken (rd_current R), rd_errors := take errorCount (rd_errors R)\<rparr>)"

definition addErrorAndRecover :: "string \<Rightarrow> Token \<Rightarrow> TokenType \<Rightarrow> Reader \<Rightarrow> Reader" where
  "addErrorAndRecover message token skipUntilToken R =
     recoverFromError skipUntilToken (addError message token None R)"

section \<open>Strings\<close>

text \<open>
  The decoders work on \<open>[current, end)\<close>, given as the characters in between and, for the locations
  in errors, the document from \<open>end\<close> on. An error is what \<open>addError\<close> will be called with.
\<close>

type_synonym decode_error = "string \<times> Location option"

definition hex_value :: "char \<Rightarrow> nat option" where
  "hex_value c =
     (let n = of_char c
      in if 48 \<le> n \<and> n \<le> 57 then Some (n - 48)
         else if 97 \<le> n \<and> n \<le> 102 then Some (n - 97 + 10)
         else if 65 \<le> n \<and> n \<le> 70 then Some (n - 65 + 10)
         else None)"

fun hex_digits :: "nat \<Rightarrow> string \<Rightarrow> u32 \<Rightarrow> string \<times> u32 option" where
  "hex_digits 0 cs unicode = (cs, Some unicode)"
| "hex_digits (Suc k) cs unicode =
     (case cs of
        [] \<Rightarrow> ([], None)
      | c # cs' \<Rightarrow>
          (case hex_value c of
             None \<Rightarrow> (cs', None)
           | Some d \<Rightarrow> hex_digits k cs' (unicode * 16 + of_nat d)))"

definition decodeUnicodeEscapeSequence ::
  "string \<Rightarrow> string \<Rightarrow> decode_error + (u32 \<times> string)" where
  "decodeUnicodeEscapeSequence behind cs =
     (if length cs < 4
      then Inl (''Bad unicode escape sequence in string: four digits expected.'', Some (cs @ behind))
      else (case hex_digits 4 cs 0 of
              (rest, None) \<Rightarrow>
                Inl (''Bad unicode escape sequence in string: hexadecimal digit expected.'', Some (rest @ behind))
            | (rest, Some unicode) \<Rightarrow> Inr (unicode, rest)))"

definition decodeUnicodeCodePoint ::
  "string \<Rightarrow> string \<Rightarrow> decode_error + (u32 \<times> string)" where
  "decodeUnicodeCodePoint behind cs =
     (case decodeUnicodeEscapeSequence behind cs of
        Inl e \<Rightarrow> Inl e
      | Inr (unicode, cs1) \<Rightarrow>
          if 0xD800 \<le> unicode \<and> unicode \<le> 0xDBFF then
            if length cs1 < 6
            then Inl (''additional six characters expected to parse unicode surrogate pair.'', Some (cs1 @ behind))
            else if hd cs1 = BACKSLASH \<and> cs1 ! 1 = CHR ''u'' then
              (case decodeUnicodeEscapeSequence behind (drop 2 cs1) of
                 Inl e \<Rightarrow> Inl e
               | Inr (surrogatePair, cs2) \<Rightarrow>
                   Inr (0x10000 + push_bit 10 (unicode AND 0x3FF) + (surrogatePair AND 0x3FF), cs2))
            else Inl (''expecting another '' @ [BACKSLASH] @ ''u token to begin the second half of a unicode surrogate pair'',
                      Some ((if hd cs1 = BACKSLASH then drop 2 cs1 else drop 1 cs1) @ behind))
          else Inr (unicode, cs1))"

definition simple_escape :: "char \<Rightarrow> char option" where
  "simple_escape c =
     (if c = QUOTE then Some QUOTE
      else if c = CHR ''/'' then Some (CHR ''/'')
      else if c = BACKSLASH then Some BACKSLASH
      else if c = CHR ''b'' then Some (CHR 0x08)
      else if c = CHR ''f'' then Some (CHR 0x0C)
      else if c = CHR ''n'' then Some LF
      else if c = CHR ''r'' then Some CR
      else if c = CHR ''t'' then Some TAB
      else None)"

lemma hex_digits_length: "length (fst (hex_digits k cs u)) \<le> length cs"
  by (induction k cs u rule: hex_digits.induct) (auto split: option.split list.split intro: le_SucI)

lemma decodeUnicodeEscapeSequence_length:
  "decodeUnicodeEscapeSequence behind cs = Inr (u, rest) \<Longrightarrow> length rest \<le> length cs"
  using hex_digits_length [of 4 cs 0]
  by (auto simp: decodeUnicodeEscapeSequence_def split: if_splits prod.splits option.splits)

lemma decodeUnicodeCodePoint_length:
  "decodeUnicodeCodePoint behind cs = Inr (u, rest) \<Longrightarrow> length rest \<le> length cs"
  by (auto simp: decodeUnicodeCodePoint_def split: if_splits sum.splits
      dest!: decodeUnicodeEscapeSequence_length)

function decode_chars :: "string \<Rightarrow> string \<Rightarrow> string \<Rightarrow> decode_error + string" where
  "decode_chars behind [] decoded = Inr decoded"
| "decode_chars behind (c # cs) decoded =
     (if c = QUOTE then Inr decoded
      else if c = BACKSLASH then
        (case cs of
           [] \<Rightarrow> Inl (''Empty escape sequence in string'', Some behind)
         | escape # cs1 \<Rightarrow>
             (case simple_escape escape of
                Some d \<Rightarrow> decode_chars behind cs1 (decoded @ [d])
              | None \<Rightarrow>
                  if escape = CHR ''u'' then
                    (case decodeUnicodeCodePoint behind cs1 of
                       Inl e \<Rightarrow> Inl e
                     | Inr (unicode, cs2) \<Rightarrow>
                         decode_chars behind cs2 (decoded @ codePointToUTF8 unicode))
                  else Inl (''Bad escape sequence in string'', Some (cs1 @ behind))))
      else decode_chars behind cs (decoded @ [c]))"
  by pat_completeness auto
termination
  by (relation "measure (\<lambda>(b, cs, d). length cs)")
     (auto dest!: decodeUnicodeCodePoint_length)

declare decode_chars.simps [simp del]

definition decodeString :: "Token \<Rightarrow> decode_error + string" where
  "decodeString t =
     (let text = tok_text t
      in decode_chars (drop (length text - 1) (tok_start t)) (butlast (tl text)) [])"

section \<open>Numbers\<close>

definition decodeDouble :: "clib \<Rightarrow> Token \<Rightarrow> decode_error + Value" where
  "decodeDouble L t =
     (case scan_double L (tok_text t) of
        Some d \<Rightarrow> Inr (realValue d)
      | None \<Rightarrow> Inl (CHR 0x27 # tok_text t @ CHR 0x27 # '' is not a number.'', None))"

text \<open>
  The digits loop, in 64 bit arithmetic. \<open>None\<close> is the exit to \<open>decodeDouble\<close>; a character that is no
  digit is the error.
\<close>

fun decode_digits :: "nat \<Rightarrow> nat \<Rightarrow> string \<Rightarrow> nat option throws" where
  "decode_digits maxIntegerValue value [] = Inr (Some value)"
| "decode_digits maxIntegerValue value (c # cs) =
     (if \<not> is_digit c then Inl ''is not a number.''
      else
        let digit = of_char c - 48;
            threshold = maxIntegerValue div 10
        in if value \<ge> threshold \<and>
              (value > threshold \<or> cs \<noteq> [] \<or> digit > maxIntegerValue mod 10)
           then Inr None
           else decode_digits maxIntegerValue ((value * 10 + digit) mod 2 ^ 64) cs)"

definition decodeNumber :: "clib \<Rightarrow> Token \<Rightarrow> decode_error + Value" where
  "decodeNumber L t =
     (let text = tok_text t;
          isDouble = (\<exists>c \<in> set text. c \<in> {CHR ''.'', CHR ''e'', CHR ''E'', CHR ''+''})
                     \<or> CHR ''-'' \<in> set (tl text)
      in if isDouble then decodeDouble L t
         else
           let isNegative = (text \<noteq> [] \<and> hd text = CHR ''-'');
               maxIntegerValue = (if isNegative then 2 ^ 63 else 2 ^ 64 - 1)
           in (case decode_digits maxIntegerValue 0 (if isNegative then tl text else text) of
                 Inl e \<Rightarrow> Inl (CHR 0x27 # text @ CHR 0x27 # '' is not a number.'', None)
               | Inr None \<Rightarrow> decodeDouble L t
               | Inr (Some value) \<Rightarrow>
                   Inr (if isNegative then intValue (- int value)
                        else if int value \<le> maxInt then intValue (int value)
                        else uintValue value)))"

section \<open>Values\<close>

text \<open>
  The reader's recursion. A result is whether the call succeeded, the value \<open>currentValue()\<close> refers
  to afterwards, and the reader; \<open>cur\<close> is what it referred to before, kept when the call fails before
  assigning. The first argument bounds the number of nested calls and turns of the loops.
\<close>

type_synonym parse_result = "(bool \<times> Value \<times> Reader) option"

definition decoded_value :: "Reader \<Rightarrow> Token \<Rightarrow> Value \<Rightarrow> (decode_error + Value) \<Rightarrow> parse_result" where
  "decoded_value R t cur r =
     (case r of
        Inl (message, extra) \<Rightarrow>
          Some (False, cur, addError message t extra R)
      | Inr v \<Rightarrow> Some (True, v, R))"

definition member_name :: "clib \<Rightarrow> Features \<Rightarrow> Token \<Rightarrow> (decode_error + string) option" where
  "member_name L F t =
     (if tok_type t = tokenString then Some (decodeString t)
      else if tok_type t = tokenNumber \<and> allowNumericKeys F then
        Some (case decodeNumber L t of
                Inl e \<Rightarrow> Inl e
              | Inr v \<Rightarrow> (case asString (print_double L) v of Inl e \<Rightarrow> Inl (e, None) | Inr s \<Rightarrow> Inr s))
      else None)"

text \<open>One activation of each function, the functions it calls as its first arguments.\<close>

definition readValue_body ::
  "(Reader \<Rightarrow> parse_result) \<Rightarrow> (Reader \<Rightarrow> parse_result)
    \<Rightarrow> clib \<Rightarrow> Features \<Rightarrow> Reader \<Rightarrow> Value \<Rightarrow> parse_result" where
  "readValue_body read_object read_array L F R0 cur =
     (let t = skipCommentTokens F (rd_current R0);
          R = R0\<lparr>rd_current := tok_end t\<rparr>;
          syntax_error = Some (False, cur,
            addError ''Syntax error: value, object or array expected.'' t None R)
      in case tok_type t of
           tokenObjectBegin \<Rightarrow> read_object R
         | tokenArrayBegin \<Rightarrow> read_array R
         | tokenNumber \<Rightarrow> decoded_value R t cur (decodeNumber L t)
         | tokenString \<Rightarrow> decoded_value R t cur (map_sum (\<lambda>e. e) Value_of_string (decodeString t))
         | tokenTrue \<Rightarrow> Some (True, booleanValue True, R)
         | tokenFalse \<Rightarrow> Some (True, booleanValue False, R)
         | tokenNull \<Rightarrow> Some (True, nullValue, R)
         | tokenArraySeparator \<Rightarrow>
             if allowDroppedNullPlaceholders F
             then Some (True, nullValue, R\<lparr>rd_current := CHR '','' # rd_current R\<rparr>)
             else syntax_error
         | _ \<Rightarrow> syntax_error)"

text \<open>The rest of a turn of the loop of \<open>readObject\<close>, after the member's value.\<close>

definition readObject_comma ::
  "(Reader \<Rightarrow> parse_result) \<Rightarrow> Value \<Rightarrow> Reader \<Rightarrow> parse_result" where
  "readObject_comma read_more object R3 =
     (let comma0 = readToken (rd_current R3);
          R4 = R3\<lparr>rd_current := tok_end comma0\<rparr>
      in if tok_type comma0 \<noteq> tokenObjectEnd \<and> tok_type comma0 \<noteq> tokenArraySeparator
            \<and> tok_type comma0 \<noteq> tokenComment
         then Some (False, object,
           addErrorAndRecover ''Missing ',' or '}' in object declaration'' comma0 tokenObjectEnd R4)
         else
           let comma = (if tok_type comma0 = tokenComment then skip_comments (rd_current R4) else comma0);
               R5 = R4\<lparr>rd_current := tok_end comma\<rparr>
           in if tok_type comma = tokenObjectEnd then Some (True, object, R5) else read_more R5)"

definition readObject_body ::
  "(Reader \<Rightarrow> Value \<Rightarrow> parse_result) \<Rightarrow> (string \<Rightarrow> Reader \<Rightarrow> (string, Value) omap \<Rightarrow> parse_result)
    \<Rightarrow> clib \<Rightarrow> Features \<Rightarrow> string \<Rightarrow> Reader \<Rightarrow> (string, Value) omap \<Rightarrow> parse_result" where
  "readObject_body read_value read_more L F name R members =
     (let tokenName = skip_comments (rd_current R);
          R1 = R\<lparr>rd_current := tok_end tokenName\<rparr>
      in if tok_type tokenName = tokenObjectEnd \<and> name = [] then Some (True, objectValue members, R1)
         else (case member_name L F tokenName of
           None \<Rightarrow> Some (False, objectValue members,
             addErrorAndRecover ''Missing '}' or object member name'' tokenName tokenObjectEnd R1)
         | Some (Inl e) \<Rightarrow> Some (False, objectValue members,
             recoverFromError tokenObjectEnd (addError (fst e) tokenName (snd e) R1))
         | Some (Inr name') \<Rightarrow>
             (let colon = readToken (rd_current R1);
                  R2 = R1\<lparr>rd_current := tok_end colon\<rparr>
              in if tok_type colon \<noteq> tokenMemberSeparator
                 then Some (False, objectValue members,
                   addErrorAndRecover ''Missing ':' after object member name'' colon tokenObjectEnd R2)
                 else
                   let key = c_str name';
                       old = (case omap_find members key of None \<Rightarrow> nullValue | Some v \<Rightarrow> v)
                   in (case read_value R2 old of
                         None \<Rightarrow> None
                       | Some (ok, v, R3) \<Rightarrow>
                           if \<not> ok then Some (False, objectValue (omap_put key v members),
                             recoverFromError tokenObjectEnd R3)
                           else readObject_comma
                             (\<lambda>R5. read_more name' R5 (omap_put key v members))
                             (objectValue (omap_put key v members)) R3))))"

definition readArray_body ::
  "(Reader \<Rightarrow> Value \<Rightarrow> parse_result) \<Rightarrow> (nat \<Rightarrow> Reader \<Rightarrow> (nat, Value) omap \<Rightarrow> parse_result)
    \<Rightarrow> nat \<Rightarrow> Reader \<Rightarrow> (nat, Value) omap \<Rightarrow> parse_result" where
  "readArray_body read_value read_more index R items =
     (case read_value R (case omap_find items index of None \<Rightarrow> nullValue | Some v \<Rightarrow> v) of
        None \<Rightarrow> None
      | Some (ok, v, R1) \<Rightarrow>
          (let items' = omap_put index v items;
               token = skip_comments (rd_current R1);
               R2 = R1\<lparr>rd_current := tok_end token\<rparr>
           in if \<not> ok then Some (False, arrayValue items', recoverFromError tokenArrayEnd R1)
              else if tok_type token \<noteq> tokenArraySeparator \<and> tok_type token \<noteq> tokenArrayEnd
              then Some (False, arrayValue items',
                addErrorAndRecover ''Missing ',' or ']' in array declaration'' token tokenArrayEnd R2)
              else if tok_type token = tokenArrayEnd then Some (True, arrayValue items', R2)
              else read_more (Suc index) R2 items'))"

text \<open>\<open>readArray\<close> before its loop.\<close>

definition readArray_begin :: "(Reader \<Rightarrow> parse_result) \<Rightarrow> Reader \<Rightarrow> parse_result" where
  "readArray_begin read_items R =
     (let R1 = R\<lparr>rd_current := skipSpaces (rd_current R)\<rparr>
      in if deref (rd_current R1) = CHR '']''
         then Some (True, arrayValue [], R1\<lparr>rd_current := tok_end (readToken (rd_current R1))\<rparr>)
         else read_items R1)"

function readValue :: "nat \<Rightarrow> clib \<Rightarrow> Features \<Rightarrow> Reader \<Rightarrow> Value \<Rightarrow> parse_result"
  and readObject :: "nat \<Rightarrow> clib \<Rightarrow> Features \<Rightarrow> string \<Rightarrow> Reader \<Rightarrow> (string, Value) omap \<Rightarrow> parse_result"
  and readArray :: "nat \<Rightarrow> clib \<Rightarrow> Features \<Rightarrow> nat \<Rightarrow> Reader \<Rightarrow> (nat, Value) omap \<Rightarrow> parse_result" where
  "readValue 0 L F R cur = None"
| "readObject 0 L F name R members = None"
| "readArray 0 L F index R items = None"
| "readValue (Suc n) L F R cur =
     readValue_body (\<lambda>R. readObject n L F [] R []) (readArray_begin (\<lambda>R. readArray n L F 0 R []))
       L F R cur"
| "readObject (Suc n) L F name R members =
     readObject_body (readValue n L F) (readObject n L F) L F name R members"
| "readArray (Suc n) L F index R items =
     readArray_body (readValue n L F) (readArray n L F) index R items"
  by pat_completeness auto
termination
  by (relation "measure (case_sum fst (case_sum fst fst))") simp_all

declare readValue.simps [simp del] readObject.simps [simp del] readArray.simps [simp del]

text \<open>\<open>parse\<close>: success, the root value and the errors. The bound is enough for every document.\<close>

definition parse_fuel :: "string \<Rightarrow> nat" where
  "parse_fuel document = 2 * length document + 3"

definition Reader_parse ::
  "clib \<Rightarrow> Features \<Rightarrow> string \<Rightarrow> Value \<Rightarrow> (bool \<times> Value \<times> ErrorInfo list) option" where
  "Reader_parse L F document root =
     (case readValue (parse_fuel document) L F \<lparr>rd_current = document, rd_errors = []\<rparr> root of
        None \<Rightarrow> None
      | Some (successful, v, R) \<Rightarrow>
          (let token = skipCommentTokens F (rd_current R)
           in if strictRoot F \<and> \<not> isArray v \<and> \<not> isObject v
              then Some (False, v, rd_errors (addError
                ''A valid JSON document must be either an array or an object value.''
                \<lparr>tok_type = tokenError, tok_start = document, tok_end = []\<rparr> None R))
              else Some (successful, v, rd_errors R)))"

section \<open>The reader always returns\<close>

lemma skip_comments_length: "length (tok_end (skip_comments cs)) \<le> length cs"
proof (induction cs rule: skip_comments.induct)
  case (1 cs)
  show ?case
  proof (cases "tok_type (readToken cs) = tokenComment")
    case True
    with 1 readToken_length [of cs] show ?thesis by (subst skip_comments.simps) simp
  next
    case False
    with readToken_length [of cs] show ?thesis by (subst skip_comments.simps) simp
  qed
qed

lemma skip_comments_progress:
  "tok_type (skip_comments cs) \<noteq> tokenEndOfStream \<Longrightarrow> length (tok_end (skip_comments cs)) < length cs"
proof (induction cs rule: skip_comments.induct)
  case (1 cs)
  show ?case
  proof (cases "tok_type (readToken cs) = tokenComment")
    case True
    then have "skip_comments cs = skip_comments (tok_end (readToken cs))"
      by (subst skip_comments.simps) simp
    with 1 True readToken_progress [of cs] show ?thesis by simp
  next
    case False
    then have "skip_comments cs = readToken cs" by (subst skip_comments.simps) simp
    with 1 readToken_progress [of cs] show ?thesis by simp
  qed
qed

lemma skipCommentTokens_length: "length (tok_end (skipCommentTokens F cs)) \<le> length cs"
  by (simp add: skipCommentTokens_def skip_comments_length readToken_length)

lemma skipCommentTokens_progress:
  "tok_type (skipCommentTokens F cs) \<noteq> tokenEndOfStream \<Longrightarrow>
    length (tok_end (skipCommentTokens F cs)) < length cs"
  by (auto simp: skipCommentTokens_def dest: skip_comments_progress readToken_progress split: if_splits)

lemma skip_until_length: "length (skip_until ty cs) \<le> length cs"
proof (induction ty cs rule: skip_until.induct)
  case (1 ty cs)
  show ?case
  proof (cases "tok_type (readToken cs) = ty \<or> tok_type (readToken cs) = tokenEndOfStream")
    case True
    with readToken_length [of cs] show ?thesis by (subst skip_until.simps) simp
  next
    case False
    with 1 have "length (skip_until ty (tok_end (readToken cs))) \<le> length (tok_end (readToken cs))"
      by simp
    also have "\<dots> \<le> length cs" by (rule readToken_length)
    finally show ?thesis using False by (subst skip_until.simps) simp
  qed
qed

lemma recover_length [simp]: "length (rd_current (recoverFromError ty R)) \<le> length (rd_current R)"
  by (simp add: recoverFromError_def Let_def skip_until_length)

lemma addError_current [simp]: "rd_current (addError m t e R) = rd_current R"
  by (simp add: addError_def)

lemma addErrorAndRecover_length [simp]:
  "length (rd_current (addErrorAndRecover m t ty R)) \<le> length (rd_current R)"
  using recover_length [of ty "addError m t None R"] by (simp add: addErrorAndRecover_def)

text \<open>\<open>returns k r\<close>: the call returns, at a position with at most \<open>k\<close> characters behind it.\<close>

definition returns :: "nat \<Rightarrow> parse_result \<Rightarrow> bool" where
  "returns k r \<longleftrightarrow> (\<exists>ok v R. r = Some (ok, v, R) \<and> length (rd_current R) \<le> k)"

lemma returns_Some [simp]: "returns k (Some (ok, v, R)) \<longleftrightarrow> length (rd_current R) \<le> k"
  by (auto simp: returns_def)

lemma returns_mono: "returns k r \<Longrightarrow> k \<le> k' \<Longrightarrow> returns k' r"
  by (auto simp: returns_def)

lemma decoded_value_returns [simp]: "returns k (decoded_value R t cur r) \<longleftrightarrow> length (rd_current R) \<le> k"
  by (simp add: decoded_value_def split: sum.split prod.split)

lemma recover_le: "length (rd_current R) \<le> k \<Longrightarrow> length (rd_current (recoverFromError ty R)) \<le> k"
  by (rule le_trans [OF recover_length])

lemma addErrorAndRecover_le:
  "length (rd_current R) \<le> k \<Longrightarrow> length (rd_current (addErrorAndRecover m t ty R)) \<le> k"
  by (rule le_trans [OF addErrorAndRecover_length])

lemma skip_comments_le: "length cs \<le> k \<Longrightarrow> length (tok_end (skip_comments cs)) \<le> k"
  by (rule le_trans [OF skip_comments_length])

lemma readToken_le: "length cs \<le> k \<Longrightarrow> length (tok_end (readToken cs)) \<le> k"
  by (rule le_trans [OF readToken_length])

lemmas reader_le = recover_le addErrorAndRecover_le skip_comments_le readToken_le

lemma readValue_body_returns:
  assumes len: "length (rd_current R) = k"
    and ro: "\<And>R'. length (rd_current R') < k \<Longrightarrow> returns (length (rd_current R')) (ro R')"
    and ra: "\<And>R'. length (rd_current R') < k \<Longrightarrow> returns (length (rd_current R')) (ra R')"
  shows "returns k (readValue_body ro ra L F R cur)"
proof -
  let ?t = "skipCommentTokens F (rd_current R)"
  let ?R = "R\<lparr>rd_current := tok_end ?t\<rparr>"
  have le: "length (tok_end ?t) \<le> k" using skipCommentTokens_length len by blast
  show ?thesis
  proof (cases "tok_type ?t = tokenEndOfStream")
    case True
    then show ?thesis using le by (simp add: readValue_body_def Let_def)
  next
    case False
    then have lt: "length (tok_end ?t) < k" using skipCommentTokens_progress len by blast
    then have "returns k (ro ?R)" "returns k (ra ?R)"
      using ro [of ?R] ra [of ?R] by (auto intro: returns_mono)
    then show ?thesis using le lt
      by (cases "tok_type ?t") (simp_all add: readValue_body_def Let_def)
  qed
qed

lemma readArray_begin_returns:
  assumes "\<And>R'. length (rd_current R') \<le> length (rd_current R) \<Longrightarrow> returns (length (rd_current R')) (ra R')"
  shows "returns (length (rd_current R)) (readArray_begin ra R)"
proof -
  have s: "length (skipSpaces (rd_current R)) \<le> length (rd_current R)" by (rule length_skipSpaces)
  have "returns (length (rd_current R)) (ra (R\<lparr>rd_current := skipSpaces (rd_current R)\<rparr>))"
    using assms [of "R\<lparr>rd_current := skipSpaces (rd_current R)\<rparr>"] s by (auto intro: returns_mono)
  with s show ?thesis by (simp add: readArray_begin_def Let_def readToken_le)
qed

lemma readObject_comma_returns:
  assumes len: "length (rd_current R) \<le> k" and "0 < k"
    and more: "\<And>R'. length (rd_current R') < k \<Longrightarrow> returns k (ro R')"
  shows "returns k (readObject_comma ro obj R)"
proof -
  let ?c = "readToken (rd_current R)"
  have le: "length (tok_end ?c) \<le> k" using len by (rule readToken_le)
  show ?thesis
  proof (cases "tok_type ?c = tokenObjectEnd \<or> tok_type ?c = tokenArraySeparator \<or> tok_type ?c = tokenComment")
    case True
    then have lt: "length (tok_end ?c) < length (rd_current R)" by (intro readToken_progress) auto
    let ?d = "if tok_type ?c = tokenComment then skip_comments (tok_end ?c) else ?c"
    have "length (tok_end ?d) \<le> length (tok_end ?c)" by (simp add: skip_comments_length)
    with lt len have d: "length (tok_end ?d) < k" by linarith
    then have "returns k (ro (R\<lparr>rd_current := tok_end ?d\<rparr>))" by (intro more) simp
    with d True show ?thesis
      by (cases "tok_type ?c = tokenComment") (auto simp: readObject_comma_def Let_def)
  next
    case False
    then show ?thesis using le by (simp add: readObject_comma_def Let_def addErrorAndRecover_le)
  qed
qed

lemma readObject_body_returns:
  assumes len: "length (rd_current R) = k"
    and rv: "\<And>R' cur. length (rd_current R') < k \<Longrightarrow> returns (length (rd_current R')) (rv R' cur)"
    and ro: "\<And>name' R' m. length (rd_current R') < k \<Longrightarrow> returns k (ro name' R' m)"
  shows "returns k (readObject_body rv ro L F name R members)"
proof -
  let ?t = "skip_comments (rd_current R)"
  let ?R1 = "R\<lparr>rd_current := tok_end ?t\<rparr>"
  let ?c = "readToken (tok_end ?t)"
  let ?R2 = "R\<lparr>rd_current := tok_end ?c\<rparr>"
  have le: "length (tok_end ?t) \<le> k" using len by (simp add: skip_comments_le)
  have le2: "length (tok_end ?c) \<le> k" using le by (rule readToken_le)
  show ?thesis
  proof (cases "member_name L F ?t")
    case None
    then show ?thesis using le by (simp add: readObject_body_def Let_def addErrorAndRecover_le)
  next
    case (Some r)
    then have "tok_type ?t \<noteq> tokenEndOfStream" by (auto simp: member_name_def split: if_splits)
    then have lt: "length (tok_end ?t) < k" using skip_comments_progress len by blast
    then have lt2: "length (tok_end ?c) < k" using readToken_length [of "tok_end ?t"] by linarith
    show ?thesis
    proof (cases r)
      case (Inl e)
      then show ?thesis using Some le
        by (simp add: readObject_body_def Let_def reader_le)
    next
      case (Inr n)
      show ?thesis
      proof (cases "tok_type ?c = tokenMemberSeparator")
        case False
        then show ?thesis using Some Inr le le2
          by (simp add: readObject_body_def Let_def reader_le)
      next
        case True
        let ?old = "case omap_find members (c_str n) of None \<Rightarrow> nullValue | Some v \<Rightarrow> v"
        obtain ok v R3 where v: "rv ?R2 ?old = Some (ok, v, R3)" "length (rd_current R3) \<le> k"
          using rv [of ?R2 ?old] lt2 by (auto simp: returns_def)
        have "returns k (readObject_comma (\<lambda>R5. ro n R5 (omap_put (c_str n) v members))
            (objectValue (omap_put (c_str n) v members)) R3)"
          using v(2) lt ro by (intro readObject_comma_returns) auto
        then show ?thesis using Some Inr True v le
          by (simp add: readObject_body_def Let_def reader_le)
      qed
    qed
  qed
qed

lemma readArray_body_returns:
  assumes len: "length (rd_current R) = k"
    and rv: "\<And>R' cur. length (rd_current R') \<le> k \<Longrightarrow> returns (length (rd_current R')) (rv R' cur)"
    and ra: "\<And>i R' m. length (rd_current R') < k \<Longrightarrow> returns k (ra i R' m)"
  shows "returns k (readArray_body rv ra index R items)"
proof -
  let ?old = "case omap_find items index of None \<Rightarrow> nullValue | Some v \<Rightarrow> v"
  obtain ok v R1 where v: "rv R ?old = Some (ok, v, R1)" "length (rd_current R1) \<le> k"
    using rv [of R ?old] len by (auto simp: returns_def)
  let ?t = "skip_comments (rd_current R1)"
  have le: "length (tok_end ?t) \<le> k" using v(2) by (rule skip_comments_le)
  show ?thesis
  proof (cases "ok \<and> tok_type ?t = tokenArraySeparator")
    case True
    then have "length (tok_end ?t) < length (rd_current R1)" by (intro skip_comments_progress) simp
    with v(2) have "length (tok_end ?t) < k" by linarith
    then have "returns k (ra (Suc index) (R1\<lparr>rd_current := tok_end ?t\<rparr>) (omap_put index v items))"
      by (intro ra) simp
    with True v(1) show ?thesis by (simp add: readArray_body_def Let_def)
  next
    case False
    then show ?thesis using v le by (auto simp: readArray_body_def Let_def reader_le)
  qed
qed

lemma reader_returns:
  "2 * length (rd_current R) + 1 \<le> n \<longrightarrow> returns (length (rd_current R)) (readValue n L F R cur)"
  "2 * length (rd_current R) + 2 \<le> n \<longrightarrow> returns (length (rd_current R)) (readObject n L F name R members)"
  "2 * length (rd_current R) + 2 \<le> n \<longrightarrow> returns (length (rd_current R)) (readArray n L F index R items)"
proof (induction n arbitrary: R cur name members index items)
  case (Suc n)
  {
    case 1
    show ?case
    proof
      assume n: "2 * length (rd_current R) + 1 \<le> Suc n"
      show "returns (length (rd_current R)) (readValue (Suc n) L F R cur)"
        unfolding readValue.simps
      proof (rule readValue_body_returns [OF refl])
        fix R' :: Reader assume "length (rd_current R') < length (rd_current R)"
        with n have "2 * length (rd_current R') + 2 \<le> n" by simp
        with Suc.IH(2) show "returns (length (rd_current R')) (readObject n L F [] R' [])" by blast
      next
        fix R' :: Reader assume *: "length (rd_current R') < length (rd_current R)"
        show "returns (length (rd_current R')) (readArray_begin (\<lambda>R. readArray n L F 0 R []) R')"
        proof (rule readArray_begin_returns)
          fix R2 :: Reader assume "length (rd_current R2) \<le> length (rd_current R')"
          with * n have "2 * length (rd_current R2) + 2 \<le> n" by simp
          with Suc.IH(3) show "returns (length (rd_current R2)) (readArray n L F 0 R2 [])" by blast
        qed
      qed
    qed
  next
    case 2
    show ?case
    proof
      assume n: "2 * length (rd_current R) + 2 \<le> Suc n"
      show "returns (length (rd_current R)) (readObject (Suc n) L F name R members)"
        unfolding readObject.simps
      proof (rule readObject_body_returns [OF refl])
        fix R' :: Reader and cur assume "length (rd_current R') < length (rd_current R)"
        with n have "2 * length (rd_current R') + 1 \<le> n" by simp
        with Suc.IH(1) show "returns (length (rd_current R')) (readValue n L F R' cur)" by blast
      next
        fix R' :: Reader and name' m assume *: "length (rd_current R') < length (rd_current R)"
        with n have "2 * length (rd_current R') + 2 \<le> n" by simp
        with Suc.IH(2) have "returns (length (rd_current R')) (readObject n L F name' R' m)" by blast
        with * show "returns (length (rd_current R)) (readObject n L F name' R' m)"
          by (auto intro: returns_mono)
      qed
    qed
  next
    case 3
    show ?case
    proof
      assume n: "2 * length (rd_current R) + 2 \<le> Suc n"
      show "returns (length (rd_current R)) (readArray (Suc n) L F index R items)"
        unfolding readArray.simps
      proof (rule readArray_body_returns [OF refl])
        fix R' :: Reader and cur assume "length (rd_current R') \<le> length (rd_current R)"
        with n have "2 * length (rd_current R') + 1 \<le> n" by simp
        with Suc.IH(1) show "returns (length (rd_current R')) (readValue n L F R' cur)" by blast
      next
        fix R' :: Reader and i m assume *: "length (rd_current R') < length (rd_current R)"
        with n have "2 * length (rd_current R') + 2 \<le> n" by simp
        with Suc.IH(3) have "returns (length (rd_current R')) (readArray n L F i R' m)" by blast
        with * show "returns (length (rd_current R)) (readArray n L F i R' m)"
          by (auto intro: returns_mono)
      qed
    qed
  }
qed simp_all

text \<open>A larger bound changes no result.\<close>

lemma readValue_body_mono:
  assumes "\<And>R r. ro R = Some r \<Longrightarrow> ro' R = Some r" "\<And>R r. ra R = Some r \<Longrightarrow> ra' R = Some r"
    and "readValue_body ro ra L F R cur = Some r"
  shows "readValue_body ro' ra' L F R cur = Some r"
  using assms(3) by (cases "tok_type (skipCommentTokens F (rd_current R))")
    (simp_all add: readValue_body_def Let_def assms(1,2))

lemma readArray_begin_mono:
  assumes "\<And>R r. ra R = Some r \<Longrightarrow> ra' R = Some r" "readArray_begin ra R = Some r"
  shows "readArray_begin ra' R = Some r"
  using assms(2) by (simp add: readArray_begin_def Let_def assms(1) split: if_splits)

lemma readObject_comma_mono:
  assumes "\<And>R r. ro R = Some r \<Longrightarrow> ro' R = Some r" "readObject_comma ro obj R = Some r"
  shows "readObject_comma ro' obj R = Some r"
  using assms(2) by (simp add: readObject_comma_def Let_def assms(1) split: if_splits)

lemma readObject_body_mono:
  assumes rv: "\<And>R c r. rv R c = Some r \<Longrightarrow> rv' R c = Some r"
    and ro: "\<And>n R m r. ro n R m = Some r \<Longrightarrow> ro' n R m = Some r"
    and "readObject_body rv ro L F name R members = Some r"
  shows "readObject_body rv' ro' L F name R members = Some r"
proof -
  have c: "readObject_comma (\<lambda>R5. ro n R5 m) obj R3 = Some x \<Longrightarrow>
      readObject_comma (\<lambda>R5. ro' n R5 m) obj R3 = Some x" for n m obj R3 x
    by (rule readObject_comma_mono) (rule ro)
  show ?thesis using assms(3)
    by (auto simp: readObject_body_def Let_def rv c split: if_splits option.splits sum.splits)
qed

lemma readArray_body_mono:
  assumes rv: "\<And>R c r. rv R c = Some r \<Longrightarrow> rv' R c = Some r"
    and ra: "\<And>n R m r. ra n R m = Some r \<Longrightarrow> ra' n R m = Some r"
    and "readArray_body rv ra index R items = Some r"
  shows "readArray_body rv' ra' index R items = Some r"
  using assms(3)
  by (auto simp: readArray_body_def Let_def rv ra split: if_splits option.splits)

lemma reader_mono_Suc:
  "readValue n L F R cur = Some r \<Longrightarrow> readValue (Suc n) L F R cur = Some r"
  "readObject n L F name R members = Some r \<Longrightarrow> readObject (Suc n) L F name R members = Some r"
  "readArray n L F index R items = Some r \<Longrightarrow> readArray (Suc n) L F index R items = Some r"
proof (induction n arbitrary: R cur name members index items r)
  case (Suc n)
  {
    case 1
    show ?case
    proof (subst readValue.simps, rule readValue_body_mono [OF _ _ 1 [unfolded readValue.simps]])
      fix R r assume "readArray_begin (\<lambda>R. readArray n L F 0 R []) R = Some r"
      then show "readArray_begin (\<lambda>R. readArray (Suc n) L F 0 R []) R = Some r"
        by (rule readArray_begin_mono [rotated]) (rule Suc.IH)
    qed (rule Suc.IH)
  next
    case 2
    show ?case
      by (subst readObject.simps, rule readObject_body_mono [OF _ _ 2 [unfolded readObject.simps]])
         (rule Suc.IH; assumption)+
  next
    case 3
    show ?case
      by (subst readArray.simps, rule readArray_body_mono [OF _ _ 3 [unfolded readArray.simps]])
         (rule Suc.IH; assumption)+
  }
qed (simp_all add: readValue.simps(1) readObject.simps(1) readArray.simps(1))

lemma readObject_mono:
  "readObject n L F name R members = Some r \<Longrightarrow> n \<le> m \<Longrightarrow> readObject m L F name R members = Some r"
proof (induction m)
  case (Suc m)
  then show ?case by (cases "n = Suc m") (auto intro: reader_mono_Suc)
qed simp

lemma readArray_mono:
  "readArray n L F index R items = Some r \<Longrightarrow> n \<le> m \<Longrightarrow> readArray m L F index R items = Some r"
proof (induction m)
  case (Suc m)
  then show ?case by (cases "n = Suc m") (auto intro: reader_mono_Suc)
qed simp

lemma reader_mono: "readValue n L F R cur = Some r \<Longrightarrow> n \<le> m \<Longrightarrow> readValue m L F R cur = Some r"
proof (induction m)
  case (Suc m)
  then show ?case by (cases "n = Suc m") (auto intro: reader_mono_Suc)
qed simp

text \<open>So a result for any bound is the result of \<open>parse\<close>.\<close>

lemma readValue_any_bound:
  assumes "readValue n L F R cur = Some r"
  shows "readValue (2 * length (rd_current R) + 3) L F R cur = Some r"
proof -
  from reader_returns(1) [of R "2 * length (rd_current R) + 3" L F cur] obtain r' where
    r': "readValue (2 * length (rd_current R) + 3) L F R cur = Some r'" by (auto simp: returns_def)
  let ?k = "max n (2 * length (rd_current R) + 3)"
  have "readValue ?k L F R cur = Some r" "readValue ?k L F R cur = Some r'"
    using assms r' by (auto intro: reader_mono)
  with r' show ?thesis by simp
qed

section \<open>Errors\<close>

text \<open>A call that fails reports exactly one error, one that succeeds none.\<close>

definition reports :: "ErrorInfo list \<Rightarrow> parse_result \<Rightarrow> bool" where
  "reports es r \<longleftrightarrow> (\<forall>ok v R. r = Some (ok, v, R) \<longrightarrow>
     (if ok then rd_errors R = es else \<exists>e. rd_errors R = es @ [e]))"

lemma reports_Some [simp]:
  "reports es (Some (ok, v, R)) \<longleftrightarrow> (if ok then rd_errors R = es else (\<exists>e. rd_errors R = es @ [e]))"
  by (auto simp: reports_def)

lemma reports_None [simp]: "reports es None"
  by (simp add: reports_def)

lemma recover_errors [simp]: "rd_errors (recoverFromError ty R) = rd_errors R"
  by (simp add: recoverFromError_def)

lemma addError_errors [simp]:
  "rd_errors (addError m t e R) = rd_errors R @ [\<lparr>err_token = t, err_message = m, err_extra = e\<rparr>]"
  by (simp add: addError_def)

lemma addErrorAndRecover_errors [simp]:
  "rd_errors (addErrorAndRecover m t ty R)
    = rd_errors R @ [\<lparr>err_token = t, err_message = m, err_extra = None\<rparr>]"
  by (simp add: addErrorAndRecover_def)

lemma decoded_value_reports [simp]: "rd_errors R = es \<Longrightarrow> reports es (decoded_value R t cur r)"
  by (simp add: decoded_value_def split: sum.split prod.split)

lemma readValue_body_reports:
  assumes "\<And>R'. rd_errors R' = rd_errors R \<Longrightarrow> reports (rd_errors R) (ro R')"
    and "\<And>R'. rd_errors R' = rd_errors R \<Longrightarrow> reports (rd_errors R) (ra R')"
  shows "reports (rd_errors R) (readValue_body ro ra L F R cur)"
  by (cases "tok_type (skipCommentTokens F (rd_current R))")
     (simp_all add: readValue_body_def Let_def assms)

lemma readObject_comma_reports:
  assumes "\<And>R'. rd_errors R' = es \<Longrightarrow> reports es (ro R')" "rd_errors R = es"
  shows "reports es (readObject_comma ro obj R)"
  using assms by (simp add: readObject_comma_def Let_def)

lemma readObject_body_reports:
  assumes rv: "\<And>R' c. rd_errors R' = rd_errors R \<Longrightarrow> reports (rd_errors R) (rv R' c)"
    and ro: "\<And>n R' m. rd_errors R' = rd_errors R \<Longrightarrow> reports (rd_errors R) (ro n R' m)"
  shows "reports (rd_errors R) (readObject_body rv ro L F name R members)"
proof -
  let ?t = "skip_comments (rd_current R)"
  let ?R2 = "R\<lparr>rd_current := tok_end (readToken (tok_end ?t))\<rparr>"
  have "reports (rd_errors R) (case rv ?R2 old of
        None \<Rightarrow> None
      | Some (ok, v, R3) \<Rightarrow>
          if \<not> ok then Some (False, objectValue (omap_put key v members), recoverFromError tokenObjectEnd R3)
          else readObject_comma (\<lambda>R5. ro n R5 (omap_put key v members))
            (objectValue (omap_put key v members)) R3)" for n old key
    using rv [of ?R2 old] ro
    by (auto split: option.split prod.split intro!: readObject_comma_reports)
  then show ?thesis
    by (simp add: readObject_body_def Let_def split: option.split sum.split)
qed

lemma readArray_body_reports:
  assumes rv: "\<And>R' c. rd_errors R' = rd_errors R \<Longrightarrow> reports (rd_errors R) (rv R' c)"
    and ra: "\<And>n R' m. rd_errors R' = rd_errors R \<Longrightarrow> reports (rd_errors R) (ra n R' m)"
  shows "reports (rd_errors R) (readArray_body rv ra index R items)"
proof (cases "rv R (case omap_find items index of None \<Rightarrow> nullValue | Some v \<Rightarrow> v)")
  case None
  then show ?thesis by (simp add: readArray_body_def)
next
  case (Some r)
  obtain ok v R1 where r: "r = (ok, v, R1)" by (cases r) auto
  have "reports (rd_errors R) (Some (ok, v, R1))" using rv [OF refl] Some r by metis
  then show ?thesis
    by (cases ok) (auto simp: readArray_body_def Let_def Some r ra)
qed

lemma reader_reports:
  "reports (rd_errors R) (readValue n L F R cur)"
  "reports (rd_errors R) (readObject n L F name R members)"
  "reports (rd_errors R) (readArray n L F index R items)"
proof (induction n arbitrary: R cur name members index items)
  case (Suc n)
  have v: "reports (rd_errors R) (readValue n L F R' c)" if "rd_errors R' = rd_errors R" for R R' c
    using Suc.IH(1) [of R' c] that by simp
  have o: "reports (rd_errors R) (readObject n L F k R' m)" if "rd_errors R' = rd_errors R" for R R' k m
    using Suc.IH(2) [of R' k m] that by simp
  have a: "reports (rd_errors R) (readArray n L F k R' m)" if "rd_errors R' = rd_errors R" for R R' k m
    using Suc.IH(3) [of R' k m] that by simp
  {
    case 1
    show ?case unfolding readValue.simps
      by (rule readValue_body_reports) (simp_all add: o a readArray_begin_def Let_def)
  next
    case 2
    show ?case unfolding readObject.simps by (rule readObject_body_reports) (simp_all add: v o)
  next
    case 3
    show ?case unfolding readArray.simps by (rule readArray_body_reports) (simp_all add: v a)
  }
qed (simp_all add: readValue.simps(1) readObject.simps(1) readArray.simps(1))

section \<open>Properties\<close>

text \<open>
  C33: The reader returns on every document: whatever bytes it is given, with whatever options and
  number conversions, parsing ends with a verdict, a value and the list of errors.
\<close>
theorem parse_returns:
  "\<exists>ok v errors. Reader_parse L F document root = Some (ok, v, errors)"
proof -
  from reader_returns(1) [of "\<lparr>rd_current = document, rd_errors = []\<rparr>" "parse_fuel document" L F root]
  obtain ok v R where "readValue (parse_fuel document) L F \<lparr>rd_current = document, rd_errors = []\<rparr> root
      = Some (ok, v, R)"
    by (auto simp: returns_def parse_fuel_def)
  then show ?thesis by (simp add: Reader_parse_def Let_def ex_bool_eq)
qed

text \<open>
  The verdict and the error list agree: a document is accepted with no errors or rejected with
  exactly one, the first that was met; skipping to the end of the damaged object or array reports
  nothing more.
\<close>
theorem parse_reports_one_error:
  assumes "Reader_parse L F document root = Some (ok, v, errors)" "\<not> strictRoot F"
  shows "length errors = (if ok then 0 else 1)"
proof -
  let ?R = "\<lparr>rd_current = document, rd_errors = []\<rparr>"
  from assms obtain R where "readValue (parse_fuel document) L F ?R root = Some (ok, v, R)" "rd_errors R = errors"
    by (auto simp: Reader_parse_def Let_def split: option.splits)
  with reader_reports(1) [of ?R "parse_fuel document" L F root] show ?thesis
    by (auto split: if_splits)
qed

definition no_doubles :: clib where
  "no_doubles = \<lparr>scan_double = \<lambda>_. None, print_double = \<lambda>_. []\<rparr>"

theorem parse_reports_one_error_witness:
  "\<exists>v errors. Reader_parse no_doubles Features_all ''[x]'' nullValue = Some (False, v, errors)
     \<and> length errors = 1"
proof -
  have "map_option fst (Reader_parse no_doubles Features_all ''[x]'' nullValue) = Some False"
    by code_simp
  then have "\<exists>v errors. Reader_parse no_doubles Features_all ''[x]'' nullValue = Some (False, v, errors)"
    by auto
  then show ?thesis
    using parse_reports_one_error [of no_doubles Features_all "''[x]''" nullValue False]
    by (auto simp: Features_all_def)
qed

end
