(* ===== verification/JsonWriter.thy ===== *)
theory JsonWriter
  imports JsonReader
begin

text \<open>
  The writers of the embedded jsoncpp (\<open>json_writer.cpp\<close> in \<open>third/eice/src/jsoncpp.cpp\<close>): quoting of
  strings, \<open>FastWriter\<close>, and the theorem that the reader takes back what \<open>FastWriter\<close> writes.
\<close>

section \<open>Strings\<close>

definition containsControlCharacter :: "string \<Rightarrow> bool" where
  "containsControlCharacter str = (\<exists>c \<in> set str. isControlCharacter c)"

definition hex_char :: "nat \<Rightarrow> char" where
  "hex_char d = (if d < 10 then char_of (48 + d) else char_of (55 + d))"

text \<open>\<open>hex\<close>, \<open>uppercase\<close>, \<open>setfill('0')\<close>, \<open>setw(4)\<close> on a character's code.\<close>

definition hex4 :: "nat \<Rightarrow> string" where
  "hex4 n = [hex_char (n div 4096 mod 16), hex_char (n div 256 mod 16), hex_char (n div 16 mod 16),
             hex_char (n mod 16)]"

definition quote_char :: "char \<Rightarrow> string" where
  "quote_char c =
     (if c = QUOTE then [BACKSLASH, QUOTE]
      else if c = BACKSLASH then [BACKSLASH, BACKSLASH]
      else if c = CHR 0x08 then [BACKSLASH, CHR ''b'']
      else if c = CHR 0x0C then [BACKSLASH, CHR ''f'']
      else if c = LF then [BACKSLASH, CHR ''n'']
      else if c = CR then [BACKSLASH, CHR ''r'']
      else if c = TAB then [BACKSLASH, CHR ''t'']
      else if isControlCharacter c then BACKSLASH # CHR ''u'' # hex4 (of_char c)
      else [c])"

text \<open>The argument is a C string; a null pointer, which the writers never pass, gives the empty text.\<close>

definition valueToQuotedString :: "string \<Rightarrow> string" where
  "valueToQuotedString value =
     (if set value \<inter> {QUOTE, BACKSLASH, CHR 0x08, CHR 0x0C, LF, CR, TAB} = {}
         \<and> \<not> containsControlCharacter value
      then QUOTE # value @ [QUOTE]
      else QUOTE # concat (map quote_char value) @ [QUOTE])"

section \<open>FastWriter\<close>

record FastWriter =
  yamlCompatiblityEnabled :: bool
  dropNullPlaceholders :: bool
  omitEndingLineFeed :: bool

definition new_FastWriter :: FastWriter where
  "new_FastWriter = \<lparr>yamlCompatiblityEnabled = False, dropNullPlaceholders = False,
     omitEndingLineFeed = False\<rparr>"

text \<open>The elements the writers visit: const \<open>operator[]\<close> on every index and every member name.\<close>

definition item_at :: "(nat, Value) omap \<Rightarrow> nat \<Rightarrow> Value" where
  "item_at m i = (case omap_find m i of None \<Rightarrow> nullValue | Some x \<Rightarrow> x)"

definition named_at :: "(string, Value) omap \<Rightarrow> string \<Rightarrow> Value" where
  "named_at m k = (case omap_find m k of None \<Rightarrow> nullValue | Some x \<Rightarrow> x)"

lemma size_in_map: "(k, v) \<in> set m \<Longrightarrow> size v < Suc (size_list (\<lambda>p. Suc (size (snd p))) m)"
  by (induction m) (auto simp: less_Suc_eq_le)

lemma size_item_at: "size (item_at m i) < size (arrayValue m)"
  using size_in_map [of i "item_at m i" m]
  by (cases "omap_find m i") (auto simp: item_at_def size_prod_simp dest: omap_find_Some_in)

lemma size_named_at: "size (named_at m k) < size (objectValue m)"
  using size_in_map [of k "named_at m k" m]
  by (cases "omap_find m k") (auto simp: named_at_def size_prod_simp dest: omap_find_Some_in)

definition separated :: "string \<Rightarrow> string list \<Rightarrow> string" where
  "separated sep xs = (case xs of [] \<Rightarrow> [] | x # xs' \<Rightarrow> x @ concat (map (\<lambda>y. sep @ y) xs'))"

function writeValue :: "clib \<Rightarrow> FastWriter \<Rightarrow> Value \<Rightarrow> string" where
  "writeValue L W v =
     (case v of
        nullValue \<Rightarrow> if \<not> dropNullPlaceholders W then ''null'' else []
      | intValue i \<Rightarrow> valueToString_Int i
      | uintValue u \<Rightarrow> valueToString_UInt u
      | realValue d \<Rightarrow> valueToString_double (print_double L) d
      | stringValue s \<Rightarrow> valueToQuotedString s
      | booleanValue b \<Rightarrow> valueToString_bool b
      | arrayValue m \<Rightarrow>
          ''['' @ separated '','' (map (\<lambda>i. writeValue L W (item_at m i)) [0 ..< Value_size (arrayValue m)])
          @ '']''
      | objectValue m \<Rightarrow>
          ''{'' @ separated '',''
            (map (\<lambda>name. valueToQuotedString name
                    @ (if yamlCompatiblityEnabled W then '': '' else '':'')
                    @ writeValue L W (named_at m name)) (map fst m))
          @ ''}'')"
  by pat_completeness auto
termination
  by (relation "measure (\<lambda>(L, W, v). size v)") (auto simp: size_item_at size_named_at simp del: Value.size)

declare writeValue.simps [simp del]

definition FastWriter_write :: "clib \<Rightarrow> FastWriter \<Rightarrow> Value \<Rightarrow> string" where
  "FastWriter_write L W root =
     writeValue L W root @ (if \<not> omitEndingLineFeed W then [LF] else [])"

section \<open>Quoting and reading back\<close>

lemma quote_map: "valueToQuotedString s = QUOTE # concat (map quote_char s) @ [QUOTE]"
proof (cases "set s \<inter> {QUOTE, BACKSLASH, CHR 0x08, CHR 0x0C, LF, CR, TAB} = {}
    \<and> \<not> containsControlCharacter s")
  case True
  then have "quote_char c = [c]" if "c \<in> set s" for c
  proof -
    have "c \<notin> {QUOTE, BACKSLASH, CHR 0x08, CHR 0x0C, LF, CR, TAB}" using True that by blast
    moreover have "\<not> isControlCharacter c" using True that by (auto simp: containsControlCharacter_def)
    ultimately show ?thesis by (simp add: quote_char_def)
  qed
  then have "concat (map quote_char s) = s" by (induction s) simp_all
  with True show ?thesis by (simp add: valueToQuotedString_def)
next
  case False
  then show ?thesis unfolding valueToQuotedString_def by (rule if_not_P)
qed

text \<open>What quoting makes of a character: itself, an escape, or a \<open>\u\<close> escape of a control character.\<close>

lemma quote_char_cases:
  obtains
    (plain) "quote_char c = [c]" "c \<noteq> QUOTE" "c \<noteq> BACKSLASH"
  | (escape) e where "quote_char c = [BACKSLASH, e]" "simple_escape e = Some c"
  | (unicode) "quote_char c = BACKSLASH # CHR ''u'' # hex4 (of_char c)" "isControlCharacter c"
proof -
  consider "c = QUOTE" | "c = BACKSLASH" | "c = CHR 0x08" | "c = CHR 0x0C" | "c = LF" | "c = CR"
    | "c = TAB" | "c \<notin> {QUOTE, BACKSLASH, CHR 0x08, CHR 0x0C, LF, CR, TAB}" by blast
  then show thesis
  proof cases
    case 8
    show thesis
    proof (cases "isControlCharacter c")
      case True
      with 8 show thesis by (intro unicode) (simp_all add: quote_char_def)
    next
      case False
      with 8 show thesis by (intro plain) (simp_all add: quote_char_def)
    qed
  next
    case 1 then show thesis by (intro escape [of QUOTE]) (simp_all add: quote_char_def simple_escape_def)
  next
    case 2 then show thesis by (intro escape [of BACKSLASH]) (simp_all add: quote_char_def simple_escape_def)
  next
    case 3 then show thesis by (intro escape [of "CHR ''b''"]) (simp_all add: quote_char_def simple_escape_def)
  next
    case 4 then show thesis by (intro escape [of "CHR ''f''"]) (simp_all add: quote_char_def simple_escape_def)
  next
    case 5 then show thesis by (intro escape [of "CHR ''n''"]) (simp_all add: quote_char_def simple_escape_def)
  next
    case 6 then show thesis by (intro escape [of "CHR ''r''"]) (simp_all add: quote_char_def simple_escape_def)
  next
    case 7 then show thesis by (intro escape [of "CHR ''t''"]) (simp_all add: quote_char_def simple_escape_def)
  qed
qed

lemma hex_value_char: "d < 16 \<Longrightarrow> hex_value (hex_char d) = Some d"
  by (simp add: hex_value_def hex_char_def Let_def)

lemma hex_digits_hex4:
  assumes "n < 256"
  shows "hex_digits 4 (hex4 n @ rest) 0 = (rest, Some (of_nat n))"
proof -
  have four: "4 = Suc (Suc (Suc (Suc 0)))" by simp
  have zero: "n div 4096 mod 16 = 0" "n div 256 mod 16 = 0" "n div 16 mod 16 = n div 16"
    using assms by simp_all
  have "(of_nat n :: u32) = of_nat (n div 16 * 16 + n mod 16)" by simp
  also have "\<dots> = of_nat (n div 16) * 16 + of_nat (n mod 16)" by (simp only: of_nat_add of_nat_mult of_nat_numeral)
  finally have "(of_nat n :: u32) = of_nat (n div 16) * 16 + of_nat (n mod 16)" .
  moreover have "hex_value (hex_char 0) = Some 0" "hex_value (hex_char (n div 16)) = Some (n div 16)"
    "hex_value (hex_char (n mod 16)) = Some (n mod 16)"
    using assms by (simp_all add: hex_value_char less_mult_imp_div_less)
  ultimately show ?thesis by (simp only: four hex4_def zero hex_digits.simps append_Cons append_Nil
      list.case option.case) simp
qed

lemma control_range: "isControlCharacter c \<Longrightarrow> (of_char c :: nat) < 32"
  by (simp add: isControlCharacter_def)

lemma decode_control:
  assumes "isControlCharacter c"
  shows "decodeUnicodeCodePoint behind (hex4 (of_char c) @ rest) = Inr (of_nat (of_char c), rest)"
    and "codePointToUTF8 (of_nat (of_char c)) = [c]"
proof -
  let ?n = "of_char c :: nat"
  have n: "?n < 32" using assms by (rule control_range)
  have u: "unat (of_nat ?n :: u32) = ?n" using n by (intro unat_of_nat_u32) simp
  have "\<not> (0xD800 \<le> (of_nat ?n :: u32))" using n u by (simp add: word_le_nat_alt)
  moreover have "decodeUnicodeEscapeSequence behind (hex4 ?n @ rest) = Inr (of_nat ?n, rest)"
    using hex_digits_hex4 [of ?n rest] n by (simp add: decodeUnicodeEscapeSequence_def hex4_def)
  ultimately show "decodeUnicodeCodePoint behind (hex4 ?n @ rest) = Inr (of_nat ?n, rest)"
    by (simp add: decodeUnicodeCodePoint_def)
  have "(of_nat ?n :: u32) \<le> 0x7f" using n u by (simp add: word_le_nat_alt)
  then show "codePointToUTF8 (of_nat ?n) = [c]"
    using n u by (simp add: codePointToUTF8_def char_of_word_def)
qed

lemma decode_chars_quoted:
  "decode_chars behind (concat (map quote_char s)) acc = Inr (acc @ s)"
proof (induction s arbitrary: acc)
  case Nil
  show ?case by (simp add: decode_chars.simps)
next
  case (Cons c s)
  let ?rest = "concat (map quote_char s)"
  show ?case
  proof (cases c rule: quote_char_cases)
    case plain
    then show ?thesis using Cons by (simp add: decode_chars.simps)
  next
    case (escape e)
    then show ?thesis using Cons by (simp add: decode_chars.simps)
  next
    case unicode
    have "decode_chars behind (BACKSLASH # CHR ''u'' # hex4 (of_char c) @ ?rest) acc
        = decode_chars behind ?rest (acc @ [c])"
      using decode_control [OF unicode(2)] by (simp add: decode_chars.simps simple_escape_def)
    with Cons unicode show ?thesis by simp
  qed
qed

lemma readString_quoted: "readString d (concat (map quote_char s) @ QUOTE # rest) = (True, rest)"
proof (induction s arbitrary: d)
  case (Cons c s)
  show ?case
  proof (cases c rule: quote_char_cases)
    case plain
    then show ?thesis using Cons by simp
  next
    case (escape e)
    then show ?thesis using Cons by simp
  next
    case unicode
    have h: "hex_char k \<noteq> QUOTE \<and> hex_char k \<noteq> BACKSLASH" if "k < 16" for k
    proof -
      have "(of_char (hex_char k) :: nat) = (if k < 10 then 48 + k else 55 + k)"
        using that by (simp add: hex_char_def)
      then show ?thesis using that by (auto split: if_splits)
    qed
    have "readString BACKSLASH (hex4 (of_char c) @ cs) = readString (hex_char (of_char c mod 16)) cs" for cs
      using h by (simp add: hex4_def)
    with Cons unicode show ?thesis by simp
  qed
qed simp

section \<open>Numbers\<close>

text \<open>The number a digit string denotes, after the digits of \<open>v\<close>.\<close>

definition digits_value :: "nat \<Rightarrow> string \<Rightarrow> nat" where
  "digits_value v cs = foldl (\<lambda>v c. v * 10 + (of_char c - 48)) v cs"

lemma digits_value_simps [simp]:
  "digits_value v [] = v"
  "digits_value v (c # cs) = digits_value (v * 10 + (of_char c - 48)) cs"
  by (simp_all add: digits_value_def)

lemma digits_value_append: "digits_value v (a @ b) = digits_value (digits_value v a) b"
  by (simp add: digits_value_def)

lemma digits_value_le: "v \<le> digits_value v cs"
proof (induction cs arbitrary: v)
  case (Cons c cs)
  have "v \<le> v * 10 + (of_char c - 48)" by simp
  also have "\<dots> \<le> digits_value (v * 10 + (of_char c - 48)) cs" by (rule Cons.IH)
  finally show ?case by simp
qed simp

lemma digits_value_more: "cs \<noteq> [] \<Longrightarrow> 10 * v \<le> digits_value v cs"
proof (cases cs)
  case (Cons c cs')
  have "10 * v \<le> v * 10 + (of_char c - 48)" by simp
  also have "\<dots> \<le> digits_value (v * 10 + (of_char c - 48)) cs'" by (rule digits_value_le)
  finally show ?thesis using Cons by simp
qed simp

lemma digit_overflow:
  fixes v d M :: nat
  defines "q \<equiv> M div 10" and "r \<equiv> M mod 10"
  shows "q \<le> v \<Longrightarrow> q < v \<or> r < d \<Longrightarrow> M < v * 10 + d"
    and "\<not> (q \<le> v \<and> (q < v \<or> r < d)) \<Longrightarrow> d \<le> 9 \<Longrightarrow> v * 10 + d \<le> M"
    and "10 \<le> M \<Longrightarrow> M < 10 * (q * 10 + d)"
proof -
  have M: "M = q * 10 + r" and r: "r \<le> 9" by (simp_all add: q_def r_def)
  show "q \<le> v \<Longrightarrow> q < v \<or> r < d \<Longrightarrow> M < v * 10 + d" using M r by linarith
  show "\<not> (q \<le> v \<and> (q < v \<or> r < d)) \<Longrightarrow> d \<le> 9 \<Longrightarrow> v * 10 + d \<le> M" using M r by linarith
  show "M < 10 * (q * 10 + d)" if "10 \<le> M"
  proof -
    have "q \<noteq> 0" using M r that by auto
    then have "1 \<le> q" by simp
    with M r have "M < 100 * q" by linarith
    also have "\<dots> \<le> 10 * (q * 10 + d)" by simp
    finally show ?thesis .
  qed
qed

text \<open>The overflow test of the digits loop is exact, and the loop never wraps.\<close>

lemma decode_digits_exact:
  assumes "\<forall>c \<in> set cs. is_digit c" "v \<le> M" "10 \<le> M" "M < 2 ^ 64"
  shows "decode_digits M v cs = Inr (if digits_value v cs \<le> M then Some (digits_value v cs) else None)"
  using assms(1,2)
proof (induction cs arbitrary: v)
  case (Cons c cs)
  define d where "d = (of_char c - 48 :: nat)"
  have c: "is_digit c" and d: "d \<le> 9" using Cons.prems(1) by (auto simp: is_digit_def d_def)
  have val: "digits_value v (c # cs) = digits_value (v * 10 + d) cs" by (simp add: d_def)
  have le: "v * 10 + d \<le> digits_value (v * 10 + d) cs" by (rule digits_value_le)
  show ?case
  proof (cases "v \<ge> M div 10 \<and> (v > M div 10 \<or> cs \<noteq> [] \<or> d > M mod 10)")
    case True
    have "M < digits_value (v * 10 + d) cs"
    proof (cases "v > M div 10 \<or> d > M mod 10")
      case over: True
      with True have "M < v * 10 + d" using digit_overflow(1) by blast
      with le show ?thesis by simp
    next
      case False
      with True have cs: "cs \<noteq> []" and "v = M div 10" by auto
      then have "M < 10 * (v * 10 + d)" using digit_overflow(3) [OF assms(3)] by simp
      also have "\<dots> \<le> digits_value (v * 10 + d) cs" using cs by (rule digits_value_more)
      finally show ?thesis .
    qed
    moreover have "decode_digits M v (c # cs) = Inr None"
      using True c by (simp add: Let_def d_def)
    ultimately show ?thesis by (simp only: val) simp
  next
    case False
    then have le': "v * 10 + d \<le> M" using digit_overflow(2) d by blast
    then have "(v * 10 + d) mod 2 ^ 64 = v * 10 + d" using assms(4) by simp
    then have "decode_digits M v (c # cs) = decode_digits M (v * 10 + d) cs"
      using False c by (simp only: decode_digits.simps Let_def d_def [symmetric]) auto
    also have "\<dots> = Inr (if digits_value (v * 10 + d) cs \<le> M
        then Some (digits_value (v * 10 + d) cs) else None)"
      using Cons.prems(1) le' by (intro Cons.IH) simp_all
    finally show ?thesis by (simp only: val)
  qed
qed simp

lemma uintToString_append: "uintToString n acc = uintToString n [] @ acc"
proof (induction n arbitrary: acc rule: less_induct)
  case (less n)
  let ?d = "char_of (n mod 10 + 48) :: char"
  show ?case
  proof (cases "n div 10 = 0")
    case True
    then show ?thesis by (subst (1 2) uintToString.simps) (simp add: Let_def)
  next
    case False
    then have lt: "n div 10 < n" by simp
    have "uintToString n acc' = uintToString (n div 10) (?d # acc')" for acc'
      using False by (subst uintToString.simps) (simp add: Let_def)
    with less [OF lt, of "?d # acc"] less [OF lt, of "[?d]"] show ?thesis by simp
  qed
qed

lemma uintToString_rec:
  "uintToString n [] = (if n div 10 \<noteq> 0 then uintToString (n div 10) [] else []) @ [char_of (n mod 10 + 48)]"
  by (subst uintToString.simps) (simp add: Let_def uintToString_append [of "n div 10" "[_]"])

lemma digit_of_nat: "d < 10 \<Longrightarrow> (of_char (char_of (d + 48)) :: nat) = d + 48"
  by simp

lemma uintToString_digits: "\<forall>c \<in> set (uintToString n []). is_digit c"
proof (induction n rule: less_induct)
  case (less n)
  have "\<forall>c \<in> set (uintToString (n div 10) []). is_digit c" if "n div 10 \<noteq> 0"
    using less [of "n div 10"] that by simp
  moreover have "is_digit (char_of (n mod 10 + 48))" by (simp add: is_digit_def)
  ultimately show ?case by (subst uintToString_rec) auto
qed

lemma uintToString_value: "digits_value 0 (uintToString n []) = n"
proof (induction n rule: less_induct)
  case (less n)
  have "digits_value 0 (uintToString n [])
      = digits_value 0 (if n div 10 \<noteq> 0 then uintToString (n div 10) [] else []) * 10 + n mod 10"
    by (subst uintToString_rec) (simp add: digits_value_append)
  also have "\<dots> = n div 10 * 10 + n mod 10" using less by auto
  finally show ?case by simp
qed

lemma uintToString_nonempty: "uintToString n [] \<noteq> []"
  by (subst uintToString_rec) simp

lemma nat_digit_cases: "48 \<le> m \<Longrightarrow> m \<le> 57 \<Longrightarrow> m \<in> {48, 49, 50, 51, 52, 53, 54, 55, 56, 57 :: nat}"
  by (simp, presburger)

lemma digit_cases: "is_digit c \<Longrightarrow> c \<in> set ''0123456789''"
proof -
  assume "is_digit c"
  then have "of_char c \<in> {48, 49, 50, 51, 52, 53, 54, 55, 56, 57 :: nat}"
    by (intro nat_digit_cases) (simp_all add: is_digit_def)
  then have "(of_char c :: nat) \<in> of_char ` set ''0123456789''" by simp
  then obtain d where "d \<in> set ''0123456789''" "(of_char c :: nat) = of_char d" by (rule imageE)
  then show ?thesis by (simp only: of_char_eq_iff)
qed

section \<open>Tokens of written values\<close>

lemma not_comment:
  "tok_type (readToken cs) \<noteq> tokenComment \<Longrightarrow>
    skip_comments cs = readToken cs \<and> skipCommentTokens F cs = readToken cs"
  by (simp add: skipCommentTokens_def skip_comments.simps)

lemma readToken_char:
  "\<not> is_space c \<Longrightarrow> token_switch c cs = (ty, True, e) \<Longrightarrow>
    readToken (c # cs) = \<lparr>tok_type = ty, tok_start = c # cs, tok_end = e\<rparr>"
  by (simp add: readToken_def skipSpaces_def getNextChar_def)

lemma readToken_space: "is_space c \<Longrightarrow> readToken (c # cs) = readToken cs"
  by (simp add: readToken_def skipSpaces_def)

lemma readToken_punctuation [simp]:
  "readToken (CHR ''{'' # cs) = \<lparr>tok_type = tokenObjectBegin, tok_start = CHR ''{'' # cs, tok_end = cs\<rparr>"
  "readToken (CHR ''}'' # cs) = \<lparr>tok_type = tokenObjectEnd, tok_start = CHR ''}'' # cs, tok_end = cs\<rparr>"
  "readToken (CHR ''['' # cs) = \<lparr>tok_type = tokenArrayBegin, tok_start = CHR ''['' # cs, tok_end = cs\<rparr>"
  "readToken (CHR '']'' # cs) = \<lparr>tok_type = tokenArrayEnd, tok_start = CHR '']'' # cs, tok_end = cs\<rparr>"
  "readToken (CHR '','' # cs) = \<lparr>tok_type = tokenArraySeparator, tok_start = CHR '','' # cs, tok_end = cs\<rparr>"
  "readToken (CHR '':'' # cs) = \<lparr>tok_type = tokenMemberSeparator, tok_start = CHR '':'' # cs, tok_end = cs\<rparr>"
  by (rule readToken_char; simp add: is_space_def token_switch_def is_digit_def)+

lemma readToken_words:
  "readToken (''true'' @ cs) = \<lparr>tok_type = tokenTrue, tok_start = ''true'' @ cs, tok_end = cs\<rparr>"
  "readToken (''false'' @ cs) = \<lparr>tok_type = tokenFalse, tok_start = ''false'' @ cs, tok_end = cs\<rparr>"
  "readToken (''null'' @ cs) = \<lparr>tok_type = tokenNull, tok_start = ''null'' @ cs, tok_end = cs\<rparr>"
  by (simp, rule readToken_char; simp add: is_space_def token_switch_def is_digit_def match_def)+

lemma readToken_quoted:
  "readToken (valueToQuotedString s @ cs)
    = \<lparr>tok_type = tokenString, tok_start = valueToQuotedString s @ cs, tok_end = cs\<rparr>"
proof -
  have "token_switch QUOTE (concat (map quote_char s) @ QUOTE # cs) = (tokenString, True, cs)"
    using readString_quoted [of NUL s cs] by (simp add: token_switch_def)
  moreover have "\<not> is_space QUOTE" by (simp add: is_space_def)
  ultimately show ?thesis using readToken_char by (simp add: quote_map)
qed

lemma tok_text_prefix [simp]:
  "tok_text \<lparr>tok_type = ty, tok_start = a @ b, tok_end = b\<rparr> = a"
  by (simp add: tok_text_def)

lemma decodeString_quoted:
  "decodeString \<lparr>tok_type = ty, tok_start = valueToQuotedString s @ cs, tok_end = cs\<rparr> = Inr s"
proof -
  have "tl (valueToQuotedString s) = concat (map quote_char s) @ [QUOTE]" by (simp add: quote_map)
  then have "butlast (tl (valueToQuotedString s)) = concat (map quote_char s)" by simp
  with decode_chars_quoted show ?thesis by (simp add: decodeString_def Let_def)
qed

text \<open>What may follow a number.\<close>

definition delim :: "string \<Rightarrow> bool" where
  "delim rest \<longleftrightarrow> rest = [] \<or> \<not> is_number_char (hd rest)"

lemma readNumber_digits:
  "\<forall>c \<in> set ds. is_digit c \<Longrightarrow> delim rest \<Longrightarrow> readNumber (ds @ rest) = rest"
proof (induction ds)
  case Nil
  then show ?case by (cases rest) (auto simp: readNumber_def delim_def)
next
  case (Cons c ds)
  then show ?case by (simp add: readNumber_def is_number_char_def)
qed

lemma token_switch_digit: "is_digit c \<Longrightarrow> token_switch c cs = (tokenNumber, True, readNumber cs)"
proof -
  assume c: "is_digit c"
  then have "c \<in> set ''0123456789''" by (rule digit_cases)
  then have "c \<noteq> CHR ''{''" "c \<noteq> CHR ''}''" "c \<noteq> CHR ''[''" "c \<noteq> CHR '']''" "c \<noteq> QUOTE" "c \<noteq> CHR ''/''"
    by auto
  with c show ?thesis by (simp add: token_switch_def)
qed

lemma is_digit_not_space: "is_digit c \<Longrightarrow> \<not> is_space c"
  using digit_cases [of c] by (auto simp: is_space_def)

lemma readToken_digits:
  assumes "\<forall>c \<in> set ds. is_digit c" "ds \<noteq> []" "delim rest"
  shows "readToken (ds @ rest) = \<lparr>tok_type = tokenNumber, tok_start = ds @ rest, tok_end = rest\<rparr>"
proof -
  obtain c ds' where ds: "ds = c # ds'" using assms(2) by (cases ds) auto
  then have "token_switch c (ds' @ rest) = (tokenNumber, True, rest)"
    using assms by (simp add: token_switch_digit readNumber_digits)
  moreover have "\<not> is_space c" using assms(1) ds by (auto simp: is_digit_not_space)
  ultimately show ?thesis using readToken_char ds by simp
qed

lemma readToken_negative:
  assumes "\<forall>c \<in> set ds. is_digit c" "delim rest"
  shows "readToken (CHR ''-'' # ds @ rest)
    = \<lparr>tok_type = tokenNumber, tok_start = CHR ''-'' # ds @ rest, tok_end = rest\<rparr>"
proof (rule readToken_char)
  show "\<not> is_space CHR ''-''" by (simp add: is_space_def)
  show "token_switch CHR ''-'' (ds @ rest) = (tokenNumber, True, rest)"
    using assms by (simp add: token_switch_def readNumber_digits)
qed

text \<open>An integer token: the exact value when it fits, the double of the same text otherwise.\<close>

definition integer_value :: "bool \<Rightarrow> nat \<Rightarrow> Value" where
  "integer_value negative n =
     (if negative then intValue (- int n) else if int n \<le> maxInt then intValue (int n) else uintValue n)"

lemma digits_no_double:
  assumes "\<forall>c \<in> set ds. is_digit c"
  shows "\<not> (\<exists>c \<in> set ds. c \<in> {CHR ''.'', CHR ''e'', CHR ''E'', CHR ''+''})" "CHR ''-'' \<notin> set ds"
  using assms digit_cases by (fastforce, fastforce)

lemma decodeNumber_positive:
  assumes "\<forall>c \<in> set ds. is_digit c" "ds \<noteq> []"
  shows "decodeNumber L \<lparr>tok_type = ty, tok_start = ds @ rest, tok_end = rest\<rparr>
    = (if digits_value 0 ds < 2 ^ 64 then Inr (integer_value False (digits_value 0 ds))
       else decodeDouble L \<lparr>tok_type = ty, tok_start = ds @ rest, tok_end = rest\<rparr>)"
proof -
  have n: "\<not> (\<exists>c \<in> set ds. c \<in> {CHR ''.'', CHR ''e'', CHR ''E'', CHR ''+''})" "CHR ''-'' \<notin> set ds"
    using digits_no_double [OF assms(1)] by auto
  then have "CHR ''-'' \<notin> set (tl ds)" "hd ds \<noteq> CHR ''-''"
    using assms(2) list.set_sel(2) [OF assms(2)] hd_in_set [OF assms(2)] by metis+
  moreover have "decode_digits (2 ^ 64 - 1) 0 ds
      = Inr (if digits_value 0 ds \<le> 2 ^ 64 - 1 then Some (digits_value 0 ds) else None)"
    by (rule decode_digits_exact [OF assms(1)]) simp_all
  ultimately show ?thesis using n(1)
    by (simp add: decodeNumber_def Let_def integer_value_def)
qed

lemma decodeNumber_negative:
  assumes "\<forall>c \<in> set ds. is_digit c"
  shows "decodeNumber L \<lparr>tok_type = ty, tok_start = CHR ''-'' # ds @ rest, tok_end = rest\<rparr>
    = (if digits_value 0 ds \<le> 2 ^ 63 then Inr (integer_value True (digits_value 0 ds))
       else decodeDouble L \<lparr>tok_type = ty, tok_start = CHR ''-'' # ds @ rest, tok_end = rest\<rparr>)"
proof -
  have n: "\<not> (\<exists>c \<in> set ds. c \<in> {CHR ''.'', CHR ''e'', CHR ''E'', CHR ''+''})" "CHR ''-'' \<notin> set ds"
    using digits_no_double [OF assms(1)] by auto
  have t: "tok_text \<lparr>tok_type = ty, tok_start = CHR ''-'' # ds @ rest, tok_end = rest\<rparr> = CHR ''-'' # ds"
    using tok_text_prefix [of ty "CHR ''-'' # ds" rest] by simp
  moreover have "decode_digits (2 ^ 63) 0 ds
      = Inr (if digits_value 0 ds \<le> 2 ^ 63 then Some (digits_value 0 ds) else None)"
    by (rule decode_digits_exact [OF assms(1)]) simp_all
  ultimately show ?thesis using n
    by (simp add: decodeNumber_def Let_def integer_value_def)
qed

section \<open>Reading what was written\<close>

text \<open>
  Values the writer is meant for: dense arrays, objects in key order, strings and keys without NUL,
  numbers in range, no doubles (their text is the C library's). What the reader makes of a number
  depends on its size, not on the type it was written from.
\<close>

fun plain :: "Value \<Rightarrow> bool" where
  "plain (intValue i) = (minInt64 \<le> i \<and> i \<le> maxInt64)"
| "plain (uintValue u) = (int u \<le> maxUInt64)"
| "plain (realValue d) = False"
| "plain (stringValue s) = (NUL \<notin> set s)"
| "plain (arrayValue m) = (map fst m = [0 ..< length m] \<and> (\<forall>(i, x) \<in> set m. plain x))"
| "plain (objectValue m) = (omap_of m \<and> (\<forall>(k, x) \<in> set m. NUL \<notin> set k \<and> plain x))"
| "plain _ = True"

fun reread :: "Value \<Rightarrow> Value" where
  "reread (intValue i) = (if i \<le> maxInt then intValue i else uintValue (nat i))"
| "reread (uintValue u) = (if int u \<le> maxInt then intValue (int u) else uintValue u)"
| "reread (arrayValue m) = arrayValue (map (\<lambda>(i, x). (i, reread x)) m)"
| "reread (objectValue m) = objectValue (map (\<lambda>(k, x). (k, reread x)) m)"
| "reread v = v"

text \<open>
  \<open>reads L F s v\<close>: from a position where \<open>s\<close> is written, with a delimiter after it, \<open>readValue\<close>
  succeeds with \<open>v\<close> and stops behind \<open>s\<close>.
\<close>

definition reads :: "clib \<Rightarrow> Features \<Rightarrow> string \<Rightarrow> Value \<Rightarrow> bool" where
  "reads L F s v \<longleftrightarrow> (\<forall>R rest cur. delim rest \<longrightarrow>
     (\<exists>n. readValue n L F (R\<lparr>rd_current := s @ rest\<rparr>) cur = Some (True, v, R\<lparr>rd_current := rest\<rparr>)))"

lemma readsI:
  assumes "\<And>R rest cur. delim rest \<Longrightarrow>
    \<exists>n. readValue n L F (R\<lparr>rd_current := s @ rest\<rparr>) cur = Some (True, v, R\<lparr>rd_current := rest\<rparr>)"
  shows "reads L F s v"
  using assms by (auto simp: reads_def)

lemma readsE:
  assumes "reads L F s v" "delim rest"
  obtains n where "\<And>m. n \<le> m \<Longrightarrow>
    readValue m L F (R\<lparr>rd_current := s @ rest\<rparr>) cur = Some (True, v, R\<lparr>rd_current := rest\<rparr>)"
  using assms reader_mono unfolding reads_def by meson

text \<open>A scalar is one token.\<close>

lemma reads_scalar:
  assumes "\<And>rest. delim rest \<Longrightarrow> \<exists>t. readToken (s @ rest) = t \<and> tok_end t = rest \<and>
    (tok_type t = tokenTrue \<and> v = booleanValue True \<or> tok_type t = tokenFalse \<and> v = booleanValue False
     \<or> tok_type t = tokenNull \<and> v = nullValue
     \<or> tok_type t = tokenNumber \<and> decodeNumber L t = Inr v
     \<or> tok_type t = tokenString \<and> map_sum (\<lambda>e. e) Value_of_string (decodeString t) = Inr v)"
  shows "reads L F s v"
proof (rule readsI)
  fix R :: Reader and rest cur assume "delim rest"
  with assms obtain t where t: "readToken (s @ rest) = t" "tok_end t = rest"
    "tok_type t = tokenTrue \<and> v = booleanValue True \<or> tok_type t = tokenFalse \<and> v = booleanValue False
     \<or> tok_type t = tokenNull \<and> v = nullValue
     \<or> tok_type t = tokenNumber \<and> decodeNumber L t = Inr v
     \<or> tok_type t = tokenString \<and> map_sum (\<lambda>e. e) Value_of_string (decodeString t) = Inr v" by blast
  then have "skipCommentTokens F (s @ rest) = t" using not_comment [of "s @ rest" F] by auto
  then have "readValue (Suc 0) L F (R\<lparr>rd_current := s @ rest\<rparr>) cur = Some (True, v, R\<lparr>rd_current := rest\<rparr>)"
    using t(2,3) by (auto simp: readValue.simps readValue_body_def Let_def decoded_value_def)
  then show "\<exists>n. readValue n L F (R\<lparr>rd_current := s @ rest\<rparr>) cur = Some (True, v, R\<lparr>rd_current := rest\<rparr>)"
    by blast
qed

lemma reads_nat:
  assumes "n < 2 ^ 64" shows "reads L F (uintToString n []) (integer_value False n)"
proof (rule reads_scalar, intro exI conjI)
  fix rest assume r: "delim rest"
  let ?t = "\<lparr>tok_type = tokenNumber, tok_start = uintToString n [] @ rest, tok_end = rest\<rparr>"
  show "readToken (uintToString n [] @ rest) = ?t"
    using readToken_digits [OF uintToString_digits uintToString_nonempty r] .
  show "tok_end ?t = rest" by simp
  show "tok_type ?t = tokenTrue \<and> integer_value False n = booleanValue True
      \<or> tok_type ?t = tokenFalse \<and> integer_value False n = booleanValue False
      \<or> tok_type ?t = tokenNull \<and> integer_value False n = nullValue
      \<or> tok_type ?t = tokenNumber \<and> decodeNumber L ?t = Inr (integer_value False n)
      \<or> tok_type ?t = tokenString \<and> map_sum (\<lambda>e. e) Value_of_string (decodeString ?t)
          = Inr (integer_value False n)"
    using decodeNumber_positive [OF uintToString_digits uintToString_nonempty] assms
    by (simp add: uintToString_value)
qed

lemma reads_negative:
  assumes "n \<le> 2 ^ 63" shows "reads L F (CHR ''-'' # uintToString n []) (intValue (- int n))"
proof (rule reads_scalar, intro exI conjI)
  fix rest assume r: "delim rest"
  let ?t = "\<lparr>tok_type = tokenNumber, tok_start = CHR ''-'' # uintToString n [] @ rest, tok_end = rest\<rparr>"
  show "readToken ((CHR ''-'' # uintToString n []) @ rest) = ?t"
    using readToken_negative [OF uintToString_digits r] by simp
  show "tok_end ?t = rest" by simp
  show "tok_type ?t = tokenTrue \<and> intValue (- int n) = booleanValue True
      \<or> tok_type ?t = tokenFalse \<and> intValue (- int n) = booleanValue False
      \<or> tok_type ?t = tokenNull \<and> intValue (- int n) = nullValue
      \<or> tok_type ?t = tokenNumber \<and> decodeNumber L ?t = Inr (intValue (- int n))
      \<or> tok_type ?t = tokenString \<and> map_sum (\<lambda>e. e) Value_of_string (decodeString ?t)
          = Inr (intValue (- int n))"
    using decodeNumber_negative [OF uintToString_digits] assms
    by (simp add: uintToString_value integer_value_def)
qed

lemma c_str_id: "NUL \<notin> set s \<Longrightarrow> c_str s = s"
  unfolding c_str_def by (rule takeWhile_eq_all_conv [THEN iffD2]) auto

lemma reads_string:
  assumes "NUL \<notin> set s" shows "reads L F (valueToQuotedString s) (stringValue s)"
  by (rule reads_scalar)
     (simp add: readToken_quoted decodeString_quoted Value_of_string_def c_str_id [OF assms])

lemma reads_words:
  "reads L F ''null'' nullValue" "reads L F ''true'' (booleanValue True)"
  "reads L F ''false'' (booleanValue False)"
  by (rule reads_scalar, simp only: readToken_words, simp)+

text \<open>A space before a value changes nothing.\<close>

lemma readValue_space:
  "is_space c \<Longrightarrow> readValue n L F (R\<lparr>rd_current := c # cs\<rparr>) cur
    = readValue n L F (R\<lparr>rd_current := cs\<rparr>) cur"
proof (cases n)
  case (Suc m)
  assume "is_space c"
  then have t: "readToken (c # cs) = readToken cs" by (rule readToken_space)
  then have "skip_comments (c # cs) = skip_comments cs"
    by (subst (1 2) skip_comments.simps) simp
  with t have "skipCommentTokens F (c # cs) = skipCommentTokens F cs"
    by (simp add: skipCommentTokens_def)
  then show ?thesis by (simp add: Suc readValue.simps readValue_body_def)
qed (simp add: readValue.simps)

definition blank :: "string \<Rightarrow> bool" where
  "blank ws \<longleftrightarrow> (\<forall>c \<in> set ws. is_space c)"

lemma blank_simps [simp]:
  "blank []" "blank (c # ws) \<longleftrightarrow> is_space c \<and> blank ws" "blank (as @ bs) \<longleftrightarrow> blank as \<and> blank bs"
  by (auto simp: blank_def)

lemma blank_spaces [simp]: "blank (replicate n (CHR '' ''))"
  by (simp add: blank_def is_space_def)

lemma readToken_blank: "blank ws \<Longrightarrow> readToken (ws @ cs) = readToken cs"
  by (induction ws) (simp_all add: readToken_space)

lemma skip_blank: "blank ws \<Longrightarrow> skip_comments (ws @ cs) = skip_comments cs"
  by (subst (1 2) skip_comments.simps) (simp add: readToken_blank)

lemma readValue_blank: "blank ws \<Longrightarrow> readValue n L F (R\<lparr>rd_current := ws @ cs\<rparr>) cur
    = readValue n L F (R\<lparr>rd_current := cs\<rparr>) cur"
  by (induction ws) (simp_all add: readValue_space)

lemma readArray_blank: "blank ws \<Longrightarrow> readArray n L F i (R\<lparr>rd_current := ws @ cs\<rparr>) items
    = readArray n L F i (R\<lparr>rd_current := cs\<rparr>) items"
  by (cases n) (simp_all add: readArray.simps readArray_body_def readValue_blank)

lemma reads_blank: "blank ws \<Longrightarrow> reads L F s v \<Longrightarrow> reads L F (ws @ s) v"
  by (simp add: reads_def readValue_blank)

lemma delim_blank: "blank ws \<Longrightarrow> delim cs \<Longrightarrow> delim (ws @ cs)"
  by (cases ws) (auto simp: delim_def is_space_def is_number_char_def is_digit_def)

lemma delim_punctuation [simp]:
  "delim (CHR '','' # cs)" "delim (CHR '']'' # cs)" "delim (CHR ''}'' # cs)" "delim (LF # cs)" "delim []"
  by (simp_all add: delim_def is_number_char_def is_digit_def)

text \<open>What the reader passes over between two values: blanks and, where they are allowed, comments.\<close>

definition passes :: "Features \<Rightarrow> string \<Rightarrow> bool" where
  "passes F ws \<longleftrightarrow> (blank ws \<or> allowComments F) \<and> (\<forall>cs. skip_comments (ws @ cs) = skip_comments cs)
     \<and> (\<forall>cs. delim cs \<longrightarrow> delim (ws @ cs))"

lemma passes_blank [intro]: "blank ws \<Longrightarrow> passes F ws"
  by (simp add: passes_def skip_blank delim_blank)

lemma passes_append: "passes F as \<Longrightarrow> passes F bs \<Longrightarrow> passes F (as @ bs)"
  by (auto simp: passes_def)

lemma skip_passes: "passes F ws \<Longrightarrow> skip_comments (ws @ cs) = skip_comments cs"
  and delim_passes: "passes F ws \<Longrightarrow> delim cs \<Longrightarrow> delim (ws @ cs)"
  by (simp_all add: passes_def)

lemma readValue_passes: "passes F ws \<Longrightarrow> readValue n L F (R\<lparr>rd_current := ws @ cs\<rparr>) cur
    = readValue n L F (R\<lparr>rd_current := cs\<rparr>) cur"
proof (cases "blank ws")
  case False
  assume "passes F ws"
  with False have "skipCommentTokens F (ws @ cs) = skipCommentTokens F cs" by (simp add: passes_def skipCommentTokens_def)
  then show ?thesis by (cases n) (simp_all add: readValue.simps readValue_body_def)
qed (simp add: readValue_blank)

lemma reads_passes: "passes F ws \<Longrightarrow> reads L F s v \<Longrightarrow> reads L F (ws @ s) v"
  by (simp add: reads_def readValue_passes)

lemma separated_simps:
  "separated sep [] = []" "separated sep [x] = x"
  "xs \<noteq> [] \<Longrightarrow> separated sep (x # xs) = x @ sep @ separated sep xs"
  by (cases xs; simp add: separated_def)+

lemma skip_comments_punctuation [simp]:
  "skip_comments (CHR '','' # cs) = readToken (CHR '','' # cs)"
  "skip_comments (CHR '']'' # cs) = readToken (CHR '']'' # cs)"
  "skip_comments (CHR ''}'' # cs) = readToken (CHR ''}'' # cs)"
  by (simp_all add: not_comment)

lemma omap_find_new: "\<forall>j \<in> fst ` set m. j < k \<Longrightarrow> omap_find m k = None"
  by (auto simp: omap_find_None)

text \<open>The loop of \<open>readArray\<close> on the elements that are left.\<close>

lemma reads_items:
  assumes "xs \<noteq> []" "\<forall>x \<in> set xs. reads L F (w x) (f x)"
    and "omap_of items" "\<forall>j \<in> fst ` set items. j < i" and ws: "passes F ws"
  shows "\<exists>n. readArray n L F i (R\<lparr>rd_current := separated '','' (map w xs) @ ws @ CHR '']'' # rest\<rparr>) items
    = Some (True, arrayValue (items @ zip [i ..< i + length xs] (map f xs)), R\<lparr>rd_current := rest\<rparr>)"
  using assms(1-4)
proof (induction xs arbitrary: i items)
  case (Cons x xs)
  let ?put = "omap_put i (f x) items"
  have put: "?put = items @ [(i, f x)]" using Cons.prems(3,4) by (rule omap_put_new_last)
  have new: "omap_find items i = None" using Cons.prems(4) by (rule omap_find_new)
  have x: "reads L F (w x) (f x)" using Cons.prems(2) by simp
  show ?case
  proof (cases "xs = []")
    case True
    from readsE [OF x delim_passes [OF ws], of "CHR '']'' # rest" R nullValue] obtain n where
      "readValue n L F (R\<lparr>rd_current := w x @ ws @ CHR '']'' # rest\<rparr>) nullValue
        = Some (True, f x, R\<lparr>rd_current := ws @ CHR '']'' # rest\<rparr>)" by auto
    then have "readArray (Suc n) L F i (R\<lparr>rd_current := separated '','' (map w (x # xs)) @ ws @ CHR '']'' # rest\<rparr>) items
        = Some (True, arrayValue (items @ zip [i ..< i + length (x # xs)] (map f (x # xs))), R\<lparr>rd_current := rest\<rparr>)"
      using True by (simp add: readArray.simps readArray_body_def new put separated_simps skip_passes [OF ws] Let_def)
    then show ?thesis by blast
  next
    case False
    let ?more = "separated '','' (map w xs) @ ws @ CHR '']'' # rest"
    have sep: "separated '','' (map w (x # xs)) @ ws @ CHR '']'' # rest = w x @ CHR '','' # ?more"
      using False by (simp add: separated_simps)
    from readsE [OF x, of "CHR '','' # ?more" R nullValue] obtain n1 where
      n1: "\<And>m. n1 \<le> m \<Longrightarrow> readValue m L F (R\<lparr>rd_current := w x @ CHR '','' # ?more\<rparr>) nullValue
        = Some (True, f x, R\<lparr>rd_current := CHR '','' # ?more\<rparr>)" by auto
    have "\<exists>n. readArray n L F (Suc i) (R\<lparr>rd_current := ?more\<rparr>) (items @ [(i, f x)])
      = Some (True, arrayValue ((items @ [(i, f x)]) @ zip [Suc i ..< Suc i + length xs] (map f xs)),
          R\<lparr>rd_current := rest\<rparr>)"
    proof (rule Cons.IH [OF False])
      show "omap_of (items @ [(i, f x)])" using omap_of_put [OF Cons.prems(3), of i "f x"] put by simp
    qed (use Cons.prems(2,4) in \<open>auto simp: less_SucI\<close>)
    then obtain n2 where
      "readArray n2 L F (Suc i) (R\<lparr>rd_current := ?more\<rparr>) (items @ [(i, f x)])
      = Some (True, arrayValue ((items @ [(i, f x)]) @ zip [Suc i ..< Suc i + length xs] (map f xs)),
          R\<lparr>rd_current := rest\<rparr>)" by blast
    then have n2: "readArray m L F (Suc i) (R\<lparr>rd_current := ?more\<rparr>) (items @ [(i, f x)])
      = Some (True, arrayValue ((items @ [(i, f x)]) @ zip [Suc i ..< Suc i + length xs] (map f xs)),
          R\<lparr>rd_current := rest\<rparr>)" if "n2 \<le> m" for m
      using that by (rule readArray_mono)
    have z: "zip [i ..< i + length (x # xs)] (map f (x # xs))
        = (i, f x) # zip [Suc i ..< Suc i + length xs] (map f xs)"
      by (simp add: upt_conv_Cons del: upt_Suc)
    have "readArray (Suc (n1 + n2)) L F i
        (R\<lparr>rd_current := separated '','' (map w (x # xs)) @ ws @ CHR '']'' # rest\<rparr>) items
      = Some (True, arrayValue (items @ zip [i ..< i + length (x # xs)] (map f (x # xs))), R\<lparr>rd_current := rest\<rparr>)"
      unfolding sep z using n1 [of "n1 + n2"] n2 [of "n1 + n2"]
      by (simp add: readArray.simps readArray_body_def new put Let_def)
    then show ?thesis by blast
  qed
qed simp

text \<open>The loop of \<open>readObject\<close> on the members that are left.\<close>

lemma readObject_closed:
  assumes "skip_comments cs = readToken (CHR ''}'' # rest)"
  shows "readObject_comma g object (R\<lparr>rd_current := cs\<rparr>) = Some (True, object, R\<lparr>rd_current := rest\<rparr>)"
proof (cases "tok_type (readToken cs) = tokenComment")
  case True
  then have "skip_comments (tok_end (readToken cs)) = readToken (CHR ''}'' # rest)"
    using assms by (simp add: skip_comments.simps [of cs])
  with True show ?thesis by (simp add: readObject_comma_def Let_def)
next
  case False
  then have "readToken cs = readToken (CHR ''}'' # rest)" using assms by (simp add: not_comment)
  then show ?thesis by (simp add: readObject_comma_def Let_def)
qed

lemma reads_members:
  assumes "ms \<noteq> []" "\<forall>(k, x) \<in> set ms. NUL \<notin> set k \<and> reads L F (w x) (f x)"
    and "omap_of members" "omap_of ms" "\<forall>j \<in> fst ` set members. \<forall>k \<in> fst ` set ms. j < k"
    and pre: "\<forall>(k, x) \<in> set ms. passes F (pre x)" and ws: "blank mid" "blank sp" "passes F ws"
  shows "\<exists>n. readObject n L F name (R\<lparr>rd_current := separated '',''
        (map (\<lambda>(k, x). pre x @ valueToQuotedString k @ mid @ '':'' @ sp @ w x) ms) @ ws @ CHR ''}'' # rest\<rparr>) members
    = Some (True, objectValue (members @ map (\<lambda>(k, x). (k, f x)) ms), R\<lparr>rd_current := rest\<rparr>)"
  using assms(1-6)
proof (induction ms arbitrary: name members)
  case (Cons km ms)
  obtain k x where km: "km = (k, x)" by (cases km)
  let ?q = "\<lambda>(k, x). pre x @ valueToQuotedString k @ mid @ '':'' @ sp @ w x"
  have k: "c_str k = k" "reads L F (w x) (f x)" using Cons.prems(2) by (auto simp: km c_str_id)
  have lt: "\<forall>j \<in> fst ` set members. j < k" using Cons.prems(5) by (simp add: km)
  have put: "omap_put k (f x) members = members @ [(k, f x)]" using Cons.prems(3) lt by (rule omap_put_new_last)
  have new: "omap_find members k = None" using lt by (rule omap_find_new)
  have name: "skip_comments (valueToQuotedString k @ cs)
      = \<lparr>tok_type = tokenString, tok_start = valueToQuotedString k @ cs, tok_end = cs\<rparr>" for cs
    using not_comment [of "valueToQuotedString k @ cs"] by (simp add: readToken_quoted)
  have mn: "member_name L F \<lparr>tok_type = tokenString, tok_start = valueToQuotedString k @ cs, tok_end = cs\<rparr>
      = Some (Inr k)" for cs
    by (simp add: member_name_def decodeString_quoted)
  have space: "readValue n L F (R\<lparr>rd_current := sp @ cs\<rparr>) c = readValue n L F (R\<lparr>rd_current := cs\<rparr>) c" for n cs c
    using ws(2) by (rule readValue_blank)
  have colon: "readToken (mid @ CHR '':'' # cs) = readToken (CHR '':'' # cs)" for cs using ws(1) by (rule readToken_blank)
  have close: "skip_comments (ws @ CHR ''}'' # rest) = readToken (CHR ''}'' # rest)" using skip_passes [OF ws(3)] by simp
  have lead: "passes F (pre x)" using Cons.prems(6) by (simp add: km)
  show ?case
  proof (cases "ms = []")
    case True
    from readsE [OF k(2) delim_passes [OF ws(3)], of "CHR ''}'' # rest" R nullValue] obtain n where
      "readValue n L F (R\<lparr>rd_current := w x @ ws @ CHR ''}'' # rest\<rparr>) nullValue
        = Some (True, f x, R\<lparr>rd_current := ws @ CHR ''}'' # rest\<rparr>)" by auto
    then have "readObject (Suc n) L F name
        (R\<lparr>rd_current := separated '','' (map ?q (km # ms)) @ ws @ CHR ''}'' # rest\<rparr>) members
      = Some (True, objectValue (members @ map (\<lambda>(k, x). (k, f x)) (km # ms)), R\<lparr>rd_current := rest\<rparr>)"
      using True space [of n "w x @ ws @ CHR ''}'' # rest" nullValue]
      by (simp add: km separated_simps readObject.simps readObject_body_def readObject_closed [OF close]
          skip_passes [OF lead] name mn colon k new put Let_def)
    then show ?thesis by blast
  next
    case False
    let ?more = "separated '','' (map ?q ms) @ ws @ CHR ''}'' # rest"
    have sep: "separated '','' (map ?q (km # ms)) @ ws @ CHR ''}'' # rest
        = pre x @ valueToQuotedString k @ mid @ CHR '':'' # sp @ w x @ CHR '','' # ?more"
      using False by (simp add: separated_simps km)
    from readsE [OF k(2), of "CHR '','' # ?more" R nullValue] obtain n1 where
      n1: "\<And>m. n1 \<le> m \<Longrightarrow> readValue m L F (R\<lparr>rd_current := w x @ CHR '','' # ?more\<rparr>) nullValue
        = Some (True, f x, R\<lparr>rd_current := CHR '','' # ?more\<rparr>)" by auto
    have "\<exists>n. readObject n L F k (R\<lparr>rd_current := ?more\<rparr>) (members @ [(k, f x)])
      = Some (True, objectValue ((members @ [(k, f x)]) @ map (\<lambda>(k, x). (k, f x)) ms), R\<lparr>rd_current := rest\<rparr>)"
    proof (rule Cons.IH [OF False])
      show "omap_of (members @ [(k, f x)])" using omap_of_put [OF Cons.prems(3), of k "f x"] put by simp
      show "omap_of ms" using Cons.prems(4) by (simp add: omap_of_Cons)
      show "\<forall>j \<in> fst ` set (members @ [(k, f x)]). \<forall>k \<in> fst ` set ms. j < k"
        using Cons.prems(4,5) by (auto simp: omap_of_Cons km)
    qed (use Cons.prems(2,6) in auto)
    then obtain n2 where
      "readObject n2 L F k (R\<lparr>rd_current := ?more\<rparr>) (members @ [(k, f x)])
      = Some (True, objectValue ((members @ [(k, f x)]) @ map (\<lambda>(k, x). (k, f x)) ms), R\<lparr>rd_current := rest\<rparr>)"
      by blast
    then have n2: "readObject m L F k (R\<lparr>rd_current := ?more\<rparr>) (members @ [(k, f x)])
      = Some (True, objectValue ((members @ [(k, f x)]) @ map (\<lambda>(k, x). (k, f x)) ms), R\<lparr>rd_current := rest\<rparr>)"
      if "n2 \<le> m" for m using that by (rule readObject_mono)
    have "readObject (Suc (n1 + n2)) L F name
        (R\<lparr>rd_current := separated '','' (map ?q (km # ms)) @ ws @ CHR ''}'' # rest\<rparr>) members
      = Some (True, objectValue (members @ map (\<lambda>(k, x). (k, f x)) (km # ms)), R\<lparr>rd_current := rest\<rparr>)"
      unfolding sep using n1 [of "n1 + n2"] n2 [of "n1 + n2"]
      by (simp add: km readObject.simps readObject_body_def readObject_comma_def
          skip_passes [OF lead] name mn colon k new put space Let_def)
    then show ?thesis by blast
  qed
qed simp

text \<open>After blanks something begins that does not end an array.\<close>

primrec opens :: "string \<Rightarrow> bool" where
  "opens [] = False"
| "opens (c # cs) = (if is_space c then opens cs else c \<noteq> CHR '']'')"

lemma opens_blank: "blank ws \<Longrightarrow> opens s \<Longrightarrow> opens (ws @ s)"
  by (induction ws) simp_all

lemma opensE: "opens s \<Longrightarrow> \<exists>ws c cs. s = ws @ c # cs \<and> blank ws \<and> \<not> is_space c \<and> c \<noteq> CHR '']''"
proof (induction s)
  case (Cons c cs)
  show ?case
  proof (cases "is_space c")
    case True
    with Cons obtain ws d ds where "cs = ws @ d # ds" "blank ws" "\<not> is_space d" "d \<noteq> CHR '']''" by auto
    with True show ?thesis by (intro exI [of _ "c # ws"]) auto
  next
    case False
    with Cons.prems show ?thesis by (intro exI [of _ "[]"]) simp
  qed
qed simp

lemma opens_nat: "opens (uintToString n [])"
proof -
  obtain c cs where c: "uintToString n [] = c # cs" using uintToString_nonempty by (cases "uintToString n []") auto
  then have "is_digit c" using uintToString_digits [of n] by auto
  then have "\<not> is_space c" "c \<noteq> CHR '']''" by (auto simp: is_digit_not_space is_digit_def)
  with c show ?thesis by simp
qed

lemma opens_written: "plain v \<Longrightarrow> \<not> dropNullPlaceholders W \<Longrightarrow> opens (writeValue L W v)"
proof (cases v)
  case (intValue i)
  then show ?thesis using opens_nat
    by (auto simp: writeValue.simps valueToString_Int_def is_space_def)
next
  case (uintValue u)
  then show ?thesis using opens_nat by (simp add: writeValue.simps valueToString_UInt_def)
next
  case (booleanValue b)
  then show ?thesis by (cases b) (simp_all add: writeValue.simps valueToString_bool_def is_space_def)
qed (simp_all add: writeValue.simps is_space_def quote_map)

lemma dense_items:
  assumes "map fst m = [0 ..< length m]"
  shows "map (\<lambda>i. g (item_at m i)) [0 ..< Value_size (arrayValue m)] = map (\<lambda>p. g (snd p)) m"
proof -
  have "sorted_wrt (<) (map fst m)" using assms by simp
  then have o: "omap_of m" by (simp add: omap_of_def)
  have "item_at m i = snd (m ! i)" if "i < length m" for i
  proof -
    have "fst (m ! i) = i" using assms that by (metis add_0 nth_map nth_upt)
    then have "(i, snd (m ! i)) \<in> set m" using that by (metis nth_mem prod.collapse)
    then show ?thesis using omap_in_find [OF o] by (simp add: item_at_def)
  qed
  moreover have "Value_size (arrayValue m) = length m"
  proof (cases "m = []")
    case False
    then have "fst (last m) = last [0 ..< length m]" using assms by (metis last_map)
    then show ?thesis using False by (simp add: Value_size_def)
  qed (simp add: Value_size_def)
  ultimately show ?thesis by (intro nth_equalityI) simp_all
qed

lemma named_members: "omap_of m \<Longrightarrow> (k, x) \<in> set m \<Longrightarrow> named_at m k = x"
  by (simp add: named_at_def omap_in_find)

lemma skipSpaces_blank: "blank ws \<Longrightarrow> skipSpaces (ws @ cs) = skipSpaces cs"
  by (induction ws) (simp_all add: skipSpaces_def)

lemma reads_array:
  assumes "map fst m = [0 ..< length m]" "\<forall>(i, x) \<in> set m. reads L F (w x) (f x) \<and> opens (w x)"
    and ws: "blank pre" "passes F ws" "m = [] \<Longrightarrow> blank ws"
  shows "reads L F (''['' @ separated '','' (map (\<lambda>p. pre @ w (snd p)) m) @ ws @ '']'')
    (arrayValue (map (\<lambda>(i, x). (i, f x)) m))"
proof (rule readsI)
  fix R :: Reader and rest cur
  let ?s = "separated '','' (map (\<lambda>p. pre @ w (snd p)) m)"
  have tok: "skipCommentTokens F (CHR ''['' # cs) = readToken (CHR ''['' # cs)" for cs
    by (simp add: not_comment)
  have begin_: "readValue (Suc n) L F (R\<lparr>rd_current := (''['' @ ?s @ ws @ '']'') @ rest\<rparr>) cur
      = readArray_begin (\<lambda>R. readArray n L F 0 R []) (R\<lparr>rd_current := ?s @ ws @ CHR '']'' # rest\<rparr>)" for n
    by (simp add: readValue.simps readValue_body_def tok Let_def)
  show "\<exists>n. readValue n L F (R\<lparr>rd_current := (''['' @ ?s @ ws @ '']'') @ rest\<rparr>) cur
      = Some (True, arrayValue (map (\<lambda>(i, x). (i, f x)) m), R\<lparr>rd_current := rest\<rparr>)"
  proof (cases "m = []")
    case True
    then have close: "skipSpaces (ws @ CHR '']'' # rest) = CHR '']'' # rest"
      using skipSpaces_blank [OF ws(3)] by (simp add: skipSpaces_def is_space_def)
    have "readValue (Suc 0) L F (R\<lparr>rd_current := (''['' @ ?s @ ws @ '']'') @ rest\<rparr>) cur
      = Some (True, arrayValue (map (\<lambda>(i, x). (i, f x)) m), R\<lparr>rd_current := rest\<rparr>)"
      unfolding begin_ using True by (simp add: separated_simps readArray_begin_def close deref_def Let_def)
    then show ?thesis by blast
  next
    case False
    then obtain p m' where m: "m = p # m'" by (cases m) auto
    then have "opens (w (snd p))" using assms(2) by (cases p) auto
    then obtain lead c cs where c: "w (snd p) = lead @ c # cs" "blank lead" "\<not> is_space c" "c \<noteq> CHR '']''"
      using opensE by blast
    have "\<exists>cs'. ?s = (pre @ lead) @ c # cs'" using c(1) m by (simp add: separated_def)
    then obtain cs' where s: "?s = (pre @ lead) @ c # cs'" by blast
    have blank_lead: "blank (pre @ lead)" using c(2) ws(1) by simp
    have b: "skipSpaces (?s @ t) = c # cs' @ t" for t
      using skipSpaces_blank [OF blank_lead, of "c # cs' @ t"] c(3) by (simp add: s skipSpaces_def)
    have "\<exists>n. readArray n L F 0 (R\<lparr>rd_current := separated '','' (map (\<lambda>x. pre @ w x) (map snd m)) @ ws @ CHR '']'' # rest\<rparr>) []
      = Some (True, arrayValue ([] @ zip [0 ..< 0 + length (map snd m)] (map f (map snd m))), R\<lparr>rd_current := rest\<rparr>)"
      using False assms(2) ws(2) reads_blank [OF ws(1)] by (intro reads_items) auto
    moreover have "zip [0 ..< length m] (map f (map snd m)) = map (\<lambda>(i, x). (i, f x)) m"
    proof -
      have "zip (map fst m) (map f (map snd m)) = map (\<lambda>(i, x). (i, f x)) m"
        by (simp add: zip_map_map) (simp add: zip_same_conv_map case_prod_unfold)
      with assms(1) show ?thesis by simp
    qed
    ultimately obtain n where n: "readArray n L F 0 (R\<lparr>rd_current := ?s @ ws @ CHR '']'' # rest\<rparr>) []
      = Some (True, arrayValue (map (\<lambda>(i, x). (i, f x)) m), R\<lparr>rd_current := rest\<rparr>)"
      by (auto simp: comp_def)
    then have "readArray n L F 0 (R\<lparr>rd_current := c # cs' @ ws @ CHR '']'' # rest\<rparr>) []
      = Some (True, arrayValue (map (\<lambda>(i, x). (i, f x)) m), R\<lparr>rd_current := rest\<rparr>)"
      using readArray_blank [OF blank_lead, where n = n and L = L and F = F and i = 0 and R = R and items = "[]" and cs = "c # cs' @ ws @ CHR '']'' # rest"] by (simp add: s)
    then have "readValue (Suc n) L F (R\<lparr>rd_current := (''['' @ ?s @ ws @ '']'') @ rest\<rparr>) cur
      = Some (True, arrayValue (map (\<lambda>(i, x). (i, f x)) m), R\<lparr>rd_current := rest\<rparr>)"
      using c(4) unfolding begin_ by (simp add: readArray_begin_def b deref_def Let_def)
    then show ?thesis by blast
  qed
qed

lemma reads_object:
  assumes "omap_of m" "\<forall>(k, x) \<in> set m. NUL \<notin> set k \<and> reads L F (w x) (f x)"
    and pre: "\<forall>(k, x) \<in> set m. passes F (pre x)" and ws: "blank mid" "blank sp" "passes F ws"
  shows "reads L F (''{'' @ separated '',''
      (map (\<lambda>(k, x). pre x @ valueToQuotedString k @ mid @ '':'' @ sp @ w x) m) @ ws @ ''}'')
    (objectValue (map (\<lambda>(k, x). (k, f x)) m))"
proof (rule readsI)
  fix R :: Reader and rest cur
  let ?s = "separated '','' (map (\<lambda>(k, x). pre x @ valueToQuotedString k @ mid @ '':'' @ sp @ w x) m)"
  have tok: "skipCommentTokens F (CHR ''{'' # cs) = readToken (CHR ''{'' # cs)" for cs
    by (simp add: not_comment)
  have begin_: "readValue (Suc n) L F (R\<lparr>rd_current := (''{'' @ ?s @ ws @ ''}'') @ rest\<rparr>) cur
      = readObject n L F [] (R\<lparr>rd_current := ?s @ ws @ CHR ''}'' # rest\<rparr>) []" for n
    by (simp add: readValue.simps readValue_body_def tok Let_def)
  have "\<exists>n. readObject n L F [] (R\<lparr>rd_current := ?s @ ws @ CHR ''}'' # rest\<rparr>) []
      = Some (True, objectValue (map (\<lambda>(k, x). (k, f x)) m), R\<lparr>rd_current := rest\<rparr>)"
  proof (cases "m = []")
    case True
    then have "readObject (Suc 0) L F [] (R\<lparr>rd_current := ?s @ ws @ CHR ''}'' # rest\<rparr>) []
      = Some (True, objectValue (map (\<lambda>(k, x). (k, f x)) m), R\<lparr>rd_current := rest\<rparr>)"
      using skip_passes [OF ws(3)] by (simp add: separated_simps readObject.simps readObject_body_def Let_def)
    then show ?thesis by blast
  next
    case False
    then show ?thesis
      using reads_members [OF False assms(2) _ assms(1) _ pre ws, of "[]"] by simp
  qed
  then obtain n where "readObject n L F [] (R\<lparr>rd_current := ?s @ ws @ CHR ''}'' # rest\<rparr>) []
      = Some (True, objectValue (map (\<lambda>(k, x). (k, f x)) m), R\<lparr>rd_current := rest\<rparr>)" by blast
  then show "\<exists>n. readValue n L F (R\<lparr>rd_current := (''{'' @ ?s @ ws @ ''}'') @ rest\<rparr>) cur
      = Some (True, objectValue (map (\<lambda>(k, x). (k, f x)) m), R\<lparr>rd_current := rest\<rparr>)"
    using begin_ [of n] by (intro exI [of _ "Suc n"]) simp
qed

lemma reads_written:
  "plain v \<Longrightarrow> \<not> dropNullPlaceholders W \<Longrightarrow> reads L F (writeValue L W v) (reread v)"
proof (induction "size v" arbitrary: v rule: less_induct)
  case less
  have ih: "reads L F (writeValue L W x) (reread x) \<and> opens (writeValue L W x)"
    if "(k, x) \<in> set m" "size x < size v" "plain x" for k x and m :: "('k \<times> Value) list"
    using less that opens_written by blast
  show ?case
  proof (cases v)
    case nullValue
    then show ?thesis using less.prems reads_words by (simp add: writeValue.simps)
  next
    case (intValue i)
    then have r: "minInt64 \<le> i" "i \<le> maxInt64" using less.prems by simp_all
    show ?thesis
    proof (cases "i < 0")
      case True
      then show ?thesis using reads_negative [of "nat (- i)" L F] r intValue
        by (simp add: writeValue.simps valueToString_Int_def int_limits)
    next
      case False
      then obtain k where k: "i = int k" by (metis linorder_not_less nonneg_int_cases)
      with r have "k < 2 ^ 64" by (simp add: int_limits)
      with k show ?thesis using reads_nat [of k L F] intValue
        by (simp add: writeValue.simps valueToString_Int_def integer_value_def int_limits split: if_splits)
    qed
  next
    case (uintValue u)
    then show ?thesis using reads_nat [of u L F] less.prems
      by (simp add: writeValue.simps valueToString_UInt_def integer_value_def int_limits split: if_splits)
  next
    case (stringValue s)
    then show ?thesis using reads_string less.prems by (simp add: writeValue.simps)
  next
    case (booleanValue b)
    then show ?thesis using reads_words by (cases b) (simp_all add: writeValue.simps valueToString_bool_def)
  next
    case (arrayValue m)
    have d: "map fst m = [0 ..< length m]" using less.prems arrayValue by simp
    have "\<forall>(i, x) \<in> set m. reads L F (writeValue L W x) (reread x) \<and> opens (writeValue L W x)"
      using ih less.prems arrayValue size_in_map [of _ _ m] by (fastforce simp: size_prod_simp)
    from reads_array [OF d this, of "[]" "[]"] passes_blank [of "[]" F] show ?thesis
      using arrayValue by (simp add: writeValue.simps dense_items [OF d])
  next
    case (objectValue m)
    have o: "omap_of m" using less.prems objectValue by simp
    let ?sp = "if yamlCompatiblityEnabled W then '' '' else []"
    have a: "\<forall>(k, x) \<in> set m. NUL \<notin> set k \<and> reads L F (writeValue L W x) (reread x)"
      using ih less.prems objectValue size_in_map [of _ _ m] by (fastforce simp: size_prod_simp)
    have "map (\<lambda>name. valueToQuotedString name @ (if yamlCompatiblityEnabled W then '': '' else '':'')
            @ writeValue L W (named_at m name)) (map fst m)
        = map (\<lambda>(k, x). valueToQuotedString k @ '':'' @ ?sp @ writeValue L W x) m"
      using named_members [OF o] by (auto simp: case_prod_unfold)
    with reads_object [OF o a, of "\<lambda>_. []" "[]" ?sp "[]"] passes_blank [of "[]" F] show ?thesis
      using objectValue by (simp add: is_space_def writeValue.simps del: map_map)
  qed (use less.prems in simp)
qed

lemma type_reread: "isArray (reread v) = isArray v" "isObject (reread v) = isObject v"
  by (cases v; simp add: isArray_def isObject_def)+

lemma parse_written:
  assumes "plain v" "\<not> dropNullPlaceholders W" "strictRoot F \<longrightarrow> isArray v \<or> isObject v"
  shows "Reader_parse L F (FastWriter_write L W v) root = Some (True, reread v, [])"
proof -
  let ?rest = "if \<not> omitEndingLineFeed W then [LF] else []"
  let ?R = "\<lparr>rd_current = [], rd_errors = []\<rparr>"
  let ?doc = "FastWriter_write L W v"
  have d: "delim ?rest" by simp
  from readsE [OF reads_written [OF assms(1,2)] d, of L F ?R root] obtain n where
    "readValue n L F (?R\<lparr>rd_current := ?doc\<rparr>) root = Some (True, reread v, ?R\<lparr>rd_current := ?rest\<rparr>)"
    unfolding FastWriter_write_def by blast
  then have "readValue (parse_fuel ?doc) L F \<lparr>rd_current = ?doc, rd_errors = []\<rparr> root
      = Some (True, reread v, \<lparr>rd_current = ?rest, rd_errors = []\<rparr>)"
    using readValue_any_bound [of n L F "\<lparr>rd_current = ?doc, rd_errors = []\<rparr>" root]
    by (simp add: parse_fuel_def)
  with assms(3) show ?thesis by (simp add: Reader_parse_def Let_def type_reread)
qed

section \<open>Properties\<close>

text \<open>
  C24: Round trip of the JSON library. Whatever value without doubles the program builds, the reader
  accepts the text \<open>FastWriter\<close> makes of it, without errors and under all options (in strict mode:
  arrays and objects), and returns the same value; only the type of an integer may differ, which
  the reader chooses by size. Quotes, backslashes, control characters and bytes above 127 in
  strings and keys, nesting, and the whole range of 64 bit numbers are covered.
\<close>
theorem write_parse_roundtrip:
  assumes "plain v" "\<not> dropNullPlaceholders W" "strictRoot F \<longrightarrow> isArray v \<or> isObject v"
  shows "Reader_parse L F (FastWriter_write L W v) root = Some (True, reread v, [])"
  using assms by (rule parse_written)

theorem write_parse_roundtrip_witness:
  "Reader_parse no_doubles Features_strictMode (FastWriter_write no_doubles new_FastWriter
      (objectValue [(''a'', arrayValue [(0, intValue (-7)), (1, stringValue [QUOTE, LF])])])) nullValue
    = Some (True, objectValue [(''a'', arrayValue [(0, intValue (-7)), (1, stringValue [QUOTE, LF])])], [])"
  using write_parse_roundtrip [of "objectValue [(''a'', arrayValue [(0, intValue (-7)), (1, stringValue [QUOTE, LF])])]"
      new_FastWriter Features_strictMode no_doubles nullValue]
  by (simp add: new_FastWriter_def isObject_def NUL_def omap_of_def int_limits)

text \<open>
  Integers are read exactly or not as integers at all: an optional minus and any digits, however
  many, give the integer they denote when it is in the range of a 64 bit integer, and otherwise the
  text goes to the double conversion; the accumulator never wraps. A minus alone denotes 0.
\<close>
theorem decodeNumber_exact:
  assumes "\<forall>c \<in> set ds. is_digit c" "negative \<or> ds \<noteq> []" "start = (if negative then ''-'' else []) @ ds @ rest"
  shows "decodeNumber L \<lparr>tok_type = ty, tok_start = start, tok_end = rest\<rparr>
    = (if digits_value 0 ds \<le> (if negative then 2 ^ 63 else 2 ^ 64 - 1)
       then Inr (integer_value negative (digits_value 0 ds))
       else decodeDouble L \<lparr>tok_type = ty, tok_start = start, tok_end = rest\<rparr>)"
proof (cases negative)
  case True
  with assms show ?thesis using decodeNumber_negative [OF assms(1)] by simp
next
  case False
  with assms show ?thesis using decodeNumber_positive [OF assms(1)] by auto
qed

theorem decodeNumber_exact_witness:
  "decodeNumber no_doubles \<lparr>tok_type = tokenNumber, tok_start = ''-'', tok_end = []\<rparr> = Inr (intValue 0)"
  using decodeNumber_exact [of "[]" True "''-''" "[]" no_doubles tokenNumber]
  by (simp add: integer_value_def)

end
