(* ===== verification/IceService.thy ===== *)
theory IceService
  imports Wire Forward JsonWriter
begin

text \<open>
  The session service: \<open>bridgeserver/IceService.h\<close> and \<open>bridgeserver/IceService.cpp\<close>. A session is
  prepared or joined by a command, negotiated by eice, and turned into forwards by
  \<open>ICE_OP_RELAY_SESSION\<close>. What the eice library, the clock and the sockets answer during one step
  is the record \<open>ice_env\<close>; pointers to endpoints and connections are numbers.
\<close>

section \<open>State\<close>

definition SESSION_ALIVE_CHECK_TIME :: int where
  "SESSION_ALIVE_CHECK_TIME = 60"

text \<open>\<open>curTime\<close> and \<open>iceResult\<close> are not set by the constructor: \<open>None\<close> until they are.\<close>

record IceSession =
  is_id :: SessionID
  endpoint :: "nat option"
  request :: "nat option"
  curStatus :: ICE_OP
  curTime :: "int option"
  iceResult :: "string option"

record IceService =
  sessions :: "(SessionID, IceSession) omap"
  configInfo :: Value
  sendBuffer :: "byte list"
  testIP :: string
  forwards :: ForwardMap

record ice_env =
  env_lib :: clib
  env_time :: int
  new_ret :: int
  new_local :: "string option"
  new_endpoint :: nat
  nego_ret :: int
  stolen :: "(int \<times> int) list"
  result_ret :: int
  result_text :: string
  connected :: "nat \<Rightarrow> bool"
  relay_os1 :: udp_os
  relay_os2 :: udp_os
  resend_cfg :: string
  stack_padding :: "byte list"

datatype ice_effect =
    NewCaller string "nat option"
  | NewCallee string string "nat option"
  | StartNego nat string
  | EndpointFreed nat
  | CommandSent nat "byte list"
  | Relayed net_effect

type_synonym ice_result = "(IceService \<times> ice_effect list) outcome"

definition new_IceSession :: IceSession where
  "new_IceSession = \<lparr>is_id = 0, endpoint = None, request = None, curStatus = ICE_OP_NON,
     curTime = None, iceResult = None\<rparr>"

definition delete_IceSession :: "IceSession \<Rightarrow> ice_effect list" where
  "delete_IceSession is = (case endpoint is of None \<Rightarrow> [] | Some e \<Rightarrow> [EndpointFreed e])"

definition setStatus :: "int \<Rightarrow> ICE_OP \<Rightarrow> IceSession \<Rightarrow> IceSession" where
  "setStatus now status is = is\<lparr>curStatus := status, curTime := Some now\<rparr>"

fun checkStatus :: "ICE_OP \<Rightarrow> ICE_OP \<Rightarrow> bool" where
  "checkStatus cur ICE_OP_NON = False"
| "checkStatus cur ICE_OP_PREPARE_SESSION = (cur = ICE_OP_NON)"
| "checkStatus cur ICE_OP_LOCAL_INFO = (cur = ICE_OP_JOIN_SESSION \<or> cur = ICE_OP_PREPARE_SESSION)"
| "checkStatus cur ICE_OP_START_SESSION = (cur = ICE_OP_PREPARE_SESSION \<or> cur = ICE_OP_LOCAL_INFO)"
| "checkStatus cur ICE_OP_JOIN_SESSION = (cur = ICE_OP_NON)"
| "checkStatus cur ICE_OP_RELAY_SESSION = (cur = ICE_OP_ICE_RESULT)"
| "checkStatus cur _ = True"

definition put_session :: "SessionID \<Rightarrow> IceSession \<Rightarrow> IceService \<Rightarrow> IceService" where
  "put_session sid is S = S\<lparr>sessions := omap_put sid is (sessions S)\<rparr>"

definition erase_session :: "SessionID \<Rightarrow> IceService \<Rightarrow> IceService \<times> ice_effect list" where
  "erase_session sid S =
     (case omap_find (sessions S) sid of
        None \<Rightarrow> (S, [])
      | Some is \<Rightarrow> (S\<lparr>sessions := omap_erase sid (sessions S)\<rparr>, delete_IceSession is))"

text \<open>The endpoint that a successful \<open>eice_new_caller\<close> or \<open>eice_new_callee\<close> hands back.\<close>

definition got_endpoint :: "ice_env \<Rightarrow> nat option" where
  "got_endpoint E = (if new_ret E \<noteq> 0 then None else Some (new_endpoint E))"

text \<open>\<open>iceJsonConfig\<close>: what is handed to the eice library for a new endpoint.\<close>

definition iceJsonConfig :: "ice_env \<Rightarrow> IceService \<Rightarrow> string" where
  "iceJsonConfig E S = FastWriter_write (env_lib E) new_FastWriter (configInfo S)"

definition new_IceService :: "clib \<Rightarrow> string \<Rightarrow> string \<Rightarrow> byte list \<Rightarrow> ForwardMap \<Rightarrow> IceService option" where
  "new_IceService L ice_json_config test_xmpp_ip heap fwd =
     (case Reader_parse L Features_all ice_json_config nullValue of
        None \<Rightarrow> None
      | Some (ok, v, errors) \<Rightarrow>
          Some \<lparr>sessions = [], configInfo = v, sendBuffer = heap, testIP = test_xmpp_ip, forwards = fwd\<rparr>)"

section \<open>Sending a command\<close>

text \<open>\<open>data\<close> is \<open>None\<close> when the content is already in the send buffer.\<close>

definition sendCommand ::
  "ice_env \<Rightarrow> SessionID \<Rightarrow> IceSession \<Rightarrow> ICE_OP \<Rightarrow> byte list option \<Rightarrow> u32 \<Rightarrow> IceService \<Rightarrow> ice_result" where
  "sendCommand E sid is op data dataLen S =
     (case constructCommandBuffer (sendBuffer S) op (is_id is) data dataLen of
        Inl e \<Rightarrow> Inl e
      | Inr (False, buf) \<Rightarrow>
          Inr (put_session sid (setStatus (env_time E) ICE_OP_END is) (S\<lparr>sendBuffer := buf\<rparr>), [])
      | Inr (True, buf) \<Rightarrow>
          (case request is of
             None \<Rightarrow> Inl NullDeref
           | Some conn \<Rightarrow>
               Inr (put_session sid (setStatus (env_time E) op is) (S\<lparr>sendBuffer := buf\<rparr>),
                    [CommandSent conn (take (unat (dataLen + of_nat ICE_COMMAND_HEADER_LEN)) buf)])))"

text \<open>The library copies the local content with its NUL to the buffer behind the header.\<close>

definition write_local :: "string option \<Rightarrow> byte list \<Rightarrow> byte list outcome" where
  "write_local local buf =
     (case local of
        None \<Rightarrow> Inr buf
      | Some s \<Rightarrow>
          if ICE_COMMAND_HEADER_LEN + length (c_str s) + 1 > length buf then Inl OutOfBounds
          else Inr (put_at ICE_COMMAND_HEADER_LEN (bytes_of (c_str s) @ [0]) buf))"

section \<open>Commands from the conference control server\<close>

definition readJsonInfo :: "ice_env \<Rightarrow> string \<Rightarrow> IceService \<Rightarrow> IceService" where
  "readJsonInfo E json S =
     (if json = [] then S
      else case Reader_parse (env_lib E) Features_all json nullValue of
             Some (True, addrInfo, _) \<Rightarrow>
               (case isMember addrInfo ''compCount'' of
                  Inr True \<Rightarrow>
                    (case member_ref addrInfo ''comCount'' of
                       Inr (_, x) \<Rightarrow>
                         (case member_set (configInfo S) ''comCount'' x of
                            Inr c \<Rightarrow> S\<lparr>configInfo := c\<rparr>
                          | Inl _ \<Rightarrow> S)
                     | Inl _ \<Rightarrow> S)
                | _ \<Rightarrow> S)
           | _ \<Rightarrow> S)"

definition prepareSession :: "ice_env \<Rightarrow> IceCommand \<Rightarrow> nat \<Rightarrow> IceService \<Rightarrow> ice_result" where
  "prepareSession E command sender S0 =
     (let S = readJsonInfo E (text_of (cmd_content command)) S0;
          sid = cmd_sessionId command
      in if omap_find (sessions S) sid \<noteq> None then Inr (S, [])
         else
           let is = new_IceSession\<lparr>request := Some sender, is_id := sid\<rparr>;
               made = NewCaller (iceJsonConfig E S) (got_endpoint E)
           in (case write_local (new_local E) (sendBuffer S) of
                 Inl e \<Rightarrow> Inl e
               | Inr buf \<Rightarrow>
                   let S1 = S\<lparr>sendBuffer := buf\<rparr>
                   in if new_ret E \<noteq> 0
                      then Inr (put_session sid (setStatus (env_time E) ICE_OP_END is) S1, [made])
                      else
                        let content_len = (case new_local E of None \<Rightarrow> 0 | Some s \<Rightarrow> length s);
                            is1 = is\<lparr>endpoint := Some (new_endpoint E)\<rparr>
                        in (case sendCommand E sid is1 ICE_OP_LOCAL_INFO None (of_nat content_len)
                                   (put_session sid is1 S1) of
                              Inl e \<Rightarrow> Inl e
                            | Inr (S2, eff) \<Rightarrow> Inr (S2, made # eff))))"

definition startSession :: "ice_env \<Rightarrow> IceCommand \<Rightarrow> IceService \<Rightarrow> ice_result" where
  "startSession E command S =
     (let sid = cmd_sessionId command
      in case omap_find (sessions S) sid of
           None \<Rightarrow> Inr (S, [])
         | Some is \<Rightarrow>
             if \<not> checkStatus (curStatus is) ICE_OP_START_SESSION then Inr (S, [])
             else (case endpoint is of
                     None \<Rightarrow> Inl NullDeref
                   | Some e \<Rightarrow>
                       Inr (put_session sid (setStatus (env_time E) ICE_OP_START_SESSION is) S,
                            [StartNego e (text_of (cmd_content command))])))"

definition joinSession :: "ice_env \<Rightarrow> IceCommand \<Rightarrow> nat \<Rightarrow> IceService \<Rightarrow> ice_result" where
  "joinSession E command sender S0 =
     (let sid = cmd_sessionId command
      in if omap_find (sessions S0) sid \<noteq> None then Inr (S0, [])
         else
           let S = readJsonInfo E (text_of (cmd_content command)) S0;
               is = (setStatus (env_time E) ICE_OP_JOIN_SESSION new_IceSession)
                      \<lparr>is_id := sid, request := Some sender\<rparr>;
               made = NewCallee (iceJsonConfig E S) (text_of (cmd_content command)) (got_endpoint E)
           in (case write_local (new_local E) (sendBuffer S) of
                 Inl e \<Rightarrow> Inl e
               | Inr buf \<Rightarrow>
                   let S1 = S\<lparr>sendBuffer := buf\<rparr>
                   in if new_ret E \<noteq> 0 then Inr (put_session sid is S1, [made])
                      else
                        let content_len = (case new_local E of None \<Rightarrow> 0 | Some s \<Rightarrow> length s);
                            is1 = is\<lparr>endpoint := Some (new_endpoint E)\<rparr>
                        in (case sendCommand E sid is1 ICE_OP_LOCAL_INFO None (of_nat content_len)
                                   (put_session sid is1 S1) of
                              Inl e \<Rightarrow> Inl e
                            | Inr (S2, eff) \<Rightarrow>
                                Inr (put_session sid (setStatus (env_time E) ICE_OP_JOIN_SESSION is1) S2,
                                     made # eff))))"

definition stopSession :: "IceCommand \<Rightarrow> IceService \<Rightarrow> ice_result" where
  "stopSession command S =
     (let sid = cmd_sessionId command
      in case omap_find (sessions S) sid of
           None \<Rightarrow> Inr (S, [])
         | Some is \<Rightarrow>
             if op_value (curStatus is) > op_value ICE_OP_ICE_RESULT then Inr (erase_session sid S)
             else Inr (put_session sid (is\<lparr>curStatus := ICE_OP_END\<rparr>) S, []))"

section \<open>From the negotiation result to forwards\<close>

text \<open>
  \<open>eice_get_global_socket\<close> on the descriptors that eice has given up, as pairs of local port and
  descriptor: the first that matches is taken out.
\<close>

fun eice_get_global_socket :: "int \<Rightarrow> (int \<times> int) list \<Rightarrow> int \<times> (int \<times> int) list" where
  "eice_get_global_socket port [] = (-1, [])"
| "eice_get_global_socket port ((p, fd) # t) =
     (if port > 0 \<and> fd > 0 \<and> p = port then (fd, t)
      else let (r, t') = eice_get_global_socket port t in (r, (p, fd) # t'))"

text \<open>The value \<open>v[i]\<close>, read through the inserting \<open>operator[]\<close>.\<close>

definition vindex :: "Value \<Rightarrow> nat \<Rightarrow> Value throws" where
  "vindex v i = map_sum (\<lambda>e. e) snd (index_ref v i)"

definition read_pair ::
  "clib \<Rightarrow> Value \<Rightarrow> nat \<Rightarrow> (int \<times> int) list \<Rightarrow> (AddrPair \<times> (int \<times> int) list) throws" where
  "read_pair L pairs i socks =
     throw_bind (vindex pairs i) (\<lambda>p.
     throw_bind (vmember p ''local'') (\<lambda>loc.
     throw_bind (throw_bind (vmember loc ''port'') asInt) (\<lambda>port.
     let (fd, socks') = eice_get_global_socket port socks in
     throw_bind (throw_bind (vmember loc ''ip'') (asString (print_double L))) (\<lambda>lip.
     throw_bind (vmember p ''remote'') (\<lambda>rem.
     throw_bind (throw_bind (vmember rem ''ip'') (asString (print_double L))) (\<lambda>rip.
     throw_bind (throw_bind (vmember rem ''port'') asInt) (\<lambda>rport.
       Inr (\<lparr>local_ip = lip, local_port = port, remote_ip = rip, remote_port = rport, local_fd = fd\<rparr>,
            socks'))))))))"

text \<open>The loop over the pairs; an exception keeps the pairs read before it.\<close>

fun read_pairs :: "clib \<Rightarrow> Value \<Rightarrow> nat \<Rightarrow> nat \<Rightarrow> (int \<times> int) list \<Rightarrow> AddrPair list" where
  "read_pairs L pairs i 0 socks = []"
| "read_pairs L pairs i (Suc k) socks =
     (case read_pair L pairs i socks of
        Inl e \<Rightarrow> []
      | Inr (ap, socks') \<Rightarrow> ap # read_pairs L pairs (Suc i) k socks')"

definition get_addr_pairs_from_result :: "ice_env \<Rightarrow> string \<Rightarrow> AddrPair list" where
  "get_addr_pairs_from_result E caller_result =
     (case Reader_parse (env_lib E) Features_all caller_result nullValue of
        Some (True, caller_value, _) \<Rightarrow>
          (case vmember caller_value ''pairs'' of
             Inl e \<Rightarrow> []
           | Inr pairs \<Rightarrow>
               if isNull pairs then []
               else read_pairs (env_lib E) pairs 0 (Value_size pairs) (stolen E))
      | _ \<Rightarrow> [])"

text \<open>
  Reading a peer address and starting a forward on it. The first component is false when reading
  the address has thrown. \<open>AF_INET\<close> is 2; the padding of the address is whatever was on the stack.
\<close>

definition start_media ::
  "ice_env \<Rightarrow> udp_os \<Rightarrow> MEDIA_TYPE \<Rightarrow> Value \<Rightarrow> string \<Rightarrow> AddrPair \<Rightarrow> ForwardMap
    \<Rightarrow> (bool \<times> ForwardMap \<times> net_effect list) outcome" where
  "start_media E os media addrInfo key pair fwd =
     (case throw_bind (throw_bind (throw_bind (vmember addrInfo key) (\<lambda>a. vmember a ''port'')) asUInt)
             (\<lambda>port. throw_bind (throw_bind (throw_bind (vmember addrInfo key) (\<lambda>a. vmember a ''ip''))
                (asString (print_double (env_lib E)))) (\<lambda>ip. Inr (port, ip))) of
        Inl e \<Rightarrow> Inr (False, fwd, [])
      | Inr (port, ip) \<Rightarrow>
          (case startForward os (resend_cfg E) media pair
                  \<lparr>sin_family = 2, sin_port = htons (of_int port), sin_addr = os_inet_addr os ip,
                   sin_zero = stack_padding E\<rparr> fwd of
             Inl e \<Rightarrow> Inl e
           | Inr (fwd', eff) \<Rightarrow> Inr (True, fwd', eff)))"

definition test_remote :: "IceService \<Rightarrow> int \<Rightarrow> AddrPair \<Rightarrow> AddrPair" where
  "test_remote S port pair =
     (if testIP S \<noteq> [] then pair\<lparr>remote_ip := ''172.17.2.51'', remote_port := port\<rparr> else pair)"

text \<open>The audio forward on the first pair, or the video forward when there is no audio.\<close>

definition start_first ::
  "ice_env \<Rightarrow> Value \<Rightarrow> AddrPair list \<Rightarrow> IceService \<Rightarrow> (bool \<times> ForwardMap \<times> net_effect list) outcome" where
  "start_first E addrInfo addr_pairs S =
     (if isMember addrInfo ''audio'' = Inr True
      then start_media E (relay_os1 E) MEDIA_AUDIO addrInfo ''audio''
             (test_remote S 10000 (hd addr_pairs)) (forwards S)
      else start_media E (relay_os1 E) MEDIA_VIDEO addrInfo ''video'' (hd addr_pairs) (forwards S))"

text \<open>Then the video forward on the third pair: every other pair is for RTCP.\<close>

definition start_forwards ::
  "ice_env \<Rightarrow> Value \<Rightarrow> AddrPair list \<Rightarrow> IceService \<Rightarrow> (ForwardMap \<times> net_effect list) outcome" where
  "start_forwards E addrInfo addr_pairs S =
     (case start_first E addrInfo addr_pairs S of
        Inl e \<Rightarrow> Inl e
      | Inr (ok, fwd1, eff1) \<Rightarrow>
          if \<not> ok \<or> \<not> length addr_pairs > 2 then Inr (fwd1, eff1)
          else (case start_media E (relay_os2 E) MEDIA_VIDEO addrInfo ''video''
                       (test_remote S 10002 (addr_pairs ! 2)) fwd1 of
                  Inl e \<Rightarrow> Inl e
                | Inr (ok2, fwd2, eff2) \<Rightarrow> Inr (fwd2, eff1 @ eff2)))"

text \<open>
  The body of the \<open>try\<close> block. \<open>None\<close> is its \<open>break\<close>, which leaves the session in the table;
  otherwise the forwards and what was done to them, complete or up to the exception.
\<close>

definition relay_forwards ::
  "ice_env \<Rightarrow> string \<Rightarrow> AddrPair list \<Rightarrow> IceService \<Rightarrow> (ForwardMap \<times> net_effect list) option outcome" where
  "relay_forwards E content addr_pairs S =
     (case Reader_parse (env_lib E) Features_all content nullValue of
        Some (True, addrInfo, _) \<Rightarrow>
          (case throw_bind (vmember addrInfo ''result'') asInt of
             Inl e \<Rightarrow> Inr (Some (forwards S, []))
           | Inr result \<Rightarrow>
               if result \<noteq> 0 then Inr None
               else map_sum (\<lambda>e. e) Some (start_forwards E addrInfo addr_pairs S))
      | _ \<Rightarrow> Inr None)"

text \<open>
  \<open>ICE_OP_RELAY_SESSION\<close>. \<open>update_steal_sockets\<close> and \<open>eice_get_global_socket\<close> go through the
  endpoint pointer; the result of the negotiation is read as a C string.
\<close>

definition relaySession :: "ice_env \<Rightarrow> IceCommand \<Rightarrow> IceService \<Rightarrow> ice_result" where
  "relaySession E command S =
     (let sid = cmd_sessionId command
      in case omap_find (sessions S) sid of
           None \<Rightarrow> Inr (S, [])
         | Some is \<Rightarrow>
             if \<not> checkStatus (curStatus is) ICE_OP_RELAY_SESSION then Inr (S, [])
             else if cmd_content command = [] then Inr (S, [])
             else (case (endpoint is, iceResult is) of
               (None, _) \<Rightarrow> Inl NullDeref
             | (Some e, None) \<Rightarrow> Inl Uninitialised
             | (Some e, Some result) \<Rightarrow>
                 let addr_pairs = get_addr_pairs_from_result E result
                 in if addr_pairs = [] then Inr (S, [])
                    else
                      let S1 = put_session sid (is\<lparr>endpoint := None\<rparr>) S
                      in (case relay_forwards E (text_of (cmd_content command)) addr_pairs S1 of
                            Inl c \<Rightarrow> Inl c
                          | Inr None \<Rightarrow> Inr (S1, [EndpointFreed e])
                          | Inr (Some (fwd, eff)) \<Rightarrow>
                              let (S2, gone) = erase_session sid (S1\<lparr>forwards := fwd\<rparr>)
                              in Inr (S2, EndpointFreed e # map Relayed eff @ gone))))"

definition handleIceCommand :: "ice_env \<Rightarrow> IceCommand \<Rightarrow> nat \<Rightarrow> IceService \<Rightarrow> ice_result" where
  "handleIceCommand E command sender S =
     (case op_cast (cmd_op command) of
        Some ICE_OP_PREPARE_SESSION \<Rightarrow> prepareSession E command sender S
      | Some ICE_OP_START_SESSION \<Rightarrow> startSession E command S
      | Some ICE_OP_JOIN_SESSION \<Rightarrow> joinSession E command sender S
      | Some ICE_OP_RELAY_SESSION \<Rightarrow> relaySession E command S
      | Some ICE_OP_STOP_SESSION \<Rightarrow> stopSession command S
      | _ \<Rightarrow> Inr (S, []))"

section \<open>Calls from eice and the timer\<close>

fun findSesssionByEp :: "(SessionID, IceSession) omap \<Rightarrow> nat \<Rightarrow> (SessionID \<times> IceSession) option" where
  "findSesssionByEp [] ep = None"
| "findSesssionByEp ((sid, is) # m) ep =
     (if endpoint is = Some ep then Some (sid, is) else findSesssionByEp m ep)"

text \<open>The result is copied into \<open>iceResult\<close>, an array of \<open>MAX_COMMAND_LEN\<close> bytes, with \<open>strcpy\<close>.\<close>

definition getNegoResult :: "ice_env \<Rightarrow> nat \<Rightarrow> IceService \<Rightarrow> ice_result" where
  "getNegoResult E obj S =
     (case findSesssionByEp (sessions S) obj of
        None \<Rightarrow> Inr (S, [])
      | Some (sid, is) \<Rightarrow>
          if \<not> (result_ret E = 0 \<and> length (result_text E) > 0) then Inl AssertFailed
          else if length (result_text E) + 1 > MAX_COMMAND_LEN then Inl OutOfBounds
          else
            let is1 = is\<lparr>iceResult := Some (result_text E)\<rparr>;
                S1 = put_session sid is1 S
            in (case request is1 of
                  None \<Rightarrow> Inl AssertFailed
                | Some conn \<Rightarrow>
                    if \<not> connected E conn then Inr (S1, [])
                    else sendCommand E sid is1 ICE_OP_ICE_RESULT
                           (Some (bytes_of (result_text E) @ replicate (MAX_COMMAND_LEN - length (result_text E)) 0))
                           (of_nat (length (result_text E))) S1))"

text \<open>A time that was never set is read as is; one session is erased per tick.\<close>

fun timeout_loop :: "int \<Rightarrow> (SessionID, IceSession) omap \<Rightarrow> SessionID option outcome" where
  "timeout_loop now [] = Inr None"
| "timeout_loop now ((sid, is) # m) =
     (case curTime is of
        None \<Rightarrow> Inl Uninitialised
      | Some t \<Rightarrow>
          if (curStatus is = ICE_OP_END \<and> now - t > SESSION_ALIVE_CHECK_TIME)
             \<or> now - t > SESSION_ALIVE_CHECK_TIME * 2
          then Inr (Some sid) else timeout_loop now m)"

definition ice_timeout_cb :: "int \<Rightarrow> IceService \<Rightarrow> ice_result" where
  "ice_timeout_cb now S =
     (case timeout_loop now (sessions S) of
        Inl e \<Rightarrow> Inl e
      | Inr None \<Rightarrow> Inr (S, [])
      | Inr (Some sid) \<Rightarrow> Inr (erase_session sid S))"

section \<open>The table of sessions\<close>

text \<open>Sessions are filed like forwards: a key in use is never taken again.\<close>

interpretation session_table: updatable_table omap_find omap_put
    "omap_of :: (SessionID, IceSession) omap \<Rightarrow> bool" omap_erase
  by unfold_locales (auto simp: omap_of_put omap_of_erase omap_find_erase)

definition session_ok :: "SessionID \<Rightarrow> IceSession \<Rightarrow> bool" where
  "session_ok sid is \<longleftrightarrow> is_id is = sid \<and> request is \<noteq> None \<and> curTime is \<noteq> None
     \<and> curStatus is \<in> {ICE_OP_LOCAL_INFO, ICE_OP_JOIN_SESSION, ICE_OP_START_SESSION,
                       ICE_OP_ICE_RESULT, ICE_OP_END}
     \<and> (curStatus is = ICE_OP_LOCAL_INFO \<longrightarrow> endpoint is \<noteq> None)
     \<and> (curStatus is = ICE_OP_ICE_RESULT \<longrightarrow> iceResult is \<noteq> None)"

text \<open>Sessions that have an endpoint have one each.\<close>

definition own_endpoint :: "(SessionID, IceSession) omap \<Rightarrow> SessionID \<Rightarrow> nat option \<Rightarrow> bool" where
  "own_endpoint m sid ep \<longleftrightarrow> (\<forall>sid' is' e. ep = Some e \<and> omap_find m sid' = Some is' \<and> endpoint is' = Some e
     \<longrightarrow> sid' = sid)"

definition ice_inv :: "IceService \<Rightarrow> bool" where
  "ice_inv S \<longleftrightarrow> omap_of (sessions S) \<and> length (sendBuffer S) = MAX_COMMAND_LEN
     \<and> forwards_ok (forwards S)
     \<and> (\<forall>sid is. omap_find (sessions S) sid = Some is \<longrightarrow>
          session_ok sid is \<and> own_endpoint (sessions S) sid (endpoint is))"

lemma put_session_find [simp]:
  "omap_find (sessions (put_session sid is S)) sid' = (if sid' = sid then Some is else omap_find (sessions S) sid')"
  by (simp add: put_session_def)

lemma ice_inv_config [simp]: "ice_inv (S\<lparr>configInfo := c\<rparr>) \<longleftrightarrow> ice_inv S"
  by (simp add: ice_inv_def)

section \<open>Steps of the service\<close>

text \<open>One session filed anew or dropped, everything else as it was.\<close>

definition changes :: "IceService \<Rightarrow> SessionID \<Rightarrow> IceSession option \<Rightarrow> ForwardMap \<Rightarrow> IceService \<Rightarrow> bool" where
  "changes S sid x fwd S' \<longleftrightarrow> omap_of (sessions S') \<and> length (sendBuffer S') = length (sendBuffer S)
     \<and> forwards S' = fwd \<and> (\<forall>k. omap_find (sessions S') k = (if k = sid then x else omap_find (sessions S) k))"

lemma changes_agrees:
  "session_table.agrees (sessions S') ((omap_find (sessions S))(sid := x)) \<Longrightarrow> length (sendBuffer S') = length (sendBuffer S)
    \<Longrightarrow> forwards S' = fwd \<Longrightarrow> changes S sid x fwd S'"
  by (simp add: changes_def session_table.agrees_def)

lemma changes_put:
  "omap_of (sessions S1) \<Longrightarrow> sessions S1 = sessions S \<Longrightarrow> length (sendBuffer S1) = length (sendBuffer S)
    \<Longrightarrow> forwards S1 = fwd \<Longrightarrow> changes S sid (Some is) fwd (put_session sid is S1)"
  by (intro changes_agrees) (simp_all add: put_session_def session_table.agrees_intros)

lemma changes_erase:
  assumes "omap_of (sessions S)"
  shows "changes S sid None (forwards S) (fst (erase_session sid S))"
proof (cases "omap_find (sessions S) sid")
  case None
  then show ?thesis using assms by (auto simp: erase_session_def changes_def)
next
  case (Some "is")
  then show ?thesis using assms
    by (intro changes_agrees) (simp_all add: erase_session_def session_table.agrees_intros)
qed

lemma changes_trans:
  "changes S sid x fwd1 S1 \<Longrightarrow> changes S1 sid y fwd2 S2 \<Longrightarrow> changes S sid y fwd2 S2"
  by (simp add: changes_def)

lemma changes_inv:
  assumes "ice_inv S" "changes S sid x fwd S'" "forwards_ok fwd"
    and "\<And>is. x = Some is \<Longrightarrow> session_ok sid is \<and> own_endpoint (sessions S) sid (endpoint is)"
  shows "ice_inv S'"
proof -
  have "session_ok k is \<and> own_endpoint (sessions S') k (endpoint is)"
    if "omap_find (sessions S') k = Some is" for k "is"
    using assms that unfolding changes_def ice_inv_def own_endpoint_def
    by (cases "k = sid") (auto split: if_splits)
  then show ?thesis using assms by (simp add: ice_inv_def changes_def)
qed

lemma constructCommandBuffer_length:
  "constructCommandBuffer buf op sid data n = Inr (ok, buf') \<Longrightarrow> length buf' = length buf"
  by (auto simp: constructCommandBuffer_def Let_def wire_consts split: if_splits option.splits)

lemma sendCommand_cases:
  assumes "sendCommand E sid is op data n S = Inr (S', eff)" "omap_of (sessions S)"
  obtains (sent) conn d where "changes S sid (Some (setStatus (env_time E) op is)) (forwards S) S'"
      "request is = Some conn" "eff = [CommandSent conn d]"
    | (too_long) "changes S sid (Some (setStatus (env_time E) ICE_OP_END is)) (forwards S) S'" "eff = []"
proof (cases "constructCommandBuffer (sendBuffer S) op (is_id is) data n")
  case (Inl e)
  then show thesis using assms(1) by (simp add: sendCommand_def)
next
  case (Inr r)
  obtain ok buf where r: "r = (ok, buf)" by (cases r)
  with Inr have b: "length buf = length (sendBuffer S)" by (simp add: constructCommandBuffer_length)
  show thesis
  proof (cases ok)
    case True
    then obtain conn where "request is = Some conn" using assms(1) Inr r
      by (cases "request is") (simp_all add: sendCommand_def)
    with True show thesis using assms(1) Inr r b
      by (intro sent [of conn]) (auto simp: sendCommand_def intro!: changes_put assms(2))
  next
    case False
    then show thesis using assms(1) Inr r b
      by (intro too_long) (auto simp: sendCommand_def intro!: changes_put assms(2))
  qed
qed

lemma write_local_length: "write_local l buf = Inr buf' \<Longrightarrow> length buf' = length buf"
  by (auto simp: write_local_def wire_consts split: option.splits if_splits)

lemma readJsonInfo_fields [simp]:
  "sessions (readJsonInfo E j S) = sessions S" "sendBuffer (readJsonInfo E j S) = sendBuffer S"
  "forwards (readJsonInfo E j S) = forwards S" "ice_inv (readJsonInfo E j S) = ice_inv S"
  by (simp_all add: readJsonInfo_def split: option.split prod.split sum.split bool.split)

lemma own_endpoint_None [simp]: "own_endpoint m sid None"
  by (simp add: own_endpoint_def)

definition env_ok :: "ice_env \<Rightarrow> IceService \<Rightarrow> bool" where
  "env_ok E S \<longleftrightarrow> (\<forall>sid is. omap_find (sessions S) sid = Some is \<longrightarrow> endpoint is \<noteq> Some (new_endpoint E))
     \<and> length (os_stack (relay_os1 E)) = MAX_UDP_PACKET_LEN
     \<and> length (os_stack (relay_os2 E)) = MAX_UDP_PACKET_LEN"

inductive ice_step :: "IceService \<Rightarrow> ice_effect list \<Rightarrow> IceService \<Rightarrow> bool" where
  command: "handleIceCommand E command sender S = Inr (S', eff) \<Longrightarrow> env_ok E S \<Longrightarrow> ice_step S eff S'"
| result: "getNegoResult E obj S = Inr (S', eff) \<Longrightarrow> ice_step S eff S'"
| timer: "ice_timeout_cb now S = Inr (S', eff) \<Longrightarrow> ice_step S eff S'"
| media: "fs_step (forwards S) eff fwd \<Longrightarrow> ice_step S (map Relayed eff) (S\<lparr>forwards := fwd\<rparr>)"

text \<open>A run of the service from its start, with all that it has done.\<close>

inductive ice_run :: "ice_effect list \<Rightarrow> IceService \<Rightarrow> bool" where
  init: "new_IceService L cfg ip heap [] = Some S \<Longrightarrow> length heap = MAX_COMMAND_LEN \<Longrightarrow> ice_run [] S"
| step: "ice_run tr S \<Longrightarrow> ice_step S eff S' \<Longrightarrow> ice_run (tr @ eff) S'"

section \<open>The life of a session\<close>

text \<open>
  The specification: what one session is to the outside, its status and the endpoint it owns, and
  the moves it makes. \<open>None\<close> is a session that does not exist.
\<close>

type_synonym life = "(ICE_OP \<times> nat option) option"

definition life_of :: "IceService \<Rightarrow> SessionID \<Rightarrow> life" where
  "life_of S sid = map_option (\<lambda>is. (curStatus is, endpoint is)) (omap_find (sessions S) sid)"

definition freed :: "nat option \<Rightarrow> ice_effect list" where
  "freed ep = (case ep of None \<Rightarrow> [] | Some e \<Rightarrow> [EndpointFreed e])"

inductive life_step :: "life \<Rightarrow> ice_effect list \<Rightarrow> life \<Rightarrow> bool" where
  ignored: "life_step l [] l"
| prepared: "life_step None [NewCaller c (Some e), CommandSent conn d] (Some (ICE_OP_LOCAL_INFO, Some e))"
| prepare_too_long: "life_step None [NewCaller c (Some e)] (Some (ICE_OP_END, Some e))"
| prepare_failed: "life_step None [NewCaller c None] (Some (ICE_OP_END, None))"
| joined: "sent \<in> {[], [CommandSent conn d]} \<Longrightarrow>
    life_step None (NewCallee c r (Some e) # sent) (Some (ICE_OP_JOIN_SESSION, Some e))"
| join_failed: "life_step None [NewCallee c r None] (Some (ICE_OP_JOIN_SESSION, None))"
| started: "life_step (Some (ICE_OP_LOCAL_INFO, Some e)) [StartNego e r] (Some (ICE_OP_START_SESSION, Some e))"
| negotiated: "life_step (Some (st, Some e)) [CommandSent conn d] (Some (ICE_OP_ICE_RESULT, Some e))"
| result_too_long: "life_step (Some (st, Some e)) [] (Some (ICE_OP_END, Some e))"
| relayed: "life_step (Some (ICE_OP_ICE_RESULT, Some e)) (EndpointFreed e # map Relayed eff) None"
| relay_refused: "life_step (Some (ICE_OP_ICE_RESULT, Some e)) [EndpointFreed e] (Some (ICE_OP_ICE_RESULT, None))"
| stopped: "st \<noteq> ICE_OP_END \<Longrightarrow> life_step (Some (st, ep)) [] (Some (ICE_OP_END, ep))"
| gone: "life_step (Some (st, ep)) (freed ep) None"
| forwarding: "life_step l (map Relayed eff) l"

text \<open>A step of the service moves one session along its life and keeps it well formed.\<close>

definition moves :: "IceService \<Rightarrow> SessionID \<Rightarrow> ice_effect list \<Rightarrow> IceService \<Rightarrow> bool" where
  "moves S sid eff S' \<longleftrightarrow> (\<exists>x fwd. changes S sid x fwd S' \<and> forwards_ok fwd
     \<and> (\<forall>is. x = Some is \<longrightarrow> session_ok sid is \<and> own_endpoint (sessions S) sid (endpoint is))
     \<and> life_step (life_of S sid) eff (map_option (\<lambda>is. (curStatus is, endpoint is)) x))"

lemma moves_inv: "moves S sid eff S' \<Longrightarrow> ice_inv S \<Longrightarrow> ice_inv S'"
  by (auto simp: moves_def intro: changes_inv)

lemma moves_life: "moves S sid eff S' \<Longrightarrow> life_step (life_of S sid) eff (life_of S' sid)
    \<and> (\<forall>k. k \<noteq> sid \<longrightarrow> life_of S' k = life_of S k)"
  by (auto simp: moves_def changes_def life_of_def)

lemma moves_put:
  assumes "changes S sid (Some is) (forwards S) S'" "ice_inv S" "session_ok sid is"
    and "own_endpoint (sessions S) sid (endpoint is)"
    and "life_step (life_of S sid) eff (Some (curStatus is, endpoint is))"
  shows "moves S sid eff S'"
  using assms unfolding moves_def ice_inv_def by (intro exI [of _ "Some is"] exI [of _ "forwards S"]) simp

lemma ice_inv_omap: "ice_inv S \<Longrightarrow> omap_of (sessions S)"
  by (simp add: ice_inv_def)

lemma moves_filed:
  assumes "S' = put_session sid is S1" "ice_inv S" "session_ok sid is"
    and "sessions S1 = sessions S" "length (sendBuffer S1) = length (sendBuffer S)" "forwards S1 = forwards S"
    and "own_endpoint (sessions S) sid (endpoint is)"
    and "life_step (life_of S sid) eff (Some (curStatus is, endpoint is))"
  shows "moves S sid eff S'"
  using assms ice_inv_omap [OF assms(2)] by (intro moves_put [of S sid "is"]) (simp_all add: changes_put)

lemma ice_inv_session: "ice_inv S \<Longrightarrow> omap_find (sessions S) sid = Some is \<Longrightarrow>
    session_ok sid is \<and> own_endpoint (sessions S) sid (endpoint is)"
  by (simp add: ice_inv_def)

lemma moves_idle:
  assumes "ice_inv S" "sessions S' = sessions S" "sendBuffer S' = sendBuffer S" "forwards S' = forwards S"
  shows "moves S sid [] S'"
  using assms ice_inv_session [OF assms(1), of sid] life_step.ignored [of "life_of S sid"] unfolding moves_def
  by (intro exI [of _ "omap_find (sessions S) sid"] exI [of _ "forwards S"])
     (simp add: changes_def ice_inv_def life_of_def)

lemma moves_erase:
  assumes "ice_inv S" "omap_find (sessions S) sid = Some is"
  shows "moves S sid (delete_IceSession is) (fst (erase_session sid S))"
  using assms changes_erase [of S sid] life_step.gone [of "curStatus is" "endpoint is"] unfolding moves_def
  by (intro exI [of _ None] exI [of _ "forwards S"])
     (simp add: ice_inv_def life_of_def delete_IceSession_def freed_def)

lemma env_ok_own: "env_ok E S \<Longrightarrow> own_endpoint (sessions S) sid (Some (new_endpoint E))"
  by (auto simp: env_ok_def own_endpoint_def)

text \<open>A new session: what the two commands that make one have in common.\<close>

lemma new_session_sent:
  assumes "ice_inv S" "env_ok E S" "omap_find (sessions S) sid = None"
    and "sessions S1 = sessions S" "length (sendBuffer S1) = length (sendBuffer S)" "forwards S1 = forwards S"
    and "is1 = is\<lparr>endpoint := Some (new_endpoint E)\<rparr>" "is_id is = sid" "request is = Some conn"
    and "sendCommand E sid is1 ICE_OP_LOCAL_INFO None n (put_session sid is1 S1) = Inr (S2, eff)"
  obtains st where "changes S sid (Some (setStatus (env_time E) st is1)) (forwards S) S2"
    "session_ok sid (setStatus (env_time E) st is1)" "own_endpoint (sessions S) sid (Some (new_endpoint E))"
    "st = ICE_OP_LOCAL_INFO \<and> (\<exists>d. eff = [CommandSent conn d]) \<or> st = ICE_OP_END \<and> eff = []"
proof -
  have o: "omap_of (sessions S1)" using assms(1,4) by (simp add: ice_inv_omap)
  have c: "changes S sid (Some is1) (forwards S) (put_session sid is1 S1)"
    using assms(4-6) o by (intro changes_put)
  note e = env_ok_own [OF assms(2), of sid]
  have k: "session_ok sid (setStatus (env_time E) st is1)" if "st \<in> {ICE_OP_LOCAL_INFO, ICE_OP_END}" for st
    using that assms(7-9) by (auto simp: session_ok_def setStatus_def)
  from c have "omap_of (sessions (put_session sid is1 S1))" by (simp add: changes_def)
  with assms(10) show thesis
  proof (cases rule: sendCommand_cases)
    case (sent conn' d)
    from changes_trans [OF c sent(1)] k [of ICE_OP_LOCAL_INFO] e sent(2,3) assms(6,7,9) show thesis
      by (intro that [of ICE_OP_LOCAL_INFO]) (simp_all add: put_session_def)
  next
    case too_long
    from changes_trans [OF c too_long(1)] k [of ICE_OP_END] e too_long(2) assms(6) show thesis
      by (intro that [of ICE_OP_END]) (simp_all add: put_session_def)
  qed
qed

lemma life_of_None: "omap_find (sessions S) sid = None \<Longrightarrow> life_of S sid = None"
  by (simp add: life_of_def)

lemma prepareSession_moves:
  assumes S: "ice_inv S" "env_ok E S" and r: "prepareSession E command conn S = Inr (S', eff)"
  shows "moves S (cmd_sessionId command) eff S'"
proof (cases "omap_find (sessions S) (cmd_sessionId command)")
  case (Some "is")
  then have "S' = readJsonInfo E (text_of (cmd_content command)) S" "eff = []"
    using r by (simp_all add: prepareSession_def Let_def)
  then show ?thesis using S by (simp add: moves_idle)
next
  case None
  let ?sid = "cmd_sessionId command"
  let ?is = "new_IceSession\<lparr>request := Some conn, is_id := ?sid\<rparr>"
  let ?S = "readJsonInfo E (text_of (cmd_content command)) S"
  obtain buf where b: "write_local (new_local E) (sendBuffer S) = Inr buf"
    using r None by (cases "write_local (new_local E) (sendBuffer S)") (simp_all add: prepareSession_def Let_def)
  note lb = write_local_length [OF b]
  show ?thesis
  proof (cases "new_ret E = 0")
    case False
    then have x: "S' = put_session ?sid (setStatus (env_time E) ICE_OP_END ?is) (?S\<lparr>sendBuffer := buf\<rparr>)"
      "eff = [NewCaller (iceJsonConfig E ?S) None]"
      using r None b by (simp_all add: prepareSession_def Let_def got_endpoint_def)
    from S None lb x(2) show ?thesis
      by (intro moves_filed [OF x(1) S(1)]) (simp_all add: session_ok_def setStatus_def new_IceSession_def life_of_None
        life_step.prepare_failed)
  next
    case True
    then obtain n S2 eff2 where s: "sendCommand E ?sid (?is\<lparr>endpoint := Some (new_endpoint E)\<rparr>) ICE_OP_LOCAL_INFO
        None n (put_session ?sid (?is\<lparr>endpoint := Some (new_endpoint E)\<rparr>) (?S\<lparr>sendBuffer := buf\<rparr>)) = Inr (S2, eff2)"
      "S' = S2" "eff = NewCaller (iceJsonConfig E ?S) (Some (new_endpoint E)) # eff2"
      using r None b by (auto simp: prepareSession_def Let_def got_endpoint_def split: sum.splits)
    from S None _ _ _ refl _ _ s(1) show ?thesis
    proof (rule new_session_sent)
      let ?is2 = "\<lambda>st. setStatus (env_time E) st (?is\<lparr>endpoint := Some (new_endpoint E)\<rparr>)"
      fix st assume st: "changes S ?sid (Some (?is2 st)) (forwards S) S2" "session_ok ?sid (?is2 st)"
        "own_endpoint (sessions S) ?sid (Some (new_endpoint E))"
        "st = ICE_OP_LOCAL_INFO \<and> (\<exists>d. eff2 = [CommandSent conn d]) \<or> st = ICE_OP_END \<and> eff2 = []"
      have "life_step None eff (Some (st, Some (new_endpoint E)))" using st(4)
        by (auto simp: s(3) intro: life_step.prepared life_step.prepare_too_long)
      with st s(2) S(1) None show ?thesis
        by (intro moves_put [of S ?sid "?is2 st"]) (simp_all add: setStatus_def life_of_None)
    qed (use lb in auto)
  qed
qed

lemma joinSession_moves:
  assumes S: "ice_inv S" "env_ok E S" and r: "joinSession E command conn S = Inr (S', eff)"
  shows "moves S (cmd_sessionId command) eff S'"
proof (cases "omap_find (sessions S) (cmd_sessionId command)")
  case (Some "is")
  then have "S' = S" "eff = []" using r by (simp_all add: joinSession_def Let_def)
  then show ?thesis using S by (simp add: moves_idle)
next
  case None
  let ?sid = "cmd_sessionId command"
  let ?is = "(setStatus (env_time E) ICE_OP_JOIN_SESSION new_IceSession)\<lparr>is_id := ?sid, request := Some conn\<rparr>"
  let ?is1 = "?is\<lparr>endpoint := Some (new_endpoint E)\<rparr>"
  let ?S = "readJsonInfo E (text_of (cmd_content command)) S"
  obtain buf where b: "write_local (new_local E) (sendBuffer S) = Inr buf"
    using r None by (cases "write_local (new_local E) (sendBuffer S)") (simp_all add: joinSession_def Let_def)
  note lb = write_local_length [OF b]
  show ?thesis
  proof (cases "new_ret E = 0")
    case False
    then have x: "S' = put_session ?sid ?is (?S\<lparr>sendBuffer := buf\<rparr>)"
      "eff = [NewCallee (iceJsonConfig E ?S) (text_of (cmd_content command)) None]"
      using r None b by (simp_all add: joinSession_def Let_def got_endpoint_def)
    from S None lb x(2) show ?thesis
      by (intro moves_filed [OF x(1) S(1)]) (simp_all add: session_ok_def setStatus_def new_IceSession_def life_of_None
        life_step.join_failed)
  next
    case True
    then obtain n S2 eff2 where s: "sendCommand E ?sid ?is1 ICE_OP_LOCAL_INFO
        None n (put_session ?sid ?is1 (?S\<lparr>sendBuffer := buf\<rparr>)) = Inr (S2, eff2)"
      "S' = put_session ?sid (setStatus (env_time E) ICE_OP_JOIN_SESSION ?is1) S2"
      "eff = NewCallee (iceJsonConfig E ?S) (text_of (cmd_content command)) (Some (new_endpoint E)) # eff2"
      using r None b by (auto simp: joinSession_def Let_def got_endpoint_def split: sum.splits)
    from S None _ _ _ refl _ _ s(1) show ?thesis
    proof (rule new_session_sent)
      let ?is2 = "\<lambda>st. setStatus (env_time E) st ?is1"
      fix st assume st: "changes S ?sid (Some (?is2 st)) (forwards S) S2" "session_ok ?sid (?is2 st)"
        "own_endpoint (sessions S) ?sid (Some (new_endpoint E))"
        "st = ICE_OP_LOCAL_INFO \<and> (\<exists>d. eff2 = [CommandSent conn d]) \<or> st = ICE_OP_END \<and> eff2 = []"
      from st(1) have "changes S2 ?sid (Some (?is2 ICE_OP_JOIN_SESSION)) (forwards S) S'"
        unfolding s(2) by (intro changes_put) (simp_all add: changes_def)
      from changes_trans [OF st(1) this] have c: "changes S ?sid (Some (?is2 ICE_OP_JOIN_SESSION)) (forwards S) S'" .
      from st(4) obtain d where "eff2 \<in> {[], [CommandSent conn d]}" by auto
      then have "life_step None eff (Some (ICE_OP_JOIN_SESSION, Some (new_endpoint E)))"
        unfolding s(3) by (rule life_step.joined)
      with c st(2,3) S(1) None show ?thesis
        by (intro moves_put [of S ?sid "?is2 ICE_OP_JOIN_SESSION"])
           (simp_all add: setStatus_def session_ok_def life_of_None)
    qed (use lb in \<open>auto simp: setStatus_def\<close>)
  qed
qed

lemma startSession_moves:
  assumes S: "ice_inv S" and r: "startSession E command S = Inr (S', eff)"
  shows "moves S (cmd_sessionId command) eff S'"
proof -
  let ?sid = "cmd_sessionId command"
  consider (idle) "S' = S" "eff = []"
    | (start) "is" e where "omap_find (sessions S) ?sid = Some is" "checkStatus (curStatus is) ICE_OP_START_SESSION"
        "endpoint is = Some e" "S' = put_session ?sid (setStatus (env_time E) ICE_OP_START_SESSION is) S"
        "eff = [StartNego e (text_of (cmd_content command))]"
    using r by (fastforce simp: startSession_def Let_def split: option.splits if_splits)
  then show ?thesis
  proof cases
    case idle
    then show ?thesis using S by (simp add: moves_idle)
  next
    case start
    with ice_inv_session [OF S start(1)] have "curStatus is = ICE_OP_LOCAL_INFO"
      by (auto simp: session_ok_def)
    with start ice_inv_session [OF S start(1)] show ?thesis
      by (intro moves_filed [OF start(4) S])
         (auto simp: session_ok_def setStatus_def life_of_def intro: life_step.started)
  qed
qed

lemma stopSession_moves:
  assumes S: "ice_inv S" and r: "stopSession command S = Inr (S', eff)"
  shows "moves S (cmd_sessionId command) eff S'"
proof (cases "omap_find (sessions S) (cmd_sessionId command)")
  case None
  then show ?thesis using r S by (simp add: stopSession_def Let_def moves_idle)
next
  case (Some "is")
  let ?sid = "cmd_sessionId command"
  note k = ice_inv_session [OF S Some]
  show ?thesis
  proof (cases "op_value (curStatus is) > op_value ICE_OP_ICE_RESULT")
    case True
    then have "erase_session ?sid S = (S', eff)" using r Some by (simp add: stopSession_def Let_def)
    then show ?thesis using moves_erase [OF S Some] Some by (simp add: erase_session_def)
  next
    case False
    then have x: "S' = put_session ?sid (is\<lparr>curStatus := ICE_OP_END\<rparr>) S" "eff = []"
      using r Some by (simp_all add: stopSession_def Let_def)
    have "curStatus is \<noteq> ICE_OP_END" using False by auto
    with x k Some show ?thesis
      by (intro moves_filed [OF x(1) S]) (auto simp: session_ok_def life_of_def intro: life_step.stopped)
  qed
qed

lemma findSesssionByEp_Some:
  "findSesssionByEp m ep = Some (sid, is) \<Longrightarrow> (sid, is) \<in> set m \<and> endpoint is = Some ep"
  by (induction m ep rule: findSesssionByEp.induct) (auto split: if_splits)

lemma timeout_loop_Some: "timeout_loop now m = Inr (Some sid) \<Longrightarrow> sid \<in> fst ` set m"
  by (induction m) (auto split: option.splits if_splits)

lemma getNegoResult_moves:
  assumes S: "ice_inv S" and r: "getNegoResult E obj S = Inr (S', eff)"
  shows "\<exists>sid. moves S sid eff S'"
proof (cases "findSesssionByEp (sessions S) obj")
  case None
  then show ?thesis using r S by (intro exI) (simp add: getNegoResult_def moves_idle)
next
  case (Some x)
  obtain sid "is" where x: "x = (sid, is)" by (cases x)
  with Some findSesssionByEp_Some have f: "omap_find (sessions S) sid = Some is" "endpoint is = Some obj"
    using omap_in_find [OF ice_inv_omap [OF S]] by blast+
  note k = ice_inv_session [OF S f(1)]
  let ?is = "is\<lparr>iceResult := Some (result_text E)\<rparr>"
  have c: "changes S sid (Some ?is) (forwards S) (put_session sid ?is S)"
    using S by (intro changes_put) (simp_all add: ice_inv_omap)
  obtain conn where conn: "request is = Some conn" using k by (auto simp: session_ok_def)
  have life: "life_of S sid = Some (curStatus is, Some obj)" using f by (simp add: life_of_def)
  show ?thesis
  proof (cases "connected E conn")
    case False
    then have "S' = put_session sid ?is S" "eff = []" using r Some x conn
      by (simp_all add: getNegoResult_def Let_def split: if_splits)
    with c k life f show ?thesis
      by (intro exI [of _ sid] moves_put [of S sid ?is S' eff]) (simp_all add: S session_ok_def life_step.ignored)
  next
    case True
    then have "sendCommand E sid ?is ICE_OP_ICE_RESULT
        (Some (bytes_of (result_text E) @ replicate (MAX_COMMAND_LEN - length (result_text E)) 0))
        (of_nat (length (result_text E))) (put_session sid ?is S) = Inr (S', eff)"
      using r Some x conn by (simp add: getNegoResult_def Let_def split: if_splits)
    moreover have "omap_of (sessions (put_session sid ?is S))" using c by (simp add: changes_def)
    ultimately show ?thesis
    proof (cases rule: sendCommand_cases)
      case (sent conn' d)
      let ?is2 = "setStatus (env_time E) ICE_OP_ICE_RESULT ?is"
      from changes_trans [OF c sent(1)] have "changes S sid (Some ?is2) (forwards S) S'"
        by (simp add: put_session_def)
      then show ?thesis using k f life sent(3)
        by (intro exI [of _ sid] moves_put [of S sid ?is2])
           (simp_all add: S session_ok_def setStatus_def life_step.negotiated)
    next
      case too_long
      let ?is2 = "setStatus (env_time E) ICE_OP_END ?is"
      from changes_trans [OF c too_long(1)] have "changes S sid (Some ?is2) (forwards S) S'"
        by (simp add: put_session_def)
      then show ?thesis using k f life too_long(2)
        by (intro exI [of _ sid] moves_put [of S sid ?is2])
           (simp_all add: S session_ok_def setStatus_def life_step.result_too_long)
    qed
  qed
qed

lemma ice_timeout_moves:
  assumes S: "ice_inv S" and r: "ice_timeout_cb now S = Inr (S', eff)"
  shows "\<exists>sid. moves S sid eff S'"
proof (cases "timeout_loop now (sessions S)")
  case (Inl e)
  then show ?thesis using r by (simp add: ice_timeout_cb_def)
next
  case (Inr x)
  show ?thesis
  proof (cases x)
    case None
    then show ?thesis using r S Inr by (intro exI) (simp add: ice_timeout_cb_def moves_idle)
  next
    case (Some sid)
    with Inr timeout_loop_Some omap_find_None obtain "is" where f: "omap_find (sessions S) sid = Some is"
      by (cases "omap_find (sessions S) sid") blast+
    have "erase_session sid S = (S', eff)" using r Some Inr by (simp add: ice_timeout_cb_def)
    then show ?thesis using moves_erase [OF S f] f by (intro exI [of _ sid]) (simp add: erase_session_def)
  qed
qed

lemma start_media_ok:
  assumes "start_media E os media a key pair fwd = Inr (ok, fwd', eff)" "forwards_ok fwd"
    and "length (os_stack os) = MAX_UDP_PACKET_LEN"
  shows "forwards_ok fwd'"
  using assms startForward_ok by (fastforce simp: start_media_def split: sum.splits prod.splits)

lemma start_forwards_ok:
  assumes "start_forwards E a pairs S = Inr (fwd, eff)" "forwards_ok (forwards S)" "env_ok E S'"
  shows "forwards_ok fwd"
proof -
  obtain ok fwd1 eff1 where f: "start_first E a pairs S = Inr (ok, fwd1, eff1)"
    using assms(1) by (cases "start_first E a pairs S") (auto simp: start_forwards_def)
  then have f1: "forwards_ok fwd1"
    using assms(2,3) start_media_ok by (auto simp: start_first_def env_ok_def split: if_splits)
  show ?thesis
    using assms f f1 start_media_ok [of E "relay_os2 E" MEDIA_VIDEO a "''video''" "test_remote S 10002 (pairs ! 2)" fwd1]
    by (auto simp: start_forwards_def env_ok_def split: sum.splits if_splits)
qed

lemma relay_forwards_cases:
  assumes "relay_forwards E content pairs S = Inr (Some (fwd, eff))"
  obtains (thrown) "fwd = forwards S" "eff = []" | (run) a where "start_forwards E a pairs S = Inr (fwd, eff)"
proof -
  obtain ok a errs where p: "Reader_parse (env_lib E) Features_all content nullValue = Some (ok, a, errs)"
    using assms by (cases "Reader_parse (env_lib E) Features_all content nullValue") (auto simp: relay_forwards_def)
  show thesis
  proof (cases "throw_bind (vmember a ''result'') asInt")
    case (Inl e)
    then show thesis using thrown assms p by (cases ok) (simp_all add: relay_forwards_def)
  next
    case (Inr result)
    then show thesis using assms p run [of a]
      by (cases ok; cases "result = 0"; cases "start_forwards E a pairs S") (simp_all add: relay_forwards_def)
  qed
qed

lemma relay_forwards_ok:
  assumes "relay_forwards E content pairs S = Inr (Some (fwd, eff))" "forwards_ok (forwards S)" "env_ok E S'"
  shows "forwards_ok fwd"
  using assms(1) by (cases rule: relay_forwards_cases) (use assms start_forwards_ok in auto)

lemma relaySession_cases:
  fixes command defines "sid \<equiv> cmd_sessionId command"
  assumes r: "relaySession E command S = Inr (S', eff)"
  obtains (idle) "S' = S" "eff = []"
    | (refused) "is" e where "omap_find (sessions S) sid = Some is" "curStatus is = ICE_OP_ICE_RESULT"
        "endpoint is = Some e" "S' = put_session sid (is\<lparr>endpoint := None\<rparr>) S" "eff = [EndpointFreed e]"
    | (relayed) "is" e result fwd neff where "omap_find (sessions S) sid = Some is"
        "curStatus is = ICE_OP_ICE_RESULT" "endpoint is = Some e" "iceResult is = Some result"
        "get_addr_pairs_from_result E result \<noteq> []"
        "relay_forwards E (text_of (cmd_content command)) (get_addr_pairs_from_result E result)
           (put_session sid (is\<lparr>endpoint := None\<rparr>) S) = Inr (Some (fwd, neff))"
        "S' = fst (erase_session sid ((put_session sid (is\<lparr>endpoint := None\<rparr>) S)\<lparr>forwards := fwd\<rparr>))"
        "eff = EndpointFreed e # map Relayed neff"
proof (cases "omap_find (sessions S) sid")
  case None
  then show thesis using r idle by (simp add: relaySession_def Let_def sid_def)
next
  case (Some "is")
  show thesis
  proof (cases "curStatus is = ICE_OP_ICE_RESULT \<and> cmd_content command \<noteq> []")
    case False
    then show thesis using r Some idle
      by (auto simp: relaySession_def Let_def sid_def split: if_splits)
  next
    case c: True
    with r Some obtain e result where e: "endpoint is = Some e" "iceResult is = Some result"
      by (cases "endpoint is"; cases "iceResult is") (simp_all add: relaySession_def Let_def sid_def)
    let ?pairs = "get_addr_pairs_from_result E result"
    let ?rf = "relay_forwards E (text_of (cmd_content command)) ?pairs (put_session sid (is\<lparr>endpoint := None\<rparr>) S)"
    show thesis
    proof (cases "?pairs = []")
      case True
      then show thesis using r Some c e idle by (simp add: relaySession_def Let_def sid_def)
    next
      case p: False
      note d = r Some c e p
      show thesis
      proof (cases ?rf)
        case (Inl err)
        then show thesis using d by (simp add: relaySession_def Let_def sid_def)
      next
        case (Inr x)
        show thesis
        proof (cases x)
          case None
          then show thesis using d Inr refused by (simp add: relaySession_def Let_def sid_def)
        next
          case x: (Some y)
          obtain fwd neff where y: "y = (fwd, neff)" by (cases y)
          from d Inr x y show thesis using relayed [of "is" e result fwd neff]
            by (simp add: relaySession_def Let_def sid_def erase_session_def delete_IceSession_def)
        qed
      qed
    qed
  qed
qed

lemma relaySession_moves:
  assumes S: "ice_inv S" "env_ok E S" and r: "relaySession E command S = Inr (S', eff)"
  shows "moves S (cmd_sessionId command) eff S'"
proof -
  let ?sid = "cmd_sessionId command"
  from r show ?thesis
  proof (cases rule: relaySession_cases)
    case idle
    then show ?thesis using S by (simp add: moves_idle)
  next
    case (refused "is" e)
    with ice_inv_session [OF S(1) refused(1)] show ?thesis
      by (intro moves_filed [OF refused(4) S(1)])
         (auto simp: session_ok_def life_of_def intro: life_step.relay_refused)
  next
    case (relayed "is" e result fwd neff)
    let ?S1 = "(put_session ?sid (is\<lparr>endpoint := None\<rparr>) S)\<lparr>forwards := fwd\<rparr>"
    have "changes S ?sid (Some (is\<lparr>endpoint := None\<rparr>)) fwd ?S1"
      using S(1) by (simp add: changes_def put_session_def omap_of_put ice_inv_omap)
    moreover from this have "changes ?S1 ?sid None fwd S'"
      using changes_erase [of ?S1 ?sid] relayed(7) by (simp add: changes_def)
    ultimately have "changes S ?sid None fwd S'" by (rule changes_trans)
    moreover have "forwards_ok fwd" using relay_forwards_ok [OF relayed(6) _ S(2)] S(1)
      by (simp add: put_session_def ice_inv_def)
    moreover have "life_step (life_of S ?sid) eff None" using relayed(1-3,8)
      by (simp add: life_of_def life_step.relayed)
    ultimately show ?thesis unfolding moves_def by (intro exI [of _ None] exI [of _ fwd]) simp
  qed
qed

lemma ice_step_moves:
  assumes "ice_step S eff S'" "ice_inv S"
  shows "\<exists>sid. moves S sid eff S'"
  using assms
proof (cases rule: ice_step.cases)
  case (command E command sender)
  have "moves S (cmd_sessionId command) eff S'"
    using command assms(2) prepareSession_moves startSession_moves joinSession_moves relaySession_moves
      stopSession_moves moves_idle
    by (auto simp: handleIceCommand_def split: option.splits ICE_OP.splits)
  then show ?thesis ..
next
  case (media neff fwd)
  have "changes S sid (omap_find (sessions S) sid) fwd S'" for sid
    using media assms(2) by (simp add: changes_def ice_inv_omap)
  moreover have "forwards_ok fwd" using media(3) assms(2) fs_step_ok by (auto simp: ice_inv_def)
  ultimately show ?thesis using media assms(2) ice_inv_session [OF assms(2)] life_step.forwarding
    unfolding moves_def life_of_def by blast
qed (use assms getNegoResult_moves ice_timeout_moves in blast)+

end
