(* ===== verification/IceLife.thy ===== *)
theory IceLife
  imports IceService
begin

text \<open>
  What the session service does over its whole life: the properties of \<open>IceService\<close>. Every step is
  a move of one session in the specification \<open>life_step\<close>; endpoints are never lost and never freed
  twice; commands are answered, results relayed, and a reply of the conference control server turns
  a session into forwards.
\<close>

section \<open>Invariant and refinement\<close>

lemma ice_run_inv: "ice_run tr S \<Longrightarrow> ice_inv S"
proof (induction rule: ice_run.induct)
  case (init L cfg ip heap S)
  then show ?case
    by (auto simp: new_IceService_def ice_inv_def forwards_ok_def forwards_ordered_def split: option.splits)
next
  case (step tr S eff S')
  then show ?case using ice_step_moves moves_inv by blast
qed


definition sample_env :: ice_env where
  "sample_env = \<lparr>env_lib = no_doubles, env_time = 1000, new_ret = 0, new_local = Some ''{}'',
     new_endpoint = 5, nego_ret = 0, stolen = [(10, 21), (12, 22), (14, 23)], result_ret = 0,
     result_text = ''{}'', connected = (\<lambda>_. True), relay_os1 = sample_os, relay_os2 = sample_os,
     resend_cfg = ''true'', stack_padding = replicate 8 0\<rparr>"

definition sample_service :: IceService where
  "sample_service = \<lparr>sessions = [], configInfo = nullValue, sendBuffer = replicate MAX_COMMAND_LEN 0,
     testIP = [], forwards = []\<rparr>"

lemma sample_run: "ice_run [] sample_service"
proof (rule ice_run.init)
  have "Reader_parse no_doubles Features_all ''null'' nullValue = Some (True, nullValue, [])" by code_simp
  then show "new_IceService no_doubles ''null'' [] (replicate MAX_COMMAND_LEN 0) [] = Some sample_service"
    by (simp add: new_IceService_def sample_service_def)
qed simp


text \<open>
  C6: The service implements the session life cycle. Every step of it, be it a command, a result, a
  tick of the timer or media traffic, moves at most one session, by one of the moves of the
  specification, with exactly the calls to the ICE library, the replies and the socket operations
  of that move; every other session keeps its status and its endpoint.
\<close>
theorem service_refines_life:
  assumes "ice_run tr S" "ice_step S eff S'"
  shows "\<exists>sid. life_step (life_of S sid) eff (life_of S' sid) \<and> (\<forall>k. k \<noteq> sid \<longrightarrow> life_of S' k = life_of S k)"
  using ice_step_moves [OF assms(2) ice_run_inv [OF assms(1)]] moves_life by blast

section \<open>Endpoints\<close>

fun made_by :: "nat \<Rightarrow> ice_effect \<Rightarrow> bool" where
  "made_by e (NewCaller c ep) = (ep = Some e)"
| "made_by e (NewCallee c r ep) = (ep = Some e)"
| "made_by e _ = False"

definition made :: "nat \<Rightarrow> ice_effect list \<Rightarrow> nat" where
  "made e tr = length (filter (made_by e) tr)"

definition released :: "nat \<Rightarrow> ice_effect list \<Rightarrow> nat" where
  "released e tr = length (filter (\<lambda>x. x = EndpointFreed e) tr)"

definition owned :: "IceService \<Rightarrow> nat \<Rightarrow> nat" where
  "owned S e = of_bool (\<exists>sid st. life_of S sid = Some (st, Some e))"

definition holds :: "nat \<Rightarrow> life \<Rightarrow> bool" where
  "holds e l \<longleftrightarrow> (\<exists>st. l = Some (st, Some e))"

lemma made_append [simp]: "made e (a @ b) = made e a + made e b" "made e [] = 0"
  by (simp_all add: made_def)

lemma released_append [simp]: "released e (a @ b) = released e a + released e b" "released e [] = 0"
  by (simp_all add: released_def)

lemma media_no_endpoint [simp]: "made e (map Relayed eff) = 0" "released e (map Relayed eff) = 0"
  by (simp_all add: made_def released_def filter_empty_conv)

lemma life_step_balance:
  assumes "life_step l eff l'"
  shows "made e eff + of_bool (holds e l) = released e eff + (of_bool (holds e l') :: nat)"
  using assms media_no_endpoint [of e]
  by cases (auto simp: made_def released_def holds_def freed_def split: option.split)

lemma holds_unique:
  assumes "ice_inv S" "holds e (life_of S a)" "holds e (life_of S b)"
  shows "a = b"
  using assms unfolding holds_def life_of_def ice_inv_def own_endpoint_def by fastforce

lemma owned_holds:
  assumes "ice_inv S" "\<And>k. k \<noteq> sid \<Longrightarrow> life_of S k = L k"
  shows "owned S e = of_bool (holds e (life_of S sid)) + of_bool (\<exists>k. k \<noteq> sid \<and> holds e (L k))"
proof -
  have "owned S e = of_bool (\<exists>k. holds e (life_of S k))" by (auto simp: owned_def holds_def)
  moreover have "\<not> (holds e (life_of S sid) \<and> (\<exists>k. k \<noteq> sid \<and> holds e (L k)))"
    using holds_unique [OF assms(1)] assms(2) by metis
  ultimately show ?thesis using assms(2) by (auto simp: of_bool_def) metis+
qed

lemma ice_step_balance:
  assumes "ice_step S eff S'" "ice_inv S"
  shows "made e eff + owned S e = released e eff + owned S' e"
proof -
  from ice_step_moves [OF assms] obtain sid where m: "moves S sid eff S'" by blast
  with assms(2) have "ice_inv S'" by (simp add: moves_inv)
  from moves_life [OF m] have l: "life_step (life_of S sid) eff (life_of S' sid)"
    "\<And>k. k \<noteq> sid \<Longrightarrow> life_of S' k = life_of S k" by blast+
  have "owned S e = of_bool (holds e (life_of S sid)) + of_bool (\<exists>k. k \<noteq> sid \<and> holds e (life_of S k))"
    by (rule owned_holds [OF assms(2)]) simp
  moreover have "owned S' e = of_bool (holds e (life_of S' sid)) + of_bool (\<exists>k. k \<noteq> sid \<and> holds e (life_of S k))"
    by (rule owned_holds [OF \<open>ice_inv S'\<close>]) (simp add: l(2))
  ultimately show ?thesis using life_step_balance [OF l(1), of e] by simp
qed

lemma run_balance: "ice_run tr S \<Longrightarrow> made e tr = released e tr + owned S e"
proof (induction rule: ice_run.induct)
  case (init L cfg ip heap S)
  then show ?case by (auto simp: new_IceService_def owned_def life_of_def split: option.splits)
next
  case (step tr S eff S')
  then show ?case using ice_step_balance [OF step(2) ice_run_inv [OF step(1)], of e] by simp
qed

text \<open>
  C8: No endpoint leaks and none is freed twice: in every run, each endpoint has been handed out by
  the ICE library exactly as often as it has been freed, plus one if a session owns it now.
\<close>
theorem endpoints_balanced: "ice_run tr S \<Longrightarrow> made e tr = released e tr + owned S e"
  by (rule run_balance)

theorem endpoints_balanced_witness: "made 5 [] = released 5 [] + owned sample_service 5"
  by (rule endpoints_balanced [OF sample_run])

section \<open>Replies to the conference control server\<close>

text \<open>A frame in the send buffer, its content copied there from an array or put there before.\<close>

lemma written_array:
  assumes "length buffer = MAX_COMMAND_LEN" "length content \<le> MAX_COMMAND_LEN - ICE_COMMAND_HEADER_LEN"
  shows "\<exists>buf. constructCommandBuffer buffer op sid (Some (content @ pad)) (of_nat (length content)) = Inr (True, buf)
    \<and> parse_frame (take (16 + length content) buf)
      = Some (\<lparr>cmd_op = op_value op, cmd_sessionId = sid, cmd_content = content\<rparr>, 16 + length content)"
proof -
  have n: "unat (of_nat (length content) :: u32) = length content" "length content mod 65536 = length content"
    using assms(2) by (simp_all add: wire_consts unat_of_nat take_bit_eq_mod)
  from written_frame [OF assms, of op sid] obtain buf where
    "constructCommandBuffer buffer op sid (Some content) (of_nat (length content)) = Inr (True, buf)"
    "take (16 + length content) buf
      = le_bytes 4 (unat (op_value op)) @ le_bytes 8 (unat sid) @ le_bytes 4 (length content) @ content" by blast
  moreover have "constructCommandBuffer buffer op sid (Some (content @ pad)) (of_nat (length content))
      = constructCommandBuffer buffer op sid (Some content) (of_nat (length content))"
    using n by (simp add: constructCommandBuffer_def Let_def)
  ultimately show ?thesis
    using parse_written_frame [of "length content" content "op_value op" sid] n(2) assms(2)
    by (simp add: wire_consts)
qed

lemma written_in_place:
  assumes "length buffer = MAX_COMMAND_LEN" "length (content @ pad) \<le> MAX_COMMAND_LEN - ICE_COMMAND_HEADER_LEN"
  shows "\<exists>buf. constructCommandBuffer (put_at ICE_COMMAND_HEADER_LEN (content @ pad) buffer) op sid None
        (of_nat (length content)) = Inr (True, buf)
    \<and> parse_frame (take (16 + length content) buf)
      = Some (\<lparr>cmd_op = op_value op, cmd_sessionId = sid, cmd_content = content\<rparr>, 16 + length content)"
proof -
  have c: "length content \<le> MAX_COMMAND_LEN - ICE_COMMAND_HEADER_LEN" using assms(2) by simp
  then have n: "unat (of_nat (length content) :: u32) = length content" "length content mod 65536 = length content"
    by (simp_all add: wire_consts unat_of_nat take_bit_eq_mod)
  have g: "\<not> of_nat (length content) + of_nat ICE_COMMAND_HEADER_LEN > (of_nat MAX_COMMAND_LEN :: u32)"
    using n c by (subst header_guard) (simp add: wire_consts)
  then show ?thesis
    using n assms parse_written_frame [of "length content" content "op_value op" sid]
    by (simp add: constructCommandBuffer_def wire_consts put_at_def Let_def take_Cons')
qed

lemma ice_inv_buffer: "ice_inv S \<Longrightarrow> length (sendBuffer S) = MAX_COMMAND_LEN"
  by (simp add: ice_inv_def)

lemma op_cast_numeral [simp]: "op_cast 1 = Some ICE_OP_PREPARE_SESSION" "op_cast 3 = Some ICE_OP_START_SESSION"
  "op_cast 4 = Some ICE_OP_JOIN_SESSION" "op_cast 6 = Some ICE_OP_RELAY_SESSION" "op_cast 7 = Some ICE_OP_STOP_SESSION"
  by (simp_all add: op_cast_def)

lemma prepare_effect:
  assumes "ice_inv S" "cmd_op command = 1" "omap_find (sessions S) (cmd_sessionId command) = None"
    and "new_ret E = 0" "new_local E = Some info" "NUL \<notin> set info"
    and "length info + 1 \<le> MAX_COMMAND_LEN - ICE_COMMAND_HEADER_LEN"
  shows "\<exists>S' config frame. handleIceCommand E command conn S
        = Inr (S', [NewCaller config (Some (new_endpoint E)), CommandSent conn frame])
    \<and> parseCommand frame = Inr (Some (\<lparr>cmd_op = op_value ICE_OP_LOCAL_INFO,
        cmd_sessionId = cmd_sessionId command, cmd_content = bytes_of info\<rparr>, length frame))
    \<and> omap_find (sessions S') (cmd_sessionId command) = Some (setStatus (env_time E) ICE_OP_LOCAL_INFO
        (new_IceSession\<lparr>request := Some conn, is_id := cmd_sessionId command, endpoint := Some (new_endpoint E)\<rparr>))"
proof -
  let ?sid = "cmd_sessionId command"
  let ?S = "readJsonInfo E (text_of (cmd_content command)) S"
  note len = ice_inv_buffer [OF assms(1)]
  have c: "c_str info = info" using assms(6) by (rule c_str_id)
  have w: "write_local (new_local E) (sendBuffer S)
      = Inr (put_at ICE_COMMAND_HEADER_LEN (bytes_of info @ [0]) (sendBuffer S))"
    using assms(5,7) c len by (simp add: write_local_def wire_consts)
  from written_in_place [OF len, of "bytes_of info" "[0]" ICE_OP_LOCAL_INFO ?sid] assms(7) obtain buf where
    b: "constructCommandBuffer (put_at ICE_COMMAND_HEADER_LEN (bytes_of info @ [0]) (sendBuffer S)) ICE_OP_LOCAL_INFO
        ?sid None (of_nat (length info)) = Inr (True, buf)"
      "parse_frame (take (16 + length info) buf) = Some (\<lparr>cmd_op = op_value ICE_OP_LOCAL_INFO,
         cmd_sessionId = ?sid, cmd_content = bytes_of info\<rparr>, 16 + length info)" by auto
  have u: "unat (of_nat (length info) + of_nat ICE_COMMAND_HEADER_LEN :: u32) = 16 + length info"
    using assms(7) by (simp add: wire_consts unat_word_ariths unat_of_nat take_bit_eq_mod)
  have l: "length (take (16 + length info) buf) = 16 + length info"
    using parse_frame_length [OF b(2)] by simp
  then have ne: "take (16 + length info) buf \<noteq> []" by auto
  show ?thesis
    using assms(2-5) w b(1) u
    by (simp add: handleIceCommand_def prepareSession_def Let_def sendCommand_def got_endpoint_def put_session_def
          setStatus_def)
       (use b(2) l ne in \<open>simp add: parseCommand_def\<close>)
qed

text \<open>
  A PREPARE command for a new session id is answered. When the ICE library hands out an endpoint
  and local information that fits the command buffer, the sender of the command gets one
  LOCAL_INFO frame, which its parser reads back as that session id and that information, and the
  session exists with that endpoint and waits for START.
\<close>
theorem prepare_answered:
  assumes "ice_inv S" "cmd_op command = 1" "omap_find (sessions S) (cmd_sessionId command) = None"
    and "new_ret E = 0" "new_local E = Some info" "NUL \<notin> set info"
    and "length info + 1 \<le> MAX_COMMAND_LEN - ICE_COMMAND_HEADER_LEN"
  shows "\<exists>S' config frame. handleIceCommand E command conn S
        = Inr (S', [NewCaller config (Some (new_endpoint E)), CommandSent conn frame])
    \<and> parseCommand frame = Inr (Some (\<lparr>cmd_op = op_value ICE_OP_LOCAL_INFO,
        cmd_sessionId = cmd_sessionId command, cmd_content = bytes_of info\<rparr>, length frame))
    \<and> life_of S' (cmd_sessionId command) = Some (ICE_OP_LOCAL_INFO, Some (new_endpoint E))"
  using prepare_effect [OF assms, of conn] by (fastforce simp: life_of_def setStatus_def)

theorem prepare_answered_witness:
  "\<exists>S' config frame. handleIceCommand sample_env \<lparr>cmd_op = 1, cmd_sessionId = 9, cmd_content = []\<rparr> 3 sample_service
        = Inr (S', [NewCaller config (Some 5), CommandSent 3 frame])
    \<and> parseCommand frame = Inr (Some (\<lparr>cmd_op = 2, cmd_sessionId = 9, cmd_content = [123, 125]\<rparr>, length frame))
    \<and> life_of S' 9 = Some (ICE_OP_LOCAL_INFO, Some 5)"
  using prepare_answered [OF ice_run_inv [OF sample_run], of "\<lparr>cmd_op = 1, cmd_sessionId = 9, cmd_content = []\<rparr>"
      sample_env "''{}''" 3]
  by (simp add: sample_env_def sample_service_def wire_consts NUL_def bytes_of_def)

lemma find_complete:
  assumes "ice_inv S" "omap_find (sessions S) sid = Some is" "endpoint is = Some ep"
  shows "findSesssionByEp (sessions S) ep = Some (sid, is)"
proof -
  have "findSesssionByEp m ep \<noteq> None" if "(sid, is) \<in> set m" for m
    using that assms(3) by (induction m) auto
  from this [OF omap_find_Some_in [OF assms(2)]] obtain sid' is' where
    f: "findSesssionByEp (sessions S) ep = Some (sid', is')" by auto
  with findSesssionByEp_Some omap_in_find [OF ice_inv_omap [OF assms(1)]]
  have g: "omap_find (sessions S) sid' = Some is'" "endpoint is' = Some ep" by blast+
  with ice_inv_session [OF assms(1,2)] assms(3) have "sid' = sid" by (auto simp: own_endpoint_def)
  with f g assms(2) show ?thesis by simp
qed

lemma nego_result_effect:
  assumes "ice_inv S" "findSesssionByEp (sessions S) ep = Some (sid, is)" "request is = Some conn"
    and "result_ret E = 0" "result_text E \<noteq> []"
    and "length (result_text E) \<le> MAX_COMMAND_LEN - ICE_COMMAND_HEADER_LEN" "connected E conn"
  shows "\<exists>S' frame. getNegoResult E ep S = Inr (S', [CommandSent conn frame])
    \<and> parseCommand frame = Inr (Some (\<lparr>cmd_op = op_value ICE_OP_ICE_RESULT,
        cmd_sessionId = sid, cmd_content = bytes_of (result_text E)\<rparr>, length frame))
    \<and> omap_find (sessions S') sid = Some (is\<lparr>curStatus := ICE_OP_ICE_RESULT, curTime := Some (env_time E),
        iceResult := Some (result_text E)\<rparr>)"
proof -
  let ?n = "length (result_text E)"
  let ?pad = "replicate (MAX_COMMAND_LEN - ?n) 0 :: byte list"
  have id: "is_id is = sid"
    using findSesssionByEp_Some [OF assms(2)] omap_in_find [OF ice_inv_omap [OF assms(1)]] ice_inv_session [OF assms(1)]
    by (fastforce simp: session_ok_def)
  from written_array [OF ice_inv_buffer [OF assms(1)], of "bytes_of (result_text E)" ICE_OP_ICE_RESULT sid ?pad] assms(6)
  obtain buf where b: "constructCommandBuffer (sendBuffer S) ICE_OP_ICE_RESULT sid (Some (bytes_of (result_text E) @ ?pad))
        (of_nat ?n) = Inr (True, buf)"
      "parse_frame (take (16 + ?n) buf) = Some (\<lparr>cmd_op = op_value ICE_OP_ICE_RESULT,
         cmd_sessionId = sid, cmd_content = bytes_of (result_text E)\<rparr>, 16 + ?n)" by auto
  have u: "unat (of_nat ?n + of_nat ICE_COMMAND_HEADER_LEN :: u32) = 16 + ?n"
    using assms(6) by (simp add: wire_consts unat_word_ariths unat_of_nat take_bit_eq_mod)
  have l: "length (take (16 + ?n) buf) = 16 + ?n" using parse_frame_length [OF b(2)] by simp
  then have ne: "take (16 + ?n) buf \<noteq> []" by auto
  have m: "\<not> ?n + 1 > MAX_COMMAND_LEN" using assms(6) by (simp add: wire_consts)
  show ?thesis
    using assms(2-5,7) b(1) u id m
    by (simp add: getNegoResult_def Let_def sendCommand_def put_session_def setStatus_def)
       (use b(2) l ne in \<open>simp add: parseCommand_def\<close>)
qed

text \<open>
  The result of a negotiation reaches the requester: when the endpoint of a session reports a
  result that fits a command, one ICE_RESULT frame with exactly that text goes to the connection
  the session came from, and the session keeps the text and is ready for RELAY.
\<close>
theorem nego_result_sent:
  assumes "ice_inv S" "findSesssionByEp (sessions S) ep = Some (sid, is)" "request is = Some conn"
    and "result_ret E = 0" "result_text E \<noteq> []"
    and "length (result_text E) \<le> MAX_COMMAND_LEN - ICE_COMMAND_HEADER_LEN" "connected E conn"
  shows "\<exists>S' frame. getNegoResult E ep S = Inr (S', [CommandSent conn frame])
    \<and> parseCommand frame = Inr (Some (\<lparr>cmd_op = op_value ICE_OP_ICE_RESULT,
        cmd_sessionId = sid, cmd_content = bytes_of (result_text E)\<rparr>, length frame))
    \<and> omap_find (sessions S') sid = Some (is\<lparr>curStatus := ICE_OP_ICE_RESULT, curTime := Some (env_time E),
        iceResult := Some (result_text E)\<rparr>)"
  using assms by (rule nego_result_effect)

definition sample_session :: "ICE_OP \<Rightarrow> nat option \<Rightarrow> IceSession" where
  "sample_session st ep = \<lparr>is_id = 9, endpoint = ep, request = Some 3, curStatus = st, curTime = Some 1000,
     iceResult = Some ''{}''\<rparr>"

definition sample_with :: "IceSession \<Rightarrow> IceService" where
  "sample_with is = sample_service\<lparr>sessions := [(9, is)]\<rparr>"

lemma sample_with_ok: "session_ok 9 is \<Longrightarrow> ice_inv (sample_with is)"
  by (auto simp: ice_inv_def sample_with_def sample_service_def own_endpoint_def
      omap_of_def forwards_ok_def forwards_ordered_def split: if_splits)

lemma sample_with_inv:
  "st \<in> {ICE_OP_LOCAL_INFO, ICE_OP_START_SESSION, ICE_OP_ICE_RESULT, ICE_OP_END} \<Longrightarrow> (st = ICE_OP_LOCAL_INFO \<longrightarrow> ep \<noteq> None)
    \<Longrightarrow> ice_inv (sample_with (sample_session st ep))"
  by (rule sample_with_ok) (auto simp: sample_session_def session_ok_def)

theorem nego_result_sent_witness:
  "\<exists>S' frame. getNegoResult sample_env 5 (sample_with (sample_session ICE_OP_START_SESSION (Some 5)))
        = Inr (S', [CommandSent 3 frame])
    \<and> parseCommand frame = Inr (Some (\<lparr>cmd_op = 5, cmd_sessionId = 9, cmd_content = [123, 125]\<rparr>, length frame))"
  using nego_result_sent [OF sample_with_inv, of ICE_OP_START_SESSION "Some 5" 5 9
      "sample_session ICE_OP_START_SESSION (Some 5)" 3 sample_env]
  by (auto simp: sample_env_def sample_with_def sample_session_def wire_consts bytes_of_def)

text \<open>
  STOP does not stop a session whose negotiation still runs: it only marks it, and when the
  result comes later the session is back in the state in which RELAY is accepted.
\<close>
theorem stopped_session_revived:
  assumes "ice_inv S" "omap_find (sessions S) (cmd_sessionId command) = Some is" "endpoint is = Some ep"
    and "curStatus is \<noteq> ICE_OP_END" "stopSession command S = Inr (S1, eff1)" "connected E (the (request is))"
    and "result_ret E = 0" "result_text E \<noteq> []" "length (result_text E) \<le> MAX_COMMAND_LEN - ICE_COMMAND_HEADER_LEN"
  shows "life_of S1 (cmd_sessionId command) = Some (ICE_OP_END, Some ep)
    \<and> (\<exists>S2 eff2. getNegoResult E ep S1 = Inr (S2, eff2)
         \<and> life_of S2 (cmd_sessionId command) = Some (ICE_OP_ICE_RESULT, Some ep))"
proof -
  let ?sid = "cmd_sessionId command"
  note k = ice_inv_session [OF assms(1,2)]
  have "\<not> op_value (curStatus is) > op_value ICE_OP_ICE_RESULT"
    using k assms(4) by (auto simp: session_ok_def)
  with assms(2,5) have S1: "S1 = put_session ?sid (is\<lparr>curStatus := ICE_OP_END\<rparr>) S"
    by (simp add: stopSession_def Let_def)
  have inv: "ice_inv S1" using stopSession_moves [OF assms(1,5)] assms(1) by (rule moves_inv)
  have f: "omap_find (sessions S1) ?sid = Some (is\<lparr>curStatus := ICE_OP_END\<rparr>)" unfolding S1 by simp
  from find_complete [OF inv f] assms(3)
  have "findSesssionByEp (sessions S1) ep = Some (?sid, is\<lparr>curStatus := ICE_OP_END\<rparr>)" by simp
  from nego_result_effect [OF inv this _ assms(7-9), of "the (request is)"] k assms(3,6) f
  show ?thesis by (auto simp: session_ok_def life_of_def)
qed

theorem stopped_session_revived_witness:
  "life_of (sample_with ((sample_session ICE_OP_START_SESSION (Some 5))\<lparr>curStatus := ICE_OP_END\<rparr>)) 9 = Some (ICE_OP_END, Some 5)
    \<and> (\<exists>S2 eff2. getNegoResult sample_env 5 (sample_with ((sample_session ICE_OP_START_SESSION (Some 5))\<lparr>curStatus := ICE_OP_END\<rparr>))
           = Inr (S2, eff2) \<and> life_of S2 9 = Some (ICE_OP_ICE_RESULT, Some 5))"
  using stopped_session_revived [OF sample_with_inv, of ICE_OP_START_SESSION "Some 5"
      "\<lparr>cmd_op = 7, cmd_sessionId = 9, cmd_content = []\<rparr>" "sample_session ICE_OP_START_SESSION (Some 5)" 5
      "sample_with ((sample_session ICE_OP_START_SESSION (Some 5))\<lparr>curStatus := ICE_OP_END\<rparr>)" "[]" sample_env]
  by (simp add: stopSession_def put_session_def sample_env_def sample_with_def sample_session_def wire_consts)

theorem service_refines_life_witness:
  "\<exists>S' eff sid. ice_step sample_service eff S' \<and> eff \<noteq> []
    \<and> life_step (life_of sample_service sid) eff (life_of S' sid)"
proof -
  obtain S' eff where h: "handleIceCommand sample_env \<lparr>cmd_op = 1, cmd_sessionId = 9, cmd_content = []\<rparr> 3 sample_service
      = Inr (S', eff)" "eff \<noteq> []"
    using prepare_effect [OF ice_run_inv [OF sample_run], of "\<lparr>cmd_op = 1, cmd_sessionId = 9, cmd_content = []\<rparr>"
      sample_env "''{}''" 3]
    by (auto simp: sample_env_def sample_service_def wire_consts NUL_def)
  have "ice_step sample_service eff S'"
    by (rule ice_step.command [OF h(1)])
       (simp add: env_ok_def sample_service_def sample_env_def sample_os_def)
  with service_refines_life [OF sample_run this] h(2) show ?thesis by blast
qed

section \<open>Configuration\<close>

text \<open>
  The component count that a PREPARE or JOIN command asks for never reaches the configuration
  handed to the ICE library: a command with a member \<open>compCount\<close>, whatever its value, changes
  nothing but files a null under another name, \<open>comCount\<close>.
\<close>
theorem compCount_ignored:
  assumes "plain (objectValue a)" "omap_find a ''compCount'' = Some n" "omap_find a ''comCount'' = None"
    and "configInfo S = objectValue m" "\<not> dropNullPlaceholders W"
  shows "readJsonInfo E (FastWriter_write (env_lib E) W (objectValue a)) S
    = S\<lparr>configInfo := objectValue (omap_put ''comCount'' nullValue m)\<rparr>"
proof -
  have p: "Reader_parse (env_lib E) Features_all (FastWriter_write (env_lib E) W (objectValue a)) nullValue
      = Some (True, reread (objectValue a), [])"
    using assms(1,5) by (rule parse_written) (simp add: Features_all_def)
  have ne: "FastWriter_write (env_lib E) W (objectValue a) \<noteq> []"
    by (simp add: FastWriter_write_def writeValue.simps)
  have f: "omap_find (map (\<lambda>(k, x). (k, reread x)) a) key = map_option reread (omap_find a key)" for key
    by (induction a) auto
  have c: "c_str ''compCount'' = ''compCount''" "c_str ''comCount'' = ''comCount''"
    by (simp_all add: c_str_id NUL_def)
  show ?thesis using ne assms(2-4)
    by (simp add: readJsonInfo_def p isMember_def member_at_def member_ref_def member_set_def f c
        omap_put_put split: option.split)
qed

theorem compCount_ignored_witness:
  "readJsonInfo sample_env (FastWriter_write no_doubles new_FastWriter (objectValue [(''compCount'', intValue 4)]))
      (sample_service\<lparr>configInfo := objectValue [(''compCount'', intValue 2)]\<rparr>)
    = sample_service\<lparr>configInfo := objectValue (omap_put ''comCount'' nullValue [(''compCount'', intValue 2)])\<rparr>"
  using compCount_ignored [of "[(''compCount'', intValue 4)]" "intValue 4"
      "sample_service\<lparr>configInfo := objectValue [(''compCount'', intValue 2)]\<rparr>" "[(''compCount'', intValue 2)]"
      new_FastWriter sample_env]
  by (simp add: sample_env_def new_FastWriter_def NUL_def omap_of_def int_limits)

section \<open>The timer\<close>

definition expired :: "int \<Rightarrow> IceSession \<Rightarrow> bool" where
  "expired now is \<longleftrightarrow> (\<exists>t. curTime is = Some t \<and>
     (curStatus is = ICE_OP_END \<and> now - t > SESSION_ALIVE_CHECK_TIME \<or> now - t > SESSION_ALIVE_CHECK_TIME * 2))"

fun ticks :: "int \<Rightarrow> nat \<Rightarrow> IceService \<Rightarrow> ice_effect list \<Rightarrow> ice_result" where
  "ticks now 0 S eff = Inr (S, eff)"
| "ticks now (Suc n) S eff =
     (case ice_timeout_cb now S of Inl c \<Rightarrow> Inl c | Inr (S', e) \<Rightarrow> ticks now n S' (eff @ e))"

lemma timeout_loop_first:
  assumes "\<forall>(sid, is) \<in> set m. curTime is \<noteq> None"
  shows "timeout_loop now m = Inr (map_option fst (List.find (\<lambda>(sid, is). expired now is) m))"
  using assms by (induction m) (auto simp: expired_def)

lemma erase_first:
  assumes "omap_of m" "List.find (\<lambda>(sid, is). P is) m = Some (sid, is)"
  shows "omap_erase sid m = remove1 (sid, is) m \<and> P is \<and> (sid, is) \<in> set m"
  using assms by (induction m) (auto simp: omap_of_Cons split: if_splits)

lemma filter_remove1_same: "\<not> P x \<Longrightarrow> filter P (remove1 x xs) = filter P xs"
  by (induction xs) auto

lemma ice_timeout_one:
  assumes S: "ice_inv S"
  obtains (quiet) "ice_timeout_cb now S = Inr (S, [])" "filter (\<lambda>(sid, is). expired now is) (sessions S) = []"
    | (one) sid "is" where "ice_timeout_cb now S = Inr (S\<lparr>sessions := remove1 (sid, is) (sessions S)\<rparr>, delete_IceSession is)"
        "(sid, is) \<in> set (sessions S)" "expired now is"
        "filter (\<lambda>(sid, is). expired now is) (sessions S) = (sid, is) # filter (\<lambda>(sid, is). expired now is) (remove1 (sid, is) (sessions S))"
proof -
  have o: "omap_of (sessions S)" using S by (rule ice_inv_omap)
  have t: "\<forall>(sid, is) \<in> set (sessions S). curTime is \<noteq> None"
    using ice_inv_session [OF S] omap_in_find [OF o] by (fastforce simp: session_ok_def)
  show thesis
  proof (cases "List.find (\<lambda>(sid, is). expired now is) (sessions S)")
    case None
    with t have "ice_timeout_cb now S = Inr (S, [])" by (simp add: ice_timeout_cb_def timeout_loop_first)
    moreover have "filter (\<lambda>(sid, is). expired now is) (sessions S) = []"
      using None by (auto simp: find_None_iff filter_empty_conv)
    ultimately show thesis by (rule quiet)
  next
    case (Some x)
    obtain sid "is" where x: "x = (sid, is)" by (cases x)
    note e = erase_first [OF o Some [unfolded x]]
    have "filter (\<lambda>(sid, is). expired now is) m = x # filter (\<lambda>(sid, is). expired now is) (remove1 x m)"
      if "List.find (\<lambda>(sid, is). expired now is) m = Some x" for m
      using that e x by (induction m) (auto split: if_splits)
    with Some x have "filter (\<lambda>(sid, is). expired now is) (sessions S)
        = (sid, is) # filter (\<lambda>(sid, is). expired now is) (remove1 (sid, is) (sessions S))" by blast
    then show thesis using e Some x t omap_in_find [OF o, of sid "is"]
      by (intro one [of sid "is"]) (auto simp: ice_timeout_cb_def timeout_loop_first erase_session_def)
  qed
qed

text \<open>
  The timer of the service clears what has expired and nothing else, one session per tick: after
  as many ticks at one time as there are expired sessions, or more, exactly the others are left, in
  order, and the endpoints of the removed ones have been freed.
\<close>
theorem ticks_clear_expired:
  assumes "ice_inv S" "length (filter (\<lambda>(sid, is). expired now is) (sessions S)) \<le> n"
  shows "ticks now n S eff = Inr (S\<lparr>sessions := filter (\<lambda>(sid, is). \<not> expired now is) (sessions S)\<rparr>,
    eff @ concat (map (\<lambda>(sid, is). delete_IceSession is) (filter (\<lambda>(sid, is). expired now is) (sessions S))))"
  using assms
proof (induction n arbitrary: S eff)
  case 0
  then have "filter (\<lambda>(sid, is). \<not> expired now is) (sessions S) = sessions S"
    by (auto simp: filter_id_conv filter_empty_conv)
  then show ?case using 0 by simp
next
  case (Suc n)
  from Suc.prems(1) show ?case
  proof (cases rule: ice_timeout_one [where now = now])
    case quiet
    with Suc.IH [OF Suc.prems(1), of eff] show ?thesis by simp
  next
    case (one sid "is")
    let ?S = "S\<lparr>sessions := remove1 (sid, is) (sessions S)\<rparr>"
    have "ice_inv ?S" using ice_timeout_moves [OF Suc.prems(1) one(1)] moves_inv Suc.prems(1) by blast
    moreover have "length (filter (\<lambda>(sid, is). expired now is) (sessions ?S)) \<le> n"
      using Suc.prems(2) one(4) by simp
    ultimately have "ticks now n ?S (eff @ delete_IceSession is)
      = Inr (?S\<lparr>sessions := filter (\<lambda>(sid, is). \<not> expired now is) (sessions ?S)\<rparr>, (eff @ delete_IceSession is)
          @ concat (map (\<lambda>(sid, is). delete_IceSession is) (filter (\<lambda>(sid, is). expired now is) (sessions ?S))))"
      by (rule Suc.IH)
    moreover have "filter (\<lambda>(sid, is). \<not> expired now is) (remove1 (sid, is) (sessions S))
        = filter (\<lambda>(sid, is). \<not> expired now is) (sessions S)"
      using one(3) by (simp add: filter_remove1_same)
    ultimately show ?thesis using one(1,4) by simp
  qed
qed

theorem ticks_clear_expired_witness:
  "ticks 1100 2 (sample_with (sample_session ICE_OP_END (Some 5))) []
    = Inr ((sample_with (sample_session ICE_OP_END (Some 5)))\<lparr>sessions := []\<rparr>, [EndpointFreed 5])"
  using ticks_clear_expired [OF sample_with_inv, of ICE_OP_END "Some 5" 1100 2 "[]"]
  by (simp add: sample_with_def sample_session_def expired_def SESSION_ALIVE_CHECK_TIME_def delete_IceSession_def)

section \<open>Failures\<close>

lemma sendCommand_in_place:
  assumes "length (sendBuffer S) = MAX_COMMAND_LEN" "request is = Some conn"
  shows "\<exists>S' eff. sendCommand E sid is op None n S = Inr (S', eff)"
  using assms by (auto simp: sendCommand_def constructCommandBuffer_def Let_def wire_consts)

lemma write_local_crash:
  "write_local l buf = Inl c \<longleftrightarrow> c = OutOfBounds
    \<and> (\<exists>s. l = Some s \<and> length buf < ICE_COMMAND_HEADER_LEN + length (c_str s) + 1)"
  by (auto simp: write_local_def split: option.split)

lemma new_session_crash:
  assumes "ice_inv S"
  shows "prepareSession E command conn S = Inl c \<Longrightarrow> write_local (new_local E) (sendBuffer S) = Inl c"
    and "joinSession E command conn S = Inl c \<Longrightarrow> write_local (new_local E) (sendBuffer S) = Inl c"
proof -
  have s: "\<exists>S2 eff. sendCommand E sid (is\<lparr>endpoint := ep\<rparr>) op None n
      (put_session sid' x (readJsonInfo E j S\<lparr>sendBuffer := buf\<rparr>)) = Inr (S2, eff)"
    if "write_local (new_local E) (sendBuffer S) = Inr buf" "request is = Some conn" for buf sid "is" ep op n sid' x j
    using that write_local_length [OF that(1)] ice_inv_buffer [OF assms]
    by (intro sendCommand_in_place) (simp_all add: put_session_def)
  let ?sid = "cmd_sessionId command"
  let ?S = "\<lambda>buf. readJsonInfo E (text_of (cmd_content command)) S\<lparr>sendBuffer := buf\<rparr>"
  let ?n = "of_nat (case new_local E of None \<Rightarrow> 0 | Some s \<Rightarrow> length s)"
  show "write_local (new_local E) (sendBuffer S) = Inl c" if p: "prepareSession E command conn S = Inl c"
  proof (cases "write_local (new_local E) (sendBuffer S)")
    case (Inl d)
    with p show ?thesis by (simp add: prepareSession_def Let_def split: if_splits)
  next
    case (Inr buf)
    let ?is = "new_IceSession\<lparr>request := Some conn, is_id := ?sid\<rparr>"
    from s [OF Inr, of ?is ?sid "Some (new_endpoint E)" ICE_OP_LOCAL_INFO ?n ?sid
        "?is\<lparr>endpoint := Some (new_endpoint E)\<rparr>" "text_of (cmd_content command)"] Inr p show ?thesis
      by (auto simp: prepareSession_def Let_def split: if_splits)
  qed
  show "write_local (new_local E) (sendBuffer S) = Inl c" if p: "joinSession E command conn S = Inl c"
  proof (cases "write_local (new_local E) (sendBuffer S)")
    case (Inl d)
    with p show ?thesis by (simp add: joinSession_def Let_def split: if_splits)
  next
    case (Inr buf)
    let ?is = "(setStatus (env_time E) ICE_OP_JOIN_SESSION new_IceSession)\<lparr>is_id := ?sid, request := Some conn\<rparr>"
    from s [OF Inr, of ?is ?sid "Some (new_endpoint E)" ICE_OP_LOCAL_INFO ?n ?sid
        "?is\<lparr>endpoint := Some (new_endpoint E)\<rparr>" "text_of (cmd_content command)"] Inr p show ?thesis
      by (auto simp: joinSession_def Let_def split: if_splits)
  qed
qed

lemma startForward_crash:
  "startForward os cfg media ice webrtc fs = Inl c \<Longrightarrow>
    c = AssertFailed \<and> local_port ice \<le> 0 \<or> c = Uninitialised \<and> \<not> os_event_new os"
  by (auto simp: startForward_def Let_def split: if_splits prod.splits)

lemma start_media_crash:
  "start_media E os media a key pair fwd = Inl c \<Longrightarrow>
    c = AssertFailed \<and> local_port pair \<le> 0 \<or> c = Uninitialised \<and> \<not> os_event_new os"
  by (auto simp: start_media_def split: sum.splits prod.splits dest: startForward_crash)

lemma test_remote_port [simp]: "local_port (test_remote S p pair) = local_port pair"
  by (simp add: test_remote_def)

lemma start_forwards_crash:
  assumes "start_forwards E a pairs S = Inl c" "pairs \<noteq> []"
  shows "c = AssertFailed \<and> (\<exists>p \<in> set pairs. local_port p \<le> 0)
    \<or> c = Uninitialised \<and> \<not> (os_event_new (relay_os1 E) \<and> os_event_new (relay_os2 E))"
proof (cases "start_first E a pairs S")
  case (Inl d)
  with assms have "start_first E a pairs S = Inl c" by (simp add: start_forwards_def)
  then show ?thesis using assms(2)
    by (auto simp: start_first_def dest!: start_media_crash split: if_splits)
next
  case (Inr x)
  obtain ok fwd eff where x: "x = (ok, fwd, eff)" by (cases x)
  with Inr assms have "length pairs > 2"
    "start_media E (relay_os2 E) MEDIA_VIDEO a ''video'' (test_remote S 10002 (pairs ! 2)) fwd = Inl c"
    by (auto simp: start_forwards_def split: if_splits sum.splits)
  with start_media_crash [OF this(2)] show ?thesis by auto
qed

lemma relay_forwards_crash:
  assumes "relay_forwards E content pairs S = Inl c"
  shows "\<exists>a. start_forwards E a pairs S = Inl c"
proof -
  obtain ok a errs where p: "Reader_parse (env_lib E) Features_all content nullValue = Some (ok, a, errs)"
    using assms by (cases "Reader_parse (env_lib E) Features_all content nullValue") (auto simp: relay_forwards_def)
  with assms show ?thesis
    by (cases ok; cases "throw_bind (vmember a ''result'') asInt"; cases "start_forwards E a pairs S")
       (auto simp: relay_forwards_def split: if_splits)
qed

lemma relaySession_crash:
  assumes S: "ice_inv S" and r: "relaySession E command S = Inl c"
  shows "\<exists>is result. omap_find (sessions S) (cmd_sessionId command) = Some is \<and> curStatus is = ICE_OP_ICE_RESULT
    \<and> iceResult is = Some result
    \<and> (endpoint is = None \<and> c = NullDeref
       \<or> c = AssertFailed \<and> (\<exists>p \<in> set (get_addr_pairs_from_result E result). local_port p \<le> 0)
       \<or> c = Uninitialised \<and> \<not> (os_event_new (relay_os1 E) \<and> os_event_new (relay_os2 E)))"
proof (cases "omap_find (sessions S) (cmd_sessionId command)")
  case None
  then show ?thesis using r by (simp add: relaySession_def Let_def)
next
  case (Some "is")
  let ?sid = "cmd_sessionId command"
  have st: "curStatus is = ICE_OP_ICE_RESULT" "cmd_content command \<noteq> []"
    using r Some by (auto simp: relaySession_def Let_def split: if_splits)
  with ice_inv_session [OF S Some] obtain result where res: "iceResult is = Some result" by (auto simp: session_ok_def)
  show ?thesis
  proof (cases "endpoint is")
    case None
    then show ?thesis using r Some st res by (simp add: relaySession_def Let_def)
  next
    case e: (Some e)
    let ?pairs = "get_addr_pairs_from_result E result"
    let ?rf = "relay_forwards E (text_of (cmd_content command)) ?pairs (put_session ?sid (is\<lparr>endpoint := None\<rparr>) S)"
    have ne: "?pairs \<noteq> []" using r Some st res e by (auto simp: relaySession_def Let_def)
    have "?rf = Inl c" using r Some st res e ne
      by (cases ?rf) (simp_all add: relaySession_def Let_def case_prod_unfold split: option.splits)
    then show ?thesis using relay_forwards_crash start_forwards_crash ne Some st res by blast
  qed
qed

lemma startSession_safe: "ice_inv S \<Longrightarrow> startSession E command S \<noteq> Inl c"
proof
  assume S: "ice_inv S" and r: "startSession E command S = Inl c"
  show False
  proof (cases "omap_find (sessions S) (cmd_sessionId command)")
    case (Some "is")
    with r have "checkStatus (curStatus is) ICE_OP_START_SESSION" "endpoint is = None"
      by (auto simp: startSession_def Let_def split: if_splits option.splits)
    with ice_inv_session [OF S Some] show False by (auto simp: session_ok_def)
  qed (use r in \<open>simp add: startSession_def Let_def\<close>)
qed



text \<open>
  A refused RELAY leaves a trap. When the answer of the first RELAY for a negotiated session is
  no JSON text, the endpoint is freed and forgotten but the session stays and keeps accepting
  RELAY: whatever the next RELAY for it carries, the server reads through the null endpoint.
\<close>
theorem refused_relay_crashes:
  assumes "omap_find (sessions S) (cmd_sessionId command) = Some is" "curStatus is = ICE_OP_ICE_RESULT"
    and "endpoint is = Some e" "iceResult is = Some result" "get_addr_pairs_from_result E result \<noteq> []"
    and "cmd_content command \<noteq> []" "cmd_op command = 6"
    and "Reader_parse (env_lib E) Features_all (text_of (cmd_content command)) nullValue = Some (False, v, errors)"
    and "cmd_op next_command = 6" "cmd_sessionId next_command = cmd_sessionId command" "cmd_content next_command \<noteq> []"
  shows "\<exists>S'. handleIceCommand E command conn S = Inr (S', [EndpointFreed e])
    \<and> life_of S' (cmd_sessionId command) = Some (ICE_OP_ICE_RESULT, None)
    \<and> handleIceCommand E' next_command conn' S' = Inl NullDeref"
  using assms
  by (simp add: handleIceCommand_def relaySession_def Let_def relay_forwards_def life_of_def)

section \<open>From a result to forwards\<close>

text \<open>A candidate as the ICE library and the control server write it: an object with an address.\<close>

definition has_address :: "Value \<Rightarrow> string \<Rightarrow> int \<Rightarrow> bool" where
  "has_address v ip port \<longleftrightarrow> (\<exists>m. v = objectValue m \<and> omap_find m ''ip'' = Some (stringValue ip)
     \<and> omap_find m ''port'' = Some (intValue port) \<and> 0 \<le> port \<and> port \<le> maxInt)"

definition has_pair :: "Value \<Rightarrow> string \<times> int \<times> string \<times> int \<Rightarrow> bool" where
  "has_pair v p \<longleftrightarrow> (case p of (lip, lport, rip, rport) \<Rightarrow> \<exists>m l r. v = objectValue m
     \<and> omap_find m ''local'' = Some l \<and> has_address l lip lport
     \<and> omap_find m ''remote'' = Some r \<and> has_address r rip rport)"

fun with_sockets :: "(string \<times> int \<times> string \<times> int) list \<Rightarrow> (int \<times> int) list \<Rightarrow> AddrPair list" where
  "with_sockets [] socks = []"
| "with_sockets ((lip, lport, rip, rport) # ps) socks =
     (let (fd, socks') = eice_get_global_socket lport socks
      in \<lparr>local_ip = lip, local_port = lport, remote_ip = rip, remote_port = rport, local_fd = fd\<rparr>
           # with_sockets ps socks')"

lemma names [simp]: "c_str ''ip'' = ''ip''" "c_str ''port'' = ''port''" "c_str ''local'' = ''local''"
  "c_str ''remote'' = ''remote''" "c_str ''pairs'' = ''pairs''" "c_str ''result'' = ''result''"
  "c_str ''audio'' = ''audio''" "c_str ''video'' = ''video''"
  by (simp_all add: c_str_id NUL_def)

lemma omap_find_reread: "omap_find (map (\<lambda>(k, x). (k, reread x)) a) key = map_option reread (omap_find a key)"
  by (induction a) auto

lemma has_address_reread: "has_address v ip port \<Longrightarrow> has_address (reread v) ip port"
  by (auto simp: has_address_def omap_find_reread)

lemma has_pair_reread: "has_pair v p \<Longrightarrow> has_pair (reread v) p"
  using has_address_reread by (fastforce simp: has_pair_def omap_find_reread split: prod.splits)

lemma vmember_find: "omap_find m key = Some x \<Longrightarrow> c_str key = key \<Longrightarrow> vmember (objectValue m) key = Inr x"
  by (simp add: vmember_def member_ref_def)

lemma read_address:
  assumes "has_address v ip port"
  shows "throw_bind (vmember v ''ip'') (asString pf) = Inr ip"
    and "throw_bind (vmember v ''port'') asInt = Inr port"
    and "throw_bind (vmember v ''port'') asUInt = Inr port"
  using assms by (auto simp: has_address_def vmember_find int_limits)

lemma read_pair_has:
  assumes "has_pair x (lip, lport, rip, rport)" "vindex items i = Inr x"
  shows "read_pair L items i socks = Inr
    (\<lparr>local_ip = lip, local_port = lport, remote_ip = rip, remote_port = rport,
       local_fd = fst (eice_get_global_socket lport socks)\<rparr>, snd (eice_get_global_socket lport socks))"
  using assms by (auto simp: has_pair_def read_pair_def vmember_find read_address case_prod_unfold Let_def)

lemma read_pairs_has:
  assumes "map fst (a @ b) = [0 ..< length (a @ b)]" "list_all2 (\<lambda>(i, x) p. has_pair x p) b ps"
  shows "read_pairs L (arrayValue (a @ b)) (length a) (length b) socks = with_sockets ps socks"
  using assms
proof (induction b arbitrary: a ps socks)
  case (Cons y b)
  obtain i x where y: "y = (i, x)" by (cases y)
  from Cons.prems(2) obtain lip lport rip rport ps' where
    p: "ps = (lip, lport, rip, rport) # ps'" "has_pair x (lip, lport, rip, rport)"
      "list_all2 (\<lambda>(i, x) p. has_pair x p) b ps'"
    by (auto simp: y list_all2_Cons1)
  have "map fst (a @ y # b) ! length a = length a"
    unfolding Cons.prems(1) by (simp del: upt_Suc)
  then have i: "i = length a" by (simp add: y nth_append)
  have "omap_of (a @ y # b)" using Cons.prems(1) by (simp add: omap_of_def sorted_wrt_upt del: map_append upt_Suc)
  then have "omap_find (a @ y # b) (length a) = Some x"
    by (rule omap_in_find) (simp add: y i)
  then have v: "vindex (arrayValue (a @ y # b)) (length a) = Inr x" by (simp add: vindex_def index_ref_def)
  have "read_pairs L (arrayValue (a @ y # b)) (Suc (length a)) (length b) socks' = with_sockets ps' socks'" for socks'
    using Cons.IH [of "a @ [y]" ps' socks'] Cons.prems(1) p(3) by simp
  then show ?case using read_pair_has [OF p(2) v] by (simp add: p(1) case_prod_unfold Let_def)
qed simp

lemma pairs_of_written:
  assumes "plain (objectValue m)" "\<not> dropNullPlaceholders W" "omap_find m ''pairs'' = Some (arrayValue items)"
    and "list_all2 (\<lambda>(i, x) p. has_pair x p) items ps"
  shows "get_addr_pairs_from_result E (FastWriter_write (env_lib E) W (objectValue m)) = with_sockets ps (stolen E)"
proof -
  have r: "Reader_parse (env_lib E) Features_all (FastWriter_write (env_lib E) W (objectValue m)) nullValue
      = Some (True, reread (objectValue m), [])"
    using assms(1,2) by (rule parse_written) (simp add: Features_all_def)
  let ?items = "map (\<lambda>(i, x). (i, reread x)) items"
  have f: "vmember (reread (objectValue m)) ''pairs'' = Inr (arrayValue ?items)"
    using assms(3) by (simp add: vmember_find omap_find_reread)
  have p: "plain (arrayValue items)" using assms(1) omap_find_Some_in [OF assms(3)] by fastforce
  then have "map fst ?items = [0 ..< length ?items]" by (simp add: case_prod_unfold comp_def)
  moreover have "list_all2 (\<lambda>(i, x) p. has_pair x p) ?items ps"
    using assms(4) has_pair_reread by (auto simp: list_all2_conv_all_nth case_prod_unfold)
  moreover have "Value_size (arrayValue ?items) = length ?items"
    using p by (cases items rule: rev_cases) (auto simp: Value_size_def)
  ultimately show ?thesis
    using r f read_pairs_has [of "[]" ?items ps "env_lib E" "stolen E"]
    by (simp add: get_addr_pairs_from_result_def isNull_def)
qed

lemma length_with_sockets [simp]: "length (with_sockets ps socks) = length ps"
  by (induction ps arbitrary: socks) (auto simp: case_prod_unfold Let_def)

lemma erase_absent: "k \<notin> fst ` set m \<Longrightarrow> omap_erase k m = m"
  by (induction m) auto

lemma erase_put: "omap_of m \<Longrightarrow> omap_erase k (omap_put k v m) = omap_erase k m"
proof (induction m)
  case (Cons p m)
  have "k < fst p \<Longrightarrow> k \<notin> fst ` set (p # m)" using Cons.prems by (force simp: omap_of_Cons)
  with Cons show ?case using erase_absent [of k "p # m"] by (auto simp: omap_of_Cons)
qed simp

definition peer_addr :: "ice_env \<Rightarrow> udp_os \<Rightarrow> string \<Rightarrow> int \<Rightarrow> sockaddr_in" where
  "peer_addr E os ip port = \<lparr>sin_family = 2, sin_port = htons (of_int port), sin_addr = os_inet_addr os ip,
     sin_zero = stack_padding E\<rparr>"

lemma start_media_has:
  assumes "omap_find m key = Some v" "c_str key = key" "has_address v ip port"
  shows "start_media E os media (objectValue m) key pair fwd =
    (case startForward os (resend_cfg E) media pair (peer_addr E os ip port) fwd of
       Inl e \<Rightarrow> Inl e | Inr (fwd', eff) \<Rightarrow> Inr (True, fwd', eff))"
  by (simp add: start_media_def vmember_find [OF assms(1,2)] read_address [OF assms(3)] peer_addr_def)

lemma relay_effect:
  assumes "ice_inv S" "cmd_op command = 6" "testIP S = []" "\<not> dropNullPlaceholders W"
    and "omap_find (sessions S) (cmd_sessionId command) = Some is" "curStatus is = ICE_OP_ICE_RESULT"
    and "endpoint is = Some e" "iceResult is = Some (FastWriter_write (env_lib E) W (objectValue result))"
    and "plain (objectValue result)" "omap_find result ''pairs'' = Some (arrayValue items)"
    and "list_all2 (\<lambda>(i, x) p. has_pair x p) items ps" "pairs = with_sockets ps (stolen E)" "2 < length pairs"
    and "cmd_content command = bytes_of (FastWriter_write (env_lib E) W (objectValue answer))"
    and "plain (objectValue answer)" "omap_find answer ''result'' = Some (intValue 0)"
    and "omap_find answer ''audio'' = Some audio" "has_address audio aip aport"
    and "omap_find answer ''video'' = Some video" "has_address video vip vport"
    and "startForward (relay_os1 E) (resend_cfg E) MEDIA_AUDIO (pairs ! 0) (peer_addr E (relay_os1 E) aip aport) (forwards S)
           = Inr (fwd1, eff1)"
    and "startForward (relay_os2 E) (resend_cfg E) MEDIA_VIDEO (pairs ! 2) (peer_addr E (relay_os2 E) vip vport) fwd1
           = Inr (fwd2, eff2)"
  shows "handleIceCommand E command conn S
    = Inr (S\<lparr>sessions := omap_erase (cmd_sessionId command) (sessions S), forwards := fwd2\<rparr>,
           EndpointFreed e # map Relayed (eff1 @ eff2))"
proof -
  let ?sid = "cmd_sessionId command"
  let ?S1 = "put_session ?sid (is\<lparr>endpoint := None\<rparr>) S"
  have pairs: "get_addr_pairs_from_result E (FastWriter_write (env_lib E) W (objectValue result)) = pairs"
    using pairs_of_written [OF assms(9,4,10,11), of E] assms(12) by simp
  have p: "Reader_parse (env_lib E) Features_all (FastWriter_write (env_lib E) W (objectValue answer)) nullValue
      = Some (True, reread (objectValue answer), [])"
    using assms(15,4) by (rule parse_written) (simp add: Features_all_def)
  have res: "throw_bind (vmember (reread (objectValue answer)) ''result'') asInt = Inr 0"
    using assms(16) by (simp add: vmember_find omap_find_reread int_limits)
  have aud: "isMember (reread (objectValue answer)) ''audio'' = Inr True"
    using assms(17) by (simp add: isMember_def member_at_def omap_find_reread)
  note media = start_media_has [where m = "map (\<lambda>(k, x). (k, reread x)) answer"]
  have hd: "hd pairs = pairs ! 0" using assms(13) by (cases pairs) auto
  have a: "start_media E (relay_os1 E) MEDIA_AUDIO (reread (objectValue answer)) ''audio'' (hd pairs) (forwards S)
      = Inr (True, fwd1, eff1)"
    using assms(17,21) has_address_reread [OF assms(18)] hd by (simp add: omap_find_reread media)
  have v: "start_media E (relay_os2 E) MEDIA_VIDEO (reread (objectValue answer)) ''video'' (pairs ! 2) fwd1
      = Inr (True, fwd2, eff2)"
    using assms(19,22) has_address_reread [OF assms(20)] by (simp add: omap_find_reread media)
  have t: "test_remote ?S1 port pair = pair" for port pair
    using assms(3) by (simp add: test_remote_def put_session_def)
  have fw: "forwards ?S1 = forwards S" by (simp add: put_session_def)
  have "relay_forwards E (text_of (cmd_content command)) pairs ?S1 = Inr (Some (fwd2, eff1 @ eff2))"
    using assms(13,14) p res aud a v fw by (simp add: relay_forwards_def start_forwards_def start_first_def t)
  moreover have "pairs \<noteq> []" "cmd_content command \<noteq> []" using assms(13,14)
    by (auto simp: bytes_of_def FastWriter_write_def writeValue.simps)
  ultimately show ?thesis
    using assms(2,5-8) pairs erase_put [OF ice_inv_omap [OF assms(1)]]
    by (simp add: handleIceCommand_def relaySession_def Let_def erase_session_def delete_IceSession_def
        put_session_def)
qed


definition sample_address :: "string \<Rightarrow> int \<Rightarrow> Value" where
  "sample_address ip port = objectValue [(''ip'', stringValue ip), (''port'', intValue port)]"

definition sample_pair :: "int \<Rightarrow> Value" where
  "sample_pair port = objectValue [(''local'', sample_address ''a'' port), (''remote'', sample_address ''b'' 6)]"

definition sample_result :: "(string, Value) omap" where
  "sample_result = [(''pairs'', arrayValue [(0, sample_pair 10), (1, sample_pair 11), (2, sample_pair 12)])]"

definition sample_answer :: "(string, Value) omap" where
  "sample_answer = [(''audio'', sample_address ''c'' 7), (''result'', intValue 0), (''video'', sample_address ''c'' 8)]"

definition sample_negotiated :: IceSession where
  "sample_negotiated = (sample_session ICE_OP_ICE_RESULT (Some 5))
     \<lparr>iceResult := Some (FastWriter_write no_doubles new_FastWriter (objectValue sample_result))\<rparr>"

lemma sample_plain: "plain (objectValue sample_result)" "plain (objectValue sample_answer)"
  by (auto simp: sample_result_def sample_answer_def sample_pair_def sample_address_def omap_of_def NUL_def int_limits
      less_char_def)


theorem refused_relay_crashes_witness:
  "\<exists>S'. handleIceCommand sample_env \<lparr>cmd_op = 6, cmd_sessionId = 9, cmd_content = [91]\<rparr> 3 (sample_with sample_negotiated)
        = Inr (S', [EndpointFreed 5])
    \<and> life_of S' 9 = Some (ICE_OP_ICE_RESULT, None)
    \<and> handleIceCommand sample_env \<lparr>cmd_op = 6, cmd_sessionId = 9, cmd_content = [91]\<rparr> 3 S' = Inl NullDeref"
proof -
  have "get_addr_pairs_from_result sample_env (FastWriter_write (env_lib sample_env) new_FastWriter (objectValue sample_result))
      = with_sockets [(''a'', 10, ''b'', 6), (''a'', 11, ''b'', 6), (''a'', 12, ''b'', 6)] (stolen sample_env)"
  proof (rule pairs_of_written [OF sample_plain(1)])
    show "omap_find sample_result ''pairs''
      = Some (arrayValue [(0, sample_pair 10), (1, sample_pair 11), (2, sample_pair 12)])" by (simp add: sample_result_def)
  qed (auto simp: new_FastWriter_def has_pair_def sample_pair_def has_address_def sample_address_def int_limits)
  then have p: "get_addr_pairs_from_result sample_env (FastWriter_write no_doubles new_FastWriter (objectValue sample_result)) \<noteq> []"
    by (auto simp: sample_env_def case_prod_unfold Let_def)
  have "map_option fst (Reader_parse no_doubles Features_all ''['' nullValue) = Some False" by code_simp
  then obtain v errors where r: "Reader_parse no_doubles Features_all ''['' nullValue = Some (False, v, errors)" by auto
  have t: "text_of [91] = ''[''" using text_of_bytes_of [of "''[''"] by (simp add: bytes_of_def)
  show ?thesis
    using refused_relay_crashes [of "sample_with sample_negotiated" "\<lparr>cmd_op = 6, cmd_sessionId = 9, cmd_content = [91]\<rparr>"
      sample_negotiated 5 _ sample_env v errors "\<lparr>cmd_op = 6, cmd_sessionId = 9, cmd_content = [91]\<rparr>" 3 sample_env 3] p r t
    by (simp add: sample_with_def sample_negotiated_def sample_session_def sample_env_def)
qed

end
