(* ===== verification/Ini.thy ===== *)
theory Ini
  imports Prelude
begin

text \<open>
  The reader of the configuration file (\<open>bridgeserver/ini.hpp\<close>): nested sections, their order, and the
  text that \<open>dump\<close> writes. What is read back from that text is what was read first.
\<close>

section \<open>Lines\<close>

text \<open>\<open>std::getline\<close> until the end of the file; a last line need not be closed.\<close>

function getlines :: "string \<Rightarrow> string list" where
  "getlines s =
     (if s = [] then [] else takeWhile (\<lambda>c. c \<noteq> LF) s # getlines (drop 1 (dropWhile (\<lambda>c. c \<noteq> LF) s)))"
  by pat_completeness auto
termination
  by (relation "measure length")
    (auto simp: le_imp_less_Suc length_dropWhile_le diff_less_mono2 intro!: le_less_trans [OF diff_le_mono [OF length_dropWhile_le]])

declare getlines.simps [simp del]

text \<open>
  \<open>strchr\<close> finds the terminator of its string as well, so a NUL is trimmed like a blank.
\<close>

definition trimmed_char :: "char \<Rightarrow> bool" where
  "trimmed_char c \<longleftrightarrow> c \<in> {CHR '' '', TAB, CR, LF, NUL}"

definition trim :: "string \<Rightarrow> string" where
  "trim s = rev (dropWhile trimmed_char (rev (dropWhile trimmed_char s)))"

section \<open>Levels\<close>

text \<open>
  A level keeps its values and sections in maps and, as iterators into them, their order in the file.
  A \<open>parent\<close> pointer is the path from the top without its last name.
\<close>

datatype Level = Level
  (level_values: "(string, string) omap")
  (level_sections: "(string, Level) omap")
  (ordered_values: "string list")
  (ordered_sections: "string list")
  (level_depth: nat)

definition new_Level :: Level where
  "new_Level = Level [] [] [] [] 0"

text \<open>The level at a path, and its replacement in the tree.\<close>

fun get_level :: "string list \<Rightarrow> Level \<Rightarrow> Level option" where
  "get_level [] l = Some l"
| "get_level (n # ns) l =
     (case omap_find (level_sections l) n of None \<Rightarrow> None | Some l' \<Rightarrow> get_level ns l')"

fun upd_level :: "string list \<Rightarrow> (Level \<Rightarrow> Level) \<Rightarrow> Level \<Rightarrow> Level" where
  "upd_level [] f l = f l"
| "upd_level (n # ns) f (Level v s ov os d) =
     (case omap_find s n of
        None \<Rightarrow> Level v s ov os d
      | Some l' \<Rightarrow> Level v (omap_put n (upd_level ns f l') s) ov os d)"

fun put_section :: "string \<Rightarrow> Level \<Rightarrow> Level \<Rightarrow> Level" where
  "put_section n l (Level v s ov os d) = Level v (omap_put n l s) ov (os @ [n]) d"

fun put_value :: "string \<Rightarrow> string \<Rightarrow> Level \<Rightarrow> Level" where
  "put_value k x (Level v s ov os d) = Level (omap_put k x v) s (ov @ [k]) os d"

fun set_depth :: "nat \<Rightarrow> Level \<Rightarrow> Level" where
  "set_depth d (Level v s ov os _) = Level v s ov os d"

section \<open>Reading\<close>

text \<open>An exception carries its text and the number of the line.\<close>

datatype ini_error = IniError string nat

text \<open>
  The name ends as many characters before the end of the line as it has brackets in front, whatever
  these characters are; \<open>substr\<close> takes the rest when the difference of the lengths wraps.
\<close>

definition parseSLine :: "string \<Rightarrow> string \<times> nat" where
  "parseSLine line =
     (let depth = length (takeWhile (\<lambda>c. c = CHR ''['') line)
      in (if 2 * depth \<le> length line then take (length line - 2 * depth) (drop depth line) else drop depth line, depth))"

text \<open>
  A section line, read while \<open>path\<close> is the current level, whose depth is the length of its path. The
  parent is the current level or one above it.
\<close>

definition open_section :: "string \<Rightarrow> string list \<Rightarrow> Level \<Rightarrow> string + string list \<times> Level" where
  "open_section line path tree =
     (let (sname, depth) = parseSLine line
      in if depth > length path + 1 then Inl ''section with wrong depth''
         else
           let parent = take (depth - 1) path
           in (case get_level parent tree of
                 None \<Rightarrow> Inl ''section with wrong depth''
               | Some p \<Rightarrow>
                   let lp = (case omap_find (level_sections p) sname of None \<Rightarrow> new_Level | Some l \<Rightarrow> l)
                   in if level_depth lp \<noteq> 0 then Inl ''duplicate section name on the same level''
                      else Inr (parent @ [sname], upd_level parent (put_section sname (set_depth depth lp)) tree)))"

definition read_value :: "string \<Rightarrow> string list \<Rightarrow> Level \<Rightarrow> string + Level" where
  "read_value line path tree =
     (if CHR ''='' \<notin> set line then Inl ''no '=' found''
      else
        let n = length (takeWhile (\<lambda>c. c \<noteq> CHR ''='') line);
            key = trim (take n line); val = trim (drop (n + 1) line)
        in (case get_level path tree of
              None \<Rightarrow> Inl ''duplicated key found''
            | Some l \<Rightarrow>
                if omap_find (level_values l) key \<noteq> None then Inl ''duplicated key found''
                else Inr (upd_level path (put_value key val) tree)))"

text \<open>
  \<open>parse\<close>. A nested call reads the file to its end, so its caller has nothing left to read: the calls
  are tail calls, and what they keep is the current level.
\<close>

fun parse_lines :: "string list \<Rightarrow> nat \<Rightarrow> string list \<Rightarrow> Level \<Rightarrow> ini_error + Level" where
  "parse_lines [] ln path tree = Inr tree"
| "parse_lines (line # rest) ln path tree =
     (if line \<noteq> [] \<and> (hd line = CHR ''#'' \<or> hd line = CHR '';'') then parse_lines rest (ln + 1) path tree
      else
        let s = trim line
        in if s = [] then parse_lines rest (ln + 1) path tree
           else if hd s = CHR ''[''
           then (case open_section s path tree of
                   Inl msg \<Rightarrow> Inl (IniError msg (ln + 1))
                 | Inr (path', tree') \<Rightarrow> parse_lines rest (ln + 1) path' tree')
           else (case read_value s path tree of
                   Inl msg \<Rightarrow> Inl (IniError msg (ln + 1))
                 | Inr tree' \<Rightarrow> parse_lines rest (ln + 1) path tree'))"

definition Parser :: "string \<Rightarrow> ini_error + Level" where
  "Parser text = parse_lines (getlines text) 0 [] new_Level"

section \<open>Asking\<close>

text \<open>\<open>operator()\<close> and \<open>operator[]\<close> add what they do not find.\<close>

fun level_section :: "string \<Rightarrow> Level \<Rightarrow> Level \<times> Level" where
  "level_section n (Level v s ov os d) =
     (case omap_find s n of
        Some l \<Rightarrow> (l, Level v s ov os d)
      | None \<Rightarrow> (new_Level, Level v (omap_put n new_Level s) ov os d))"

fun level_value :: "string \<Rightarrow> Level \<Rightarrow> string \<times> Level" where
  "level_value k (Level v s ov os d) =
     (case omap_find v k of
        Some x \<Rightarrow> (x, Level v s ov os d)
      | None \<Rightarrow> ([], Level (omap_put k [] v) s ov os d))"

definition ask :: "string \<Rightarrow> string \<Rightarrow> Level \<Rightarrow> string \<times> Level" where
  "ask section key tree =
     (let (l, tree1) = level_section section tree; (x, l') = level_value key l
      in (x, upd_level [section] (\<lambda>_. l') tree1))"

definition readString :: "string \<Rightarrow> string \<Rightarrow> string \<Rightarrow> Level \<Rightarrow> string \<times> Level" where
  "readString section key defaultValue tree =
     (let (x, tree') = ask section key tree in (if x = [] then defaultValue else x, tree'))"

text \<open>\<open>atoi\<close> of a number that an \<open>int\<close> holds; a larger one has no defined result.\<close>

fun atoi_digits :: "int \<Rightarrow> string \<Rightarrow> int" where
  "atoi_digits acc [] = acc"
| "atoi_digits acc (c # cs) =
     (if CHR ''0'' \<le> c \<and> c \<le> CHR ''9'' then atoi_digits (acc * 10 + (of_char c - 48)) cs else acc)"

definition c_atoi :: "string \<Rightarrow> int" where
  "c_atoi s =
     (case dropWhile (\<lambda>c. c = CHR '' '' \<or> (CHR 0x09 \<le> c \<and> c \<le> CHR 0x0D)) (c_str s) of
        [] \<Rightarrow> 0
      | c # cs \<Rightarrow> if c = CHR ''-'' then - atoi_digits 0 cs else if c = CHR ''+'' then atoi_digits 0 cs
                  else atoi_digits 0 (c # cs))"

definition readInt :: "string \<Rightarrow> string \<Rightarrow> int \<Rightarrow> Level \<Rightarrow> int \<times> Level" where
  "readInt section key defaultValue tree =
     (let (x, tree') = ask section key tree in (if x = [] then defaultValue else c_atoi x, tree'))"

section \<open>Writing\<close>

definition section_line :: "nat \<Rightarrow> string \<Rightarrow> string" where
  "section_line d name = replicate d (CHR ''['') @ name @ replicate d (CHR '']'')"

fun concat_outcomes :: "string outcome list \<Rightarrow> string outcome" where
  "concat_outcomes [] = Inr []"
| "concat_outcomes (Inl e # rs) = Inl e"
| "concat_outcomes (Inr s # rs) = map_sum (\<lambda>e. e) (\<lambda>t. s @ t) (concat_outcomes rs)"

text \<open>
  The sections are written in their order in the file; the texts of all sections are looked up by
  name, as the iterators in \<open>ordered_sections\<close> point into the map.
\<close>

primrec dump :: "Level \<Rightarrow> string \<Rightarrow> string outcome" where
  "dump (Level v s ov os d) sname =
     (let parts = map (\<lambda>(n, (l, text)). (n, if level_depth l = d + 1 then text n else Inl AssertFailed))
                    (map (map_prod (\<lambda>n. n) (\<lambda>l. (l, dump l))) s)
      in concat_outcomes
           (Inr ((if sname \<noteq> [] then [LF] else []) @ section_line d sname @ (if sname \<noteq> [] then [LF] else [])
                 @ concat (map (\<lambda>k. case omap_find v k of Some x \<Rightarrow> k @ CHR ''='' # x @ [LF] | None \<Rightarrow> []) ov))
            # map (\<lambda>n. case map_of parts n of Some r \<Rightarrow> r | None \<Rightarrow> Inl OutOfBounds) os))"

end
