(* ===== verification/IniText.thy ===== *)
theory IniText
  imports Ini
begin

text \<open>
  What is known of a configuration that was read: its tree is well formed, dumping it never fails its
  assertion, and the dumped text reads as the same tree.
\<close>

section \<open>Trimming and lines\<close>

lemma trim_id: "x = [] \<or> \<not> trimmed_char (hd x) \<and> \<not> trimmed_char (last x) \<Longrightarrow> trim x = x"
proof (cases "x = []")
  case False
  assume a: "x = [] \<or> \<not> trimmed_char (hd x) \<and> \<not> trimmed_char (last x)"
  have "dropWhile trimmed_char y = y" if "y \<noteq> []" "\<not> trimmed_char (hd y)" for y
    using that by (cases y) auto
  from this [of x] this [of "rev x"] show ?thesis using a False by (simp add: trim_def hd_rev)
qed (simp add: trim_def)

lemma last_dropWhile: "dropWhile P xs \<noteq> [] \<Longrightarrow> last (dropWhile P xs) = last xs"
  by (induction xs) auto

lemma trim_ends: "trim s \<noteq> [] \<Longrightarrow> \<not> trimmed_char (hd (trim s)) \<and> \<not> trimmed_char (last (trim s))"
proof -
  assume a: "trim s \<noteq> []"
  let ?A = "dropWhile trimmed_char s"
  from a have d: "dropWhile trimmed_char (rev ?A) \<noteq> []" by (simp add: trim_def)
  then have "?A \<noteq> []" by (metis dropWhile.simps(1) rev.simps(1))
  then have "\<not> trimmed_char (hd ?A)" by (rule hd_dropWhile)
  moreover have "hd (trim s) = hd ?A" using d last_dropWhile [OF d] by (simp add: trim_def hd_rev last_rev)
  moreover have "last (trim s) = hd (dropWhile trimmed_char (rev ?A))" using d by (simp add: trim_def last_rev)
  ultimately show ?thesis using hd_dropWhile [OF d] by simp
qed

lemma hd_trim:
  assumes "trim s \<noteq> []" "\<not> trimmed_char (hd s)"
  shows "s \<noteq> [] \<and> hd (trim s) = hd s"
proof -
  have s: "s \<noteq> []" using assms(1) by (auto simp: trim_def)
  then have "trim s = rev (dropWhile trimmed_char (rev s))" using assms(2) by (cases s) (auto simp: trim_def)
  then show ?thesis using assms(1) s last_dropWhile [of trimmed_char "rev s"] by (simp add: hd_rev last_rev)
qed

lemma trim_trim [simp]: "trim (trim s) = trim s"
  using trim_ends [of s] by (intro trim_id) auto

lemma set_trim: "set (trim s) \<subseteq> set s"
  unfolding trim_def by (metis set_dropWhileD set_rev subsetI)

definition unlines :: "string list \<Rightarrow> string" where
  "unlines ls = concat (map (\<lambda>l. l @ [LF]) ls)"

lemma unlines_simps [simp]: "unlines [] = []" "unlines (l # ls) = l @ LF # unlines ls" "unlines (a @ b) = unlines a @ unlines b"
  by (simp_all add: unlines_def)

lemma getlines_unlines: "\<forall>l \<in> set ls. LF \<notin> set l \<Longrightarrow> getlines (unlines ls) = ls"
proof (induction ls)
  case Nil
  then show ?case by (simp add: getlines.simps)
next
  case (Cons l ls)
  have "takeWhile (\<lambda>c. c \<noteq> LF) (l @ LF # unlines ls) = l" using Cons.prems by (intro takeWhile_tail [THEN trans]) (auto simp: takeWhile_eq_all_conv)
  moreover have "dropWhile (\<lambda>c. c \<noteq> LF) (l @ LF # unlines ls) = LF # unlines ls" using Cons.prems by (subst dropWhile_append3) (auto simp: dropWhile_eq_Nil_conv dropWhile_append)
  ultimately show ?case using Cons by (subst getlines.simps) simp
qed

lemma getlines_no_LF: "l \<in> set (getlines s) \<Longrightarrow> LF \<notin> set l"
proof (induction s rule: getlines.induct)
  case (1 s)
  then show ?case by (subst (asm) (2) getlines.simps) (auto split: if_splits dest: set_takeWhileD)
qed

section \<open>Paths\<close>

lemma get_level_append: "get_level (p @ q) t = (case get_level p t of None \<Rightarrow> None | Some l \<Rightarrow> get_level q l)"
  by (induction p t rule: get_level.induct) (auto split: option.split)

lemma upd_level_append: "upd_level (p @ q) f t = upd_level p (upd_level q f) t"
  by (induction p "upd_level q f" t rule: upd_level.induct) (auto split: option.split)

lemma get_upd [simp]: "get_level p (upd_level p f t) = map_option f (get_level p t)"
  by (induction p f t rule: upd_level.induct) (auto split: option.split)

lemma upd_upd [simp]: "upd_level p f (upd_level p g t) = upd_level p (\<lambda>l. f (g l)) t"
proof (induction p g t rule: upd_level.induct)
  case (2 n ns g v s ov os d)
  then show ?case by (cases "omap_find s n") (auto simp: omap_put_put)
qed simp

lemma upd_cong: "get_level p t = Some l \<Longrightarrow> f l = g l \<Longrightarrow> upd_level p f t = upd_level p g t"
  by (induction p f t rule: upd_level.induct) (auto split: option.split option.splits)

section \<open>Well formed trees\<close>

definition key_ok :: "string \<Rightarrow> bool" where
  "key_ok k \<longleftrightarrow> LF \<notin> set k \<and> CHR ''='' \<notin> set k \<and> trim k = k \<and> (k \<noteq> [] \<longrightarrow> hd k \<noteq> CHR ''['')"

definition val_ok :: "string \<Rightarrow> bool" where
  "val_ok x \<longleftrightarrow> LF \<notin> set x \<and> trim x = x"

definition name_ok :: "string \<Rightarrow> bool" where
  "name_ok n \<longleftrightarrow> LF \<notin> set n \<and> (n \<noteq> [] \<longrightarrow> hd n \<noteq> CHR ''['')"

primrec wf_level :: "Level \<Rightarrow> nat \<Rightarrow> bool" where
  "wf_level (Level v s ov os d) n \<longleftrightarrow> d = n \<and> omap_of v \<and> omap_of s \<and> distinct ov \<and> distinct os
     \<and> set ov = fst ` set v \<and> set os = fst ` set s
     \<and> (\<forall>(k, x) \<in> set v. key_ok k \<and> val_ok x) \<and> (\<forall>k \<in> fst ` set s. name_ok k)
     \<and> (\<forall>(k, w) \<in> set (map (map_prod (\<lambda>k. k) wf_level) s). w (n + 1))"

lemma wf_Level: "wf_level (Level v s ov os d) n \<longleftrightarrow> d = n \<and> omap_of v \<and> omap_of s \<and> distinct ov \<and> distinct os
     \<and> set ov = fst ` set v \<and> set os = fst ` set s
     \<and> (\<forall>(k, x) \<in> set v. key_ok k \<and> val_ok x) \<and> (\<forall>(k, l) \<in> set s. name_ok k \<and> wf_level l (Suc n))"
  by (auto simp: map_prod_def)

declare wf_level.simps [simp del]
declare wf_Level [simp]

lemma wf_sub: "wf_level l n \<Longrightarrow> omap_find (level_sections l) k = Some l' \<Longrightarrow> wf_level l' (n + 1) \<and> name_ok k"
  by (cases l) (force dest: omap_find_Some_in)

lemma wf_get: "wf_level t n \<Longrightarrow> get_level p t = Some l \<Longrightarrow> wf_level l (n + length p)"
proof (induction p t arbitrary: n rule: get_level.induct)
  case (2 k ks t)
  then obtain l' where l': "omap_find (level_sections t) k = Some l'" "get_level ks l' = Some l" by (auto split: option.splits)
  from 2(1) [OF l'(1) _ l'(2), of "Suc n"] wf_sub [OF 2(2) l'(1)] show ?case by simp
qed simp

text \<open>Putting a well formed section or value into a level keeps it well formed.\<close>

lemma wf_replace:
  assumes "wf_level (Level v s ov os d) n" "omap_find s k = Some l'" "wf_level l (n + 1)"
  shows "wf_level (Level v (omap_put k l s) ov os d) n"
proof -
  have k: "k \<in> fst ` set s" using assms(2) by (force dest: omap_find_Some_in)
  have "name_ok k" using assms(1) k by auto
  then have "\<forall>(k', w) \<in> set (omap_put k l s). name_ok k' \<and> wf_level w (Suc n)"
    using assms(1,3) set_omap_put [of k l s] by auto
  then show ?thesis using assms(1) k by (auto simp: keys_omap_put omap_of_put)
qed

lemma wf_upd:
  assumes "wf_level t n" "get_level p t = Some l" "wf_level (f l) (n + length p)"
  shows "wf_level (upd_level p f t) n"
  using assms
proof (induction p f t arbitrary: n rule: upd_level.induct)
  case (2 k ks f v s ov os d)
  then obtain l' where l': "omap_find s k = Some l'" "get_level ks l' = Some l" by (auto split: option.splits)
  have "wf_level l' (n + 1)" using wf_sub [OF 2(2)] l'(1) by simp
  then have "wf_level (upd_level ks f l') (n + 1)" using 2(1) [OF l'(1) _ l'(2)] 2(4) by simp
  then show ?case using wf_replace [OF 2(2) l'(1)] l'(1) by simp
qed simp

lemma wf_put_section:
  assumes "wf_level l n" "wf_level x (n + 1)" "omap_find (level_sections l) k = None" "name_ok k"
  shows "wf_level (put_section k x l) n"
proof -
  obtain v s ov os d where l: "l = Level v s ov os d" by (cases l)
  have k: "k \<notin> fst ` set s" using assms(3) l by (simp add: omap_find_None)
  have "\<forall>(k', w) \<in> set (omap_put k x s). name_ok k' \<and> wf_level w (Suc n)"
    using assms(1,2,4) set_omap_put [of k x s] l by auto
  then show ?thesis using assms(1) k l by (auto simp: keys_omap_put omap_of_put)
qed

lemma wf_put_value:
  assumes "wf_level l n" "omap_find (level_values l) k = None" "key_ok k" "val_ok x"
  shows "wf_level (put_value k x l) n"
proof -
  obtain v s ov os d where l: "l = Level v s ov os d" by (cases l)
  have "k \<notin> fst ` set v" using assms(2) l by (simp add: omap_find_None)
  moreover have "\<forall>(k', x') \<in> set (omap_put k x v). key_ok k' \<and> val_ok x'"
    using assms(1,3,4) l set_omap_put [of k x v] by auto
  ultimately show ?thesis using assms(1) l by (auto simp: keys_omap_put omap_of_put)
qed

section \<open>Every tree that is read is well formed\<close>

lemma new_level_wf: "wf_level (set_depth n new_Level) n"
  by (simp add: new_Level_def)

lemma parseSLine_name:
  assumes "parseSLine line = (sname, depth)" "LF \<notin> set line"
  shows "name_ok sname"
proof -
  let ?r = "drop (length (takeWhile (\<lambda>c. c = CHR ''['') line)) line"
  have r: "?r = dropWhile (\<lambda>c. c = CHR ''['') line" by (simp add: dropWhile_eq_drop)
  have "\<exists>k. sname = take k ?r"
    using assms(1) by (auto simp: parseSLine_def Let_def split: if_splits) (metis order_refl take_all)
  then obtain k where k: "sname = take k ?r" by blast
  then have "set sname \<subseteq> set line" by (metis order_trans set_drop_subset set_take_subset)
  moreover have "hd sname \<noteq> CHR ''[''" if "sname \<noteq> []"
  proof -
    have "?r \<noteq> []" "hd sname = hd ?r" using that k by (auto simp: hd_take)
    then show ?thesis using hd_dropWhile [of "\<lambda>c. c = CHR ''[''" line] r by metis
  qed
  ultimately show ?thesis using assms(2) by (auto simp: name_ok_def)
qed

definition reading :: "string list \<Rightarrow> Level \<Rightarrow> bool" where
  "reading path t \<longleftrightarrow> wf_level t 0 \<and> get_level path t \<noteq> None"

lemma open_section_reading:
  assumes "open_section line path t = Inr (path', t')" "reading path t" "LF \<notin> set line"
    and "line \<noteq> []" "hd line = CHR ''[''"
  shows "reading path' t'"
proof -
  obtain sname depth where sl: "parseSLine line = (sname, depth)" by fastforce
  let ?p = "take (depth - 1) path"
  obtain p where p: "get_level ?p t = Some p" "\<not> depth > length path + 1"
    using assms(1) by (auto simp: open_section_def sl Let_def split: if_splits option.splits)
  have w: "wf_level t 0" "wf_level p (length ?p)" using assms(2) wf_get [OF _ p(1), of 0] by (auto simp: reading_def)
  have n: "omap_find (level_sections p) sname = None"
  proof (rule ccontr)
    assume "omap_find (level_sections p) sname \<noteq> None"
    then obtain l where l: "omap_find (level_sections p) sname = Some l" by auto
    then have "level_depth l \<noteq> 0" using wf_sub [OF w(2) l] by (cases l) simp
    then show False using assms(1) p l by (auto simp: open_section_def sl Let_def)
  qed
  have "0 < depth" using sl assms(4,5) by (cases line) (auto simp: parseSLine_def Let_def)
  then have d: "Suc (length ?p) = depth" using p(2) by simp
  let ?new = "set_depth depth new_Level"
  have t': "path' = ?p @ [sname]" "t' = upd_level ?p (put_section sname ?new) t"
    using assms(1) p n by (auto simp: open_section_def sl Let_def new_Level_def)
  have "wf_level ?new (Suc (length ?p))" using new_level_wf d by simp
  then have "wf_level (put_section sname ?new p) (length ?p)"
    using wf_put_section [OF w(2) _ n] parseSLine_name [OF sl assms(3)] by simp
  then have "wf_level t' 0" using wf_upd [OF w(1) p(1)] t'(2) by simp
  moreover have "get_level path' t' \<noteq> None" using p(1) by (cases p) (simp add: t' get_level_append)
  ultimately show ?thesis by (simp add: reading_def)
qed

lemma read_value_reading:
  assumes "read_value line path t = Inr t'" "reading path t" "LF \<notin> set line" "trim line = line"
    and "line \<noteq> []" "hd line \<noteq> CHR ''[''"
  shows "reading path t'"
proof -
  define n where "n = length (takeWhile (\<lambda>c. c \<noteq> CHR ''='') line)"
  let ?k = "trim (take n line)" and ?x = "trim (drop (n + 1) line)"
  obtain l where l: "get_level path t = Some l" "omap_find (level_values l) ?k = None" "t' = upd_level path (put_value ?k ?x) t"
    using assms(1) unfolding read_value_def n_def [symmetric] by (auto simp: Let_def split: if_splits option.splits)
  have w: "wf_level t 0" "wf_level l (length path)" using assms(2) wf_get [OF _ l(1), of 0] by (auto simp: reading_def)
  have tk: "take n line = takeWhile (\<lambda>c. c \<noteq> CHR ''='') line" by (simp add: n_def takeWhile_eq_take [symmetric])
  have "set ?k \<subseteq> set (take n line)" by (rule set_trim)
  then have k1: "LF \<notin> set ?k" "CHR ''='' \<notin> set ?k" using assms(3) unfolding tk by (auto dest: set_takeWhileD)
  have "hd ?k \<noteq> CHR ''[''" if "?k \<noteq> []"
  proof -
    have "\<not> trimmed_char (hd line)" using trim_ends [of line] assms(4,5) by simp
    moreover have "take n line \<noteq> []" using that trim_id [of "[]"] by metis
    moreover from this have "hd (take n line) = hd line" by (simp add: hd_take)
    ultimately have "hd ?k = hd line" using hd_trim [OF that] by simp
    then show ?thesis using assms(6) by simp
  qed
  then have "key_ok ?k" using k1 by (simp add: key_ok_def)
  moreover have "LF \<notin> set ?x" using set_trim [of "drop (n + 1) line"] assms(3) by (meson in_set_dropD subsetD)
  then have "val_ok ?x" by (simp add: val_ok_def)
  ultimately have "wf_level (put_value ?k ?x l) (length path)" using wf_put_value [OF w(2) l(2)] by simp
  then have "wf_level t' 0" using wf_upd [OF w(1) l(1)] l(3) by simp
  then show ?thesis using l(1,3) by (simp add: reading_def)
qed

lemma parse_lines_wf:
  assumes "parse_lines ls ln path t = Inr t'" "reading path t" "\<forall>l \<in> set ls. LF \<notin> set l"
  shows "wf_level t' 0"
  using assms
proof (induction ls ln path t rule: parse_lines.induct)
  case (2 line rest ln path t)
  let ?s = "trim line"
  have lf: "LF \<notin> set ?s" "\<forall>l \<in> set rest. LF \<notin> set l" using 2(7) set_trim [of line] by auto
  show ?case
  proof (cases "(line \<noteq> [] \<and> (hd line = CHR ''#'' \<or> hd line = CHR '';'')) \<or> ?s = []")
    case True
    then have "parse_lines rest (ln + 1) path t = Inr t'" using 2(5) by (auto simp: Let_def split: if_splits)
    then show ?thesis using True 2(1,2,6) lf by blast
  next
    case False
    then have f: "\<not> (line \<noteq> [] \<and> (hd line = CHR ''#'' \<or> hd line = CHR '';''))" "?s \<noteq> []" by auto
    show ?thesis
    proof (cases "hd ?s = CHR ''[''")
      case True
      then obtain path1 t1 where o: "open_section ?s path t = Inr (path1, t1)" "parse_lines rest (ln + 1) path1 t1 = Inr t'"
        using 2(5) f by (auto simp: Let_def split: if_splits sum.splits prod.splits)
      then show ?thesis using 2(3) [OF f(1) refl f(2) True o(1) refl] open_section_reading [OF o(1) 2(6) lf(1) f(2) True] lf(2) by simp
    next
      case False
      then obtain t1 where o: "read_value ?s path t = Inr t1" "parse_lines rest (ln + 1) path t1 = Inr t'"
        using 2(5) f by (auto simp: Let_def split: if_splits sum.splits)
      then show ?thesis using 2(4) [OF f(1) refl f(2) False o(1)] read_value_reading [OF o(1) 2(6) lf(1) _ f(2) False] lf(2) by simp
    qed
  qed
qed (auto simp: reading_def)

lemma Parser_wf: "Parser text = Inr t \<Longrightarrow> wf_level t 0"
  unfolding Parser_def by (rule parse_lines_wf) (auto simp: reading_def new_Level_def dest: getlines_no_LF)

section \<open>Dumping\<close>

text \<open>
  A name that is empty is written without its line ends, and a key in front of which the file had a
  blank may look like a comment; such trees do not survive.
\<close>

primrec printable :: "Level \<Rightarrow> bool" where
  "printable (Level v s ov os d) \<longleftrightarrow> (\<forall>k \<in> fst ` set v. k = [] \<or> hd k \<noteq> CHR ''#'' \<and> hd k \<noteq> CHR '';'')
     \<and> (\<forall>n \<in> fst ` set s. n \<noteq> []) \<and> (\<forall>(k, b) \<in> set (map (map_prod (\<lambda>k. k) printable) s). b)"

lemma printable_Level: "printable (Level v s ov os d) \<longleftrightarrow> (\<forall>k \<in> fst ` set v. k = [] \<or> hd k \<noteq> CHR ''#'' \<and> hd k \<noteq> CHR '';'')
     \<and> (\<forall>(k, l) \<in> set s. k \<noteq> [] \<and> printable l)"
  by (auto simp: map_prod_def)

declare printable.simps [simp del]
declare printable_Level [simp]

text \<open>The lines of a level: its values, then for each section a blank line, its own line and its lines.\<close>

definition value_line :: "(string, string) omap \<Rightarrow> string \<Rightarrow> string" where
  "value_line v k = k @ CHR ''='' # the (omap_find v k)"

primrec inside :: "Level \<Rightarrow> string list" where
  "inside (Level v s ov os d) = map (value_line v) ov
     @ concat (map (\<lambda>n. [] # section_line (d + 1) n # the (omap_find (map (map_prod (\<lambda>n. n) inside) s) n)) os)"

lemma find_map_prod: "omap_find (map (map_prod (\<lambda>n. n) f) s) n = map_option f (omap_find s n)"
  by (induction s) auto

lemma concat_outcomes_Inr: "concat_outcomes (map (\<lambda>x. Inr (f x)) xs) = Inr (concat (map f xs))"
  by (induction xs) auto

lemma unlines_concat: "unlines (concat xss) = concat (map unlines xss)"
  by (induction xss) auto

lemma unlines_map: "unlines (map f xs) = concat (map (\<lambda>x. f x @ [LF]) xs)"
  by (induction xs) auto

text \<open>\<open>dump\<close> writes these lines; its assertion holds.\<close>

lemma dump_inside:
  assumes "wf_level l n" "printable l"
  shows "dump l sname = Inr ((if sname \<noteq> [] then LF # section_line n sname @ [LF] else section_line n sname) @ unlines (inside l))"
  using assms
proof (induction l arbitrary: n sname)
  case (Level v s ov os d)
  let ?parts = "map (\<lambda>(n, l, text). (n, if level_depth l = d + 1 then text n else Inl AssertFailed))
    (map (map_prod (\<lambda>n. n) (\<lambda>l. (l, dump l))) s)"
  have sub: "(case map_of ?parts k of Some r \<Rightarrow> r | None \<Rightarrow> Inl OutOfBounds)
      = Inr (unlines ([] # section_line (d + 1) k # the (omap_find (map (map_prod (\<lambda>n. n) inside) s) k)))" if k: "k \<in> set os" for k
  proof -
    obtain l where l: "omap_find s k = Some l" using k Level.prems(1) by (cases "omap_find s k") (auto simp: omap_find_None)
    then have m: "(k, l) \<in> set s" by (rule omap_find_Some_in)
    then have w: "wf_level l (d + 1)" "printable l" "k \<noteq> []" using Level.prems by auto
    have "map_of ?parts k = Some (if level_depth l = d + 1 then dump l k else Inl AssertFailed)"
      using l unfolding omap_find_map_of by (induction s) (auto split: if_splits)
    moreover have "level_depth l = d + 1" using w(1) by (cases l) simp
    moreover have "dump l k = Inr ((LF # section_line (d + 1) k @ [LF]) @ unlines (inside l))"
      using Level.IH [OF m _ w(1,2)] w(3) by simp
    ultimately show ?thesis using l by (simp add: find_map_prod)
  qed
  have vals: "map (\<lambda>k. case omap_find v k of Some x \<Rightarrow> k @ CHR ''='' # x @ [LF] | None \<Rightarrow> []) ov = map (\<lambda>k. value_line v k @ [LF]) ov"
    using Level.prems(1) by (auto simp: value_line_def omap_find_None split: option.split)
  have secs: "map (\<lambda>k. case map_of ?parts k of Some r \<Rightarrow> r | None \<Rightarrow> Inl OutOfBounds) os
      = map (\<lambda>k. Inr (unlines ([] # section_line (d + 1) k # the (omap_find (map (map_prod (\<lambda>n. n) inside) s) k)))) os"
    using sub by (intro map_cong) auto
  have "d = n" using Level.prems(1) by simp
  then show ?case unfolding dump.simps Let_def vals secs
    by (simp add: concat_outcomes_Inr unlines_concat unlines_map o_def section_line_def)
qed

section \<open>Reading what was dumped\<close>

definition fresh_level :: "nat \<Rightarrow> Level" where
  "fresh_level d = Level [] [] [] [] d"

definition ini_reads :: "Level \<Rightarrow> nat \<Rightarrow> bool" where
  "ini_reads l d \<longleftrightarrow> (\<forall>path t ln rest. length path = d \<longrightarrow> get_level path t \<noteq> None
     \<longrightarrow> (\<exists>path' ln'. parse_lines (inside l @ rest) ln path (upd_level path (\<lambda>_. fresh_level d) t)
           = parse_lines rest ln' path' (upd_level path (\<lambda>_. l) t) \<and> take d path' = path))"

lemma read_value_line:
  assumes "key_ok k" "val_ok x" "k = [] \<or> hd k \<noteq> CHR ''#'' \<and> hd k \<noteq> CHR '';''"
    and "get_level path t = Some l" "omap_find (level_values l) k = None"
  shows "parse_lines ((k @ CHR ''='' # x) # rest) ln path t = parse_lines rest (ln + 1) path (upd_level path (put_value k x) t)"
proof -
  let ?l = "k @ CHR ''='' # x"
  have eq: "\<not> trimmed_char (CHR ''='')" by (simp add: trimmed_char_def NUL_def)
  have h: "\<not> trimmed_char (hd ?l)" using trim_ends [of k] assms(1) eq by (cases k) (auto simp: key_ok_def)
  have "\<not> trimmed_char (last ?l)" using trim_ends [of x] assms(2) eq by (cases "x = []") (auto simp: val_ok_def)
  with h have tr: "trim ?l = ?l" by (intro trim_id) simp
  have hd: "hd ?l \<noteq> CHR ''#''" "hd ?l \<noteq> CHR '';''" "hd ?l \<noteq> CHR ''[''" using assms(1,3) by (cases k; auto simp: key_ok_def)+
  have tw: "takeWhile (\<lambda>c. c \<noteq> CHR ''='') ?l = k" using assms(1) by (subst takeWhile_append2) (auto simp: key_ok_def)
  have "read_value ?l path t = Inr (upd_level path (put_value k x) t)"
    unfolding read_value_def tw using assms by (simp add: key_ok_def val_ok_def)
  then show ?thesis using hd tr by (simp add: Let_def)
qed

lemma read_values:
  assumes "distinct ks" "\<forall>k \<in> set ks. key_ok k \<and> val_ok (f k) \<and> (k = [] \<or> hd k \<noteq> CHR ''#'' \<and> hd k \<noteq> CHR '';'')"
    and "get_level path t = Some l" "\<forall>k \<in> set ks. omap_find (level_values (g l)) k = None"
  shows "parse_lines (map (\<lambda>k. k @ CHR ''='' # f k) ks @ rest) ln path (upd_level path g t)
    = parse_lines rest (ln + length ks) path (upd_level path (\<lambda>l. fold (\<lambda>k. put_value k (f k)) ks (g l)) t)"
  using assms
proof (induction ks arbitrary: ln g)
  case (Cons k ks)
  let ?g = "\<lambda>l. put_value k (f k) (g l)"
  have "\<forall>k' \<in> set ks. omap_find (level_values (?g l)) k' = None" using Cons.prems(1,4) by (cases "g l") auto
  then have "parse_lines (map (\<lambda>k. k @ CHR ''='' # f k) ks @ rest) (ln + 1) path (upd_level path ?g t)
      = parse_lines rest (ln + 1 + length ks) path (upd_level path (\<lambda>l. fold (\<lambda>k. put_value k (f k)) ks (?g l)) t)"
    using Cons.prems by (intro Cons.IH) auto
  moreover have "parse_lines (map (\<lambda>k. k @ CHR ''='' # f k) (k # ks) @ rest) ln path (upd_level path g t)
      = parse_lines (map (\<lambda>k. k @ CHR ''='' # f k) ks @ rest) (ln + 1) path (upd_level path ?g t)"
    using Cons.prems read_value_line [of k "f k" path "upd_level path g t" "g l"] by simp
  ultimately show ?case by simp
qed simp

lemma parse_section_line:
  assumes "n \<noteq> []" "name_ok n" "d > 0"
  shows "parseSLine (section_line d n) = (n, d)" "trim (section_line d n) = section_line d n" "section_line d n \<noteq> []"
    "hd (section_line d n) = CHR ''[''"
proof -
  have tw: "takeWhile (\<lambda>c. c = CHR ''['') (section_line d n) = replicate d (CHR ''['')"
    using assms(1,2) by (cases n) (auto simp: section_line_def name_ok_def takeWhile_append)
  show "parseSLine (section_line d n) = (n, d)" unfolding parseSLine_def tw by (simp add: section_line_def)
  show "section_line d n \<noteq> []" "hd (section_line d n) = CHR ''[''" using assms(3) by (cases d; simp add: section_line_def)+
  moreover have "last (section_line d n) = CHR '']''" using assms(3) by (cases d) (simp_all add: section_line_def)
  ultimately show "trim (section_line d n) = section_line d n" by (intro trim_id) (simp add: trimmed_char_def NUL_def)
qed

text \<open>The sections of one level, whatever deeper level the one before has left current.\<close>

lemma read_section:
  assumes "n \<noteq> []" "name_ok n" "ini_reads x (d + 1)"
    and "get_level path t = Some l" "length path = d" "take d path0 = path" "omap_find (level_sections (g l)) n = None"
  shows "\<exists>path' ln'. parse_lines ([] # section_line (d + 1) n # inside x @ rest) ln path0 (upd_level path g t)
    = parse_lines rest ln' path' (upd_level path (\<lambda>l. put_section n x (g l)) t) \<and> take d path' = path"
proof -
  let ?new = "fresh_level (d + 1)"
  let ?t = "upd_level path g t"
  let ?t1 = "upd_level path (put_section n ?new) ?t"
  have put: "upd_level [n] (\<lambda>_. y) (put_section n ?new k) = put_section n y k" for y k
    by (cases k) (simp add: omap_put_put)
  have t1: "upd_level (path @ [n]) (\<lambda>_. y) ?t1 = upd_level path (\<lambda>l. put_section n y (g l)) t" for y
    unfolding upd_level_append upd_upd put ..
  define T where "T = ?t"
  have g: "get_level path T = Some (g l)" using assms(4) by (simp add: T_def)
  note sl = parse_section_line [OF assms(1,2), of "d + 1"]
  have "d \<le> length path0" using assms(5,6) by (metis nat_le_linear take_all)
  then have "open_section (section_line (d + 1) n) path0 T = Inr (path @ [n], upd_level path (put_section n ?new) T)"
    using g assms(6,7) sl(1) by (simp add: open_section_def new_Level_def fresh_level_def)
  then have "parse_lines ([] # section_line (d + 1) n # inside x @ rest) ln path0 ?t
      = parse_lines (inside x @ rest) (ln + 2) (path @ [n]) ?t1"
    using sl by (simp add: Let_def trim_id T_def)
  also have "?t1 = upd_level (path @ [n]) (\<lambda>_. ?new) ?t1" using t1 [of ?new] by (simp only: upd_upd)
  finally have start: "parse_lines ([] # section_line (d + 1) n # inside x @ rest) ln path0 ?t
      = parse_lines (inside x @ rest) (ln + 2) (path @ [n]) (upd_level (path @ [n]) (\<lambda>_. ?new) ?t1)" .
  have "length (path @ [n]) = d + 1" "get_level (path @ [n]) ?t1 \<noteq> None"
    using assms(4,5) by (simp, cases "g l") (simp add: get_level_append)
  then obtain path1 ln1 where p1: "parse_lines (inside x @ rest) (ln + 2) (path @ [n]) (upd_level (path @ [n]) (\<lambda>_. ?new) ?t1)
      = parse_lines rest ln1 path1 (upd_level (path @ [n]) (\<lambda>_. x) ?t1)" "take (d + 1) path1 = path @ [n]"
    using assms(3) unfolding ini_reads_def by meson
  have "take d path1 = take d (take (d + 1) path1)" by simp
  also have "\<dots> = path" unfolding p1(2) using assms(5) by simp
  finally show ?thesis using start p1(1) t1 [of x] by auto
qed

lemma read_sections:
  assumes "distinct ns" "\<forall>n \<in> set ns. n \<noteq> [] \<and> name_ok n \<and> ini_reads (f n) (d + 1)"
    and "get_level path t = Some l" "length path = d" "take d path0 = path" "\<forall>n \<in> set ns. omap_find (level_sections (g l)) n = None"
  shows "\<exists>path' ln'. parse_lines (concat (map (\<lambda>n. [] # section_line (d + 1) n # inside (f n)) ns) @ rest) ln path0 (upd_level path g t)
    = parse_lines rest ln' path' (upd_level path (\<lambda>l. fold (\<lambda>n. put_section n (f n)) ns (g l)) t) \<and> take d path' = path"
  using assms
proof (induction ns arbitrary: ln path0 g)
  case (Cons n ns)
  let ?tail = "concat (map (\<lambda>n. [] # section_line (d + 1) n # inside (f n)) ns) @ rest"
  let ?g = "\<lambda>l. put_section n (f n) (g l)"
  obtain path1 ln1 where p1: "parse_lines ([] # section_line (d + 1) n # inside (f n) @ ?tail) ln path0 (upd_level path g t)
      = parse_lines ?tail ln1 path1 (upd_level path ?g t)" "take d path1 = path"
    using read_section [of n "f n" d path t l path0 g ?tail ln] Cons.prems by auto
  have "\<forall>k \<in> set ns. omap_find (level_sections (?g l)) k = None" using Cons.prems(1,6) by (cases "g l") auto
  then obtain path2 ln2 where "parse_lines ?tail ln1 path1 (upd_level path ?g t)
      = parse_lines rest ln2 path2 (upd_level path (\<lambda>l. fold (\<lambda>n. put_section n (f n)) ns (?g l)) t)" "take d path2 = path"
    using Cons.IH [of path1 ?g ln1] Cons.prems p1(2) by auto
  then show ?case using p1(1) by auto
qed auto

text \<open>Putting values and sections in their order into a fresh level gives the level.\<close>

lemma fold_values: "fold (\<lambda>k. put_value k (f k)) ks (Level v s ov os d)
    = Level (fold (\<lambda>k. omap_put k (f k)) ks v) s (ov @ ks) os d"
  by (induction ks arbitrary: v ov) auto

lemma fold_sections: "fold (\<lambda>k. put_section k (f k)) ks (Level v s ov os d)
    = Level v (fold (\<lambda>k. omap_put k (f k)) ks s) ov (os @ ks) d"
  by (induction ks arbitrary: s os) auto

lemma find_fold_put: "omap_find (fold (\<lambda>k. omap_put k (f k)) ks m) j = (if j \<in> set ks then Some (f j) else omap_find m j)"
  by (induction ks arbitrary: m) auto

lemma omap_of_fold_put: "omap_of m \<Longrightarrow> omap_of (fold (\<lambda>k. omap_put k (f k)) ks m)"
  by (induction ks arbitrary: m) (auto simp: omap_of_put)

lemma rebuild_omap:
  assumes "omap_of m" "set ks = fst ` set m"
  shows "fold (\<lambda>k. omap_put k (the (omap_find m k))) ks [] = m"
proof (rule omap_eqI)
  show "omap_find (fold (\<lambda>k. omap_put k (the (omap_find m k))) ks []) k = omap_find m k" for k
  proof (cases "omap_find m k")
    case None
    then have "k \<notin> set ks" using assms(2) by (simp add: omap_find_None)
    then show ?thesis using None by (simp add: find_fold_put)
  next
    case (Some x)
    then have "k \<in> fst ` set m" using omap_find_Some_in by force
    then show ?thesis using assms(2) Some by (simp add: find_fold_put)
  qed
qed (use assms in \<open>auto intro: omap_of_fold_put\<close>)

lemma reads_level: "wf_level l d \<Longrightarrow> printable l \<Longrightarrow> ini_reads l d"
proof (induction l arbitrary: d)
  case (Level v s ov os d')
  let ?val = "\<lambda>k. the (omap_find v k)" and ?sub = "\<lambda>n. the (omap_find s n)"
  have d': "d' = d" using Level.prems(1) by simp
  have v: "\<forall>k \<in> set ov. key_ok k \<and> val_ok (?val k) \<and> (k = [] \<or> hd k \<noteq> CHR ''#'' \<and> hd k \<noteq> CHR '';'')"
    using Level.prems by (auto simp: omap_in_find)
  have s: "\<forall>n \<in> set os. n \<noteq> [] \<and> name_ok n \<and> ini_reads (?sub n) (d + 1)"
  proof
    fix n
    assume "n \<in> set os"
    then obtain x where x: "(n, x) \<in> set s" using Level.prems(1) by auto
    then have "omap_find s n = Some x" using Level.prems(1) by (auto intro: omap_in_find)
    moreover have "wf_level x (d + 1)" "printable x" using Level.prems x by auto
    then have "ini_reads x (d + 1)" using Level.IH [OF x] by simp
    ultimately show "n \<noteq> [] \<and> name_ok n \<and> ini_reads (?sub n) (d + 1)" using Level.prems x by auto
  qed
  have ins: "inside (Level v s ov os d') = map (\<lambda>k. k @ CHR ''='' # ?val k) ov
      @ concat (map (\<lambda>n. [] # section_line (d + 1) n # inside (?sub n)) os)"
  proof -
    have "the (map_option inside (omap_find s n)) = inside (?sub n)" if "n \<in> set os" for n
      using that Level.prems(1) by (cases "omap_find s n") (auto simp: omap_find_None)
    then show ?thesis by (auto simp: value_line_def find_map_prod d' cong: map_cong)
  qed
  show ?case unfolding ini_reads_def
  proof (intro allI impI)
    fix path t ln rest
    assume p: "length path = d" "get_level path t \<noteq> None"
    let ?g = "\<lambda>_ :: Level. fresh_level d"
    let ?h = "\<lambda>l :: Level. fold (\<lambda>k. put_value k (?val k)) ov (fresh_level d)"
    let ?secs = "concat (map (\<lambda>n. [] # section_line (d + 1) n # inside (?sub n)) os)"
    obtain l where l: "get_level path t = Some l" using p(2) by auto
    have "parse_lines (inside (Level v s ov os d') @ rest) ln path (upd_level path ?g t)
        = parse_lines (?secs @ rest) (ln + length ov) path (upd_level path ?h t)"
      unfolding ins append_assoc
      using Level.prems(1) v l by (intro read_values) (auto simp: fresh_level_def)
    moreover have "\<exists>path' ln'. parse_lines (?secs @ rest) (ln + length ov) path (upd_level path ?h t)
        = parse_lines rest ln' path' (upd_level path (\<lambda>l. fold (\<lambda>n. put_section n (?sub n)) os (?h l)) t) \<and> take d path' = path"
      using Level.prems(1) s l p(1) by (intro read_sections) (auto simp: fresh_level_def fold_values)
    moreover have "fold (\<lambda>n. put_section n (?sub n)) os (?h x) = Level v s ov os d'" for x
      using Level.prems(1) by (simp add: fresh_level_def fold_values fold_sections rebuild_omap)
    ultimately show "\<exists>path' ln'. parse_lines (inside (Level v s ov os d') @ rest) ln path (upd_level path ?g t)
        = parse_lines rest ln' path' (upd_level path (\<lambda>_. Level v s ov os d') t) \<and> take d path' = path"
      by auto
  qed
qed

lemma inside_no_LF: "wf_level l n \<Longrightarrow> x \<in> set (inside l) \<Longrightarrow> LF \<notin> set x"
proof (induction l arbitrary: n x)
  case (Level v s ov os d)
  consider (val) k y where "(k, y) \<in> set v" "x = k @ CHR ''='' # y"
    | (blank) "x = []"
    | (sec) k where "k \<in> set os" "x = section_line (d + 1) k"
    | (sub) k l where "(k, l) \<in> set s" "x \<in> set (inside l)"
  proof -
    have v: "omap_find v k = Some (the (omap_find v k))" if "k \<in> set ov" for k
      using that Level.prems(1) by (cases "omap_find v k") (auto simp: omap_find_None)
    have s: "omap_find s k = Some (the (omap_find s k))" if "k \<in> set os" for k
      using that Level.prems(1) by (cases "omap_find s k") (auto simp: omap_find_None)
    have "x \<in> value_line v ` set ov \<or> x = [] \<or> (\<exists>k \<in> set os. x = section_line (d + 1) k \<or> x \<in> set (the (map_option inside (omap_find s k))))"
      using Level.prems(2) by (auto simp: find_map_prod split: if_splits)
    then show thesis using val blank sec sub v s
      by (metis (no_types, lifting) imageE omap_find_Some_in option.map_sel option.sel option.simps(3) value_line_def)
  qed
  then show ?case
  proof cases
    case sec
    then show ?thesis using Level.prems(1) by (auto simp: section_line_def name_ok_def)
  next
    case sub
    then show ?thesis using Level.IH [OF sub(1) _ _ sub(2), of "Suc d"] Level.prems(1) by auto
  qed (use Level.prems(1) in \<open>auto simp: key_ok_def val_ok_def\<close>)
qed

text \<open>
  C29: A configuration survives being written. For every file that the reader accepts, with no section
  name empty and no key that looks like a comment, \<open>dump\<close> of the tree does not fail its assertion, and
  the text it writes is accepted and gives the same tree: every value, every nested section, and the
  order of both.
\<close>
theorem dump_read_back:
  assumes "Parser text = Inr t" "printable t"
  shows "\<exists>text'. dump t [] = Inr text' \<and> Parser text' = Inr t"
proof -
  have w: "wf_level t 0" using assms(1) by (rule Parser_wf)
  have "dump t [] = Inr (unlines (inside t))"
    using dump_inside [OF w assms(2), of "[]"] by (simp add: section_line_def)
  moreover have "Parser (unlines (inside t)) = Inr t"
  proof -
    have "getlines (unlines (inside t)) = inside t" using inside_no_LF [OF w] by (intro getlines_unlines) auto
    moreover obtain path' ln' where "parse_lines (inside t @ []) 0 [] (upd_level [] (\<lambda>_. fresh_level 0) new_Level)
        = parse_lines [] ln' path' (upd_level [] (\<lambda>_. t) new_Level)"
      using reads_level [OF w assms(2)] unfolding ini_reads_def by (metis get_level.simps(1) list.size(3) option.simps(3))
    ultimately show ?thesis by (simp add: Parser_def fresh_level_def new_Level_def)
  qed
  ultimately show ?thesis by blast
qed

definition sample_ini :: string where
  "sample_ini = unlines ['' k = v '', ''[GLOBAL]'', ''port=5'', ''[[sub]]'', ''x='', ''[LAST]'']"

definition sample_tree :: Level where
  "sample_tree = Level [(''k'', ''v'')]
     [(''GLOBAL'', Level [(''port'', ''5'')] [(''sub'', Level [(''x'', [])] [] [''x''] [] 2)] [''port''] [''sub''] 1),
      (''LAST'', Level [] [] [] [] 1)] [''k''] [''GLOBAL'', ''LAST''] 0"

lemma sample_lines: "getlines sample_ini = ['' k = v '', ''[GLOBAL]'', ''port=5'', ''[[sub]]'', ''x='', ''[LAST]'']"
  unfolding sample_ini_def by (rule getlines_unlines) simp

theorem dump_read_back_witness:
  "Parser sample_ini = Inr sample_tree \<and> (\<exists>text'. dump sample_tree [] = Inr text' \<and> Parser text' = Inr sample_tree)"
proof -
  have p: "Parser sample_ini = Inr sample_tree"
    unfolding Parser_def sample_lines by code_simp
  have "printable sample_tree" by (simp add: sample_tree_def)
  with dump_read_back [OF p] p show ?thesis by blast
qed

section \<open>What is accepted by mistake\<close>

text \<open>
  A section line need not be closed: its last characters are cut off as if they were brackets. A
  comment behind a blank is read as a value.
\<close>

lemma unclosed_section: "parseSLine ''[[abcdef'' = (''abcd'', 2)"
  by code_simp

lemma comment_behind_blank: "Parser '' # a'' = Inl (IniError ''no '=' found'' 1)" "Parser '' # a=b'' = Inr (put_value ''# a'' ''b'' new_Level)"
  by code_simp+

end
