(* ===== verification/ThreadCall.thy ===== *)
theory ThreadCall
  imports Prelude
begin

text \<open>
  Calls from other threads into the thread of the event loop (\<open>bridgeserver/libevent_thread_call.h\<close>,
  class \<open>EventThreadCall\<close>): a queue under a mutex, and a socket pair whose only use is to wake the
  loop. Threads interleave between the critical sections; a critical section is one step.
\<close>

section \<open>State and operations\<close>

text \<open>\<open>waiting\<close> is the queue \<open>functions_\<close>; \<open>signal_bytes\<close> is what lies in the socket pair, unread.\<close>

record 'f thread_call =
  waiting :: "'f list"
  signal_bytes :: nat

definition FUNCTION_PTR_LEN :: nat where
  "FUNCTION_PTR_LEN = 8"

definition EventThreadCall :: "bool \<Rightarrow> 'f thread_call outcome" where
  "EventThreadCall has_base =
     (if \<not> has_base then Inl AssertFailed else Inr \<lparr>waiting = [], signal_bytes = 0\<rparr>)"

text \<open>The two halves of \<open>threadCall\<close>: the push under the lock, and the wake-up; \<open>n\<close> bytes of it are taken.\<close>

definition push_function :: "'f \<Rightarrow> 'f thread_call \<Rightarrow> 'f thread_call" where
  "push_function f T = T\<lparr>waiting := waiting T @ [f]\<rparr>"

definition send_signal :: "nat \<Rightarrow> 'f thread_call \<Rightarrow> 'f thread_call" where
  "send_signal n T = T\<lparr>signal_bytes := signal_bytes T + n\<rparr>"

text \<open>
  The loop runs the functions while it holds the mutex. A function that makes a thread call itself
  (\<open>calls\<close>) locks the mutex a second time.
\<close>

fun run_functions :: "('f \<Rightarrow> bool) \<Rightarrow> 'f list \<Rightarrow> 'f list outcome" where
  "run_functions calls [] = Inr []"
| "run_functions calls (f # fs) =
     (if calls f then Inl Deadlock else map_sum (\<lambda>e. e) (Cons f) (run_functions calls fs))"

text \<open>\<open>wakeupCallback\<close>: the new state and the functions that were run, in order. Nothing to read is \<open>-1\<close>.\<close>

definition wakeupCallback :: "('f \<Rightarrow> bool) \<Rightarrow> 'f thread_call \<Rightarrow> ('f thread_call \<times> 'f list) outcome" where
  "wakeupCallback calls T =
     (if signal_bytes T = 0 then Inr (T, [])
      else map_sum (\<lambda>e. e)
             (\<lambda>fs. (T\<lparr>waiting := [], signal_bytes := signal_bytes T - min FUNCTION_PTR_LEN (signal_bytes T)\<rparr>, fs))
             (run_functions calls (waiting T)))"

section \<open>All interleavings\<close>

text \<open>
  \<open>unsent\<close> counts the threads between the push and the wake-up. A nonblocking \<open>send\<close> takes nothing only
  when the socket buffer is full. \<open>posted\<close> and \<open>past\<close> are the functions handed over and run so far.
\<close>

inductive thread_run :: "('f \<Rightarrow> bool) \<Rightarrow> 'f list \<Rightarrow> nat \<Rightarrow> 'f thread_call \<Rightarrow> 'f list \<Rightarrow> bool" for calls where
  start: "EventThreadCall True = Inr T \<Longrightarrow> thread_run calls [] 0 T []"
| push: "thread_run calls posted unsent T past \<Longrightarrow> thread_run calls (posted @ [f]) (Suc unsent) (push_function f T) past"
| send: "thread_run calls posted (Suc unsent) T past \<Longrightarrow> n \<le> FUNCTION_PTR_LEN \<Longrightarrow> 0 < n \<or> 0 < signal_bytes T
    \<Longrightarrow> thread_run calls posted unsent (send_signal n T) past"
| wake: "thread_run calls posted unsent T past \<Longrightarrow> wakeupCallback calls T = Inr (T', fs)
    \<Longrightarrow> thread_run calls posted unsent T' (past @ fs)"

lemma run_functions_Inr: "run_functions calls fs = Inr past \<longleftrightarrow> past = fs \<and> (\<forall>f \<in> set fs. \<not> calls f)"
proof (induction fs arbitrary: past)
  case (Cons f fs)
  then show ?case by (cases "run_functions calls fs") auto
qed auto

lemma wakeup_Inr: "wakeupCallback calls T = Inr (T', fs) \<longleftrightarrow>
    (if signal_bytes T = 0 then T' = T \<and> fs = []
     else fs = waiting T \<and> (\<forall>f \<in> set fs. \<not> calls f)
       \<and> T' = T\<lparr>waiting := [], signal_bytes := signal_bytes T - min FUNCTION_PTR_LEN (signal_bytes T)\<rparr>)"
proof (cases "run_functions calls (waiting T)")
  case (Inl e)
  then have "\<exists>f \<in> set (waiting T). calls f" using run_functions_Inr [of calls "waiting T"] by (metis sum.distinct(1))
  then show ?thesis using Inl by (auto simp: wakeupCallback_def)
next
  case (Inr past)
  then show ?thesis using run_functions_Inr [of calls "waiting T" past] by (auto simp: wakeupCallback_def)
qed

lemma thread_run_log: "thread_run calls posted unsent T past \<Longrightarrow> posted = past @ waiting T"
  by (induction rule: thread_run.induct) (auto simp: EventThreadCall_def push_function_def send_signal_def wakeup_Inr split: if_splits)

lemma thread_run_signal: "thread_run calls posted unsent T past \<Longrightarrow> waiting T \<noteq> [] \<Longrightarrow> 0 < unsent \<or> 0 < signal_bytes T"
  by (induction rule: thread_run.induct) (auto simp: EventThreadCall_def push_function_def send_signal_def wakeup_Inr split: if_splits)

text \<open>
  C30: No call is lost, doubled or overtaken. However the threads interleave, the functions run so far
  are the first ones that were handed over, in that order; and once no thread is between its push
  and its wake-up, functions that wait have the loop woken, which runs all of them.
\<close>
theorem calls_run_in_order:
  assumes "thread_run calls posted unsent T past"
  shows "posted = past @ waiting T
    \<and> (unsent = 0 \<and> waiting T \<noteq> [] \<and> (\<forall>f \<in> set (waiting T). \<not> calls f)
        \<longrightarrow> 0 < signal_bytes T \<and> (\<exists>T'. wakeupCallback calls T = Inr (T', waiting T) \<and> waiting T' = []))"
  using thread_run_log [OF assms] thread_run_signal [OF assms] by (auto simp: wakeup_Inr)

lemma sample_thread_run:
  "thread_run (\<lambda>_. False) [1, 2 :: nat] 0 \<lparr>waiting = [2], signal_bytes = 8\<rparr> [1]"
proof -
  have a: "thread_run (\<lambda>_. False) [1 :: nat] 1 \<lparr>waiting = [1], signal_bytes = 0\<rparr> []"
    using thread_run.push [OF thread_run.start, of "\<lparr>waiting = [], signal_bytes = 0\<rparr>" "\<lambda>_. False" "1 :: nat"]
    by (simp add: EventThreadCall_def push_function_def)
  have b: "thread_run (\<lambda>_. False) [1 :: nat] 0 \<lparr>waiting = [1], signal_bytes = 8\<rparr> []"
    using thread_run.send [of "\<lambda>_. False" "[1 :: nat]" 0 _ _ 8] a by (force simp: FUNCTION_PTR_LEN_def send_signal_def)
  have c: "thread_run (\<lambda>_. False) [1 :: nat] 0 \<lparr>waiting = [], signal_bytes = 0\<rparr> [1]"
    using thread_run.wake [OF b, of "\<lparr>waiting = [], signal_bytes = 0\<rparr>" "[1]"] by (simp add: wakeup_Inr FUNCTION_PTR_LEN_def)
  have d: "thread_run (\<lambda>_. False) [1, 2 :: nat] 1 \<lparr>waiting = [2], signal_bytes = 0\<rparr> [1]"
    using thread_run.push [OF c, of 2] by (simp add: push_function_def)
  show ?thesis
    using thread_run.send [of "\<lambda>_. False" "[1, 2 :: nat]" 0 _ _ 8] d by (force simp: FUNCTION_PTR_LEN_def send_signal_def)
qed

theorem calls_run_in_order_witness:
  "[1, 2] = [1] @ waiting \<lparr>waiting = [2 :: nat], signal_bytes = 8\<rparr>
    \<and> (\<exists>T'. wakeupCallback (\<lambda>_. False) \<lparr>waiting = [2 :: nat], signal_bytes = 8\<rparr> = Inr (T', [2]) \<and> waiting T' = [])"
  using calls_run_in_order [OF sample_thread_run] by simp

text \<open>A function that makes a thread call never returns from it: the mutex is held by its own thread.\<close>

theorem own_call_deadlocks:
  assumes "0 < signal_bytes T" "f \<in> set (waiting T)" "calls f"
  shows "wakeupCallback calls T = Inl Deadlock"
proof -
  have "f \<in> set fs \<Longrightarrow> run_functions calls fs = Inl Deadlock" for fs
    using assms(3) by (induction fs) auto
  then show ?thesis using assms(1,2) by (simp add: wakeupCallback_def)
qed

end
