(* ===== verification/Server.thy ===== *)
theory Server
  imports IceLife IniText ThreadCall
begin

text \<open>
  The server as a whole: \<open>bridgeserver/TcpServer.cpp\<close>, \<open>Connection.cpp\<close> and \<open>AppServer.cpp\<close> joined with
  the command reader of \<open>Wire\<close>, the session service of \<open>IceService\<close>, the configuration of \<open>Ini\<close> and
  the thread calls of \<open>ThreadCall\<close>. Everything runs in the thread of the event loop, one event after
  the other; a connection is the address of its object.
\<close>

section \<open>Connections\<close>

text \<open>The constructor does not set \<open>server_\<close>; \<open>setServer\<close> does.\<close>

datatype server_ptr = Unset | NoServer | TheServer

record Connection =
  conn_server :: server_ptr
  canSend :: bool
  recvBuffer :: "byte list"

definition new_Connection :: Connection where
  "new_Connection = \<lparr>conn_server = Unset, canSend = False, recvBuffer = []\<rparr>"

definition setServer :: "bool \<Rightarrow> Connection \<Rightarrow> Connection" where
  "setServer server C = C\<lparr>conn_server := (if server then TheServer else NoServer)\<rparr>"

record TcpServer =
  tcp_port :: u16
  listening :: bool
  connections :: "(nat, Connection) omap"

definition new_TcpServer :: "int \<Rightarrow> bool \<Rightarrow> bool \<Rightarrow> TcpServer outcome" where
  "new_TcpServer port bound builder =
     (if \<not> builder then Inl AssertFailed
      else Inr \<lparr>tcp_port = of_int port, listening = bound, connections = []\<rparr>)"

text \<open>\<open>created\<close> is what the builder returns: nothing when there is no memory.\<close>

definition acceptCallback :: "nat option \<Rightarrow> TcpServer \<Rightarrow> TcpServer" where
  "acceptCallback created T =
     (case created of
        None \<Rightarrow> T
      | Some conn \<Rightarrow> T\<lparr>connections := omap_put conn new_Connection (connections T)\<rparr>)"

definition haveConnection :: "TcpServer \<Rightarrow> nat \<Rightarrow> bool" where
  "haveConnection T conn \<longleftrightarrow> omap_find (connections T) conn \<noteq> None"

definition closeConnection :: "nat \<Rightarrow> TcpServer \<Rightarrow> TcpServer outcome" where
  "closeConnection conn T =
     (if omap_find (connections T) conn = None then Inl AssertFailed
      else Inr (T\<lparr>connections := omap_erase conn (connections T)\<rparr>))"

definition upd_connection :: "nat \<Rightarrow> (Connection \<Rightarrow> Connection) \<Rightarrow> TcpServer \<Rightarrow> TcpServer" where
  "upd_connection conn f T =
     (case omap_find (connections T) conn of
        None \<Rightarrow> T
      | Some C \<Rightarrow> T\<lparr>connections := omap_put conn (f C) (connections T)\<rparr>)"

definition writeCallback :: "nat \<Rightarrow> TcpServer \<Rightarrow> TcpServer" where
  "writeCallback conn T = upd_connection conn (\<lambda>C. C\<lparr>canSend := True\<rparr>) T"

text \<open>The flags of a bufferevent event, as documented by libevent.\<close>

definition BEV_EVENT_READING :: u16 where "BEV_EVENT_READING = 0x01"
definition BEV_EVENT_WRITING :: u16 where "BEV_EVENT_WRITING = 0x02"
definition BEV_EVENT_EOF :: u16 where "BEV_EVENT_EOF = 0x10"
definition BEV_EVENT_ERROR :: u16 where "BEV_EVENT_ERROR = 0x20"
definition BEV_EVENT_TIMEOUT :: u16 where "BEV_EVENT_TIMEOUT = 0x40"
definition BEV_EVENT_CONNECTED :: u16 where "BEV_EVENT_CONNECTED = 0x80"

definition eventCallback :: "u16 \<Rightarrow> nat \<Rightarrow> TcpServer \<Rightarrow> TcpServer outcome" where
  "eventCallback what conn T =
     (case omap_find (connections T) conn of
        None \<Rightarrow> Inl NullDeref
      | Some C \<Rightarrow>
          if what AND BEV_EVENT_READING \<noteq> 0 then Inr T
          else if what AND BEV_EVENT_WRITING \<noteq> 0 then Inr T
          else if what AND BEV_EVENT_CONNECTED \<noteq> 0 then Inr T
          else (case conn_server C of
                  Unset \<Rightarrow> Inl Uninitialised
                | NoServer \<Rightarrow> Inr T
                | TheServer \<Rightarrow> closeConnection conn T))"

section \<open>The application\<close>

record App =
  tcp :: TcpServer
  service :: IceService
  calls :: "nat thread_call"

text \<open>
  The constructor reads the configuration file and \<open>start\<close> the rest; an exception of the reader ends
  the program. \<open>bound\<close> tells whether the listener could be bound; \<open>heap\<close> is what the send buffer held.
\<close>

definition start_app :: "clib \<Rightarrow> string \<Rightarrow> bool \<Rightarrow> byte list \<Rightarrow> (ini_error + App option)" where
  "start_app L config bound heap =
     (case Parser config of
        Inl e \<Rightarrow> Inl e
      | Inr t \<Rightarrow>
          let (port, t1) = ask ''GLOBAL'' ''local_tcp_server_port'' t;
              (cfg, t2) = ask ''GLOBAL'' ''ice_json_config'' t1;
              (ip, t3) = ask ''GLOBAL'' ''test_xmpp_ip'' t2
          in Inr (case (new_TcpServer (c_atoi port) bound True, new_IceService L cfg ip heap [], EventThreadCall True) of
                    (Inr T, Some S, Inr Q) \<Rightarrow> Some \<lparr>tcp = T, service = S, calls = Q\<rparr>
                  | _ \<Rightarrow> None))"

text \<open>The commands of one reading, served in order; \<open>E k\<close> is what the outside answers to the \<open>k\<close>-th.\<close>

fun serve :: "(nat \<Rightarrow> ice_env) \<Rightarrow> nat \<Rightarrow> nat \<Rightarrow> IceCommand list \<Rightarrow> IceService \<Rightarrow> ice_result" where
  "serve E k conn [] S = Inr (S, [])"
| "serve E k conn (c # cs) S =
     (case handleIceCommand (E k) c conn S of
        Inl e \<Rightarrow> Inl e
      | Inr (S1, eff1) \<Rightarrow>
          (case serve E (Suc k) conn cs S1 of
             Inl e \<Rightarrow> Inl e
           | Inr (S2, eff2) \<Rightarrow> Inr (S2, eff1 @ eff2)))"

type_synonym app_result = "(App \<times> ice_effect list) outcome"

definition on_bytes :: "(nat \<Rightarrow> ice_env) \<Rightarrow> nat \<Rightarrow> byte list \<Rightarrow> App \<Rightarrow> app_result" where
  "on_bytes E conn input A =
     (case omap_find (connections (tcp A)) conn of
        None \<Rightarrow> Inl NullDeref
      | Some C \<Rightarrow>
          (case readCallback (recvBuffer C) input of
             Inl e \<Rightarrow> Inl e
           | Inr (cs, r) \<Rightarrow>
               (case serve E 0 conn cs (service A) of
                  Inl e \<Rightarrow> Inl e
                | Inr (S, eff) \<Rightarrow>
                    Inr (A\<lparr>tcp := upd_connection conn (\<lambda>C. C\<lparr>recvBuffer := r\<rparr>) (tcp A), service := S\<rparr>, eff))))"

text \<open>
  \<open>get_nego_result_func_callback\<close> runs in a thread of the ICE library and hands over a call of
  \<open>getNegoResult\<close> (\<open>AppServer::call\<close>); the loop then runs the calls that wait. The service asks the
  server whether the requester is still connected.
\<close>

definition get_nego_result_func_callback :: "nat \<Rightarrow> App \<Rightarrow> App" where
  "get_nego_result_func_callback obj A = A\<lparr>calls := push_function obj (calls A)\<rparr>"

definition with_server :: "TcpServer \<Rightarrow> ice_env \<Rightarrow> ice_env" where
  "with_server T E = E\<lparr>connected := haveConnection T\<rparr>"

fun run_results :: "TcpServer \<Rightarrow> (nat \<Rightarrow> ice_env) \<Rightarrow> nat \<Rightarrow> nat list \<Rightarrow> IceService \<Rightarrow> ice_result" where
  "run_results T E k [] S = Inr (S, [])"
| "run_results T E k (obj # objs) S =
     (case getNegoResult (with_server T (E k)) obj S of
        Inl e \<Rightarrow> Inl e
      | Inr (S1, eff1) \<Rightarrow>
          (case run_results T E (Suc k) objs S1 of
             Inl e \<Rightarrow> Inl e
           | Inr (S2, eff2) \<Rightarrow> Inr (S2, eff1 @ eff2)))"

definition on_wakeup :: "(nat \<Rightarrow> ice_env) \<Rightarrow> App \<Rightarrow> app_result" where
  "on_wakeup E A =
     (case wakeupCallback (\<lambda>_. False) (calls A) of
        Inl e \<Rightarrow> Inl e
      | Inr (Q, objs) \<Rightarrow>
          (case run_results (tcp A) E 0 objs (service A) of
             Inl e \<Rightarrow> Inl e
           | Inr (S, eff) \<Rightarrow> Inr (A\<lparr>calls := Q, service := S\<rparr>, eff)))"

definition on_timer :: "int \<Rightarrow> App \<Rightarrow> app_result" where
  "on_timer now A = map_sum (\<lambda>e. e) (\<lambda>(S, eff). (A\<lparr>service := S\<rparr>, eff)) (ice_timeout_cb now (service A))"

definition on_event :: "u16 \<Rightarrow> nat \<Rightarrow> App \<Rightarrow> app_result" where
  "on_event what conn A = map_sum (\<lambda>e. e) (\<lambda>T. (A\<lparr>tcp := T\<rparr>, [])) (eventCallback what conn (tcp A))"

section \<open>All runs\<close>

text \<open>What the outside must keep to in the commands of one reading, see \<open>env_ok\<close>.\<close>

fun serve_ok :: "(nat \<Rightarrow> ice_env) \<Rightarrow> nat \<Rightarrow> nat \<Rightarrow> IceCommand list \<Rightarrow> IceService \<Rightarrow> bool" where
  "serve_ok E k conn [] S \<longleftrightarrow> True"
| "serve_ok E k conn (c # cs) S \<longleftrightarrow> env_ok (E k) S
     \<and> (\<forall>S1 eff1. handleIceCommand (E k) c conn S = Inr (S1, eff1) \<longrightarrow> serve_ok E (Suc k) conn cs S1)"

text \<open>
  A run of the application, with the effects so far, the bytes each connection has received and the
  commands each has had served.
\<close>

inductive app_run :: "ice_effect list \<Rightarrow> (nat \<Rightarrow> byte list) \<Rightarrow> (nat \<Rightarrow> IceCommand list) \<Rightarrow> App \<Rightarrow> bool" where
  start: "start_app L config bound heap = Inr (Some A) \<Longrightarrow> length heap = MAX_COMMAND_LEN
    \<Longrightarrow> app_run [] (\<lambda>_. []) (\<lambda>_. []) A"
| accept: "app_run tr got cmds A \<Longrightarrow> \<not> haveConnection (tcp A) conn
    \<Longrightarrow> app_run tr (got(conn := [])) (cmds(conn := [])) (A\<lparr>tcp := acceptCallback (Some conn) (tcp A)\<rparr>)"
| bytes: "app_run tr got cmds A \<Longrightarrow> omap_find (connections (tcp A)) conn = Some C
    \<Longrightarrow> readCallback (recvBuffer C) input = Inr (cs, r) \<Longrightarrow> serve_ok E 0 conn cs (service A)
    \<Longrightarrow> on_bytes E conn input A = Inr (A', eff)
    \<Longrightarrow> app_run (tr @ eff) (got(conn := got conn @ input)) (cmds(conn := cmds conn @ cs)) A'"
| written: "app_run tr got cmds A \<Longrightarrow> app_run tr got cmds (A\<lparr>tcp := writeCallback conn (tcp A)\<rparr>)"
| event: "app_run tr got cmds A \<Longrightarrow> on_event what conn A = Inr (A', eff) \<Longrightarrow> app_run (tr @ eff) got cmds A'"
| post: "app_run tr got cmds A \<Longrightarrow> app_run tr got cmds (get_nego_result_func_callback obj A)"
| signal: "app_run tr got cmds A \<Longrightarrow> app_run tr got cmds (A\<lparr>calls := send_signal n (calls A)\<rparr>)"
| wake: "app_run tr got cmds A \<Longrightarrow> on_wakeup E A = Inr (A', eff) \<Longrightarrow> app_run (tr @ eff) got cmds A'"
| tick: "app_run tr got cmds A \<Longrightarrow> on_timer now A = Inr (A', eff) \<Longrightarrow> app_run (tr @ eff) got cmds A'"
| media: "app_run tr got cmds A \<Longrightarrow> fs_step (forwards (service A)) eff fwd
    \<Longrightarrow> app_run (tr @ map Relayed eff) got cmds (A\<lparr>service := (service A)\<lparr>forwards := fwd\<rparr>\<rparr>)"

definition stream_ok :: "byte list \<Rightarrow> IceCommand list \<Rightarrow> byte list \<Rightarrow> bool" where
  "stream_ok got cs buf \<longleftrightarrow> decode_frames parse_frame got
     = (cs @ fst (decode_frames parse_frame buf), snd (decode_frames parse_frame buf))"

definition tcp_ok :: "(nat \<Rightarrow> byte list) \<Rightarrow> (nat \<Rightarrow> IceCommand list) \<Rightarrow> TcpServer \<Rightarrow> bool" where
  "tcp_ok got cmds T \<longleftrightarrow> (\<forall>conn C. omap_find (connections T) conn = Some C
     \<longrightarrow> conn_server C = Unset \<and> stream_ok (got conn) (cmds conn) (recvBuffer C))"

lemma stream_read:
  assumes "stream_ok got cs buf" "readCallback buf input = Inr (cs', r)"
  shows "stream_ok (got @ input) (cs @ cs') r"
proof -
  have "[] \<notin> set (read_pieces input)" using read_pieces_nonempty by blast
  from handle_pieces_decodes [OF this, of buf] have
    "decode_frames parse_frame (buf @ input) = (cs' @ fst (decode_frames parse_frame r), snd (decode_frames parse_frame r))"
    using assms(2) by (simp add: readCallback_def)
  then show ?thesis using wire.decode_resume [OF assms(1) [unfolded stream_ok_def], of input] by (simp add: stream_ok_def)
qed

lemma serve_run: "ice_run tr S \<Longrightarrow> serve E k conn cs S = Inr (S', eff) \<Longrightarrow> serve_ok E k conn cs S \<Longrightarrow> ice_run (tr @ eff) S'"
proof (induction cs arbitrary: k S tr eff)
  case (Cons c cs)
  from Cons.prems(2) obtain S1 eff1 eff2 where s: "handleIceCommand (E k) c conn S = Inr (S1, eff1)"
    "serve E (Suc k) conn cs S1 = Inr (S', eff2)" "eff = eff1 @ eff2" by (auto split: sum.splits)
  have "env_ok (E k) S" "serve_ok E (Suc k) conn cs S1" using Cons.prems(3) s(1) by auto
  then have "ice_run (tr @ eff1) S1" using Cons.prems(1) s(1) by (intro ice_run.step ice_step.command)
  then show ?case using Cons.IH [OF _ s(2)] \<open>serve_ok E (Suc k) conn cs S1\<close> s(3) by fastforce
qed simp

lemma results_run: "ice_run tr S \<Longrightarrow> run_results T E k objs S = Inr (S', eff) \<Longrightarrow> ice_run (tr @ eff) S'"
proof (induction objs arbitrary: k S tr eff)
  case (Cons obj objs)
  from Cons.prems(2) obtain S1 eff1 eff2 where s: "getNegoResult (with_server T (E k)) obj S = Inr (S1, eff1)"
    "run_results T E (Suc k) objs S1 = Inr (S', eff2)" "eff = eff1 @ eff2" by (auto split: sum.splits)
  have "ice_run (tr @ eff1) S1" using Cons.prems(1) s(1) by (intro ice_run.step ice_step.result)
  then show ?case using Cons.IH [OF _ s(2)] s(3) by fastforce
qed simp

lemma find_upd_connection: "omap_find (connections (upd_connection conn f T)) c
    = (if c = conn then map_option f (omap_find (connections T) c) else omap_find (connections T) c)"
  by (simp add: upd_connection_def split: option.split)

lemma event_unset:
  assumes "tcp_ok got cmds T" "eventCallback what conn T = Inr T'"
  shows "T' = T"
  using assms by (auto simp: eventCallback_def tcp_ok_def split: option.splits if_splits server_ptr.splits)

lemma app_run_inv: "app_run tr got cmds A \<Longrightarrow> tcp_ok got cmds (tcp A) \<and> ice_run tr (service A)"
proof (induction rule: app_run.induct)
  case (start L config bound heap A)
  then obtain t cfg ip where "new_IceService L cfg ip heap [] = Some (service A)" "connections (tcp A) = []"
    by (auto simp: start_app_def new_TcpServer_def Let_def split: sum.splits prod.splits option.splits)
  then show ?case using start(2) ice_run.init by (auto simp: tcp_ok_def)
next
  case (accept tr got cmds A conn)
  have "stream_ok [] [] []" by (simp add: stream_ok_def)
  then show ?case using accept by (auto simp: tcp_ok_def acceptCallback_def new_Connection_def)
next
  case (bytes tr got cmds A conn C input cs r E A' eff)
  then obtain S where A': "serve E 0 conn cs (service A) = Inr (S, eff)"
    "A' = A\<lparr>tcp := upd_connection conn (\<lambda>C. C\<lparr>recvBuffer := r\<rparr>) (tcp A), service := S\<rparr>"
    by (auto simp: on_bytes_def split: sum.splits)
  have "stream_ok (got conn) (cmds conn) (recvBuffer C)" using bytes by (simp add: tcp_ok_def)
  then have "stream_ok (got conn @ input) (cmds conn @ cs) r" using bytes(3) by (rule stream_read)
  then have "tcp_ok (got(conn := got conn @ input)) (cmds(conn := cmds conn @ cs)) (tcp A')"
    using bytes by (auto simp: tcp_ok_def A'(2) find_upd_connection)
  moreover have "ice_run (tr @ eff) (service A')" using serve_run [OF _ A'(1)] A'(2) bytes by simp
  ultimately show ?case by blast
next
  case (written tr got cmds A conn)
  then show ?case by (auto simp: tcp_ok_def writeCallback_def find_upd_connection)
next
  case (event tr got cmds A what conn A' eff)
  then have "eff = [] \<and> A' = A" using event_unset by (cases "eventCallback what conn (tcp A)") (auto simp: on_event_def)
  then show ?case using event by simp
next
  case (wake tr got cmds A E A' eff)
  then show ?case using results_run by (auto simp: on_wakeup_def split: sum.splits prod.splits)
next
  case (tick tr got cmds A now A' eff)
  then obtain S where "ice_timeout_cb now (service A) = Inr (S, eff)" "A' = A\<lparr>service := S\<rparr>"
    by (cases "ice_timeout_cb now (service A)") (auto simp: on_timer_def)
  then show ?case using tick ice_run.step ice_step.timer by fastforce
next
  case (media tr got cmds A eff fwd)
  then show ?case using ice_run.step ice_step.media by fastforce
qed (auto simp: get_nego_result_func_callback_def)


text \<open>
  No connection is ever given up. \<open>setServer\<close> is called nowhere: in every run, the end of a
  connection, an error on it or a timeout makes the callback read a pointer that was never set.
\<close>
theorem lost_peer_uninitialised:
  assumes "app_run tr got cmds A" "haveConnection (tcp A) conn"
    and "what AND (BEV_EVENT_READING OR BEV_EVENT_WRITING OR BEV_EVENT_CONNECTED) = 0"
  shows "eventCallback what conn (tcp A) = Inl Uninitialised"
proof -
  obtain C where C: "omap_find (connections (tcp A)) conn = Some C" using assms(2) by (auto simp: haveConnection_def)
  then have "conn_server C = Unset" using app_run_inv [OF assms(1)] by (auto simp: tcp_ok_def)
  moreover have "what AND BEV_EVENT_READING = 0" "what AND BEV_EVENT_WRITING = 0" "what AND BEV_EVENT_CONNECTED = 0"
    using assms(3) by (auto simp: bit_eq_iff bit_simps)
  ultimately show ?thesis using C by (simp add: eventCallback_def)
qed

section \<open>An example\<close>

definition sample_file :: string where
  "sample_file = unlines [''[GLOBAL]'', ''ice_json_config=null'', ''local_tcp_server_port=70000'']"

definition sample_app :: App where
  "sample_app = \<lparr>tcp = \<lparr>tcp_port = 4464, listening = True, connections = []\<rparr>, service = sample_service,
     calls = \<lparr>waiting = [], signal_bytes = 0\<rparr>\<rparr>"

text \<open>A port that does not fit its type is cut silently.\<close>

lemma sample_app_start: "start_app no_doubles sample_file True (replicate MAX_COMMAND_LEN 0) = Inr (Some sample_app)"
proof -
  have l: "getlines sample_file = [''[GLOBAL]'', ''ice_json_config=null'', ''local_tcp_server_port=70000'']"
    unfolding sample_file_def by (rule getlines_unlines) simp
  have p: "Parser sample_file = Inr (Level [] [(''GLOBAL'', Level [(''ice_json_config'', ''null''), (''local_tcp_server_port'', ''70000'')] []
      [''ice_json_config'', ''local_tcp_server_port''] [] 1)] [] [''GLOBAL''] 0)"
    unfolding Parser_def l by code_simp
  have a: "c_atoi ''70000'' = 70000" by code_simp
  have "Reader_parse no_doubles Features_all ''null'' nullValue = Some (True, nullValue, [])" by code_simp
  then show ?thesis
    by (simp add: start_app_def p ask_def Let_def new_TcpServer_def new_IceService_def EventThreadCall_def a sample_app_def sample_service_def)
qed

definition sample_bytes :: "byte list" where
  "sample_bytes = le_bytes 4 7 @ le_bytes 8 9 @ le_bytes 4 0"

text \<open>A connection is accepted and sends a STOP for a session that does not exist, in two pieces.\<close>

lemma sample_app_run:
  "\<exists>A C. app_run [] ((\<lambda>_. [])(3 := sample_bytes)) ((\<lambda>_. [])(3 := [\<lparr>cmd_op = 7, cmd_sessionId = 9, cmd_content = []\<rparr>])) A
    \<and> omap_find (connections (tcp A)) 3 = Some C \<and> haveConnection (tcp A) 3"
proof -
  let ?A1 = "sample_app\<lparr>tcp := acceptCallback (Some 3) (tcp sample_app)\<rparr>"
  have s: "app_run [] (\<lambda>_. []) (\<lambda>_. []) sample_app"
    using app_run.start [OF sample_app_start] by simp
  have r1: "app_run [] ((\<lambda>_. [])(3 := [])) ((\<lambda>_. [])(3 := [])) ?A1"
    using app_run.accept [OF s, of 3] by (simp add: haveConnection_def sample_app_def)
  let ?c = "\<lparr>cmd_op = 7, cmd_sessionId = 9, cmd_content = []\<rparr>"
  have c: "omap_find (connections (tcp ?A1)) 3 = Some new_Connection" by (simp add: acceptCallback_def sample_app_def)
  have rd: "readCallback (recvBuffer new_Connection) sample_bytes = Inr ([?c], [])" by code_simp
  have sv: "serve (\<lambda>_. sample_env) 0 3 [?c] (service ?A1) = Inr (service ?A1, [])"
    by (simp add: sample_app_def handleIceCommand_def stopSession_def sample_service_def)
  have ok: "serve_ok (\<lambda>_. sample_env) 0 3 [?c] (service ?A1)"
    by (simp add: env_ok_def sample_app_def sample_service_def sample_env_def sample_os_def)
  let ?A2 = "?A1\<lparr>tcp := upd_connection 3 (\<lambda>C. C\<lparr>recvBuffer := []\<rparr>) (tcp ?A1)\<rparr>"
  have "on_bytes (\<lambda>_. sample_env) 3 sample_bytes ?A1 = Inr (?A2, [])"
    unfolding on_bytes_def c option.case rd sum.case prod.case sv by simp
  from app_run.bytes [OF r1 c rd ok this] have
    "app_run [] ((\<lambda>_. [])(3 := sample_bytes)) ((\<lambda>_. [])(3 := [?c])) ?A2" by simp
  moreover have "omap_find (connections (tcp ?A2)) 3 \<noteq> None" using c by (simp add: find_upd_connection)
  ultimately show ?thesis by (auto simp: haveConnection_def)
qed


theorem lost_peer_uninitialised_witness:
  "\<exists>A :: App. haveConnection (tcp A) 3 \<and> eventCallback BEV_EVENT_EOF 3 (tcp A) = Inl Uninitialised"
proof -
  obtain A where a: "app_run [] ((\<lambda>_. [])(3 := sample_bytes)) ((\<lambda>_. [])(3 := [\<lparr>cmd_op = 7, cmd_sessionId = 9, cmd_content = []\<rparr>])) A"
    "haveConnection (tcp A) 3" using sample_app_run by blast
  have "BEV_EVENT_EOF AND (BEV_EVENT_READING OR BEV_EVENT_WRITING OR BEV_EVENT_CONNECTED) = 0"
    by (simp add: BEV_EVENT_EOF_def BEV_EVENT_READING_def BEV_EVENT_WRITING_def BEV_EVENT_CONNECTED_def)
  from lost_peer_uninitialised [OF a this] show ?thesis using a(2) by blast
qed

end
