(* ===== verification/EndToEnd.thy ===== *)
theory EndToEnd
  imports Server
begin

text \<open>
  A whole call through the server: the bytes of the commands of the conference control server enter
  the connection (\<open>Connection::readCallback\<close>, \<open>IceConnection::handleCommand\<close>), the session service
  answers with bytes of its own, the ICE library hands its result over from another thread
  (\<open>get_nego_result_func_callback\<close>), and the media datagrams of the two peers are relayed by the forwards
  the call has started. Nothing is modelled here that is not modelled below; the theories of the
  components meet.
\<close>

section \<open>One command on an idle connection\<close>

text \<open>The bytes that the writer of the command channel makes of a command.\<close>

definition wire_bytes :: "ICE_OP \<Rightarrow> SessionID \<Rightarrow> byte list \<Rightarrow> byte list" where
  "wire_bytes op sid content =
     (case constructCommandBuffer (replicate MAX_COMMAND_LEN 0) op sid (Some content) (of_nat (length content)) of
        Inr (True, buf) \<Rightarrow> take (ICE_COMMAND_HEADER_LEN + length content) buf
      | _ \<Rightarrow> [])"

abbreviation fits_command :: "'c list \<Rightarrow> bool" where
  "fits_command content \<equiv> length content \<le> MAX_COMMAND_LEN - ICE_COMMAND_HEADER_LEN"

lemma parse_wire_bytes:
  assumes "fits_command content"
  shows "parse_frame (wire_bytes op sid content)
    = Some (\<lparr>cmd_op = op_value op, cmd_sessionId = sid, cmd_content = content\<rparr>, length (wire_bytes op sid content))"
proof -
  from written_array [OF length_replicate assms, of 0 op sid "[]"] obtain buf where
    b: "constructCommandBuffer (replicate MAX_COMMAND_LEN 0) op sid (Some content) (of_nat (length content)) = Inr (True, buf)"
    "parse_frame (take (16 + length content) buf)
      = Some (\<lparr>cmd_op = op_value op, cmd_sessionId = sid, cmd_content = content\<rparr>, 16 + length content)" by auto
  then have "length (take (16 + length content) buf) = 16 + length content" using parse_frame_length [OF b(2)] by simp
  then show ?thesis using b by (simp add: wire_bytes_def ICE_COMMAND_HEADER_LEN_def)
qed

text \<open>A single command is handed out whole, in whatever pieces it is read.\<close>

lemma one_command_pieces:
  assumes "parse_frame s = Some (c, length s)" "buf @ concat ds = s" "[] \<notin> set ds" "ds \<noteq> []"
  shows "handle_pieces buf ds = Inr ([c], [])"
  using assms(2-4)
proof (induction ds arbitrary: buf)
  case (Cons d ds)
  have d: "d \<noteq> []" using Cons.prems(2) by auto
  show ?case
  proof (cases "ds = []")
    case True
    then have s: "buf @ d = s" using Cons.prems(1) by simp
    then have "length d \<le> length s" by auto
    then have "handle_loop s (length d) (length s) = Inr ([], length s)" by (simp add: handle_loop.simps)
    moreover have "parseCommand s = Inr (Some (c, length s))" using assms(1) d s by (auto simp: parseCommand_def)
    ultimately have "handle_loop s (length d) 0 = Inr ([c], length s)" using d by (simp add: handle_loop.simps [of s _ 0])
    then show ?thesis using True s d by (simp add: handleCommand_def)
  next
    case False
    then have "concat ds \<noteq> []" using Cons.prems(2) by (cases ds) auto
    then have lt: "length (buf @ d) < length s" using Cons.prems(1) by auto
    have "parse_frame (buf @ d) = None"
    proof (rule ccontr)
      assume "parse_frame (buf @ d) \<noteq> None"
      then obtain c' n where p: "parse_frame (buf @ d) = Some (c', n)" by auto
      from parse_frame_more [OF p, of "concat ds"] assms(1) Cons.prems(1) have "n = length s" by simp
      with parse_frame_length [OF p] lt show False by simp
    qed
    then have "handle_loop (buf @ d) (length d) 0 = Inr ([], 0)"
      using d by (simp add: handle_loop.simps [of "buf @ d" _ 0] parseCommand_def)
    then have "handleCommand buf d = Inr ([], buf @ d)" using d by (simp add: handleCommand_def)
    then show ?thesis using Cons.IH [of "buf @ d"] Cons.prems False by simp
  qed
qed simp

lemma one_command_read:
  assumes "parse_frame s = Some (c, length s)"
  shows "readCallback [] s = Inr ([c], [])"
  unfolding readCallback_def
proof (rule one_command_pieces [OF assms])
  show "read_pieces s \<noteq> []" using parse_frame_length [OF assms] by (subst read_pieces.simps) auto
qed (use read_pieces_nonempty in auto)

definition idle :: "App \<Rightarrow> nat \<Rightarrow> bool" where
  "idle A conn \<longleftrightarrow> map_option recvBuffer (omap_find (connections (tcp A)) conn) = Some []"

lemma command_served:
  assumes "idle A conn" "fits_command content"
    and "handleIceCommand (E 0) \<lparr>cmd_op = op_value op, cmd_sessionId = sid, cmd_content = content\<rparr> conn (service A)
      = Inr (S, eff)"
  shows "\<exists>A'. on_bytes E conn (wire_bytes op sid content) A = Inr (A', eff)
    \<and> service A' = S \<and> calls A' = calls A \<and> idle A' conn"
proof -
  obtain C where c: "omap_find (connections (tcp A)) conn = Some C" "recvBuffer C = []"
    using assms(1) by (auto simp: idle_def)
  let ?A = "A\<lparr>tcp := upd_connection conn (\<lambda>C. C\<lparr>recvBuffer := []\<rparr>) (tcp A), service := S\<rparr>"
  have "on_bytes E conn (wire_bytes op sid content) A = Inr (?A, eff)"
    using c assms(3) one_command_read [OF parse_wire_bytes [OF assms(2), of op sid]] by (simp add: on_bytes_def)
  moreover have "idle ?A conn" using c(1) by (simp add: idle_def find_upd_connection)
  ultimately show ?thesis by (intro exI [of _ ?A]) simp
qed

text \<open>One result handed over by another thread, with nothing else in the queue.\<close>

lemma result_served:
  assumes "idle A conn" "waiting (calls A) = []" "0 < n"
    and "getNegoResult (with_server (tcp A) (E 0)) obj (service A) = Inr (S, eff)"
  shows "\<exists>A'. on_wakeup E (A\<lparr>calls := send_signal n (push_function obj (calls A))\<rparr>) = Inr (A', eff)
    \<and> service A' = S \<and> waiting (calls A') = [] \<and> idle A' conn"
  using assms by (simp add: on_wakeup_def wakeupCallback_def send_signal_def push_function_def idle_def)

section \<open>What a step leaves alone\<close>

definition settings :: "IceService \<Rightarrow> string \<times> ForwardMap" where
  "settings S = (testIP S, forwards S)"

lemma settings_put [simp]: "settings (put_session sid is S) = settings S"
  "settings (S\<lparr>sendBuffer := b\<rparr>) = settings S" "settings (S\<lparr>configInfo := v\<rparr>) = settings S"
  by (simp_all add: settings_def put_session_def)

lemma settings_read [simp]: "settings (readJsonInfo E json S) = settings S"
  by (simp add: readJsonInfo_def split: option.split sum.split prod.split bool.split)

lemma settings_send: "sendCommand E sid is op data n S = Inr (S', eff) \<Longrightarrow> settings S' = settings S"
  by (auto simp: sendCommand_def split: sum.splits prod.splits bool.splits option.splits)

lemma settings_prepare: "prepareSession E command conn S = Inr (S', eff) \<Longrightarrow> settings S' = settings S"
  by (auto simp: prepareSession_def Let_def dest: settings_send split: sum.splits prod.splits option.splits if_splits)

lemma settings_result: "getNegoResult E obj S = Inr (S', eff) \<Longrightarrow> settings S' = settings S"
  by (auto simp: getNegoResult_def Let_def dest: settings_send split: sum.splits prod.splits option.splits if_splits)

section \<open>The steps of a call\<close>

text \<open>The ICE library makes an endpoint and describes it in a text that fits a command.\<close>

definition offers :: "ice_env \<Rightarrow> string \<Rightarrow> bool" where
  "offers E info \<longleftrightarrow> new_ret E = 0 \<and> new_local E = Some info \<and> NUL \<notin> set info
     \<and> length info + 1 \<le> MAX_COMMAND_LEN - ICE_COMMAND_HEADER_LEN"

text \<open>The result of the negotiation: three pairs at least; the sockets are those the library has given up.\<close>

definition nominates :: "ice_env \<Rightarrow> (string, Value) omap \<Rightarrow> AddrPair list \<Rightarrow> bool" where
  "nominates E result pairs \<longleftrightarrow> plain (objectValue result) \<and> 2 < length pairs
     \<and> (\<exists>items ps. omap_find result ''pairs'' = Some (arrayValue items)
          \<and> list_all2 (\<lambda>(i, x) p. has_pair x p) items ps \<and> pairs = with_sockets ps (stolen E))"

text \<open>The content of RELAY: a result of zero and the addresses of the two peers.\<close>

definition names_peers :: "(string, Value) omap \<Rightarrow> string \<times> int \<Rightarrow> string \<times> int \<Rightarrow> bool" where
  "names_peers answer a v \<longleftrightarrow> plain (objectValue answer) \<and> omap_find answer ''result'' = Some (intValue 0)
     \<and> (\<exists>x. omap_find answer ''audio'' = Some x \<and> has_address x (fst a) (snd a))
     \<and> (\<exists>x. omap_find answer ''video'' = Some x \<and> has_address x (fst v) (snd v))"

text \<open>A pair that a forward can work on: a socket, an event and a local address nobody uses.\<close>

definition can_forward :: "udp_os \<Rightarrow> AddrPair \<Rightarrow> ForwardMap \<Rightarrow> bool" where
  "can_forward os pair fs \<longleftrightarrow> 0 < local_port pair \<and> 0 < fst (ice_socket os pair) \<and> os_event_new os
     \<and> length (os_stack os) = MAX_UDP_PACKET_LEN \<and> findForward fs (ice_local pair) = None"

definition started_forward :: "udp_os \<Rightarrow> string \<Rightarrow> MEDIA_TYPE \<Rightarrow> AddrPair \<Rightarrow> sockaddr_in \<Rightarrow> Forward" where
  "started_forward os cfg media pair peer = init_Forward os cfg media pair peer (fst (ice_socket os pair))"

lemma forward_started:
  assumes "can_forward os pair fs"
  shows "startForward os cfg media pair peer fs
    = Inr (insertForward (ice_local pair) (started_forward os cfg media pair peer) fs,
           snd (ice_socket os pair) @ [EventAdded (fst (ice_socket os pair))])"
  using assms by (simp add: can_forward_def startForward_unfold started_forward_def)

lemma started_forward_inv: "can_forward os pair fs \<Longrightarrow> forward_inv (started_forward os cfg media pair peer)"
  by (simp add: can_forward_def started_forward_def forward_inv_def init_Forward_def cache_inv_new)

lemma relays_media:
  assumes "forward_inv f" "\<forall>dg \<in> set dgs. media_datagram f dg" "bit what 1"
  shows "\<exists>g. udpCallback what dgs f = Some (Inr (g, map (route f) dgs, []))"
  using udp_loop_media [OF assms(1,2), of "[]"] assms(3) by (auto simp: udpCallback_def)

section \<open>A call in a state of the server\<close>

definition in_call :: "App \<Rightarrow> nat \<Rightarrow> SessionID \<Rightarrow> IceSession \<Rightarrow> bool" where
  "in_call A conn sid is \<longleftrightarrow> idle A conn \<and> waiting (calls A) = [] \<and> ice_inv (service A)
     \<and> omap_find (sessions (service A)) sid = Some is \<and> request is = Some conn"

definition frame_of :: "ICE_OP \<Rightarrow> SessionID \<Rightarrow> string \<Rightarrow> byte list \<Rightarrow> bool" where
  "frame_of op sid content frame \<longleftrightarrow> parseCommand frame
     = Inr (Some (\<lparr>cmd_op = op_value op, cmd_sessionId = sid, cmd_content = bytes_of content\<rparr>, length frame))"

lemma prepare_step:
  assumes "idle A conn" "waiting (calls A) = []" "ice_inv (service A)" "omap_find (sessions (service A)) sid = None"
    and "env_ok E (service A)" "offers E info" "fits_command content"
  shows "\<exists>A' is config frame. on_bytes (\<lambda>_. E) conn (wire_bytes ICE_OP_PREPARE_SESSION sid content) A
        = Inr (A', [NewCaller config (Some (new_endpoint E)), CommandSent conn frame])
    \<and> frame_of ICE_OP_LOCAL_INFO sid info frame \<and> in_call A' conn sid is \<and> curStatus is = ICE_OP_LOCAL_INFO
    \<and> endpoint is = Some (new_endpoint E) \<and> settings (service A') = settings (service A)"
proof -
  let ?c = "\<lparr>cmd_op = op_value ICE_OP_PREPARE_SESSION, cmd_sessionId = sid, cmd_content = content\<rparr>"
  have E: "new_ret E = 0" "new_local E = Some info" "NUL \<notin> set info"
    "length info + 1 \<le> MAX_COMMAND_LEN - ICE_COMMAND_HEADER_LEN" using assms(6) by (simp_all add: offers_def)
  obtain S' config frame where h: "handleIceCommand E ?c conn (service A)
        = Inr (S', [NewCaller config (Some (new_endpoint E)), CommandSent conn frame])"
      "frame_of ICE_OP_LOCAL_INFO sid info frame"
      "omap_find (sessions S') sid = Some (setStatus (env_time E) ICE_OP_LOCAL_INFO
        (new_IceSession\<lparr>request := Some conn, is_id := sid, endpoint := Some (new_endpoint E)\<rparr>))"
    using prepare_effect [of "service A" ?c E info conn] assms(3,4) E by (auto simp: frame_of_def)
  have p: "prepareSession E ?c conn (service A) = Inr (S', [NewCaller config (Some (new_endpoint E)), CommandSent conn frame])"
    using h(1) by (simp add: handleIceCommand_def)
  have "ice_inv S'" using prepareSession_moves [OF assms(3,5) p] assms(3) by (rule moves_inv)
  then show ?thesis using command_served [where E = "\<lambda>_. E", OF assms(1,7) h(1)] h(2,3) settings_prepare [OF p] assms(2)
    by (fastforce simp: in_call_def setStatus_def)
qed

lemma start_step:
  assumes "in_call A conn sid is" "curStatus is = ICE_OP_LOCAL_INFO" "endpoint is = Some e" "fits_command content"
  shows "\<exists>A' is'. on_bytes (\<lambda>_. E) conn (wire_bytes ICE_OP_START_SESSION sid content) A
        = Inr (A', [StartNego e (text_of content)])
    \<and> in_call A' conn sid is' \<and> endpoint is' = Some e \<and> settings (service A') = settings (service A)"
proof -
  let ?c = "\<lparr>cmd_op = op_value ICE_OP_START_SESSION, cmd_sessionId = sid, cmd_content = content\<rparr>"
  let ?is = "setStatus (env_time E) ICE_OP_START_SESSION is"
  let ?S = "put_session sid ?is (service A)"
  have s: "startSession E ?c (service A) = Inr (?S, [StartNego e (text_of content)])"
    using assms(1-3) by (simp add: in_call_def startSession_def)
  then have h: "handleIceCommand E ?c conn (service A) = Inr (?S, [StartNego e (text_of content)])"
    by (simp add: handleIceCommand_def)
  have "ice_inv ?S" using startSession_moves [OF _ s] assms(1) moves_inv by (fastforce simp: in_call_def)
  then show ?thesis using command_served [where E = "\<lambda>_. E", OF _ assms(4) h] assms(1,3)
    by (fastforce simp: in_call_def setStatus_def)
qed

lemma result_step:
  assumes "in_call A conn sid is" "endpoint is = Some e" "0 < n"
    and "result_ret E = 0" "result_text E \<noteq> []" "fits_command (result_text E)"
  shows "\<exists>A' is' frame. on_wakeup (\<lambda>_. E) (A\<lparr>calls := send_signal n (push_function e (calls A))\<rparr>)
        = Inr (A', [CommandSent conn frame])
    \<and> frame_of ICE_OP_ICE_RESULT sid (result_text E) frame
    \<and> in_call A' conn sid is' \<and> curStatus is' = ICE_OP_ICE_RESULT \<and> endpoint is' = Some e
    \<and> iceResult is' = Some (result_text E) \<and> settings (service A') = settings (service A)"
proof -
  let ?E = "with_server (tcp A) E"
  have c: "idle A conn" "waiting (calls A) = []" "ice_inv (service A)" "omap_find (sessions (service A)) sid = Some is"
    "request is = Some conn" using assms(1) by (simp_all add: in_call_def)
  have "connected ?E conn" using c(1) by (auto simp: with_server_def haveConnection_def idle_def)
  then obtain S' frame where h: "getNegoResult ?E e (service A) = Inr (S', [CommandSent conn frame])"
      "frame_of ICE_OP_ICE_RESULT sid (result_text E) frame"
      "omap_find (sessions S') sid = Some (is\<lparr>curStatus := ICE_OP_ICE_RESULT, curTime := Some (env_time E),
        iceResult := Some (result_text E)\<rparr>)"
    using nego_result_effect [OF c(3) find_complete [OF c(3,4) assms(2)] c(5), of ?E] assms(4-6)
    by (auto simp: with_server_def frame_of_def)
  have "ice_inv S'" using getNegoResult_moves [OF c(3) h(1)] c(3) moves_inv by blast
  then show ?thesis using result_served [where E = "\<lambda>_. E", OF c(1,2) assms(3) h(1)] h(2,3) settings_result [OF h(1)] c(5) assms(2)
    by (fastforce simp: in_call_def)
qed

text \<open>What RELAY leaves: the two forwards, each under the local address of its pair.\<close>

definition media_forwards :: "ice_env \<Rightarrow> AddrPair list \<Rightarrow> string \<times> int \<Rightarrow> string \<times> int \<Rightarrow> Forward \<times> Forward" where
  "media_forwards E pairs a v =
     (started_forward (relay_os1 E) (resend_cfg E) MEDIA_AUDIO (pairs ! 0) (peer_addr E (relay_os1 E) (fst a) (snd a)),
      started_forward (relay_os2 E) (resend_cfg E) MEDIA_VIDEO (pairs ! 2) (peer_addr E (relay_os2 E) (fst v) (snd v)))"

lemma relay_step:
  assumes "in_call A conn sid is" "curStatus is = ICE_OP_ICE_RESULT" "endpoint is = Some e"
    and "iceResult is = Some (FastWriter_write (env_lib E) new_FastWriter (objectValue result))"
    and "settings (service A) = ([], fs)" "nominates E result pairs" "names_peers answer a v"
    and "can_forward (relay_os1 E) (pairs ! 0) fs" "can_forward (relay_os2 E) (pairs ! 2) fs"
    and "ice_local (pairs ! 0) \<noteq> ice_local (pairs ! 2)"
    and "content = bytes_of (FastWriter_write (env_lib E) new_FastWriter (objectValue answer))" "fits_command content"
  shows "\<exists>A' eff. on_bytes (\<lambda>_. E) conn (wire_bytes ICE_OP_RELAY_SESSION sid content) A
        = Inr (A', EndpointFreed e # map Relayed eff)
    \<and> omap_find (sessions (service A')) sid = None
    \<and> (\<forall>x. findForward (forwards (service A')) x =
         (if x = ice_local (pairs ! 0) then Some (fst (media_forwards E pairs a v))
          else if x = ice_local (pairs ! 2) then Some (snd (media_forwards E pairs a v))
          else findForward fs x))"
proof -
  let ?c = "\<lparr>cmd_op = op_value ICE_OP_RELAY_SESSION, cmd_sessionId = sid, cmd_content = content\<rparr>"
  let ?f = "fst (media_forwards E pairs a v)" and ?g = "snd (media_forwards E pairs a v)"
  let ?fs1 = "insertForward (ice_local (pairs ! 0)) ?f fs"
  let ?fs2 = "insertForward (ice_local (pairs ! 2)) ?g ?fs1"
  have c: "idle A conn" "ice_inv (service A)" "omap_find (sessions (service A)) sid = Some is"
    using assms(1) by (simp_all add: in_call_def)
  have fs: "testIP (service A) = []" "forwards (service A) = fs" using assms(5) by (simp_all add: settings_def)
  then have o: "forwards_ordered fs" using c(2) by (auto simp: ice_inv_def forwards_ok_def)
  have n: "findForward fs (ice_local (pairs ! 0)) = None" "findForward fs (ice_local (pairs ! 2)) = None"
    using assms(8,9) by (simp_all add: can_forward_def)
  note i1 = insertForward_find [OF o n(1), of ?f]
  have o1: "forwards_ordered ?fs1" using o n(1) by (rule insertForward_ordered)
  have n2: "findForward ?fs1 (ice_local (pairs ! 2)) = None" using i1 n(2) assms(10) by simp
  note i2 = insertForward_find [OF o1 n2, of ?g]
  have "can_forward (relay_os2 E) (pairs ! 2) ?fs1" using assms(9) n2 by (simp add: can_forward_def)
  note s = forward_started [OF assms(8), of "resend_cfg E" MEDIA_AUDIO "peer_addr E (relay_os1 E) (fst a) (snd a)"]
    forward_started [OF this, of "resend_cfg E" MEDIA_VIDEO "peer_addr E (relay_os2 E) (fst v) (snd v)"]
  obtain items ps where r: "plain (objectValue result)" "omap_find result ''pairs'' = Some (arrayValue items)"
    "list_all2 (\<lambda>(i, x) p. has_pair x p) items ps" "pairs = with_sockets ps (stolen E)" "2 < length pairs"
    using assms(6) by (auto simp: nominates_def)
  obtain x y where p: "plain (objectValue answer)" "omap_find answer ''result'' = Some (intValue 0)"
    "omap_find answer ''audio'' = Some x" "has_address x (fst a) (snd a)"
    "omap_find answer ''video'' = Some y" "has_address y (fst v) (snd v)"
    using assms(7) by (auto simp: names_peers_def)
  let ?eff = "(snd (ice_socket (relay_os1 E) (pairs ! 0)) @ [EventAdded (fst (ice_socket (relay_os1 E) (pairs ! 0)))])
    @ (snd (ice_socket (relay_os2 E) (pairs ! 2)) @ [EventAdded (fst (ice_socket (relay_os2 E) (pairs ! 2)))])"
  let ?S = "(service A)\<lparr>sessions := omap_erase sid (sessions (service A)), forwards := ?fs2\<rparr>"
  have "handleIceCommand E ?c conn (service A)
      = Inr ((service A)\<lparr>sessions := omap_erase (cmd_sessionId ?c) (sessions (service A)), forwards := ?fs2\<rparr>,
             EndpointFreed e # map Relayed ?eff)"
    by (rule relay_effect [OF c(2) _ fs(1) _ _ assms(2,3,4) r(1-5) _ p(1-6)])
       (use c(3) fs(2) s assms(11) in \<open>simp_all add: new_FastWriter_def media_forwards_def\<close>)
  then have h: "handleIceCommand E ?c conn (service A) = Inr (?S, EndpointFreed e # map Relayed ?eff)" by simp
  from command_served [where E = "\<lambda>_. E", OF c(1) assms(12) h] obtain A' where
    A': "on_bytes (\<lambda>_. E) conn (wire_bytes ICE_OP_RELAY_SESSION sid content) A = Inr (A', EndpointFreed e # map Relayed ?eff)"
    "service A' = ?S" by blast
  have "omap_find (sessions (service A')) sid = None" using ice_inv_omap [OF c(2)] by (simp add: A'(2) omap_find_erase)
  moreover have "findForward (forwards (service A')) x =
         (if x = ice_local (pairs ! 0) then Some ?f else if x = ice_local (pairs ! 2) then Some ?g else findForward fs x)" for x
    using i1 i2 assms(10) by (simp add: A'(2))
  ultimately show ?thesis using A'(1) by blast
qed

section \<open>The call\<close>

datatype app_event =
    Received ice_env nat "byte list"
  | Posted nat
  | Signalled nat
  | Woken ice_env

fun app_exec :: "app_event \<Rightarrow> App \<Rightarrow> app_result" where
  "app_exec (Received E conn input) A = on_bytes (\<lambda>_. E) conn input A"
| "app_exec (Posted obj) A = Inr (get_nego_result_func_callback obj A, [])"
| "app_exec (Signalled n) A = Inr (A\<lparr>calls := send_signal n (calls A)\<rparr>, [])"
| "app_exec (Woken E) A = on_wakeup (\<lambda>_. E) A"

fun app_trace :: "app_event list \<Rightarrow> App \<Rightarrow> app_result" where
  "app_trace [] A = Inr (A, [])"
| "app_trace (ev # evs) A =
     (case app_exec ev A of
        Inl e \<Rightarrow> Inl e
      | Inr (A1, eff1) \<Rightarrow> map_sum (\<lambda>e. e) (\<lambda>(A2, eff2). (A2, eff1 @ eff2)) (app_trace evs A1))"

lemma app_trace_step: "app_exec ev A = Inr (A1, eff1) \<Longrightarrow> app_trace evs A1 = Inr (A2, eff2)
    \<Longrightarrow> app_trace (ev # evs) A = Inr (A2, eff1 @ eff2)"
  by simp

text \<open>The events of a call: PREPARE, START, the result from the thread of the library, RELAY.\<close>

definition call_events :: "(nat \<Rightarrow> ice_env) \<Rightarrow> nat \<Rightarrow> SessionID \<Rightarrow> byte list \<Rightarrow> byte list \<Rightarrow> nat \<Rightarrow> byte list \<Rightarrow> app_event list" where
  "call_events E conn sid asked offer n answer =
     [Received (E 0) conn (wire_bytes ICE_OP_PREPARE_SESSION sid asked),
      Received (E 1) conn (wire_bytes ICE_OP_START_SESSION sid offer),
      Posted (new_endpoint (E 0)), Signalled n, Woken (E 2),
      Received (E 3) conn (wire_bytes ICE_OP_RELAY_SESSION sid answer)]"

text \<open>
  C3: A call is served from its first byte to its media. In any state the server can reach, on a connection
  with nothing buffered and with a new session id, let the conference control server send PREPARE, START and,
  once the ICE library has handed over its result, RELAY, as its writer lays them out. When the
  library makes an endpoint and describes it, nominates three pairs whose first and third can be forwarded, and
  RELAY names an audio and a video peer, then the server makes the endpoint and answers with its description,
  starts the negotiation with the content of START, answers with the result, and on RELAY frees the
  endpoint and forgets the session; what it leaves are the forwards it had and exactly two more, audio
  between the first pair and the audio peer, video between the third pair and the video peer, and
  both relay every media datagram to the other side.
\<close>
theorem call_served:
  assumes "app_run tr got cmds A" "idle A conn" "waiting (calls A) = []"
    and "omap_find (sessions (service A)) sid = None" "settings (service A) = ([], fs)"
    and "env_ok (E 0) (service A)" "offers (E 0) info" "fits_command asked" "fits_command offer" "0 < n"
    and "result_ret (E 2) = 0" "result_text (E 2) = FastWriter_write (env_lib (E 3)) new_FastWriter (objectValue result)"
    and "fits_command (result_text (E 2))" "nominates (E 3) result pairs" "names_peers answer a v"
    and "can_forward (relay_os1 (E 3)) (pairs ! 0) fs" "can_forward (relay_os2 (E 3)) (pairs ! 2) fs"
    and "ice_local (pairs ! 0) \<noteq> ice_local (pairs ! 2)"
    and "content = bytes_of (FastWriter_write (env_lib (E 3)) new_FastWriter (objectValue answer))" "fits_command content"
  shows "\<exists>A' config described result eff.
      app_trace (call_events E conn sid asked offer n content) A
        = Inr (A', [NewCaller config (Some (new_endpoint (E 0))), CommandSent conn described,
                    StartNego (new_endpoint (E 0)) (text_of offer), CommandSent conn result,
                    EndpointFreed (new_endpoint (E 0))] @ map Relayed eff)
    \<and> frame_of ICE_OP_LOCAL_INFO sid info described \<and> frame_of ICE_OP_ICE_RESULT sid (result_text (E 2)) result
    \<and> omap_find (sessions (service A')) sid = None
    \<and> (\<forall>x. findForward (forwards (service A')) x =
         (if x = ice_local (pairs ! 0) then Some (fst (media_forwards (E 3) pairs a v))
          else if x = ice_local (pairs ! 2) then Some (snd (media_forwards (E 3) pairs a v))
          else findForward fs x))
    \<and> (\<forall>f \<in> {fst (media_forwards (E 3) pairs a v), snd (media_forwards (E 3) pairs a v)}.
         \<forall>what dgs. bit what 1 \<and> (\<forall>dg \<in> set dgs. media_datagram f dg)
           \<longrightarrow> (\<exists>g. udpCallback what dgs f = Some (Inr (g, map (route f) dgs, []))))"
proof -
  let ?e = "new_endpoint (E 0)"
  have inv: "ice_inv (service A)" using app_run_inv [OF assms(1)] ice_run_inv by blast
  have ne: "result_text (E 2) \<noteq> []" by (simp add: assms(12) FastWriter_write_def writeValue.simps)
  obtain A1 is1 config described where s1:
    "app_exec (Received (E 0) conn (wire_bytes ICE_OP_PREPARE_SESSION sid asked)) A
      = Inr (A1, [NewCaller config (Some ?e), CommandSent conn described])"
    "frame_of ICE_OP_LOCAL_INFO sid info described" "in_call A1 conn sid is1" "curStatus is1 = ICE_OP_LOCAL_INFO"
    "endpoint is1 = Some ?e" "settings (service A1) = ([], fs)"
    using prepare_step [OF assms(2,3) inv assms(4,6-8)] assms(5) by auto
  obtain A2 is2 where s2: "app_exec (Received (E 1) conn (wire_bytes ICE_OP_START_SESSION sid offer)) A1
      = Inr (A2, [StartNego ?e (text_of offer)])"
    "in_call A2 conn sid is2" "endpoint is2 = Some ?e" "settings (service A2) = ([], fs)"
    using start_step [OF s1(3-5) assms(9), of "E 1"] s1(6) by auto
  let ?A2 = "A2\<lparr>calls := send_signal n (push_function ?e (calls A2))\<rparr>"
  obtain A3 is3 result where s3: "app_exec (Woken (E 2)) ?A2 = Inr (A3, [CommandSent conn result])"
    "frame_of ICE_OP_ICE_RESULT sid (result_text (E 2)) result" "in_call A3 conn sid is3"
    "curStatus is3 = ICE_OP_ICE_RESULT" "endpoint is3 = Some ?e" "iceResult is3 = Some (result_text (E 2))"
    "settings (service A3) = ([], fs)"
    using result_step [OF s2(2,3) assms(10,11) ne assms(13)] s2(4) by auto
  note r = s3(6) [unfolded assms(12)]
  obtain A4 eff where s4: "app_exec (Received (E 3) conn (wire_bytes ICE_OP_RELAY_SESSION sid content)) A3
      = Inr (A4, EndpointFreed ?e # map Relayed eff)"
    "omap_find (sessions (service A4)) sid = None"
    "\<forall>x. findForward (forwards (service A4)) x =
         (if x = ice_local (pairs ! 0) then Some (fst (media_forwards (E 3) pairs a v))
          else if x = ice_local (pairs ! 2) then Some (snd (media_forwards (E 3) pairs a v))
          else findForward fs x)"
    using relay_step [OF s3(3-5) r s3(7) assms(14-20)] by auto
  have p: "app_exec (Posted ?e) A2 = Inr (A2\<lparr>calls := push_function ?e (calls A2)\<rparr>, [])"
    "app_exec (Signalled n) (A2\<lparr>calls := push_function ?e (calls A2)\<rparr>) = Inr (?A2, [])"
    by (simp_all add: get_nego_result_func_callback_def)
  have "app_trace (call_events E conn sid asked offer n content) A
      = Inr (A4, [NewCaller config (Some ?e), CommandSent conn described] @ [StartNego ?e (text_of offer)] @ [] @ []
          @ [CommandSent conn result] @ (EndpointFreed ?e # map Relayed eff) @ [])"
    unfolding call_events_def
    by (intro app_trace_step [OF s1(1)] app_trace_step [OF s2(1)] app_trace_step [OF p(1)] app_trace_step [OF p(2)]
        app_trace_step [OF s3(1)] app_trace_step [OF s4(1)]) simp
  moreover have "forward_inv (fst (media_forwards (E 3) pairs a v))" "forward_inv (snd (media_forwards (E 3) pairs a v))"
    using started_forward_inv [OF assms(16)] started_forward_inv [OF assms(17)] by (simp_all add: media_forwards_def)
  then have "\<forall>f \<in> {fst (media_forwards (E 3) pairs a v), snd (media_forwards (E 3) pairs a v)}.
         \<forall>what dgs. bit what 1 \<and> (\<forall>dg \<in> set dgs. media_datagram f dg)
           \<longrightarrow> (\<exists>g. udpCallback what dgs f = Some (Inr (g, map (route f) dgs, [])))"
    using relays_media by blast
  ultimately show ?thesis using s1(2) s3(2) s4(2,3) by (intro exI conjI) simp_all
qed

section \<open>An example\<close>

definition call_app :: App where
  "call_app = sample_app\<lparr>tcp := acceptCallback (Some 3) (tcp sample_app)\<rparr>"

definition call_env :: ice_env where
  "call_env = sample_env\<lparr>result_text := FastWriter_write no_doubles new_FastWriter (objectValue sample_result)\<rparr>"

lemma call_app_run: "app_run [] ((\<lambda>_. [])(3 := [])) ((\<lambda>_. [])(3 := [])) call_app"
proof -
  have "app_run [] (\<lambda>_. []) (\<lambda>_. []) sample_app" using app_run.start [OF sample_app_start] by simp
  from app_run.accept [OF this, of 3] show ?thesis by (simp add: haveConnection_def call_app_def sample_app_def)
qed

lemma sample_texts_fit: "fits_command (FastWriter_write no_doubles new_FastWriter (objectValue sample_result))"
  "fits_command (bytes_of (FastWriter_write no_doubles new_FastWriter (objectValue sample_answer)))"
  by code_simp+

definition call_pairs :: "AddrPair list" where
  "call_pairs = with_sockets [(''a'', 10, ''b'', 6), (''a'', 11, ''b'', 6), (''a'', 12, ''b'', 6)] (stolen call_env)"

lemma sample_has_address: "0 \<le> port \<Longrightarrow> port < 100 \<Longrightarrow> has_address (sample_address ip port) ip port"
  by (auto simp: has_address_def sample_address_def int_limits)

lemma call_nominates: "nominates call_env sample_result call_pairs"
proof -
  have "list_all2 (\<lambda>(i, x) p. has_pair x p) [(0, sample_pair 10), (1, sample_pair 11), (2, sample_pair 12)]
      [(''a'', 10, ''b'', 6), (''a'', 11, ''b'', 6), (''a'', 12, ''b'', 6)]"
    by (simp add: has_pair_def sample_pair_def sample_has_address)
  moreover have "omap_find sample_result ''pairs''
      = Some (arrayValue [(0, sample_pair 10), (1, sample_pair 11), (2, sample_pair 12)])"
    by (simp add: sample_result_def)
  moreover have "2 < length call_pairs" by (simp add: call_pairs_def call_env_def sample_env_def)
  ultimately show ?thesis using sample_plain(1) unfolding nominates_def call_pairs_def by blast
qed

lemma call_names_peers: "names_peers sample_answer (''c'', 7) (''c'', 8)"
  using sample_plain(2) by (simp add: names_peers_def sample_answer_def sample_has_address)

lemma call_can_forward:
  "call_pairs ! 0 = \<lparr>local_ip = ''a'', local_port = 10, remote_ip = ''b'', remote_port = 6, local_fd = 21\<rparr>"
  "call_pairs ! 2 = \<lparr>local_ip = ''a'', local_port = 12, remote_ip = ''b'', remote_port = 6, local_fd = 22\<rparr>"
  "can_forward (relay_os1 call_env) (call_pairs ! 0) []" "can_forward (relay_os2 call_env) (call_pairs ! 2) []"
  "ice_local (call_pairs ! 0) \<noteq> ice_local (call_pairs ! 2)"
proof -
  show p: "call_pairs ! 0 = \<lparr>local_ip = ''a'', local_port = 10, remote_ip = ''b'', remote_port = 6, local_fd = 21\<rparr>"
    "call_pairs ! 2 = \<lparr>local_ip = ''a'', local_port = 12, remote_ip = ''b'', remote_port = 6, local_fd = 22\<rparr>"
    by (simp_all add: call_pairs_def call_env_def sample_env_def)
  show "can_forward (relay_os1 call_env) (call_pairs ! 0) []" "can_forward (relay_os2 call_env) (call_pairs ! 2) []"
    unfolding p by (simp_all add: can_forward_def call_env_def sample_env_def ice_socket_def findForward_def sample_os_def)
  show "ice_local (call_pairs ! 0) \<noteq> ice_local (call_pairs ! 2)" unfolding p by (simp add: ice_local_def)
qed

theorem call_served_witness:
  "\<exists>A' config described result eff.
      app_trace (call_events (\<lambda>_. call_env) 3 9 [] [123, 125] 1
          (bytes_of (FastWriter_write no_doubles new_FastWriter (objectValue sample_answer)))) call_app
        = Inr (A', [NewCaller config (Some 5), CommandSent 3 described, StartNego 5 ''{}'', CommandSent 3 result,
                    EndpointFreed 5] @ map Relayed eff)
    \<and> frame_of ICE_OP_LOCAL_INFO 9 ''{}'' described \<and> omap_find (sessions (service A')) 9 = None
    \<and> findForward (forwards (service A')) (ice_local (call_pairs ! 0))
      = Some (fst (media_forwards call_env call_pairs (''c'', 7) (''c'', 8)))"
proof -
  have a: "idle call_app 3" "waiting (calls call_app) = []" "omap_find (sessions (service call_app)) 9 = None"
    "settings (service call_app) = ([], [])"
    by (simp_all add: call_app_def sample_app_def idle_def acceptCallback_def new_Connection_def sample_service_def settings_def)
  have e: "env_ok call_env (service call_app)" "offers call_env ''{}''"
    by (simp_all add: env_ok_def call_app_def sample_app_def call_env_def sample_env_def sample_service_def offers_def
        sample_os_def wire_consts NUL_def)
  have r: "result_ret call_env = 0" "env_lib call_env = no_doubles" "new_endpoint call_env = 5"
    "result_text call_env = FastWriter_write no_doubles new_FastWriter (objectValue sample_result)"
    by (simp_all add: call_env_def sample_env_def)
  have t: "text_of [123, 125] = ''{}''" by code_simp
  have "\<exists>A' config described result eff.
      app_trace (call_events (\<lambda>_. call_env) 3 9 [] [123, 125] 1
          (bytes_of (FastWriter_write no_doubles new_FastWriter (objectValue sample_answer)))) call_app
        = Inr (A', [NewCaller config (Some (new_endpoint call_env)), CommandSent 3 described,
            StartNego (new_endpoint call_env) (text_of [123, 125]), CommandSent 3 result,
            EndpointFreed (new_endpoint call_env)] @ map Relayed eff)
    \<and> frame_of ICE_OP_LOCAL_INFO 9 ''{}'' described \<and> frame_of ICE_OP_ICE_RESULT 9 (result_text call_env) result
    \<and> omap_find (sessions (service A')) 9 = None
    \<and> (\<forall>x. findForward (forwards (service A')) x =
         (if x = ice_local (call_pairs ! 0) then Some (fst (media_forwards call_env call_pairs (''c'', 7) (''c'', 8)))
          else if x = ice_local (call_pairs ! 2) then Some (snd (media_forwards call_env call_pairs (''c'', 7) (''c'', 8)))
          else findForward [] x))
    \<and> (\<forall>f \<in> {fst (media_forwards call_env call_pairs (''c'', 7) (''c'', 8)),
             snd (media_forwards call_env call_pairs (''c'', 7) (''c'', 8))}.
         \<forall>what dgs. bit what 1 \<and> (\<forall>dg \<in> set dgs. media_datagram f dg)
           \<longrightarrow> (\<exists>g. udpCallback what dgs f = Some (Inr (g, map (route f) dgs, []))))"
    by (rule call_served [where E = "\<lambda>_. call_env" and result = sample_result and answer = sample_answer, OF call_app_run a e])
       (use r call_nominates call_names_peers call_can_forward(3-5) sample_texts_fit in \<open>simp_all add: wire_consts\<close>)
  then show ?thesis unfolding r t
    by (elim exE conjE) (intro exI conjI, assumption+, erule allE [of _ "ice_local (call_pairs ! 0)"], simp only: if_True simp_thms)
qed

end
