(* ===== verification/RelayPacket.thy ===== *)
theory RelayPacket
  imports Prelude
begin

text \<open>
  The packets that an endpoint exchanges with the conference server to get a relay
  (\<open>third/eice/src/eice.cpp\<close>): registration, its acknowledgement and wrapped messages, all closed by
  a one byte checksum. Integers are in network order.
\<close>

section \<open>Layout\<close>

definition PKT_TYPE_HEARTBEAT :: byte where "PKT_TYPE_HEARTBEAT = 0xff"
definition PKT_TYPE_REGISTER :: byte where "PKT_TYPE_REGISTER = 0xfe"
definition PKT_TYPE_CTRL :: byte where "PKT_TYPE_CTRL = 0xfc"
definition PKT_TYPE_MSG :: byte where "PKT_TYPE_MSG = 0xF7"

definition MSG_TYPE_ICE_WRAP :: byte where "MSG_TYPE_ICE_WRAP = 0"
definition MSG_TYPE_SELECT_RELAY :: byte where "MSG_TYPE_SELECT_RELAY = 1"
definition MSG_TYPE_SELECT_RELAY_ACK :: byte where "MSG_TYPE_SELECT_RELAY_ACK = 2"

lemmas packet_types = PKT_TYPE_HEARTBEAT_def PKT_TYPE_REGISTER_def PKT_TYPE_CTRL_def PKT_TYPE_MSG_def
  MSG_TYPE_ICE_WRAP_def MSG_TYPE_SELECT_RELAY_def MSG_TYPE_SELECT_RELAY_ACK_def

definition be_set_u32 :: "u32 \<Rightarrow> byte list" where
  "be_set_u32 xval = [ucast (drop_bit 24 xval AND 0xFF), ucast (drop_bit 16 xval AND 0xFF),
     ucast (drop_bit 8 xval AND 0xFF), ucast (xval AND 0xFF)]"

definition be_get_u32 :: "nat \<Rightarrow> byte list \<Rightarrow> u32" where
  "be_get_u32 off p = push_bit 24 (ucast (p ! off)) OR push_bit 16 (ucast (p ! (off + 1)))
     OR push_bit 8 (ucast (p ! (off + 2))) OR ucast (p ! (off + 3))"

lemma length_be_set_u32 [simp]: "length (be_set_u32 x) = 4"
  by (simp add: be_set_u32_def)

lemma low_byte: "ucast (x AND 0xFF :: u32) = (ucast x :: byte)"
proof -
  have "x AND 0xFF = take_bit 8 x" by (simp add: take_bit_eq_mask mask_eq_exp_minus_1)
  then show ?thesis by (auto intro!: bit_word_eqI simp: bit_simps)
qed

lemma byte_of_word: "(ucast (ucast x :: byte) :: u32) = take_bit 8 x"
  by (rule bit_word_eqI) (auto simp: bit_simps)

lemma join_bytes:
  "push_bit 24 (take_bit 8 (drop_bit 24 x)) OR push_bit 16 (take_bit 8 (drop_bit 16 x))
     OR push_bit 8 (take_bit 8 (drop_bit 8 x)) OR take_bit 8 x = (x :: u32)" (is "?l = x")
proof (rule bit_word_eqI)
  fix n assume n: "n < LENGTH(32)"
  have "24 \<le> n \<Longrightarrow> n - 24 < 8" "n < 24 \<Longrightarrow> n - 16 < 8" "n < 16 \<Longrightarrow> n - 8 < 8" using n by auto
  moreover have "24 \<le> n \<or> 16 \<le> n \<and> n < 24 \<or> 8 \<le> n \<and> n < 16 \<or> n < 8" by linarith
  ultimately show "bit ?l n \<longleftrightarrow> bit x n"
    using n by (elim disjE conjE) (auto simp: bit_or_iff bit_push_bit_iff bit_take_bit_iff bit_drop_bit_eq)
qed

lemma be_get_set: "be_get_u32 (length a) (a @ be_set_u32 x @ b) = x"
  by (simp add: be_get_u32_def be_set_u32_def nth_append low_byte byte_of_word join_bytes)

text \<open>The exclusive or of the first \<open>datalen\<close> bytes, and its comparison with the last one.\<close>

definition calc_checksum :: "byte list \<Rightarrow> nat \<Rightarrow> byte" where
  "calc_checksum data datalen = foldl (\<lambda>chk b. chk XOR b) 0 (take datalen data)"

definition verify_checksum :: "byte list \<Rightarrow> u32 \<Rightarrow> bool outcome" where
  "verify_checksum data datalen =
     (let n = unat (datalen - 1)
      in if n \<ge> length data then Inl OutOfBounds else Inr (calc_checksum data n = data ! n))"

definition with_checksum :: "byte list \<Rightarrow> byte list" where
  "with_checksum p = p @ [calc_checksum p (length p)]"

text \<open>
  A packet is written from the start of a channel's buffer, with its checksum behind it. The length
  is that of the packet with the checksum.
\<close>

definition write_packet :: "byte list \<Rightarrow> byte list \<Rightarrow> (byte list \<times> nat) outcome" where
  "write_packet p buffer =
     (if length p + 1 > length buffer then Inl OutOfBounds
      else Inr (put_at 0 (with_checksum p) buffer, length p + 1))"

section \<open>Registration\<close>

text \<open>The lengths of the conference id and of the code are cut to one byte.\<close>

definition reg_pkt :: "u32 \<Rightarrow> string \<Rightarrow> string \<Rightarrow> u32 \<Rightarrow> byte list" where
  "reg_pkt sessionId confId rcode channel_id =
     (let conf_id_len = length confId mod 256; rcode_len = length rcode mod 256
      in PKT_TYPE_REGISTER # be_set_u32 sessionId @ of_nat conf_id_len # take conf_id_len (bytes_of confId)
           @ be_set_u32 channel_id @ of_nat rcode_len # take rcode_len (bytes_of rcode))"

definition make_reg_pkt_v1 :: "u32 \<Rightarrow> string \<Rightarrow> string \<Rightarrow> u32 \<Rightarrow> byte list \<Rightarrow> (byte list \<times> nat) outcome" where
  "make_reg_pkt_v1 sessionId confId rcode channel_id buffer
     = write_packet (reg_pkt sessionId confId rcode channel_id) buffer"

definition make_reg_pkt :: "u32 \<Rightarrow> string \<Rightarrow> string \<Rightarrow> u32 \<Rightarrow> byte list \<Rightarrow> (byte list \<times> nat) outcome" where
  "make_reg_pkt = make_reg_pkt_v1"

definition check_reg_ack :: "u32 \<Rightarrow> byte list \<Rightarrow> u32 \<Rightarrow> bool outcome" where
  "check_reg_ack sessionId buf len =
     (if len < 8 then Inr False
      else case verify_checksum buf len of
        Inl e \<Rightarrow> Inl e
      | Inr False \<Rightarrow> Inr False
      | Inr True \<Rightarrow>
          if be_get_u32 1 buf \<noteq> sessionId then Inr False
          else if buf ! 5 \<noteq> 0 then Inr False
          else Inr True)"

section \<open>Messages\<close>

text \<open>The 18 bytes in front of a message: packet and message type, session, component, transaction, length.\<close>

definition build_msg_header :: "u32 \<Rightarrow> u32 \<Rightarrow> byte \<Rightarrow> u32 \<Rightarrow> u32 \<Rightarrow> byte list" where
  "build_msg_header sessionId comp_id msg_type tsx_id data_len =
     [PKT_TYPE_MSG, msg_type] @ be_set_u32 sessionId @ be_set_u32 comp_id @ be_set_u32 tsx_id @ be_set_u32 data_len"

lemma length_build_msg_header [simp]: "length (build_msg_header s c m t n) = 18"
  by (simp add: build_msg_header_def)

lemma header_fields [simp]:
  "(build_msg_header s c m t n @ r) ! 0 = PKT_TYPE_MSG"
  "(build_msg_header s c m t n @ r) ! Suc 0 = m"
  "be_get_u32 2 (build_msg_header s c m t n @ r) = s"
  "be_get_u32 6 (build_msg_header s c m t n @ r) = c"
  "be_get_u32 10 (build_msg_header s c m t n @ r) = t"
  "be_get_u32 14 (build_msg_header s c m t n @ r) = n"
  using be_get_set [of "[PKT_TYPE_MSG, m]" s "be_set_u32 c @ be_set_u32 t @ be_set_u32 n @ r"]
    be_get_set [of "[PKT_TYPE_MSG, m] @ be_set_u32 s" c "be_set_u32 t @ be_set_u32 n @ r"]
    be_get_set [of "[PKT_TYPE_MSG, m] @ be_set_u32 s @ be_set_u32 c" t "be_set_u32 n @ r"]
    be_get_set [of "[PKT_TYPE_MSG, m] @ be_set_u32 s @ be_set_u32 c @ be_set_u32 t" n r]
  by (simp_all add: build_msg_header_def numeral_2_eq_2)

section \<open>Checksums\<close>

lemma checksum_snoc: "calc_checksum (p @ q) (length p) = calc_checksum p (length p)"
  by (simp add: calc_checksum_def)

lemma length_with_checksum [simp]: "length (with_checksum p) = Suc (length p)"
  by (simp add: with_checksum_def)

lemma verify_with_checksum:
  assumes "length p < 2 ^ 31" "len = of_nat (Suc (length p))"
  shows "verify_checksum (with_checksum p @ r) len = Inr True"
proof -
  have "len - 1 = of_nat (length p)" using assms(2) by simp
  then have "unat (len - 1) = length p" using assms(1) by (simp add: unat_of_nat_u32)
  then show ?thesis by (simp add: verify_checksum_def with_checksum_def checksum_snoc nth_append)
qed

lemma foldl_xor: "foldl (\<lambda>chk b. chk XOR b) c bs = c XOR foldl (\<lambda>chk b. chk XOR b) 0 (bs :: byte list)"
proof (induction bs arbitrary: c)
  case (Cons b bs)
  show ?case using Cons [of "c XOR b"] Cons [of b] by (simp add: xor.assoc)
qed simp

lemma xor_cancel: "(a XOR x) XOR b = (a XOR y) XOR b \<longleftrightarrow> x = (y :: byte)"
  by (auto simp: bit_eq_iff bit_xor_iff)

lemma xor_fold_change:
  "foldl (\<lambda>chk b. chk XOR b) 0 (a @ x # b) = foldl (\<lambda>chk b. chk XOR b) 0 (a @ y # b) \<longleftrightarrow> x = (y :: byte)"
  using foldl_xor [of "foldl (\<lambda>chk b. chk XOR b) 0 a XOR x" b] foldl_xor [of "foldl (\<lambda>chk b. chk XOR b) 0 a XOR y" b]
  by (simp add: xor_cancel)

text \<open>
  The checksum finds every corruption of a single byte: a packet closed by its checksum is
  accepted as it was sent, and refused when any one byte of it, the checksum included, has changed.
\<close>
theorem checksum_single_byte:
  assumes "length p < 2 ^ 31" "i < length (with_checksum p)" "len = of_nat (length (with_checksum p))"
  shows "verify_checksum ((with_checksum p)[i := b]) len = Inr (b = with_checksum p ! i)"
proof -
  let ?q = "(with_checksum p)[i := b]"
  have "len - 1 = of_nat (length p)" using assms(3) by simp
  then have n: "unat (len - 1) = length p" using assms(1) by (simp add: unat_of_nat_u32)
  show ?thesis
  proof (cases "i = length p")
    case True
    then show ?thesis using n
      by (auto simp: verify_checksum_def with_checksum_def checksum_snoc list_update_append)
  next
    case False
    with assms(2) have i: "i < length p" by simp
    have p: "p = take i p @ p ! i # drop (Suc i) p" using i by (simp add: id_take_nth_drop)
    have q: "p[i := b] = take i p @ b # drop (Suc i) p" using i by (simp add: upd_conv_take_nth_drop)
    have "calc_checksum (p[i := b]) (length p) = calc_checksum p (length p) \<longleftrightarrow> b = p ! i"
    proof -
      have "calc_checksum (p[i := b]) (length p) = foldl (\<lambda>chk b. chk XOR b) 0 (p[i := b])"
        "calc_checksum p (length p) = foldl (\<lambda>chk b. chk XOR b) 0 p" by (simp_all add: calc_checksum_def)
      then show ?thesis using xor_fold_change [of "take i p" b "drop (Suc i) p" "p ! i"] p q by metis
    qed
    then show ?thesis using i n checksum_snoc [of "p[i := b]"]
      by (simp add: verify_checksum_def with_checksum_def list_update_append nth_append)
  qed
qed

theorem checksum_single_byte_witness:
  "verify_checksum ((with_checksum [1, 2, 3])[1 := 7]) 4 = Inr False"
  using checksum_single_byte [of "[1, 2, 3]" 1 4 7] by (simp add: with_checksum_def)

lemma length_reg_pkt: "length (reg_pkt s c r ch) = 11 + length c mod 256 + length r mod 256"
proof -
  have "length x mod 256 \<le> length x" for x :: string by simp
  then show ?thesis by (simp add: reg_pkt_def Let_def min_absorb2)
qed

text \<open>
  A registration packet always fits its buffer, whatever the lengths of the conference id and of
  the code, and the server's check of its checksum succeeds.
\<close>
theorem reg_pkt_fits:
  assumes "length buffer = 1024"
  shows "\<exists>buf n. make_reg_pkt s c r ch buffer = Inr (buf, n) \<and> length buf = 1024 \<and> n \<le> 522
    \<and> verify_checksum (take n buf) (of_nat n) = Inr True"
proof -
  let ?p = "reg_pkt s c r ch"
  have l: "length ?p < 522"
    unfolding length_reg_pkt using mod_less_divisor [of 256 "length c"] mod_less_divisor [of 256 "length r"] by linarith
  have "take (Suc (length ?p)) (put_at 0 (with_checksum ?p) buffer) = with_checksum ?p"
    by (simp add: put_at_def)
  moreover have "verify_checksum (with_checksum ?p @ []) (of_nat (Suc (length ?p))) = Inr True"
    using l by (intro verify_with_checksum) auto
  ultimately show ?thesis
    using l assms by (simp add: make_reg_pkt_def make_reg_pkt_v1_def write_packet_def)
qed

end
