(* ===== verification/Confice.thy ===== *)
theory Confice
  imports RelayPacket JsonWriter
begin

text \<open>
  The relay client of an endpoint, \<open>confice_t\<close> of \<open>third/eice/src/eice.cpp\<close>: it registers its channels
  with the conference server, checks connectivity with the other side through it, and when asked
  to, agrees with the other side on the relay. What the clock, the sockets and the pjnath library
  answer is a parameter; packets sent, the completion callback and calls of pjnath are effects.
\<close>

section \<open>Addresses\<close>

text \<open>
  An address is kept as the family, text and port it is initialised with. \<open>answers\<close> is what
  \<open>getaddrinfo\<close> finds for a name, with \<open>getnameinfo\<close>'s text for each entry, and nothing when it fails.
\<close>

datatype family = AF_INET | AF_INET6 | AF_OTHER

type_synonym sockaddr = "family \<times> string \<times> int"
type_synonym answers = "string \<Rightarrow> (family \<times> string) list option"

definition ip_to_addr_family :: "string option \<Rightarrow> family" where
  "ip_to_addr_family ip =
     (case ip of None \<Rightarrow> AF_INET | Some s \<Rightarrow> if CHR '':'' \<in> set s then AF_INET6 else AF_INET)"

definition ipv4ToIpv6 :: "answers \<Rightarrow> string \<Rightarrow> string option" where
  "ipv4ToIpv6 ans ipv4 =
     (case ans ipv4 of
        None \<Rightarrow> None
      | Some l \<Rightarrow> map_option snd (find (\<lambda>e. fst e = AF_INET6 \<and> snd e \<noteq> ''0'') l))"

text \<open>The second result is the \<open>ipv6\<close> buffer of the caller.\<close>

definition make_addr_v2 :: "answers \<Rightarrow> string option \<Rightarrow> int \<Rightarrow> family \<Rightarrow> sockaddr \<times> string" where
  "make_addr_v2 ans ip port target_af =
     (let ip_text = (case ip of None \<Rightarrow> [] | Some s \<Rightarrow> s); af = ip_to_addr_family ip
      in if af \<noteq> AF_INET6 \<and> target_af = AF_INET6 \<and> ip_text \<noteq> []
         then (case ipv4ToIpv6 ans ip_text of
                 Some ipv6 \<Rightarrow> ((AF_INET6, ipv6, port), ipv6)
               | None \<Rightarrow> ((AF_INET, ip_text, port), []))
         else ((af, ip_text, port), []))"

definition make_addr :: "answers \<Rightarrow> string option \<Rightarrow> int \<Rightarrow> family \<Rightarrow> sockaddr" where
  "make_addr ans ip port target_af = fst (make_addr_v2 ans ip port target_af)"

section \<open>State\<close>

datatype confice_op =
    CONF_OP_NONE | CONF_OP_REGING | CONF_OP_REG_DONE | CONF_OP_NEGOING | CONF_OP_NEGO_DONE
  | CONF_OP_SELECTING | CONF_OP_SELECT_DONE | CONF_OP_FINAL

fun conf_val :: "confice_op \<Rightarrow> nat" where
  "conf_val CONF_OP_NONE = 0"
| "conf_val CONF_OP_REGING = 1"
| "conf_val CONF_OP_REG_DONE = 2"
| "conf_val CONF_OP_NEGOING = 3"
| "conf_val CONF_OP_NEGO_DONE = 4"
| "conf_val CONF_OP_SELECTING = 5"
| "conf_val CONF_OP_SELECT_DONE = 6"
| "conf_val CONF_OP_FINAL = 99"

lemma conf_val_inject [simp]: "conf_val a = conf_val b \<longleftrightarrow> a = b"
  by (cases a; cases b) simp_all

instantiation confice_op :: linorder
begin

definition less_eq_confice_op :: "confice_op \<Rightarrow> confice_op \<Rightarrow> bool" where
  "less_eq_confice_op a b \<longleftrightarrow> conf_val a \<le> conf_val b"

definition less_confice_op :: "confice_op \<Rightarrow> confice_op \<Rightarrow> bool" where
  "less_confice_op a b \<longleftrightarrow> conf_val a < conf_val b"

instance
  by standard (auto simp: less_eq_confice_op_def less_confice_op_def)

end

lemmas conf_order = less_eq_confice_op_def less_confice_op_def

lemma final_greatest [simp]: "s \<le> CONF_OP_FINAL" "s < CONF_OP_FINAL \<longleftrightarrow> s \<noteq> CONF_OP_FINAL"
  "\<not> CONF_OP_FINAL < s"
  by (cases s; simp add: conf_order)+

text \<open>
  One channel; \<open>pkt_common\<close> is its buffer of 1024 bytes and \<open>pkt_ice\<close> that of 2048. The address the
  socket is bound to is kept as text.
\<close>

record confchannel =
  comp_id :: u32
  channelId :: int
  bound_ip :: "string option"
  bound_port :: int
  active_sock :: "int option"
  is_reg :: bool
  pkt_ice :: "byte list"
  tsx_id :: u32
  pkt_common :: "byte list"
  pkt_common_len :: nat
  is_relay_done :: bool

datatype ice_role = CONTROLLING | CONTROLLED

record ice_creds =
  str_local_ufrag :: string
  str_local_pwd :: string
  str_remote_ufrag :: string
  str_remote_pwd :: string

record confice =
  role :: ice_role
  confId :: string
  serverIp :: string
  rcode :: string
  serverPort :: int
  channels :: "confchannel list"
  timeout_ms :: u32
  server_addr :: sockaddr
  state :: confice_op
  reg_send_count :: u32
  reg_send_time :: nat
  sel_relay_kicked :: bool
  sel_relay_done :: bool
  sel_relay_send_time :: nat
  sessionId :: u32
  ice_sess :: bool
  credentials :: ice_creds
  final_result :: int
  env_af :: family

abbreviation channelCount :: "confice \<Rightarrow> nat" where
  "channelCount C \<equiv> length (channels C)"

definition CICE_DEFAULT_TIMEOUT_MS :: u32 where "CICE_DEFAULT_TIMEOUT_MS = 4000"

text \<open>
  What is outside: the clock in milliseconds, its low word when the transaction id of a channel is
  drawn, the status of the \<open>k\<close>-th pjnath call of a start, and the name lookup. Packets go to
  \<open>server_addr\<close>.
\<close>

record conf_env =
  now_ms :: nat
  tick :: "nat \<Rightarrow> u32"
  nath_status :: "nat \<Rightarrow> int"
  lookup :: answers

text \<open>The calls of \<open>pj_ice_sess_create\<close>, \<open>_add_cand\<close>, \<open>_create_check_list\<close> and \<open>_start_check\<close>.\<close>

datatype ice_call =
    SessCreate string ice_role nat string string
  | AddCand u32 sockaddr sockaddr
  | CreateCheckList string string "(nat \<times> sockaddr \<times> sockaddr) list"
  | StartCheck

datatype conf_effect =
    Sendto nat "byte list"
  | OnComplete confice_op int
  | IceCall ice_call
  | IceRx u32 "byte list"
  | TimerScheduled

type_synonym conf_result = "(confice \<times> conf_effect list) outcome"

definition pj_elapsed_msec :: "nat \<Rightarrow> nat \<Rightarrow> u32" where
  "pj_elapsed_msec t0 t = of_nat (t - t0)"

section \<open>Sending\<close>

fun each_channel ::
  "(nat \<Rightarrow> confchannel \<Rightarrow> (confchannel \<times> conf_effect) outcome) \<Rightarrow> nat \<Rightarrow> confchannel list
    \<Rightarrow> (confchannel list \<times> conf_effect list) outcome" where
  "each_channel f i [] = Inr ([], [])"
| "each_channel f i (ch # chs) =
     (case f i ch of
        Inl e \<Rightarrow> Inl e
      | Inr (ch', eff) \<Rightarrow>
          (case each_channel f (Suc i) chs of
             Inl e \<Rightarrow> Inl e
           | Inr (chs', effs) \<Rightarrow> Inr (ch' # chs', eff # effs)))"

text \<open>Writing a packet to \<open>pkt_common\<close> and sending it.\<close>

definition send_common :: "nat \<Rightarrow> byte list \<Rightarrow> confchannel \<Rightarrow> (confchannel \<times> conf_effect) outcome" where
  "send_common i p ch =
     (case write_packet p (pkt_common ch) of
        Inl e \<Rightarrow> Inl e
      | Inr (buf, n) \<Rightarrow>
          Inr (ch\<lparr>pkt_common := buf, pkt_common_len := n\<rparr>, Sendto i (take n buf)))"

definition send_reg :: "conf_env \<Rightarrow> confice \<Rightarrow> conf_result" where
  "send_reg E C =
     (case each_channel (\<lambda>i ch.
             case make_reg_pkt (sessionId C) (confId C) (rcode C) (of_int (channelId ch)) (pkt_common ch) of
               Inl e \<Rightarrow> Inl e
             | Inr (buf, n) \<Rightarrow> Inr (ch\<lparr>pkt_common := buf, pkt_common_len := n\<rparr>, Sendto i (take n buf)))
           0 (channels C) of
        Inl e \<Rightarrow> Inl e
      | Inr (chs, eff) \<Rightarrow>
          let C1 = C\<lparr>channels := chs\<rparr>
          in if reg_send_count C = 0
             then if \<not> state C < CONF_OP_REGING then Inl AssertFailed
                  else Inr (C1\<lparr>reg_send_time := now_ms E, state := CONF_OP_REGING, reg_send_count := 1\<rparr>, eff)
             else Inr (C1\<lparr>reg_send_count := reg_send_count C + 1\<rparr>, eff))"

definition generate_u32 :: "conf_env \<Rightarrow> nat \<Rightarrow> u32" where
  "generate_u32 E i = tick E i mod 1000000"

section \<open>State changes\<close>

definition set_state :: "confice_op \<Rightarrow> int \<Rightarrow> confice \<Rightarrow> confice \<times> conf_effect list" where
  "set_state new_state result C =
     (C\<lparr>state := new_state\<rparr>, if state C < new_state then [OnComplete new_state result] else [])"

definition set_final :: "int \<Rightarrow> confice \<Rightarrow> confice \<times> conf_effect list" where
  "set_final result C =
     set_state CONF_OP_FINAL result (if state C < CONF_OP_FINAL then C\<lparr>final_result := result\<rparr> else C)"

definition check_for_select_relay :: "conf_env \<Rightarrow> confice \<Rightarrow> conf_result" where
  "check_for_select_relay E C =
     (if state C \<noteq> CONF_OP_NEGO_DONE \<or> \<not> sel_relay_kicked C \<or> role C \<noteq> CONTROLLING then Inr (C, [])
      else case each_channel (\<lambda>i ch.
               let t = generate_u32 E i
               in send_common i (build_msg_header (sessionId C) (comp_id ch) MSG_TYPE_SELECT_RELAY t 0)
                    (ch\<lparr>tsx_id := t\<rparr>)) 0 (channels C) of
          Inl e \<Rightarrow> Inl e
        | Inr (chs, eff) \<Rightarrow>
            Inr (C\<lparr>channels := chs, sel_relay_send_time := now_ms E, state := CONF_OP_SELECTING\<rparr>, eff))"

definition check_for_select_relay_done :: "confice \<Rightarrow> confice \<times> conf_effect list" where
  "check_for_select_relay_done C =
     (if sel_relay_done C then (C, [])
      else if \<forall>ch \<in> set (channels C). is_relay_done ch
           then set_final 0 (C\<lparr>sel_relay_done := True\<rparr>)
           else (C\<lparr>sel_relay_done := False\<rparr>, []))"

section \<open>The ICE session over the relay\<close>

definition on_ccc_ice_complete :: "conf_env \<Rightarrow> int \<Rightarrow> confice \<Rightarrow> conf_result" where
  "on_ccc_ice_complete E status C =
     (if state C \<noteq> CONF_OP_NEGOING then Inr (C, [])
      else
        let (C1, eff1) = set_state CONF_OP_NEGO_DONE status C
        in if status \<noteq> 0 then let (C2, eff2) = set_final status C1 in Inr (C2, eff1 @ eff2)
           else (case check_for_select_relay E C1 of
                   Inl e \<Rightarrow> Inl e
                 | Inr (C2, eff2) \<Rightarrow> Inr (C2, eff1 @ eff2)))"

text \<open>A packet of the ICE session, wrapped for the server. No length is checked.\<close>

definition on_ccc_ice_tx_pkt :: "u32 \<Rightarrow> byte list \<Rightarrow> confice \<Rightarrow> conf_result" where
  "on_ccc_ice_tx_pkt cid pkt C =
     (if cid = 0 \<or> unat cid > channelCount C then Inl AssertFailed
      else
        let i = unat cid - 1; ch = channels C ! i;
            p = build_msg_header (sessionId C) (comp_id ch) MSG_TYPE_ICE_WRAP 0 (of_nat (length pkt)) @ pkt
        in (case write_packet p (pkt_ice ch) of
              Inl e \<Rightarrow> Inl e
            | Inr (buf, n) \<Rightarrow>
                Inr (C\<lparr>channels := (channels C)[i := ch\<lparr>pkt_ice := buf\<rparr>]\<rparr>, [Sendto i (take n buf)])))"

text \<open>
  \<open>_start_nego\<close> makes its calls in turn up to the first that fails. Both sides give the session the
  same made up addresses, which only name the two ends.
\<close>

definition CALLER_FAKE_IP :: string where "CALLER_FAKE_IP = ''10.10.10.10''"
definition CALLEE_FAKE_IP :: string where "CALLEE_FAKE_IP = ''10.10.10.11''"

definition fake_addr :: "answers \<Rightarrow> string \<Rightarrow> nat \<Rightarrow> confice \<Rightarrow> sockaddr" where
  "fake_addr ans ip i C = make_addr ans (Some ip) (2000 + int i) (env_af C)"

definition nego_calls :: "answers \<Rightarrow> confice \<Rightarrow> ice_call list" where
  "nego_calls ans C =
     SessCreate (''ccc-ice-'' @ (if role C = CONTROLLING then ''caller'' else ''callee'')) (role C) (channelCount C)
       (c_str (str_local_ufrag (credentials C))) (c_str (str_local_pwd (credentials C)))
     # map (\<lambda>(i, ch). AddCand (comp_id ch) (fake_addr ans CALLER_FAKE_IP i C) (make_addr ans None 0 (env_af C)))
         (enumerate 0 (channels C))
     @ [CreateCheckList (c_str (str_remote_ufrag (credentials C))) (c_str (str_remote_pwd (credentials C)))
          (map (\<lambda>i. (i + 1, fake_addr ans CALLEE_FAKE_IP i C, make_addr ans (Some []) 0 (env_af C))) [0 ..< channelCount C]),
        StartCheck]"

fun run_calls :: "(nat \<Rightarrow> int) \<Rightarrow> nat \<Rightarrow> ice_call list \<Rightarrow> int \<times> conf_effect list" where
  "run_calls st k [] = (0, [])"
| "run_calls st k (c # cs) =
     (if st k \<noteq> 0 then (st k, [IceCall c])
      else let (r, eff) = run_calls st (Suc k) cs in (r, IceCall c # eff))"

definition start_nego :: "conf_env \<Rightarrow> confice \<Rightarrow> confice \<times> conf_effect list" where
  "start_nego E C =
     (let (pjst, eff1) = run_calls (nath_status E) 0 (nego_calls (lookup E) C);
          C1 = C\<lparr>ice_sess := (nath_status E 0 = 0)\<rparr>;
          (C2, eff2) = (if pjst = 0 then set_state CONF_OP_NEGOING 0 C1 else set_final pjst C1)
      in (C2, eff1 @ eff2))"

section \<open>Receiving\<close>

text \<open>
  \<open>on_data_recvfrom\<close> on channel \<open>i\<close>. \<open>buf\<close> is the whole receive buffer, of which the first \<open>n\<close>
  bytes are the datagram; the library passes no buffer when the read has failed. The header is read
  before any length is checked.
\<close>

definition recv_register :: "conf_env \<Rightarrow> nat \<Rightarrow> byte list \<Rightarrow> u32 \<Rightarrow> confice \<Rightarrow> conf_result" where
  "recv_register E i buf len C =
     (case check_reg_ack (sessionId C) buf len of
        Inl e \<Rightarrow> Inl e
      | Inr False \<Rightarrow> Inr (C, [])
      | Inr True \<Rightarrow>
          if state C \<noteq> CONF_OP_REGING then Inr (C, [])
          else
            let C1 = C\<lparr>channels := (channels C)[i := (channels C ! i)\<lparr>is_reg := True\<rparr>]\<rparr>
            in if \<forall>ch \<in> set (channels C1). is_reg ch
               then let (C2, eff2) = set_state CONF_OP_REG_DONE 0 C1;
                        (C3, eff3) = start_nego E C2
                    in Inr (C3, eff2 @ eff3)
               else Inr (C1, []))"

definition bad_comp :: "u32 \<Rightarrow> confice \<Rightarrow> bool" where
  "bad_comp cid C \<longleftrightarrow> cid = 0 \<or> unat cid > channelCount C"

definition recv_ice_wrap :: "byte list \<Rightarrow> u32 \<Rightarrow> u32 \<Rightarrow> u32 \<Rightarrow> confice \<Rightarrow> conf_result" where
  "recv_ice_wrap buf len cid data_len C =
     (if \<not> ice_sess C then Inr (C, [])
      else case verify_checksum buf len of
        Inl e \<Rightarrow> Inl e
      | Inr False \<Rightarrow> Inr (C, [])
      | Inr True \<Rightarrow>
          if bad_comp cid C then Inr (C, [])
          else if 18 + unat data_len > length buf then Inl OutOfBounds
          else Inr (C, [IceRx cid (get_at 18 (unat data_len) buf)]))"

definition relay_done :: "nat \<Rightarrow> confice \<Rightarrow> confice" where
  "relay_done i C = C\<lparr>channels := (channels C)[i := (channels C ! i)\<lparr>is_relay_done := True\<rparr>]\<rparr>"

text \<open>The acknowledgement is the packet itself with its type and checksum changed.\<close>

definition send_ack :: "nat \<Rightarrow> byte list \<Rightarrow> u32 \<Rightarrow> confchannel \<Rightarrow> (confchannel \<times> conf_effect) outcome" where
  "send_ack i buf len ch =
     (let n = unat (len - 1)
      in if n + 1 > length (pkt_common ch) then Inl OutOfBounds
         else
           let pkt1 = (put_at 0 (take n buf) (pkt_common ch))[1 := MSG_TYPE_SELECT_RELAY_ACK];
               pkt2 = pkt1[n := calc_checksum pkt1 n]
           in Inr (ch\<lparr>pkt_common := pkt2, pkt_common_len := n + 1\<rparr>, Sendto i (take (n + 1) pkt2)))"

definition recv_select_relay :: "nat \<Rightarrow> byte list \<Rightarrow> u32 \<Rightarrow> u32 \<Rightarrow> confice \<Rightarrow> conf_result" where
  "recv_select_relay i buf len cid C =
     (if role C \<noteq> CONTROLLED \<or> state C < CONF_OP_NEGO_DONE then Inr (C, [])
      else case verify_checksum buf len of
        Inl e \<Rightarrow> Inl e
      | Inr False \<Rightarrow> Inr (C, [])
      | Inr True \<Rightarrow>
          if bad_comp cid C then Inr (C, [])
          else
            let C1 = relay_done i C
            in (case send_ack i buf len (channels C1 ! i) of
                  Inl e \<Rightarrow> Inl e
                | Inr (ch, eff) \<Rightarrow>
                    let (C2, eff2) = check_for_select_relay_done (C1\<lparr>channels := (channels C1)[i := ch]\<rparr>)
                    in Inr (C2, eff # eff2)))"

definition recv_select_relay_ack :: "nat \<Rightarrow> byte list \<Rightarrow> u32 \<Rightarrow> u32 \<Rightarrow> u32 \<Rightarrow> confice \<Rightarrow> conf_result" where
  "recv_select_relay_ack i buf len cid tsx C =
     (if role C \<noteq> CONTROLLING \<or> state C \<noteq> CONF_OP_SELECTING then Inr (C, [])
      else case verify_checksum buf len of
        Inl e \<Rightarrow> Inl e
      | Inr False \<Rightarrow> Inr (C, [])
      | Inr True \<Rightarrow>
          if bad_comp cid C \<or> tsx \<noteq> tsx_id (channels C ! i) then Inr (C, [])
          else Inr (check_for_select_relay_done (relay_done i C)))"

definition recv_msg :: "nat \<Rightarrow> byte list \<Rightarrow> u32 \<Rightarrow> confice \<Rightarrow> conf_result" where
  "recv_msg i buf len C =
     (if length buf < 18 then Inl OutOfBounds
      else
        let msg_type = buf ! 1; sess_id = be_get_u32 2 buf; cid = be_get_u32 6 buf;
            tsx = be_get_u32 10 buf; data_len = be_get_u32 14 buf
        in if sess_id \<noteq> sessionId C \<or> cid \<noteq> comp_id (channels C ! i) then Inr (C, [])
           else if msg_type = MSG_TYPE_ICE_WRAP then recv_ice_wrap buf len cid data_len C
           else if msg_type = MSG_TYPE_SELECT_RELAY then recv_select_relay i buf len cid C
           else if msg_type = MSG_TYPE_SELECT_RELAY_ACK then recv_select_relay_ack i buf len cid tsx C
           else Inr (C, []))"

definition on_data_recvfrom :: "conf_env \<Rightarrow> nat \<Rightarrow> byte list option \<Rightarrow> nat \<Rightarrow> confice \<Rightarrow> conf_result" where
  "on_data_recvfrom E i data n C =
     (case data of
        None \<Rightarrow> Inl NullDeref
      | Some buf \<Rightarrow>
          if buf = [] then Inl OutOfBounds
          else if buf ! 0 = PKT_TYPE_REGISTER then recv_register E i buf (of_nat n) C
          else if buf ! 0 = PKT_TYPE_MSG then recv_msg i buf (of_nat n) C
          else Inr (C, []))"

section \<open>The timer and the calls of the endpoint\<close>

definition retransmit_select :: "nat \<Rightarrow> confchannel \<Rightarrow> conf_effect" where
  "retransmit_select i ch = Sendto i (take (pkt_common_len ch) (pkt_common ch))"

definition timer_reging :: "conf_env \<Rightarrow> confice \<Rightarrow> conf_result" where
  "timer_reging E C =
     (if state C \<noteq> CONF_OP_REGING then Inr (C, [])
      else if pj_elapsed_msec (reg_send_time C) (now_ms E) < timeout_ms C then send_reg E C
      else Inr (set_final (-1) C))"

definition timer_selecting :: "conf_env \<Rightarrow> confice \<Rightarrow> confice \<times> conf_effect list" where
  "timer_selecting E C =
     (if state C \<noteq> CONF_OP_SELECTING then (C, [])
      else if pj_elapsed_msec (sel_relay_send_time C) (now_ms E) < timeout_ms C
           then (C, map (\<lambda>i. retransmit_select i (channels C ! i)) [0 ..< channelCount C])
      else set_final (-1) C)"

definition timer_cb :: "conf_env \<Rightarrow> confice \<Rightarrow> conf_result" where
  "timer_cb E C =
     (case timer_reging E C of
        Inl e \<Rightarrow> Inl e
      | Inr (C1, eff1) \<Rightarrow>
          let (C2, eff2) = timer_selecting E C1
          in Inr (C2, eff1 @ eff2 @ (if state C2 \<noteq> CONF_OP_FINAL then [TimerScheduled] else [])))"

definition confice_kickoff_reg :: "conf_env \<Rightarrow> confice \<Rightarrow> (int \<times> confice \<times> conf_effect list) outcome" where
  "confice_kickoff_reg E C =
     (if state C \<ge> CONF_OP_REGING then Inr (-1, C, [])
      else map_sum (\<lambda>e. e) (Pair 0) (send_reg E C))"

definition confice_kickoff_select_relay ::
  "conf_env \<Rightarrow> confice \<Rightarrow> (int \<times> confice \<times> conf_effect list) outcome" where
  "confice_kickoff_select_relay E C =
     (if state C \<ge> CONF_OP_SELECTING then Inr (-1, C, [])
      else map_sum (\<lambda>e. e) (Pair 0) (check_for_select_relay E (C\<lparr>sel_relay_kicked := True\<rparr>)))"

definition confice_cancel :: "confice \<Rightarrow> int \<times> confice \<times> conf_effect list" where
  "confice_cancel C =
     (if state C \<ge> CONF_OP_FINAL then (-1, C, []) else (0, set_final (-1) C))"

definition confice_steal_fds :: "confice \<Rightarrow> int list option" where
  "confice_steal_fds C =
     (if state C \<noteq> CONF_OP_FINAL \<or> final_result C \<noteq> 0 then None
      else Some (List.map_filter active_sock (channels C)))"

section \<open>Creation and result\<close>

definition channel_result :: "confice \<Rightarrow> nat \<Rightarrow> confchannel \<Rightarrow> Value" where
  "channel_result C i ch =
     (let cid = intValue (int i + 1);
          remote = value_of_members
            [(''component'', cid), (''type'', stringValue ''relayMS''), (''ip'', stringValue (c_str (serverIp C))),
             (''port'', intValue (serverPort C)), (''protocol'', stringValue ''udp''),
             (''conferenceId'', stringValue (c_str (confId C))), (''rcode'', stringValue (c_str (rcode C))),
             (''channelId'', intValue (channelId ch))];
          local = value_of_members
            [(''component'', cid), (''type'', stringValue ''host''),
             (''ip'', stringValue (case bound_ip ch of Some ip \<Rightarrow> c_str ip | None \<Rightarrow> ''0.0.0.0'')),
             (''port'', intValue (bound_port ch)), (''protocol'', stringValue ''udp'')]
      in value_of_members [(''comp_id'', cid), (''local'', local), (''remote'', remote)])"

definition confice_get_result :: "confice \<Rightarrow> Value option" where
  "confice_get_result C =
     (if state C \<noteq> CONF_OP_FINAL \<or> final_result C \<noteq> 0 then None
      else Some (value_of_items (map (\<lambda>(i, ch). channel_result C i ch) (enumerate 0 (channels C)))))"

definition new_channel :: "nat \<Rightarrow> int \<Rightarrow> int \<times> string option \<times> int \<Rightarrow> confchannel" where
  "new_channel i chid sock =
     (case sock of (fd, ip, port) \<Rightarrow>
        \<lparr>comp_id = of_nat (Suc i), channelId = chid, bound_ip = ip, bound_port = port, active_sock = Some fd,
         is_reg = False, pkt_ice = replicate 2048 0, tsx_id = 0, pkt_common = replicate 1024 0,
         pkt_common_len = 0, is_relay_done = False\<rparr>)"

fun new_channels :: "nat \<Rightarrow> int list \<Rightarrow> (int + int \<times> string option \<times> int) list \<Rightarrow> int + confchannel list" where
  "new_channels i [] socks = Inr []"
| "new_channels i (chid # ids) [] = Inl (-1)"
| "new_channels i (chid # ids) (Inl status # socks) = Inl status"
| "new_channels i (chid # ids) (Inr s # socks) =
     map_sum (\<lambda>e. e) (Cons (new_channel i chid s)) (new_channels (Suc i) ids socks)"

text \<open>
  \<open>confice_new\<close>: per channel what the socket calls give, a status or a descriptor with its address.
  The result is a status or the new object with its timer scheduled.
\<close>

definition confice_new ::
  "clib \<Rightarrow> Value \<Rightarrow> answers \<Rightarrow> family \<Rightarrow> ice_role \<Rightarrow> ice_creds \<Rightarrow> (int + int \<times> string option \<times> int) list
    \<Rightarrow> (int + confice \<times> conf_effect list) throws" where
  "confice_new L config ans af rl creds socks =
     throw_bind (string_member (print_double L) config ''conferenceId'') (\<lambda>conf.
     throw_bind (string_member (print_double L) config ''serverIp'') (\<lambda>ip.
     throw_bind (string_member (print_double L) config ''rcode'') (\<lambda>code.
     throw_bind (int_member config ''serverPort'') (\<lambda>port.
     throw_bind (int_member config ''sessionId'') (\<lambda>sess.
     throw_bind (vmember config ''vchannelId'') (\<lambda>vch.
     throw_bind (int_member config ''channelId'') (\<lambda>ch0.
     throw_bind (if Value_empty vch then Inr [ch0] else map_sum (\<lambda>e. e) (\<lambda>ch1. [ch0, ch1]) (int_member config ''vchannelId''))
       (\<lambda>ids.
     Inr (map_sum (\<lambda>status. status)
            (\<lambda>chs.
              let (addr, ipv6) = make_addr_v2 ans (Some (c_str ip)) port af
              in (\<lparr>role = rl, confId = conf, serverIp = (if ipv6 \<noteq> [] then ipv6 else ip), rcode = code,
                    serverPort = port, channels = chs, timeout_ms = CICE_DEFAULT_TIMEOUT_MS, server_addr = addr,
                    state = CONF_OP_NONE, reg_send_count = 0, reg_send_time = 0, sel_relay_kicked = False,
                    sel_relay_done = False, sel_relay_send_time = 0, sessionId = of_int sess, ice_sess = False,
                    credentials = \<lparr>str_local_ufrag = c_str (str_local_ufrag creds), str_local_pwd = c_str (str_local_pwd creds),
                      str_remote_ufrag = c_str (str_remote_ufrag creds), str_remote_pwd = c_str (str_remote_pwd creds)\<rparr>,
                    final_result = 0, env_af = af\<rparr>,
                   [TimerScheduled]))
            (new_channels 0 ids socks))))))))))"

end
