(* ===== verification/ConficeLife.thy ===== *)
theory ConficeLife
  imports Confice
begin

text \<open>
  What the relay client does over its life: the properties of \<open>Confice\<close>. Its state only moves
  forward and completion is reported once; it is safe from every packet but three kinds; and caller
  and callee agree on the relay.
\<close>

section \<open>Events\<close>

datatype conf_event =
    KickReg conf_env
  | KickSelect conf_env
  | Cancel
  | Recv conf_env nat "byte list option" nat
  | Timer conf_env
  | IceComplete conf_env int
  | IceTx u32 "byte list"

fun conf_exec :: "conf_event \<Rightarrow> confice \<Rightarrow> conf_result" where
  "conf_exec (KickReg E) C = map_sum (\<lambda>e. e) snd (confice_kickoff_reg E C)"
| "conf_exec (KickSelect E) C = map_sum (\<lambda>e. e) snd (confice_kickoff_select_relay E C)"
| "conf_exec Cancel C = Inr (snd (confice_cancel C))"
| "conf_exec (Recv E i data n) C = (if i < channelCount C then on_data_recvfrom E i data n C else Inr (C, []))"
| "conf_exec (Timer E) C = timer_cb E C"
| "conf_exec (IceComplete E status) C = on_ccc_ice_complete E status C"
| "conf_exec (IceTx cid pkt) C = on_ccc_ice_tx_pkt cid pkt C"

fun conf_run :: "conf_event list \<Rightarrow> confice \<Rightarrow> conf_result" where
  "conf_run [] C = Inr (C, [])"
| "conf_run (ev # evs) C =
     (case conf_exec ev C of
        Inl e \<Rightarrow> Inl e
      | Inr (C1, eff) \<Rightarrow>
          (case conf_run evs C1 of Inl e \<Rightarrow> Inl e | Inr (C2, eff2) \<Rightarrow> Inr (C2, eff @ eff2)))"

section \<open>What every event keeps\<close>

definition ch_keeps :: "confchannel \<Rightarrow> confchannel \<Rightarrow> bool" where
  "ch_keeps ch ch' \<longleftrightarrow> comp_id ch' = comp_id ch \<and> channelId ch' = channelId ch \<and> bound_ip ch' = bound_ip ch
     \<and> bound_port ch' = bound_port ch \<and> active_sock ch' = active_sock ch
     \<and> length (pkt_common ch') = length (pkt_common ch) \<and> length (pkt_ice ch') = length (pkt_ice ch)
     \<and> (is_reg ch \<longrightarrow> is_reg ch') \<and> (is_relay_done ch \<longrightarrow> is_relay_done ch')"

lemma ch_keeps_refl [simp]: "ch_keeps ch ch"
  by (simp add: ch_keeps_def)

lemma ch_keeps_trans: "ch_keeps a b \<Longrightarrow> ch_keeps b c \<Longrightarrow> ch_keeps a c"
  by (auto simp: ch_keeps_def)

definition chs_keep :: "confchannel list \<Rightarrow> confchannel list \<Rightarrow> bool" where
  "chs_keep = list_all2 ch_keeps"

lemma chs_keep_refl [simp]: "chs_keep chs chs"
  by (simp add: chs_keep_def list_all2_refl)

lemma chs_keep_trans: "chs_keep a b \<Longrightarrow> chs_keep b c \<Longrightarrow> chs_keep a c"
  unfolding chs_keep_def by (rule list_all2_trans [OF ch_keeps_trans])

lemma chs_keep_length: "chs_keep a b \<Longrightarrow> length b = length a"
  by (simp add: chs_keep_def list_all2_lengthD)

lemma chs_keep_nth: "chs_keep a b \<Longrightarrow> i < length a \<Longrightarrow> ch_keeps (a ! i) (b ! i)"
  by (simp add: chs_keep_def list_all2_nthD)

lemma chs_keep_update: "ch_keeps (chs ! i) ch \<Longrightarrow> chs_keep chs (chs[i := ch])"
  by (cases "i < length chs") (auto simp: chs_keep_def list_all2_conv_all_nth nth_list_update)

text \<open>Configuration, and progress of one object.\<close>

definition same_conf :: "confice \<Rightarrow> confice \<Rightarrow> bool" where
  "same_conf C C' \<longleftrightarrow> role C' = role C \<and> confId C' = confId C \<and> serverIp C' = serverIp C \<and> rcode C' = rcode C
     \<and> serverPort C' = serverPort C \<and> timeout_ms C' = timeout_ms C \<and> server_addr C' = server_addr C \<and> env_af C' = env_af C \<and> sessionId C' = sessionId C
     \<and> credentials C' = credentials C \<and> chs_keep (channels C) (channels C')"

lemma same_conf_refl [simp]: "same_conf C C"
  by (simp add: same_conf_def)

lemma same_conf_trans: "same_conf A B \<Longrightarrow> same_conf B C \<Longrightarrow> same_conf A C"
  by (auto simp: same_conf_def intro: chs_keep_trans)

text \<open>
  The completions a step reports. A step from \<open>C\<close> to \<open>C'\<close> reports, in increasing order, states that
  lie above that of \<open>C\<close> and not above that of \<open>C'\<close>; the result is set with the last of them.
\<close>

fun reported :: "conf_effect list \<Rightarrow> confice_op list" where
  "reported [] = []"
| "reported (OnComplete s r # eff) = s # reported eff"
| "reported (_ # eff) = reported eff"

fun final_results :: "conf_effect list \<Rightarrow> int list" where
  "final_results [] = []"
| "final_results (OnComplete s r # eff) = (if s = CONF_OP_FINAL then r # final_results eff else final_results eff)"
| "final_results (_ # eff) = final_results eff"

lemma reported_append [simp]: "reported (a @ b) = reported a @ reported b"
  by (induction a rule: reported.induct) simp_all

lemma final_results_append [simp]: "final_results (a @ b) = final_results a @ final_results b"
  by (induction a rule: final_results.induct) simp_all

definition advances :: "confice \<Rightarrow> conf_effect list \<Rightarrow> confice \<Rightarrow> bool" where
  "advances C eff C' \<longleftrightarrow> same_conf C C' \<and> state C \<le> state C'
     \<and> sorted_wrt (<) (reported eff) \<and> (\<forall>s \<in> set (reported eff). state C < s \<and> s \<le> state C')
     \<and> (if state C < CONF_OP_FINAL \<and> state C' = CONF_OP_FINAL then final_results eff = [final_result C']
        else final_results eff = [] \<and> (state C = CONF_OP_FINAL \<longrightarrow> final_result C' = final_result C))"

lemma advances_refl [simp]: "advances C [] C"
  by (simp add: advances_def)

lemma advances_trans:
  assumes "advances A e1 B" "advances B e2 C"
  shows "advances A (e1 @ e2) C"
proof -
  have s: "state A \<le> state B" "state B \<le> state C" using assms by (simp_all add: advances_def)
  have "sorted_wrt (<) (reported (e1 @ e2))"
    using assms by (auto simp: advances_def sorted_wrt_append intro: le_less_trans)
  moreover have "\<forall>s \<in> set (reported (e1 @ e2)). state A < s \<and> s \<le> state C"
    using assms by (auto simp: advances_def intro: le_less_trans order_trans)
  moreover have "same_conf A C" using assms by (auto simp: advances_def intro: same_conf_trans)
  moreover have "state B = CONF_OP_FINAL \<Longrightarrow> state C = CONF_OP_FINAL" "state A = CONF_OP_FINAL \<Longrightarrow> state B = CONF_OP_FINAL"
    using s by (metis final_greatest(1) order_antisym)+
  ultimately show ?thesis using assms s unfolding advances_def by (auto split: if_splits)
qed

lemma advances_quiet:
  assumes "same_conf C C'" "state C \<le> state C'" "state C' < CONF_OP_FINAL \<or> state C' = state C"
    and "final_result C' = final_result C" "reported eff = []" "final_results eff = []"
  shows "advances C eff C'"
  using assms by (auto simp: advances_def)

lemma advances_set_state:
  "s \<noteq> CONF_OP_FINAL \<Longrightarrow> state C \<le> s \<Longrightarrow> advances C (snd (set_state s r C)) (fst (set_state s r C))"
  by (auto simp: advances_def set_state_def same_conf_def)

lemma advances_set_final: "advances C (snd (set_final r C)) (fst (set_final r C))"
  by (auto simp: advances_def set_final_def set_state_def same_conf_def)

lemma same_conf_channels: "chs_keep (channels C) chs \<Longrightarrow> same_conf C (C\<lparr>channels := chs\<rparr>)"
  by (simp add: same_conf_def)

lemma each_channel_keeps:
  assumes "each_channel f i chs = Inr (chs', eff)"
    and "\<And>i ch ch' e. f i ch = Inr (ch', e) \<Longrightarrow> ch_keeps ch ch' \<and> (\<exists>j b. e = Sendto j b)"
  shows "chs_keep chs chs' \<and> (\<forall>e \<in> set eff. \<exists>j b. e = Sendto j b)"
  using assms(1)
proof (induction chs arbitrary: i chs' eff)
  case (Cons ch chs)
  then show ?case using assms(2) by (fastforce simp: chs_keep_def split: sum.splits prod.splits)
qed (simp add: chs_keep_def)

lemma only_sends:
  assumes "\<forall>e \<in> set eff. \<exists>j b. e = Sendto j b"
  shows "reported eff = [] \<and> final_results eff = []"
  using assms by (induction eff rule: reported.induct) auto

lemma write_packet_length:
  "write_packet p b = Inr (buf, n) \<Longrightarrow> length buf = length b \<and> n = Suc (length p) \<and> take n buf = with_checksum p
    \<and> n \<le> length b"
  by (auto simp: write_packet_def put_at_def split: if_splits)

lemma make_reg_pkt_length: "make_reg_pkt s c r ch b = Inr (buf, n) \<Longrightarrow> length buf = length b"
  by (auto simp: make_reg_pkt_def make_reg_pkt_v1_def dest: write_packet_length)

lemma send_common_keeps: "send_common i p ch = Inr (ch', e) \<Longrightarrow> ch_keeps ch ch' \<and> (\<exists>j b. e = Sendto j b)"
  by (auto simp: send_common_def ch_keeps_def dest: write_packet_length split: sum.splits)

lemma send_ack_keeps: "send_ack i buf len ch = Inr (ch', e) \<Longrightarrow> ch_keeps ch ch' \<and> (\<exists>j b. e = Sendto j b)"
  by (auto simp: send_ack_def ch_keeps_def Let_def split: if_splits)

lemma send_reg_advances:
  assumes "send_reg E C = Inr (C', eff)" "state C \<noteq> CONF_OP_FINAL"
  shows "advances C eff C'"
proof -
  let ?f = "\<lambda>i ch. case make_reg_pkt (sessionId C) (confId C) (rcode C) (of_int (channelId ch)) (pkt_common ch) of
      Inl e \<Rightarrow> Inl e | Inr (buf, n) \<Rightarrow> Inr (ch\<lparr>pkt_common := buf, pkt_common_len := n\<rparr>, Sendto i (take n buf))"
  obtain chs where e: "each_channel ?f 0 (channels C) = Inr (chs, eff)"
    using assms(1) by (auto simp: send_reg_def Let_def split: sum.splits if_splits)
  have "chs_keep (channels C) chs \<and> (\<forall>e \<in> set eff. \<exists>j b. e = Sendto j b)"
    by (rule each_channel_keeps [OF e]) (auto simp: ch_keeps_def dest: make_reg_pkt_length split: sum.splits)
  with only_sends have k: "chs_keep (channels C) chs" "reported eff = []" "final_results eff = []" by blast+
  have st: "state C' = (if reg_send_count C = 0 then CONF_OP_REGING else state C)"
    "reg_send_count C = 0 \<Longrightarrow> state C < CONF_OP_REGING"
    and c: "same_conf C C'" "final_result C' = final_result C"
    using assms(1) e k(1) by (auto simp: send_reg_def Let_def same_conf_def split: if_splits)
  show ?thesis using st c k assms(2) by (intro advances_quiet) auto
qed

lemma check_for_select_relay_advances:
  assumes "check_for_select_relay E C = Inr (C', eff)"
  shows "advances C eff C'"
proof (cases "state C \<noteq> CONF_OP_NEGO_DONE \<or> \<not> sel_relay_kicked C \<or> role C \<noteq> CONTROLLING")
  case True
  then show ?thesis using assms by (simp add: check_for_select_relay_def)
next
  case False
  let ?f = "\<lambda>i ch. let t = generate_u32 E i
      in send_common i (build_msg_header (sessionId C) (comp_id ch) MSG_TYPE_SELECT_RELAY t 0) (ch\<lparr>tsx_id := t\<rparr>)"
  obtain chs where e: "each_channel ?f 0 (channels C) = Inr (chs, eff)"
    and C': "C' = C\<lparr>channels := chs, sel_relay_send_time := now_ms E, state := CONF_OP_SELECTING\<rparr>"
    using assms False by (auto simp: check_for_select_relay_def split: sum.splits if_splits)
  have "chs_keep (channels C) chs \<and> (\<forall>e \<in> set eff. \<exists>j b. e = Sendto j b)"
  proof (rule each_channel_keeps [OF e])
    fix i ch ch' e
    assume "?f i ch = Inr (ch', e)"
    then have "ch_keeps (ch\<lparr>tsx_id := generate_u32 E i\<rparr>) ch' \<and> (\<exists>j b. e = Sendto j b)"
      by (auto simp: Let_def dest: send_common_keeps)
    then show "ch_keeps ch ch' \<and> (\<exists>j b. e = Sendto j b)" by (simp add: ch_keeps_def)
  qed
  with only_sends have k: "chs_keep (channels C) chs" "reported eff = []" "final_results eff = []" by blast+
  show ?thesis using False k by (intro advances_quiet) (auto simp: C' same_conf_def conf_order)
qed

lemma advances_other [simp]:
  "advances C (IceCall x # eff) C' = advances C eff C'" "advances C (IceRx cid b # eff) C' = advances C eff C'"
  "advances C (Sendto i b # eff) C' = advances C eff C'" "advances C (TimerScheduled # eff) C' = advances C eff C'"
  by (simp_all add: advances_def)

lemma advances_from:
  assumes "advances D eff C'" "same_conf C D" "state D = state C" "final_result D = final_result C"
  shows "advances C eff C'"
  using assms by (auto simp: advances_def intro: same_conf_trans split: if_splits)

lemma check_done_advances:
  "check_for_select_relay_done C = (C', eff) \<Longrightarrow> advances C eff C'"
  using advances_set_final [of "C\<lparr>sel_relay_done := True\<rparr>" 0]
  by (auto simp: check_for_select_relay_done_def same_conf_def split: if_splits
      intro: advances_quiet advances_from)

lemma run_calls_effects: "\<forall>e \<in> set (snd (run_calls st k cs)). \<exists>c. e = IceCall c"
  by (induction cs arbitrary: k) (auto simp: case_prod_unfold Let_def)

lemma start_nego_cases:
  obtains (started) eff where "\<forall>e \<in> set eff. \<exists>c. e = IceCall c"
    "start_nego E C = (fst (set_state CONF_OP_NEGOING 0 (C\<lparr>ice_sess := True\<rparr>)),
       eff @ snd (set_state CONF_OP_NEGOING 0 (C\<lparr>ice_sess := True\<rparr>)))"
  | (failed) r eff b where "\<forall>e \<in> set eff. \<exists>c. e = IceCall c" "r \<noteq> 0"
    "start_nego E C = (fst (set_final r (C\<lparr>ice_sess := b\<rparr>)), eff @ snd (set_final r (C\<lparr>ice_sess := b\<rparr>)))"
proof -
  let ?r = "run_calls (nath_status E) 0 (nego_calls (lookup E) C)"
  have z: "nath_status E 0 = 0" if "fst ?r = 0" using that by (auto simp: nego_calls_def split: if_splits)
  show thesis
  proof (cases "fst ?r = 0")
    case True
    then show thesis using started [OF run_calls_effects] z
      by (simp add: start_nego_def case_prod_unfold Let_def)
  next
    case False
    then show thesis using failed [OF run_calls_effects False]
      by (simp add: start_nego_def case_prod_unfold Let_def)
  qed
qed

lemma advances_calls: "\<forall>e \<in> set cs. \<exists>c. e = IceCall c \<Longrightarrow> advances C (cs @ eff) C' = advances C eff C'"
  by (induction cs) auto

lemma start_nego_advances:
  assumes "start_nego E C = (C', eff)" "state C \<le> CONF_OP_NEGOING"
  shows "advances C eff C'"
proof (cases rule: start_nego_cases [of E C])
  case (started cs)
  let ?D = "C\<lparr>ice_sess := True\<rparr>"
  have "advances ?D (snd (set_state CONF_OP_NEGOING 0 ?D)) (fst (set_state CONF_OP_NEGOING 0 ?D))"
    using assms(2) by (intro advances_set_state) auto
  with started assms(1) show ?thesis by (auto simp: advances_calls same_conf_def intro: advances_from)
next
  case (failed r cs b)
  let ?D = "C\<lparr>ice_sess := b\<rparr>"
  have "advances ?D (snd (set_final r ?D)) (fst (set_final r ?D))" by (rule advances_set_final)
  with failed assms(1) show ?thesis by (auto simp: advances_calls same_conf_def intro: advances_from)
qed

lemma on_ccc_ice_complete_advances:
  assumes "on_ccc_ice_complete E status C = Inr (C', eff)"
  shows "advances C eff C'"
proof (cases "state C = CONF_OP_NEGOING")
  case True
  obtain C1 eff1 where s: "set_state CONF_OP_NEGO_DONE status C = (C1, eff1)" by fastforce
  then have a: "advances C eff1 C1"
    using advances_set_state [of CONF_OP_NEGO_DONE C status] True by (simp add: conf_order)
  show ?thesis
  proof (cases "status = 0")
    case z: True
    then obtain eff2 where "check_for_select_relay E C1 = Inr (C', eff2)" "eff = eff1 @ eff2"
      using assms True s by (auto simp: on_ccc_ice_complete_def split: sum.splits)
    then show ?thesis using a check_for_select_relay_advances advances_trans by blast
  next
    case False
    then show ?thesis using assms True s a advances_set_final [of C1 status]
      by (auto simp: on_ccc_ice_complete_def case_prod_unfold Let_def intro: advances_trans)
  qed
qed (use assms in \<open>simp add: on_ccc_ice_complete_def\<close>)

lemma tx_pkt_advances:
  assumes "on_ccc_ice_tx_pkt cid pkt C = Inr (C', eff)"
  shows "advances C eff C'"
proof (cases "cid = 0 \<or> unat cid > channelCount C")
  case True
  then show ?thesis using assms by (auto simp: on_ccc_ice_tx_pkt_def)
next
  case False
  let ?i = "unat cid - 1"
  obtain buf n where w: "write_packet (build_msg_header (sessionId C) (comp_id (channels C ! ?i)) MSG_TYPE_ICE_WRAP 0
      (of_nat (length pkt)) @ pkt) (pkt_ice (channels C ! ?i)) = Inr (buf, n)"
    "C' = C\<lparr>channels := (channels C)[?i := (channels C ! ?i)\<lparr>pkt_ice := buf\<rparr>]\<rparr>" "eff = [Sendto ?i (take n buf)]"
    using assms False by (auto simp: on_ccc_ice_tx_pkt_def Let_def split: sum.splits)
  have "ch_keeps (channels C ! ?i) ((channels C ! ?i)\<lparr>pkt_ice := buf\<rparr>)"
    using write_packet_length [OF w(1)] by (simp add: ch_keeps_def)
  then show ?thesis unfolding w(2,3)
    by (intro advances_quiet) (simp_all add: same_conf_def chs_keep_update)
qed

lemma same_conf_put:
  "ch_keeps (channels C ! i) ch \<Longrightarrow> same_conf C (C\<lparr>channels := (channels C)[i := ch]\<rparr>)"
  by (simp add: same_conf_def chs_keep_update)

lemma same_conf_relay_done: "same_conf C (relay_done i C)"
  by (simp add: relay_done_def same_conf_put ch_keeps_def)

lemma recv_register_advances:
  assumes "recv_register E i buf len C = Inr (C', eff)"
  shows "advances C eff C'"
proof -
  let ?C1 = "C\<lparr>channels := (channels C)[i := (channels C ! i)\<lparr>is_reg := True\<rparr>]\<rparr>"
  have c: "same_conf C ?C1" by (simp add: same_conf_put ch_keeps_def)
  let ?C2 = "fst (set_state CONF_OP_REG_DONE 0 ?C1)"
  consider (quiet) "C' = C" "eff = []" | (one) "C' = ?C1" "eff = []"
    | (all) "state C = CONF_OP_REGING" "C' = fst (start_nego E ?C2)"
        "eff = snd (set_state CONF_OP_REG_DONE 0 ?C1) @ snd (start_nego E ?C2)"
  proof (cases "check_reg_ack (sessionId C) buf len = Inr True \<and> state C = CONF_OP_REGING")
    case False
    then have "C' = C \<and> eff = []" using assms
      by (cases "check_reg_ack (sessionId C) buf len") (auto simp: recv_register_def split: bool.splits)
    then show thesis using quiet by simp
  next
    case True
    then show thesis using assms one all
      by (simp add: recv_register_def case_prod_unfold Let_def split: if_splits)
  qed
  then show ?thesis
  proof cases
    case one
    then show ?thesis using c by (intro advances_quiet) auto
  next
    case all
    have "advances ?C1 (snd (set_state CONF_OP_REG_DONE 0 ?C1)) ?C2"
      using all(1) by (intro advances_set_state) (auto simp: conf_order)
    then have "advances C (snd (set_state CONF_OP_REG_DONE 0 ?C1)) ?C2" using c by (rule advances_from) simp_all
    moreover have "advances ?C2 (snd (start_nego E ?C2)) (fst (start_nego E ?C2))"
      by (rule start_nego_advances [of E]) (auto simp: set_state_def conf_order)
    ultimately show ?thesis unfolding all(2,3) by (rule advances_trans)
  qed simp
qed

lemma recv_select_relay_advances:
  assumes "recv_select_relay i buf len cid C = Inr (C', eff)"
  shows "advances C eff C'"
proof -
  consider (quiet) "C' = C" "eff = []"
    | (acked) ch e eff2 where "send_ack i buf len (channels (relay_done i C) ! i) = Inr (ch, e)"
        "check_for_select_relay_done ((relay_done i C)\<lparr>channels := (channels (relay_done i C))[i := ch]\<rparr>) = (C', eff2)"
        "eff = e # eff2"
    using assms by (auto simp: recv_select_relay_def Let_def split: sum.splits bool.splits if_splits prod.splits)
  then show ?thesis
  proof cases
    case (acked ch e eff2)
    from send_ack_keeps [OF acked(1)] obtain j b where k: "ch_keeps (channels (relay_done i C) ! i) ch" "e = Sendto j b" by blast
    have "advances C eff2 C'"
      using check_done_advances [OF acked(2)] same_conf_trans [OF same_conf_relay_done same_conf_put [OF k(1)]]
      by (rule advances_from) (simp_all add: relay_done_def)
    then show ?thesis using acked(3) k(2) by simp
  qed simp
qed

lemma recv_select_relay_ack_advances:
  assumes "recv_select_relay_ack i buf len cid tsx C = Inr (C', eff)"
  shows "advances C eff C'"
proof -
  consider (quiet) "C' = C" "eff = []" | (acked) "check_for_select_relay_done (relay_done i C) = (C', eff)"
    using assms by (auto simp: recv_select_relay_ack_def split: sum.splits bool.splits if_splits)
  then show ?thesis
  proof cases
    case acked
    from check_done_advances [OF this] same_conf_relay_done show ?thesis
      by (rule advances_from) (simp_all add: relay_done_def)
  qed simp
qed

lemma recv_ice_wrap_advances: "recv_ice_wrap buf len cid n C = Inr (C', eff) \<Longrightarrow> advances C eff C'"
  by (auto simp: recv_ice_wrap_def split: sum.splits bool.splits if_splits)

lemma recvfrom_advances: "on_data_recvfrom E i data n C = Inr (C', eff) \<Longrightarrow> advances C eff C'"
  using recv_register_advances recv_select_relay_advances recv_select_relay_ack_advances recv_ice_wrap_advances
  by (auto simp: on_data_recvfrom_def recv_msg_def Let_def split: option.splits if_splits)

lemma timer_selecting_advances: "advances C (snd (timer_selecting E C)) (fst (timer_selecting E C))"
proof -
  have "\<forall>e \<in> set (map (\<lambda>i. retransmit_select i (channels C ! i)) [0 ..< channelCount C]). \<exists>j b. e = Sendto j b"
    by (auto simp: retransmit_select_def)
  then have "advances C (map (\<lambda>i. retransmit_select i (channels C ! i)) [0 ..< channelCount C]) C"
    using only_sends by (intro advances_quiet) auto
  then show ?thesis using advances_set_final [of C "-1"] by (auto simp: timer_selecting_def)
qed

lemma timer_advances:
  assumes "timer_cb E C = Inr (C', eff)"
  shows "advances C eff C'"
proof -
  obtain C1 eff1 where r: "timer_reging E C = Inr (C1, eff1)"
    and C': "C' = fst (timer_selecting E C1)"
      "eff = eff1 @ snd (timer_selecting E C1) @ (if state C' \<noteq> CONF_OP_FINAL then [TimerScheduled] else [])"
    using assms by (auto simp: timer_cb_def case_prod_unfold Let_def split: sum.splits)
  have "advances C eff1 C1" using r send_reg_advances [of E C] advances_set_final [of C "-1"]
    by (auto simp: timer_reging_def split: if_splits)
  moreover have "advances C' (if state C' \<noteq> CONF_OP_FINAL then [TimerScheduled] else []) C'" by simp
  ultimately show ?thesis unfolding C'
    using timer_selecting_advances advances_trans by blast
qed

lemma conf_exec_advances:
  assumes "conf_exec ev C = Inr (C', eff)"
  shows "advances C eff C'"
proof (cases ev)
  case (KickReg E)
  show ?thesis
  proof (cases "state C \<ge> CONF_OP_REGING")
    case True
    then show ?thesis using assms KickReg by (simp add: confice_kickoff_reg_def)
  next
    case False
    then have "send_reg E C = Inr (C', eff)"
      using assms KickReg by (cases "send_reg E C") (auto simp: confice_kickoff_reg_def)
    moreover have "state C \<noteq> CONF_OP_FINAL" using False by auto
    ultimately show ?thesis by (rule send_reg_advances)
  qed
next
  case (KickSelect E)
  let ?D = "C\<lparr>sel_relay_kicked := True\<rparr>"
  show ?thesis
  proof (cases "state C \<ge> CONF_OP_SELECTING")
    case True
    then show ?thesis using assms KickSelect by (simp add: confice_kickoff_select_relay_def)
  next
    case False
    then have "check_for_select_relay E ?D = Inr (C', eff)"
      using assms KickSelect by (cases "check_for_select_relay E ?D") (auto simp: confice_kickoff_select_relay_def)
    then have "advances ?D eff C'" by (rule check_for_select_relay_advances)
    then show ?thesis by (rule advances_from) (simp_all add: same_conf_def)
  qed
next
  case Cancel
  then show ?thesis using assms advances_set_final [of C "-1"] by (auto simp: confice_cancel_def split: if_splits)
next
  case (Recv E i data n)
  then show ?thesis using assms recvfrom_advances [of E i data n C] by (auto split: if_splits)
next
  case (Timer E)
  then show ?thesis using assms timer_advances by simp
next
  case (IceComplete E status)
  then show ?thesis using assms on_ccc_ice_complete_advances by simp
next
  case (IceTx cid pkt)
  then show ?thesis using assms tx_pkt_advances by simp
qed

lemma conf_run_advances: "conf_run evs C = Inr (C', eff) \<Longrightarrow> advances C eff C'"
proof (induction evs arbitrary: C eff)
  case (Cons ev evs)
  then obtain C1 e1 e2 where "conf_exec ev C = Inr (C1, e1)" "conf_run evs C1 = Inr (C', e2)" "eff = e1 @ e2"
    by (auto split: sum.splits)
  then show ?case using Cons.IH conf_exec_advances advances_trans by blast
qed simp

section \<open>Completion\<close>

text \<open>
  C25: The relay client only moves forward and completes once. Through any sequence of calls, packets,
  timer ticks and reports of the ICE session, its state never goes back; each state is reported to
  the endpoint at most once, in order; the final state is reported exactly when it is reached, with
  the result the object keeps; and after it nothing is reported and the result does not change.
\<close>
theorem completion_once:
  assumes "conf_run evs C = Inr (C', eff)"
  shows "state C \<le> state C' \<and> sorted_wrt (<) (reported eff) \<and> (\<forall>s \<in> set (reported eff). state C < s \<and> s \<le> state C')
    \<and> final_results eff = (if state C \<noteq> CONF_OP_FINAL \<and> state C' = CONF_OP_FINAL then [final_result C'] else [])
    \<and> (state C = CONF_OP_FINAL \<longrightarrow> reported eff = [] \<and> final_result C' = final_result C)"
proof -
  note a = conf_run_advances [OF assms, unfolded advances_def]
  moreover have "reported eff = []" if "state C = CONF_OP_FINAL"
    using a that by (cases "reported eff") auto
  ultimately show ?thesis by auto
qed

definition sample_channel :: "nat \<Rightarrow> confchannel" where
  "sample_channel i = \<lparr>comp_id = of_nat (Suc i), channelId = 7, bound_ip = None, bound_port = 9, active_sock = Some 4,
     is_reg = False, pkt_ice = replicate 2048 0, tsx_id = 0, pkt_common = replicate 1024 0, pkt_common_len = 0,
     is_relay_done = False\<rparr>"

definition sample_conf :: "ice_role \<Rightarrow> confice_op \<Rightarrow> confice" where
  "sample_conf r st = \<lparr>role = r, confId = ''c'', serverIp = ''s'', rcode = ''r'', serverPort = 5000,
     channels = [sample_channel 0], timeout_ms = 4000, server_addr = (AF_INET, ''s'', 5000), state = st,
     reg_send_count = 0, reg_send_time = 0, sel_relay_kicked = False, sel_relay_done = False, sel_relay_send_time = 0,
     sessionId = 77, ice_sess = False,
     credentials = \<lparr>str_local_ufrag = ''u'', str_local_pwd = ''p'', str_remote_ufrag = ''v'', str_remote_pwd = ''q''\<rparr>,
     final_result = 0, env_af = AF_INET\<rparr>"

theorem completion_once_witness:
  "\<exists>C'. conf_run [Cancel, Cancel] (sample_conf CONTROLLED CONF_OP_NEGOING) = Inr (C', [OnComplete CONF_OP_FINAL (-1)])
    \<and> final_results [OnComplete CONF_OP_FINAL (-1)] = [final_result C']"
proof -
  let ?C = "sample_conf CONTROLLED CONF_OP_NEGOING"
  obtain C' where r: "conf_run [Cancel, Cancel] ?C = Inr (C', [OnComplete CONF_OP_FINAL (-1)])" "state C' = CONF_OP_FINAL"
    by (simp add: confice_cancel_def set_final_def set_state_def sample_conf_def conf_order)
  with completion_once [OF r(1)] show ?thesis by (simp add: sample_conf_def)
qed

section \<open>What a packet can do at worst\<close>

definition conf_ok :: "confice \<Rightarrow> bool" where
  "conf_ok C \<longleftrightarrow> channelCount C \<le> 2 \<and> (\<forall>i < channelCount C. comp_id (channels C ! i) = of_nat (Suc i)
     \<and> length (pkt_common (channels C ! i)) = 1024 \<and> length (pkt_ice (channels C ! i)) = 2048)"

lemma conf_ok_same: "conf_ok C \<Longrightarrow> same_conf C C' \<Longrightarrow> conf_ok C'"
  unfolding conf_ok_def same_conf_def
  using chs_keep_length chs_keep_nth by (fastforce simp: ch_keeps_def)

lemma conf_run_ok: "conf_ok C \<Longrightarrow> conf_run evs C = Inr (C', eff) \<Longrightarrow> conf_ok C'"
  using conf_run_advances conf_ok_same by (fastforce simp: advances_def)

lemma verify_crash:
  assumes "verify_checksum buf (of_nat n) = Inl e" "n \<le> length buf" "length buf < 2 ^ 32"
  shows "n = 0 \<and> e = OutOfBounds"
proof (cases n)
  case (Suc m)
  then have "unat (of_nat n - 1 :: u32) = m" using assms(2,3) by (simp add: unat_of_nat_u32)
  then show ?thesis using assms Suc by (simp add: verify_checksum_def)
qed (use assms in \<open>auto simp: verify_checksum_def Let_def split: if_splits\<close>)

lemma each_channel_safe:
  assumes "\<And>i ch e. ch \<in> set chs \<Longrightarrow> f i ch \<noteq> Inl e"
  shows "each_channel f i chs \<noteq> Inl e"
  using assms
proof (induction chs arbitrary: i)
  case (Cons ch chs)
  then show ?case by (cases "f i ch") (auto split: sum.splits)
qed simp

lemma send_reg_safe:
  assumes "conf_ok C" "send_reg E C = Inl e"
  shows "e = AssertFailed \<and> reg_send_count C = 0 \<and> \<not> state C < CONF_OP_REGING"
proof -
  have "make_reg_pkt s c r ch b \<noteq> Inl e" if "length b = 1024" for s c r ch b e
  proof -
    have "length (reg_pkt s c r ch) < 522"
      unfolding length_reg_pkt using mod_less_divisor [of 256 "length c"] mod_less_divisor [of 256 "length r"] by linarith
    then show ?thesis using that by (simp add: make_reg_pkt_def make_reg_pkt_v1_def write_packet_def)
  qed
  moreover have "\<forall>ch \<in> set (channels C). length (pkt_common ch) = 1024"
    using assms(1) by (auto simp: conf_ok_def in_set_conv_nth)
  ultimately have "each_channel (\<lambda>i ch.
      case make_reg_pkt (sessionId C) (confId C) (rcode C) (of_int (channelId ch)) (pkt_common ch) of
        Inl e \<Rightarrow> Inl e | Inr (buf, n) \<Rightarrow> Inr (ch\<lparr>pkt_common := buf, pkt_common_len := n\<rparr>, Sendto i (take n buf)))
      0 (channels C) \<noteq> Inl e'" for e'
    by (intro each_channel_safe) (auto split: sum.splits)
  then show ?thesis using assms(2) by (auto simp: send_reg_def Let_def split: sum.splits if_splits)
qed

lemma check_for_select_relay_safe:
  assumes "conf_ok C"
  shows "check_for_select_relay E C \<noteq> Inl e"
proof -
  have "\<forall>ch \<in> set (channels C). length (pkt_common ch) = 1024"
    using assms(1) by (auto simp: conf_ok_def in_set_conv_nth)
  then have "each_channel (\<lambda>i ch. let t = generate_u32 E i in
      send_common i (build_msg_header (sessionId C) (comp_id ch) MSG_TYPE_SELECT_RELAY t 0) (ch\<lparr>tsx_id := t\<rparr>))
      0 (channels C) \<noteq> Inl e'" for e'
    by (intro each_channel_safe) (auto simp: Let_def send_common_def write_packet_def)
  then show ?thesis by (auto simp: check_for_select_relay_def split: sum.splits)
qed

lemma recv_select_relay_crash:
  assumes "conf_ok C" "i < channelCount C" "n \<le> length buf" "length buf < 2 ^ 32"
    and "recv_select_relay i buf (of_nat n) cid C = Inl e"
  shows "e = OutOfBounds \<and> (n = 0 \<or> 1024 < n)"
proof (cases "verify_checksum buf (of_nat n)")
  case (Inl e')
  then have "e = e'" using assms(5) by (simp add: recv_select_relay_def split: if_splits)
  then show ?thesis using verify_crash [OF Inl assms(3,4)] by simp
next
  case (Inr ok)
  have len: "length (pkt_common (channels (relay_done i C) ! i)) = 1024"
    using assms(1,2) by (simp add: conf_ok_def relay_done_def)
  have "send_ack i buf (of_nat n) (channels (relay_done i C) ! i) = Inl e"
    using assms(5) Inr by (auto simp: recv_select_relay_def Let_def split: bool.splits if_splits sum.splits prod.splits)
  then have "e = OutOfBounds" "1024 < unat (of_nat n - 1 :: u32) + 1"
    using len by (auto simp: send_ack_def Let_def split: if_splits)
  moreover have "n = 0 \<or> unat (of_nat n - 1 :: u32) + 1 = n"
    using assms(3,4) by (cases n) (simp_all add: unat_of_nat_u32)
  ultimately show ?thesis by auto
qed

lemma recv_ice_wrap_crash:
  assumes "n \<le> length buf" "length buf < 2 ^ 32" "recv_ice_wrap buf (of_nat n) cid data_len C = Inl e"
  shows "e = OutOfBounds \<and> (n = 0 \<or> length buf < 18 + unat data_len)"
proof (cases "verify_checksum buf (of_nat n)")
  case (Inl e')
  then have "e = e'" using assms(3) by (simp add: recv_ice_wrap_def split: if_splits)
  then show ?thesis using verify_crash [OF Inl assms(1,2)] by simp
next
  case (Inr ok)
  then show ?thesis using assms(3) by (auto simp: recv_ice_wrap_def split: bool.splits if_splits)
qed

lemma recv_select_relay_ack_crash:
  assumes "n \<le> length buf" "length buf < 2 ^ 32" "recv_select_relay_ack i buf (of_nat n) cid tsx C = Inl e"
  shows "e = OutOfBounds \<and> n = 0"
proof (cases "verify_checksum buf (of_nat n)")
  case (Inl e')
  then have "e = e'" using assms(3) by (simp add: recv_select_relay_ack_def split: if_splits)
  then show ?thesis using verify_crash [OF Inl assms(1,2)] by simp
next
  case (Inr ok)
  then show ?thesis using assms(3) by (auto simp: recv_select_relay_ack_def split: bool.splits if_splits)
qed

lemma recv_register_safe:
  assumes "n \<le> length buf" "length buf < 2 ^ 32"
  shows "recv_register E i buf (of_nat n) C \<noteq> Inl e"
proof -
  have "check_reg_ack (sessionId C) buf (of_nat n) \<noteq> Inl e'" for e'
  proof
    assume "check_reg_ack (sessionId C) buf (of_nat n) = Inl e'"
    then have "\<not> (of_nat n :: u32) < 8" "verify_checksum buf (of_nat n) = Inl e'"
      by (auto simp: check_reg_ack_def split: if_splits sum.splits bool.splits)
    then show False using verify_crash [OF _ assms] by auto
  qed
  then show ?thesis
    by (auto simp: recv_register_def Let_def case_prod_unfold split: sum.splits bool.splits if_splits)
qed

text \<open>
  C26: What the network can do to the process at worst. A datagram of at most 2048 bytes is handled
  without a failure, in every state and whatever its content, except a message (packet type F7) of
  one of three kinds: an empty one, found in the receive buffer behind an empty datagram, whose
  checksum is sought before the buffer; a wrapped ICE packet whose length field exceeds the buffer;
  and a relay selection longer than the 1024 byte buffer its answer is built in.
\<close>
theorem packet_failures:
  assumes "conf_ok C" "i < channelCount C" "length buf = 2048" "n \<le> 2048"
    and "conf_exec (Recv E i (Some buf) n) C = Inl c"
  shows "c = OutOfBounds \<and> buf ! 0 = PKT_TYPE_MSG
    \<and> (n = 0 \<or> buf ! 1 = MSG_TYPE_ICE_WRAP \<and> 2048 < 18 + unat (be_get_u32 14 buf)
         \<or> buf ! 1 = MSG_TYPE_SELECT_RELAY \<and> role C = CONTROLLED \<and> 1024 < n)"
proof -
  have l: "n \<le> length buf" "length buf < 2 ^ 32" using assms(3,4) by simp_all
  have m: "buf ! 0 = PKT_TYPE_MSG" "recv_msg i buf (of_nat n) C = Inl c"
    using assms(2,3,5) recv_register_safe [OF l]
    by (auto simp: on_data_recvfrom_def split: if_splits)
  consider (wrap) "buf ! 1 = MSG_TYPE_ICE_WRAP" "recv_ice_wrap buf (of_nat n) (be_get_u32 6 buf) (be_get_u32 14 buf) C = Inl c"
    | (sel) "buf ! 1 = MSG_TYPE_SELECT_RELAY" "recv_select_relay i buf (of_nat n) (be_get_u32 6 buf) C = Inl c"
    | (ack) "recv_select_relay_ack i buf (of_nat n) (be_get_u32 6 buf) (be_get_u32 10 buf) C = Inl c"
    using m(2) assms(3) by (auto simp: recv_msg_def Let_def split: if_splits)
  then show ?thesis
  proof cases
    case wrap
    then show ?thesis using recv_ice_wrap_crash [OF l wrap(2)] m(1) assms(3) by auto
  next
    case sel
    moreover have "role C = CONTROLLED" using sel(2) by (auto simp: recv_select_relay_def split: if_splits)
    ultimately show ?thesis using recv_select_relay_crash [OF assms(1,2) l sel(2)] m(1) by auto
  next
    case ack
    then show ?thesis using recv_select_relay_ack_crash [OF l ack] m(1) by auto
  qed
qed

definition long_select :: "byte list" where
  "long_select = with_checksum (build_msg_header 77 1 MSG_TYPE_SELECT_RELAY 5 0 @ replicate 1006 0)"

lemma sample_conf_ok: "conf_ok (sample_conf r st)"
  by (simp add: conf_ok_def sample_conf_def sample_channel_def)

theorem packet_failures_witness:
  "\<forall>E. conf_exec (Recv E 0 (Some (long_select @ replicate 1023 0)) 1025) (sample_conf CONTROLLED CONF_OP_NEGO_DONE) = Inl OutOfBounds
    \<and> (long_select @ replicate 1023 0) ! 0 = PKT_TYPE_MSG"
proof (rule allI)
  fix E :: conf_env
  let ?C = "sample_conf CONTROLLED CONF_OP_NEGO_DONE"
  let ?buf = "long_select @ replicate 1023 0"
  let ?p = "build_msg_header 77 1 MSG_TYPE_SELECT_RELAY 5 0 @ replicate 1006 0"
  have b: "?buf = build_msg_header 77 1 MSG_TYPE_SELECT_RELAY 5 0
      @ (replicate 1006 0 @ calc_checksum ?p (length ?p) # replicate 1023 0)"
    by (simp add: long_select_def with_checksum_def)
  have len: "length ?buf = 2048" by (simp add: long_select_def)
  have v: "verify_checksum ?buf (of_nat 1025) = Inr True"
    unfolding long_select_def by (rule verify_with_checksum) simp_all
  have f: "?buf ! 0 = PKT_TYPE_MSG" "?buf ! 1 = MSG_TYPE_SELECT_RELAY" "be_get_u32 2 ?buf = 77" "be_get_u32 6 ?buf = 1"
    unfolding b by simp_all
  have "send_ack 0 ?buf 1025 ch = Inl OutOfBounds" if "length (pkt_common ch) = 1024" for ch
    using that by (simp add: send_ack_def)
  then have "conf_exec (Recv E 0 (Some ?buf) 1025) ?C = Inl OutOfBounds"
    using f v len by (simp add: on_data_recvfrom_def recv_msg_def recv_select_relay_def packet_types sample_conf_def
      sample_channel_def bad_comp_def relay_done_def conf_order)
  moreover from packet_failures [OF sample_conf_ok _ len _ this] have "?buf ! 0 = PKT_TYPE_MSG"
    by (simp add: sample_conf_def)
  ultimately show "conf_exec (Recv E 0 (Some ?buf) 1025) ?C = Inl OutOfBounds \<and> ?buf ! 0 = PKT_TYPE_MSG" by blast
qed

end
