(* ===== verification/RelayAgreement.thy ===== *)
theory RelayAgreement
  imports ConficeLife
begin

text \<open>
  Caller and callee together: the selection of the relay between the \<open>confice_t\<close> of the two sides,
  over a network that may lose, repeat, delay and invent packets.
\<close>

section \<open>Which channels are relayed\<close>

definition relayed :: "confice \<Rightarrow> bool list" where
  "relayed C = map is_relay_done (channels C)"

lemma length_relayed [simp]: "length (relayed C) = channelCount C"
  by (simp add: relayed_def)

lemma relayed_nth: "i < channelCount C \<Longrightarrow> relayed C ! i = is_relay_done (channels C ! i)"
  by (simp add: relayed_def)

lemma relayed_update: "relayed (C\<lparr>channels := (channels C)[i := ch]\<rparr>) = (relayed C)[i := is_relay_done ch]"
  by (simp add: relayed_def map_update)

lemma relayed_same: "is_relay_done ch = is_relay_done (channels C ! i) \<Longrightarrow> relayed (C\<lparr>channels := (channels C)[i := ch]\<rparr>) = relayed C"
  by (cases "i < channelCount C") (simp_all add: relayed_def map_update list_update_same_conv list_update_beyond)

lemma relayed_relay_done: "relayed (relay_done i C) = (relayed C)[i := True]"
  by (simp add: relay_done_def relayed_update)

lemma relayed_fields [simp]:
  "relayed (C\<lparr>state := s\<rparr>) = relayed C" "relayed (C\<lparr>final_result := r\<rparr>) = relayed C"
  "relayed (C\<lparr>ice_sess := b\<rparr>) = relayed C" "relayed (C\<lparr>sel_relay_kicked := b\<rparr>) = relayed C"
  "relayed (C\<lparr>sel_relay_done := b\<rparr>) = relayed C" "relayed (C\<lparr>reg_send_time := t\<rparr>) = relayed C"
  "relayed (C\<lparr>sel_relay_send_time := t\<rparr>) = relayed C" "relayed (C\<lparr>reg_send_count := n\<rparr>) = relayed C"
  by (simp_all add: relayed_def)

lemma set_final_eq:
  "set_final r C = (C\<lparr>final_result := (if state C = CONF_OP_FINAL then final_result C else r), state := CONF_OP_FINAL\<rparr>,
     if state C = CONF_OP_FINAL then [] else [OnComplete CONF_OP_FINAL r])"
  by (simp add: set_final_def set_state_def)

lemma relayed_set_final: "set_final r C = (C', eff) \<Longrightarrow> relayed C' = relayed C"
  by (auto simp: set_final_def set_state_def)

lemma relayed_set [simp]: "relayed (fst (set_state s r C)) = relayed C" "relayed (fst (set_final r C)) = relayed C"
  by (simp_all add: set_final_def set_state_def)

lemma each_channel_relayed:
  assumes "each_channel f i chs = Inr (chs', eff)"
    and "\<And>i ch ch' e. f i ch = Inr (ch', e) \<Longrightarrow> is_relay_done ch' = is_relay_done ch"
  shows "map is_relay_done chs' = map is_relay_done chs"
  using assms(1)
proof (induction chs arbitrary: i chs' eff)
  case (Cons ch chs)
  then show ?case using assms(2) by (fastforce split: sum.splits prod.splits)
qed simp

lemma send_common_relayed: "send_common i p ch = Inr (ch', e) \<Longrightarrow> is_relay_done ch' = is_relay_done ch"
  by (auto simp: send_common_def split: sum.splits)

lemma send_reg_relayed:
  assumes "send_reg E C = Inr (C', eff)"
  shows "relayed C' = relayed C"
proof -
  let ?f = "\<lambda>i ch. case make_reg_pkt (sessionId C) (confId C) (rcode C) (of_int (channelId ch)) (pkt_common ch) of
      Inl e \<Rightarrow> Inl e | Inr (buf, n) \<Rightarrow> Inr (ch\<lparr>pkt_common := buf, pkt_common_len := n\<rparr>, Sendto i (take n buf))"
  obtain chs where e: "each_channel ?f 0 (channels C) = Inr (chs, eff)"
    using assms(1) by (auto simp: send_reg_def Let_def split: sum.splits if_splits)
  have "map is_relay_done chs = map is_relay_done (channels C)"
    by (rule each_channel_relayed [OF e]) (auto split: sum.splits)
  then show ?thesis using assms(1) e by (auto simp: send_reg_def Let_def relayed_def split: if_splits)
qed

lemma check_for_select_relay_relayed:
  assumes "check_for_select_relay E C = Inr (C', eff)"
  shows "relayed C' = relayed C"
proof (cases "state C \<noteq> CONF_OP_NEGO_DONE \<or> \<not> sel_relay_kicked C \<or> role C \<noteq> CONTROLLING")
  case False
  let ?f = "\<lambda>i ch. let t = generate_u32 E i
      in send_common i (build_msg_header (sessionId C) (comp_id ch) MSG_TYPE_SELECT_RELAY t 0) (ch\<lparr>tsx_id := t\<rparr>)"
  obtain chs where e: "each_channel ?f 0 (channels C) = Inr (chs, eff)"
    and C': "C' = C\<lparr>channels := chs, sel_relay_send_time := now_ms E, state := CONF_OP_SELECTING\<rparr>"
    using assms False by (auto simp: check_for_select_relay_def split: sum.splits if_splits)
  have "map is_relay_done chs = map is_relay_done (channels C)"
    by (rule each_channel_relayed [OF e]) (auto simp: Let_def dest: send_common_relayed)
  then show ?thesis by (simp add: C' relayed_def)
qed (use assms in \<open>simp add: check_for_select_relay_def\<close>)

lemma check_done_relayed: "relayed (fst (check_for_select_relay_done C)) = relayed C"
  by (simp add: check_for_select_relay_done_def case_prod_unfold)

lemma start_nego_relayed: "relayed (fst (start_nego E C)) = relayed C"
  by (cases rule: start_nego_cases [of E C]) simp_all

section \<open>What makes a channel relayed\<close>

text \<open>The two messages that do: a selection for the callee, its acknowledgement for the caller.\<close>

fun selects :: "conf_event \<Rightarrow> nat \<Rightarrow> byte \<Rightarrow> bool" where
  "selects (Recv E i (Some buf) n) j m = (i = j \<and> buf ! 0 = PKT_TYPE_MSG \<and> buf ! 1 = m \<and> 2 \<le> n)"
| "selects _ _ _ = False"

lemma verify_true_length:
  assumes "verify_checksum buf (of_nat n) = Inr True" "buf ! 0 = PKT_TYPE_MSG" "n \<le> length buf" "length buf < 2 ^ 32"
  shows "2 \<le> n"
proof (rule ccontr)
  assume "\<not> 2 \<le> n"
  then consider "n = 0" | "n = 1" by linarith
  then show False
    using assms by cases (auto simp: verify_checksum_def Let_def calc_checksum_def packet_types
        unsigned_minus_1_eq_mask mask_eq_exp_minus_1 split: if_splits)
qed

lemma recv_register_relayed:
  assumes "recv_register E i buf len C = Inr (C', eff)"
  shows "relayed C' = relayed C"
proof -
  have "relayed (C\<lparr>channels := (channels C)[i := (channels C ! i)\<lparr>is_reg := True\<rparr>]\<rparr>) = relayed C"
    by (rule relayed_same) simp
  then show ?thesis using assms start_nego_relayed
    by (auto simp: recv_register_def Let_def case_prod_unfold split: sum.splits bool.splits if_splits)
qed

lemma timer_relayed:
  assumes "timer_cb E C = Inr (C', eff)"
  shows "relayed C' = relayed C"
proof -
  have "relayed (fst (timer_selecting E D)) = relayed D" for D by (simp add: timer_selecting_def)
  moreover have "relayed C1 = relayed C" if "timer_reging E C = Inr (C1, eff1)" for C1 eff1
    using that send_reg_relayed [of E C C1 eff1] relayed_set_final [of "-1" C C1 eff1]
    by (auto simp: timer_reging_def split: if_splits)
  ultimately show ?thesis using assms by (auto simp: timer_cb_def case_prod_unfold Let_def split: sum.splits)
qed

lemma on_ccc_ice_complete_relayed:
  assumes "on_ccc_ice_complete E status C = Inr (C', eff)"
  shows "relayed C' = relayed C"
proof -
  have "relayed D' = relayed C" if "check_for_select_relay E (fst (set_state CONF_OP_NEGO_DONE status C)) = Inr (D', e)" for D' e
    using check_for_select_relay_relayed [OF that] by simp
  then show ?thesis using assms
    by (auto simp: on_ccc_ice_complete_def Let_def case_prod_unfold split: if_splits sum.splits)
qed

lemma tx_pkt_relayed: "on_ccc_ice_tx_pkt cid pkt C = Inr (C', eff) \<Longrightarrow> relayed C' = relayed C"
  by (auto simp: on_ccc_ice_tx_pkt_def Let_def relayed_same split: if_splits sum.splits)

lemma recv_select_relay_relayed:
  assumes "recv_select_relay i buf len cid C = Inr (C', eff)"
  shows "relayed C' = relayed C \<and> eff = []
    \<or> role C = CONTROLLED \<and> verify_checksum buf len = Inr True \<and> relayed C' = (relayed C)[i := True]
      \<and> (\<exists>m. hd eff = Sendto i m)"
proof -
  consider (quiet) "C' = C" "eff = []"
    | (acked) ch e eff2 where "send_ack i buf len (channels (relay_done i C) ! i) = Inr (ch, e)"
        "check_for_select_relay_done ((relay_done i C)\<lparr>channels := (channels (relay_done i C))[i := ch]\<rparr>) = (C', eff2)"
        "eff = e # eff2" "role C = CONTROLLED" "verify_checksum buf len = Inr True"
    using assms by (auto simp: recv_select_relay_def Let_def split: sum.splits bool.splits if_splits prod.splits)
  then show ?thesis
  proof cases
    case (acked ch e eff2)
    have d: "is_relay_done ch = is_relay_done (channels (relay_done i C) ! i)" "\<exists>m. e = Sendto i m"
      using acked(1) by (auto simp: send_ack_def Let_def split: if_splits)
    have "relayed C' = relayed ((relay_done i C)\<lparr>channels := (channels (relay_done i C))[i := ch]\<rparr>)"
      using check_done_relayed acked(2) by (metis fst_conv)
    also have "\<dots> = relayed (relay_done i C)" using d(1) by (rule relayed_same)
    finally show ?thesis using acked d(2) by (simp add: relayed_relay_done)
  qed simp
qed

lemma recv_select_relay_ack_relayed:
  assumes "recv_select_relay_ack i buf len cid tsx C = Inr (C', eff)"
  shows "relayed C' = relayed C \<or> role C = CONTROLLING \<and> verify_checksum buf len = Inr True \<and> relayed C' = (relayed C)[i := True]"
proof -
  consider (quiet) "C' = C" | (acked) "check_for_select_relay_done (relay_done i C) = (C', eff)" "role C = CONTROLLING"
      "verify_checksum buf len = Inr True"
    using assms by (auto simp: recv_select_relay_ack_def split: sum.splits bool.splits if_splits)
  then show ?thesis
  proof cases
    case acked
    then show ?thesis using check_done_relayed [of "relay_done i C"] by (simp add: relayed_relay_done)
  qed simp
qed

definition selecting_msg :: "ice_role \<Rightarrow> byte" where
  "selecting_msg r = (case r of CONTROLLED \<Rightarrow> MSG_TYPE_SELECT_RELAY | CONTROLLING \<Rightarrow> MSG_TYPE_SELECT_RELAY_ACK)"

fun sane :: "conf_event \<Rightarrow> bool" where
  "sane (Recv E i (Some buf) n) = (length buf = 2048 \<and> n \<le> 2048)"
| "sane (Recv E i None n) = False"
| "sane _ = True"

lemma relayed_by_message:
  assumes "conf_exec ev C = Inr (C', eff)" "sane ev"
  shows "relayed C' = relayed C \<or> (\<exists>i < channelCount C. selects ev i (selecting_msg (role C)) \<and> relayed C' = (relayed C)[i := True])"
proof (cases ev)
  case (Recv E i data n)
  then obtain buf where buf: "data = Some buf" "length buf = 2048" "n \<le> 2048" using assms(2) by (cases data) auto
  show ?thesis
  proof (cases "i < channelCount C \<and> buf ! 0 = PKT_TYPE_MSG")
    case False
    then show ?thesis using assms Recv buf recv_register_relayed
      by (auto simp: on_data_recvfrom_def split: if_splits)
  next
    case True
    then have m: "recv_msg i buf (of_nat n) C = Inr (C', eff)"
      using assms(1) Recv buf by (auto simp: on_data_recvfrom_def packet_types split: if_splits)
    have two: "verify_checksum buf (of_nat n) = Inr True \<Longrightarrow> 2 \<le> n"
      using verify_true_length [of buf n] True buf by simp
    show ?thesis using m buf True two Recv recv_select_relay_relayed [of i buf "of_nat n" _ C C' eff]
      recv_select_relay_ack_relayed [of i buf "of_nat n" _ _ C C' eff]
      by (auto simp: recv_msg_def Let_def selecting_msg_def recv_ice_wrap_def split: if_splits sum.splits bool.splits)
  qed
next
  case (KickReg E)
  then show ?thesis using assms(1) send_reg_relayed
    by (cases "send_reg E C") (auto simp: confice_kickoff_reg_def split: if_splits)
next
  case (KickSelect E)
  then show ?thesis using assms(1) check_for_select_relay_relayed [of E "C\<lparr>sel_relay_kicked := True\<rparr>"]
    by (cases "check_for_select_relay E (C\<lparr>sel_relay_kicked := True\<rparr>)") (auto simp: confice_kickoff_select_relay_def split: if_splits)
next
  case Cancel
  then show ?thesis using assms(1) relayed_set_final [of "-1" C C' eff] by (auto simp: confice_cancel_def split: if_splits)
next
  case (Timer E)
  then show ?thesis using assms(1) timer_relayed by simp
next
  case (IceComplete E status)
  then show ?thesis using assms(1) on_ccc_ice_complete_relayed by simp
next
  case (IceTx cid pkt)
  then show ?thesis using assms(1) tx_pkt_relayed by simp
qed

section \<open>The invariant of one side\<close>

text \<open>
  A successful end means that every channel is relayed; the callee never selects, and once all of
  its channels are relayed it has ended.
\<close>

definition all_relayed :: "confice \<Rightarrow> bool" where
  "all_relayed C \<longleftrightarrow> (\<forall>b \<in> set (relayed C). b)"

definition conf_inv :: "confice \<Rightarrow> bool" where
  "conf_inv C \<longleftrightarrow> (state C = CONF_OP_FINAL \<and> final_result C = 0 \<longrightarrow> all_relayed C)
     \<and> (sel_relay_done C \<longrightarrow> state C = CONF_OP_FINAL)
     \<and> (role C = CONTROLLED \<longrightarrow> state C \<noteq> CONF_OP_SELECTING \<and> (all_relayed C \<longrightarrow> state C = CONF_OP_FINAL))"

text \<open>Steps other than the two messages leave the selection alone and end in failure only.\<close>

definition calm :: "confice \<Rightarrow> confice \<Rightarrow> bool" where
  "calm C C' \<longleftrightarrow> sel_relay_done C' = sel_relay_done C \<and> role C' = role C
     \<and> (state C' = CONF_OP_FINAL \<longrightarrow> state C = CONF_OP_FINAL \<and> final_result C' = final_result C \<or> state C \<noteq> CONF_OP_FINAL \<and> final_result C' \<noteq> 0)
     \<and> (state C' = CONF_OP_SELECTING \<longrightarrow> state C = CONF_OP_SELECTING \<or> role C = CONTROLLING)
     \<and> (state C = CONF_OP_FINAL \<longrightarrow> state C' = CONF_OP_FINAL)"

lemma calm_refl [simp]: "calm C C"
  by (simp add: calm_def)

lemma calm_inv:
  assumes "calm C C'" "relayed C' = relayed C" "conf_inv C"
  shows "conf_inv C'"
proof -
  have a: "all_relayed C' = all_relayed C" using assms(2) by (simp add: all_relayed_def)
  show ?thesis
  proof (cases "state C' = CONF_OP_FINAL")
    case True
    then show ?thesis using assms(1,3) a by (auto simp: conf_inv_def calm_def)
  next
    case False
    then show ?thesis using assms(1,3) a by (cases "role C") (auto simp: conf_inv_def calm_def)
  qed
qed

lemma calm_set_final: "r \<noteq> 0 \<Longrightarrow> set_final r C = (C', eff) \<Longrightarrow> calm C C'"
  by (auto simp: calm_def set_final_eq split: if_splits)

lemma calm_set_state:
  "s \<noteq> CONF_OP_FINAL \<Longrightarrow> s \<noteq> CONF_OP_SELECTING \<Longrightarrow> state C \<noteq> CONF_OP_FINAL \<Longrightarrow> set_state s r C = (C', eff) \<Longrightarrow> calm C C'"
  by (auto simp: calm_def set_state_def)

lemma calm_trans:
  assumes "calm A B" "calm B C" "state A \<noteq> CONF_OP_FINAL" "state B \<noteq> CONF_OP_FINAL"
  shows "calm A C"
  using assms by (auto simp: calm_def)

lemma calm_send_reg: "send_reg E C = Inr (C', eff) \<Longrightarrow> state C \<noteq> CONF_OP_FINAL \<Longrightarrow> calm C C'"
  by (auto simp: send_reg_def Let_def calm_def split: sum.splits if_splits)

lemma calm_select: "check_for_select_relay E C = Inr (C', eff) \<Longrightarrow> calm C C'"
  by (auto simp: check_for_select_relay_def calm_def split: sum.splits if_splits)

lemma calm_start_nego: "start_nego E C = (C', eff) \<Longrightarrow> state C \<noteq> CONF_OP_FINAL \<Longrightarrow> calm C C'"
  by (cases rule: start_nego_cases [of E C]) (auto simp: calm_def set_final_eq set_state_def)

lemma calm_recv_register:
  assumes "recv_register E i buf len C = Inr (C', eff)"
  shows "calm C C'"
proof (cases "check_reg_ack (sessionId C) buf len = Inr True \<and> state C = CONF_OP_REGING")
  case False
  then have "C' = C" using assms
    by (cases "check_reg_ack (sessionId C) buf len") (auto simp: recv_register_def split: bool.splits)
  then show ?thesis by simp
next
  case True
  let ?C1 = "C\<lparr>channels := (channels C)[i := (channels C ! i)\<lparr>is_reg := True\<rparr>]\<rparr>"
  let ?C2 = "?C1\<lparr>state := CONF_OP_REG_DONE\<rparr>"
  have "C' = ?C1 \<or> C' = fst (start_nego E ?C2)"
    using assms True by (auto simp: recv_register_def Let_def case_prod_unfold set_state_def split: if_splits)
  moreover have "calm C ?C1" "calm C ?C2" using True by (simp_all add: calm_def)
  moreover have "calm ?C2 (fst (start_nego E ?C2))"
    by (rule calm_start_nego [where E = E]) (auto intro: prod_eqI)
  ultimately show ?thesis using True calm_trans [of C ?C2 "fst (start_nego E ?C2)"] by auto
qed

lemma calm_complete:
  assumes "on_ccc_ice_complete E status C = Inr (C', eff)"
  shows "calm C C'"
proof (cases "state C = CONF_OP_NEGOING")
  case True
  let ?C1 = "C\<lparr>state := CONF_OP_NEGO_DONE\<rparr>"
  have c: "calm C ?C1" using True by (simp add: calm_def)
  show ?thesis
  proof (cases "status = 0")
    case z: True
    then obtain e where "check_for_select_relay E ?C1 = Inr (C', e)"
      using assms True by (auto simp: on_ccc_ice_complete_def set_state_def split: sum.splits)
    from calm_trans [OF c calm_select [OF this]] True show ?thesis by simp
  next
    case False
    then have "C' = fst (set_final status ?C1)"
      using assms True by (auto simp: on_ccc_ice_complete_def set_state_def case_prod_unfold Let_def)
    then obtain e where "set_final status ?C1 = (C', e)" by (metis prod.collapse)
    from calm_trans [OF c calm_set_final [OF False this]] True show ?thesis by simp
  qed
qed (use assms in \<open>simp add: on_ccc_ice_complete_def\<close>)

lemma calm_timer:
  assumes "timer_cb E C = Inr (C', eff)"
  shows "calm C C'"
proof -
  obtain C1 eff1 where r: "timer_reging E C = Inr (C1, eff1)" and C': "C' = fst (timer_selecting E C1)"
    using assms by (auto simp: timer_cb_def case_prod_unfold Let_def split: sum.splits)
  have c1: "calm C C1" using r calm_send_reg [of E C C1 eff1] calm_set_final [of "-1" C C1 eff1]
    by (auto simp: timer_reging_def split: if_splits)
  have c2: "calm C1 C'" unfolding C'
    using calm_set_final [of "-1" C1 "fst (set_final (-1) C1)" "snd (set_final (-1) C1)"] by (simp add: timer_selecting_def)
  show ?thesis
  proof (cases "state C1 = CONF_OP_FINAL")
    case True
    then have "C' = C1" unfolding C' by (simp add: timer_selecting_def)
    with c1 show ?thesis by simp
  next
    case False
    then have "state C \<noteq> CONF_OP_FINAL" using c1 by (auto simp: calm_def)
    from calm_trans [OF c1 c2 this False] show ?thesis .
  qed
qed

lemma check_done_inv:
  assumes "check_for_select_relay_done C = (C', eff)" "sel_relay_done C \<longrightarrow> state C = CONF_OP_FINAL"
    and "state C = CONF_OP_FINAL \<and> final_result C = 0 \<longrightarrow> all_relayed C"
    and "role C = CONTROLLED \<longrightarrow> state C \<noteq> CONF_OP_SELECTING"
  shows "conf_inv C'"
proof -
  have a: "all_relayed C \<longleftrightarrow> (\<forall>ch \<in> set (channels C). is_relay_done ch)" by (auto simp: all_relayed_def relayed_def)
  show ?thesis
    using assms unfolding check_for_select_relay_done_def a [symmetric]
    by (auto simp: conf_inv_def set_final_eq all_relayed_def relayed_def split: if_splits)
qed

lemma all_relayed_update: "all_relayed C \<Longrightarrow> relayed C' = (relayed C)[i := True] \<Longrightarrow> all_relayed C'"
  using set_update_subset_insert by (fastforce simp: all_relayed_def)

lemma conf_inv_step:
  assumes "conf_exec ev C = Inr (C', eff)" "sane ev" "conf_inv C"
  shows "conf_inv C'"
proof (cases ev)
  case (Recv E i data n)
  then obtain buf where buf: "data = Some buf" "length buf = 2048" using assms(2) by (cases data) auto
  consider (quiet) "C' = C" | (reg) "recv_register E i buf (of_nat n) C = Inr (C', eff)"
    | (sel) cid where "recv_select_relay i buf (of_nat n) cid C = Inr (C', eff)"
    | (ack) cid tsx where "recv_select_relay_ack i buf (of_nat n) cid tsx C = Inr (C', eff)"
    using assms(1) Recv buf
    by (auto simp: on_data_recvfrom_def recv_msg_def Let_def recv_ice_wrap_def split: if_splits sum.splits bool.splits)
  then show ?thesis
  proof cases
    case reg
    then show ?thesis using calm_recv_register recv_register_relayed calm_inv assms(3) by blast
  next
    case sel
    show ?thesis
    proof (cases "C' = C")
      case False
      then obtain ch e eff2 where a: "send_ack i buf (of_nat n) (channels (relay_done i C) ! i) = Inr (ch, e)"
        "check_for_select_relay_done ((relay_done i C)\<lparr>channels := (channels (relay_done i C))[i := ch]\<rparr>) = (C', eff2)"
        using sel by (auto simp: recv_select_relay_def Let_def split: sum.splits bool.splits if_splits prod.splits)
      let ?D = "(relay_done i C)\<lparr>channels := (channels (relay_done i C))[i := ch]\<rparr>"
      have "is_relay_done ch = is_relay_done (channels (relay_done i C) ! i)"
        using a(1) by (auto simp: send_ack_def Let_def split: if_splits)
      then have "relayed ?D = (relayed C)[i := True]" by (simp add: relayed_same relayed_relay_done)
      then have "all_relayed C \<Longrightarrow> all_relayed ?D" by (rule all_relayed_update [rotated])
      with assms(3) show ?thesis
        by (intro check_done_inv [OF a(2)]) (auto simp: conf_inv_def relay_done_def)
    qed (use assms in simp)
  next
    case ack
    show ?thesis
    proof (cases "C' = C")
      case False
      then have a: "check_for_select_relay_done (relay_done i C) = (C', eff)"
        using ack by (auto simp: recv_select_relay_ack_def split: sum.splits bool.splits if_splits)
      have "all_relayed C \<Longrightarrow> all_relayed (relay_done i C)" by (rule all_relayed_update [OF _ relayed_relay_done])
      with assms(3) show ?thesis
        by (intro check_done_inv [OF a]) (auto simp: conf_inv_def relay_done_def)
    qed (use assms in simp)
  qed (use assms in simp)
next
  case (KickReg E)
  have "state C \<noteq> CONF_OP_FINAL" if "\<not> CONF_OP_REGING \<le> state C" using that by auto
  then have "calm C C' \<and> relayed C' = relayed C"
    using KickReg assms(1) calm_send_reg [of E C C' eff] send_reg_relayed [of E C C' eff]
    by (cases "send_reg E C") (auto simp: confice_kickoff_reg_def split: if_splits)
  then show ?thesis using calm_inv assms(3) by blast
next
  case (KickSelect E)
  let ?D = "C\<lparr>sel_relay_kicked := True\<rparr>"
  have "conf_inv ?D" using assms(3) by (auto simp: conf_inv_def all_relayed_def)
  then have "conf_inv C'" if "check_for_select_relay E ?D = Inr (C', eff)"
    using calm_inv [OF calm_select [OF that] check_for_select_relay_relayed [OF that]] by blast
  then show ?thesis using KickSelect assms
    by (cases "check_for_select_relay E ?D") (auto simp: confice_kickoff_select_relay_def split: if_splits)
next
  case Cancel
  then have "calm C C' \<and> relayed C' = relayed C"
    using assms(1) calm_set_final [of "-1" C C' eff] relayed_set_final [of "-1" C C' eff]
    by (auto simp: confice_cancel_def split: if_splits)
  then show ?thesis using calm_inv assms(3) by blast
next
  case (Timer E)
  then show ?thesis using assms calm_timer timer_relayed calm_inv by simp blast
next
  case (IceComplete E status)
  then show ?thesis using assms calm_complete on_ccc_ice_complete_relayed calm_inv by simp blast
next
  case (IceTx cid pkt)
  then have "calm C C'" using assms(1) by (auto simp: on_ccc_ice_tx_pkt_def Let_def calm_def split: if_splits sum.splits)
  then show ?thesis using IceTx assms tx_pkt_relayed calm_inv by auto
qed

section \<open>Caller and callee\<close>

text \<open>
  What the callee puts on the network. A packet that an acknowledgement-accepting caller can take
  for one is sent by the callee on relayed channels only.
\<close>

definition looks_ack :: "byte list \<Rightarrow> bool" where
  "looks_ack m \<longleftrightarrow> 2 \<le> length m \<and> m ! 0 = PKT_TYPE_MSG \<and> m ! 1 = MSG_TYPE_SELECT_RELAY_ACK"

lemma set_state_no_send: "Sendto i m \<notin> set (snd (set_state s r C))" "Sendto i m \<notin> set (snd (set_final r C))"
  by (simp_all add: set_final_def set_state_def)

lemma check_done_no_send: "check_for_select_relay_done C = (C', eff) \<Longrightarrow> Sendto i m \<notin> set eff"
  by (auto simp: check_for_select_relay_done_def set_final_eq split: if_splits)

lemma each_channel_all:
  assumes "each_channel f i chs = Inr (chs', eff)" "\<And>j ch ch' e. f j ch = Inr (ch', e) \<Longrightarrow> P e" "e \<in> set eff"
  shows "P e"
  using assms(1,3)
proof (induction chs arbitrary: i chs' eff)
  case (Cons ch chs)
  then show ?case using assms(2) by (fastforce split: sum.splits prod.splits)
qed simp

lemma reg_not_ack:
  assumes "make_reg_pkt s c r ch b = Inr (buf, n)"
  shows "\<not> looks_ack (take n buf)"
proof -
  have "take n buf = with_checksum (reg_pkt s c r ch)"
    using assms write_packet_length by (auto simp: make_reg_pkt_def make_reg_pkt_v1_def)
  then show ?thesis by (simp add: looks_ack_def with_checksum_def reg_pkt_def Let_def packet_types)
qed

lemma send_reg_not_ack:
  assumes "send_reg E C = Inr (C', eff)" "Sendto i m \<in> set eff"
  shows "\<not> looks_ack m"
proof -
  let ?f = "\<lambda>i ch. case make_reg_pkt (sessionId C) (confId C) (rcode C) (of_int (channelId ch)) (pkt_common ch) of
      Inl e \<Rightarrow> Inl e | Inr (buf, n) \<Rightarrow> Inr (ch\<lparr>pkt_common := buf, pkt_common_len := n\<rparr>, Sendto i (take n buf))"
  obtain chs where e: "each_channel ?f 0 (channels C) = Inr (chs, eff)"
    using assms(1) by (auto simp: send_reg_def Let_def split: sum.splits if_splits)
  have "\<forall>j b. Sendto i m = Sendto j b \<longrightarrow> \<not> looks_ack b"
    by (rule each_channel_all [OF e _ assms(2)]) (auto dest: reg_not_ack split: sum.splits)
  then show ?thesis by simp
qed

lemma select_not_ack:
  assumes "check_for_select_relay E C = Inr (C', eff)" "Sendto i m \<in> set eff"
  shows "\<not> looks_ack m"
proof -
  let ?f = "\<lambda>i ch. let t = generate_u32 E i
      in send_common i (build_msg_header (sessionId C) (comp_id ch) MSG_TYPE_SELECT_RELAY t 0) (ch\<lparr>tsx_id := t\<rparr>)"
  obtain chs where e: "each_channel ?f 0 (channels C) = Inr (chs, eff)"
    using assms by (auto simp: check_for_select_relay_def split: sum.splits if_splits)
  have n: "\<not> looks_ack (take n buf)"
    if "write_packet (build_msg_header s c MSG_TYPE_SELECT_RELAY t 0) b = Inr (buf, n)" for s c t b buf n
  proof -
    have "\<not> looks_ack (with_checksum (build_msg_header s c MSG_TYPE_SELECT_RELAY t 0))"
      by (simp add: looks_ack_def with_checksum_def packet_types)
    then show ?thesis using write_packet_length [OF that] by metis
  qed
  have "\<forall>j b. Sendto i m = Sendto j b \<longrightarrow> \<not> looks_ack b"
    by (rule each_channel_all [OF e _ assms(2)]) (auto simp: Let_def send_common_def dest: n split: sum.splits)
  then show ?thesis by simp
qed

lemma tx_not_ack:
  assumes "on_ccc_ice_tx_pkt cid pkt C = Inr (C', eff)" "Sendto i m \<in> set eff"
  shows "\<not> looks_ack m"
proof -
  obtain c buf n b where "write_packet (build_msg_header (sessionId C) c MSG_TYPE_ICE_WRAP 0 (of_nat (length pkt)) @ pkt) b = Inr (buf, n)"
    "m = take n buf"
    using assms by (auto simp: on_ccc_ice_tx_pkt_def Let_def split: if_splits sum.splits)
  then have "m = with_checksum (build_msg_header (sessionId C) c MSG_TYPE_ICE_WRAP 0 (of_nat (length pkt)) @ pkt)"
    using write_packet_length by blast
  then show ?thesis by (simp add: looks_ack_def with_checksum_def packet_types)
qed

lemma start_nego_no_send: "start_nego E C = (C', eff) \<Longrightarrow> Sendto i m \<notin> set eff"
  by (cases rule: start_nego_cases [of E C]) (auto simp: set_final_eq set_state_def split: if_splits)

lemma recv_register_no_send: "recv_register E i buf len C = Inr (C', eff) \<Longrightarrow> Sendto j m \<notin> set eff"
  using set_state_no_send start_nego_no_send [OF prod.collapse [symmetric]]
  by (auto simp: recv_register_def Let_def case_prod_unfold split: sum.splits bool.splits if_splits)

lemma complete_not_ack:
  assumes "on_ccc_ice_complete E status C = Inr (C', eff)" "Sendto i m \<in> set eff"
  shows "\<not> looks_ack m"
proof -
  have "Sendto i m \<in> set e \<Longrightarrow> \<not> looks_ack m" if "check_for_select_relay E D = Inr (D', e)" for D D' e
    using select_not_ack [OF that] .
  then show ?thesis using assms set_state_no_send
    by (auto simp: on_ccc_ice_complete_def Let_def case_prod_unfold split: if_splits sum.splits)
qed

lemma timer_not_ack:
  assumes "timer_cb E C = Inr (C', eff)" "Sendto i m \<in> set eff" "role C = CONTROLLED" "state C \<noteq> CONF_OP_SELECTING"
  shows "\<not> looks_ack m"
proof -
  obtain C1 eff1 where r: "timer_reging E C = Inr (C1, eff1)"
    and eff: "eff = eff1 @ snd (timer_selecting E C1) @ (if state C' \<noteq> CONF_OP_FINAL then [TimerScheduled] else [])"
    using assms by (auto simp: timer_cb_def case_prod_unfold Let_def split: sum.splits)
  have "calm C C1" using r calm_send_reg [of E C C1 eff1] calm_set_final [of "-1" C C1 eff1]
    by (auto simp: timer_reging_def split: if_splits)
  then have "snd (timer_selecting E C1) = []" using assms(3,4) by (auto simp: calm_def timer_selecting_def)
  then have "Sendto i m \<in> set eff1" using assms(2) eff by (auto split: if_splits)
  then show ?thesis using r send_reg_not_ack [of E C C1 eff1 i m] set_state_no_send(2) [of i m "-1" C]
    by (auto simp: timer_reging_def split: if_splits)
qed

lemma callee_acks:
  assumes "conf_exec ev B = Inr (B', eff)" "sane ev" "role B = CONTROLLED" "state B \<noteq> CONF_OP_SELECTING"
    and "Sendto j m \<in> set eff" "looks_ack m"
  shows "j < channelCount B \<and> relayed B' ! j"
proof (cases ev)
  case (Recv E i data n)
  then obtain buf where buf: "data = Some buf" "length buf = 2048" using assms(2) by (cases data) auto
  have i: "i < channelCount B" using assms(1,5) Recv by (auto split: if_splits)
  consider (reg) "recv_register E i buf (of_nat n) B = Inr (B', eff)"
    | (sel) cid where "recv_select_relay i buf (of_nat n) cid B = Inr (B', eff)"
    | (ack) cid tsx where "recv_select_relay_ack i buf (of_nat n) cid tsx B = Inr (B', eff)"
    using assms(1,5) Recv buf
    by (auto simp: on_data_recvfrom_def recv_msg_def Let_def recv_ice_wrap_def split: if_splits sum.splits bool.splits)
  then show ?thesis
  proof cases
    case reg
    then show ?thesis using recv_register_no_send assms(5) by blast
  next
    case sel
    then obtain ch e eff2 D where a: "send_ack i buf (of_nat n) (channels (relay_done i B) ! i) = Inr (ch, e)"
      "check_for_select_relay_done D = (B', eff2)" "eff = e # eff2"
      using assms(5) by (auto simp: recv_select_relay_def Let_def split: sum.splits bool.splits if_splits prod.splits)
    have "e = Sendto j m" using a(3) assms(5) check_done_no_send [OF a(2)] by auto
    then have "j = i" using a(1) by (auto simp: send_ack_def Let_def split: if_splits)
    moreover from recv_select_relay_relayed [OF sel] a(3) have "relayed B' = (relayed B)[i := True]" by simp
    ultimately show ?thesis using i by simp
  next
    case ack
    then show ?thesis using assms(3,5) by (simp add: recv_select_relay_ack_def)
  qed
next
  case (KickReg E)
  then show ?thesis using assms send_reg_not_ack [of E B B' eff j m]
    by (cases "send_reg E B") (auto simp: confice_kickoff_reg_def split: if_splits)
next
  case (KickSelect E)
  then show ?thesis using assms select_not_ack [of E "B\<lparr>sel_relay_kicked := True\<rparr>" B' eff j m]
    by (cases "check_for_select_relay E (B\<lparr>sel_relay_kicked := True\<rparr>)") (auto simp: confice_kickoff_select_relay_def split: if_splits)
next
  case Cancel
  then show ?thesis using assms set_state_no_send(2) [of j m "-1" B] by (auto simp: confice_cancel_def split: if_splits)
next
  case (Timer E)
  then show ?thesis using assms timer_not_ack by auto
next
  case (IceComplete E status)
  then show ?thesis using assms complete_not_ack by auto
next
  case (IceTx cid pkt)
  then show ?thesis using assms tx_not_ack by auto
qed

text \<open>
  The pair. The callee's packets are collected with the channel they went out on. The caller may
  receive anything, but a packet that looks like an acknowledgement must be one of the callee's on
  the same channel: the server forwards and does not forge. The callee may receive anything at all.
\<close>

definition honest :: "(nat \<times> byte list) set \<Rightarrow> conf_event \<Rightarrow> bool" where
  "honest net ev \<longleftrightarrow> (case ev of
     Recv E i (Some buf) n \<Rightarrow> looks_ack (take n buf) \<longrightarrow> (i, take n buf) \<in> net
   | _ \<Rightarrow> True)"

definition fresh_conf :: "ice_role \<Rightarrow> confice \<Rightarrow> bool" where
  "fresh_conf r C \<longleftrightarrow> role C = r \<and> conf_ok C \<and> channels C \<noteq> [] \<and> state C = CONF_OP_NONE \<and> \<not> sel_relay_done C
     \<and> (\<forall>ch \<in> set (channels C). \<not> is_relay_done ch)"

inductive pair_run :: "confice \<Rightarrow> confice \<Rightarrow> (nat \<times> byte list) set \<Rightarrow> bool" where
  start: "fresh_conf CONTROLLING A \<Longrightarrow> fresh_conf CONTROLLED B \<Longrightarrow> channelCount A = channelCount B \<Longrightarrow> pair_run A B {}"
| caller: "pair_run A B net \<Longrightarrow> conf_exec ev A = Inr (A', eff) \<Longrightarrow> sane ev \<Longrightarrow> honest net ev \<Longrightarrow> pair_run A' B net"
| callee: "pair_run A B net \<Longrightarrow> conf_exec ev B = Inr (B', eff) \<Longrightarrow> sane ev \<Longrightarrow>
    pair_run A B' (net \<union> {(i, m). Sendto i m \<in> set eff})"

definition pair_inv :: "confice \<Rightarrow> confice \<Rightarrow> (nat \<times> byte list) set \<Rightarrow> bool" where
  "pair_inv A B net \<longleftrightarrow> role A = CONTROLLING \<and> role B = CONTROLLED \<and> channelCount A = channelCount B
     \<and> conf_inv A \<and> conf_inv B \<and> (\<forall>(i, m) \<in> net. looks_ack m \<longrightarrow> i < channelCount B \<and> relayed B ! i)
     \<and> (\<forall>i < channelCount A. relayed A ! i \<longrightarrow> relayed B ! i)"

lemma exec_role: "conf_exec ev C = Inr (C', eff) \<Longrightarrow> role C' = role C \<and> channelCount C' = channelCount C"
  using conf_exec_advances by (fastforce simp: advances_def same_conf_def dest: chs_keep_length)

lemma fresh_inv: "fresh_conf r C \<Longrightarrow> conf_inv C"
  by (cases "channels C") (auto simp: fresh_conf_def conf_inv_def all_relayed_def relayed_def)

lemma exec_keeps_relayed:
  assumes "conf_exec ev C = Inr (C', eff)" "i < channelCount C" "relayed C ! i"
  shows "relayed C' ! i"
proof -
  have k: "chs_keep (channels C) (channels C')" using conf_exec_advances [OF assms(1)] by (simp add: advances_def same_conf_def)
  from chs_keep_nth [OF k assms(2)] chs_keep_length [OF k] assms(2,3) show ?thesis
    by (simp add: relayed_nth ch_keeps_def)
qed

lemma pair_run_inv: "pair_run A B net \<Longrightarrow> pair_inv A B net"
proof (induction rule: pair_run.induct)
  case (start A B)
  then show ?case using fresh_inv
    by (auto simp: pair_inv_def fresh_conf_def relayed_def)
next
  case (caller A B net ev A' eff)
  note I = caller.IH [unfolded pair_inv_def]
  have "conf_inv A'" using conf_inv_step caller I by blast
  moreover have "relayed B ! i" if i: "i < channelCount A'" "relayed A' ! i" for i
  proof -
    have iA: "i < channelCount A" using i(1) exec_role [OF caller.hyps(2)] by simp
    from relayed_by_message [OF caller.hyps(2,3)] I consider (same) "relayed A' = relayed A"
      | (ack) j where "selects ev j MSG_TYPE_SELECT_RELAY_ACK" "relayed A' = (relayed A)[j := True]"
      by (auto simp: selecting_msg_def)
    then show ?thesis
    proof cases
      case same
      then show ?thesis using I i(2) iA by auto
    next
      case (ack j)
      show ?thesis
      proof (cases "i = j")
        case True
        obtain E buf n where ev: "ev = Recv E j (Some buf) n" "buf ! 0 = PKT_TYPE_MSG" "buf ! 1 = MSG_TYPE_SELECT_RELAY_ACK" "2 \<le> n"
          using ack(1) by (cases "(ev, j, MSG_TYPE_SELECT_RELAY_ACK)" rule: selects.cases) auto
        then have "looks_ack (take n buf)" using caller.hyps(3) by (simp add: looks_ack_def)
        with ev(1) caller.hyps(4) have "(j, take n buf) \<in> net" by (simp add: honest_def)
        with I \<open>looks_ack (take n buf)\<close> True show ?thesis by fastforce
      next
        case False
        then show ?thesis using I i(2) iA ack(2) by auto
      qed
    qed
  qed
  ultimately show ?case using I exec_role [OF caller.hyps(2)] by (auto simp: pair_inv_def)
next
  case (callee A B net ev B' eff)
  note I = callee.IH [unfolded pair_inv_def]
  have "conf_inv B'" using conf_inv_step callee I by blast
  moreover have "i < channelCount B' \<and> relayed B' ! i" if "(i, m) \<in> net \<union> {(i, m). Sendto i m \<in> set eff}" "looks_ack m" for i m
  proof (cases "(i, m) \<in> net")
    case True
    with I that have "i < channelCount B" "relayed B ! i" by fastforce+
    then show ?thesis using exec_keeps_relayed [OF callee.hyps(2)] exec_role [OF callee.hyps(2)] by simp
  next
    case False
    then have "Sendto i m \<in> set eff" using that(1) by simp
    moreover have "state B \<noteq> CONF_OP_SELECTING" using I by (auto simp: conf_inv_def)
    ultimately show ?thesis using callee_acks [OF callee.hyps(2,3)] I that(2) exec_role [OF callee.hyps(2)] by auto
  qed
  ultimately show ?case using I exec_role [OF callee.hyps(2)] exec_keeps_relayed [OF callee.hyps(2)]
    by (auto simp: pair_inv_def)
qed


end
