(* ===== verification/RelayLiveness.thy ===== *)
theory RelayLiveness
  imports RelayAgreement
begin

text \<open>
  The relay protocol gets there: when the server answers and the packets arrive, caller and callee
  register, select and end with success; when they do not arrive, the timer ends what it watches.
\<close>

section \<open>Delivered packets\<close>

definition pad :: "byte list \<Rightarrow> byte list" where
  "pad m = m @ replicate (2048 - length m) 0"

definition deliver :: "conf_env \<Rightarrow> nat \<Rightarrow> byte list \<Rightarrow> conf_event" where
  "deliver E i m = Recv E i (Some (pad m)) (length m)"

lemma length_pad [simp]: "length m \<le> 2048 \<Longrightarrow> length (pad m) = 2048"
  by (simp add: pad_def)

lemma sane_deliver [simp]: "length m \<le> 2048 \<Longrightarrow> sane (deliver E i m)"
  by (simp add: deliver_def)

lemma take_pad [simp]: "take (length m) (pad m) = m"
  by (simp add: pad_def)

text \<open>The server's answer to a registration, and the two messages of the selection.\<close>

definition reg_ack :: "u32 \<Rightarrow> byte list" where
  "reg_ack s = with_checksum (PKT_TYPE_REGISTER # be_set_u32 s @ [0, 0])"

definition sel_pkt :: "u32 \<Rightarrow> nat \<Rightarrow> u32 \<Rightarrow> byte list" where
  "sel_pkt s i t = with_checksum (build_msg_header s (of_nat (Suc i)) MSG_TYPE_SELECT_RELAY t 0)"

definition ack_pkt :: "u32 \<Rightarrow> nat \<Rightarrow> u32 \<Rightarrow> byte list" where
  "ack_pkt s i t = with_checksum (build_msg_header s (of_nat (Suc i)) MSG_TYPE_SELECT_RELAY_ACK t 0)"

lemma length_pkts [simp]: "length (reg_ack s) = 8" "length (sel_pkt s i t) = 19" "length (ack_pkt s i t) = 19"
  by (simp_all add: reg_ack_def sel_pkt_def ack_pkt_def)

lemma pad_with_checksum:
  assumes "length p < 2048"
  shows "verify_checksum (pad (with_checksum p)) (of_nat (Suc (length p))) = Inr True"
  unfolding pad_def using assms by (intro verify_with_checksum) simp_all

lemma pad_header:
  "pad (with_checksum (build_msg_header s c m t n)) = build_msg_header s c m t n
     @ (calc_checksum (build_msg_header s c m t n) 18 # replicate 2029 0)"
  by (simp add: pad_def with_checksum_def)

section \<open>Running over the channels\<close>

lemma run_channels:
  assumes "\<And>i C. i < n \<Longrightarrow> P i C \<Longrightarrow> \<exists>C' eff. conf_exec (ev i) C = Inr (C', eff) \<and> P (Suc i) C' \<and> Q i eff"
    and "P 0 C"
  shows "\<exists>C' eff. conf_run (map ev [0 ..< n]) C = Inr (C', eff) \<and> P n C' \<and> (\<forall>i < n. \<exists>e. Q i e \<and> set e \<subseteq> set eff)"
proof -
  have "\<exists>C' eff. conf_run (map ev [k ..< n]) C = Inr (C', eff) \<and> P n C' \<and> (\<forall>i \<in> {k ..< n}. \<exists>e. Q i e \<and> set e \<subseteq> set eff)"
    if "P k C" "k \<le> n" for k C
    using that
  proof (induction "n - k" arbitrary: k C)
    case 0
    then show ?case by simp
  next
    case (Suc d)
    then have k: "k < n" by simp
    from assms(1) [OF k Suc.prems(1)] obtain C1 e1 where
      e: "conf_exec (ev k) C = Inr (C1, e1)" "P (Suc k) C1" "Q k e1" by blast
    have "d = n - Suc k" using Suc.hyps(2) by simp
    from Suc.hyps(1) [OF this e(2)] k obtain C' e2 where
      r: "conf_run (map ev [Suc k ..< n]) C1 = Inr (C', e2)" "P n C'" "\<forall>i \<in> {Suc k ..< n}. \<exists>e. Q i e \<and> set e \<subseteq> set e2"
      by (metis Suc_leI)
    have "conf_run (map ev [k ..< n]) C = Inr (C', e1 @ e2)" using e(1) r(1) k by (simp add: upt_conv_Cons)
    moreover have "\<forall>i \<in> {k ..< n}. \<exists>e. Q i e \<and> set e \<subseteq> set (e1 @ e2)"
    proof
      fix i assume "i \<in> {k ..< n}"
      then consider "i = k" | "i \<in> {Suc k ..< n}" by force
      then show "\<exists>e. Q i e \<and> set e \<subseteq> set (e1 @ e2)"
        using e(3) r(3) by cases fastforce+
    qed
    ultimately show ?case using r(2) by blast
  qed
  from this [OF assms(2)] show ?thesis by (simp add: Ball_def)
qed

lemma each_channel_nth:
  assumes "each_channel f i0 chs = Inr (chs', effs)"
  shows "length chs' = length chs \<and> length effs = length chs
    \<and> (\<forall>k < length chs. f (i0 + k) (chs ! k) = Inr (chs' ! k, effs ! k))"
  using assms
proof (induction chs arbitrary: i0 chs' effs)
  case (Cons ch chs)
  then obtain ch' e chs'' effs' where f: "f i0 ch = Inr (ch', e)" "each_channel f (Suc i0) chs = Inr (chs'', effs')"
    "chs' = ch' # chs''" "effs = e # effs'"
    by (auto split: sum.splits)
  from Cons.IH [OF f(2)] f show ?case by (auto simp: nth_Cons split: nat.split)
qed simp

lemma each_channel_total:
  assumes "\<And>i ch. ch \<in> set chs \<Longrightarrow> \<exists>r. f i ch = Inr r"
  shows "\<exists>r. each_channel f i0 chs = Inr r"
  using assms
proof (induction chs arbitrary: i0)
  case (Cons ch chs)
  then obtain a b r where "f i0 ch = Inr (a, b)" "each_channel f (Suc i0) chs = Inr r" by (metis list.set_intros surj_pair)
  then show ?case by (cases r) simp
qed simp

section \<open>Registration\<close>

text \<open>The pjnath calls succeed.\<close>

definition nath_ok :: "conf_env \<Rightarrow> bool" where
  "nath_ok E \<longleftrightarrow> (\<forall>k. nath_status E k = 0)"

lemma start_nego_ok:
  assumes "nath_ok E"
  shows "\<exists>eff. start_nego E C = (C\<lparr>ice_sess := True, state := CONF_OP_NEGOING\<rparr>, eff)"
proof -
  have "fst (run_calls (nath_status E) k cs) = 0" for k cs
    using assms by (induction cs arbitrary: k) (simp_all add: nath_ok_def case_prod_unfold Let_def)
  then show ?thesis using assms by (simp add: start_nego_def nath_ok_def case_prod_unfold Let_def set_state_def)
qed

text \<open>A side on its way: nothing is relayed yet.\<close>

definition unrelayed :: "confice \<Rightarrow> confice \<Rightarrow> bool" where
  "unrelayed C0 C \<longleftrightarrow> same_conf C0 C \<and> conf_ok C \<and> (\<forall>i < channelCount C. \<not> relayed C ! i) \<and> \<not> sel_relay_done C
     \<and> final_result C = 0 \<and> \<not> sel_relay_kicked C"

lemma unrelayed_chans: "unrelayed C0 C \<Longrightarrow> channelCount C = channelCount C0 \<and> sessionId C = sessionId C0 \<and> role C = role C0"
  by (auto simp: unrelayed_def same_conf_def dest: chs_keep_length)

lemma reg_ack_accepted: "check_reg_ack s (pad (reg_ack s)) 8 = Inr True"
proof -
  have v: "verify_checksum (pad (reg_ack s)) 8 = Inr True"
    using pad_with_checksum [of "PKT_TYPE_REGISTER # be_set_u32 s @ [0, 0]"] by (simp add: reg_ack_def)
  have e: "pad (reg_ack s) = [PKT_TYPE_REGISTER] @ be_set_u32 s @ ([0, 0, calc_checksum (PKT_TYPE_REGISTER # be_set_u32 s @ [0, 0]) 7]
      @ replicate 2040 0)"
    by (simp add: pad_def reg_ack_def with_checksum_def)
  have "be_get_u32 1 (pad (reg_ack s)) = s" unfolding e using be_get_set [of "[PKT_TYPE_REGISTER]" s] by simp
  moreover have "pad (reg_ack s) ! 5 = 0" unfolding e by (simp add: nth_append)
  ultimately show ?thesis using v by (simp add: check_reg_ack_def)
qed

definition registering :: "confice \<Rightarrow> nat \<Rightarrow> confice \<Rightarrow> bool" where
  "registering C0 k C \<longleftrightarrow> unrelayed C0 C \<and> (\<forall>i < channelCount C. is_reg (channels C ! i) \<longleftrightarrow> i < k)
     \<and> state C = (if k < channelCount C then CONF_OP_REGING else CONF_OP_NEGOING)"

lemma register_one:
  assumes "registering C0 i C" "i < channelCount C" "nath_ok E"
  shows "\<exists>C' eff. conf_exec (deliver E i (reg_ack (sessionId C0))) C = Inr (C', eff) \<and> registering C0 (Suc i) C'"
proof -
  let ?C1 = "C\<lparr>channels := (channels C)[i := (channels C ! i)\<lparr>is_reg := True\<rparr>]\<rparr>"
  have s: "sessionId C = sessionId C0" using assms(1) unrelayed_chans by (simp add: registering_def)
  have "pad (reg_ack (sessionId C0)) \<noteq> []" "pad (reg_ack (sessionId C0)) ! 0 = PKT_TYPE_REGISTER"
    by (simp_all add: pad_def reg_ack_def with_checksum_def)
  then have x: "conf_exec (deliver E i (reg_ack (sessionId C0))) C
      = recv_register E i (pad (reg_ack (sessionId C0))) 8 C"
    using assms(2) by (simp add: deliver_def on_data_recvfrom_def)
  have r: "relayed ?C1 = relayed C" by (rule relayed_same) simp
  have sc: "same_conf C ?C1" by (simp add: same_conf_put ch_keeps_def)
  then have u: "unrelayed C0 ?C1" using assms(1) r
    by (auto simp: registering_def unrelayed_def intro: same_conf_trans conf_ok_same [OF _ sc])
  have g: "\<forall>j < channelCount C. is_reg (channels ?C1 ! j) \<longleftrightarrow> j < Suc i"
    using assms(1,2) by (auto simp: registering_def nth_list_update less_Suc_eq)
  have all: "(\<forall>ch \<in> set (channels ?C1). is_reg ch) \<longleftrightarrow> Suc i = channelCount C"
  proof
    assume "\<forall>ch \<in> set (channels ?C1). is_reg ch"
    then have "\<forall>j < channelCount C. j < Suc i" using g by (simp add: all_set_conv_all_nth)
    then show "Suc i = channelCount C" using assms(2) by (metis Suc_lessI less_irrefl)
  next
    assume "Suc i = channelCount C"
    then show "\<forall>ch \<in> set (channels ?C1). is_reg ch" using g by (simp add: all_set_conv_all_nth)
  qed
  have st: "state C = CONF_OP_REGING" using assms(1,2) by (simp add: registering_def)
  show ?thesis
  proof (cases "Suc i = channelCount C")
    case False
    with all have "(\<forall>ch \<in> set (channels ?C1). is_reg ch) = False" by simp
    then have "recv_register E i (pad (reg_ack (sessionId C0))) 8 C = Inr (?C1, [])"
      using s st by (simp only: recv_register_def reg_ack_accepted Let_def if_False sum.case bool.case simp_thms)
    then show ?thesis using x u g st False assms(2) by (auto simp: registering_def)
  next
    case True
    let ?C2 = "?C1\<lparr>state := CONF_OP_NEGOING, ice_sess := True\<rparr>"
    from True all have "\<forall>ch \<in> set (channels ?C1). is_reg ch" by simp
    moreover obtain eff where "start_nego E (?C1\<lparr>state := CONF_OP_REG_DONE\<rparr>) = (?C2, eff)"
      using start_nego_ok [OF assms(3), of "?C1\<lparr>state := CONF_OP_REG_DONE\<rparr>"] by auto
    ultimately have "\<exists>eff. recv_register E i (pad (reg_ack (sessionId C0))) 8 C = Inr (?C2, eff)"
      using s st by (simp add: recv_register_def reg_ack_accepted Let_def set_state_def)
    moreover have "unrelayed C0 ?C2" using u by (simp add: unrelayed_def same_conf_def conf_ok_def relayed_def)
    ultimately show ?thesis using x g True by (auto simp: registering_def)
  qed
qed

text \<open>A side right after its creation.\<close>

definition ready :: "ice_role \<Rightarrow> confice \<Rightarrow> bool" where
  "ready r C \<longleftrightarrow> fresh_conf r C \<and> reg_send_count C = 0 \<and> final_result C = 0 \<and> \<not> sel_relay_kicked C
     \<and> (\<forall>ch \<in> set (channels C). \<not> is_reg ch)"

lemma kick_registers:
  assumes "ready r C"
  shows "\<exists>C' eff. conf_exec (KickReg E) C = Inr (C', eff) \<and> registering C 0 C'"
proof -
  let ?f = "\<lambda>i ch. case make_reg_pkt (sessionId C) (confId C) (rcode C) (of_int (channelId ch)) (pkt_common ch) of
      Inl e \<Rightarrow> Inl e | Inr (buf, n) \<Rightarrow> Inr (ch\<lparr>pkt_common := buf, pkt_common_len := n\<rparr>, Sendto i (take n buf))"
  have C: "conf_ok C" "state C = CONF_OP_NONE" "reg_send_count C = 0" "channels C \<noteq> []"
    using assms by (simp_all add: ready_def fresh_conf_def)
  have "send_reg E C \<noteq> Inl e" for e using send_reg_safe [OF C(1)] C(2) by (auto simp: conf_order)
  then obtain C' eff where s: "send_reg E C = Inr (C', eff)" by (cases "send_reg E C") auto
  obtain chs where e: "each_channel ?f 0 (channels C) = Inr (chs, eff)"
    and C': "C' = C\<lparr>channels := chs, reg_send_time := now_ms E, state := CONF_OP_REGING, reg_send_count := 1\<rparr>"
    using s C(3) by (auto simp: send_reg_def Let_def split: sum.splits if_splits)
  have n: "length chs = channelCount C" "\<forall>k < channelCount C. ?f (0 + k) (channels C ! k) = Inr (chs ! k, eff ! k)"
    using each_channel_nth [OF e] by auto
  have "is_reg ch' = is_reg ch" if "?f k ch = Inr (ch', x)" for k ch ch' x
    using that by (auto split: sum.splits)
  with n(2) have "is_reg (chs ! k) = is_reg (channels C ! k)" if "k < channelCount C" for k
    using that by blast
  then have reg: "\<forall>k < channelCount C. \<not> is_reg (chs ! k)" using assms by (simp add: ready_def)
  have a: "advances C eff C'" using s C(2) by (intro send_reg_advances) simp_all
  then have sc: "same_conf C C'" by (simp add: advances_def)
  have "\<forall>i < channelCount C'. \<not> relayed C' ! i"
    using send_reg_relayed [OF s] assms n(1) by (simp add: relayed_nth ready_def fresh_conf_def C')
  moreover have "\<not> sel_relay_done C' \<and> final_result C' = 0 \<and> \<not> sel_relay_kicked C'"
    using assms by (simp add: C' ready_def fresh_conf_def)
  ultimately have "unrelayed C C'" using sc conf_ok_same [OF C(1) sc] by (simp add: unrelayed_def)
  then have "registering C 0 C'" using reg C(4) n(1) by (auto simp: registering_def C')
  moreover have "conf_exec (KickReg E) C = Inr (C', eff)" using s C(2) by (simp add: confice_kickoff_reg_def conf_order)
  ultimately show ?thesis by blast
qed

lemma throw_bind_Inr: "throw_bind a f = Inr y \<longleftrightarrow> (\<exists>x. a = Inr x \<and> f x = Inr y)"
  by (cases a) simp_all

lemma new_channels_fresh:
  assumes "new_channels i ids socks = Inr chs"
  shows "length chs = length ids \<and> (\<forall>k < length chs. \<exists>chid s. chs ! k = new_channel (i + k) chid s)"
  using assms
proof (induction i ids socks arbitrary: chs rule: new_channels.induct)
  case (4 i chid ids s socks)
  then obtain chs' where c: "new_channels (Suc i) ids socks = Inr chs'" "chs = new_channel i chid s # chs'"
    by (cases "new_channels (Suc i) ids socks") auto
  have "\<exists>chid s. chs ! k = new_channel (i + k) chid s" if "k < length chs" for k
  proof (cases k)
    case 0
    then show ?thesis using c(2) by (intro exI [of _ chid] exI [of _ s]) simp
  next
    case (Suc j)
    then show ?thesis using 4(1) [OF c(1)] c(2) that by simp
  qed
  then show ?case using 4(1) [OF c(1)] c(2) by simp
qed simp_all

lemma new_ready:
  assumes "confice_new L config ans af rl creds socks = Inr (Inr (C, eff))"
  shows "ready rl C \<and> timeout_ms C = 4000 \<and> eff = [TimerScheduled]"
proof -
  obtain ids where n: "new_channels 0 ids socks = Inr (channels C)" "length ids = 1 \<or> length ids = 2"
    and f: "role C = rl" "state C = CONF_OP_NONE" "\<not> sel_relay_done C" "reg_send_count C = 0" "final_result C = 0"
      "\<not> sel_relay_kicked C" "timeout_ms C = 4000" "eff = [TimerScheduled]"
    using assms unfolding confice_new_def throw_bind_Inr
    by (fastforce simp: throw_bind_Inr map_sum_Inr case_prod_unfold Let_def CICE_DEFAULT_TIMEOUT_MS_def split: sum.split_asm if_split_asm)
  have c: "\<exists>chid s. channels C ! k = new_channel k chid s" if "k < channelCount C" for k
    using new_channels_fresh [OF n(1)] that by simp
  have l: "channels C \<noteq> []" "channelCount C \<le> 2" using new_channels_fresh [OF n(1)] n(2) by auto
  have g: "comp_id (channels C ! k) = of_nat (Suc k) \<and> length (pkt_common (channels C ! k)) = 1024
      \<and> length (pkt_ice (channels C ! k)) = 2048 \<and> \<not> is_reg (channels C ! k) \<and> \<not> is_relay_done (channels C ! k)"
    if "k < channelCount C" for k
    using c [OF that] by (auto simp: new_channel_def)
  then have "\<forall>ch \<in> set (channels C). \<not> is_reg ch \<and> \<not> is_relay_done ch" by (metis in_set_conv_nth)
  then show ?thesis using f g l by (simp add: ready_def fresh_conf_def conf_ok_def)
qed


definition sample_config :: Value where
  "sample_config = value_of_members
     [(''conferenceId'', stringValue ''c''), (''serverIp'', stringValue ''s''), (''rcode'', stringValue ''r''),
      (''serverPort'', intValue 5000), (''sessionId'', intValue 77), (''channelId'', intValue 7)]"


text \<open>The start of both sides: registration, its acknowledgements, and the end of the connectivity check.\<close>

definition bring_up :: "conf_env \<Rightarrow> nat \<Rightarrow> u32 \<Rightarrow> conf_event list" where
  "bring_up E n s = KickReg E # map (\<lambda>i. deliver E i (reg_ack s)) [0 ..< n] @ [IceComplete E 0]"

lemma conf_run_append:
  assumes "conf_run xs C = Inr (C1, e1)"
  shows "conf_run (xs @ ys) C = (case conf_run ys C1 of Inl e \<Rightarrow> Inl e | Inr (C2, e2) \<Rightarrow> Inr (C2, e1 @ e2))"
  using assms
proof (induction xs arbitrary: C e1)
  case (Cons x xs)
  then show ?case by (auto split: sum.splits)
qed (simp split: sum.splits)

lemma brought_up:
  assumes "ready r C" "nath_ok E"
  shows "\<exists>C' eff. conf_run (bring_up E (channelCount C) (sessionId C)) C = Inr (C', eff)
    \<and> unrelayed C C' \<and> state C' = CONF_OP_NEGO_DONE"
proof -
  obtain C1 e1 where k: "conf_exec (KickReg E) C = Inr (C1, e1)" "registering C 0 C1" using kick_registers [OF assms(1)] by blast
  have "\<exists>C' eff. conf_run (map (\<lambda>i. deliver E i (reg_ack (sessionId C))) [0 ..< channelCount C]) C1 = Inr (C', eff)
      \<and> registering C (channelCount C) C' \<and> (\<forall>i < channelCount C. \<exists>e. True \<and> set e \<subseteq> set eff)"
  proof (rule run_channels [where P = "registering C"])
    fix i D
    assume i: "i < channelCount C" "registering C i D"
    then have "i < channelCount D" by (metis registering_def unrelayed_chans)
    from register_one [OF i(2) this assms(2)]
    show "\<exists>C' eff. conf_exec (deliver E i (reg_ack (sessionId C))) D = Inr (C', eff) \<and> registering C (Suc i) C' \<and> True" by simp
  qed (rule k(2))
  then obtain C2 e2 where r: "conf_run (map (\<lambda>i. deliver E i (reg_ack (sessionId C))) [0 ..< channelCount C]) C1 = Inr (C2, e2)"
    "registering C (channelCount C) C2" by blast
  let ?C3 = "C2\<lparr>state := CONF_OP_NEGO_DONE\<rparr>"
  have u: "unrelayed C C2" and st: "state C2 = CONF_OP_NEGOING"
    using r(2) unrelayed_chans by (auto simp: registering_def)
  then have "conf_exec (IceComplete E 0) C2 = Inr (?C3, [OnComplete CONF_OP_NEGO_DONE 0])"
    by (simp add: on_ccc_ice_complete_def set_state_def check_for_select_relay_def unrelayed_def conf_order)
  moreover have "unrelayed C ?C3" using u by (simp add: unrelayed_def same_conf_def conf_ok_def relayed_def)
  ultimately show ?thesis using k(1) r(1) by (simp add: bring_up_def conf_run_append [OF r(1)])
qed

section \<open>Selection\<close>

text \<open>
  A side in the selection: the first \<open>k\<close> channels are relayed, \<open>T\<close> are the transaction ids, and
  with the last channel it ends.
\<close>

definition relaying :: "confice_op \<Rightarrow> (nat \<Rightarrow> u32) \<Rightarrow> confice \<Rightarrow> nat \<Rightarrow> confice \<Rightarrow> bool" where
  "relaying st T C0 k C \<longleftrightarrow> same_conf C0 C \<and> conf_ok C
     \<and> (\<forall>i < channelCount C. (relayed C ! i \<longleftrightarrow> i < k) \<and> tsx_id (channels C ! i) = T i)
     \<and> (sel_relay_done C \<longrightarrow> channelCount C \<le> k) \<and> final_result C = 0
     \<and> state C = (if k < channelCount C then st else CONF_OP_FINAL)"

lemma relaying_chans: "relaying st T C0 k C \<Longrightarrow> channelCount C = channelCount C0 \<and> sessionId C = sessionId C0 \<and> role C = role C0"
  by (auto simp: relaying_def same_conf_def dest: chs_keep_length)

lemma relaying_now:
  "relaying st T C0 k C \<Longrightarrow> k < channelCount C \<Longrightarrow> conf_ok C \<and> state C = st \<and> tsx_id (channels C ! k) = T k"
  by (simp add: relaying_def)

lemma all_done_relayed: "(\<forall>ch \<in> set (channels C). is_relay_done ch) \<longleftrightarrow> (\<forall>i < channelCount C. relayed C ! i)"
  by (auto simp: all_set_conv_all_nth relayed_nth)

text \<open>One more channel, by whichever message: the last step of both receivers.\<close>

lemma relaying_step:
  assumes "relaying st T C0 i C" "i < channelCount C" "st \<noteq> CONF_OP_FINAL"
    and D: "same_conf C D" "relayed D = (relayed C)[i := True]" "sel_relay_done D = sel_relay_done C"
      "final_result D = final_result C" "state D = state C" "\<forall>j < channelCount C. tsx_id (channels D ! j) = tsx_id (channels C ! j)"
  shows "relaying st T C0 (Suc i) (fst (check_for_select_relay_done D))"
proof -
  have n: "channelCount D = channelCount C" using D(1) chs_keep_length by (auto simp: same_conf_def)
  have g: "\<forall>j < channelCount C. relayed D ! j \<longleftrightarrow> j < Suc i"
    using assms(1,2) D(2) by (auto simp: relaying_def nth_list_update less_Suc_eq)
  have sc: "same_conf C0 D" using assms(1) D(1) by (auto simp: relaying_def intro: same_conf_trans)
  have ok: "conf_ok D" using assms(1) D(1) by (auto simp: relaying_def intro: conf_ok_same)
  have st: "state D = st" "\<not> sel_relay_done D" "final_result D = 0" using assms(1,2) D(3,4,5) by (auto simp: relaying_def)
  have t: "\<forall>j < channelCount C. tsx_id (channels D ! j) = T j" using assms(1) D(6) by (simp add: relaying_def)
  show ?thesis
  proof (cases "Suc i = channelCount C")
    case False
    then have "\<not> relayed D ! Suc i" "Suc i < channelCount C" using g assms(2) by auto
    then have "(\<forall>ch \<in> set (channels D). is_relay_done ch) = False" using n by (auto simp: all_done_relayed)
    then have "fst (check_for_select_relay_done D) = D\<lparr>sel_relay_done := False\<rparr>"
      using st by (simp only: check_for_select_relay_done_def if_False fst_conv simp_thms)
    then show ?thesis using sc ok st g t n False assms(2) by (auto simp: relaying_def same_conf_def conf_ok_def)
  next
    case True
    then have "\<forall>ch \<in> set (channels D). is_relay_done ch" using g n by (auto simp: all_done_relayed)
    then have "fst (check_for_select_relay_done D)
        = D\<lparr>sel_relay_done := True, final_result := 0, state := CONF_OP_FINAL\<rparr>"
      using st assms(3) by (simp add: check_for_select_relay_done_def set_final_eq)
    then show ?thesis using sc ok st g t n True by (auto simp: relaying_def same_conf_def conf_ok_def)
  qed
qed

lemma header_msg:
  assumes "msg = with_checksum (build_msg_header s (of_nat (Suc i)) m t 0)"
  shows "length (pad msg) = 2048" "pad msg ! 0 = PKT_TYPE_MSG" "pad msg ! Suc 0 = m" "be_get_u32 2 (pad msg) = s"
    "be_get_u32 6 (pad msg) = of_nat (Suc i)" "be_get_u32 10 (pad msg) = t"
    "verify_checksum (pad msg) 19 = Inr True" "length msg = 19" "pad msg \<noteq> []"
    "take 18 (pad msg) = build_msg_header s (of_nat (Suc i)) m t 0"
  using pad_with_checksum [of "build_msg_header s (of_nat (Suc i)) m t 0"] unfolding assms
  by (simp_all add: pad_header)

lemma comp_in_range:
  assumes "conf_ok C" "i < channelCount C"
  shows "comp_id (channels C ! i) = of_nat (Suc i)" "\<not> bad_comp (of_nat (Suc i)) C"
proof -
  show "comp_id (channels C ! i) = of_nat (Suc i)" using assms by (simp add: conf_ok_def)
  have "Suc i < 4294967296" using assms by (simp add: conf_ok_def)
  then have "unat (of_nat (Suc i) :: u32) = Suc i" by (rule unat_of_nat_u32)
  then show "\<not> bad_comp (of_nat (Suc i)) C" using assms(2) unfolding bad_comp_def by (metis Suc_leI nat.distinct(1) not_le unat_0)
qed

lemma deliver_msg:
  assumes "msg = with_checksum (build_msg_header (sessionId C) (of_nat (Suc i)) m t 0)" "conf_ok C" "i < channelCount C"
  shows "m = MSG_TYPE_SELECT_RELAY \<Longrightarrow>
      conf_exec (deliver E i msg) C = recv_select_relay i (pad msg) 19 (of_nat (Suc i)) C"
    and "m = MSG_TYPE_SELECT_RELAY_ACK \<Longrightarrow>
      conf_exec (deliver E i msg) C = recv_select_relay_ack i (pad msg) 19 (of_nat (Suc i)) t C"
proof -
  note h = header_msg [OF assms(1)]
  have "conf_exec (deliver E i msg) C = on_data_recvfrom E i (Some (pad msg)) 19 C"
    using assms(3) h(8) by (simp add: deliver_def)
  also have "\<dots> = recv_msg i (pad msg) 19 C"
    using h(2,9) by (simp add: on_data_recvfrom_def packet_types)
  finally have x: "conf_exec (deliver E i msg) C = recv_msg i (pad msg) 19 C" .
  have l: "(length (pad msg) < 18) = False" using h(1) by simp
  have c: "comp_id (channels C ! i) = of_nat (Suc i)" using assms(2,3) by (rule comp_in_range)
  show "m = MSG_TYPE_SELECT_RELAY \<Longrightarrow>
      conf_exec (deliver E i msg) C = recv_select_relay i (pad msg) 19 (of_nat (Suc i)) C"
    unfolding x recv_msg_def Let_def l One_nat_def h(3-6) c by (simp add: packet_types)
  show "m = MSG_TYPE_SELECT_RELAY_ACK \<Longrightarrow>
      conf_exec (deliver E i msg) C = recv_select_relay_ack i (pad msg) 19 (of_nat (Suc i)) t C"
    unfolding x recv_msg_def Let_def l One_nat_def h(3-6) c by (simp add: packet_types)
qed

lemma ack_one:
  assumes "relaying CONF_OP_SELECTING T C0 i C" "i < channelCount C" "role C0 = CONTROLLING"
  shows "\<exists>C' eff. conf_exec (deliver E i (ack_pkt (sessionId C0) i (T i))) C = Inr (C', eff)
    \<and> relaying CONF_OP_SELECTING T C0 (Suc i) C'"
proof -
  let ?m = "ack_pkt (sessionId C0) i (T i)"
  note h = header_msg [OF ack_pkt_def [of "sessionId C0" i "T i"]]
  have C: "sessionId C = sessionId C0" "role C = CONTROLLING" "conf_ok C" "state C = CONF_OP_SELECTING" "tsx_id (channels C ! i) = T i"
    using relaying_chans [OF assms(1)] assms(3) relaying_now [OF assms(1,2)] by metis+
  have "conf_exec (deliver E i ?m) C = recv_select_relay_ack i (pad ?m) 19 (of_nat (Suc i)) (T i) C"
    by (rule deliver_msg(2) [OF _ C(3) assms(2) refl]) (simp add: ack_pkt_def C(1))
  also have "\<dots> = Inr (check_for_select_relay_done (relay_done i C))"
    unfolding recv_select_relay_ack_def h(7) using C comp_in_range(2) [OF C(3) assms(2)] by simp
  finally have "conf_exec (deliver E i ?m) C = Inr (check_for_select_relay_done (relay_done i C))" .
  moreover have "relaying CONF_OP_SELECTING T C0 (Suc i) (fst (check_for_select_relay_done (relay_done i C)))"
    by (rule relaying_step [OF assms(1,2) _ same_conf_relay_done relayed_relay_done])
      (simp_all add: relay_done_def nth_list_update assms(2))
  ultimately show ?thesis by (metis prod.collapse)
qed

lemma send_ack_header:
  assumes "take 18 buf = build_msg_header s c MSG_TYPE_SELECT_RELAY t 0" "length (pkt_common ch) = 1024"
  shows "\<exists>b. send_ack i buf 19 ch = Inr (ch\<lparr>pkt_common := b, pkt_common_len := 19\<rparr>,
      Sendto i (with_checksum (build_msg_header s c MSG_TYPE_SELECT_RELAY_ACK t 0))) \<and> length b = 1024"
proof -
  let ?h = "build_msg_header s c MSG_TYPE_SELECT_RELAY_ACK t 0" and ?r = "drop 18 (pkt_common ch)"
  have "(build_msg_header s c MSG_TYPE_SELECT_RELAY t 0)[1 := MSG_TYPE_SELECT_RELAY_ACK] = ?h" by (simp add: build_msg_header_def)
  then have p: "(put_at 0 (take 18 buf) (pkt_common ch))[1 := MSG_TYPE_SELECT_RELAY_ACK] = ?h @ ?r"
    unfolding assms(1) by (simp add: put_at_def list_update_append)
  have k: "calc_checksum (?h @ ?r) 18 = calc_checksum ?h 18" using checksum_snoc [of ?h ?r] by simp
  have "?r \<noteq> []" using assms(2) by simp
  then have "take 19 ((?h @ ?r)[18 := calc_checksum ?h 18]) = with_checksum ?h"
    by (cases ?r) (simp_all add: list_update_append with_checksum_def)
  then show ?thesis using assms(2) p k
    by (intro exI [of _ "(?h @ ?r)[18 := calc_checksum ?h 18]"]) (simp add: send_ack_def Let_def)
qed

lemma select_one:
  assumes "relaying CONF_OP_NEGO_DONE T C0 i C" "i < channelCount C" "role C0 = CONTROLLED"
  shows "\<exists>C' eff. conf_exec (deliver E i (sel_pkt (sessionId C0) i t)) C = Inr (C', eff)
    \<and> relaying CONF_OP_NEGO_DONE T C0 (Suc i) C' \<and> Sendto i (ack_pkt (sessionId C0) i t) \<in> set eff"
proof -
  let ?m = "sel_pkt (sessionId C0) i t" and ?D = "relay_done i C"
  note h = header_msg [OF sel_pkt_def [of "sessionId C0" i t]]
  have C: "sessionId C = sessionId C0" "role C = CONTROLLED" "conf_ok C" "state C = CONF_OP_NEGO_DONE"
    using relaying_chans [OF assms(1)] assms(3) relaying_now [OF assms(1,2)] by metis+
  have l: "length (pkt_common (channels ?D ! i)) = 1024" using C(3) assms(2) by (simp add: relay_done_def conf_ok_def)
  obtain b where b: "send_ack i (pad ?m) 19 (channels ?D ! i) = Inr ((channels ?D ! i)\<lparr>pkt_common := b, pkt_common_len := 19\<rparr>,
      Sendto i (ack_pkt (sessionId C0) i t))" "length b = 1024"
    using send_ack_header [OF h(10) l] unfolding ack_pkt_def by blast
  let ?ch = "(channels ?D ! i)\<lparr>pkt_common := b, pkt_common_len := 19\<rparr>"
  let ?D1 = "?D\<lparr>channels := (channels ?D)[i := ?ch]\<rparr>"
  have x: "conf_exec (deliver E i ?m) C = Inr (fst (check_for_select_relay_done ?D1),
      Sendto i (ack_pkt (sessionId C0) i t) # snd (check_for_select_relay_done ?D1))"
  proof -
    have "conf_exec (deliver E i ?m) C = recv_select_relay i (pad ?m) 19 (of_nat (Suc i)) C"
      by (rule deliver_msg(1) [OF _ C(3) assms(2) refl]) (simp add: sel_pkt_def C(1))
    also have "\<dots> = Inr (fst (check_for_select_relay_done ?D1),
      Sendto i (ack_pkt (sessionId C0) i t) # snd (check_for_select_relay_done ?D1))"
      unfolding recv_select_relay_def h(7) Let_def b(1) using C comp_in_range(2) [OF C(3) assms(2)]
      by (simp add: case_prod_unfold)
    finally show ?thesis .
  qed
  have sc: "same_conf C ?D1"
    using b(2) l by (intro same_conf_trans [OF same_conf_relay_done same_conf_put]) (simp add: ch_keeps_def)
  have "relayed ?D1 = relayed ?D" by (rule relayed_same) simp
  then have rd: "relayed ?D1 = (relayed C)[i := True]" by (simp add: relayed_relay_done)
  have "relaying CONF_OP_NEGO_DONE T C0 (Suc i) (fst (check_for_select_relay_done ?D1))"
    by (rule relaying_step [OF assms(1,2) _ sc rd]) (simp_all add: relay_done_def nth_list_update assms(2))
  then show ?thesis using x by auto
qed

text \<open>The caller asks for the relay.\<close>

lemma kick_selects:
  assumes "unrelayed C0 C" "state C = CONF_OP_NEGO_DONE" "role C = CONTROLLING" "channels C \<noteq> []"
  shows "\<exists>C' eff. conf_exec (KickSelect E) C = Inr (C', eff) \<and> relaying CONF_OP_SELECTING (generate_u32 E) C0 0 C'
    \<and> (\<forall>i < channelCount C. Sendto i (sel_pkt (sessionId C) i (generate_u32 E i)) \<in> set eff)"
proof -
  let ?D = "C\<lparr>sel_relay_kicked := True\<rparr>"
  let ?f = "\<lambda>i ch. let t = generate_u32 E i
      in send_common i (build_msg_header (sessionId C) (comp_id ch) MSG_TYPE_SELECT_RELAY t 0) (ch\<lparr>tsx_id := t\<rparr>)"
  have ok: "conf_ok C" using assms(1) by (simp add: unrelayed_def)
  then have "conf_ok ?D" by (simp add: conf_ok_def)
  then obtain C' eff where s: "check_for_select_relay E ?D = Inr (C', eff)"
    using check_for_select_relay_safe by (cases "check_for_select_relay E ?D") auto
  obtain chs where e: "each_channel ?f 0 (channels C) = Inr (chs, eff)"
    and C': "C' = ?D\<lparr>channels := chs, sel_relay_send_time := now_ms E, state := CONF_OP_SELECTING\<rparr>"
    using s assms(2,3) by (auto simp: check_for_select_relay_def split: sum.splits if_splits)
  have n: "length chs = channelCount C" "length eff = channelCount C"
    "\<forall>k < channelCount C. ?f (0 + k) (channels C ! k) = Inr (chs ! k, eff ! k)"
    using each_channel_nth [OF e] by auto
  have one: "tsx_id ch' = generate_u32 E k \<and> x = Sendto k (with_checksum (build_msg_header (sessionId C) (comp_id ch) MSG_TYPE_SELECT_RELAY (generate_u32 E k) 0))"
    if "?f k ch = Inr (ch', x)" for k ch ch' x
    using that by (auto simp: Let_def send_common_def dest: write_packet_length split: sum.splits)
  have t: "tsx_id (chs ! k) = generate_u32 E k" "eff ! k = Sendto k (sel_pkt (sessionId C) k (generate_u32 E k))"
    if "k < channelCount C" for k
    using one [OF n(3) [rule_format, OF that]] comp_in_range(1) [OF ok that] by (simp_all add: sel_pkt_def)
  have "advances ?D eff C'" using s by (rule check_for_select_relay_advances)
  then have "same_conf ?D C'" by (simp add: advances_def)
  then have sc: "same_conf C C'" by (simp add: same_conf_def)
  have "\<forall>i < channelCount C. \<not> relayed C' ! i"
    using check_for_select_relay_relayed [OF s] assms(1) by (simp add: unrelayed_def)
  then have "relaying CONF_OP_SELECTING (generate_u32 E) C0 0 C'"
    using assms(1,4) sc t(1) n(1) conf_ok_same [OF ok sc]
    by (auto simp: relaying_def unrelayed_def C' intro: same_conf_trans)
  moreover have "conf_exec (KickSelect E) C = Inr (C', eff)"
    using s assms(2) by (simp add: confice_kickoff_select_relay_def conf_order)
  moreover have "Sendto i (sel_pkt (sessionId C) i (generate_u32 E i)) \<in> set eff" if "i < channelCount C" for i
    using t(2) [OF that] n(2) that nth_mem [of i eff] by simp
  ultimately show ?thesis by blast
qed

lemma relaying_start:
  assumes "unrelayed C0 C" "state C = st" "channels C \<noteq> []"
  shows "relaying st (\<lambda>i. tsx_id (channels C ! i)) C0 0 C"
  using assms by (simp add: unrelayed_def relaying_def)

section \<open>Completion\<close>

definition deliver_all :: "conf_env \<Rightarrow> (nat \<Rightarrow> byte list) \<Rightarrow> nat \<Rightarrow> conf_event list" where
  "deliver_all E msgs n = map (\<lambda>i. deliver E i (msgs i)) [0 ..< n]"

abbreviation selection :: "conf_env \<Rightarrow> confice \<Rightarrow> nat \<Rightarrow> byte list" where
  "selection E C i \<equiv> sel_pkt (sessionId C) i (generate_u32 E i)"

abbreviation answer :: "conf_env \<Rightarrow> confice \<Rightarrow> nat \<Rightarrow> byte list" where
  "answer E C i \<equiv> ack_pkt (sessionId C) i (generate_u32 E i)"

lemma ready_chans: "ready r C \<Longrightarrow> channels C \<noteq> [] \<and> role C = r"
  by (simp add: ready_def fresh_conf_def)

lemma unrelayed_same: "unrelayed C C1 \<Longrightarrow> ready r C \<Longrightarrow> channels C1 \<noteq> [] \<and> role C1 = r \<and> sessionId C1 = sessionId C \<and> channelCount C1 = channelCount C"
  using unrelayed_chans ready_chans by (metis length_0_conv)

lemma caller_completes:
  assumes "ready CONTROLLING A" "nath_ok E"
  shows "\<exists>A1 eff1 A2 eff2. conf_run (bring_up E (channelCount A) (sessionId A) @ [KickSelect E]) A = Inr (A1, eff1)
    \<and> (\<forall>i < channelCount A. Sendto i (selection E A i) \<in> set eff1)
    \<and> conf_run (deliver_all E (answer E A) (channelCount A)) A1 = Inr (A2, eff2)
    \<and> state A2 = CONF_OP_FINAL \<and> final_result A2 = 0"
proof -
  obtain A0 e0 where u: "conf_run (bring_up E (channelCount A) (sessionId A)) A = Inr (A0, e0)" "unrelayed A A0" "state A0 = CONF_OP_NEGO_DONE"
    using brought_up [OF assms] by blast
  note c = unrelayed_same [OF u(2) assms(1)]
  obtain A1 e1 where k: "conf_exec (KickSelect E) A0 = Inr (A1, e1)" "relaying CONF_OP_SELECTING (generate_u32 E) A 0 A1"
    "\<forall>i < channelCount A. Sendto i (selection E A i) \<in> set e1"
    using kick_selects [OF u(2,3), of E] c by auto
  have "\<exists>A2 e2. conf_run (map (\<lambda>i. deliver E i (answer E A i)) [0 ..< channelCount A]) A1 = Inr (A2, e2)
      \<and> relaying CONF_OP_SELECTING (generate_u32 E) A (channelCount A) A2 \<and> (\<forall>i < channelCount A. \<exists>e. True \<and> set e \<subseteq> set e2)"
  proof (rule run_channels [where P = "relaying CONF_OP_SELECTING (generate_u32 E) A"])
    fix i D
    assume i: "i < channelCount A" "relaying CONF_OP_SELECTING (generate_u32 E) A i D"
    then have "i < channelCount D" by (metis relaying_chans)
    from ack_one [OF i(2) this, of E] ready_chans [OF assms(1)]
    show "\<exists>C' eff. conf_exec (deliver E i (answer E A i)) D = Inr (C', eff)
        \<and> relaying CONF_OP_SELECTING (generate_u32 E) A (Suc i) C' \<and> True" by simp
  qed (rule k(2))
  then obtain A2 e2 where r: "conf_run (deliver_all E (answer E A) (channelCount A)) A1 = Inr (A2, e2)"
    "relaying CONF_OP_SELECTING (generate_u32 E) A (channelCount A) A2" unfolding deliver_all_def by blast
  have "state A2 = CONF_OP_FINAL" "final_result A2 = 0"
    using r(2) relaying_chans [OF r(2)] by (simp_all add: relaying_def)
  moreover have "conf_run (bring_up E (channelCount A) (sessionId A) @ [KickSelect E]) A = Inr (A1, e0 @ e1)"
    using k(1) by (simp add: conf_run_append [OF u(1)])
  ultimately show ?thesis using k(3) r(1) by fastforce
qed

lemma callee_completes:
  assumes "ready CONTROLLED B" "nath_ok E"
  shows "\<exists>B' eff. conf_run (bring_up E (channelCount B) (sessionId B) @ deliver_all E (selection E B) (channelCount B)) B = Inr (B', eff)
    \<and> (\<forall>i < channelCount B. Sendto i (answer E B i) \<in> set eff) \<and> state B' = CONF_OP_FINAL \<and> final_result B' = 0"
proof -
  obtain B0 e0 where u: "conf_run (bring_up E (channelCount B) (sessionId B)) B = Inr (B0, e0)" "unrelayed B B0" "state B0 = CONF_OP_NEGO_DONE"
    using brought_up [OF assms] by blast
  let ?T = "\<lambda>i. tsx_id (channels B0 ! i)"
  have st: "relaying CONF_OP_NEGO_DONE ?T B 0 B0" using relaying_start [OF u(2,3)] unrelayed_same [OF u(2) assms(1)] by simp
  have "\<exists>B2 e2. conf_run (map (\<lambda>i. deliver E i (selection E B i)) [0 ..< channelCount B]) B0 = Inr (B2, e2)
      \<and> relaying CONF_OP_NEGO_DONE ?T B (channelCount B) B2
      \<and> (\<forall>i < channelCount B. \<exists>e. Sendto i (answer E B i) \<in> set e \<and> set e \<subseteq> set e2)"
  proof (rule run_channels [where P = "relaying CONF_OP_NEGO_DONE ?T B"])
    fix i D
    assume i: "i < channelCount B" "relaying CONF_OP_NEGO_DONE ?T B i D"
    then have "i < channelCount D" by (metis relaying_chans)
    from select_one [OF i(2) this] ready_chans [OF assms(1)]
    show "\<exists>C' eff. conf_exec (deliver E i (selection E B i)) D = Inr (C', eff)
        \<and> relaying CONF_OP_NEGO_DONE ?T B (Suc i) C' \<and> Sendto i (answer E B i) \<in> set eff" by simp
  qed (rule st)
  then obtain B2 e2 where r: "conf_run (deliver_all E (selection E B) (channelCount B)) B0 = Inr (B2, e2)"
    "relaying CONF_OP_NEGO_DONE ?T B (channelCount B) B2" "\<forall>i < channelCount B. Sendto i (answer E B i) \<in> set e2"
    unfolding deliver_all_def by blast
  have "state B2 = CONF_OP_FINAL" "final_result B2 = 0"
    using r(2) relaying_chans [OF r(2)] by (simp_all add: relaying_def)
  then show ?thesis using r(1,3) by (simp add: conf_run_append [OF u(1)])
qed

text \<open>
  C5: The relay protocol gets there. Two endpoints fresh from creation, with the same channels and
  session, a server that acknowledges every registration and a connectivity check that succeeds: the
  caller's request puts a selection on every channel, these make the callee answer on every
  channel and end with success, and the answers make the caller end with success.
\<close>
theorem relay_completes:
  assumes "ready CONTROLLING A" "ready CONTROLLED B" "channelCount B = channelCount A" "sessionId B = sessionId A"
    and "nath_ok E"
  shows "\<exists>A1 effA B' effB A' eff.
      conf_run (bring_up E (channelCount A) (sessionId A) @ [KickSelect E]) A = Inr (A1, effA)
    \<and> (\<forall>i < channelCount A. Sendto i (selection E A i) \<in> set effA)
    \<and> conf_run (bring_up E (channelCount A) (sessionId A) @ deliver_all E (selection E A) (channelCount A)) B = Inr (B', effB)
    \<and> (\<forall>i < channelCount A. Sendto i (answer E A i) \<in> set effB)
    \<and> conf_run (deliver_all E (answer E A) (channelCount A)) A1 = Inr (A', eff)
    \<and> state A' = CONF_OP_FINAL \<and> final_result A' = 0 \<and> state B' = CONF_OP_FINAL \<and> final_result B' = 0"
  using caller_completes [OF assms(1,5)] callee_completes [OF assms(2,5), unfolded assms(3,4)] by blast

lemma sample_ready: "ready r (sample_conf r CONF_OP_NONE)"
  unfolding ready_def fresh_conf_def using sample_conf_ok by (simp add: sample_conf_def sample_channel_def)

definition sample_conf_env :: conf_env where
  "sample_conf_env = \<lparr>now_ms = 10, tick = (\<lambda>i. 123), nath_status = (\<lambda>k. 0), lookup = (\<lambda>n. None)\<rparr>"

lemma sample_sides:
  "channelCount (sample_conf r st) = 1" "sessionId (sample_conf r st) = 77" "nath_ok sample_conf_env"
  by (simp_all add: sample_conf_def sample_conf_env_def nath_ok_def)

theorem relay_completes_witness:
  "\<exists>A1 eff A' eff'. conf_run (bring_up sample_conf_env 1 77 @ [KickSelect sample_conf_env]) (sample_conf CONTROLLING CONF_OP_NONE) = Inr (A1, eff)
    \<and> Sendto 0 (selection sample_conf_env (sample_conf CONTROLLING CONF_OP_NONE) 0) \<in> set eff
    \<and> conf_run (deliver_all sample_conf_env (answer sample_conf_env (sample_conf CONTROLLING CONF_OP_NONE)) 1) A1 = Inr (A', eff')
    \<and> state A' = CONF_OP_FINAL \<and> final_result A' = 0"
proof -
  obtain A1 eff A' eff' where "conf_run (bring_up sample_conf_env 1 77 @ [KickSelect sample_conf_env]) (sample_conf CONTROLLING CONF_OP_NONE) = Inr (A1, eff)"
    "\<forall>i < 1. Sendto i (selection sample_conf_env (sample_conf CONTROLLING CONF_OP_NONE) i) \<in> set eff"
    "conf_run (deliver_all sample_conf_env (answer sample_conf_env (sample_conf CONTROLLING CONF_OP_NONE)) 1) A1 = Inr (A', eff')"
    "state A' = CONF_OP_FINAL" "final_result A' = 0"
    using relay_completes [OF sample_ready [of CONTROLLING] sample_ready [of CONTROLLED] _ _ sample_sides(3)]
    unfolding sample_sides by blast
  then show ?thesis by (metis zero_less_one)
qed

section \<open>Both sides on one network\<close>

lemma pair_caller:
  assumes "pair_run A B net" "conf_run evs A = Inr (A', eff)" "\<forall>ev \<in> set evs. sane ev \<and> honest net ev"
  shows "pair_run A' B net"
  using assms
proof (induction evs arbitrary: A eff)
  case (Cons ev evs)
  then obtain A1 e1 e2 where x: "conf_exec ev A = Inr (A1, e1)" "conf_run evs A1 = Inr (A', e2)" by (auto split: sum.splits)
  have "pair_run A1 B net" using Cons.prems(1,3) x(1) by (auto intro: pair_run.caller)
  with Cons.IH x(2) Cons.prems(3) show ?case by simp
qed simp

lemma pair_callee:
  assumes "pair_run A B net" "conf_run evs B = Inr (B', eff)" "\<forall>ev \<in> set evs. sane ev"
  shows "pair_run A B' (net \<union> {(i, m). Sendto i m \<in> set eff})"
  using assms
proof (induction evs arbitrary: B eff net)
  case (Cons ev evs)
  then obtain B1 e1 e2 where x: "conf_exec ev B = Inr (B1, e1)" "conf_run evs B1 = Inr (B', e2)" "eff = e1 @ e2"
    by (auto split: sum.splits)
  have "pair_run A B1 (net \<union> {(i, m). Sendto i m \<in> set e1})" using Cons.prems(1,3) x(1) by (auto intro: pair_run.callee)
  from Cons.IH [OF this x(2)] Cons.prems(3)
  have "pair_run A B' (net \<union> {(i, m). Sendto i m \<in> set e1} \<union> {(i, m). Sendto i m \<in> set e2})" by simp
  moreover have "net \<union> {(i, m). Sendto i m \<in> set e1} \<union> {(i, m). Sendto i m \<in> set e2} = net \<union> {(i, m). Sendto i m \<in> set eff}"
    using x(3) by auto
  ultimately show ?case by simp
qed simp

lemma honest_deliver: "length m \<le> 2048 \<Longrightarrow> looks_ack m \<longrightarrow> (i, m) \<in> net \<Longrightarrow> honest net (deliver E i m)"
  by (simp add: honest_def deliver_def)

lemma sane_bring_up: "\<forall>ev \<in> set (bring_up E n s @ [KickSelect E]). sane ev \<and> honest net ev"
proof -
  have "\<not> looks_ack (reg_ack s)" by (simp add: looks_ack_def reg_ack_def with_checksum_def packet_types)
  then have "honest net (deliver E i (reg_ack s))" for i by (intro honest_deliver) simp_all
  then show ?thesis by (auto simp: bring_up_def honest_def)
qed

text \<open>A run of the pair that ends with success.\<close>

lemma pair_completes:
  assumes "ready CONTROLLING A" "ready CONTROLLED B" "channelCount B = channelCount A" "sessionId B = sessionId A"
    and "nath_ok E"
  shows "\<exists>A' B' net. pair_run A' B' net \<and> state A' = CONF_OP_FINAL \<and> final_result A' = 0"
proof -
  let ?n = "channelCount A"
  obtain A1 e1 A2 e2 where a: "conf_run (bring_up E ?n (sessionId A) @ [KickSelect E]) A = Inr (A1, e1)"
    "conf_run (deliver_all E (answer E A) ?n) A1 = Inr (A2, e2)" "state A2 = CONF_OP_FINAL" "final_result A2 = 0"
    using caller_completes [OF assms(1,5)] by blast
  obtain B' eff where b: "conf_run (bring_up E ?n (sessionId A) @ deliver_all E (selection E A) ?n) B = Inr (B', eff)"
    "\<forall>i < ?n. Sendto i (answer E A i) \<in> set eff"
    using callee_completes [OF assms(2,5), unfolded assms(3,4)] by blast
  have "pair_run A B {}" using assms(1-3) by (intro pair_run.start) (simp_all add: ready_def)
  moreover have "\<forall>ev \<in> set (bring_up E ?n (sessionId A) @ deliver_all E (selection E A) ?n). sane ev"
  proof
    fix ev
    assume "ev \<in> set (bring_up E ?n (sessionId A) @ deliver_all E (selection E A) ?n)"
    then show "sane ev" using sane_bring_up [of E ?n "sessionId A" "{}"] by (auto simp: deliver_all_def)
  qed
  ultimately have "pair_run A B' ({} \<union> {(i, m). Sendto i m \<in> set eff})" using b(1) by (intro pair_callee)
  from pair_caller [OF this a(1)] sane_bring_up
  have "pair_run A1 B' ({} \<union> {(i, m). Sendto i m \<in> set eff})" by blast
  moreover have "\<forall>ev \<in> set (deliver_all E (answer E A) ?n). sane ev \<and> honest ({} \<union> {(i, m). Sendto i m \<in> set eff}) ev"
    using b(2) by (auto simp: deliver_all_def intro: honest_deliver)
  ultimately have "pair_run A2 B' ({} \<union> {(i, m). Sendto i m \<in> set eff})" using pair_caller a(2) by blast
  with a(3,4) show ?thesis by blast
qed


section \<open>The timer\<close>

text \<open>The wait of a registration or of a selection that has reached the timeout.\<close>

definition overdue :: "conf_env \<Rightarrow> confice \<Rightarrow> bool" where
  "overdue E C \<longleftrightarrow> state C = CONF_OP_REGING \<and> timeout_ms C \<le> pj_elapsed_msec (reg_send_time C) (now_ms E)
     \<or> state C = CONF_OP_SELECTING \<and> timeout_ms C \<le> pj_elapsed_msec (sel_relay_send_time C) (now_ms E)"

fun unwatched :: "confice_op \<Rightarrow> bool" where
  "unwatched CONF_OP_REGING = False"
| "unwatched CONF_OP_SELECTING = False"
| "unwatched CONF_OP_FINAL = False"
| "unwatched _ = True"

lemma timer_overdue:
  assumes "overdue E C"
  shows "timer_cb E C = Inr (C\<lparr>final_result := -1, state := CONF_OP_FINAL\<rparr>, [OnComplete CONF_OP_FINAL (-1)])"
proof (cases "state C = CONF_OP_REGING")
  case True
  then have "(pj_elapsed_msec (reg_send_time C) (now_ms E) < timeout_ms C) = False" using assms by (simp add: overdue_def not_less)
  then show ?thesis using True by (simp add: timer_cb_def timer_reging_def timer_selecting_def set_final_eq)
next
  case False
  then have "(pj_elapsed_msec (sel_relay_send_time C) (now_ms E) < timeout_ms C) = False" "state C = CONF_OP_SELECTING"
    using assms by (simp_all add: overdue_def not_less)
  then show ?thesis by (simp add: timer_cb_def timer_reging_def timer_selecting_def set_final_eq)
qed

lemma timer_unwatched: "unwatched (state C) \<Longrightarrow> timer_cb E C = Inr (C, [TimerScheduled])"
  by (cases "state C") (simp_all add: timer_cb_def timer_reging_def timer_selecting_def)

text \<open>
  C38: What the timer ends and what it does not. At the first tick at or after the timeout, a
  registration or a selection still waiting for its answers ends with failure, and that is reported.
  A connectivity check, and an endpoint that has done it and waits for the other side to select, are
  not watched: any number of ticks leaves them as they are.
\<close>
theorem timer_deadlines:
  "(overdue E C \<longrightarrow> (\<exists>C'. conf_exec (Timer E) C = Inr (C', [OnComplete CONF_OP_FINAL (-1)])
       \<and> state C' = CONF_OP_FINAL \<and> final_result C' = -1))
    \<and> (unwatched (state C) \<longrightarrow> conf_run (map Timer Es) C = Inr (C, replicate (length Es) TimerScheduled))"
proof -
  have "conf_run (map Timer Es) C = Inr (C, replicate (length Es) TimerScheduled)" if "unwatched (state C)"
    using timer_unwatched [OF that] by (induction Es) simp_all
  then show ?thesis using timer_overdue by auto
qed

theorem timer_deadlines_witness:
  "\<exists>C'. conf_exec (Timer (sample_conf_env\<lparr>now_ms := 4000\<rparr>)) (sample_conf CONTROLLED CONF_OP_REGING) = Inr (C', [OnComplete CONF_OP_FINAL (-1)])
    \<and> conf_run (map Timer [sample_conf_env, sample_conf_env]) (sample_conf CONTROLLED CONF_OP_NEGO_DONE)
      = Inr (sample_conf CONTROLLED CONF_OP_NEGO_DONE, [TimerScheduled, TimerScheduled])"
  using timer_deadlines [of "sample_conf_env\<lparr>now_ms := 4000\<rparr>" "sample_conf CONTROLLED CONF_OP_REGING"]
    timer_deadlines [of _ "sample_conf CONTROLLED CONF_OP_NEGO_DONE" "[sample_conf_env, sample_conf_env]"]
  by (auto simp: overdue_def pj_elapsed_msec_def sample_conf_def)

end
