(* ===== verification/EiceConfig.thy ===== *)
theory EiceConfig
  imports Confice
begin

text \<open>
  Configuration and descriptions of an ICE endpoint (\<open>eice.cpp\<close>): the JSON configuration, the
  candidates an endpoint describes itself with, and the reading of the description that comes from
  the other side. The reader and writer are those of the embedded jsoncpp.
\<close>

section \<open>Failures\<close>

text \<open>Nothing in \<open>eice.cpp\<close> catches an exception of the JSON library, so it is a result like a crash.\<close>

datatype eice_fail = Thrown string | Crash crash

type_synonym 'a eres = "eice_fail + 'a"

definition ebind :: "'a eres \<Rightarrow> ('a \<Rightarrow> 'b eres) \<Rightarrow> 'b eres" where
  "ebind m f = (case m of Inl e \<Rightarrow> Inl e | Inr x \<Rightarrow> f x)"

definition of_throws :: "'a throws \<Rightarrow> 'a eres" where
  "of_throws m = map_sum Thrown (\<lambda>x. x) m"

definition of_outcome :: "'a outcome \<Rightarrow> 'a eres" where
  "of_outcome m = map_sum Crash (\<lambda>x. x) m"

lemma ebind_simps [simp]: "ebind (Inl e) f = Inl e" "ebind (Inr x) f = f x"
  by (simp_all add: ebind_def)

lemma of_throws_simps [simp]: "of_throws (Inl e) = Inl (Thrown e)" "of_throws (Inr x) = Inr x"
  by (simp_all add: of_throws_def)

lemma of_outcome_simps [simp]: "of_outcome (Inl e) = Inl (Crash e)" "of_outcome (Inr x) = Inr x"
  by (simp_all add: of_outcome_def)

lemma ebind_Inr: "ebind m f = Inr y \<longleftrightarrow> (\<exists>x. m = Inr x \<and> f x = Inr y)"
  by (cases m) simp_all

section \<open>The libraries\<close>

text \<open>
  pjlib and pjnath are not part of the sources. \<open>sock_text\<close> is the printed address, nothing when
  there is none, and \<open>sock_port\<close> its port; \<open>comp_field\<close> is what the component field of a candidate
  holds of an \<open>int\<close>; \<open>cand_type_name\<close> is \<open>pj_ice_get_cand_type_name\<close>; \<open>max_stun\<close> is the length of the
  server arrays of \<open>stun_bind_cfg\<close>.
\<close>

datatype cand_type = CAND_HOST | CAND_SRFLX | CAND_RELAYED | CAND_OTHER

record pjlib =
  sock_text :: "sockaddr \<Rightarrow> string option"
  sock_port :: "sockaddr \<Rightarrow> int"
  comp_field :: "int \<Rightarrow> int"
  cand_type_name :: "cand_type \<Rightarrow> string"
  max_stun :: nat

record ice_cand =
  cand_comp :: int
  cand_kind :: cand_type
  foundation :: string
  cand_prio :: u32
  cand_addr :: sockaddr
  base_addr :: sockaddr
  rel_addr :: sockaddr

definition MAX_CANDIDATE_COUNT :: nat where "MAX_CANDIDATE_COUNT = 8"

definition get_ip_port_from_sockaddr :: "pjlib \<Rightarrow> sockaddr \<Rightarrow> string \<times> int" where
  "get_ip_port_from_sockaddr P addr =
     (case sock_text P addr of Some t \<Rightarrow> (t, sock_port P addr) | None \<Rightarrow> ([], 0))"

section \<open>Reading members with a default\<close>

definition json_get_string :: "clib \<Rightarrow> Value \<Rightarrow> string \<Rightarrow> string \<Rightarrow> string throws" where
  "json_get_string L request name default_value =
     throw_bind (vmember request name) (\<lambda>x.
       if isNull x then Inr default_value
       else if \<not> isString x then Inr default_value
       else asString (print_double L) x)"

definition json_get_int :: "Value \<Rightarrow> string \<Rightarrow> int \<Rightarrow> int throws" where
  "json_get_int request name default_value =
     throw_bind (vmember request name) (\<lambda>x.
       if isNull x then Inr default_value
       else if \<not> isUInt x then Inr default_value
       else asInt x)"

definition json_get_array :: "Value \<Rightarrow> string \<Rightarrow> Value \<Rightarrow> Value throws" where
  "json_get_array request name default_value =
     throw_bind (vmember request name) (\<lambda>x.
       if isNull x then Inr default_value
       else if \<not> isArray x then Inr default_value
       else Inr x)"

section \<open>Configuration\<close>

text \<open>\<open>bind_cfg\<close> are the servers in use, \<open>stun_serv_num\<close> is their number.\<close>

record eice_config =
  turn_host :: string
  turn_port :: int
  bind_cfg :: "(string \<times> int) list"
  comp_count :: int
  relay_ms :: Value
  relay_caller :: Value
  relay_callee :: Value
  turnAddrs :: Value

text \<open>
  \<open>parse_turn_config\<close> fills one entry per address, without looking at the length of the array; the
  second result is the array of addresses after the inserting \<open>operator[]\<close>.
\<close>

fun parse_turns :: "clib \<Rightarrow> nat \<Rightarrow> nat \<Rightarrow> nat \<Rightarrow> Value \<Rightarrow> ((string \<times> int) list \<times> Value) eres" where
  "parse_turns L maxn ui 0 addrs = Inr ([], addrs)"
| "parse_turns L maxn ui (Suc k) addrs =
     ebind (of_throws (index_ref addrs ui)) (\<lambda>(addrs', a).
     ebind (of_throws (json_get_string L a ''host'' [])) (\<lambda>host.
     ebind (of_throws (json_get_int a ''port'' 3478)) (\<lambda>port.
       if ui \<ge> maxn then Inl (Crash OutOfBounds)
       else ebind (parse_turns L maxn (Suc ui) k addrs') (\<lambda>(l, v). Inr ((c_str host, port) # l, v)))))"

definition parse_turn_config :: "clib \<Rightarrow> nat \<Rightarrow> Value \<Rightarrow> ((string \<times> int) list \<times> Value) eres" where
  "parse_turn_config L maxn addrs =
     (if \<not> Value_empty addrs then parse_turns L maxn 0 (Value_size addrs) addrs else Inr ([], addrs))"

text \<open>
  One side of the relay configuration gets the session number; a missing side leaves a null member
  behind. The results are the whole and that side.
\<close>

definition number_side :: "u32 \<Rightarrow> string \<Rightarrow> Value \<Rightarrow> (Value \<times> Value) throws" where
  "number_side sess name ms =
     throw_bind (member_ref ms name) (\<lambda>(ms1, x).
       if isNull x then Inr (ms1, nullValue)
       else throw_bind (member_set x ''sessionId'' (uintValue (unat sess))) (\<lambda>side.
            throw_bind (member_set ms1 name side) (\<lambda>ms2. Inr (ms2, side))))"

definition parse_relay_config :: "u32 \<Rightarrow> Value \<Rightarrow> (Value \<times> Value \<times> Value) throws" where
  "parse_relay_config now relayMS =
     (if isNull relayMS then Inr (nullValue, nullValue, nullValue)
      else throw_bind (number_side (now mod 1000000) ''caller'' relayMS) (\<lambda>(ms1, caller).
           throw_bind (number_side (now mod 1000000) ''callee'' ms1) (\<lambda>(ms2, callee).
             Inr (ms2, caller, callee))))"

text \<open>\<open>parse_eice_config\<close>; the result is nothing when the text is no JSON.\<close>

definition parse_eice_config ::
  "clib \<Rightarrow> nat \<Rightarrow> u32 \<Rightarrow> string option \<Rightarrow> eice_config option eres" where
  "parse_eice_config L maxn now config_json =
     (case Reader_parse L Features_all (case config_json of None \<Rightarrow> ''{}'' | Some s \<Rightarrow> c_str s) nullValue of
        Some (True, value, _) \<Rightarrow>
          ebind (of_throws (json_get_string L value ''turnHost'' [])) (\<lambda>host.
          ebind (of_throws (json_get_int value ''turnPort'' 3478)) (\<lambda>port.
          ebind (of_throws (json_get_int value ''compCount'' 2)) (\<lambda>count.
          ebind (of_throws (vmember value ''relayMS'')) (\<lambda>relayMS.
          ebind (of_throws (parse_relay_config now relayMS)) (\<lambda>(ms, caller, callee).
          ebind (of_throws (json_get_array value ''turnAddrs'' nullValue)) (\<lambda>addrs.
          ebind (parse_turn_config L maxn addrs) (\<lambda>(servers, addrs').
          let first = (if host = [] \<and> Value_size addrs' > 0 then hd servers else (host, port))
          in Inr (Some \<lparr>turn_host = fst first, turn_port = snd first, bind_cfg = servers, comp_count = count,
                   relay_ms = ms, relay_caller = caller, relay_callee = callee, turnAddrs = addrs'\<rparr>))))))))
      | _ \<Rightarrow> Inr None)"

section \<open>Candidates\<close>

definition rel_members :: "pjlib \<Rightarrow> ice_cand \<Rightarrow> (string \<times> Value) list" where
  "rel_members P cand =
     (let (ip, port) = get_ip_port_from_sockaddr P (cand_addr cand);
          (base_ip, base_port) = get_ip_port_from_sockaddr P (base_addr cand)
      in if cand_kind cand = CAND_HOST then []
         else if sock_text P (base_addr cand) \<noteq> None
         then [(''rel-addr'', Value_of_string base_ip), (''rel-port'', intValue base_port)]
         else [(''rel-addr'', Value_of_string ip), (''rel-port'', intValue port)])"

text \<open>The two functions differ in the address shown: that of the candidate, or that of its base.\<close>

definition cand_members :: "pjlib \<Rightarrow> nat \<Rightarrow> ice_cand \<Rightarrow> string \<times> int \<Rightarrow> (string \<times> Value) list" where
  "cand_members P cand_id cand shown =
     [(''component'', intValue (cand_comp cand)), (''foundation'', Value_of_string (foundation cand)),
      (''generation'', Value_of_string ''0''), (''network'', Value_of_string ''1''),
      (''id'', intValue (int cand_id)), (''ip'', Value_of_string (fst shown)), (''port'', intValue (snd shown)),
      (''priority'', uintValue (unat (cand_prio cand))), (''protocol'', Value_of_string ''udp''),
      (''type'', Value_of_string (cand_type_name P (cand_kind cand)))] @ rel_members P cand"

definition cand_to_json_value :: "pjlib \<Rightarrow> nat \<Rightarrow> ice_cand \<Rightarrow> Value" where
  "cand_to_json_value P cand_id cand =
     value_of_members (cand_members P cand_id cand (get_ip_port_from_sockaddr P (cand_addr cand)))"

definition local_cand_to_json_value :: "pjlib \<Rightarrow> nat \<Rightarrow> ice_cand \<Rightarrow> Value" where
  "local_cand_to_json_value P cand_id cand =
     value_of_members (cand_members P cand_id cand (get_ip_port_from_sockaddr P (base_addr cand)))"

section \<open>The description of the other side\<close>

definition cand_type_of :: "string \<Rightarrow> cand_type option" where
  "cand_type_of typ =
     (if typ = ''host'' then Some CAND_HOST
      else if typ = ''srflx'' then Some CAND_SRFLX
      else if typ = ''relay'' then Some CAND_RELAYED
      else None)"

text \<open>One candidate; nothing when it is refused, which ends the reading with failure.\<close>

definition parse_cand :: "pjlib \<Rightarrow> clib \<Rightarrow> answers \<Rightarrow> family \<Rightarrow> Value \<Rightarrow> ice_cand option throws" where
  "parse_cand P L ans af v =
     throw_bind (json_get_int v ''component'' (-1)) (\<lambda>cid.
     if comp_field P cid \<le> 0 then Inr None
     else throw_bind (json_get_string L v ''foundation'' []) (\<lambda>founda.
     throw_bind (json_get_int v ''priority'' (-1)) (\<lambda>prio.
     throw_bind (json_get_string L v ''type'' []) (\<lambda>typ.
     case cand_type_of typ of
       None \<Rightarrow> Inr None
     | Some kind \<Rightarrow>
         throw_bind (json_get_string L v ''ip'' []) (\<lambda>ip.
         throw_bind (json_get_int v ''port'' 0) (\<lambda>port.
         throw_bind (json_get_string L v ''rel-addr'' []) (\<lambda>rel.
         throw_bind (json_get_int v ''rel-port'' 0) (\<lambda>rel_port.
           Inr (Some \<lparr>cand_comp = comp_field P cid, cand_kind = kind, foundation = c_str founda,
             cand_prio = of_int prio, cand_addr = make_addr ans (Some (c_str ip)) port af,
             base_addr = (AF_OTHER, [], 0), rel_addr = make_addr ans (Some (c_str rel)) rel_port af\<rparr>)))))))))"

text \<open>The array of an endpoint takes eight candidates; no one counts them.\<close>

fun parse_cands ::
  "pjlib \<Rightarrow> clib \<Rightarrow> answers \<Rightarrow> family \<Rightarrow> nat \<Rightarrow> nat \<Rightarrow> Value \<Rightarrow> ice_cand list option eres" where
  "parse_cands P L ans af i 0 candidates = Inr (Some [])"
| "parse_cands P L ans af i (Suc k) candidates =
     ebind (of_throws (index_ref candidates i)) (\<lambda>(candidates', v).
       if i \<ge> MAX_CANDIDATE_COUNT then Inl (Crash OutOfBounds)
       else ebind (of_throws (parse_cand P L ans af v)) (\<lambda>r.
         case r of
           None \<Rightarrow> Inr None
         | Some cand \<Rightarrow>
             ebind (parse_cands P L ans af (Suc i) k candidates') (\<lambda>rest.
               Inr (map_option (Cons cand) rest))))"

text \<open>The relay configuration of the other side is taken over when there is none of one's own.\<close>

definition adopt_relay :: "Value \<Rightarrow> eice_config \<Rightarrow> eice_config throws" where
  "adopt_relay relayMS cfg =
     (if isNull relayMS \<or> \<not> isNull (relay_ms cfg) then Inr cfg
      else throw_bind (member_ref relayMS ''caller'') (\<lambda>(ms1, caller).
           throw_bind (member_ref ms1 ''callee'') (\<lambda>(ms2, callee).
             Inr (cfg\<lparr>relay_ms := ms2,
               relay_caller := (if isNull caller then relay_caller cfg else caller),
               relay_callee := (if isNull callee then relay_callee cfg else callee)\<rparr>))))"

text \<open>A callee takes the TURN servers of the caller, or none when the caller forces the relay.\<close>

definition adopt_turn :: "clib \<Rightarrow> nat \<Rightarrow> ice_role \<Rightarrow> int \<Rightarrow> Value \<Rightarrow> eice_config \<Rightarrow> eice_config eres" where
  "adopt_turn L maxn rl remote_force value cfg =
     (if rl \<noteq> CONTROLLED then Inr cfg
      else if remote_force \<noteq> 0
      then ebind (of_throws (Value_clear (turnAddrs cfg))) (\<lambda>addrs.
             Inr (cfg\<lparr>turnAddrs := addrs, turn_host := [], turn_port := -1, bind_cfg := []\<rparr>))
      else ebind (of_throws (isMember value ''turnAddrs'')) (\<lambda>present.
        if \<not> present then Inr cfg
        else ebind (of_throws (json_get_array value ''turnAddrs'' nullValue)) (\<lambda>addrs.
          if isNull addrs then Inr (cfg\<lparr>turnAddrs := addrs\<rparr>)
          else ebind (parse_turn_config L maxn addrs) (\<lambda>(servers, addrs').
            let cfg1 = cfg\<lparr>turnAddrs := addrs', bind_cfg := servers\<rparr>
            in Inr (case servers of
                      [] \<Rightarrow> cfg1
                    | s # _ \<Rightarrow> cfg1\<lparr>turn_host := fst s, turn_port := snd s\<rparr>)))))"

record remote_desc =
  rd_ufrag :: string
  rd_pwd :: string
  rd_cands :: "ice_cand list"
  rd_cfg :: eice_config
  rd_force_relay :: int

definition parse_content ::
  "pjlib \<Rightarrow> clib \<Rightarrow> answers \<Rightarrow> family \<Rightarrow> ice_role \<Rightarrow> string \<Rightarrow> eice_config \<Rightarrow> remote_desc option eres" where
  "parse_content P L ans af rl content cfg =
     (case Reader_parse L Features_all content nullValue of
        Some (True, value, _) \<Rightarrow>
          ebind (of_throws (json_get_string L value ''ufrag'' [])) (\<lambda>ufrag.
          ebind (of_throws (json_get_string L value ''pwd'' [])) (\<lambda>pwd.
          ebind (of_throws (json_get_array value ''candidates'' nullValue)) (\<lambda>candidates.
          ebind (if ufrag \<noteq> [] \<and> \<not> Value_empty candidates
                 then parse_cands P L ans af 0 (Value_size candidates) candidates
                 else Inr (Some [])) (\<lambda>r.
          case r of
            None \<Rightarrow> Inr None
          | Some cands \<Rightarrow>
              ebind (of_throws (vmember value ''relayMS'')) (\<lambda>relayMS.
              ebind (of_throws (adopt_relay relayMS cfg)) (\<lambda>cfg1.
              ebind (of_throws (json_get_int value ''forceRelay'' 0)) (\<lambda>force.
              ebind (adopt_turn L (max_stun P) rl force value cfg1) (\<lambda>cfg2.
                Inr (Some \<lparr>rd_ufrag = ufrag, rd_pwd = pwd, rd_cands = cands, rd_cfg = cfg2,
                       rd_force_relay = force\<rparr>)))))))))
      | _ \<Rightarrow> Inr None)"

end
