(* ===== verification/Eice.thy ===== *)
theory Eice
  imports EiceConfig
begin

text \<open>
  The ICE endpoint \<open>eice_t\<close> of \<open>third/eice/src/eice.cpp\<close>: creation, local description, negotiation,
  result and stolen sockets. It runs a pjnath session and, when a relay is configured, a relay
  client beside it. pjlib and pjnath are parameters: their answers come with each call, in
  \<open>eice_env\<close>, and the calls of them that matter outside are effects.
\<close>

section \<open>The library\<close>

record eice_context =
  pj_inited :: bool
  cp_inited :: bool
  pjlib_inited :: bool
  pjnath_inited :: bool

datatype lib_effect = PoolDestroy | PjShutdown

definition eice_exit :: "eice_context option \<Rightarrow> eice_context option \<times> lib_effect list" where
  "eice_exit g =
     (case g of
        None \<Rightarrow> (None, [])
      | Some c \<Rightarrow> (None, (if cp_inited c then [PoolDestroy] else []) @ (if pj_inited c then [PjShutdown] else [])))"

text \<open>
  \<open>st\<close> are the statuses of \<open>pj_init\<close>, the two registrations of the thread, \<open>pjlib_util_init\<close> and
  \<open>pjnath_init\<close>.
\<close>

definition eice_init :: "(nat \<Rightarrow> int) \<Rightarrow> eice_context option \<Rightarrow> int \<times> eice_context option \<times> lib_effect list" where
  "eice_init st g =
     (case g of
        Some c \<Rightarrow> (0, Some c, [])
      | None \<Rightarrow>
          let c0 = \<lparr>pj_inited = False, cp_inited = False, pjlib_inited = False, pjnath_inited = False\<rparr>;
              c1 = c0\<lparr>pj_inited := True\<rparr>; c2 = c1\<lparr>cp_inited := True\<rparr>; c3 = c2\<lparr>pjlib_inited := True\<rparr>;
              failed = (\<lambda>k c. let (g', eff) = eice_exit (Some c) in (st k, g', eff))
          in if st 0 \<noteq> 0 then failed 0 c0
             else if st 1 \<noteq> 0 then failed 1 c1
             else if st 2 \<noteq> 0 then failed 2 c2
             else if st 3 \<noteq> 0 then failed 3 c2
             else if st 4 \<noteq> 0 then failed 4 c3
             else (0, Some (c3\<lparr>pjnath_inited := True\<rparr>), []))"

section \<open>State\<close>

definition ICE_TIMEOUT_MS :: nat where "ICE_TIMEOUT_MS = 4000"
definition MAX_STEAL_SOCKET :: nat where "MAX_STEAL_SOCKET = 8"

text \<open>\<open>remote_cand_count\<close> is the length of \<open>remote_cands\<close>; a pointer that may be null is an option.\<close>

record eice =
  e_role :: ice_role
  e_cfg :: eice_config
  e_af :: family
  icest :: bool
  ice_init_done :: bool
  ice_init_result :: int
  ice_nego_done :: bool
  ice_nego_status :: int
  local_content :: "string option"
  rufrag :: string
  rpwd :: string
  remote_cands :: "ice_cand list"
  e_confice :: "confice option"
  loc_ufrag :: "string option"
  loc_pwd :: "string option"
  rem_ufrag :: "string option"
  rem_pwd :: "string option"
  confice_done :: bool
  confice_status :: int
  steal_sockets :: "int list"
  steal_socket_count :: nat
  force_relay :: int
  remote_force_relay :: int

text \<open>
  \<open>e_create\<close> are the statuses of the creations in \<open>eice_new\<close>, in their order; \<open>e_init\<close> is the status
  reported to a waiting creation, nothing when it times out; \<open>e_cands\<close> are the candidates of a
  component; \<open>e_pair\<close> is its valid pair with the nomination flag; \<open>e_fd\<close> its socket;
  \<open>has_result_func\<close> tells whether the application has registered for results.
\<close>

record eice_env =
  e_lib :: clib
  e_pj :: pjlib
  e_conf :: conf_env
  e_tick :: u32
  e_create :: "nat \<Rightarrow> int"
  e_init :: "int option"
  e_init_ice :: int
  e_creds :: "int + string \<times> string"
  e_cands :: "nat \<Rightarrow> int + ice_cand list"
  e_start :: int
  e_socks :: "(int + int \<times> string option \<times> int) list"
  e_pair :: "nat \<Rightarrow> (bool \<times> ice_cand \<times> ice_cand) option"
  e_fd :: "nat \<Rightarrow> int"
  e_has_sess :: bool
  has_result_func :: bool

datatype eice_effect =
    OfConfice conf_effect
  | NegoResult
  | StopIce
  | CancelNegoTimer
  | NegoTimer nat
  | CreateStrans "(string \<times> int) option" "(string \<times> int) list" int
  | StartIce string string "ice_cand list"

type_synonym eice_result = "(eice \<times> eice_effect list) eres"

section \<open>Events\<close>

text \<open>\<open>on_confice_complete\<close>, and a step of the relay client together with the completions it reports.\<close>

definition on_confice_complete :: "confice_op \<Rightarrow> int \<Rightarrow> eice \<Rightarrow> eice" where
  "on_confice_complete op status e =
     (if op = CONF_OP_FINAL then e\<lparr>confice_done := True, confice_status := status\<rparr> else e)"

fun confice_effect :: "conf_effect \<Rightarrow> eice \<Rightarrow> eice" where
  "confice_effect (OnComplete op status) e = on_confice_complete op status e"
| "confice_effect _ e = e"

definition with_confice :: "(confice \<Rightarrow> conf_result) \<Rightarrow> eice \<Rightarrow> eice_result" where
  "with_confice step e =
     (case e_confice e of
        None \<Rightarrow> Inl (Crash NullDeref)
      | Some C \<Rightarrow>
          ebind (of_outcome (step C)) (\<lambda>(C', eff).
            Inr (fold confice_effect eff (e\<lparr>e_confice := Some C'\<rparr>), map OfConfice eff)))"

definition do_select :: "conf_env \<Rightarrow> confice \<Rightarrow> conf_result" where
  "do_select E C = map_sum (\<lambda>c. c) snd (confice_kickoff_select_relay E C)"

definition do_reg :: "conf_env \<Rightarrow> confice \<Rightarrow> conf_result" where
  "do_reg E C = map_sum (\<lambda>c. c) snd (confice_kickoff_reg E C)"

definition do_cancel :: "confice \<Rightarrow> conf_result" where
  "do_cancel C = Inr (snd (confice_cancel C))"

datatype strans_op = STRANS_INIT | STRANS_NEGOTIATION | STRANS_OTHER

definition cb_on_ice_complete :: "eice_env \<Rightarrow> strans_op \<Rightarrow> int \<Rightarrow> eice \<Rightarrow> eice_result" where
  "cb_on_ice_complete E op status e =
     (case op of
        STRANS_INIT \<Rightarrow>
          Inr (if \<not> ice_init_done e then e\<lparr>ice_init_done := True, ice_init_result := status\<rparr> else e, [])
      | STRANS_NEGOTIATION \<Rightarrow>
          let first = (\<not> ice_nego_done e);
              e1 = (if first then e\<lparr>ice_nego_done := True, ice_nego_status := status\<rparr> else e)
          in ebind (if first \<and> e_confice e1 \<noteq> None
                    then if status = 0 then with_confice do_cancel e1
                         else if e_role e1 = CONTROLLING then with_confice (do_select (e_conf E)) e1
                         else Inr (e1, [])
                    else Inr (e1, [])) (\<lambda>(e2, eff).
               Inr (e2, CancelNegoTimer # eff @ (if has_result_func E then [NegoResult] else [])))
      | STRANS_OTHER \<Rightarrow> Inr (e, []))"

definition timer_ice_cb :: "eice_env \<Rightarrow> eice \<Rightarrow> eice_result" where
  "timer_ice_cb E e =
     (let stop = (if icest e \<and> e_has_sess E then [StopIce] else [])
      in if ice_nego_done e then Inr (e, stop)
         else
           let e1 = e\<lparr>ice_nego_done := True, ice_nego_status := -1\<rparr>
           in ebind (if e_confice e1 \<noteq> None \<and> e_role e1 = CONTROLLING
                     then with_confice (do_select (e_conf E)) e1 else Inr (e1, [])) (\<lambda>(e2, eff).
                Inr (e2, stop @ eff)))"

text \<open>
  \<open>query_wait\<close> looks at the flag every 50 milliseconds; \<open>flag k\<close> and \<open>clock k\<close> are the flag and the time
  at the \<open>k\<close>-th look. Nothing is the result of a wait that does not end.
\<close>

partial_function (option) query_wait_from :: "(nat \<Rightarrow> bool) \<Rightarrow> (nat \<Rightarrow> nat) \<Rightarrow> u32 \<Rightarrow> nat \<Rightarrow> int option" where
  "query_wait_from flag clock timeout k =
     (if flag k then Some 0
      else if pj_elapsed_msec (clock 0) (clock k) \<ge> timeout then Some (-1)
      else query_wait_from flag clock timeout (Suc k))"

definition query_wait :: "(nat \<Rightarrow> bool) \<Rightarrow> (nat \<Rightarrow> nat) \<Rightarrow> u32 \<Rightarrow> int option" where
  "query_wait flag clock timeout = query_wait_from flag clock timeout 0"

section \<open>The local description\<close>

fun local_cands :: "eice_env \<Rightarrow> nat list \<Rightarrow> int + Value list" where
  "local_cands E [] = Inr []"
| "local_cands E (cid # cids) =
     (case e_cands E cid of
        Inl status \<Rightarrow> Inl status
      | Inr cands \<Rightarrow>
          map_sum (\<lambda>s. s) (\<lambda>rest. map (\<lambda>(ci, c). cand_to_json_value (e_pj E) ci c) (enumerate 0 cands) @ rest)
            (local_cands E cids))"

definition comp_ids :: "eice_config \<Rightarrow> nat list" where
  "comp_ids cfg = map nat [1 .. comp_count cfg]"

text \<open>The members every description has, and those of the pjnath session in front of them.\<close>

definition config_members :: "eice \<Rightarrow> (string \<times> Value) list" where
  "config_members e =
     (if \<not> isNull (relay_ms (e_cfg e)) then [(''relayMS'', relay_ms (e_cfg e))] else [])
     @ (if \<not> isNull (turnAddrs (e_cfg e)) then [(''turnAddrs'', turnAddrs (e_cfg e))] else [])
     @ (if force_relay e \<noteq> 0 then [(''forceRelay'', intValue (force_relay e))] else [])"

definition write_content :: "clib \<Rightarrow> (string \<times> Value) list \<Rightarrow> string" where
  "write_content L members =
     (if members \<noteq> [] then FastWriter_write L new_FastWriter (value_of_members members) else ''{}'')"

definition get_local :: "eice_env \<Rightarrow> eice \<Rightarrow> int \<times> eice" where
  "get_local E e =
     (if \<not> icest e then (0, e\<lparr>local_content := Some (write_content (e_lib E) (config_members e))\<rparr>)
      else if \<not> ice_init_done e then (0, e)
      else if e_init_ice E \<noteq> 0 then (e_init_ice E, e)
      else case e_creds E of
        Inl status \<Rightarrow> (status, e)
      | Inr (ufrag, pwd) \<Rightarrow>
          let e1 = e\<lparr>loc_ufrag := Some ufrag, loc_pwd := Some pwd\<rparr>
          in (case local_cands E (comp_ids (e_cfg e)) of
                Inl status \<Rightarrow> (status, e1)
              | Inr cands \<Rightarrow>
                  (0, e1\<lparr>local_content := Some (write_content (e_lib E)
                     ([(''ufrag'', Value_of_string ufrag), (''pwd'', Value_of_string pwd),
                       (''candidates'', value_of_items cands)] @ config_members e1))\<rparr>)))"

text \<open>What the caller's buffer gets, with the length stored for it.\<close>

definition eice_get_local :: "eice_env \<Rightarrow> eice \<Rightarrow> int \<times> eice \<times> (string \<times> nat) option" where
  "eice_get_local E e =
     (let (ret, e1) = (if local_content e = None then get_local E e else (0, e))
      in (ret, e1, map_option (\<lambda>s. (c_str s, length s)) (local_content e1)))"

section \<open>Creation\<close>

text \<open>\<open>_parse_remote\<close>; a second description is not looked at once there are candidates.\<close>

definition parse_remote :: "eice_env \<Rightarrow> string \<Rightarrow> eice \<Rightarrow> (int \<times> eice) eres" where
  "parse_remote E remote e =
     (if remote_cands e \<noteq> [] then Inr (0, e)
      else ebind (parse_content (e_pj E) (e_lib E) (lookup (e_conf E)) (e_af e) (e_role e) remote (e_cfg e)) (\<lambda>r.
        case r of
          None \<Rightarrow> Inr (-1, e)
        | Some d \<Rightarrow>
            let e1 = e\<lparr>remote_cands := rd_cands d, e_cfg := rd_cfg d, remote_force_relay := rd_force_relay d\<rparr>
            in Inr (0, if rd_cands d \<noteq> []
                       then e1\<lparr>rufrag := c_str (rd_ufrag d), rpwd := c_str (rd_pwd d),
                              rem_ufrag := Some (c_str (rd_ufrag d)), rem_pwd := Some (c_str (rd_pwd d))\<rparr>
                       else e1)))"

definition blank_eice :: "ice_role \<Rightarrow> eice_config \<Rightarrow> eice" where
  "blank_eice rl cf =
     \<lparr>e_role = rl, e_cfg = cf, e_af = AF_INET, icest = False, ice_init_done = False, ice_init_result = 0,
      ice_nego_done = False, ice_nego_status = 0, local_content = None, rufrag = [], rpwd = [], remote_cands = [],
      e_confice = None, loc_ufrag = None, loc_pwd = None, rem_ufrag = None, rem_pwd = None, confice_done = False,
      confice_status = 0, steal_sockets = replicate MAX_STEAL_SOCKET (-1), steal_socket_count = 0, force_relay = 0,
      remote_force_relay = 0\<rparr>"

text \<open>The address family is that of the TURN server, or of a well known address without one.\<close>

definition detect_family :: "answers \<Rightarrow> eice \<Rightarrow> eice" where
  "detect_family ans e =
     (if turn_host (e_cfg e) \<noteq> []
      then (case ipv4ToIpv6 ans (c_str (turn_host (e_cfg e))) of
              Some ipv6 \<Rightarrow> e\<lparr>e_af := AF_INET6, e_cfg := (e_cfg e)\<lparr>turn_host := ipv6\<rparr>\<rparr>
            | None \<Rightarrow> e)
      else if ipv4ToIpv6 ans ''121.41.105.183'' \<noteq> None then e\<lparr>e_af := AF_INET6\<rparr> else e)"

definition convert_servers :: "answers \<Rightarrow> eice \<Rightarrow> eice" where
  "convert_servers ans e =
     (if e_af e = AF_INET6
      then e\<lparr>e_cfg := (e_cfg e)\<lparr>bind_cfg := map (\<lambda>(h, p). (case ipv4ToIpv6 ans h of Some ipv6 \<Rightarrow> ipv6 | None \<Rightarrow> h, p))
             (bind_cfg (e_cfg e))\<rparr>\<rparr>
      else e)"

text \<open>The pjnath session is created with the first server only.\<close>

definition create_strans :: "eice_env \<Rightarrow> eice \<Rightarrow> int \<times> eice \<times> eice_effect list" where
  "create_strans E e =
     (let cf = e_cfg e;
          stun = (if turn_host cf \<noteq> [] then Some (turn_host cf, turn_port cf mod 65536) else None);
          e1 = (if turn_host cf = [] \<and> bind_cfg cf = [] then e\<lparr>force_relay := 1\<rparr> else e);
          e2 = e1\<lparr>e_cfg := cf\<lparr>bind_cfg := take 1 (bind_cfg cf)\<rparr>\<rparr>
      in (e_create E 5, e2\<lparr>icest := (e_create E 5 = 0)\<rparr>,
          [CreateStrans stun (take 1 (bind_cfg cf)) (comp_count cf)]))"

text \<open>\<open>eice_new\<close>: a status and, when that is zero, the endpoint. A failed one is freed.\<close>

definition eice_new ::
  "eice_env \<Rightarrow> string option \<Rightarrow> ice_role \<Rightarrow> string option \<Rightarrow> (int + eice \<times> eice_effect list) eres" where
  "eice_new E config rl remote =
     ebind (parse_eice_config (e_lib E) (max_stun (e_pj E)) (e_tick E) config) (\<lambda>c.
     case c of
       None \<Rightarrow> Inr (Inl (-1))
     | Some cf \<Rightarrow>
         let e0 = detect_family (lookup (e_conf E)) (blank_eice rl cf)
         in ebind (case remote of
                     Some r \<Rightarrow> if r \<noteq> [] then parse_remote E r e0 else Inr (0, e0)
                   | None \<Rightarrow> Inr (0, e0)) (\<lambda>(ret, e1).
            if ret \<noteq> 0 then Inr (Inl ret)
            else case find (\<lambda>k. e_create E k \<noteq> 0) [0 ..< 5] of
              Some k \<Rightarrow> Inr (Inl (e_create E k))
            | None \<Rightarrow>
                let (st, e2, eff) = create_strans E (convert_servers (lookup (e_conf E)) e1)
                in Inr (if st \<noteq> 0 then Inl st else Inr (e2, eff))))"

section \<open>Negotiation\<close>

text \<open>
  The relay client gets the side of the relay configuration that is its own. The four strings are
  dereferenced when there is such a side, and are null when there was no description or it had no
  candidates.
\<close>

definition own_relay :: "eice \<Rightarrow> Value" where
  "own_relay e = (case e_role e of CONTROLLING \<Rightarrow> relay_caller (e_cfg e) | CONTROLLED \<Rightarrow> relay_callee (e_cfg e))"

definition create_confice :: "eice_env \<Rightarrow> eice \<Rightarrow> (int \<times> eice \<times> eice_effect list) eres" where
  "create_confice E e =
     (if isNull (own_relay e) then Inr (0, e, [])
      else case (loc_ufrag e, loc_pwd e, rem_ufrag e, rem_pwd e) of
        (Some lu, Some lp, Some ru, Some rp) \<Rightarrow>
          ebind (of_throws (confice_new (e_lib E) (own_relay e) (lookup (e_conf E)) (e_af e) (e_role e)
                   \<lparr>str_local_ufrag = lu, str_local_pwd = lp, str_remote_ufrag = ru, str_remote_pwd = rp\<rparr> (e_socks E)))
            (\<lambda>r. case r of
               Inl status \<Rightarrow> Inr (status, e, [])
             | Inr (C, eff) \<Rightarrow> Inr (0, e\<lparr>e_confice := Some C\<rparr>, map OfConfice eff))
      | _ \<Rightarrow> Inl (Crash NullDeref))"

definition start_ice :: "eice_env \<Rightarrow> eice \<Rightarrow> int \<times> eice_effect list" where
  "start_ice E e =
     (if icest e \<and> force_relay e = 0
      then (e_start E, StartIce (rufrag e) (rpwd e) (remote_cands e)
              # (if e_start E = 0 then [NegoTimer ICE_TIMEOUT_MS] else []))
      else (0, []))"

definition kick_confice :: "eice_env \<Rightarrow> eice \<Rightarrow> eice_result" where
  "kick_confice E e =
     (if e_confice e = None then Inr (e, [])
      else ebind (with_confice (do_reg (e_conf E)) e) (\<lambda>(e1, eff1).
        if e_role e1 = CONTROLLING \<and> (\<not> icest e1 \<or> remote_force_relay e1 \<noteq> 0 \<or> force_relay e1 \<noteq> 0)
        then ebind (with_confice (do_select (e_conf E)) e1) (\<lambda>(e2, eff2). Inr (e2, eff1 @ eff2))
        else Inr (e1, eff1)))"

definition eice_start_nego :: "eice_env \<Rightarrow> string \<Rightarrow> eice \<Rightarrow> (int \<times> eice \<times> eice_effect list) eres" where
  "eice_start_nego E remote e =
     ebind (parse_remote E remote e) (\<lambda>(ret, e1).
     if ret \<noteq> 0 then Inr (ret, e1, [])
     else ebind (create_confice E e1) (\<lambda>(ret, e2, eff2).
     if ret \<noteq> 0 then Inr (ret, e2, eff2)
     else let (st, eff3) = start_ice E e2
       in if st \<noteq> 0 then Inr (st, e2, eff2 @ eff3)
          else ebind (kick_confice E e2) (\<lambda>(e3, eff4). Inr (0, e3, eff2 @ eff3 @ eff4))))"

definition eice_caller_nego :: "eice_env \<Rightarrow> string \<Rightarrow> eice \<Rightarrow> (int \<times> eice \<times> eice_effect list) eres" where
  "eice_caller_nego E remote e = eice_start_nego E remote e"

text \<open>Waiting for the session of a new endpoint: its report has arrived or the wait has timed out.\<close>

definition wait_init :: "eice_env \<Rightarrow> eice \<Rightarrow> int \<times> eice" where
  "wait_init E e =
     (if \<not> icest e then (0, e)
      else case e_init E of
        None \<Rightarrow> (-1, e)
      | Some status \<Rightarrow> (0, if \<not> ice_init_done e then e\<lparr>ice_init_done := True, ice_init_result := status\<rparr> else e))"

type_synonym new_result = "(int + eice \<times> eice_effect list \<times> (string \<times> nat) option) eres"

definition eice_new_caller :: "eice_env \<Rightarrow> string \<Rightarrow> new_result" where
  "eice_new_caller E config =
     (if c_str config = [] then Inr (Inl (-1))
      else ebind (eice_new E (Some config) CONTROLLING None) (\<lambda>r.
        case r of
          Inl ret \<Rightarrow> Inr (Inl ret)
        | Inr (e, eff) \<Rightarrow>
            let (w, e1) = wait_init E e
            in if w \<noteq> 0 then Inr (Inl w)
               else let (ret, e2, content) = eice_get_local E e1
                 in Inr (if ret \<noteq> 0 then Inl ret else Inr (e2, eff, content))))"

definition eice_new_callee :: "eice_env \<Rightarrow> string \<Rightarrow> string \<Rightarrow> new_result" where
  "eice_new_callee E config remote =
     ebind (eice_new E (Some config) CONTROLLED (Some remote)) (\<lambda>r.
        case r of
          Inl ret \<Rightarrow> Inr (Inl ret)
        | Inr (e, eff) \<Rightarrow>
            let (w, e1) = wait_init E e
            in if w \<noteq> 0 then Inr (Inl w)
               else let (ret, e2, content) = eice_get_local E e1
                 in if ret \<noteq> 0 then Inr (Inl ret)
                    else ebind (eice_start_nego E remote e2) (\<lambda>(ret, e3, eff3).
                      Inr (if ret \<noteq> 0 then Inl ret else Inr (e3, eff @ eff3, content))))"

section \<open>Result and sockets\<close>

text \<open>Whether each of the two parts has ended, and the status of the negotiation.\<close>

definition parts_done :: "eice \<Rightarrow> bool" where
  "parts_done e \<longleftrightarrow> (icest e \<and> force_relay e = 0 \<longrightarrow> ice_nego_done e) \<and> (e_confice e \<noteq> None \<longrightarrow> confice_done e)"

definition nego_status :: "eice \<Rightarrow> int" where
  "nego_status e = (if icest e \<and> force_relay e = 0 then ice_nego_status e else -1)"

text \<open>
  \<open>eice_steal_fds\<close>, with the descriptors it stores. The count that the caller passes in is set to zero
  before it is read; the array has \<open>MAX_STEAL_SOCKET\<close> places.
\<close>

definition eice_steal_fds :: "eice_env \<Rightarrow> eice \<Rightarrow> (int \<times> int list) eres" where
  "eice_steal_fds E e =
     (if \<not> parts_done e then Inr (-1, [])
      else if nego_status e = 0
      then (if comp_count (e_cfg e) > int MAX_STEAL_SOCKET then Inl (Crash OutOfBounds)
            else Inr (0, map (e_fd E) (comp_ids (e_cfg e))))
      else case e_confice e of
        Some C \<Rightarrow> Inr (0, case confice_steal_fds C of Some fds \<Rightarrow> fds | None \<Rightarrow> [])
      | None \<Rightarrow> Inr (-1, []))"

definition update_steal_sockets :: "eice_env \<Rightarrow> eice \<Rightarrow> eice eres" where
  "update_steal_sockets E e =
     ebind (eice_steal_fds E e) (\<lambda>(ret, fds).
       Inr (if ret \<noteq> 0 then e
            else e\<lparr>steal_sockets := put_at 0 fds (steal_sockets e),
                   steal_socket_count := max (length fds) (steal_socket_count e)\<rparr>))"

text \<open>\<open>eice_get_global_socket\<close>; \<open>name fd\<close> is the port of a socket, nothing when asking for it fails.\<close>

fun find_socket :: "(int \<Rightarrow> int option) \<Rightarrow> int \<Rightarrow> nat \<Rightarrow> int list \<Rightarrow> int \<times> int list" where
  "find_socket name port 0 socks = (-1, socks)"
| "find_socket name port (Suc n) [] = (-1, [])"
| "find_socket name port (Suc n) (fd # socks) =
     (if fd > 0 \<and> name fd = Some port then (fd, -1 # socks)
      else let (r, socks') = find_socket name port n socks in (r, fd # socks'))"

definition get_global_socket :: "(int \<Rightarrow> int option) \<Rightarrow> bool \<Rightarrow> int \<Rightarrow> eice \<Rightarrow> int \<times> eice" where
  "get_global_socket name lib_ok port e =
     (if \<not> lib_ok \<or> port \<le> 0 then (-1, e)
      else let (fd, socks) = find_socket name port (steal_socket_count e) (steal_sockets e)
        in (fd, e\<lparr>steal_sockets := socks\<rparr>))"

definition nego_pair :: "eice_env \<Rightarrow> nat \<Rightarrow> Value list" where
  "nego_pair E cid =
     (case e_pair E cid of
        Some (True, lcand, rcand) \<Rightarrow>
          [value_of_members
            [(''comp_id'', intValue (int cid)), (''local'', local_cand_to_json_value (e_pj E) 0 lcand),
             (''remote'', cand_to_json_value (e_pj E) 0 rcand)]]
      | _ \<Rightarrow> [])"

definition nego_value :: "eice_env \<Rightarrow> eice \<Rightarrow> Value" where
  "nego_value E e =
     (if nego_status e = 0
      then value_of_members [(''result'', intValue 0),
             (''pairs'', value_of_items (concat (map (nego_pair E) (comp_ids (e_cfg e)))))]
      else case (case e_confice e of None \<Rightarrow> None | Some C \<Rightarrow> confice_get_result C) of
             Some pairs \<Rightarrow> value_of_members [(''result'', intValue 0), (''relay_pairs'', pairs)]
           | None \<Rightarrow> value_of_members [(''result'', intValue (-1))])"

text \<open>\<open>eice_get_nego_result\<close>: nothing for \<open>-1\<close>, or the text of the result.\<close>

definition eice_get_nego_result :: "eice_env \<Rightarrow> eice \<Rightarrow> string option" where
  "eice_get_nego_result E e =
     (if \<not> parts_done e then None
      else Some (FastWriter_write (e_lib E) new_FastWriter (nego_value E e)))"

end
