(* ===== verification/JsonBuild.thy ===== *)
theory JsonBuild
  imports JsonWriter
begin

text \<open>
  Values built member by member, written, and read back on the other side: what \<open>operator[]\<close> then finds.
\<close>

section \<open>Objects\<close>

lemma find_put_members:
  "omap_find (fold (\<lambda>(k, v). omap_put k v) kvs m) key = (case map_of (rev kvs) key of Some v \<Rightarrow> Some v | None \<Rightarrow> omap_find m key)"
proof (induction kvs arbitrary: m)
  case (Cons kv kvs)
  then show ?case by (cases kv) (auto simp: map_add_def split: option.splits)
qed simp

lemma omap_of_members: "omap_of m \<Longrightarrow> omap_of (fold (\<lambda>(k, v). omap_put k v) kvs m)"
  by (induction kvs arbitrary: m) (auto simp: omap_of_put)

lemma set_put_members: "set (fold (\<lambda>(k, v). omap_put k v) kvs m) \<subseteq> set kvs \<union> set m"
proof (induction kvs arbitrary: m)
  case (Cons kv kvs)
  obtain k v where kv: "kv = (k, v)" by fastforce
  show ?case using Cons [of "omap_put k v m"] set_omap_put [of k v m] kv by auto
qed simp

lemma plain_members:
  assumes "\<forall>(k, v) \<in> set kvs. NUL \<notin> set k \<and> plain v"
  shows "plain (value_of_members kvs)"
proof -
  have "omap_of (fold (\<lambda>(k, v). omap_put k v) kvs ([] :: (string, Value) omap))" by (rule omap_of_members) simp
  moreover have "\<forall>(k, v) \<in> set (fold (\<lambda>(k, v). omap_put k v) kvs []). NUL \<notin> set k \<and> plain v"
    using assms set_put_members [of kvs "[]"] by auto
  ultimately show ?thesis by (simp add: value_of_members_def)
qed

lemma find_map: "omap_find (map (\<lambda>(k, x). (k, f x)) m) key = map_option f (omap_find m key)"
  by (induction m) auto

lemma vmember_members:
  assumes "NUL \<notin> set key"
  shows "vmember (reread (value_of_members kvs)) key
    = Inr (case map_of (rev kvs) key of Some v \<Rightarrow> reread v | None \<Rightarrow> nullValue)"
proof (cases "kvs = []")
  case True
  then show ?thesis by (simp add: value_of_members_def vmember_def member_ref_def)
next
  case False
  then show ?thesis
    by (simp add: value_of_members_def vmember_def member_ref_def c_str_id [OF assms] find_map find_put_members
        split: option.split)
qed

lemma members_kind:
  "kvs \<noteq> [] \<Longrightarrow> isObject (value_of_members kvs) \<and> isObject (reread (value_of_members kvs))"
  by (simp add: value_of_members_def isObject_def)

lemma members_not_null: "kvs \<noteq> [] \<Longrightarrow> \<not> isNull (reread (value_of_members kvs))"
  by (simp add: value_of_members_def isNull_def)

section \<open>Arrays\<close>

lemma plain_items: "(\<forall>v \<in> set vs. plain v) \<Longrightarrow> plain (value_of_items vs)"
  by (auto simp: value_of_items_def in_set_enumerate_eq simp flip: in_set_conv_nth)

lemma reread_items: "reread (value_of_items vs) = value_of_items (map reread vs)"
  by (simp add: value_of_items_def enumerate_eq_zip zip_map2 case_prod_unfold map_prod_def)

lemma size_items: "Value_size (value_of_items vs) = length vs"
  by (auto simp: value_of_items_def Value_size_def enumerate_eq_zip last_zip)

lemma find_enumerate: "omap_find (enumerate n vs) i = (if n \<le> i \<and> i < n + length vs then Some (vs ! (i - n)) else None)"
proof (induction vs arbitrary: n)
  case (Cons v vs)
  have "n < i \<Longrightarrow> i - n = Suc (i - Suc n)" by simp
  with Cons show ?case by (cases "n < i") auto
qed simp

lemma index_items: "i < length vs \<Longrightarrow> index_ref (value_of_items vs) i = Inr (value_of_items vs, vs ! i)"
  by (auto simp: value_of_items_def index_ref_def find_enumerate)

lemma items_kind: "vs \<noteq> [] \<Longrightarrow> isArray (value_of_items vs) \<and> \<not> isNull (value_of_items vs)"
  by (simp add: value_of_items_def isArray_def isNull_def)

lemma items_empty: "Value_empty (value_of_items vs) \<longleftrightarrow> vs = []"
  using size_items [of vs] items_kind [of vs]
  by (cases "vs = []") (auto simp: Value_empty_def value_of_items_def isNull_def isArray_def Value_size_def)

section \<open>Scalars\<close>

lemma reread_small [simp]: "i \<le> maxInt \<Longrightarrow> reread (intValue i) = intValue i"
  "int u \<le> maxInt \<Longrightarrow> reread (uintValue u) = intValue (int u)"
  by simp_all

lemma reread_text [simp]: "NUL \<notin> set s \<Longrightarrow> reread (Value_of_string s) = stringValue s"
  "NUL \<notin> set s \<Longrightarrow> plain (Value_of_string s)"
  by (simp_all add: Value_of_string_def c_str_id)

lemma asInt_small: "minInt \<le> i \<Longrightarrow> i \<le> maxInt \<Longrightarrow> asInt (intValue i) = Inr i"
  by simp

end
