(* ===== verification/EiceResult.thy ===== *)
theory EiceResult
  imports Eice JsonBuild IceLife
begin

text \<open>
  What an endpoint tells the session service: the text of a negotiation result, written by \<open>eice.cpp\<close>
  and read by \<open>IceService.cpp\<close>, describes the pairs that pjnath has found.
\<close>

section \<open>Candidates in JSON\<close>

definition good_addr :: "pjlib \<Rightarrow> sockaddr \<Rightarrow> bool" where
  "good_addr P a \<longleftrightarrow> NUL \<notin> set (fst (get_ip_port_from_sockaddr P a))
     \<and> 0 \<le> snd (get_ip_port_from_sockaddr P a) \<and> snd (get_ip_port_from_sockaddr P a) \<le> 65535"

text \<open>
  A candidate as pjnath hands it out: a component that its field holds, a priority below \<open>2^31\<close>, texts
  without a terminator and port numbers.
\<close>

definition good_cand :: "pjlib \<Rightarrow> ice_cand \<Rightarrow> bool" where
  "good_cand P c \<longleftrightarrow> 0 < cand_comp c \<and> cand_comp c \<le> 255 \<and> NUL \<notin> set (foundation c)
     \<and> int (unat (cand_prio c)) \<le> maxInt \<and> NUL \<notin> set (cand_type_name P (cand_kind c))
     \<and> good_addr P (cand_addr c) \<and> good_addr P (base_addr c)"

definition good_shown :: "string \<times> int \<Rightarrow> bool" where
  "good_shown a \<longleftrightarrow> NUL \<notin> set (fst a) \<and> 0 \<le> snd a \<and> snd a \<le> 65535"

lemma good_addr_shown: "good_addr P a \<longleftrightarrow> good_shown (get_ip_port_from_sockaddr P a)"
  by (simp add: good_addr_def good_shown_def)

lemma rel_keys: "map_of (rev (rel_members P c)) key = None" if "key \<noteq> ''rel-addr''" "key \<noteq> ''rel-port''"
  using that by (auto simp: rel_members_def case_prod_unfold Let_def)

text \<open>What a reader finds in a written candidate.\<close>

lemma cand_lookup:
  "map_of (rev (cand_members P n c a)) ''component'' = Some (intValue (cand_comp c))"
  "map_of (rev (cand_members P n c a)) ''foundation'' = Some (Value_of_string (foundation c))"
  "map_of (rev (cand_members P n c a)) ''ip'' = Some (Value_of_string (fst a))"
  "map_of (rev (cand_members P n c a)) ''port'' = Some (intValue (snd a))"
  "map_of (rev (cand_members P n c a)) ''priority'' = Some (uintValue (unat (cand_prio c)))"
  "map_of (rev (cand_members P n c a)) ''type'' = Some (Value_of_string (cand_type_name P (cand_kind c)))"
  by (simp_all add: cand_members_def map_add_def rel_keys)

lemma plain_rel: "good_cand P c \<Longrightarrow> \<forall>(k, v) \<in> set (rel_members P c). NUL \<notin> set k \<and> plain v"
  by (auto simp: rel_members_def case_prod_unfold Let_def good_cand_def good_addr_def NUL_def int_limits)

lemma plain_cand:
  assumes "good_cand P c" "good_shown a" "n < 1000"
  shows "plain (value_of_members (cand_members P n c a))"
proof (rule plain_members)
  have "int (unat (cand_prio c)) \<le> maxUInt64" using assms(1) by (simp add: good_cand_def int_limits)
  then show "\<forall>(k, v) \<in> set (cand_members P n c a). NUL \<notin> set k \<and> plain v"
    using assms plain_rel [OF assms(1)]
    by (auto simp: cand_members_def good_cand_def good_shown_def NUL_def int_limits)
qed

section \<open>Pairs\<close>

definition pair_value :: "pjlib \<Rightarrow> nat \<times> ice_cand \<times> ice_cand \<Rightarrow> Value" where
  "pair_value P p = (case p of (cid, lcand, rcand) \<Rightarrow> value_of_members
     [(''comp_id'', intValue (int cid)), (''local'', local_cand_to_json_value P 0 lcand),
      (''remote'', cand_to_json_value P 0 rcand)])"

definition nominated :: "eice_env \<Rightarrow> eice \<Rightarrow> (nat \<times> ice_cand \<times> ice_cand) list" where
  "nominated E e = concat (map (\<lambda>cid. case e_pair E cid of Some (True, l, r) \<Rightarrow> [(cid, l, r)] | _ \<Rightarrow> []) (comp_ids (e_cfg e)))"

lemma nego_pairs: "concat (map (nego_pair E) cids)
    = map (pair_value (e_pj E)) (concat (map (\<lambda>cid. case e_pair E cid of Some (True, l, r) \<Rightarrow> [(cid, l, r)] | _ \<Rightarrow> []) cids))"
  by (induction cids) (auto simp: nego_pair_def pair_value_def split: option.splits prod.splits bool.splits)

definition good_pair :: "pjlib \<Rightarrow> nat \<times> ice_cand \<times> ice_cand \<Rightarrow> bool" where
  "good_pair P p = (case p of (cid, l, r) \<Rightarrow> int cid \<le> maxInt \<and> good_cand P l \<and> good_cand P r)"

lemma plain_pair:
  assumes "good_pair P p"
  shows "plain (pair_value P p)"
proof -
  obtain cid l r where p: "p = (cid, l, r)" by (cases p) auto
  have "plain (local_cand_to_json_value P 0 l)" "plain (cand_to_json_value P 0 r)"
    unfolding local_cand_to_json_value_def cand_to_json_value_def
    using assms by (auto simp: p good_pair_def good_cand_def good_addr_shown intro: plain_cand)
  then show ?thesis unfolding pair_value_def p prod.case
    using assms by (intro plain_members) (auto simp: p good_pair_def NUL_def int_limits)
qed

text \<open>The pairs the service should see, each with the socket that is taken for its local port.\<close>

fun expect_pairs :: "pjlib \<Rightarrow> (nat \<times> ice_cand \<times> ice_cand) list \<Rightarrow> (int \<times> int) list \<Rightarrow> AddrPair list" where
  "expect_pairs P [] socks = []"
| "expect_pairs P ((cid, l, r) # ps) socks =
     (let (lip, lport) = get_ip_port_from_sockaddr P (base_addr l); (rip, rport) = get_ip_port_from_sockaddr P (cand_addr r);
          (fd, socks') = eice_get_global_socket lport socks
      in \<lparr>local_ip = lip, local_port = lport, remote_ip = rip, remote_port = rport, local_fd = fd\<rparr>
           # expect_pairs P ps socks')"

lemma read_written_pair:
  assumes "good_pair P (cid, l, r)" "vindex pairs i = Inr (reread (pair_value P (cid, l, r)))"
  shows "read_pair L pairs i socks
    = (let (lip, lport) = get_ip_port_from_sockaddr P (base_addr l); (rip, rport) = get_ip_port_from_sockaddr P (cand_addr r);
           (fd, socks') = eice_get_global_socket lport socks
       in Inr (\<lparr>local_ip = lip, local_port = lport, remote_ip = rip, remote_port = rport, local_fd = fd\<rparr>, socks'))"
proof -
  let ?p = "reread (pair_value P (cid, l, r))"
  have m: "vmember ?p ''local'' = Inr (reread (local_cand_to_json_value P 0 l))"
    "vmember ?p ''remote'' = Inr (reread (cand_to_json_value P 0 r))"
    by (simp_all add: pair_value_def vmember_members NUL_def)
  have g: "good_addr P (base_addr l)" "good_addr P (cand_addr r)" using assms(1) by (simp_all add: good_pair_def good_cand_def)
  have lo: "vmember (reread (local_cand_to_json_value P 0 l)) ''port'' = Inr (intValue (snd (get_ip_port_from_sockaddr P (base_addr l))))"
    "vmember (reread (local_cand_to_json_value P 0 l)) ''ip'' = Inr (stringValue (fst (get_ip_port_from_sockaddr P (base_addr l))))"
    using g(1) by (simp_all add: local_cand_to_json_value_def vmember_members cand_lookup good_addr_def int_limits NUL_def)
  have re: "vmember (reread (cand_to_json_value P 0 r)) ''port'' = Inr (intValue (snd (get_ip_port_from_sockaddr P (cand_addr r))))"
    "vmember (reread (cand_to_json_value P 0 r)) ''ip'' = Inr (stringValue (fst (get_ip_port_from_sockaddr P (cand_addr r))))"
    using g(2) by (simp_all add: cand_to_json_value_def vmember_members cand_lookup good_addr_def int_limits NUL_def)
  show ?thesis
    using g unfolding read_pair_def assms(2) m lo re throw_bind_simps
    by (simp add: good_addr_def int_limits case_prod_unfold Let_def)
qed

lemma read_written_pairs:
  assumes "\<forall>p \<in> set ps. good_pair P p"
  shows "i + k = length ps \<Longrightarrow>
    read_pairs L (value_of_items (map (\<lambda>p. reread (pair_value P p)) ps)) i k socks = expect_pairs P (drop i ps) socks"
proof (induction k arbitrary: i socks)
  case (Suc k)
  let ?v = "value_of_items (map (\<lambda>p. reread (pair_value P p)) ps)"
  obtain cid l r where p: "ps ! i = (cid, l, r)" by (cases "ps ! i") auto
  have i: "i < length ps" using Suc.prems by simp
  then have "good_pair P (cid, l, r)" using assms p by (metis nth_mem)
  moreover have "vindex ?v i = Inr (reread (pair_value P (cid, l, r)))"
    using i p by (simp add: vindex_def index_items)
  moreover have "drop i ps = (cid, l, r) # drop (Suc i) ps" using i p by (metis Cons_nth_drop_Suc)
  ultimately show ?case using Suc.IH [of "Suc i"] Suc.prems
    by (simp add: read_written_pair case_prod_unfold Let_def)
qed simp

text \<open>
  C10: The session service reads what the endpoint has found. When the negotiation has succeeded, the
  text that \<open>eice_get_nego_result\<close> returns is read by \<open>get_addr_pairs_from_result\<close> as exactly the
  nominated pairs of the components, in order: the base address of the local candidate, the address
  of the remote one, and the socket stolen for the local port.
\<close>
theorem nego_result_read_back:
  assumes "parts_done e" "nego_status e = 0" "\<forall>p \<in> set (nominated EE e). good_pair (e_pj EE) p"
    and "nominated EE e \<noteq> []" "env_lib E = e_lib EE"
  shows "\<exists>text. eice_get_nego_result EE e = Some text
    \<and> get_addr_pairs_from_result E text = expect_pairs (e_pj EE) (nominated EE e) (stolen E)"
proof -
  let ?P = "e_pj EE" and ?ps = "nominated EE e"
  let ?items = "value_of_items (map (pair_value ?P) ?ps)"
  let ?kvs = "[(''result'', intValue 0), (''pairs'', ?items)]"
  have v: "nego_value EE e = value_of_members ?kvs"
    using assms(2) by (simp add: nego_value_def nego_pairs nominated_def)
  have "plain ?items" using assms(3) plain_pair by (intro plain_items) auto
  then have p: "plain (value_of_members ?kvs)" by (intro plain_members) (auto simp: int_limits NUL_def)
  have w: "Reader_parse L Features_all (FastWriter_write L new_FastWriter (value_of_members ?kvs)) nullValue
      = Some (True, reread (value_of_members ?kvs), [])" for L
    using p by (intro parse_written) (simp_all add: new_FastWriter_def Features_all_def)
  have "vmember (reread (value_of_members ?kvs)) ''pairs'' = Inr (value_of_items (map (\<lambda>p. reread (pair_value ?P p)) ?ps))"
    by (simp add: vmember_members reread_items o_def NUL_def)
  moreover have "\<not> isNull (value_of_items (map (\<lambda>p. reread (pair_value ?P p)) ?ps))"
    using assms(4) items_kind [of "map (\<lambda>p. reread (pair_value ?P p)) ?ps"] by simp
  ultimately show ?thesis
    using assms(1,5) read_written_pairs [OF assms(3), of 0 "length ?ps"] w
    by (simp add: eice_get_nego_result_def v get_addr_pairs_from_result_def size_items)
qed

section \<open>An example\<close>

definition sample_pjlib :: pjlib where
  "sample_pjlib = \<lparr>sock_text = (\<lambda>(f, t, p). Some t), sock_port = (\<lambda>(f, t, p). p), comp_field = (\<lambda>i. i mod 256),
     cand_type_name = (\<lambda>k. case k of CAND_HOST \<Rightarrow> ''host'' | CAND_SRFLX \<Rightarrow> ''srflx'' | CAND_RELAYED \<Rightarrow> ''relay'' | CAND_OTHER \<Rightarrow> ''prflx''),
     max_stun = 8\<rparr>"

definition sample_cand :: "int \<Rightarrow> ice_cand" where
  "sample_cand port = \<lparr>cand_comp = 1, cand_kind = CAND_SRFLX, foundation = ''f'', cand_prio = 100,
     cand_addr = (AF_INET, ''1.2.3.4'', port), base_addr = (AF_INET, ''10.0.0.1'', port), rel_addr = (AF_INET, [], 0)\<rparr>"

definition sample_eice_env :: eice_env where
  "sample_eice_env = \<lparr>e_lib = no_doubles, e_pj = sample_pjlib,
     e_conf = \<lparr>now_ms = 10, tick = (\<lambda>i. 123), nath_status = (\<lambda>k. 0), lookup = (\<lambda>n. None)\<rparr>, e_tick = 7, e_create = (\<lambda>k. 0),
     e_init = Some 0, e_init_ice = 0, e_creds = Inr (''u'', ''p''), e_cands = (\<lambda>c. Inr [sample_cand 4000]), e_start = 0,
     e_socks = [Inr (4, None, 9)], e_pair = (\<lambda>c. if c = 1 then Some (True, sample_cand 4000, sample_cand 6000) else None),
     e_fd = (\<lambda>c. 20 + int c), e_has_sess = True, has_result_func = True\<rparr>"

definition sample_cfg :: eice_config where
  "sample_cfg = \<lparr>turn_host = ''t'', turn_port = 3478, bind_cfg = [], comp_count = 1, relay_ms = nullValue,
     relay_caller = nullValue, relay_callee = nullValue, turnAddrs = nullValue\<rparr>"

definition sample_eice :: eice where
  "sample_eice = (blank_eice CONTROLLING sample_cfg)\<lparr>icest := True, ice_init_done := True\<rparr>"

lemma sample_nominated: "nominated sample_eice_env (sample_eice\<lparr>ice_nego_done := True\<rparr>) = [(1, sample_cand 4000, sample_cand 6000)]"
  by (simp add: nominated_def comp_ids_def sample_eice_def blank_eice_def sample_cfg_def sample_eice_env_def)

lemma sample_good: "0 \<le> p \<Longrightarrow> p \<le> 65535 \<Longrightarrow> good_cand sample_pjlib (sample_cand p)"
  by (simp add: good_cand_def good_addr_def sample_pjlib_def sample_cand_def get_ip_port_from_sockaddr_def NUL_def int_limits)

theorem nego_result_read_back_witness:
  "\<exists>text. eice_get_nego_result sample_eice_env (sample_eice\<lparr>ice_nego_done := True\<rparr>) = Some text
    \<and> get_addr_pairs_from_result (sample_env\<lparr>stolen := [(4000, 9)]\<rparr>) text
      = [\<lparr>local_ip = ''10.0.0.1'', local_port = 4000, remote_ip = ''1.2.3.4'', remote_port = 6000, local_fd = 9\<rparr>]"
proof -
  let ?e = "sample_eice\<lparr>ice_nego_done := True\<rparr>" and ?E = "sample_env\<lparr>stolen := [(4000, 9)]\<rparr>"
  have d: "parts_done ?e" "nego_status ?e = 0"
    by (simp_all add: parts_done_def nego_status_def sample_eice_def blank_eice_def)
  have p: "e_pj sample_eice_env = sample_pjlib" "env_lib ?E = e_lib sample_eice_env" "stolen ?E = [(4000, 9)]"
    by (simp_all add: sample_eice_env_def sample_env_def)
  have "\<forall>p \<in> set (nominated sample_eice_env ?e). good_pair (e_pj sample_eice_env) p"
    by (simp add: sample_nominated p good_pair_def sample_good int_limits)
  from nego_result_read_back [OF d this _ p(2)] show ?thesis
    unfolding sample_nominated p(1,3)
    by (simp add: get_ip_port_from_sockaddr_def sample_pjlib_def sample_cand_def)
qed

end
