(* ===== verification/EiceDescription.thy ===== *)
theory EiceDescription
  imports EiceResult
begin

text \<open>
  The description of an endpoint on its way to the other side: written by \<open>eice_get_local\<close>, read by
  \<open>parse_content\<close>.
\<close>

section \<open>One candidate\<close>

text \<open>
  The documented names of the candidate types that \<open>parse_content\<close> knows, and a component number that
  survives its field.
\<close>

definition known_cand :: "pjlib \<Rightarrow> ice_cand \<Rightarrow> bool" where
  "known_cand P c \<longleftrightarrow> good_cand P c \<and> comp_field P (cand_comp c) = cand_comp c
     \<and> cand_type_of (cand_type_name P (cand_kind c)) = Some (cand_kind c)"

definition rel_shown :: "pjlib \<Rightarrow> ice_cand \<Rightarrow> string \<times> int" where
  "rel_shown P c =
     (if cand_kind c = CAND_HOST then ([], 0)
      else get_ip_port_from_sockaddr P (if sock_text P (base_addr c) \<noteq> None then base_addr c else cand_addr c))"

text \<open>What the other side makes of a candidate.\<close>

definition received :: "pjlib \<Rightarrow> answers \<Rightarrow> family \<Rightarrow> ice_cand \<Rightarrow> ice_cand" where
  "received P ans af c =
     (let (ip, port) = get_ip_port_from_sockaddr P (cand_addr c); (rip, rport) = rel_shown P c
      in c\<lparr>cand_addr := make_addr ans (Some ip) port af, base_addr := (AF_OTHER, [], 0),
           rel_addr := make_addr ans (Some rip) rport af\<rparr>)"

lemma map_of_cand_rel:
  assumes "key = ''rel-addr'' \<or> key = ''rel-port''"
  shows "map_of (rev (cand_members P n c a)) key = map_of (rev (rel_members P c)) key"
  using assms by (elim disjE) (simp_all add: cand_members_def map_add_def split: option.split)

lemma rel_lookup:
  "map_of (rev (rel_members P c)) ''rel-addr''
     = (if cand_kind c = CAND_HOST then None else Some (Value_of_string (fst (rel_shown P c))))"
  "map_of (rev (rel_members P c)) ''rel-port''
     = (if cand_kind c = CAND_HOST then None else Some (intValue (snd (rel_shown P c))))"
  by (simp_all add: rel_members_def rel_shown_def case_prod_unfold Let_def)

lemma read_written_cand:
  assumes "known_cand P c"
  shows "parse_cand P L ans af (reread (cand_to_json_value P n c)) = Inr (Some (received P ans af c))"
proof -
  let ?a = "get_ip_port_from_sockaddr P (cand_addr c)" and ?v = "reread (cand_to_json_value P n c)"
  have g: "good_shown ?a" "0 < cand_comp c" "cand_comp c \<le> 255" "NUL \<notin> set (foundation c)" "int (unat (cand_prio c)) \<le> maxInt"
    "NUL \<notin> set (cand_type_name P (cand_kind c))"
    using assms by (simp_all add: known_cand_def good_cand_def good_addr_shown)
  have r: "good_shown (rel_shown P c)"
    using assms by (auto simp: rel_shown_def known_cand_def good_cand_def good_addr_shown good_shown_def [of "([], 0)"])
  have m: "vmember ?v ''component'' = Inr (intValue (cand_comp c))" "vmember ?v ''foundation'' = Inr (stringValue (foundation c))"
    "vmember ?v ''priority'' = Inr (intValue (int (unat (cand_prio c))))"
    "vmember ?v ''type'' = Inr (stringValue (cand_type_name P (cand_kind c)))"
    "vmember ?v ''ip'' = Inr (stringValue (fst ?a))" "vmember ?v ''port'' = Inr (intValue (snd ?a))"
    using g by (simp_all add: cand_to_json_value_def vmember_members cand_lookup NUL_def good_shown_def int_limits)
  have m2: "vmember ?v ''rel-addr'' = Inr (if cand_kind c = CAND_HOST then nullValue else stringValue (fst (rel_shown P c)))"
    "vmember ?v ''rel-port'' = Inr (if cand_kind c = CAND_HOST then nullValue else intValue (snd (rel_shown P c)))"
    using r by (simp_all add: cand_to_json_value_def vmember_members map_of_cand_rel rel_lookup NUL_def good_shown_def int_limits)
  have h: "cand_kind c = CAND_HOST \<Longrightarrow> rel_shown P c = ([], 0)" by (simp add: rel_shown_def)
  have z: "- 2147483648 \<le> uint (cand_prio c)" by (rule order_trans [OF _ unsigned_greater_eq]) simp
  have i: "isUInt (intValue (cand_comp c))" "isUInt (intValue (int (unat (cand_prio c))))" "isUInt (intValue (snd ?a))"
    "isUInt (intValue (snd (rel_shown P c)))" "asInt (intValue (cand_comp c)) = Inr (cand_comp c)"
    "asInt (intValue (int (unat (cand_prio c)))) = Inr (int (unat (cand_prio c)))" "asInt (intValue (snd ?a)) = Inr (snd ?a)"
    "asInt (intValue (snd (rel_shown P c))) = Inr (snd (rel_shown P c))"
    using g r z by (simp_all add: good_shown_def int_limits)
  have n: "\<not> isNull (intValue j)" "\<not> isNull (stringValue s)" "isString (stringValue s)" "isNull nullValue" for j s
    by (simp_all add: isNull_def isString_def)
  have gi: "json_get_int ?v ''component'' (-1) = Inr (cand_comp c)" "json_get_int ?v ''priority'' (-1) = Inr (int (unat (cand_prio c)))"
    "json_get_int ?v ''port'' 0 = Inr (snd ?a)" "json_get_int ?v ''rel-port'' 0 = Inr (snd (rel_shown P c))"
    unfolding json_get_int_def m m2 throw_bind_simps using i n h by (simp_all del: isUInt.simps asInt.simps)
  have gs: "json_get_string L ?v ''foundation'' [] = Inr (foundation c)"
    "json_get_string L ?v ''type'' [] = Inr (cand_type_name P (cand_kind c))" "json_get_string L ?v ''ip'' [] = Inr (fst ?a)"
    "json_get_string L ?v ''rel-addr'' [] = Inr (fst (rel_shown P c))"
    unfolding json_get_string_def m m2 throw_bind_simps using n h by simp_all
  have p: "(of_int (int (unat (cand_prio c))) :: u32) = cand_prio c" by simp
  have cs: "c_str (foundation c) = foundation c" "c_str (fst ?a) = fst ?a" "c_str (fst (rel_shown P c)) = fst (rel_shown P c)"
    using g r by (simp_all add: c_str_id good_shown_def)
  show ?thesis
    using assms g(2) unfolding parse_cand_def gi gs throw_bind_simps
    by (simp add: known_cand_def received_def case_prod_unfold Let_def cs p)
qed

section \<open>All of them\<close>

lemma read_written_cands:
  assumes "\<forall>v \<in> set (vs :: Value list). \<exists>c. parse_cand P L ans af v = Inr (Some c)"
  shows "i + k = length vs \<Longrightarrow> i \<le> MAX_CANDIDATE_COUNT \<Longrightarrow> parse_cands P L ans af i k (value_of_items vs)
    = (if length vs \<le> MAX_CANDIDATE_COUNT
       then Inr (Some (map (\<lambda>v. case parse_cand P L ans af v of Inr (Some c) \<Rightarrow> c) (drop i vs)))
       else Inl (Crash OutOfBounds))"
proof (induction k arbitrary: i)
  case (Suc k)
  then have i: "i < length vs" by simp
  then obtain c where c: "parse_cand P L ans af (vs ! i) = Inr (Some c)" using assms nth_mem by blast
  have d: "drop i vs = vs ! i # drop (Suc i) vs" using i by (simp add: Cons_nth_drop_Suc)
  show ?case
  proof (cases "i = MAX_CANDIDATE_COUNT")
    case True
    then show ?thesis using i by (simp add: index_items)
  next
    case False
    then show ?thesis using Suc.IH [of "Suc i"] Suc.prems i c d by (simp add: index_items)
  qed
qed (simp add: value_of_items_def)

section \<open>The whole description\<close>

text \<open>
  What pjnath gives an endpoint that is ready to describe itself: user name, password, and for each
  component its candidates, at most as many as were asked for.
\<close>

definition describes :: "eice_env \<Rightarrow> eice \<Rightarrow> string \<Rightarrow> string \<Rightarrow> ice_cand list \<Rightarrow> bool" where
  "describes E e u p cands \<longleftrightarrow> icest e \<and> ice_init_done e \<and> e_init_ice E = 0 \<and> e_creds E = Inr (u, p)
     \<and> (\<exists>C. (\<forall>cid \<in> set (comp_ids (e_cfg e)). e_cands E cid = Inr (C cid) \<and> length (C cid) \<le> MAX_CANDIDATE_COUNT)
          \<and> cands = concat (map C (comp_ids (e_cfg e))))"

lemma local_cands_values:
  assumes "\<forall>cid \<in> set cids. e_cands E cid = Inr (C cid) \<and> length (C cid) \<le> MAX_CANDIDATE_COUNT"
  shows "\<exists>vs. local_cands E cids = Inr vs
    \<and> list_all2 (\<lambda>v c. \<exists>n < 1000. v = cand_to_json_value (e_pj E) n c) vs (concat (map C cids))"
  using assms
proof (induction cids)
  case (Cons cid cids)
  then obtain vs where vs: "local_cands E cids = Inr vs"
    "list_all2 (\<lambda>v c. \<exists>n < 1000. v = cand_to_json_value (e_pj E) n c) vs (concat (map C cids))" by auto
  let ?w = "map (\<lambda>(ci, c). cand_to_json_value (e_pj E) ci c) (enumerate 0 (C cid))"
  have "list_all2 (\<lambda>v c. \<exists>n < 1000. v = cand_to_json_value (e_pj E) n c) ?w (C cid)"
    using Cons.prems by (force simp: list_all2_conv_all_nth nth_enumerate_eq MAX_CANDIDATE_COUNT_def)
  then show ?case using vs Cons.prems by (auto intro!: list_all2_appendI)
qed simp

lemma isNull_reread [simp]: "isNull (reread v) = isNull v"
  by (cases v) (simp_all add: isNull_def)

lemma config_lookup:
  "map_of (rev (config_members e)) ''ufrag'' = None" "map_of (rev (config_members e)) ''pwd'' = None"
  "map_of (rev (config_members e)) ''candidates'' = None"
  "map_of (rev (config_members e)) ''relayMS'' = (if isNull (relay_ms (e_cfg e)) then None else Some (relay_ms (e_cfg e)))"
  "map_of (rev (config_members e)) ''forceRelay'' = (if force_relay e = 0 then None else Some (intValue (force_relay e)))"
  by (simp_all add: config_members_def)

lemma config_keys: "\<forall>(k, v) \<in> set (config_members e). NUL \<notin> set k"
  by (auto simp: config_members_def NUL_def)

lemma description_read:
  assumes d: "describes E e u p cands" and u: "u \<noteq> []" "NUL \<notin> set u" "NUL \<notin> set p"
    and c: "cands \<noteq> []" "\<forall>c \<in> set cands. known_cand (e_pj E) c"
    and m: "\<forall>(k, v) \<in> set (config_members e). plain v" "force_relay e = 0 \<or> force_relay e = 1"
      "isNull (relay_ms (e_cfg e)) \<or> \<not> isNull (relay_ms cf)"
  shows "\<exists>e' text. get_local E e = (0, e') \<and> local_content e' = Some text
    \<and> parse_content (e_pj E) (e_lib E) ans af CONTROLLING text cf
      = (if length cands \<le> MAX_CANDIDATE_COUNT
         then Inr (Some \<lparr>rd_ufrag = u, rd_pwd = p, rd_cands = map (received (e_pj E) ans af) cands, rd_cfg = cf,
                rd_force_relay = force_relay e\<rparr>)
         else Inl (Crash OutOfBounds))"
proof -
  let ?P = "e_pj E" and ?L = "e_lib E"
  obtain C where C: "\<forall>cid \<in> set (comp_ids (e_cfg e)). e_cands E cid = Inr (C cid) \<and> length (C cid) \<le> MAX_CANDIDATE_COUNT"
    "cands = concat (map C (comp_ids (e_cfg e)))" using d by (auto simp: describes_def)
  obtain vs where vs: "local_cands E (comp_ids (e_cfg e)) = Inr vs"
    "list_all2 (\<lambda>v c. \<exists>n < 1000. v = cand_to_json_value ?P n c) vs cands"
    using local_cands_values [OF C(1)] C(2) by auto
  have len: "length vs = length cands" using vs(2) by (rule list_all2_lengthD)
  have one: "\<exists>n < 1000. vs ! i = cand_to_json_value ?P n (cands ! i)" if "i < length cands" for i
    using vs(2) that by (auto simp: list_all2_conv_all_nth)
  let ?w = "map reread vs"
  let ?kvs = "[(''ufrag'', Value_of_string u), (''pwd'', Value_of_string p), (''candidates'', value_of_items vs)] @ config_members e"
  let ?v = "reread (value_of_members ?kvs)"
  let ?e' = "e\<lparr>loc_ufrag := Some u, loc_pwd := Some p, local_content := Some (write_content ?L ?kvs)\<rparr>"
  have e': "get_local E e = (0, ?e')"
    using d vs(1) by (simp add: describes_def get_local_def config_members_def)
  have pc: "plain v" if v: "v \<in> set vs" for v
  proof -
    obtain i where i: "i < length cands" "v = vs ! i" using v len by (auto simp: in_set_conv_nth)
    obtain n where n: "n < 1000" "v = cand_to_json_value ?P n (cands ! i)" using one [OF i(1)] i(2) by blast
    have "good_cand ?P (cands ! i)" using c(2) nth_mem [OF i(1)] by (simp add: known_cand_def)
    moreover from this have "good_shown (get_ip_port_from_sockaddr ?P (cand_addr (cands ! i)))"
      by (simp add: good_cand_def good_addr_shown)
    ultimately show ?thesis unfolding n(2) cand_to_json_value_def using n(1) by (intro plain_cand)
  qed
  have parsed: "parse_cand ?P ?L ans af (?w ! i) = Inr (Some (received ?P ans af (cands ! i)))" if "i < length cands" for i
    using one [OF that] read_written_cand c(2) nth_mem [OF that] len that by fastforce
  have pw: "\<forall>v \<in> set ?w. \<exists>c. parse_cand ?P ?L ans af v = Inr (Some c)"
  proof
    fix v
    assume "v \<in> set ?w"
    then obtain i where "i < length cands" "v = ?w ! i" using len by (auto simp: in_set_conv_nth)
    then show "\<exists>c. parse_cand ?P ?L ans af v = Inr (Some c)" using parsed by blast
  qed
  have ws: "map (\<lambda>v. case parse_cand ?P ?L ans af v of Inr (Some c) \<Rightarrow> c) ?w = map (received ?P ans af) cands"
    using parsed len by (intro nth_equalityI) auto
  have "plain (value_of_members ?kvs)"
  proof (rule plain_members)
    have cm: "\<forall>(k, v) \<in> set (config_members e). NUL \<notin> set k \<and> plain v" using m(1) config_keys [of e] by blast
    have "plain (value_of_items vs)" using pc by (intro plain_items) blast
    then show "\<forall>(k, v) \<in> set ?kvs. NUL \<notin> set k \<and> plain v"
      unfolding set_append ball_Un using cm reread_text(2) [OF u(2)] reread_text(2) [OF u(3)] by (simp add: NUL_def)
  qed
  then have r: "Reader_parse ?L Features_all (write_content ?L ?kvs) nullValue = Some (True, ?v, [])"
    unfolding write_content_def by (subst if_P, simp, intro parse_written) (simp_all add: new_FastWriter_def Features_all_def)
  have look: "vmember ?v ''ufrag'' = Inr (stringValue u)" "vmember ?v ''pwd'' = Inr (stringValue p)"
    "vmember ?v ''candidates'' = Inr (value_of_items ?w)"
    "vmember ?v ''relayMS'' = Inr (if isNull (relay_ms (e_cfg e)) then nullValue else reread (relay_ms (e_cfg e)))"
    "vmember ?v ''forceRelay'' = Inr (if force_relay e = 0 then nullValue else intValue (force_relay e))"
    using u m(2) by (auto simp: vmember_members config_lookup map_add_def NUL_def reread_items int_limits)
  have w: "?w \<noteq> []" using c(1) len by auto
  have g: "json_get_string ?L ?v ''ufrag'' [] = Inr u" "json_get_string ?L ?v ''pwd'' [] = Inr p"
    "json_get_array ?v ''candidates'' nullValue = Inr (value_of_items ?w)"
    "json_get_int ?v ''forceRelay'' 0 = Inr (force_relay e)"
    unfolding json_get_string_def json_get_array_def json_get_int_def look throw_bind_simps
    using items_kind [OF w] m(2) by (auto simp: isNull_def isString_def int_limits)
  have a: "adopt_relay (if isNull (relay_ms (e_cfg e)) then nullValue else reread (relay_ms (e_cfg e))) cf = Inr cf"
    using m(3) by (auto simp: adopt_relay_def isNull_def)
  have ne: "\<not> Value_empty (value_of_items ?w)" using items_empty [of ?w] w by simp
  have cs: "parse_cands ?P ?L ans af 0 (Value_size (value_of_items ?w)) (value_of_items ?w)
      = (if length cands \<le> MAX_CANDIDATE_COUNT then Inr (Some (map (received ?P ans af) cands)) else Inl (Crash OutOfBounds))"
    using read_written_cands [OF pw, of 0 "length ?w"] ws len by (simp add: size_items)
  have "parse_content ?P ?L ans af CONTROLLING (write_content ?L ?kvs) cf
      = (if length cands \<le> MAX_CANDIDATE_COUNT
         then Inr (Some \<lparr>rd_ufrag = u, rd_pwd = p, rd_cands = map (received ?P ans af) cands, rd_cfg = cf,
                rd_force_relay = force_relay e\<rparr>)
         else Inl (Crash OutOfBounds))"
  proof -
    define V where "V = ?v"
    show ?thesis
      unfolding parse_content_def r V_def [symmetric] using u(1) ne
      by (simp add: g [folded V_def] look(4) [folded V_def] cs a adopt_turn_def)
  qed
  then show ?thesis using e' by simp
qed


text \<open>
  C40: A longer one kills the reader. An endpoint asks pjnath for up to eight candidates of each
  component and describes them all, while the other side has room for eight in all: with more,
  \<open>parse_content\<close> writes behind the array.
\<close>
theorem description_overflows:
  assumes "describes E e u p cands" "u \<noteq> []" "NUL \<notin> set u" "NUL \<notin> set p" "cands \<noteq> []"
    and "\<forall>c \<in> set cands. known_cand (e_pj E) c" "\<forall>(k, v) \<in> set (config_members e). plain v"
    and "force_relay e = 0 \<or> force_relay e = 1" "isNull (relay_ms (e_cfg e)) \<or> \<not> isNull (relay_ms cf)"
    and "MAX_CANDIDATE_COUNT < length cands"
  shows "\<exists>e' text. get_local E e = (0, e') \<and> local_content e' = Some text
    \<and> parse_content (e_pj E) (e_lib E) ans af CONTROLLING text cf = Inl (Crash OutOfBounds)"
  using description_read [OF assms(1-9), of ans af] assms(10) by simp

lemma sample_known: "known_cand sample_pjlib (sample_cand 4000)"
  using sample_good [of 4000] by (simp add: known_cand_def) (simp add: sample_pjlib_def sample_cand_def cand_type_of_def)

lemma sample_config_members: "config_members (sample_eice\<lparr>e_cfg := sample_cfg\<lparr>comp_count := n\<rparr>\<rparr>) = []"
  by (simp add: config_members_def sample_eice_def blank_eice_def sample_cfg_def isNull_def)


theorem description_overflows_witness:
  "\<exists>e' text. get_local (sample_eice_env\<lparr>e_cands := (\<lambda>c. Inr (replicate 5 (sample_cand 4000)))\<rparr>)
      (sample_eice\<lparr>e_cfg := sample_cfg\<lparr>comp_count := 2\<rparr>\<rparr>) = (0, e') \<and> local_content e' = Some text
    \<and> parse_content sample_pjlib no_doubles (\<lambda>n. None) AF_INET CONTROLLING text sample_cfg = Inl (Crash OutOfBounds)"
proof -
  let ?e = "sample_eice\<lparr>e_cfg := sample_cfg\<lparr>comp_count := 2\<rparr>\<rparr>"
  let ?E = "sample_eice_env\<lparr>e_cands := (\<lambda>c. Inr (replicate 5 (sample_cand 4000)))\<rparr>"
  have ids: "comp_ids (sample_cfg\<lparr>comp_count := 2\<rparr>) = [1, 2]" by (simp add: comp_ids_def upto.simps)
  have d: "describes ?E ?e ''u'' ''p'' (replicate 10 (sample_cand 4000))"
    unfolding describes_def
    by (auto simp: ids sample_eice_def blank_eice_def sample_eice_env_def MAX_CANDIDATE_COUNT_def numeral_eq_Suc
        intro!: exI [of _ "\<lambda>c. replicate 5 (sample_cand 4000)"])
  have p: "e_pj ?E = sample_pjlib" "e_lib ?E = no_doubles" by (simp_all add: sample_eice_env_def)
  have f: "force_relay ?e = 0" "isNull (relay_ms (e_cfg ?e))"
    by (simp_all add: sample_eice_def blank_eice_def sample_cfg_def isNull_def)
  show ?thesis
    using description_overflows [OF d, of sample_cfg "\<lambda>n. None" AF_INET] sample_known f
    unfolding sample_config_members p by (simp add: NUL_def MAX_CANDIDATE_COUNT_def)
qed

end
