(* ===== verification/EiceLife.thy ===== *)
theory EiceLife
  imports EiceDescription RelayLiveness
begin

text \<open>
  The life of an ICE endpoint: the endpoint and its relay client stay in step, and when its result is
  there for the application to fetch.
\<close>

section \<open>Events\<close>

datatype eice_event =
    IceReport strans_op int
  | NegoTimeout
  | ConficeEvent conf_event
  | StartNego string
  | DescribeLocal
  | StealSockets
  | TakeSocket "int \<Rightarrow> int option" bool int

fun eice_exec :: "eice_env \<Rightarrow> eice_event \<Rightarrow> eice \<Rightarrow> eice_result" where
  "eice_exec E (IceReport op status) e = cb_on_ice_complete E op status e"
| "eice_exec E NegoTimeout e = timer_ice_cb E e"
| "eice_exec E (ConficeEvent ev) e = with_confice (conf_exec ev) e"
| "eice_exec E (StartNego remote) e = map_sum (\<lambda>c. c) snd (eice_start_nego E remote e)"
| "eice_exec E DescribeLocal e = Inr (fst (snd (eice_get_local E e)), [])"
| "eice_exec E StealSockets e = map_sum (\<lambda>c. c) (\<lambda>e'. (e', [])) (update_steal_sockets E e)"
| "eice_exec E (TakeSocket name lib_ok port) e = Inr (snd (get_global_socket name lib_ok port e), [])"

text \<open>A negotiation is started once; the relay client only acts when there is one.\<close>

fun allowed :: "eice_event \<Rightarrow> eice \<Rightarrow> bool" where
  "allowed (StartNego _) e = (e_confice e = None)"
| "allowed (ConficeEvent _) e = (e_confice e \<noteq> None)"
| "allowed _ e = True"

inductive eice_reach :: "eice \<Rightarrow> bool" where
  new: "eice_new E config rl remote = Inr (Inr (e, eff)) \<Longrightarrow> eice_reach e"
| step: "eice_reach e \<Longrightarrow> allowed ev e \<Longrightarrow> eice_exec E ev e = Inr (e', eff) \<Longrightarrow> eice_reach e'"

section \<open>The invariant\<close>

definition in_step :: "eice \<Rightarrow> bool" where
  "in_step e \<longleftrightarrow> (case e_confice e of
       None \<Rightarrow> \<not> confice_done e
     | Some C \<Rightarrow> role C = e_role e \<and> conf_ok C \<and> (confice_done e \<longleftrightarrow> state C = CONF_OP_FINAL)
         \<and> (confice_done e \<longrightarrow> confice_status e = final_result C))"

definition eice_inv :: "eice \<Rightarrow> bool" where
  "eice_inv e \<longleftrightarrow> in_step e \<and> length (remote_cands e) \<le> MAX_CANDIDATE_COUNT
     \<and> (rem_ufrag e = None \<longleftrightarrow> remote_cands e = []) \<and> (rem_pwd e = None \<longleftrightarrow> remote_cands e = [])
     \<and> length (steal_sockets e) = MAX_STEAL_SOCKET \<and> steal_socket_count e \<le> MAX_STEAL_SOCKET"

text \<open>The parts of an endpoint that a step of the relay client leaves alone.\<close>

definition same_rest :: "eice \<Rightarrow> eice \<Rightarrow> bool" where
  "same_rest e e' \<longleftrightarrow> e\<lparr>e_confice := None, confice_done := False, confice_status := 0\<rparr>
     = e'\<lparr>e_confice := None, confice_done := False, confice_status := 0\<rparr>"

lemma fold_confice_effect:
  "fold confice_effect eff e = (case final_results eff of [] \<Rightarrow> e
     | rs \<Rightarrow> e\<lparr>confice_done := True, confice_status := last rs\<rparr>)"
proof (induction eff arbitrary: e)
  case (Cons x eff)
  show ?case
  proof (cases x)
    case (OnComplete op st)
    then show ?thesis using Cons [of "on_confice_complete op st e"]
      by (auto simp: on_confice_complete_def split: list.split)
  qed (use Cons in simp_all)
qed simp

lemma with_confice_step:
  assumes "with_confice (conf_exec ev) e = Inr (e', eff)" "in_step e"
  shows "\<exists>C C' ceff. e_confice e = Some C \<and> e_confice e' = Some C' \<and> conf_exec ev C = Inr (C', ceff) \<and> eff = map OfConfice ceff
    \<and> in_step e' \<and> same_rest e e'"
proof -
  obtain C C' ceff where x: "e_confice e = Some C" "conf_exec ev C = Inr (C', ceff)"
    "e' = fold confice_effect ceff (e\<lparr>e_confice := Some C'\<rparr>)" "eff = map OfConfice ceff"
  proof (cases "e_confice e")
    case None
    then show thesis using assms(1) by (simp add: with_confice_def)
  next
    case (Some C)
    then show thesis using assms(1) that by (cases "conf_exec ev C") (auto simp: with_confice_def)
  qed
  have a: "advances C ceff C'" using x(2) by (rule conf_exec_advances)
  then have sc: "same_conf C C'" by (simp add: advances_def)
  have s: "role C = e_role e" "conf_ok C" "confice_done e \<longleftrightarrow> state C = CONF_OP_FINAL"
    "confice_done e \<longrightarrow> confice_status e = final_result C" using assms(2) x(1) by (simp_all add: in_step_def)
  have C': "role C' = e_role e" "conf_ok C'" using sc s(1,2) conf_ok_same by (auto simp: same_conf_def)
  show ?thesis
  proof (cases "state C \<noteq> CONF_OP_FINAL \<and> state C' = CONF_OP_FINAL")
    case True
    then have "final_results ceff = [final_result C']" using a by (simp add: advances_def)
    then have "e' = e\<lparr>e_confice := Some C', confice_done := True, confice_status := final_result C'\<rparr>"
      using x(3) by (simp add: fold_confice_effect)
    then show ?thesis using x C' True by (auto simp: in_step_def same_rest_def)
  next
    case False
    then have f: "final_results ceff = []" "state C = CONF_OP_FINAL \<longrightarrow> final_result C' = final_result C"
      using a by (auto simp: advances_def split: if_splits)
    have "state C \<le> state C'" using a by (simp add: advances_def)
    then have "state C' = CONF_OP_FINAL \<longleftrightarrow> state C = CONF_OP_FINAL" using False by (metis final_greatest(1) order_antisym)
    moreover have "e' = e\<lparr>e_confice := Some C'\<rparr>" using x(3) f(1) by (simp add: fold_confice_effect)
    ultimately show ?thesis using x C' s f(2) by (auto simp: in_step_def same_rest_def)
  qed
qed

text \<open>The three calls of the relay client are events of it.\<close>

lemma confice_calls: "do_cancel = conf_exec Cancel" "do_select CE = conf_exec (KickSelect CE)" "do_reg CE = conf_exec (KickReg CE)"
  by (auto simp: do_cancel_def do_select_def do_reg_def fun_eq_iff)

lemma same_rest_fields:
  assumes "same_rest e e'"
  shows "e_role e' = e_role e" "e_cfg e' = e_cfg e" "icest e' = icest e" "ice_nego_done e' = ice_nego_done e"
    "ice_nego_status e' = ice_nego_status e" "remote_cands e' = remote_cands e" "rem_ufrag e' = rem_ufrag e"
    "rem_pwd e' = rem_pwd e" "steal_sockets e' = steal_sockets e" "steal_socket_count e' = steal_socket_count e"
    "force_relay e' = force_relay e" "remote_force_relay e' = remote_force_relay e"
  using assms by (cases e; cases e'; simp add: same_rest_def)+

lemma same_rest_inv: "same_rest e e' \<Longrightarrow> eice_inv e \<Longrightarrow> in_step e' \<Longrightarrow> eice_inv e'"
  by (simp add: eice_inv_def same_rest_fields)

lemma same_rest_refl [simp]: "same_rest e e"
  by (simp add: same_rest_def)

lemma same_rest_trans: "same_rest a b \<Longrightarrow> same_rest b c \<Longrightarrow> same_rest a c"
  by (simp add: same_rest_def)

lemma confice_event_inv:
  assumes "with_confice (conf_exec ev) e = Inr (e', eff)" "eice_inv e"
  shows "eice_inv e' \<and> same_rest e e'"
proof -
  have i: "in_step e" using assms(2) by (simp add: eice_inv_def)
  from with_confice_step [OF assms(1) i] show ?thesis using assms(2) same_rest_inv by blast
qed

text \<open>Setting the fields of the ICE session keeps the invariant.\<close>

lemma inv_fields [simp]:
  "eice_inv (e\<lparr>ice_nego_done := b, ice_nego_status := n\<rparr>) = eice_inv e"
  "eice_inv (e\<lparr>ice_init_done := b, ice_init_result := n\<rparr>) = eice_inv e"
  "eice_inv (e\<lparr>local_content := c\<rparr>) = eice_inv e" "eice_inv (e\<lparr>loc_ufrag := u, loc_pwd := p\<rparr>) = eice_inv e"
  "eice_inv (e\<lparr>e_cfg := cf\<rparr>) = eice_inv e" "eice_inv (e\<lparr>force_relay := k\<rparr>) = eice_inv e"
  "eice_inv (e\<lparr>icest := b\<rparr>) = eice_inv e" "eice_inv (e\<lparr>e_af := a\<rparr>) = eice_inv e"
  by (simp_all add: eice_inv_def in_step_def split: option.split)

section \<open>What every event keeps\<close>

lemma cb_inv:
  assumes "cb_on_ice_complete E op status e = Inr (e', eff)" "eice_inv e"
  shows "eice_inv e'"
proof (cases op)
  case STRANS_NEGOTIATION
  let ?e1 = "if \<not> ice_nego_done e then e\<lparr>ice_nego_done := True, ice_nego_status := status\<rparr> else e"
  have i: "eice_inv ?e1" using assms(2) by simp
  consider "e' = ?e1" | ev eff' where "with_confice (conf_exec ev) ?e1 = Inr (e', eff')"
    using assms(1) STRANS_NEGOTIATION unfolding cb_on_ice_complete_def confice_calls Let_def
    by (auto simp: ebind_Inr split: if_splits)
  then show ?thesis using i confice_event_inv by cases auto
qed (use assms in \<open>auto simp: cb_on_ice_complete_def split: if_splits\<close>)

lemma timer_inv:
  assumes "timer_ice_cb E e = Inr (e', eff)" "eice_inv e"
  shows "eice_inv e'"
proof -
  let ?e1 = "e\<lparr>ice_nego_done := True, ice_nego_status := -1\<rparr>"
  have i: "eice_inv ?e1" using assms(2) by simp
  consider "e' = e" | "e' = ?e1" | ev eff' where "with_confice (conf_exec ev) ?e1 = Inr (e', eff')"
    using assms(1) unfolding timer_ice_cb_def confice_calls Let_def
    by (auto simp: ebind_Inr split: if_splits)
  then show ?thesis using assms(2) i confice_event_inv by cases auto
qed

lemma parse_cands_length:
  assumes "parse_cands P L ans af i k v = Inr (Some cs)" "i \<le> MAX_CANDIDATE_COUNT"
  shows "i + length cs \<le> MAX_CANDIDATE_COUNT"
  using assms
proof (induction k arbitrary: i v cs)
  case (Suc k)
  from Suc.prems obtain v' cs' c where "parse_cands P L ans af (Suc i) k v' = Inr (Some cs')" "cs = c # cs'" "i < MAX_CANDIDATE_COUNT"
    by (auto simp: ebind_Inr split: if_splits option.splits)
  then show ?case using Suc.IH [of "Suc i" v' cs'] by simp
qed simp

lemma parse_content_cands:
  assumes "parse_content P L ans af rl content cf = Inr (Some d)"
  shows "length (rd_cands d) \<le> MAX_CANDIDATE_COUNT"
proof -
  obtain v errs where r: "Reader_parse L Features_all content nullValue = Some (True, v, errs)"
    using assms by (auto simp: parse_content_def split: option.splits prod.splits bool.splits)
  have "rd_cands d = [] \<or> (\<exists>k v. parse_cands P L ans af 0 k v = Inr (Some (rd_cands d)))"
    using assms unfolding parse_content_def r option.case prod.case bool.case ebind_Inr
    by (auto simp: ebind_Inr split: if_splits option.splits)
  then show ?thesis using parse_cands_length [of P L ans af 0] by auto
qed

lemma parse_remote_inv:
  assumes "parse_remote E remote e = Inr (ret, e')" "eice_inv e"
  shows "eice_inv e' \<and> e_confice e' = e_confice e \<and> e_role e' = e_role e"
proof (cases "remote_cands e = []")
  case True
  then obtain r where r: "parse_content (e_pj E) (e_lib E) (lookup (e_conf E)) (e_af e) (e_role e) remote (e_cfg e) = Inr r"
    using assms(1) by (auto simp: parse_remote_def ebind_Inr)
  show ?thesis
  proof (cases r)
    case None
    then show ?thesis using assms r True by (auto simp: parse_remote_def)
  next
    case (Some d)
    then have "length (rd_cands d) \<le> MAX_CANDIDATE_COUNT" using r parse_content_cands by blast
    with assms r True Some show ?thesis
      by (cases "rd_cands d = []"; cases "e_confice e") (simp_all add: parse_remote_def eice_inv_def in_step_def Let_def, auto)
  qed
qed (use assms in \<open>auto simp: parse_remote_def\<close>)

lemma create_confice_inv:
  assumes "create_confice E e = Inr (ret, e', eff)" "eice_inv e" "e_confice e = None"
  shows "eice_inv e'"
proof (cases "isNull (own_relay e)")
  case False
  then obtain lu lp ru rp where f: "loc_ufrag e = Some lu" "loc_pwd e = Some lp" "rem_ufrag e = Some ru" "rem_pwd e = Some rp"
    using assms(1) by (cases "loc_ufrag e"; cases "loc_pwd e"; cases "rem_ufrag e"; cases "rem_pwd e") (simp_all add: create_confice_def)
  let ?new = "confice_new (e_lib E) (own_relay e) (lookup (e_conf E)) (e_af e) (e_role e)
    \<lparr>str_local_ufrag = lu, str_local_pwd = lp, str_remote_ufrag = ru, str_remote_pwd = rp\<rparr> (e_socks E)"
  note x = assms(1) [unfolded create_confice_def f option.case prod.case]
  consider (status) status where "?new = Inr (Inl status)" | (made) C ceff where "?new = Inr (Inr (C, ceff))"
    using x False by (cases ?new) (auto, metis sum.exhaust surj_pair)
  then show ?thesis
  proof cases
    case status
    then show ?thesis using x False assms(2) by simp
  next
    case made
    then have "ready (e_role e) C" using new_ready by blast
    moreover have "e' = e\<lparr>e_confice := Some C\<rparr>" using x False made by simp
    ultimately show ?thesis using assms(2,3) by (simp add: eice_inv_def in_step_def ready_def fresh_conf_def)
  qed
qed (use assms in \<open>simp add: create_confice_def\<close>)

lemma kick_confice_inv:
  assumes "kick_confice E e = Inr (e', eff)" "eice_inv e"
  shows "eice_inv e'"
proof (cases "e_confice e = None")
  case False
  then obtain e1 eff1 where k: "with_confice (conf_exec (KickReg (e_conf E))) e = Inr (e1, eff1)"
    using assms(1) unfolding kick_confice_def confice_calls by (auto simp: ebind_Inr)
  then have "eice_inv e1" using confice_event_inv assms(2) by blast
  moreover have "e' = e1 \<or> (\<exists>eff2. with_confice (conf_exec (KickSelect (e_conf E))) e1 = Inr (e', eff2))"
    using assms(1) k False unfolding kick_confice_def confice_calls by (auto simp: ebind_Inr split: if_splits)
  ultimately show ?thesis using confice_event_inv by blast
qed (use assms in \<open>auto simp: kick_confice_def\<close>)

lemma start_nego_inv:
  assumes "eice_start_nego E remote e = Inr (ret, e', eff)" "eice_inv e" "e_confice e = None"
  shows "eice_inv e'"
proof -
  obtain r1 e1 where p: "parse_remote E remote e = Inr (r1, e1)" using assms(1) by (auto simp: eice_start_nego_def ebind_Inr)
  then have i: "eice_inv e1" "e_confice e1 = None" using parse_remote_inv assms(2,3) by auto
  show ?thesis
  proof (cases "r1 = 0")
    case True
    then obtain r2 e2 eff2 where c: "create_confice E e1 = Inr (r2, e2, eff2)"
      using assms(1) p by (auto simp: eice_start_nego_def ebind_Inr)
    then have "eice_inv e2" using create_confice_inv i by blast
    moreover have "e' = e2 \<or> (\<exists>eff4. kick_confice E e2 = Inr (e', eff4))"
      using assms(1) p c True by (auto simp: eice_start_nego_def ebind_Inr case_prod_unfold Let_def split: if_splits)
    ultimately show ?thesis using kick_confice_inv by blast
  qed (use assms(1) p i in \<open>auto simp: eice_start_nego_def\<close>)
qed

lemma get_local_inv: "eice_inv e \<Longrightarrow> eice_inv (snd (get_local E e))"
  by (auto simp: get_local_def Let_def split: sum.splits prod.splits)

lemma new_inv:
  assumes "eice_new E config rl remote = Inr (Inr (e, eff))"
  shows "eice_inv e \<and> e_confice e = None \<and> e_role e = rl"
proof -
  obtain cf where cf: "parse_eice_config (e_lib E) (max_stun (e_pj E)) (e_tick E) config = Inr (Some cf)"
    using assms by (auto simp: eice_new_def ebind_Inr split: option.splits)
  let ?e0 = "detect_family (lookup (e_conf E)) (blank_eice rl cf)"
  have i0: "eice_inv ?e0 \<and> e_confice ?e0 = None \<and> e_role ?e0 = rl"
    by (auto simp: detect_family_def blank_eice_def eice_inv_def in_step_def split: option.splits)
  let ?r = "case remote of Some r \<Rightarrow> if r \<noteq> [] then parse_remote E r ?e0 else Inr (0, ?e0) | None \<Rightarrow> Inr (0, ?e0)"
  obtain e1 where r: "?r = Inr (0, e1)"
    using assms cf unfolding eice_new_def by (auto simp: ebind_Inr Let_def split: if_splits)
  have "eice_inv e1 \<and> e_confice e1 = None \<and> e_role e1 = rl"
  proof (cases "?r = Inr (0, ?e0)")
    case True
    then show ?thesis using r i0 by simp
  next
    case False
    then obtain x where "parse_remote E x ?e0 = Inr (0, e1)" using r by (auto split: option.splits if_splits)
    then show ?thesis using parse_remote_inv i0 by fastforce
  qed
  moreover obtain st e2 eff2 where c: "create_strans E (convert_servers (lookup (e_conf E)) e1) = (st, e2, eff2)"
    by (cases "create_strans E (convert_servers (lookup (e_conf E)) e1)")
  moreover have "find (\<lambda>k. e_create E k \<noteq> 0) [0 ..< 5] = None \<and> st = 0 \<and> e2 = e"
    using assms unfolding eice_new_def cf ebind_simps option.case Let_def r prod.case c
    by (cases "find (\<lambda>k. e_create E k \<noteq> 0) [0 ..< 5]") (simp_all split: if_splits)
  ultimately show ?thesis by (auto simp: create_strans_def convert_servers_def Let_def split: if_splits)
qed

section \<open>Sockets\<close>

lemma length_find_socket: "length (snd (find_socket name port n socks)) = length socks"
  by (induction name port n socks rule: find_socket.induct) (auto simp: case_prod_unfold Let_def)

lemma take_socket_inv: "eice_inv e \<Longrightarrow> eice_inv (snd (get_global_socket name lib_ok port e))"
  by (simp add: get_global_socket_def case_prod_unfold Let_def eice_inv_def in_step_def length_find_socket split: option.splits)

lemma length_map_filter: "length (List.map_filter f xs) \<le> length xs"
  by (induction xs) (auto simp: map_filter_simps split: option.split)

lemma steal_inv:
  assumes "update_steal_sockets E e = Inr e'" "eice_inv e"
  shows "eice_inv e'"
proof -
  obtain ret fds where f: "eice_steal_fds E e = Inr (ret, fds)"
    "e' = (if ret \<noteq> 0 then e else e\<lparr>steal_sockets := put_at 0 fds (steal_sockets e),
       steal_socket_count := max (length fds) (steal_socket_count e)\<rparr>)"
    using assms(1) by (auto simp: update_steal_sockets_def ebind_Inr)
  have "length fds \<le> MAX_STEAL_SOCKET"
  proof (cases "e_confice e")
    case None
    then show ?thesis using f(1) by (auto simp: eice_steal_fds_def comp_ids_def split: if_splits)
  next
    case (Some C)
    then have "channelCount C \<le> 2" using assms(2) by (simp add: eice_inv_def in_step_def conf_ok_def)
    then have "length (List.map_filter active_sock (channels C)) \<le> MAX_STEAL_SOCKET"
      using length_map_filter [of active_sock "channels C"] by (simp add: MAX_STEAL_SOCKET_def)
    then show ?thesis using f(1) Some
      by (auto simp: eice_steal_fds_def comp_ids_def confice_steal_fds_def split: if_splits)
  qed
  then show ?thesis using assms(2) f(2) by (simp add: eice_inv_def in_step_def split: option.splits)
qed

lemma exec_inv:
  assumes "eice_exec E ev e = Inr (e', eff)" "allowed ev e" "eice_inv e"
  shows "eice_inv e'"
proof (cases ev)
  case (StartNego remote)
  then obtain ret where "eice_start_nego E remote e = Inr (ret, e', eff)"
    using assms(1) by (cases "eice_start_nego E remote e") auto
  then show ?thesis using start_nego_inv assms(2,3) StartNego by simp
next
  case DescribeLocal
  then show ?thesis using assms get_local_inv [of e E] by (auto simp: eice_get_local_def case_prod_unfold Let_def split: if_splits)
next
  case StealSockets
  then show ?thesis using assms steal_inv by (cases "update_steal_sockets E e") auto
next
  case TakeSocket
  then show ?thesis using assms take_socket_inv by auto
qed (use assms cb_inv timer_inv confice_event_inv in auto)

lemma reach_inv: "eice_reach e \<Longrightarrow> eice_inv e"
  by (induction rule: eice_reach.induct) (use new_inv exec_inv in blast)+

text \<open>
  C9: An endpoint and its relay client stay in step. In every state that creation, one start, reports
  of pjnath, the timeout, packets and timers of the relay client and the handing out of sockets lead
  to: the endpoint has the role of its client; it regards the client as done exactly when that has
  ended, and has its result; user name and password of the other side are there exactly when its
  candidates are; and candidates and sockets fit their arrays.
\<close>
theorem endpoint_in_step:
  assumes "eice_reach e"
  shows "(\<forall>C. e_confice e = Some C \<longrightarrow> role C = e_role e \<and> conf_ok C \<and> (confice_done e \<longleftrightarrow> state C = CONF_OP_FINAL)
       \<and> (confice_done e \<longrightarrow> confice_status e = final_result C))
    \<and> (rem_ufrag e = None \<longleftrightarrow> remote_cands e = []) \<and> (rem_pwd e = None \<longleftrightarrow> remote_cands e = [])
    \<and> length (remote_cands e) \<le> 8 \<and> length (steal_sockets e) = 8 \<and> steal_socket_count e \<le> 8"
  using reach_inv [OF assms] by (auto simp: eice_inv_def in_step_def MAX_CANDIDATE_COUNT_def MAX_STEAL_SOCKET_def)

section \<open>When the result is there\<close>

text \<open>Asking for the relay never ends the relay client, and cancelling always does.\<close>

lemma select_not_final:
  assumes "conf_exec (KickSelect CE) C = Inr (C', eff)"
  shows "state C' = CONF_OP_FINAL \<longleftrightarrow> state C = CONF_OP_FINAL"
proof (cases "state C \<ge> CONF_OP_SELECTING")
  case True
  then show ?thesis using assms by (simp add: confice_kickoff_select_relay_def)
next
  case False
  then have c: "check_for_select_relay CE (C\<lparr>sel_relay_kicked := True\<rparr>) = Inr (C', eff)"
    using assms by (cases "check_for_select_relay CE (C\<lparr>sel_relay_kicked := True\<rparr>)") (auto simp: confice_kickoff_select_relay_def)
  have "state C \<noteq> CONF_OP_FINAL" using False by auto
  then show ?thesis using c by (auto simp: check_for_select_relay_def split: if_splits sum.splits)
qed

lemma cancel_final:
  assumes "conf_exec Cancel C = Inr (C', eff)"
  shows "state C' = CONF_OP_FINAL"
proof (cases "state C = CONF_OP_FINAL")
  case True
  then show ?thesis using assms by (simp add: confice_cancel_def)
next
  case False
  then have "\<not> CONF_OP_FINAL \<le> state C" by (metis final_greatest(1) order_antisym)
  then show ?thesis using assms by (auto simp: confice_cancel_def set_final_eq)
qed

lemma with_confice_done:
  assumes "with_confice (conf_exec ev) e = Inr (e', eff)" "in_step e"
  shows "\<exists>C C' ceff. e_confice e = Some C \<and> conf_exec ev C = Inr (C', ceff) \<and> (confice_done e' \<longleftrightarrow> state C' = CONF_OP_FINAL)
    \<and> e_confice e' \<noteq> None \<and> same_rest e e'"
  using with_confice_step [OF assms] by (auto simp: in_step_def)

text \<open>The first report on the negotiation, and what it leaves behind.\<close>

lemma first_report:
  assumes "cb_on_ice_complete E STRANS_NEGOTIATION status e = Inr (e', eff)" "eice_inv e" "\<not> ice_nego_done e"
  shows "ice_nego_done e' \<and> ice_nego_status e' = status \<and> icest e' = icest e \<and> force_relay e' = force_relay e
    \<and> (e_confice e' = None \<longleftrightarrow> e_confice e = None) \<and> (confice_done e' \<longleftrightarrow> e_confice e \<noteq> None \<and> (status = 0 \<or> confice_done e))
    \<and> (NegoResult \<in> set eff \<longleftrightarrow> has_result_func E)"
proof -
  let ?e1 = "e\<lparr>ice_nego_done := True, ice_nego_status := status\<rparr>"
  have i: "in_step ?e1" "in_step e" using assms(2) by (simp_all add: eice_inv_def in_step_def split: option.splits)
  have wc: "e_confice e' \<noteq> None \<and> same_rest ?e1 e' \<and> NegoResult \<notin> set eff'
      \<and> (confice_done e' \<longleftrightarrow> ev = Cancel \<or> confice_done e)"
    if w: "with_confice (conf_exec ev) ?e1 = Inr (e', eff')" "ev = Cancel \<or> ev = KickSelect (e_conf E)" for ev eff'
  proof -
    obtain C C' ceff where c: "e_confice e = Some C" "conf_exec ev C = Inr (C', ceff)" "confice_done e' \<longleftrightarrow> state C' = CONF_OP_FINAL"
      "e_confice e' \<noteq> None" "same_rest ?e1 e'" using with_confice_done [OF w(1) i(1)] by auto
    have "NegoResult \<notin> set eff'" using with_confice_step [OF w(1) i(1)] by auto
    moreover have "confice_done e \<longleftrightarrow> state C = CONF_OP_FINAL" using i(2) c(1) by (simp add: in_step_def)
    ultimately show ?thesis using c w(2) select_not_final cancel_final by blast
  qed
  show ?thesis
  proof (cases "e_confice e = None")
    case True
    then show ?thesis using assms(1,3) i(2) by (auto simp: cb_on_ice_complete_def Let_def in_step_def)
  next
    case False
    consider (ok) eff' where "status = 0" "with_confice (conf_exec Cancel) ?e1 = Inr (e', eff')"
        "eff = CancelNegoTimer # eff' @ (if has_result_func E then [NegoResult] else [])"
      | (select) eff' where "status \<noteq> 0" "with_confice (conf_exec (KickSelect (e_conf E))) ?e1 = Inr (e', eff')"
        "eff = CancelNegoTimer # eff' @ (if has_result_func E then [NegoResult] else [])"
      | (callee) "status \<noteq> 0" "e' = ?e1" "eff = CancelNegoTimer # (if has_result_func E then [NegoResult] else [])"
      using assms(1,3) False unfolding cb_on_ice_complete_def confice_calls
      by (auto simp: Let_def ebind_Inr split: if_splits)
    then show ?thesis
    proof cases
      case ok
      with wc [OF ok(2)] False same_rest_fields [of ?e1 e'] show ?thesis by auto
    next
      case select
      with wc [OF select(2)] False same_rest_fields [of ?e1 e'] show ?thesis by auto
    next
      case callee
      then show ?thesis using False by auto
    qed
  qed
qed

text \<open>
  C14: When the result is there. At the first report on the negotiation the application is told, if it
  has asked for that, whatever the report is; and the result can then be fetched exactly when the
  negotiation has succeeded, or there is no relay client, or that has already ended.
\<close>
theorem result_after_report:
  assumes "eice_reach e" "\<not> ice_nego_done e" "icest e" "force_relay e = 0"
    and "cb_on_ice_complete E STRANS_NEGOTIATION status e = Inr (e', eff)"
  shows "(NegoResult \<in> set eff \<longleftrightarrow> has_result_func E)
    \<and> (eice_get_nego_result E' e' \<noteq> None \<longleftrightarrow> status = 0 \<or> e_confice e = None \<or> confice_done e)"
  using first_report [OF assms(5) reach_inv [OF assms(1)] assms(2)] assms(3,4)
  by (auto simp: eice_get_nego_result_def parts_done_def)

text \<open>How the answer of the endpoint reaches the session service.\<close>

definition answers_with :: "ice_env \<Rightarrow> string option \<Rightarrow> bool" where
  "answers_with SE r \<longleftrightarrow> (case r of None \<Rightarrow> result_ret SE = -1 | Some t \<Rightarrow> result_ret SE = 0 \<and> result_text SE = t)"

text \<open>
  A failed negotiation ends the server. When the negotiation fails while the relay client is
  still at work, the application is told at once; the session service then asks for the result, which
  is not there, and the assertion in its callback fails.
\<close>
theorem failed_negotiation_aborts:
  assumes "eice_reach e" "\<not> ice_nego_done e" "icest e" "force_relay e = 0" "e_confice e \<noteq> None" "\<not> confice_done e"
    and "status \<noteq> 0" "has_result_func E" "cb_on_ice_complete E STRANS_NEGOTIATION status e = Inr (e', eff)"
    and "answers_with SE (eice_get_nego_result E' e')" "findSesssionByEp (sessions S) ep \<noteq> None"
  shows "NegoResult \<in> set eff \<and> getNegoResult SE ep S = Inl AssertFailed"
proof -
  have "NegoResult \<in> set eff" "eice_get_nego_result E' e' = None"
    using first_report [OF assms(9) reach_inv [OF assms(1)] assms(2)] assms(3-8)
    by (auto simp: eice_get_nego_result_def parts_done_def)
  then show ?thesis using assms(10,11) by (auto simp: answers_with_def getNegoResult_def)
qed

section \<open>Descriptions without candidates\<close>

lemma parse_empty_object: "Reader_parse L Features_all ''{}'' nullValue = Some (True, objectValue [], [])"
proof -
  have "Reader_parse L Features_all (FastWriter_write L (new_FastWriter\<lparr>omitEndingLineFeed := True\<rparr>) (objectValue [])) nullValue
      = Some (True, reread (objectValue []), [])"
    by (rule parse_written) (simp_all add: new_FastWriter_def Features_all_def)
  moreover have "FastWriter_write L (new_FastWriter\<lparr>omitEndingLineFeed := True\<rparr>) (objectValue []) = ''{}''"
    by (simp add: FastWriter_write_def new_FastWriter_def writeValue.simps separated_def)
  ultimately show ?thesis by simp
qed

lemma parse_empty_description:
  "parse_content P L ans af CONTROLLING ''{}'' cf
     = Inr (Some \<lparr>rd_ufrag = [], rd_pwd = [], rd_cands = [], rd_cfg = cf, rd_force_relay = 0\<rparr>)"
  by (simp add: parse_content_def parse_empty_object json_get_string_def json_get_array_def json_get_int_def vmember_def
      member_ref_def isNull_def adopt_relay_def adopt_turn_def)

text \<open>
  An answer without candidates ends a caller that has a relay. \<open>{}\<close> is what an endpoint describes
  itself as when it has nothing to offer, and is accepted as a description; but no user name is kept
  then, and the relay client is created from a null pointer.
\<close>
theorem relay_without_candidates:
  assumes "eice_reach e" "e_role e = CONTROLLING" "remote_cands e = []" "\<not> isNull (relay_caller (e_cfg e))"
  shows "eice_caller_nego E ''{}'' e = Inl (Crash NullDeref)"
proof -
  have "rem_ufrag e = None" using reach_inv [OF assms(1)] assms(3) by (simp add: eice_inv_def)
  then show ?thesis using assms(2-4)
    by (simp add: eice_caller_nego_def eice_start_nego_def parse_remote_def parse_empty_description create_confice_def
        own_relay_def split: option.split)
qed

section \<open>Waiting\<close>

text \<open>
  The wait for a flag ends, with success exactly when a look before the timeout finds the flag, as
  long as the clock gets to the timeout at some look.
\<close>

lemma query_wait_from_ends:
  assumes "k \<le> n" "timeout \<le> pj_elapsed_msec (clock 0) (clock n)"
    "\<forall>j. k \<le> j \<and> j < n \<longrightarrow> \<not> timeout \<le> pj_elapsed_msec (clock 0) (clock j)"
  shows "query_wait_from flag clock timeout k = Some (if \<exists>j. k \<le> j \<and> j \<le> n \<and> flag j then 0 else -1)"
  using assms
proof (induction "n - k" arbitrary: k)
  case 0
  then have "k = n" by simp
  then show ?case using 0 by (subst query_wait_from.simps) (auto dest: order_antisym)
next
  case (Suc d)
  then have k: "k < n" "\<not> timeout \<le> pj_elapsed_msec (clock 0) (clock k)" by auto
  show ?case
  proof (cases "flag k")
    case True
    then have "\<exists>j. k \<le> j \<and> j \<le> n \<and> flag j" using k by (intro exI [of _ k]) simp
    then show ?thesis using True by (subst query_wait_from.simps) simp
  next
    case False
    have "query_wait_from flag clock timeout (Suc k) = Some (if \<exists>j. Suc k \<le> j \<and> j \<le> n \<and> flag j then 0 else -1)"
      using Suc k by auto
    moreover have "(\<exists>j. Suc k \<le> j \<and> j \<le> n \<and> flag j) \<longleftrightarrow> (\<exists>j. k \<le> j \<and> j \<le> n \<and> flag j)"
      using False k(1) by (metis Suc_leD Suc_leI le_neq_implies_less)
    ultimately show ?thesis using k False by (subst query_wait_from.simps) simp
  qed
qed

theorem query_wait_returns:
  assumes "timeout \<le> pj_elapsed_msec (clock 0) (clock n)"
    "\<forall>j < n. \<not> timeout \<le> pj_elapsed_msec (clock 0) (clock j)"
  shows "query_wait flag clock timeout = Some (if \<exists>j \<le> n. flag j then 0 else -1)"
  using query_wait_from_ends [of 0 n timeout clock flag] assms by (simp add: query_wait_def)

section \<open>An example\<close>

fun eice_run :: "eice_env \<Rightarrow> eice_event list \<Rightarrow> eice \<Rightarrow> eice eres" where
  "eice_run E [] e = Inr e"
| "eice_run E (ev # evs) e =
     (if allowed ev e then ebind (eice_exec E ev e) (\<lambda>(e', eff). eice_run E evs e') else Inl (Crash AssertFailed))"

lemma run_reach: "eice_reach e \<Longrightarrow> eice_run E evs e = Inr e' \<Longrightarrow> eice_reach e'"
  by (induction evs arbitrary: e) (auto simp: ebind_Inr split: if_splits intro: eice_reach.step)

definition sample_side :: Value where
  "sample_side = value_of_members [(''conferenceId'', Value_of_string ''c''), (''serverIp'', Value_of_string ''s''),
     (''rcode'', Value_of_string ''r''), (''serverPort'', intValue 5), (''channelId'', intValue 7)]"

definition sample_config_value :: Value where
  "sample_config_value = value_of_members [(''turnHost'', Value_of_string ''t''), (''compCount'', intValue 1),
     (''relayMS'', value_of_members [(''caller'', sample_side)])]"

definition sample_answer_value :: Value where
  "sample_answer_value = value_of_members [(''ufrag'', Value_of_string ''u''), (''pwd'', Value_of_string ''p''),
     (''candidates'', value_of_items [value_of_members [(''component'', intValue 1), (''type'', Value_of_string ''host'')]])]"

definition sample_config_text :: string where
  "sample_config_text = FastWriter_write no_doubles (new_FastWriter\<lparr>omitEndingLineFeed := True\<rparr>) sample_config_value"

definition sample_answer_text :: string where
  "sample_answer_text = FastWriter_write no_doubles (new_FastWriter\<lparr>omitEndingLineFeed := True\<rparr>) sample_answer_value"

lemma sample_texts: "NUL \<notin> set sample_config_text" "NUL \<notin> set sample_answer_text" "sample_config_text \<noteq> []" "sample_answer_text \<noteq> []"
  by code_simp+

lemma sample_texts_plain: "plain sample_config_value" "plain sample_answer_value"
  by code_simp+

lemma sample_read:
  "Reader_parse no_doubles Features_all (c_str sample_config_text) nullValue = Some (True, reread sample_config_value, [])"
  "Reader_parse no_doubles Features_all sample_answer_text nullValue = Some (True, reread sample_answer_value, [])"
  unfolding c_str_id [OF sample_texts(1)] unfolding sample_config_text_def sample_answer_text_def
  by (rule parse_written, simp_all add: sample_texts_plain new_FastWriter_def Features_all_def)+

lemma sample_env_lib: "e_lib sample_eice_env = no_doubles" "e_pj sample_eice_env = sample_pjlib"
  by (simp_all add: sample_eice_env_def)

definition sample_read_side :: Value where
  "sample_read_side = value_of_members [(''channelId'', intValue 7), (''conferenceId'', stringValue ''c''),
     (''rcode'', stringValue ''r''), (''serverIp'', stringValue ''s''), (''serverPort'', intValue 5), (''sessionId'', uintValue 7)]"

definition sample_cfg_read :: eice_config where
  "sample_cfg_read = \<lparr>turn_host = ''t'', turn_port = 3478, bind_cfg = [], comp_count = 1,
     relay_ms = value_of_members [(''callee'', nullValue), (''caller'', sample_read_side)],
     relay_caller = sample_read_side, relay_callee = nullValue, turnAddrs = nullValue\<rparr>"

lemma sample_cfg_parse: "parse_eice_config no_doubles 8 7 (Some sample_config_text) = Inr (Some sample_cfg_read)"
  unfolding parse_eice_config_def option.case sample_read prod.case bool.case
  by code_simp

definition sample_caller :: eice where
  "sample_caller = (blank_eice CONTROLLING sample_cfg_read)\<lparr>icest := True\<rparr>"

lemma sample_new: "eice_new sample_eice_env (Some sample_config_text) CONTROLLING None
    = Inr (Inr (sample_caller, [CreateStrans (Some (''t'', 3478)) [] 1]))"
proof -
  have p: "parse_eice_config (e_lib sample_eice_env) (max_stun (e_pj sample_eice_env)) (e_tick sample_eice_env) (Some sample_config_text)
      = Inr (Some sample_cfg_read)"
    using sample_cfg_parse by (simp add: sample_eice_env_def sample_pjlib_def)
  show ?thesis unfolding eice_new_def p by code_simp
qed

definition sample_described :: eice where
  "sample_described = sample_caller\<lparr>ice_init_done := True, loc_ufrag := Some ''u'', loc_pwd := Some ''p'',
     local_content := Some (write_content no_doubles
       ([(''ufrag'', Value_of_string ''u''), (''pwd'', Value_of_string ''p''),
         (''candidates'', value_of_items [cand_to_json_value sample_pjlib 0 (sample_cand 4000)])] @ config_members sample_caller))\<rparr>"

lemma sample_describe: "eice_run sample_eice_env [IceReport STRANS_INIT 0, DescribeLocal] sample_caller = Inr sample_described"
  by (simp add: cb_on_ice_complete_def eice_get_local_def get_local_def sample_eice_env_def sample_caller_def blank_eice_def
      sample_cfg_read_def comp_ids_def sample_described_def config_members_def)

definition sample_desc :: remote_desc where
  "sample_desc = \<lparr>rd_ufrag = ''u'', rd_pwd = ''p'',
     rd_cands = [\<lparr>cand_comp = 1, cand_kind = CAND_HOST, foundation = [], cand_prio = of_int (-1),
       cand_addr = make_addr (\<lambda>n. None) (Some []) 0 AF_INET, base_addr = (AF_OTHER, [], 0),
       rel_addr = make_addr (\<lambda>n. None) (Some []) 0 AF_INET\<rparr>], rd_cfg = sample_cfg_read, rd_force_relay = 0\<rparr>"

lemma sample_content: "parse_content sample_pjlib no_doubles (\<lambda>n. None) AF_INET CONTROLLING sample_answer_text sample_cfg_read
    = Inr (Some sample_desc)"
  unfolding parse_content_def sample_read option.case prod.case bool.case
  by code_simp

lemma sample_remote: "parse_remote sample_eice_env sample_answer_text sample_described = Inr (0, sample_described\<lparr>
    remote_cands := rd_cands sample_desc, rufrag := ''u'', rpwd := ''p'', rem_ufrag := Some ''u'', rem_pwd := Some ''p''\<rparr>)"
  using sample_content
  by (simp add: parse_remote_def sample_eice_env_def sample_described_def sample_caller_def blank_eice_def sample_desc_def
      c_str_def NUL_def)

text \<open>The started endpoint: its ICE session and its relay client are both at work.\<close>

definition at_work :: "eice \<Rightarrow> bool" where
  "at_work e \<longleftrightarrow> icest e \<and> force_relay e = 0 \<and> \<not> ice_nego_done e \<and> e_confice e \<noteq> None \<and> \<not> confice_done e"

lemma sample_confice:
  "\<exists>C eff. confice_new no_doubles sample_read_side (\<lambda>n. None) AF_INET CONTROLLING creds [Inr (4, None, 9)] = Inr (Inr (C, eff))"
proof -
  let ?k = "[''conferenceId'', ''serverIp'', ''rcode'']" and ?n = "[''serverPort'', ''sessionId'', ''channelId'']"
  have s: "map (string_member pf sample_read_side) ?k = [Inr ''c'', Inr ''s'', Inr ''r'']" for pf by code_simp
  have i: "map (int_member sample_read_side) ?n = [Inr 5, Inr 7, Inr 7]" by code_simp
  have v: "map_sum (\<lambda>e. e) Value_empty (vmember sample_read_side ''vchannelId'') = Inr True" by code_simp
  then obtain vch where "vmember sample_read_side ''vchannelId'' = Inr vch" "Value_empty vch"
    by (cases "vmember sample_read_side ''vchannelId''") auto
  then show ?thesis using s [of "print_double no_doubles"] i by (simp add: confice_new_def case_prod_unfold Let_def)
qed

lemma sample_nego_start: "\<exists>e eff. eice_start_nego sample_eice_env sample_answer_text sample_described = Inr (0, e, eff) \<and> at_work e"
proof -
  let ?e1 = "sample_described\<lparr>remote_cands := rd_cands sample_desc, rufrag := ''u'', rpwd := ''p'', rem_ufrag := Some ''u'',
    rem_pwd := Some ''p''\<rparr>"
  let ?creds = "\<lparr>str_local_ufrag = ''u'', str_local_pwd = ''p'', str_remote_ufrag = ''u'', str_remote_pwd = ''p''\<rparr>"
  obtain C eff where C: "confice_new no_doubles sample_read_side (\<lambda>n. None) AF_INET CONTROLLING ?creds [Inr (4, None, 9)] = Inr (Inr (C, eff))"
    using sample_confice by blast
  have f: "e_role ?e1 = CONTROLLING" "relay_caller (e_cfg ?e1) = sample_read_side" "loc_ufrag ?e1 = Some ''u''" "loc_pwd ?e1 = Some ''p''"
    "e_af ?e1 = AF_INET" "e_socks sample_eice_env = [Inr (4, None, 9)]" "lookup (e_conf sample_eice_env) = (\<lambda>n. None)"
    "icest ?e1" "force_relay ?e1 = 0" "remote_force_relay ?e1 = 0" "\<not> ice_nego_done ?e1" "\<not> confice_done ?e1" "e_start sample_eice_env = 0"
    by (simp_all add: sample_described_def sample_caller_def blank_eice_def sample_cfg_read_def sample_eice_env_def)
  have nn: "\<not> isNull sample_read_side" by code_simp
  have c: "create_confice sample_eice_env ?e1 = Inr (0, ?e1\<lparr>e_confice := Some C\<rparr>, map OfConfice eff)"
    using C f nn unfolding create_confice_def own_relay_def sample_env_lib by simp
  have r: "ready CONTROLLING C" using new_ready [OF C] by simp
  then obtain C' eff' where k: "conf_exec (KickReg (e_conf sample_eice_env)) C = Inr (C', eff')" "registering C 0 C'"
    using kick_registers by blast
  have nf: "state C \<noteq> CONF_OP_FINAL" using r by (simp add: ready_def fresh_conf_def)
  have st: "state C' \<noteq> CONF_OP_FINAL" using k(2) by (simp add: registering_def)
  have q: "final_results eff' = []" using conf_exec_advances [OF k(1)] nf st by (simp add: advances_def)
  have w: "with_confice (do_reg (e_conf sample_eice_env)) (?e1\<lparr>e_confice := Some C\<rparr>) = Inr (?e1\<lparr>e_confice := Some C'\<rparr>, map OfConfice eff')"
    unfolding confice_calls with_confice_def using k(1) q by (simp add: fold_confice_effect)
  have "kick_confice sample_eice_env (?e1\<lparr>e_confice := Some C\<rparr>) = Inr (?e1\<lparr>e_confice := Some C'\<rparr>, map OfConfice eff')"
    unfolding kick_confice_def using w f by simp
  then have "\<exists>eff. eice_start_nego sample_eice_env sample_answer_text sample_described = Inr (0, ?e1\<lparr>e_confice := Some C'\<rparr>, eff)"
    unfolding eice_start_nego_def sample_remote ebind_simps prod.case c using f by (simp add: start_ice_def)
  moreover have "at_work (?e1\<lparr>e_confice := Some C'\<rparr>)" using f by (simp add: at_work_def)
  ultimately show ?thesis by blast
qed

lemma sample_reach: "eice_reach sample_caller" "eice_reach sample_described"
proof -
  show c: "eice_reach sample_caller" using sample_new by (rule eice_reach.new)
  show "eice_reach sample_described" using run_reach [OF c sample_describe] .
qed

lemma sample_at_work: "\<exists>e. eice_reach e \<and> at_work e"
proof -
  obtain e eff where e: "eice_start_nego sample_eice_env sample_answer_text sample_described = Inr (0, e, eff)" "at_work e"
    using sample_nego_start by blast
  have "allowed (StartNego sample_answer_text) sample_described"
    by (simp add: sample_described_def sample_caller_def blank_eice_def)
  then have "eice_reach e" using eice_reach.step [OF sample_reach(2), of "StartNego sample_answer_text" sample_eice_env e eff] e(1) by simp
  then show ?thesis using e(2) by blast
qed

text \<open>A report is always handled: neither cancelling nor asking for the relay fails.\<close>

lemma select_safe:
  assumes "conf_ok C"
  shows "\<exists>r. conf_exec (KickSelect CE) C = Inr r"
proof -
  have "conf_ok (C\<lparr>sel_relay_kicked := True\<rparr>)" using assms by (simp add: conf_ok_def)
  then have "\<exists>r. check_for_select_relay CE (C\<lparr>sel_relay_kicked := True\<rparr>) = Inr r"
    using check_for_select_relay_safe by (metis sum.exhaust)
  then show ?thesis by (auto simp: confice_kickoff_select_relay_def)
qed

lemma report_handled:
  assumes "eice_inv e"
  shows "\<exists>e' eff. cb_on_ice_complete E STRANS_NEGOTIATION status e = Inr (e', eff)"
proof (cases "ice_nego_done e \<or> e_confice e = None")
  case True
  then show ?thesis by (auto simp: cb_on_ice_complete_def Let_def)
next
  case False
  then obtain C where C: "e_confice e = Some C" by auto
  with assms have "conf_ok C" by (simp add: eice_inv_def in_step_def)
  let ?e1 = "e\<lparr>ice_nego_done := True, ice_nego_status := status\<rparr>"
  have "\<exists>r. with_confice (conf_exec (KickSelect (e_conf E))) ?e1 = Inr r"
    using \<open>conf_ok C\<close> select_safe [of C "e_conf E"] C by (auto simp: with_confice_def)
  then obtain s where s: "with_confice (conf_exec (KickSelect (e_conf E))) ?e1 = Inr s" by blast
  obtain c where c: "with_confice (conf_exec Cancel) ?e1 = Inr c"
    using C by (simp add: with_confice_def case_prod_unfold)
  show ?thesis
  proof (cases "status = 0")
    case True
    then show ?thesis using False C c unfolding cb_on_ice_complete_def confice_calls by (simp add: case_prod_unfold Let_def)
  next
    case no: False
    then show ?thesis using False C s unfolding cb_on_ice_complete_def confice_calls by (simp add: case_prod_unfold Let_def)
  qed
qed

theorem endpoint_in_step_witness:
  "\<exists>e C. eice_reach e \<and> e_confice e = Some C \<and> role C = e_role e \<and> state C \<noteq> CONF_OP_FINAL \<and> \<not> confice_done e
    \<and> length (steal_sockets e) = 8"
proof -
  obtain e where e: "eice_reach e" "at_work e" using sample_at_work by blast
  then obtain C where "e_confice e = Some C" by (auto simp: at_work_def)
  with endpoint_in_step [OF e(1)] e show ?thesis by (auto simp: at_work_def)
qed

theorem result_after_report_witness:
  "\<exists>e e' eff. at_work e \<and> cb_on_ice_complete sample_eice_env STRANS_NEGOTIATION 0 e = Inr (e', eff) \<and> NegoResult \<in> set eff
    \<and> eice_get_nego_result sample_eice_env e' \<noteq> None"
proof -
  obtain e where e: "eice_reach e" "at_work e" using sample_at_work by blast
  obtain e' eff where r: "cb_on_ice_complete sample_eice_env STRANS_NEGOTIATION 0 e = Inr (e', eff)"
    using report_handled [OF reach_inv [OF e(1)]] by blast
  have w: "\<not> ice_nego_done e" "icest e" "force_relay e = 0" using e(2) by (simp_all add: at_work_def)
  have "has_result_func sample_eice_env" by (simp add: sample_eice_env_def)
  with result_after_report [OF e(1) w r, of sample_eice_env] r e(2) show ?thesis by blast
qed

definition answer_env :: "string option \<Rightarrow> ice_env" where
  "answer_env r = (case r of None \<Rightarrow> sample_env\<lparr>result_ret := -1\<rparr> | Some t \<Rightarrow> sample_env\<lparr>result_ret := 0, result_text := t\<rparr>)"

lemma answer_env_ok: "answers_with (answer_env r) r"
  by (cases r) (simp_all add: answers_with_def answer_env_def)

theorem failed_negotiation_aborts_witness:
  "\<exists>e e' eff. at_work e \<and> cb_on_ice_complete sample_eice_env STRANS_NEGOTIATION (-1) e = Inr (e', eff) \<and> NegoResult \<in> set eff
    \<and> getNegoResult (answer_env (eice_get_nego_result sample_eice_env e')) 5
        (sample_with (sample_session ICE_OP_START_SESSION (Some 5))) = Inl AssertFailed"
proof -
  obtain e where e: "eice_reach e" "at_work e" using sample_at_work by blast
  obtain e' eff where r: "cb_on_ice_complete sample_eice_env STRANS_NEGOTIATION (-1) e = Inr (e', eff)"
    using report_handled [OF reach_inv [OF e(1)]] by blast
  have w: "\<not> ice_nego_done e" "icest e" "force_relay e = 0" "e_confice e \<noteq> None" "\<not> confice_done e"
    using e(2) by (simp_all add: at_work_def)
  have h: "has_result_func sample_eice_env" "(-1 :: int) \<noteq> 0" by (simp_all add: sample_eice_env_def)
  have f: "findSesssionByEp (sessions (sample_with (sample_session ICE_OP_START_SESSION (Some 5)))) 5 \<noteq> None"
    by (simp add: sample_with_def sample_session_def)
  from failed_negotiation_aborts [OF e(1) w h(2) h(1) r answer_env_ok f] e(2) r show ?thesis by blast
qed

theorem relay_without_candidates_witness:
  "eice_new sample_eice_env (Some sample_config_text) CONTROLLING None = Inr (Inr (sample_caller, [CreateStrans (Some (''t'', 3478)) [] 1]))
    \<and> eice_run sample_eice_env [IceReport STRANS_INIT 0, DescribeLocal] sample_caller = Inr sample_described
    \<and> eice_caller_nego sample_eice_env ''{}'' sample_described = Inl (Crash NullDeref)"
proof -
  have "\<not> isNull sample_read_side" by code_simp
  then have "e_role sample_described = CONTROLLING" "remote_cands sample_described = []"
    "\<not> isNull (relay_caller (e_cfg sample_described))"
    by (simp_all add: sample_described_def sample_caller_def blank_eice_def sample_cfg_read_def)
  from relay_without_candidates [OF sample_reach(2) this] show ?thesis using sample_new sample_describe by simp
qed

end
