(* ===== verification/Shutdown.thy ===== *)
theory Shutdown
  imports Eice
begin

text \<open>
  The worker thread of an endpoint and how \<open>eice_free\<close> stops it (\<open>third/eice/src/eice.cpp\<close>,
  \<open>handle_events\<close>, \<open>eice_worker_thread\<close>, \<open>eice_free\<close>). The flags are shared integers that one side sets and the
  other polls; what pjlib answers to a poll is a parameter.
\<close>

section \<open>One round of the event loop\<close>

record time_val =
  tv_sec :: int
  tv_msec :: int

definition PJ_TIME_VAL_GT :: "time_val \<Rightarrow> time_val \<Rightarrow> bool" where
  "PJ_TIME_VAL_GT t1 t2 \<longleftrightarrow> tv_sec t1 > tv_sec t2 \<or> tv_sec t1 = tv_sec t2 \<and> tv_msec t1 > tv_msec t2"

definition PJ_TIME_VAL_MSEC :: "time_val \<Rightarrow> int" where
  "PJ_TIME_VAL_MSEC t = tv_sec t * 1000 + tv_msec t"

definition MAX_NET_EVENTS :: nat where "MAX_NET_EVENTS = 1"

text \<open>
  What pjlib answers: the timer heap with the number of timers run and the time to the next one, the
  \<open>k\<close>-th poll of the ioqueue with the number of events or a negative value, the error of the system.
\<close>

record poll_answers =
  heap_poll :: "int \<times> time_val"
  ioq_poll :: "nat \<Rightarrow> int"
  netos_error :: int

datatype poll_effect = TimersRun | QueuePolled time_val | Slept int

definition poll_timeout :: "nat \<Rightarrow> time_val \<Rightarrow> time_val outcome" where
  "poll_timeout max_msec t =
     (if \<not> (tv_sec t \<ge> 0 \<and> tv_msec t \<ge> 0) then Inl AssertFailed
      else
        let t1 = (if tv_msec t \<ge> 1000 then t\<lparr>tv_msec := 999\<rparr> else t);
            max_timeout = \<lparr>tv_sec = 0, tv_msec = int max_msec\<rparr>
        in Inr (if PJ_TIME_VAL_GT t1 max_timeout then max_timeout else t1))"

text \<open>The loop over network events, from \<open>n\<close> on: the error or the number of events, and the effects.\<close>

function net_loop :: "poll_answers \<Rightarrow> nat \<Rightarrow> nat \<Rightarrow> time_val \<Rightarrow> (int + nat) \<times> poll_effect list" where
  "net_loop A k n timeout =
     (let c = ioq_poll A k
      in if c < 0 then (Inl (netos_error A), [QueuePolled timeout, Slept (PJ_TIME_VAL_MSEC timeout)])
         else if c = 0 then (Inr n, [QueuePolled timeout])
         else let n' = n + nat c
           in if n' < MAX_NET_EVENTS
              then let (r, eff) = net_loop A (Suc k) n' \<lparr>tv_sec = 0, tv_msec = 0\<rparr> in (r, QueuePolled timeout # eff)
              else (Inr n', [QueuePolled timeout]))"
  by pat_completeness auto
termination by (relation "measure (\<lambda>(A, k, n, t). MAX_NET_EVENTS - n)") (auto simp: Let_def)

declare net_loop.simps [simp del]

text \<open>
  \<open>handle_events\<close>: the status, the number of events, and whether the round has seen the request to
  leave the ioqueue alone.
\<close>

definition handle_events :: "poll_answers \<Rightarrow> nat \<Rightarrow> bool \<Rightarrow> (int \<times> nat \<times> bool \<times> poll_effect list) outcome" where
  "handle_events A max_msec ioq_stop_req =
     (let (c, t) = heap_poll A; count = (if c > 0 then nat c else 0)
      in map_sum (\<lambda>e. e)
           (\<lambda>timeout.
             if ioq_stop_req then (0, 0, True, [TimersRun, Slept (PJ_TIME_VAL_MSEC timeout)])
             else let (r, eff) = net_loop A 0 0 timeout
               in (case r of Inl err \<Rightarrow> err | Inr n \<Rightarrow> 0, count + (case r of Inl err \<Rightarrow> 0 | Inr n \<Rightarrow> n), False, TimersRun # eff))
           (poll_timeout max_msec t))"

definition waited :: "poll_effect \<Rightarrow> int" where
  "waited eff = (case eff of TimersRun \<Rightarrow> 0 | QueuePolled t \<Rightarrow> PJ_TIME_VAL_MSEC t | Slept ms \<Rightarrow> ms)"

lemma poll_timeout_bounds: "poll_timeout m t = Inr t' \<Longrightarrow> 0 \<le> PJ_TIME_VAL_MSEC t' \<and> (m < 1000 \<longrightarrow> PJ_TIME_VAL_MSEC t' \<le> int m)"
  by (auto simp: poll_timeout_def PJ_TIME_VAL_GT_def PJ_TIME_VAL_MSEC_def Let_def split: if_split_asm)

lemma net_loop_once: "net_loop A 0 0 t = (if ioq_poll A 0 < 0 then (Inl (netos_error A), [QueuePolled t, Slept (PJ_TIME_VAL_MSEC t)])
    else (Inr (nat (ioq_poll A 0)), [QueuePolled t]))"
  by (subst net_loop.simps) (auto simp: MAX_NET_EVENTS_def Let_def)

text \<open>
  C22: A round of the worker is short. Whatever pjlib answers, as long as the time to the next timer is
  not negative, a round runs the timers once, polls the ioqueue at most once, and not at all when
  it has been asked to leave it alone, and each of its waits is at most the limit: with the 500
  milliseconds of the worker, the flags that \<open>eice_free\<close> sets are read within a second.
\<close>
theorem round_bounded:
  assumes "tv_sec (snd (heap_poll A)) \<ge> 0" "tv_msec (snd (heap_poll A)) \<ge> 0" "max_msec < 1000"
  shows "\<exists>status count eff. handle_events A max_msec stop = Inr (status, count, stop, TimersRun # eff)
    \<and> length (filter (\<lambda>x. \<exists>t. x = QueuePolled t) eff) = (if stop then 0 else 1)
    \<and> (\<forall>x \<in> set eff. 0 \<le> waited x \<and> waited x \<le> int max_msec)
    \<and> sum_list (map waited eff) \<le> 2 * int max_msec"
proof -
  obtain c t where h: "heap_poll A = (c, t)" by (cases "heap_poll A")
  then have "\<exists>t'. poll_timeout max_msec t = Inr t'" using assms(1,2) by (simp add: poll_timeout_def Let_def)
  then obtain t' where t: "poll_timeout max_msec t = Inr t'" by blast
  then have "0 \<le> PJ_TIME_VAL_MSEC t'" "PJ_TIME_VAL_MSEC t' \<le> int max_msec" using poll_timeout_bounds assms(3) by auto
  then show ?thesis by (auto simp: handle_events_def h t net_loop_once waited_def Let_def)
qed

theorem round_bounded_witness:
  "\<exists>status count eff. handle_events \<lparr>heap_poll = (0, \<lparr>tv_sec = 3, tv_msec = 1200\<rparr>), ioq_poll = (\<lambda>_. -1), netos_error = 5\<rparr> 500 False
      = Inr (status, count, False, TimersRun # eff) \<and> sum_list (map waited eff) \<le> 1000"
  using round_bounded [of "\<lparr>heap_poll = (0, \<lparr>tv_sec = 3, tv_msec = 1200\<rparr>), ioq_poll = (\<lambda>_. -1), netos_error = 5\<rparr>" 500 False] by auto

section \<open>Stopping the worker\<close>

record flags =
  ioq_stop_req :: bool
  ioq_stopped :: bool
  thread_quit_flag :: bool
  thread_exited_flag :: bool

text \<open>
  Where the two threads are. The worker reads the quit flag at the head of its loop, runs the timers,
  reads the stop request, and polls the ioqueue. \<open>eice_free\<close> asks for the ioqueue to be left alone and waits,
  deletes the relay client and the session, asks the thread to quit and waits, and destroys the
  ioqueue and the timer heap.
\<close>

datatype worker_pc = AtLoop | InTimers | AtStop | InQueue | Exited
datatype free_pc = FreeStart | WaitStopped | Deleting | WaitExited | Destroying | Freed

record shutdown_state =
  fl :: flags
  worker :: worker_pc
  free_at :: free_pc

definition worker_step :: "shutdown_state \<Rightarrow> shutdown_state" where
  "worker_step s =
     (case worker s of
        AtLoop \<Rightarrow> if thread_quit_flag (fl s) then s\<lparr>fl := (fl s)\<lparr>thread_exited_flag := True\<rparr>, worker := Exited\<rparr>
                  else s\<lparr>worker := InTimers\<rparr>
      | InTimers \<Rightarrow> s\<lparr>worker := AtStop\<rparr>
      | AtStop \<Rightarrow> if ioq_stop_req (fl s) then s\<lparr>fl := (fl s)\<lparr>ioq_stopped := True\<rparr>, worker := AtLoop\<rparr>
                  else s\<lparr>worker := InQueue\<rparr>
      | InQueue \<Rightarrow> s\<lparr>worker := AtLoop\<rparr>
      | Exited \<Rightarrow> s)"

definition free_step :: "shutdown_state \<Rightarrow> shutdown_state" where
  "free_step s =
     (case free_at s of
        FreeStart \<Rightarrow> s\<lparr>fl := (fl s)\<lparr>ioq_stop_req := True\<rparr>, free_at := WaitStopped\<rparr>
      | WaitStopped \<Rightarrow> if ioq_stopped (fl s) then s\<lparr>free_at := Deleting\<rparr> else s
      | Deleting \<Rightarrow> s\<lparr>fl := (fl s)\<lparr>thread_quit_flag := True\<rparr>, free_at := WaitExited\<rparr>
      | WaitExited \<Rightarrow> if thread_exited_flag (fl s) then s\<lparr>free_at := Destroying\<rparr> else s
      | Destroying \<Rightarrow> s\<lparr>free_at := Freed\<rparr>
      | Freed \<Rightarrow> s)"

definition running_state :: shutdown_state where
  "running_state = \<lparr>fl = \<lparr>ioq_stop_req = False, ioq_stopped = False, thread_quit_flag = False, thread_exited_flag = False\<rparr>,
     worker = AtLoop, free_at = FreeStart\<rparr>"

text \<open>A schedule says for each step whether it is the worker's.\<close>

fun shutdown_run :: "(nat \<Rightarrow> bool) \<Rightarrow> nat \<Rightarrow> shutdown_state" where
  "shutdown_run sched 0 = running_state"
| "shutdown_run sched (Suc n) =
     (if sched n then worker_step (shutdown_run sched n) else free_step (shutdown_run sched n))"

definition fair :: "(nat \<Rightarrow> bool) \<Rightarrow> bool" where
  "fair sched \<longleftrightarrow> (\<forall>b n. \<exists>m \<ge> n. sched m = b)"

fun stage :: "free_pc \<Rightarrow> nat" where
  "stage FreeStart = 0" | "stage WaitStopped = 1" | "stage Deleting = 2" | "stage WaitExited = 3" | "stage Destroying = 4" | "stage Freed = 5"

definition shutdown_ok :: "shutdown_state \<Rightarrow> bool" where
  "shutdown_ok s \<longleftrightarrow> (ioq_stop_req (fl s) \<longleftrightarrow> 1 \<le> stage (free_at s)) \<and> (thread_quit_flag (fl s) \<longleftrightarrow> 3 \<le> stage (free_at s))
     \<and> (ioq_stopped (fl s) \<longrightarrow> ioq_stop_req (fl s) \<and> worker s \<noteq> InQueue) \<and> (2 \<le> stage (free_at s) \<longrightarrow> ioq_stopped (fl s))
     \<and> (thread_exited_flag (fl s) \<longleftrightarrow> worker s = Exited) \<and> (worker s = Exited \<longrightarrow> thread_quit_flag (fl s))
     \<and> (4 \<le> stage (free_at s) \<longrightarrow> worker s = Exited)"

lemma shutdown_invariant: "shutdown_ok (shutdown_run sched n)"
proof (induction n)
  case 0
  then show ?case by (simp add: shutdown_ok_def running_state_def)
next
  case (Suc n)
  then show ?case
    by (auto simp: shutdown_ok_def worker_step_def free_step_def split: worker_pc.splits free_pc.splits)
qed

text \<open>What a fair schedule brings about: a measure that one thread lowers and the other does not raise.\<close>

lemma fair_measure:
  fixes m :: "shutdown_state \<Rightarrow> nat"
  assumes "fair sched"
    and less: "\<And>k. n \<le> k \<Longrightarrow> \<not> G (shutdown_run sched k) \<Longrightarrow> sched k = b
      \<Longrightarrow> m (shutdown_run sched (Suc k)) < m (shutdown_run sched k)"
    and keep: "\<And>k. n \<le> k \<Longrightarrow> \<not> G (shutdown_run sched k) \<Longrightarrow> sched k \<noteq> b
      \<Longrightarrow> m (shutdown_run sched (Suc k)) \<le> m (shutdown_run sched k)"
  shows "\<exists>k \<ge> n. G (shutdown_run sched k)"
proof (rule ccontr)
  assume "\<not> ?thesis"
  then have no: "\<not> G (shutdown_run sched k)" if "n \<le> k" for k using that by blast
  have le: "m (shutdown_run sched (k + d)) \<le> m (shutdown_run sched k)" if "n \<le> k" for k d
  proof (induction d)
    case (Suc d)
    have "m (shutdown_run sched (Suc (k + d))) \<le> m (shutdown_run sched (k + d))"
      using less [of "k + d"] keep [of "k + d"] no [of "k + d"] that by (cases "sched (k + d) = b") auto
    with Suc show ?case by simp
  qed simp
  have "\<exists>k \<ge> n. m (shutdown_run sched k) + j \<le> m (shutdown_run sched n)" for j
  proof (induction j)
    case (Suc j)
    then obtain k where k: "n \<le> k" "m (shutdown_run sched k) + j \<le> m (shutdown_run sched n)" by blast
    obtain d where d: "sched (k + d) = b" using assms(1) by (metis fair_def le_Suc_ex)
    have "m (shutdown_run sched (Suc (k + d))) < m (shutdown_run sched (k + d))" using less d no k(1) by simp
    with le [OF k(1), of d] k show ?case by (intro exI [of _ "Suc (k + d)"]) simp
  qed auto
  from this [of "Suc (m (shutdown_run sched n))"] show False by auto
qed

lemma stage_mono: "n \<le> k \<Longrightarrow> stage (free_at (shutdown_run sched n)) \<le> stage (free_at (shutdown_run sched k))"
proof (induction k rule: dec_induct)
  case (step k)
  have "stage (free_at (shutdown_run sched k)) \<le> stage (free_at (shutdown_run sched (Suc k)))"
    by (auto simp: worker_step_def free_step_def split: worker_pc.split free_pc.split)
  with step show ?case by linarith
qed simp

lemma flag_mono: "n \<le> k \<Longrightarrow> ioq_stopped (fl (shutdown_run sched n)) \<Longrightarrow> ioq_stopped (fl (shutdown_run sched k))"
  "n \<le> k \<Longrightarrow> thread_exited_flag (fl (shutdown_run sched n)) \<Longrightarrow> thread_exited_flag (fl (shutdown_run sched k))"
  by (induction k rule: dec_induct) (auto simp: worker_step_def free_step_def split: worker_pc.split free_pc.split)

fun to_stop :: "worker_pc \<Rightarrow> nat" where
  "to_stop AtStop = 1" | "to_stop InTimers = 2" | "to_stop AtLoop = 3" | "to_stop InQueue = 4" | "to_stop Exited = 0"

fun to_exit :: "worker_pc \<Rightarrow> nat" where
  "to_exit AtLoop = 1" | "to_exit AtStop = 2" | "to_exit InQueue = 2" | "to_exit InTimers = 3" | "to_exit Exited = 0"

lemma eventually_stopped:
  assumes "fair sched" "1 \<le> stage (free_at (shutdown_run sched n))"
  shows "\<exists>k \<ge> n. ioq_stopped (fl (shutdown_run sched k))"
proof (rule fair_measure [where b = True and m = "\<lambda>s. if ioq_stopped (fl s) then 0 else to_stop (worker s)", OF assms(1)])
  fix k assume k: "n \<le> k" "\<not> ioq_stopped (fl (shutdown_run sched k))"
  have o: "shutdown_ok (shutdown_run sched k)" "1 \<le> stage (free_at (shutdown_run sched k))"
    using shutdown_invariant stage_mono [OF k(1)] assms(2) by (auto intro: order_trans)
  let ?m = "\<lambda>s. if ioq_stopped (fl s) then 0 else to_stop (worker s)"
  show "sched k = True \<Longrightarrow> ?m (shutdown_run sched (Suc k)) < ?m (shutdown_run sched k)"
    using o k(2) by (cases "worker (shutdown_run sched k)") (auto simp: worker_step_def shutdown_ok_def)
  show "sched k \<noteq> True \<Longrightarrow> ?m (shutdown_run sched (Suc k)) \<le> ?m (shutdown_run sched k)"
    by (auto simp: free_step_def split: free_pc.split)
qed

lemma eventually_exited:
  assumes "fair sched" "3 \<le> stage (free_at (shutdown_run sched n))"
  shows "\<exists>k \<ge> n. thread_exited_flag (fl (shutdown_run sched k))"
proof (rule fair_measure [where b = True and m = "\<lambda>s. to_exit (worker s)", OF assms(1)])
  fix k assume k: "n \<le> k" "\<not> thread_exited_flag (fl (shutdown_run sched k))"
  have o: "shutdown_ok (shutdown_run sched k)" "3 \<le> stage (free_at (shutdown_run sched k))"
    using shutdown_invariant stage_mono [OF k(1)] assms(2) by (auto intro: order_trans)
  show "sched k = True \<Longrightarrow> to_exit (worker (shutdown_run sched (Suc k))) < to_exit (worker (shutdown_run sched k))"
    using o k(2) by (cases "worker (shutdown_run sched k)") (auto simp: worker_step_def shutdown_ok_def)
  show "sched k \<noteq> True \<Longrightarrow> to_exit (worker (shutdown_run sched (Suc k))) \<le> to_exit (worker (shutdown_run sched k))"
    by (auto simp: free_step_def split: free_pc.split)
qed

lemma next_stage:
  assumes "fair sched" "stage (free_at (shutdown_run sched n)) < 5"
  shows "\<exists>k \<ge> n. stage (free_at (shutdown_run sched n)) < stage (free_at (shutdown_run sched k))"
proof -
  let ?q = "stage (free_at (shutdown_run sched n))"
  have "\<exists>k \<ge> n. (?q = 1 \<longrightarrow> ioq_stopped (fl (shutdown_run sched k))) \<and> (?q = 3 \<longrightarrow> thread_exited_flag (fl (shutdown_run sched k)))"
    using eventually_stopped [OF assms(1), of n] eventually_exited [OF assms(1), of n] by (cases "?q = 1"; cases "?q = 3") auto
  then obtain k where k: "n \<le> k" "?q = 1 \<longrightarrow> ioq_stopped (fl (shutdown_run sched k))"
    "?q = 3 \<longrightarrow> thread_exited_flag (fl (shutdown_run sched k))" by blast
  obtain j where j: "k \<le> j" "\<not> sched j" using assms(1) by (auto simp: fair_def)
  have q: "?q \<le> stage (free_at (shutdown_run sched j))" using k(1) j(1) by (intro stage_mono) simp
  have f: "?q = 1 \<longrightarrow> ioq_stopped (fl (shutdown_run sched j))" "?q = 3 \<longrightarrow> thread_exited_flag (fl (shutdown_run sched j))"
    using k flag_mono [OF j(1), of sched] by auto
  have "?q < stage (free_at (shutdown_run sched (Suc j)))"
  proof (cases "?q = stage (free_at (shutdown_run sched j))")
    case True
    then show ?thesis using f assms(2) j(2)
      by (cases "free_at (shutdown_run sched j)") (auto simp: free_step_def)
  next
    case False
    then show ?thesis using q stage_mono [of j "Suc j" sched] by simp
  qed
  then show ?thesis using k(1) j(1) by (intro exI [of _ "Suc j"]) simp
qed

lemma reaches_stage:
  assumes "fair sched" "i \<le> 5" shows "\<exists>n. i \<le> stage (free_at (shutdown_run sched n))"
  using assms(2)
proof (induction i)
  case (Suc i)
  then obtain n where n: "i \<le> stage (free_at (shutdown_run sched n))" by auto
  show ?case
  proof (cases "stage (free_at (shutdown_run sched n)) < 5")
    case True
    from next_stage [OF assms(1) this] n show ?thesis by (meson Suc_leI le_less_trans)
  next
    case False
    with Suc.prems show ?thesis by (intro exI [of _ n]) simp
  qed
qed simp

text \<open>
  C16: Freeing an endpoint ends and is safe for the ioqueue. Under every fair schedule of the two threads
  \<open>eice_free\<close> gets through both of its waits and the worker leaves its loop. Under every schedule at
  all, the worker is not polling the ioqueue when the relay client and the session are deleted, or ever
  after, and it has left when the ioqueue and the timer heap are destroyed.
\<close>
theorem free_stops_worker:
  "(fair sched \<longrightarrow> (\<exists>n. free_at (shutdown_run sched n) = Freed \<and> worker (shutdown_run sched n) = Exited))
   \<and> (\<forall>n. (free_at (shutdown_run sched n) \<notin> {FreeStart, WaitStopped} \<longrightarrow> worker (shutdown_run sched n) \<noteq> InQueue)
        \<and> (free_at (shutdown_run sched n) \<in> {Destroying, Freed} \<longrightarrow> worker (shutdown_run sched n) = Exited))"
proof (intro conjI impI allI)
  assume "fair sched"
  then obtain n where n: "5 \<le> stage (free_at (shutdown_run sched n))" using reaches_stage by blast
  then have "free_at (shutdown_run sched n) = Freed" by (cases "free_at (shutdown_run sched n)") auto
  then show "\<exists>n. free_at (shutdown_run sched n) = Freed \<and> worker (shutdown_run sched n) = Exited"
    using shutdown_invariant [of sched n] by (auto simp: shutdown_ok_def)
next
  fix n
  show "free_at (shutdown_run sched n) \<notin> {FreeStart, WaitStopped} \<Longrightarrow> worker (shutdown_run sched n) \<noteq> InQueue"
    using shutdown_invariant [of sched n] by (cases "free_at (shutdown_run sched n)") (auto simp: shutdown_ok_def)
  show "free_at (shutdown_run sched n) \<in> {Destroying, Freed} \<Longrightarrow> worker (shutdown_run sched n) = Exited"
    using shutdown_invariant [of sched n] by (auto simp: shutdown_ok_def)
qed

theorem free_stops_worker_witness:
  "\<exists>n. free_at (shutdown_run even n) = Freed \<and> worker (shutdown_run even n) = Exited"
proof -
  have "fair even"
    unfolding fair_def
  proof (intro allI)
    fix b and n :: nat
    show "\<exists>m \<ge> n. even m = b" by (cases "even n = b") (auto intro: exI [of _ "Suc n"])
  qed
  then show ?thesis using free_stops_worker [of even] by blast
qed

text \<open>
  The timers are not stopped: the worker goes on running them while the relay client and the session are
  deleted.
\<close>

theorem timers_run_while_deleting:
  "\<exists>sched n. free_at (shutdown_run sched n) = Deleting \<and> worker (shutdown_run sched n) = InTimers"
proof -
  have "free_at (shutdown_run (\<lambda>k. k \<notin> {0, 4}) 6) = Deleting \<and> worker (shutdown_run (\<lambda>k. k \<notin> {0, 4}) 6) = InTimers"
    by (simp add: eval_nat_numeral running_state_def worker_step_def free_step_def)
  then show ?thesis by blast
qed

end
