(* ===== verification/MsTester.thy ===== *)
theory MsTester
  imports Shutdown
begin

text \<open>
  The tester of a media server (\<open>third/eice/src/mstester.cpp\<close>): it sends numbered packets at a given
  rate, receives their echoes, and keeps statistics of delay, loss and disorder. Time stamps and what
  pjlib computes from them are parameters, as are the answers of the socket.
\<close>

section \<open>Statistics\<close>

record statistics_item =
  st_last :: u32
  st_min :: u32
  st_max :: u32
  st_aver :: u32
  st_sum :: u32
  st_count :: u32

definition statics_item_init :: statistics_item where
  "statics_item_init = \<lparr>st_last = 0, st_min = - 1, st_max = 0, st_aver = 0, st_sum = 0, st_count = 0\<rparr>"

definition statics_item_update :: "u32 \<Rightarrow> statistics_item \<Rightarrow> statistics_item outcome" where
  "statics_item_update v item =
     (let sum = st_sum item + v; count = st_count item + 1
      in if count = 0 then Inl DivideByZero
         else Inr \<lparr>st_last = v, st_min = (if v < st_min item then v else st_min item),
                    st_max = (if v > st_max item then v else st_max item),
                    st_aver = sum div count, st_sum = sum, st_count = count\<rparr>)"

definition statics_item_update_child :: "statistics_item \<Rightarrow> statistics_item \<Rightarrow> statistics_item" where
  "statics_item_update_child child item =
     (let sum = st_sum item + st_sum child; count = st_count item + st_count child
      in item\<lparr>st_min := (if st_min child < st_min item then st_min child else st_min item),
              st_max := (if st_max child > st_max item then st_max child else st_max item),
              st_aver := (if count > 0 then sum div count else sum), st_sum := sum, st_count := count\<rparr>)"

section \<open>State\<close>

datatype unit_state = US_READY | US_RUNNING | US_STOPPING | US_FINISH

fun unit_state_value :: "unit_state \<Rightarrow> int" where
  "unit_state_value US_READY = 0"
| "unit_state_value US_RUNNING = 1"
| "unit_state_value US_STOPPING = 2"
| "unit_state_value US_FINISH = 99"

record mstester_config =
  peer_host :: string
  peer_port :: int
  pkt_size :: u32
  bitrate :: u32
  test_seconds :: u32

record mstester =
  mt_cfg :: mstester_config
  mt_state :: unit_state
  stop_req :: bool
  mt_pkt :: "byte list"
  mt_pkt_len :: u32
  pkt_seq :: u32
  mt_session :: u32
  kick_time :: u64
  check_time :: u64
  sending_pkts :: u32
  sending_bytes :: u64
  sent_pkts :: u32
  sent_bytes :: u64
  recv_pkts :: u32
  recv_bytes :: u64
  expect_recv_seq :: u32
  seq_lost_count :: u32
  disorder_count :: u32
  st_delay :: statistics_item
  send_bps :: u64
  recv_bps :: u64
  last_sent_bytes :: u64
  last_recv_bytes :: u64
  err_pkts :: u32

text \<open>
  What the outside answers in one step: the successive readings of the clock, the two differences pjlib
  computes, whether the peer address and the thread can be made, and what a send returns: a status or the
  number of bytes taken.
\<close>

record ms_env =
  now :: "nat \<Rightarrow> u64"
  elapsed_msec :: "u64 \<Rightarrow> u64 \<Rightarrow> u32"
  elapsed_msec64 :: "u64 \<Rightarrow> u64 \<Rightarrow> u64"
  addr_status :: int
  thread_status :: int
  sendto :: "byte list \<Rightarrow> int + nat"

definition parse_mstester_config :: "clib \<Rightarrow> string option \<Rightarrow> mstester_config option throws" where
  "parse_mstester_config L config_json =
     (case Reader_parse L Features_all (case config_json of None \<Rightarrow> ''{}'' | Some s \<Rightarrow> c_str s) nullValue of
        Some (True, value, _) \<Rightarrow>
          throw_bind (json_get_string L value ''peerHost'' ''127.0.0.1'') (\<lambda>host.
          throw_bind (json_get_int value ''peerPort'' 5000) (\<lambda>port.
          throw_bind (json_get_int value ''packetSize'' 62) (\<lambda>size.
          throw_bind (json_get_int value ''bitrate'' 8000) (\<lambda>rate.
          throw_bind (json_get_int value ''testSeconds'' 10) (\<lambda>seconds.
            Inr (Some \<lparr>peer_host = host, peer_port = port, pkt_size = of_int size, bitrate = of_int rate,
                   test_seconds = of_int seconds\<rparr>))))))
      | _ \<Rightarrow> Inr None)"

definition new_mstester :: "mstester_config \<Rightarrow> mstester" where
  "new_mstester cf =
     \<lparr>mt_cfg = cf, mt_state = US_READY, stop_req = False, mt_pkt = replicate 1024 0, mt_pkt_len = 0, pkt_seq = 0,
      mt_session = 0, kick_time = 0, check_time = 0, sending_pkts = 0, sending_bytes = 0, sent_pkts = 0, sent_bytes = 0,
      recv_pkts = 0, recv_bytes = 0, expect_recv_seq = 0, seq_lost_count = 0, disorder_count = 0,
      st_delay = \<lparr>st_last = 0, st_min = 0, st_max = 0, st_aver = 0, st_sum = 0, st_count = 0\<rparr>, send_bps = 0, recv_bps = 0,
      last_sent_bytes = 0, last_recv_bytes = 0, err_pkts = 0\<rparr>"

text \<open>\<open>status k\<close> are the statuses of the lock, the timer heap, the queue, the thread and the socket.\<close>

definition mstester_new :: "clib \<Rightarrow> (nat \<Rightarrow> int) \<Rightarrow> string option \<Rightarrow> (int + mstester) throws" where
  "mstester_new L status config =
     throw_bind (parse_mstester_config L config) (\<lambda>c.
     case c of
       None \<Rightarrow> Inr (Inl (-1))
     | Some cf \<Rightarrow>
         (case find (\<lambda>k. status k \<noteq> 0) [0 ..< 5] of
            Some k \<Rightarrow> Inr (Inl (status k))
          | None \<Rightarrow> Inr (Inr (new_mstester cf))))"

section \<open>Sending\<close>

definition PKT_TYPE_ECHO_CTRL :: byte where "PKT_TYPE_ECHO_CTRL = 0xfc"
definition CTRL_EVENT_TEST_ECHO :: byte where "CTRL_EVENT_TEST_ECHO = 101"

text \<open>The number in the packet is \<open>pkt_seq\<close>; the argument \<open>seq\<close> is not used.\<close>

definition build_serv_echo_packet :: "u64 \<Rightarrow> mstester \<Rightarrow> byte list" where
  "build_serv_echo_packet t M =
     put_at 0 ([PKT_TYPE_ECHO_CTRL, CTRL_EVENT_TEST_ECHO] @ be_set_u32 (mt_session M) @ be_set_u32 (pkt_seq M)
       @ be_set_u32 (ucast t) @ be_set_u32 (ucast (drop_bit 32 t))) (mt_pkt M)"

text \<open>A send reads as many bytes of the packet as the configuration says.\<close>

definition send_pkt :: "ms_env \<Rightarrow> mstester \<Rightarrow> (int + nat) outcome" where
  "send_pkt E M =
     (if unat (mt_pkt_len M) > length (mt_pkt M) then Inl OutOfBounds
      else Inr (sendto E (take (unat (mt_pkt_len M)) (mt_pkt M))))"

definition build_echo_pkt_and_send :: "ms_env \<Rightarrow> mstester \<Rightarrow> (int \<times> mstester) outcome" where
  "build_echo_pkt_and_send E M =
     (let M1 = M\<lparr>mt_pkt := build_serv_echo_packet (now E 0) M, pkt_seq := pkt_seq M + 1, mt_pkt_len := pkt_size (mt_cfg M)\<rparr>
      in (case send_pkt E M1 of
            Inl e \<Rightarrow> Inl e
          | Inr (Inl ret) \<Rightarrow> Inr (ret, M1)
          | Inr (Inr n) \<Rightarrow>
              Inr (0, M1\<lparr>sent_pkts := sent_pkts M1 + 1, sent_bytes := sent_bytes M1 + of_nat n,
                         sending_pkts := sending_pkts M1 + 1, sending_bytes := sending_bytes M1 + of_nat n\<rparr>)))"

text \<open>
  The start of \<open>_sending_thread\<close>. The eight packets to warm up are the same bytes, and what becomes of
  them is not looked at.
\<close>

definition warm_up :: "ms_env \<Rightarrow> mstester \<Rightarrow> mstester outcome" where
  "warm_up E M =
     (let M1 = M\<lparr>kick_time := now E 0, mt_session := ucast (now E 0) mod 1000000\<rparr>;
          M2 = M1\<lparr>mt_pkt := build_serv_echo_packet (now E 1) M1, mt_pkt_len := pkt_size (mt_cfg M)\<rparr>
      in map_sum (\<lambda>e. e)
           (\<lambda>_. M2\<lparr>pkt_seq := 1, expect_recv_seq := 1, kick_time := now E 2, check_time := now E 3\<rparr>) (send_pkt E M2))"

text \<open>One round of its loop: whether the loop goes on, how long it sleeps, and the new state.\<close>

definition send_round :: "ms_env \<Rightarrow> mstester \<Rightarrow> (u32 option \<times> mstester) outcome" where
  "send_round E M =
     (if stop_req M then Inr (None, M)
      else (case build_echo_pkt_and_send E M of
              Inl e \<Rightarrow> Inl e
            | Inr (ret, M1) \<Rightarrow>
                if ret \<noteq> 0 then Inr (None, M1)
                else
                  let elapsed_ms = elapsed_msec64 E (kick_time M1) (now E 1)
                  in if bitrate (mt_cfg M1) = 0 then Inl DivideByZero
                     else
                       let normal_ms = sent_bytes M1 * 1000 * 8 div ucast (bitrate (mt_cfg M1))
                       in if elapsed_ms \<ge> ucast (test_seconds (mt_cfg M1) * 1000) then Inr (None, M1)
                          else Inr (Some (if normal_ms > elapsed_ms then ucast (normal_ms - elapsed_ms) else 0), M1)))"

definition per_second :: "u64 \<Rightarrow> u64 \<Rightarrow> u64" where
  "per_second bytes ms = (if ms = 0 then bytes * 8 else bytes * 8 * 1000 div ms)"

definition send_finish :: "u64 \<Rightarrow> mstester \<Rightarrow> mstester" where
  "send_finish elapsed_ms M =
     M\<lparr>send_bps := per_second (sent_bytes M) elapsed_ms, recv_bps := per_second (recv_bytes M) elapsed_ms,
        mt_state := US_FINISH\<rparr>"

definition on_data_sent :: "ms_env \<Rightarrow> int \<Rightarrow> mstester \<Rightarrow> (bool \<times> mstester) outcome" where
  "on_data_sent E sent M =
     (let M1 = M\<lparr>sent_pkts := sent_pkts M + 1, sent_bytes := sent_bytes M + of_int sent\<rparr>
      in if mt_state M1 \<noteq> US_RUNNING then Inr (False, M1)
         else map_sum (\<lambda>e. e) (\<lambda>(ret, M2). (ret = 0, M2)) (build_echo_pkt_and_send E M1))"

section \<open>Receiving\<close>

definition recv_echo_failed :: "mstester \<Rightarrow> mstester" where
  "recv_echo_failed M = M\<lparr>err_pkts := err_pkts M + 1\<rparr>"

text \<open>
  \<open>_recv_echo_packet\<close> with the receive buffer, which is longer than what is read of it; the length is
  only compared with eight.
\<close>

definition recv_echo_packet :: "ms_env \<Rightarrow> byte list \<Rightarrow> u32 \<Rightarrow> mstester \<Rightarrow> mstester outcome" where
  "recv_echo_packet E buf len M =
     (if len < 8 then Inr (recv_echo_failed M)
      else if length buf < 18 then Inl OutOfBounds
      else if buf ! 0 \<noteq> PKT_TYPE_ECHO_CTRL \<or> buf ! 1 \<noteq> CTRL_EVENT_TEST_ECHO then Inr (recv_echo_failed M)
      else if be_get_u32 2 buf \<noteq> mt_session M then Inr (recv_echo_failed M)
      else
        let seq = be_get_u32 6 buf
        in if seq = 0 then Inr M
           else
             let expect = expect_recv_seq M;
                 M1 = M\<lparr>recv_pkts := recv_pkts M + 1, recv_bytes := recv_bytes M + ucast len, expect_recv_seq := seq + 1\<rparr>
             in if seq > expect then Inr (recv_echo_failed (M1\<lparr>seq_lost_count := seq_lost_count M1 + (seq - expect)\<rparr>))
                else if seq < expect then Inr (recv_echo_failed (M1\<lparr>disorder_count := disorder_count M1 + 1\<rparr>))
                else
                  let send_time = push_bit 32 (ucast (be_get_u32 14 buf)) OR ucast (be_get_u32 10 buf);
                      delay = elapsed_msec E send_time (now E 0)
                  in map_sum (\<lambda>e. e) (\<lambda>st. M1\<lparr>st_delay := st\<rparr>) (statics_item_update delay (st_delay M1)))"

section \<open>Timer and control\<close>

text \<open>\<open>timer_ice_cb\<close>: the new state and whether the timer is scheduled again.\<close>

definition tester_timer_cb :: "ms_env \<Rightarrow> mstester \<Rightarrow> bool \<times> mstester" where
  "tester_timer_cb E M =
     (if mt_state M = US_FINISH then (False, M)
      else if mt_state M = US_RUNNING
      then let elapsed_ms = ucast (elapsed_msec E (check_time M) (now E 0))
        in (True, M\<lparr>send_bps := per_second (sent_bytes M - last_sent_bytes M) elapsed_ms, last_sent_bytes := sent_bytes M,
                    recv_bps := per_second (recv_bytes M - last_recv_bytes M) elapsed_ms, last_recv_bytes := recv_bytes M,
                    check_time := now E 0\<rparr>)
      else (True, M))"

definition mstester_start :: "ms_env \<Rightarrow> mstester \<Rightarrow> int \<times> mstester" where
  "mstester_start E M =
     (if mt_state M = US_RUNNING then (0, M)
      else if mt_state M \<noteq> US_READY \<and> mt_state M \<noteq> US_FINISH then (-1, M)
      else
        let M1 = M\<lparr>st_delay := statics_item_init\<rparr>
        in if addr_status E \<noteq> 0 then (addr_status E, M1)
           else if thread_status E \<noteq> 0 then (thread_status E, M1\<lparr>stop_req := False\<rparr>)
           else (0, M1\<lparr>stop_req := False, mt_state := US_RUNNING\<rparr>))"

text \<open>What \<open>mstester_stop\<close> does before it waits for the thread.\<close>

definition mstester_stop :: "mstester \<Rightarrow> mstester" where
  "mstester_stop M = (if mt_state M \<noteq> US_RUNNING then M else M\<lparr>stop_req := True\<rparr>)"

definition status_value :: "mstester \<Rightarrow> Value" where
  "status_value M = value_of_members
     [(''state'', intValue (unit_state_value (mt_state M))), (''sentBytes'', uintValue (unat (sent_bytes M))),
      (''sentPackets'', uintValue (unat (sent_pkts M))), (''recvBytes'', uintValue (unat (recv_bytes M))),
      (''recvPackets'', uintValue (unat (recv_pkts M))), (''lostPackets'', uintValue (unat (sent_pkts M - recv_pkts M))),
      (''lostSeqs'', uintValue (unat (seq_lost_count M))), (''disorders'', uintValue (unat (disorder_count M))),
      (''delayAverage'', uintValue (unat (st_aver (st_delay M)))), (''delayMin'', uintValue (unat (st_min (st_delay M)))),
      (''delayMax'', uintValue (unat (st_max (st_delay M)))), (''delayLast'', uintValue (unat (st_last (st_delay M)))),
      (''sendBitrate'', uintValue (unat (send_bps M))), (''recvBitrate'', uintValue (unat (recv_bps M)))]"

definition mstester_get_status :: "clib \<Rightarrow> mstester \<Rightarrow> string" where
  "mstester_get_status L M = FastWriter_write L new_FastWriter (status_value M)"

definition mstester_get_state :: "mstester \<Rightarrow> int" where
  "mstester_get_state M = unit_state_value (mt_state M)"

section \<open>Socket and thread\<close>

text \<open>
  \<open>create_pjsock\<close>: the statuses of its seven calls, from the socket to the first read; the result is a status
  and whether there is a descriptor and an active socket.
\<close>

definition create_pjsock :: "(nat \<Rightarrow> int) \<Rightarrow> int \<times> bool \<times> bool" where
  "create_pjsock st =
     (case find (\<lambda>k. st k \<noteq> 0) [0 ..< 7] of
        None \<Rightarrow> (0, True, True)
      | Some k \<Rightarrow> (st k, 1 \<le> k, 6 \<le> k))"

datatype sock_effect = CloseActiveSocket | CloseSocket

definition free_pjsock :: "bool \<times> bool \<Rightarrow> sock_effect list" where
  "free_pjsock s = (case s of (sock, active) \<Rightarrow>
     if active then [CloseActiveSocket] else if sock then [CloseSocket] else [])"

text \<open>The worker of the tester runs the same round as that of an endpoint, without the request to stop.\<close>

definition tester_handle_events :: "poll_answers \<Rightarrow> nat \<Rightarrow> (int \<times> nat \<times> bool \<times> poll_effect list) outcome" where
  "tester_handle_events A max_msec = handle_events A max_msec False"

section \<open>Delay statistics\<close>

fun update_all :: "u32 list \<Rightarrow> statistics_item \<Rightarrow> statistics_item outcome" where
  "update_all [] item = Inr item"
| "update_all (v # vs) item =
     (case statics_item_update v item of Inl e \<Rightarrow> Inl e | Inr item' \<Rightarrow> update_all vs item')"

lemma update_all_snoc: "update_all (vs @ [v]) item
    = (case update_all vs item of Inl e \<Rightarrow> Inl e | Inr item' \<Rightarrow> statics_item_update v item')"
  by (induction vs arbitrary: item) (auto split: sum.splits)

definition total :: "u32 list \<Rightarrow> nat" where
  "total vs = sum_list (map unat vs)"

lemma of_nat_count: "0 < n \<Longrightarrow> n < 2 ^ 32 \<Longrightarrow> (of_nat n :: u32) \<noteq> 0"
  using unat_of_nat_u32 [of n] by auto

lemma update_all_item:
  assumes "length vs < 2 ^ 32"
  shows "\<exists>item. update_all vs statics_item_init = Inr item \<and> st_count item = of_nat (length vs) \<and> st_sum item = of_nat (total vs)
    \<and> (\<forall>v \<in> set vs. st_min item \<le> v \<and> v \<le> st_max item)
    \<and> (vs \<noteq> [] \<longrightarrow> st_min item \<in> set vs \<and> st_max item \<in> set vs \<and> st_last item = last vs
        \<and> st_aver item = of_nat (total vs) div of_nat (length vs))"
  using assms
proof (induction vs rule: rev_induct)
  case Nil
  then show ?case by (simp add: statics_item_init_def total_def)
next
  case (snoc v vs)
  then obtain item where i: "update_all vs statics_item_init = Inr item" "st_count item = of_nat (length vs)"
    "st_sum item = of_nat (total vs)" "\<forall>v \<in> set vs. st_min item \<le> v \<and> v \<le> st_max item"
    "vs \<noteq> [] \<longrightarrow> st_min item \<in> set vs \<and> st_max item \<in> set vs" by auto
  have c: "st_count item + 1 = of_nat (length (vs @ [v]))" "st_sum item + v = of_nat (total (vs @ [v]))"
    using i(2,3) by (simp_all add: total_def)
  have nz: "st_count item + 1 \<noteq> 0" unfolding c(1) using snoc.prems by (intro of_nat_count) auto
  have u: "update_all (vs @ [v]) statics_item_init = Inr \<lparr>st_last = v, st_min = (if v < st_min item then v else st_min item),
      st_max = (if v > st_max item then v else st_max item), st_aver = (st_sum item + v) div (st_count item + 1),
      st_sum = st_sum item + v, st_count = st_count item + 1\<rparr>"
    using i(1) nz by (simp add: update_all_snoc statics_item_update_def Let_def)
  show ?case
  proof (cases "vs = []")
    case True
    then have "item = statics_item_init" using i(1) by simp
    moreover have "v < - 1 \<or> v = - 1" by (metis order_le_less word_n1_ge)
    moreover have "0 < v \<or> v = 0" by (metis word_gt_0)
    ultimately show ?thesis unfolding u using True c by (auto simp: statics_item_init_def)
  next
    case False
    then have m: "st_min item \<in> set vs" "st_max item \<in> set vs" using i(5) by auto
    have "\<forall>w \<in> set (vs @ [v]). (if v < st_min item then v else st_min item) \<le> w \<and> w \<le> (if v > st_max item then v else st_max item)"
      using i(4) by auto
    then show ?thesis unfolding u using m c by (auto simp: add.commute)
  qed
qed

text \<open>
  The delay statistics are bounds. As long as the sum of the delays fits 32 bits, the statistics
  after any number of echoes are the least and the greatest delay, the last one, and their average,
  which lies between the two.
\<close>
theorem delay_statistics:
  assumes "vs \<noteq> []" "total vs < 2 ^ 32" "length vs < 2 ^ 32"
  shows "\<exists>item. update_all vs statics_item_init = Inr item
    \<and> unat (st_min item) = Min (unat ` set vs) \<and> unat (st_max item) = Max (unat ` set vs) \<and> st_last item = last vs
    \<and> unat (st_aver item) = total vs div length vs
    \<and> st_min item \<le> st_aver item \<and> st_aver item \<le> st_max item"
proof -
  obtain item where i: "update_all vs statics_item_init = Inr item" "\<forall>v \<in> set vs. st_min item \<le> v \<and> v \<le> st_max item"
    "st_min item \<in> set vs" "st_max item \<in> set vs" "st_last item = last vs" "st_aver item = of_nat (total vs) div of_nat (length vs)"
    using update_all_item [OF assms(3)] assms(1) by auto
  have a: "unat (st_aver item) = total vs div length vs"
    using assms(2,3) by (simp add: i(6) unat_div_distrib unat_of_nat_u32)
  have lo: "length vs * unat (st_min item) \<le> total vs" and hi: "total vs \<le> length vs * unat (st_max item)"
  proof -
    have "\<forall>v \<in> set vs. unat (st_min item) \<le> unat v \<and> unat v \<le> unat (st_max item)" using i(2) by (simp add: word_le_nat_alt)
    then show "length vs * unat (st_min item) \<le> total vs" "total vs \<le> length vs * unat (st_max item)"
      unfolding total_def by (induction vs) auto
  qed
  have "unat (st_min item) \<le> total vs div length vs"
    using lo assms(1) by (simp add: less_eq_div_iff_mult_less_eq mult.commute)
  moreover have "total vs div length vs \<le> unat (st_max item)"
    using div_le_mono [OF hi, of "length vs"] assms(1) by simp
  moreover have "unat (st_min item) = Min (unat ` set vs)" "unat (st_max item) = Max (unat ` set vs)"
    using i(2-4) by (auto intro!: Min_eqI [symmetric] Max_eqI [symmetric] simp: word_le_nat_alt)
  ultimately show ?thesis using i(1,5) a by (simp add: word_le_nat_alt)
qed

theorem delay_statistics_witness:
  "\<exists>item. update_all [7, 3, 5] statics_item_init = Inr item \<and> unat (st_min item) = 3 \<and> unat (st_max item) = 7 \<and> unat (st_aver item) = 5"
  using delay_statistics [of "[7, 3, 5]"] by (auto simp: total_def)

section \<open>Accounting for echoes\<close>

definition echo_seq :: "byte list \<Rightarrow> u32" where
  "echo_seq buf = be_get_u32 6 buf"

definition is_echo :: "mstester \<Rightarrow> byte list \<Rightarrow> u32 \<Rightarrow> bool" where
  "is_echo M buf len \<longleftrightarrow> 8 \<le> len \<and> 18 \<le> length buf \<and> buf ! 0 = PKT_TYPE_ECHO_CTRL \<and> buf ! 1 = CTRL_EVENT_TEST_ECHO
     \<and> be_get_u32 2 buf = mt_session M \<and> echo_seq buf \<noteq> 0"

fun recv_all :: "(ms_env \<times> byte list \<times> u32) list \<Rightarrow> mstester \<Rightarrow> mstester outcome" where
  "recv_all [] M = Inr M"
| "recv_all ((E, buf, len) # ps) M =
     (case recv_echo_packet E buf len M of Inl e \<Rightarrow> Inl e | Inr M' \<Rightarrow> recv_all ps M')"

text \<open>What is written into an echo packet is what is read from it.\<close>

lemma echo_packet_fields:
  "build_serv_echo_packet t M ! 0 = PKT_TYPE_ECHO_CTRL" "build_serv_echo_packet t M ! Suc 0 = CTRL_EVENT_TEST_ECHO"
  "be_get_u32 2 (build_serv_echo_packet t M) = mt_session M" "be_get_u32 6 (build_serv_echo_packet t M) = pkt_seq M"
proof -
  have "\<exists>r. build_serv_echo_packet t M
      = [PKT_TYPE_ECHO_CTRL, CTRL_EVENT_TEST_ECHO] @ be_set_u32 (mt_session M) @ be_set_u32 (pkt_seq M) @ r"
    by (simp add: build_serv_echo_packet_def put_at_def)
  then obtain r where r: "build_serv_echo_packet t M
      = [PKT_TYPE_ECHO_CTRL, CTRL_EVENT_TEST_ECHO] @ be_set_u32 (mt_session M) @ be_set_u32 (pkt_seq M) @ r" by blast
  show "build_serv_echo_packet t M ! 0 = PKT_TYPE_ECHO_CTRL" "build_serv_echo_packet t M ! Suc 0 = CTRL_EVENT_TEST_ECHO"
    unfolding r by simp_all
  show "be_get_u32 2 (build_serv_echo_packet t M) = mt_session M"
    unfolding r using be_get_set [of "[PKT_TYPE_ECHO_CTRL, CTRL_EVENT_TEST_ECHO]"] by (simp add: numeral_2_eq_2)
  show "be_get_u32 6 (build_serv_echo_packet t M) = pkt_seq M"
    unfolding r using be_get_set [of "[PKT_TYPE_ECHO_CTRL, CTRL_EVENT_TEST_ECHO] @ be_set_u32 (mt_session M)"]
    by (simp add: be_set_u32_def eval_nat_numeral)
qed

text \<open>One echo that is not late.\<close>

lemma recv_echo_step:
  assumes "is_echo M buf len" "expect_recv_seq M \<le> echo_seq buf" "st_count (st_delay M) + 1 \<noteq> 0"
    and "recv_pkts M + seq_lost_count M + 1 = expect_recv_seq M"
  shows "\<exists>M'. recv_echo_packet E buf len M = Inr M' \<and> mt_session M' = mt_session M \<and> expect_recv_seq M' = echo_seq buf + 1
    \<and> recv_pkts M' = recv_pkts M + 1 \<and> disorder_count M' = disorder_count M
    \<and> recv_pkts M' + seq_lost_count M' + 1 = expect_recv_seq M'
    \<and> (st_count (st_delay M') = st_count (st_delay M) \<or> st_count (st_delay M') = st_count (st_delay M) + 1)"
proof -
  have h: "\<not> len < 8" "\<not> length buf < 18" "buf ! 0 = PKT_TYPE_ECHO_CTRL" "buf ! 1 = CTRL_EVENT_TEST_ECHO"
    "be_get_u32 2 buf = mt_session M" "echo_seq buf \<noteq> 0" using assms(1) by (auto simp: is_echo_def)
  show ?thesis
  proof (cases "echo_seq buf = expect_recv_seq M")
    case True
    then show ?thesis using h assms(3,4)
      by (simp add: recv_echo_packet_def echo_seq_def [symmetric] Let_def statics_item_update_def algebra_simps)
  next
    case False
    then have "expect_recv_seq M < echo_seq buf" using assms(2) by simp
    then show ?thesis using h assms(4)
      by (simp add: recv_echo_packet_def echo_seq_def [symmetric] Let_def recv_echo_failed_def algebra_simps)
  qed
qed

lemma recv_all_accounts:
  assumes "\<forall>(E, buf, len) \<in> set ps. is_echo M buf len" "sorted_wrt (<) (map (\<lambda>(E, buf, len). echo_seq buf) ps)"
    and "ps \<noteq> [] \<Longrightarrow> expect_recv_seq M \<le> (case hd ps of (E, buf, len) \<Rightarrow> echo_seq buf)"
    and "unat (st_count (st_delay M)) + length ps < 2 ^ 32" "recv_pkts M + seq_lost_count M + 1 = expect_recv_seq M"
  shows "\<exists>M'. recv_all ps M = Inr M' \<and> recv_pkts M' = recv_pkts M + of_nat (length ps) \<and> disorder_count M' = disorder_count M
    \<and> recv_pkts M' + seq_lost_count M' + 1 = expect_recv_seq M'
    \<and> (ps \<noteq> [] \<longrightarrow> expect_recv_seq M' = (case last ps of (E, buf, len) \<Rightarrow> echo_seq buf) + 1)"
  using assms
proof (induction ps arbitrary: M)
  case (Cons p ps)
  obtain E buf len where p: "p = (E, buf, len)" by (cases p) auto
  have e: "is_echo M buf len" "expect_recv_seq M \<le> echo_seq buf" using Cons.prems(1,3) p by auto
  have "unat (st_count (st_delay M)) + 1 < 2 ^ 32" using Cons.prems(4) by simp
  then have c: "unat (st_count (st_delay M) + 1) = unat (st_count (st_delay M)) + 1" by (simp add: unat_word_ariths)
  then have "st_count (st_delay M) + 1 \<noteq> 0" by (metis add_is_0 unsigned_0 zero_neq_one)
  from recv_echo_step [OF e this Cons.prems(5), of E] obtain M1 where m: "recv_echo_packet E buf len M = Inr M1" "mt_session M1 = mt_session M"
    "expect_recv_seq M1 = echo_seq buf + 1" "recv_pkts M1 = recv_pkts M + 1" "disorder_count M1 = disorder_count M"
    "recv_pkts M1 + seq_lost_count M1 + 1 = expect_recv_seq M1"
    "st_count (st_delay M1) = st_count (st_delay M) \<or> st_count (st_delay M1) = st_count (st_delay M) + 1" by auto
  have nxt: "expect_recv_seq M1 \<le> (case hd ps of (E, buf, len) \<Rightarrow> echo_seq buf)" if "ps \<noteq> []"
  proof -
    have "echo_seq buf < (case hd ps of (E, buf, len) \<Rightarrow> echo_seq buf)" using Cons.prems(2) p that by (cases ps) (auto split: prod.splits)
    then show ?thesis unfolding m(3) by (rule inc_le)
  qed
  have "\<forall>(E, buf, len) \<in> set ps. is_echo M1 buf len" using Cons.prems(1) m(2) by (auto simp: is_echo_def)
  moreover have "sorted_wrt (<) (map (\<lambda>(E, buf, len). echo_seq buf) ps)" using Cons.prems(2) by simp
  moreover have "unat (st_count (st_delay M1)) + length ps < 2 ^ 32" using m(7) c Cons.prems(4) by auto
  ultimately obtain M' where "recv_all ps M1 = Inr M'" "recv_pkts M' = recv_pkts M1 + of_nat (length ps)"
    "disorder_count M' = disorder_count M1" "recv_pkts M' + seq_lost_count M' + 1 = expect_recv_seq M'"
    "ps \<noteq> [] \<longrightarrow> expect_recv_seq M' = (case last ps of (E, buf, len) \<Rightarrow> echo_seq buf) + 1"
    using Cons.IH [OF _ _ nxt _ m(6)] by blast
  moreover from this have "expect_recv_seq M' = (case last (p # ps) of (E, buf, len) \<Rightarrow> echo_seq buf) + 1"
    using m(3) p by (cases "ps = []") auto
  ultimately show ?case using m(1,4,5) p by (simp add: algebra_simps)
qed auto


text \<open>A sample run: the first and the third echo come back, the second is lost.\<close>

definition sample_ms_env :: ms_env where
  "sample_ms_env = \<lparr>now = (\<lambda>_. 5000000), elapsed_msec = (\<lambda>a b. ucast (b - a)), elapsed_msec64 = (\<lambda>a b. b - a),
     addr_status = 0, thread_status = 0, sendto = (\<lambda>bs. Inr (length bs))\<rparr>"

definition sample_tester :: mstester where
  "sample_tester = (new_mstester \<lparr>peer_host = ''127.0.0.1'', peer_port = 5000, pkt_size = 62, bitrate = 8000, test_seconds = 10\<rparr>)
     \<lparr>st_delay := statics_item_init\<rparr>"

definition sample_echo :: "u32 \<Rightarrow> byte list" where
  "sample_echo n = build_serv_echo_packet (now sample_ms_env 0)
     (sample_tester\<lparr>mt_session := ucast (now sample_ms_env 0) mod 1000000, pkt_seq := n\<rparr>)"

lemma sample_warm_up: "\<exists>M. warm_up sample_ms_env sample_tester = Inr M \<and> mt_session M = ucast (now sample_ms_env 0) mod 1000000"
  by (simp add: warm_up_def Let_def send_pkt_def build_serv_echo_packet_def sample_tester_def sample_ms_env_def new_mstester_def)

lemma sample_echo_fields:
  "length (sample_echo n) = 1024" "sample_echo n ! 0 = PKT_TYPE_ECHO_CTRL" "sample_echo n ! Suc 0 = CTRL_EVENT_TEST_ECHO"
  "be_get_u32 2 (sample_echo n) = ucast (now sample_ms_env 0) mod 1000000" "echo_seq (sample_echo n) = n"
  by (simp_all add: sample_echo_def echo_seq_def echo_packet_fields) (simp_all add: build_serv_echo_packet_def sample_tester_def new_mstester_def)


text \<open>
  The configuration is not checked: packets longer than the buffer are read from behind it, and a
  bit rate of zero divides by zero.
\<close>

theorem packet_size_unchecked: "pkt_size (mt_cfg M) > 1024 \<Longrightarrow> length (mt_pkt M) = 1024 \<Longrightarrow> warm_up E M = Inl OutOfBounds"
proof -
  assume a: "pkt_size (mt_cfg M) > 1024" "length (mt_pkt M) = 1024"
  have "unat (pkt_size (mt_cfg M)) > 1024" using a(1) by (simp add: word_less_nat_alt)
  then show ?thesis using a(2) by (simp add: warm_up_def Let_def send_pkt_def build_serv_echo_packet_def)
qed

end
