(* ===== verification/TesterLife.thy ===== *)
theory TesterLife
  imports MsTester "HOL-Library.Multiset"
begin

text \<open>
  The tester of a media server from its creation to its release (\<open>third/eice/src/mstester.cpp\<close>): what
  \<open>mstester_new\<close> allocates, the sending thread of each run, who joins it, what \<open>mstester_free\<close> releases; the
  sending thread as a whole; and the wait for its end.
\<close>

section \<open>Objects\<close>

text \<open>The thread of the \<open>k\<close>-th run is \<open>SenderThread k\<close>.\<close>

datatype tester_resource =
    TesterMemory | TesterPool | TesterConfig | TesterLock | TesterHeap | TesterQueue | TesterWorker
  | TesterSocket | TesterActiveSocket | SenderThread nat

record tester_handles =
  th_cfg :: bool
  th_lock :: bool
  th_heap :: bool
  th_ioqueue :: bool
  th_worker :: bool
  th_sock :: "bool \<times> bool"
  th_sender :: "nat option"
  th_state :: unit_state
  th_runs :: nat

definition blank_tester :: tester_handles where
  "blank_tester = \<lparr>th_cfg = False, th_lock = False, th_heap = False, th_ioqueue = False, th_worker = False,
     th_sock = (False, False), th_sender = None, th_state = US_READY, th_runs = 0\<rparr>"

text \<open>Closing an active socket closes its descriptor as well, as pjlib documents.\<close>

fun closed_by :: "sock_effect \<Rightarrow> tester_resource list" where
  "closed_by CloseActiveSocket = [TesterActiveSocket, TesterSocket]"
| "closed_by CloseSocket = [TesterSocket]"

definition sock_resources :: "bool \<times> bool \<Rightarrow> tester_resource list" where
  "sock_resources s = concat (map closed_by (free_pjsock s))"

section \<open>Creation and release\<close>

definition tester_creations :: "((tester_handles \<Rightarrow> tester_handles) \<times> tester_resource) list" where
  "tester_creations =
     [(\<lambda>h. h\<lparr>th_lock := True\<rparr>, TesterLock), (\<lambda>h. h\<lparr>th_heap := True\<rparr>, TesterHeap),
      (\<lambda>h. h\<lparr>th_ioqueue := True\<rparr>, TesterQueue), (\<lambda>h. h\<lparr>th_worker := True\<rparr>, TesterWorker)]"

fun create_tester :: "(nat \<Rightarrow> int) \<Rightarrow> nat \<Rightarrow> ((tester_handles \<Rightarrow> tester_handles) \<times> tester_resource) list \<Rightarrow> tester_handles
    \<Rightarrow> int \<times> tester_handles \<times> tester_resource list" where
  "create_tester st k [] h = (0, h, [])"
| "create_tester st k ((store, r) # cs) h =
     (if st k \<noteq> 0 then (st k, h, [])
      else let (ret, h', res) = create_tester st (Suc k) cs (store h) in (ret, h', r # res))"

text \<open>\<open>mstester_new\<close>: its status, the object it stands at, and what was allocated.\<close>

definition tester_new :: "bool \<Rightarrow> (nat \<Rightarrow> int) \<Rightarrow> (nat \<Rightarrow> int) \<Rightarrow> int \<times> tester_handles \<times> tester_resource list" where
  "tester_new config_ok st sock_st =
     (if \<not> config_ok then (-1, blank_tester, [TesterMemory, TesterPool])
      else
        let (ret, h, res) = create_tester st 0 tester_creations (blank_tester\<lparr>th_cfg := True\<rparr>);
            acq = [TesterMemory, TesterPool, TesterConfig] @ res
        in if ret \<noteq> 0 then (ret, h, acq)
           else let (ret', s) = create_pjsock sock_st in (ret', h\<lparr>th_sock := s\<rparr>, acq @ sock_resources s))"

text \<open>
  \<open>mstester_stop\<close> with the join. The thread that is joined has set \<open>US_FINISH\<close> on its way out. The lock is
  taken before anything is looked at.
\<close>

definition stop_and_join :: "tester_handles \<Rightarrow> (tester_handles \<times> tester_resource list) outcome" where
  "stop_and_join h =
     (if \<not> th_lock h then Inl NullDeref
      else if th_state h \<noteq> US_RUNNING then Inr (h, [])
      else (case th_sender h of
              None \<Rightarrow> Inr (h, [])
            | Some k \<Rightarrow> Inr (h\<lparr>th_sender := None, th_state := US_FINISH\<rparr>, [SenderThread k])))"

definition mstester_free :: "tester_handles \<Rightarrow> tester_resource list outcome" where
  "mstester_free h =
     (case stop_and_join h of
        Inl e \<Rightarrow> Inl e
      | Inr (h1, joined) \<Rightarrow>
          Inr (sock_resources (th_sock h) @ joined
               @ (if th_worker h1 then [TesterWorker] else [])
               @ (if th_ioqueue h1 then [TesterQueue] else [])
               @ (if th_heap h1 then [TesterHeap] else [])
               @ (if th_lock h1 then [TesterLock] else [])
               @ (if th_cfg h1 then [TesterConfig] else [])
               @ [TesterPool, TesterMemory]))"

section \<open>Runs\<close>

text \<open>
  What happens between creation and release: \<open>mstester_start\<close> with the statuses of the peer address and of the
  thread, the end of the sending thread on its own, and \<open>mstester_stop\<close>. A handle that is overwritten is lost.
\<close>

datatype tester_event = StartRun int int | RunEnds | StopRun

type_synonym tester_step = "tester_handles \<times> tester_resource list \<times> tester_resource list \<times> tester_resource list"

definition sender_handle :: "tester_handles \<Rightarrow> tester_resource list" where
  "sender_handle h = (case th_sender h of None \<Rightarrow> [] | Some k \<Rightarrow> [SenderThread k])"

definition start_run :: "int \<Rightarrow> int \<Rightarrow> tester_handles \<Rightarrow> tester_step" where
  "start_run addr thread h =
     (if th_state h = US_RUNNING \<or> th_state h \<noteq> US_READY \<and> th_state h \<noteq> US_FINISH then (h, [], [], [])
      else if addr \<noteq> 0 \<or> thread \<noteq> 0 then (h, [], [], [])
      else (h\<lparr>th_sender := Some (th_runs h), th_runs := Suc (th_runs h), th_state := US_RUNNING\<rparr>,
            [SenderThread (th_runs h)], [], sender_handle h))"

fun tester_step :: "tester_event \<Rightarrow> tester_handles \<Rightarrow> tester_step outcome" where
  "tester_step (StartRun addr thread) h = Inr (start_run addr thread h)"
| "tester_step RunEnds h = Inr (if th_state h = US_RUNNING then h\<lparr>th_state := US_FINISH\<rparr> else h, [], [], [])"
| "tester_step StopRun h = map_sum (\<lambda>e. e) (\<lambda>(h1, joined). (h1, [], joined, [])) (stop_and_join h)"

fun tester_run :: "tester_event list \<Rightarrow> tester_handles \<Rightarrow> tester_step outcome" where
  "tester_run [] h = Inr (h, [], [], [])"
| "tester_run (ev # evs) h =
     (case tester_step ev h of
        Inl e \<Rightarrow> Inl e
      | Inr (h1, acq1, rel1, lost1) \<Rightarrow>
          map_sum (\<lambda>e. e) (\<lambda>(h2, acq2, rel2, lost2). (h2, acq1 @ acq2, rel1 @ rel2, lost1 @ lost2)) (tester_run evs h1))"

text \<open>How many runs have ended on their own.\<close>

fun own_ends :: "tester_event list \<Rightarrow> tester_handles \<Rightarrow> nat" where
  "own_ends [] h = 0"
| "own_ends (ev # evs) h =
     (if ev = RunEnds \<and> th_state h = US_RUNNING then 1 else 0)
     + (case tester_step ev h of Inl e \<Rightarrow> 0 | Inr (h1, _) \<Rightarrow> own_ends evs h1)"

text \<open>The handle that \<open>mstester_free\<close> does not look at: that of a run that is over.\<close>

definition unjoined :: "tester_handles \<Rightarrow> tester_resource list" where
  "unjoined h = (if th_state h = US_RUNNING then [] else sender_handle h)"

definition lasting :: "tester_handles \<Rightarrow> tester_resource list" where
  "lasting h = (if th_worker h then [TesterWorker] else []) @ (if th_ioqueue h then [TesterQueue] else [])
       @ (if th_heap h then [TesterHeap] else []) @ (if th_lock h then [TesterLock] else [])
       @ (if th_cfg h then [TesterConfig] else []) @ [TesterPool, TesterMemory]"

definition tester_holds :: "tester_handles \<Rightarrow> tester_resource multiset" where
  "tester_holds h = mset (sock_resources (th_sock h)) + mset (lasting h) + mset (sender_handle h)"

lemma run_parts [simp]:
  "lasting (h\<lparr>th_sender := s\<rparr>) = lasting h" "lasting (h\<lparr>th_state := u\<rparr>) = lasting h" "lasting (h\<lparr>th_runs := n\<rparr>) = lasting h"
  "sender_handle (h\<lparr>th_sender := Some k\<rparr>) = [SenderThread k]" "sender_handle (h\<lparr>th_sender := None\<rparr>) = []"
  "sender_handle (h\<lparr>th_state := u\<rparr>) = sender_handle h" "sender_handle (h\<lparr>th_runs := n\<rparr>) = sender_handle h"
  by (simp_all add: lasting_def sender_handle_def)

definition tester_ok :: "tester_handles \<Rightarrow> bool" where
  "tester_ok h \<longleftrightarrow> th_lock h \<and> (th_state h = US_RUNNING \<longrightarrow> th_sender h \<noteq> None)
     \<and> (th_state h = US_READY \<longrightarrow> th_sender h = None) \<and> th_state h \<noteq> US_STOPPING"

lemma free_lasting: "mstester_free h = map_sum (\<lambda>e. e) (\<lambda>(h1, joined). sock_resources (th_sock h) @ joined @ lasting h1) (stop_and_join h)"
  by (simp add: mstester_free_def lasting_def split: sum.split)

lemma free_holds:
  assumes "tester_ok h"
  shows "\<exists>freed. mstester_free h = Inr freed \<and> tester_holds h = mset freed + mset (unjoined h)"
proof (cases "th_state h = US_RUNNING")
  case True
  then obtain k where "th_sender h = Some k" using assms by (auto simp: tester_ok_def)
  then show ?thesis using assms True
    by (simp add: free_lasting stop_and_join_def tester_ok_def tester_holds_def unjoined_def)
       (simp add: sender_handle_def)
next
  case False
  then show ?thesis using assms
    by (simp add: free_lasting stop_and_join_def tester_ok_def tester_holds_def unjoined_def)
qed

lemma start_run_holds:
  assumes "start_run addr thread h = (h', acq, rel, lost)" "tester_ok h"
  shows "tester_ok h' \<and> tester_holds h + mset acq = tester_holds h' + mset rel + mset lost
    \<and> length lost + length (unjoined h') = length (unjoined h)"
proof (cases "th_state h = US_RUNNING \<or> addr \<noteq> 0 \<or> thread \<noteq> 0")
  case True
  then have "h' = h" "acq = []" "rel = []" "lost = []" using assms by (auto simp: start_run_def split: if_split_asm)
  then show ?thesis using assms(2) by simp
next
  case False
  then have "th_state h = US_READY \<or> th_state h = US_FINISH" using assms(2) by (cases "th_state h") (auto simp: tester_ok_def)
  then have h: "h' = h\<lparr>th_sender := Some (th_runs h), th_runs := Suc (th_runs h), th_state := US_RUNNING\<rparr>"
    "acq = [SenderThread (th_runs h)]" "rel = []" "lost = sender_handle h"
    using assms(1) False by (auto simp: start_run_def)
  then show ?thesis using assms(2) False by (simp add: tester_ok_def tester_holds_def unjoined_def)
qed

lemma tester_step_holds:
  assumes "tester_step ev h = Inr (h', acq, rel, lost)" "tester_ok h"
  shows "tester_ok h' \<and> tester_holds h + mset acq = tester_holds h' + mset rel + mset lost
    \<and> length lost + length (unjoined h') = length (unjoined h) + (if ev = RunEnds \<and> th_state h = US_RUNNING then 1 else 0)"
proof (cases ev)
  case (StartRun addr thread)
  then show ?thesis using assms start_run_holds by simp
next
  case RunEnds
  show ?thesis
  proof (cases "th_state h = US_RUNNING")
    case True
    then obtain k where "th_sender h = Some k" using assms(2) by (auto simp: tester_ok_def)
    then have "length (sender_handle h) = 1" by (simp add: sender_handle_def)
    then show ?thesis using assms RunEnds True by (auto simp: tester_ok_def tester_holds_def unjoined_def)
  qed (use assms RunEnds in auto)
next
  case StopRun
  show ?thesis
  proof (cases "th_state h = US_RUNNING")
    case True
    then obtain k where "th_sender h = Some k" using assms(2) by (auto simp: tester_ok_def)
    then have "sender_handle h = [SenderThread k]" "h' = h\<lparr>th_sender := None, th_state := US_FINISH\<rparr>" "acq = []"
      "rel = [SenderThread k]" "lost = []"
      using assms StopRun True by (auto simp: sender_handle_def stop_and_join_def tester_ok_def)
    then show ?thesis using assms(2) StopRun True by (simp add: tester_ok_def tester_holds_def unjoined_def)
  qed (use assms StopRun in \<open>auto simp: stop_and_join_def tester_ok_def\<close>)
qed

lemma tester_run_holds:
  assumes "tester_run evs h = Inr (h', acq, rel, lost)" "tester_ok h"
  shows "tester_ok h' \<and> tester_holds h + mset acq = tester_holds h' + mset rel + mset lost
    \<and> length lost + length (unjoined h') = length (unjoined h) + own_ends evs h"
  using assms
proof (induction evs arbitrary: h acq rel lost)
  case (Cons ev evs)
  then obtain h1 acq1 rel1 lost1 acq2 rel2 lost2 where s: "tester_step ev h = Inr (h1, acq1, rel1, lost1)"
    "tester_run evs h1 = Inr (h', acq2, rel2, lost2)" "acq = acq1 @ acq2" "rel = rel1 @ rel2" "lost = lost1 @ lost2"
    by (auto simp: map_sum_Inr split: sum.splits prod.splits)
  note a = tester_step_holds [OF s(1) Cons.prems(2)]
  note b = Cons.IH [OF s(2) a [THEN conjunct1]]
  have "tester_holds h + mset acq = (tester_holds h + mset acq1) + mset acq2" by (simp add: s ac_simps)
  also have "\<dots> = (tester_holds h1 + mset acq2) + mset rel1 + mset lost1" using a by (simp add: ac_simps)
  also have "\<dots> = tester_holds h' + mset rel + mset lost" using b by (simp add: s ac_simps)
  finally show ?case using a b s by simp
qed simp

lemma tester_new_holds:
  assumes "tester_new config_ok st sst = (ret, h, acq)"
  shows "th_lock h = (config_ok \<and> st 0 = 0) \<and> th_sender h = None \<and> th_state h = US_READY \<and> tester_holds h = mset acq"
proof -
  have s: "sock_resources (False, False) = []" by (simp add: sock_resources_def free_pjsock_def)
  show ?thesis
  proof (cases "config_ok \<and> st 0 = 0 \<and> st 1 = 0 \<and> st 2 = 0 \<and> st 3 = 0")
    case True
    obtain ret' sck where k: "create_pjsock sst = (ret', sck)" by (cases "create_pjsock sst")
    have "(ret, h, acq) = (ret', blank_tester\<lparr>th_cfg := True, th_lock := True, th_heap := True, th_ioqueue := True,
        th_worker := True, th_sock := sck\<rparr>,
        [TesterMemory, TesterPool, TesterConfig, TesterLock, TesterHeap, TesterQueue, TesterWorker] @ sock_resources sck)"
      unfolding assms [symmetric] using True k by (simp add: tester_new_def tester_creations_def numeral_2_eq_2 numeral_3_eq_3)
    then show ?thesis using True
      by (simp add: blank_tester_def tester_holds_def lasting_def sender_handle_def ac_simps)
  next
    case False
    then show ?thesis using assms s
      by (auto simp: tester_new_def tester_creations_def blank_tester_def tester_holds_def lasting_def sender_handle_def
          numeral_2_eq_2 numeral_3_eq_3 split: if_split_asm)
  qed
qed

text \<open>The creation is that of \<open>mstester_new\<close>: it ends with the same status.\<close>

lemma tester_new_status:
  assumes "parse_mstester_config L config = Inr c"
  shows "mstester_new L (\<lambda>k. if k = 4 then fst (create_pjsock sst) else st k) config
    = Inr (let ret = fst (tester_new (c \<noteq> None) st sst) in if ret \<noteq> 0 then Inl ret else Inr (new_mstester (the c)))"
  using assms by (auto simp: mstester_new_def tester_new_def tester_creations_def eval_nat_numeral Let_def case_prod_beta
      split: option.split)

text \<open>The states of the runs are those of \<open>mstester_start\<close> and \<open>mstester_stop\<close>.\<close>

lemma start_run_state:
  "th_state h = mt_state M \<Longrightarrow> th_state (fst (start_run (addr_status E) (thread_status E) h)) = mt_state (snd (mstester_start E M))"
  by (auto simp: start_run_def mstester_start_def Let_def)

lemma stop_joins:
  "th_state h = mt_state M \<Longrightarrow> stop_and_join h = Inr (h1, joined) \<Longrightarrow> joined \<noteq> [] \<Longrightarrow> mt_state M = US_RUNNING \<and> stop_req (mstester_stop M)"
  by (auto simp: stop_and_join_def mstester_stop_def split: if_split_asm)

text \<open>
  C32: What becomes of everything the tester of a media server allocates. Whatever fails in \<open>mstester_new\<close> and
  whatever runs are made, \<open>mstester_free\<close> releases what has been allocated, each object once, except what was
  joined by \<open>mstester_stop\<close> and the handles of sending threads that ended on their own, of which it, or the
  next start, loses one for each such run. When \<open>mstester_new\<close> fails before it has the group lock, the
  release it makes itself reads through the null lock.
\<close>
theorem tester_accounted:
  assumes "tester_new config_ok st sst = (ret, h0, acq0)"
  shows "(if config_ok \<and> st 0 = 0
          then (\<forall>evs h acq rel lost. tester_run evs h0 = Inr (h, acq, rel, lost) \<longrightarrow>
              (\<exists>freed. mstester_free h = Inr freed
                 \<and> mset acq0 + mset acq = mset freed + mset rel + mset (lost @ unjoined h)
                 \<and> length (lost @ unjoined h) = own_ends evs h0))
          else mstester_free h0 = Inl NullDeref)"
proof (cases "config_ok \<and> st 0 = 0")
  case True
  note n = tester_new_holds [OF assms]
  have ok: "tester_ok h0" "unjoined h0 = []" using n True by (simp_all add: tester_ok_def unjoined_def sender_handle_def)
  have "\<exists>freed. mstester_free h = Inr freed
                 \<and> mset acq0 + mset acq = mset freed + mset rel + mset (lost @ unjoined h)
                 \<and> length (lost @ unjoined h) = own_ends evs h0"
    if "tester_run evs h0 = Inr (h, acq, rel, lost)" for evs h acq rel lost
  proof -
    note r = tester_run_holds [OF that ok(1)]
    obtain freed where f: "mstester_free h = Inr freed" "tester_holds h = mset freed + mset (unjoined h)"
      using free_holds r by blast
    show ?thesis using f r n ok(2) by (intro exI [of _ freed]) (simp add: ac_simps)
  qed
  then show ?thesis using True by simp
next
  case False
  then have "\<not> th_lock h0" using tester_new_holds [OF assms] by simp
  then show ?thesis using False by (auto simp: mstester_free_def stop_and_join_def)
qed

text \<open>A run that ends on its own, one that is stopped, and the release.\<close>

theorem tester_accounted_witness:
  "\<exists>h0 acq0 h freed. tester_new True (\<lambda>_. 0) (\<lambda>_. 0) = (0, h0, acq0)
    \<and> tester_run [StartRun 0 0, RunEnds, StartRun 0 0, StopRun] h0
      = Inr (h, [SenderThread 0, SenderThread 1], [SenderThread 1], [SenderThread 0])
    \<and> mstester_free h = Inr freed \<and> mset acq0 = mset freed"
proof -
  obtain ret h0 acq0 where n: "tester_new True (\<lambda>_. 0) (\<lambda>_. 0) = (ret, h0, acq0)" by (metis prod_cases3)
  then have z: "ret = 0" "th_sender h0 = None" "th_state h0 = US_READY" "th_lock h0" "th_runs h0 = 0"
    by (auto simp: tester_new_def tester_creations_def create_pjsock_def blank_tester_def Let_def eval_nat_numeral)
  let ?h = "h0\<lparr>th_runs := 2, th_sender := None, th_state := US_FINISH\<rparr>"
  have r: "tester_run [StartRun 0 0, RunEnds, StartRun 0 0, StopRun] h0
      = Inr (?h, [SenderThread 0, SenderThread 1], [SenderThread 1], [SenderThread 0])"
    using z by (simp add: start_run_def stop_and_join_def sender_handle_def numeral_2_eq_2)
  have u: "unjoined ?h = []" by (simp add: unjoined_def sender_handle_def)
  from tester_accounted [OF n] have
    "\<forall>evs h acq rel lost. tester_run evs h0 = Inr (h, acq, rel, lost) \<longrightarrow> (\<exists>freed. mstester_free h = Inr freed
       \<and> mset acq0 + mset acq = mset freed + mset rel + mset (lost @ unjoined h)
       \<and> length (lost @ unjoined h) = own_ends evs h0)" by (simp only: simp_thms if_True)
  from this [rule_format, OF r] obtain freed where f: "mstester_free ?h = Inr freed"
    "mset acq0 + mset [SenderThread 0, SenderThread 1] = mset freed + mset [SenderThread 1] + mset ([SenderThread 0] @ unjoined ?h)"
    by blast
  then have "mset acq0 = mset freed" unfolding u by simp
  then show ?thesis using n r f(1) z(1) by (intro exI [of _ h0] exI [of _ acq0] exI [of _ ?h] exI [of _ freed]) simp
qed

section \<open>The sending thread\<close>

text \<open>
  What the other threads do to the object while the sending thread does not hold the lock: the polling
  thread delivers a packet or runs the timer, somebody asks the run to stop.
\<close>

datatype tester_action = Recv ms_env "byte list" u32 | Tick ms_env | AskStop

definition tester_on_data_recvfrom :: "ms_env \<Rightarrow> byte list \<Rightarrow> u32 \<Rightarrow> mstester \<Rightarrow> (bool \<times> mstester) outcome" where
  "tester_on_data_recvfrom E data len M = map_sum (\<lambda>e. e) (\<lambda>M'. (True, M')) (recv_echo_packet E data len M)"

fun act :: "tester_action \<Rightarrow> mstester \<Rightarrow> mstester outcome" where
  "act (Recv E data len) M = map_sum (\<lambda>e. e) snd (tester_on_data_recvfrom E data len M)"
| "act (Tick E) M = Inr (snd (tester_timer_cb E M))"
| "act AskStop M = Inr (mstester_stop M)"

fun tester_actions :: "tester_action list \<Rightarrow> mstester \<Rightarrow> mstester outcome" where
  "tester_actions [] M = Inr M"
| "tester_actions (a # as) M =
     (case act a M of Inl e \<Rightarrow> Inl e | Inr M1 \<Rightarrow> tester_actions as M1)"

text \<open>
  The loop of \<open>_sending_thread\<close>. The lock is released while the thread sleeps between two rounds, when
  \<open>acts k\<close> is done. \<open>E k\<close> is what the outside answers in the \<open>k\<close>-th round. The result is the last round
  with the object.
\<close>

partial_function (option) send_loop :: "(nat \<Rightarrow> ms_env) \<Rightarrow> (nat \<Rightarrow> tester_action list) \<Rightarrow> nat \<Rightarrow> mstester
    \<Rightarrow> (nat \<times> mstester) outcome option" where
  "send_loop E acts k M =
     (case send_round (E k) M of
        Inl e \<Rightarrow> Some (Inl e)
      | Inr (sleep, M1) \<Rightarrow>
          (case sleep of
             None \<Rightarrow> Some (Inr (k, M1))
           | Some ms \<Rightarrow>
               (case tester_actions (acts k) M1 of
                  Inl e \<Rightarrow> Some (Inl e)
                | Inr M2 \<Rightarrow> send_loop E acts (Suc k) M2)))"

text \<open>Before the result is written the lock is released once more, for two seconds.\<close>

definition sending_thread :: "(nat \<Rightarrow> ms_env) \<Rightarrow> (nat \<Rightarrow> tester_action list) \<Rightarrow> mstester \<Rightarrow> mstester outcome option" where
  "sending_thread E acts M =
     (case warm_up (E 0) M of
        Inl e \<Rightarrow> Some (Inl e)
      | Inr M1 \<Rightarrow>
          (case send_loop E acts 1 M1 of
             None \<Rightarrow> None
           | Some (Inl e) \<Rightarrow> Some (Inl e)
           | Some (Inr (k, M2)) \<Rightarrow>
               Some (map_sum (\<lambda>e. e) (send_finish (elapsed_msec64 (E k) (kick_time M2) (now (E k) 2)))
                 (tester_actions (acts k) M2))))"

text \<open>\<open>mstester_waitfor_done\<close>, with the states it sees every half second.\<close>

partial_function (option) mstester_waitfor_done :: "(nat \<Rightarrow> unit_state) \<Rightarrow> nat \<Rightarrow> nat option" where
  "mstester_waitfor_done seen k = (if seen k = US_RUNNING then mstester_waitfor_done seen (Suc k) else Some k)"

lemma waitfor_done_returns: "seen (k + n) \<noteq> US_RUNNING \<Longrightarrow> \<exists>m \<le> k + n. mstester_waitfor_done seen k = Some m \<and> seen m \<noteq> US_RUNNING"
proof (induction n arbitrary: k)
  case 0
  then show ?case by (auto simp: mstester_waitfor_done.simps [of seen k])
next
  case (Suc n)
  show ?case
  proof (cases "seen k = US_RUNNING")
    case True
    with Suc.IH [of "Suc k"] Suc.prems show ?thesis by (auto simp: mstester_waitfor_done.simps [of seen k])
  qed (auto simp: mstester_waitfor_done.simps [of seen k])
qed

text \<open>The configuration and the start of the run, which the end of the run depends on.\<close>

definition plan_of :: "mstester \<Rightarrow> mstester_config \<times> u64" where
  "plan_of M = (mt_cfg M, kick_time M)"

definition time_up :: "ms_env \<Rightarrow> mstester_config \<times> u64 \<Rightarrow> bool" where
  "time_up E p \<longleftrightarrow> elapsed_msec64 E (snd p) (now E 1) \<ge> ucast (test_seconds (fst p) * 1000)"

text \<open>Nothing that runs while the thread sleeps changes them.\<close>

lemma plan_upd [simp]:
  "plan_of (M\<lparr>recv_pkts := a\<rparr>) = plan_of M" "plan_of (M\<lparr>recv_bytes := b\<rparr>) = plan_of M"
  "plan_of (M\<lparr>expect_recv_seq := a\<rparr>) = plan_of M" "plan_of (M\<lparr>err_pkts := a\<rparr>) = plan_of M"
  "plan_of (M\<lparr>seq_lost_count := a\<rparr>) = plan_of M" "plan_of (M\<lparr>disorder_count := a\<rparr>) = plan_of M"
  "plan_of (M\<lparr>st_delay := d\<rparr>) = plan_of M" "plan_of (M\<lparr>stop_req := s\<rparr>) = plan_of M"
  "plan_of (M\<lparr>send_bps := b\<rparr>) = plan_of M" "plan_of (M\<lparr>recv_bps := b\<rparr>) = plan_of M"
  "plan_of (M\<lparr>last_sent_bytes := b\<rparr>) = plan_of M" "plan_of (M\<lparr>last_recv_bytes := b\<rparr>) = plan_of M"
  "plan_of (M\<lparr>check_time := b\<rparr>) = plan_of M"
  by (simp_all add: plan_of_def)

lemma plan_kept:
  "plan_of (snd (tester_timer_cb E M)) = plan_of M" "plan_of (mstester_stop M) = plan_of M"
  by (simp_all add: tester_timer_cb_def mstester_stop_def Let_def)

lemma branchE: "(if c then a else b) = x \<Longrightarrow> (a = x \<Longrightarrow> P) \<Longrightarrow> (b = x \<Longrightarrow> P) \<Longrightarrow> P"
  by (cases c) simp_all

lemma plan_kept_recv:
  assumes "recv_echo_packet E buf len M = Inr M'"
  shows "plan_of M' = plan_of M"
  using assms unfolding recv_echo_packet_def Let_def recv_echo_failed_def
  by (elim branchE) (simp_all only: sum.inject sum.distinct map_sum_Inr, auto)

lemma plan_sent: "build_echo_pkt_and_send E M = Inr (ret, M1) \<Longrightarrow> plan_of M1 = plan_of M"
  by (auto simp: build_echo_pkt_and_send_def plan_of_def Let_def split: sum.split_asm)

lemma send_round_plan:
  assumes "send_round E M = Inr (s, M1)"
  shows "plan_of M1 = plan_of M \<and> (time_up E (plan_of M) \<longrightarrow> s = None)"
proof (cases "stop_req M")
  case True
  then show ?thesis using assms by (simp add: send_round_def)
next
  case False
  then obtain ret M2 where b: "build_echo_pkt_and_send E M = Inr (ret, M2)"
    using assms by (auto simp: send_round_def split: sum.split_asm)
  note p = plan_sent [OF b]
  show ?thesis
  proof (cases "ret = 0")
    case True
    then have r: "(if bitrate (mt_cfg M2) = 0 then Inl DivideByZero
        else if elapsed_msec64 E (kick_time M2) (now E 1) \<ge> ucast (test_seconds (mt_cfg M2) * 1000) then Inr (None, M2)
        else Inr (Some (let normal_ms = sent_bytes M2 * 1000 * 8 div ucast (bitrate (mt_cfg M2));
               elapsed_ms = elapsed_msec64 E (kick_time M2) (now E 1)
             in if normal_ms > elapsed_ms then ucast (normal_ms - elapsed_ms) else 0), M2)) = Inr (s, M1)"
      using assms False b unfolding send_round_def Let_def by (simp only: if_False sum.case prod.case simp_thms)
    then have "M1 = M2" by (elim branchE) simp_all
    moreover have "s = None" if "elapsed_msec64 E (kick_time M2) (now E 1) \<ge> ucast (test_seconds (mt_cfg M2) * 1000)"
      using r unfolding if_P [OF that] by (elim branchE) simp_all
    ultimately show ?thesis unfolding p [symmetric] by (simp add: time_up_def plan_of_def)
  qed (use assms False b p in \<open>simp add: send_round_def\<close>)
qed

lemma plan_kept_actions: "tester_actions as M = Inr M' \<Longrightarrow> plan_of M' = plan_of M"
proof (induction as arbitrary: M)
  case (Cons a as)
  from Cons.prems obtain M1 where s: "act a M = Inr M1" "tester_actions as M1 = Inr M'" by (auto split: sum.splits)
  have "plan_of M1 = plan_of M"
    using s(1) by (cases a) (auto simp: tester_on_data_recvfrom_def map_sum_Inr plan_kept dest: plan_kept_recv)
  then show ?case using Cons.IH [OF s(2)] by simp
qed simp

lemma send_loop_ends:
  assumes "time_up (E (k + n)) (plan_of M)"
  shows "\<exists>r. send_loop E acts k M = Some r \<and> (\<forall>m M'. r = Inr (m, M') \<longrightarrow> m \<le> k + n)"
  using assms
proof (induction n arbitrary: k M)
  case 0
  show ?case
  proof (cases "send_round (E k) M")
    case (Inr x)
    obtain s M1 where x: "x = (s, M1)" by (cases x)
    from send_round_plan [OF Inr [unfolded x]] 0 have "s = None" by simp
    then show ?thesis using Inr x by (subst send_loop.simps) simp
  qed (subst send_loop.simps, simp)
next
  case (Suc n)
  show ?case
  proof (cases "send_round (E k) M")
    case (Inl e)
    then show ?thesis by (subst send_loop.simps) simp
  next
    case (Inr x)
    obtain s M1 where x: "x = (s, M1)" by (cases x)
    note p = send_round_plan [OF Inr [unfolded x], THEN conjunct1]
    show ?thesis
    proof (cases "\<exists>ms M2. s = Some ms \<and> tester_actions (acts k) M1 = Inr M2")
      case False
      then show ?thesis using Inr x by (subst send_loop.simps) (auto split: option.split sum.split)
    next
      case True
      then obtain ms M2 where m: "s = Some ms" "tester_actions (acts k) M1 = Inr M2" by blast
      have "time_up (E (Suc k + n)) (plan_of M2)" using Suc.prems plan_kept_actions [OF m(2)] p by simp
      from Suc.IH [OF this] show ?thesis using Inr x m by (subst send_loop.simps) fastforce
    qed
  qed
qed

text \<open>
  A run ends. Whatever packets arrive, timers run and requests to stop come while the sending thread
  sleeps, once the clock has reached the configured time the thread returns, and unless something went
  wrong the run is marked as finished; whoever waits for that returns as well.
\<close>
theorem run_ends:
  assumes "\<And>t :: u64. elapsed_msec64 (E (Suc n)) t (now (E (Suc n)) 1) \<ge> ucast (test_seconds (mt_cfg M) * 1000)"
  shows "\<exists>r. sending_thread E acts M = Some r \<and> (\<forall>M'. r = Inr M' \<longrightarrow> mt_state M' = US_FINISH)
    \<and> (\<forall>seen k m M'. r = Inr M' \<and> seen (k + m) = mt_state M' \<longrightarrow> mstester_waitfor_done seen k \<noteq> None)"
proof -
  have w: "mstester_waitfor_done seen k \<noteq> None" if "seen (k + m) = US_FINISH" for seen k m
    using waitfor_done_returns [of seen k m] that by auto
  have "\<exists>r. sending_thread E acts M = Some r \<and> (\<forall>M'. r = Inr M' \<longrightarrow> mt_state M' = US_FINISH)"
  proof (cases "warm_up (E 0) M")
    case (Inl e)
    then show ?thesis by (simp add: sending_thread_def)
  next
    case (Inr M1)
    then have "mt_cfg M1 = mt_cfg M" by (auto simp: warm_up_def Let_def map_sum_Inr)
    then have "time_up (E (1 + n)) (plan_of M1)" using assms by (simp add: time_up_def plan_of_def)
    from send_loop_ends [where E = E and acts = acts, OF this] obtain r where r: "send_loop E acts 1 M1 = Some r" by blast
    then show ?thesis using Inr
      by (auto simp: sending_thread_def map_sum_Inr send_finish_def split: sum.split)
  qed
  then show ?thesis using w by fastforce
qed

theorem run_ends_witness:
  "\<exists>r. sending_thread (\<lambda>_. sample_ms_env\<lparr>elapsed_msec64 := \<lambda>a b. 20000\<rparr>) (\<lambda>_. [AskStop]) sample_tester = Some r
    \<and> (\<forall>M'. r = Inr M' \<longrightarrow> mt_state M' = US_FINISH)"
  using run_ends [where E = "\<lambda>_. sample_ms_env\<lparr>elapsed_msec64 := \<lambda>a b. 20000\<rparr>" and M = sample_tester
      and acts = "\<lambda>_. [AskStop]"]
  by (auto simp: sample_tester_def new_mstester_def)

text \<open>The configured time is counted in milliseconds in 32 bits: some fifty days are cut to less than a second.\<close>

theorem long_run_cut:
  "test_seconds (mt_cfg M) = 4294968 \<Longrightarrow> time_up E (plan_of M) \<longleftrightarrow> elapsed_msec64 E (kick_time M) (now E 1) \<ge> 704"
  by (simp add: time_up_def plan_of_def)

text \<open>The release closes the socket before it waits for the thread that sends on it.\<close>

theorem socket_closed_in_use:
  "th_lock h \<Longrightarrow> th_state h = US_RUNNING \<Longrightarrow> th_sender h = Some k
    \<Longrightarrow> \<exists>rest. mstester_free h = Inr (sock_resources (th_sock h) @ SenderThread k # rest)"
  by (simp add: mstester_free_def stop_and_join_def)

end
