(* ===== verification/Resources.thy ===== *)
theory Resources
  imports Eice "HOL-Library.Multiset"
begin

text \<open>
  What an endpoint and its relay client allocate and release (\<open>third/eice/src/eice.cpp\<close>, \<open>eice_new\<close>,
  \<open>eice_free\<close>, \<open>confice_new\<close>, \<open>confice_free\<close>, with every way in which the creations can fail). An object is the
  set of its pointers that are not null; allocations and releases are recorded in their order.
\<close>

section \<open>Objects\<close>

datatype resource =
    EndpointMemory | CachingPool | Configuration | EndpointLock | GroupLock | TimerHeap | IoQueue | WorkerThread | Strans
  | LocalContent | LocalUfrag | LocalPwd | RemoteUfrag | RemotePwd
  | RelayMemory | RelayGroupLock | RelayConfId | RelayServerIp | RelayCode | RelayCredential nat | RelayChannels
  | RelaySocket nat | RelayActiveSocket nat | RelaySession

text \<open>A channel has a descriptor, zero or invalid when it has none, and an active socket.\<close>

record relay_handles =
  rh_grp_lock :: bool
  rh_strings :: bool
  rh_credentials :: bool
  rh_channels :: "(bool \<times> bool) list option"
  rh_session :: bool

record endpoint_handles =
  h_pool :: bool
  h_cfg :: bool
  h_lock :: bool
  h_grp_lock :: bool
  h_timer_heap :: bool
  h_ioqueue :: bool
  h_thread :: bool
  h_strans :: bool
  h_confice :: "relay_handles option"
  h_local_content :: bool
  h_local_creds :: bool
  h_remote_creds :: bool

section \<open>The relay client\<close>

text \<open>
  One round of the loop of \<open>confice_new\<close>: \<open>st\<close> are the statuses of the five calls for a channel, the socket,
  its address, its name, the active socket, the first read.
\<close>

definition open_channel :: "(nat \<Rightarrow> int) \<Rightarrow> nat \<Rightarrow> int \<times> (bool \<times> bool) \<times> resource list" where
  "open_channel st i =
     (if st 0 \<noteq> 0 then (st 0, (False, False), [])
      else if st 1 \<noteq> 0 then (st 1, (True, False), [RelaySocket i])
      else if st 2 \<noteq> 0 then (st 2, (True, False), [RelaySocket i])
      else if st 3 \<noteq> 0 then (st 3, (True, False), [RelaySocket i])
      else (st 4, (True, True), [RelaySocket i, RelayActiveSocket i]))"

text \<open>The loop ends with the first channel that fails; the rest stay as \<open>memset\<close> left them.\<close>

fun open_channels :: "(nat \<Rightarrow> nat \<Rightarrow> int) \<Rightarrow> nat \<Rightarrow> nat \<Rightarrow> int \<times> (bool \<times> bool) list \<times> resource list" where
  "open_channels st i 0 = (0, [], [])"
| "open_channels st i (Suc n) =
     (let (ret, ch, res) = open_channel (st i) i
      in if ret \<noteq> 0 then (ret, ch # replicate n (False, False), res)
         else let (ret', chs, res') = open_channels st (Suc i) n in (ret', ch # chs, res @ res'))"

definition close_channel :: "nat \<times> bool \<times> bool \<Rightarrow> resource list" where
  "close_channel c =
     (case c of (i, sock, active) \<Rightarrow>
        if active then [RelayActiveSocket i, RelaySocket i] else if sock then [RelaySocket i] else [])"

text \<open>Closing an active socket closes its descriptor as well, as pjlib documents.\<close>

definition confice_free :: "relay_handles \<Rightarrow> resource list" where
  "confice_free r =
     (if rh_session r then [RelaySession] else [])
     @ (case rh_channels r of None \<Rightarrow> [] | Some chs \<Rightarrow> concat (map close_channel (enumerate 0 chs)) @ [RelayChannels])
     @ (if rh_grp_lock r then [RelayGroupLock] else [])
     @ (if rh_strings r then [RelayConfId, RelayServerIp, RelayCode] else [])
     @ [RelayMemory]"

text \<open>\<open>confice_new\<close> with \<open>n\<close> channels; \<open>lock_status\<close> is that of its group lock. A failed object is freed.\<close>

definition relay_new :: "int \<Rightarrow> (nat \<Rightarrow> nat \<Rightarrow> int) \<Rightarrow> nat \<Rightarrow> int \<times> relay_handles \<times> resource list" where
  "relay_new lock_status st n =
     (let r0 = \<lparr>rh_grp_lock = False, rh_strings = False, rh_credentials = False, rh_channels = None, rh_session = False\<rparr>
      in if lock_status \<noteq> 0 then (lock_status, r0, [RelayMemory])
         else
           let (ret, chs, res) = open_channels st 0 n
           in (ret, r0\<lparr>rh_grp_lock := True, rh_strings := True, rh_credentials := True, rh_channels := Some chs\<rparr>,
               [RelayMemory, RelayGroupLock, RelayConfId, RelayServerIp, RelayCode]
               @ map RelayCredential [0 ..< 4] @ [RelayChannels] @ res))"

definition relay_negotiate :: "relay_handles \<Rightarrow> relay_handles \<times> resource list" where
  "relay_negotiate r = (r\<lparr>rh_session := True\<rparr>, [RelaySession])"

section \<open>The endpoint\<close>

definition eice_free :: "endpoint_handles \<Rightarrow> resource list" where
  "eice_free h =
     (case h_confice h of Some r \<Rightarrow> confice_free r | None \<Rightarrow> [])
     @ (if h_strans h then [Strans] else [])
     @ (if h_thread h then [WorkerThread] else [])
     @ (if h_ioqueue h then [IoQueue] else [])
     @ (if h_timer_heap h then [TimerHeap] else [])
     @ (if h_local_content h then [LocalContent] else [])
     @ (if h_local_creds h then [LocalUfrag, LocalPwd] else [])
     @ (if h_remote_creds h then [RemoteUfrag, RemotePwd] else [])
     @ (if h_grp_lock h then [GroupLock] else [])
     @ (if h_lock h then [EndpointLock] else [])
     @ (if h_cfg h then [Configuration] else [])
     @ (if h_pool h then [CachingPool] else [])
     @ [EndpointMemory]"

text \<open>
  \<open>eice_new\<close>: whether the configuration can be read, what the description gives when there is one, its status
  and whether it has candidates, and the statuses of the creations in their order. The result is a
  status, the object it stands at, and what was allocated.
\<close>

definition blank_handles :: endpoint_handles where
  "blank_handles = \<lparr>h_pool = True, h_cfg = False, h_lock = False, h_grp_lock = False, h_timer_heap = False,
     h_ioqueue = False, h_thread = False, h_strans = False, h_confice = None, h_local_content = False,
     h_local_creds = False, h_remote_creds = False\<rparr>"

text \<open>The creations in their order, each ending the function when it fails.\<close>

definition creations :: "((endpoint_handles \<Rightarrow> endpoint_handles) \<times> resource) list" where
  "creations =
     [(\<lambda>h. h\<lparr>h_lock := True\<rparr>, EndpointLock), (\<lambda>h. h\<lparr>h_grp_lock := True\<rparr>, GroupLock),
      (\<lambda>h. h\<lparr>h_timer_heap := True\<rparr>, TimerHeap), (\<lambda>h. h\<lparr>h_ioqueue := True\<rparr>, IoQueue),
      (\<lambda>h. h\<lparr>h_thread := True\<rparr>, WorkerThread), (\<lambda>h. h\<lparr>h_strans := True\<rparr>, Strans)]"

fun create_handles :: "(nat \<Rightarrow> int) \<Rightarrow> nat \<Rightarrow> ((endpoint_handles \<Rightarrow> endpoint_handles) \<times> resource) list \<Rightarrow> endpoint_handles
    \<Rightarrow> int \<times> endpoint_handles \<times> resource list" where
  "create_handles st k [] h = (0, h, [])"
| "create_handles st k ((store, r) # cs) h =
     (if st k \<noteq> 0 then (st k, h, [])
      else let (ret, h', res) = create_handles st (Suc k) cs (store h) in (ret, h', r # res))"

definition endpoint_new :: "bool \<Rightarrow> (int \<times> bool) option \<Rightarrow> (nat \<Rightarrow> int) \<Rightarrow> int \<times> endpoint_handles \<times> resource list" where
  "endpoint_new config_ok remote st =
     (let base = [EndpointMemory, CachingPool]
      in if \<not> config_ok then (-1, blank_handles, base)
         else
           let h = blank_handles\<lparr>h_cfg := True\<rparr>; res = base @ [Configuration];
               (ret, has_cands) = (case remote of None \<Rightarrow> (0, False) | Some r \<Rightarrow> r)
           in if ret \<noteq> 0 then (ret, h, res)
              else
                let (h', res') = (if has_cands then (h\<lparr>h_remote_creds := True\<rparr>, res @ [RemoteUfrag, RemotePwd]) else (h, res));
                    (ret', h'', res'') = create_handles st 0 creations h'
                in (ret', h'', res' @ res''))"

text \<open>
  What may happen to an endpoint later. \<open>GetLocal\<close> says how far \<open>_get_local\<close> gets: not to the credentials, to
  the credentials only, or to the content, with or without a session. A pointer that is overwritten loses
  what it pointed to.
\<close>

datatype local_progress = NoLocal | CredentialsOnly | ContentOnly | AllLocal

datatype later =
    GetLocal local_progress
  | ParseRemote bool
  | CreateRelay int "nat \<Rightarrow> nat \<Rightarrow> int" nat
  | RelayNegotiates

definition relay_leak :: "relay_handles \<Rightarrow> resource list" where
  "relay_leak r = (if rh_credentials r then map RelayCredential [0 ..< 4] else [])"

type_synonym handles_step = "endpoint_handles \<times> resource list \<times> resource list \<times> resource list"

text \<open>Each gives the object after the step, what was allocated, what was released, and what was lost.\<close>

definition local_handles :: "local_progress \<Rightarrow> endpoint_handles \<Rightarrow> handles_step" where
  "local_handles p h =
     (let creds = [LocalUfrag, LocalPwd]; old = (if h_local_creds h then creds else [])
      in if h_local_content h then (h, [], [], [])
         else (case p of
                 NoLocal \<Rightarrow> (h, [], [], [])
               | CredentialsOnly \<Rightarrow> (h\<lparr>h_local_creds := True\<rparr>, creds, [], old)
               | ContentOnly \<Rightarrow> (h\<lparr>h_local_content := True\<rparr>, [LocalContent], [], [])
               | AllLocal \<Rightarrow> (h\<lparr>h_local_creds := True, h_local_content := True\<rparr>, creds @ [LocalContent], [], old)))"

definition remote_handles :: "bool \<Rightarrow> endpoint_handles \<Rightarrow> handles_step" where
  "remote_handles has_cands h =
     (if h_remote_creds h \<or> \<not> has_cands then (h, [], [], [])
      else (h\<lparr>h_remote_creds := True\<rparr>, [RemoteUfrag, RemotePwd], [], []))"

definition create_relay_handles :: "int \<Rightarrow> (nat \<Rightarrow> nat \<Rightarrow> int) \<Rightarrow> nat \<Rightarrow> endpoint_handles \<Rightarrow> handles_step" where
  "create_relay_handles lock_status st n h =
     (let (ret, r, res) = relay_new lock_status st n
      in if ret \<noteq> 0 then (h, res, confice_free r, relay_leak r)
         else (h\<lparr>h_confice := Some r\<rparr>, res, [],
               case h_confice h of None \<Rightarrow> [] | Some old \<Rightarrow> confice_free old @ relay_leak old))"

definition negotiate_handles :: "endpoint_handles \<Rightarrow> handles_step" where
  "negotiate_handles h =
     (case h_confice h of
        None \<Rightarrow> (h, [], [], [])
      | Some r \<Rightarrow>
          let (r', res) = relay_negotiate r
          in (h\<lparr>h_confice := Some r'\<rparr>, res, [], if rh_session r then [RelaySession] else []))"

lemmas handles_defs = local_handles_def remote_handles_def create_relay_handles_def negotiate_handles_def

fun later_step :: "later \<Rightarrow> endpoint_handles \<Rightarrow> handles_step" where
  "later_step (GetLocal p) h = local_handles p h"
| "later_step (ParseRemote has_cands) h = remote_handles has_cands h"
| "later_step (CreateRelay lock_status st n) h = create_relay_handles lock_status st n h"
| "later_step RelayNegotiates h = negotiate_handles h"

fun later_run :: "later list \<Rightarrow> endpoint_handles \<Rightarrow> handles_step" where
  "later_run [] h = (h, [], [], [])"
| "later_run (e # es) h =
     (let (h1, acq1, rel1, lost1) = later_step e h; (h2, acq2, rel2, lost2) = later_run es h1
      in (h2, acq1 @ acq2, rel1 @ rel2, lost1 @ lost2))"

section \<open>The balance\<close>

definition held :: "endpoint_handles \<Rightarrow> resource multiset" where
  "held h = mset (eice_free h) + mset (case h_confice h of None \<Rightarrow> [] | Some r \<Rightarrow> relay_leak r)"

lemma enumerate_closed: "concat (map close_channel (enumerate k (replicate n (False, False)))) = []"
  by (induction n arbitrary: k) (simp_all add: close_channel_def)

lemma open_channel_close: "open_channel st i = (ret, ch, res) \<Longrightarrow> mset res = mset (close_channel (i, ch))"
  by (auto simp: open_channel_def close_channel_def split: if_split_asm)

text \<open>A pointer that is set adds its object.\<close>

lemma held_set:
  "\<not> h_cfg h \<Longrightarrow> held (h\<lparr>h_cfg := True\<rparr>) = add_mset Configuration (held h)"
  "\<not> h_lock h \<Longrightarrow> held (h\<lparr>h_lock := True\<rparr>) = add_mset EndpointLock (held h)"
  "\<not> h_grp_lock h \<Longrightarrow> held (h\<lparr>h_grp_lock := True\<rparr>) = add_mset GroupLock (held h)"
  "\<not> h_timer_heap h \<Longrightarrow> held (h\<lparr>h_timer_heap := True\<rparr>) = add_mset TimerHeap (held h)"
  "\<not> h_ioqueue h \<Longrightarrow> held (h\<lparr>h_ioqueue := True\<rparr>) = add_mset IoQueue (held h)"
  "\<not> h_thread h \<Longrightarrow> held (h\<lparr>h_thread := True\<rparr>) = add_mset WorkerThread (held h)"
  "\<not> h_strans h \<Longrightarrow> held (h\<lparr>h_strans := True\<rparr>) = add_mset Strans (held h)"
  "\<not> h_local_content h \<Longrightarrow> held (h\<lparr>h_local_content := True\<rparr>) = add_mset LocalContent (held h)"
  "\<not> h_local_creds h \<Longrightarrow> held (h\<lparr>h_local_creds := True\<rparr>) = {#LocalUfrag, LocalPwd#} + held h"
  "\<not> h_remote_creds h \<Longrightarrow> held (h\<lparr>h_remote_creds := True\<rparr>) = {#RemoteUfrag, RemotePwd#} + held h"
  by (simp_all add: held_def eice_free_def)

lemma held_relay:
  "held (h\<lparr>h_confice := Some r\<rparr>) + (case h_confice h of None \<Rightarrow> {#} | Some old \<Rightarrow> mset (confice_free old) + mset (relay_leak old))
    = held h + mset (confice_free r) + mset (relay_leak r)"
  by (simp add: held_def eice_free_def split: option.split)

lemma held_same: "h_local_creds h \<Longrightarrow> held (h\<lparr>h_local_creds := True\<rparr>) = held h"
  by (simp add: held_def eice_free_def)

lemma open_channels_close:
  "open_channels st i n = (ret, chs, res) \<Longrightarrow> mset res = mset (concat (map close_channel (enumerate i chs))) \<and> length chs = n"
proof (induction n arbitrary: i ret chs res)
  case (Suc n)
  obtain ret1 ch res1 where c: "open_channel (st i) i = (ret1, ch, res1)" by (cases "open_channel (st i) i") auto
  note close = open_channel_close [OF c]
  show ?case
  proof (cases "ret1 = 0")
    case False
    then show ?thesis using Suc.prems c close by (auto simp: enumerate_closed)
  next
    case True
    obtain ret2 chs2 res2 where o: "open_channels st (Suc i) n = (ret2, chs2, res2)" by (cases "open_channels st (Suc i) n") auto
    from Suc.IH [OF o] show ?thesis using Suc.prems True c o close by auto
  qed
qed simp

lemma relay_new_held: "relay_new lock_status st n = (ret, r, res) \<Longrightarrow> mset res = mset (confice_free r) + mset (relay_leak r)"
  using open_channels_close [of st 0 n]
  by (auto simp: relay_new_def confice_free_def relay_leak_def Let_def split: if_split_asm prod.split_asm)

lemma confice_free_session: "mset (confice_free (r\<lparr>rh_session := True\<rparr>)) + mset (if rh_session r then [RelaySession] else [])
    = {#RelaySession#} + mset (confice_free r)"
  by (cases "rh_session r") (simp_all add: confice_free_def)

lemma later_step_held:
  assumes "later_step e h = (h', acq, rel, lost)"
  shows "held h + mset acq = held h' + mset rel + mset lost"
proof (cases e)
  case (CreateRelay lock_status st n)
  obtain ret r res where r: "relay_new lock_status st n = (ret, r, res)" by (cases "relay_new lock_status st n") auto
  show ?thesis using assms CreateRelay relay_new_held [OF r] r held_relay [where h = h and r = r]
    by (auto simp: handles_defs add.assoc split: if_split_asm option.split_asm)
next
  case (GetLocal p)
  then show ?thesis using assms held_set(8,9) [of h] held_set(8) [of "h\<lparr>h_local_creds := True\<rparr>"] held_same [of h]
    by (auto simp: handles_defs Let_def split: if_split_asm local_progress.split_asm)
next
  case (ParseRemote b)
  then show ?thesis using assms held_set(10) [of h] by (auto simp: handles_defs split: if_split_asm)
next
  case RelayNegotiates
  show ?thesis
  proof (cases "h_confice h")
    case None
    then show ?thesis using assms RelayNegotiates by (simp add: handles_defs)
  next
    case (Some r)
    let ?r = "r\<lparr>rh_session := True\<rparr>" and ?s = "if rh_session r then [RelaySession] else []"
    let ?h = "h\<lparr>h_confice := Some ?r\<rparr>"
    have "held ?h + mset ?s + mset (confice_free r) = held h + mset (confice_free ?r) + mset ?s"
      using held_relay [where h = h and r = ?r] Some by (simp add: relay_leak_def)
    also have "\<dots> = held h + {#RelaySession#} + mset (confice_free r)"
      using confice_free_session [of r] by (simp add: add.assoc)
    finally have "held ?h + mset ?s = held h + {#RelaySession#}" by (simp only: add_right_cancel)
    then show ?thesis using assms RelayNegotiates Some by (auto simp: handles_defs relay_negotiate_def)
  qed
qed

lemma later_run_held: "later_run es h = (h', acq, rel, lost) \<Longrightarrow> held h + mset acq = held h' + mset rel + mset lost"
proof (induction es arbitrary: h h' acq rel lost)
  case (Cons e es)
  obtain h1 acq1 rel1 lost1 where s: "later_step e h = (h1, acq1, rel1, lost1)" by (cases "later_step e h") auto
  obtain h2 acq2 rel2 lost2 where r: "later_run es h1 = (h2, acq2, rel2, lost2)" by (cases "later_run es h1") auto
  have e: "h' = h2" "acq = acq1 @ acq2" "rel = rel1 @ rel2" "lost = lost1 @ lost2" using Cons.prems s r by auto
  have "held h + mset acq = (held h + mset acq1) + mset acq2" by (simp add: e ac_simps)
  also have "\<dots> = (held h1 + mset acq2) + mset rel1 + mset lost1" unfolding later_step_held [OF s] by (simp add: ac_simps)
  also have "\<dots> = held h' + mset rel + mset lost" unfolding Cons.IH [OF r] by (simp add: e ac_simps)
  finally show ?case .
qed simp

lemma blank_held: "held blank_handles = {#CachingPool, EndpointMemory#}"
  by (simp add: held_def eice_free_def blank_handles_def)

fun stores :: "((endpoint_handles \<Rightarrow> endpoint_handles) \<times> resource) list \<Rightarrow> endpoint_handles \<Rightarrow> bool" where
  "stores [] h = True"
| "stores ((store, r) # cs) h \<longleftrightarrow> held (store h) = add_mset r (held h) \<and> h_confice (store h) = h_confice h \<and> stores cs (store h)"

lemma create_handles_held:
  "create_handles st k cs h = (ret, h', res) \<Longrightarrow> stores cs h \<Longrightarrow> held h' = held h + mset res \<and> h_confice h' = h_confice h"
proof (induction st k cs h arbitrary: ret h' res rule: create_handles.induct)
  case (2 st k store r cs h)
  show ?case
  proof (cases "st k = 0")
    case True
    obtain ret1 h1 res1 where c: "create_handles st (Suc k) cs (store h) = (ret1, h1, res1)"
      by (cases "create_handles st (Suc k) cs (store h)") auto
    from 2(1) [OF _ c] True 2(2,3) c show ?thesis by auto
  qed (use 2 in auto)
qed simp

lemma creations_store:
  "\<not> h_lock h \<Longrightarrow> \<not> h_grp_lock h \<Longrightarrow> \<not> h_timer_heap h \<Longrightarrow> \<not> h_ioqueue h \<Longrightarrow> \<not> h_thread h \<Longrightarrow> \<not> h_strans h \<Longrightarrow> stores creations h"
  unfolding creations_def stores.simps by (intro conjI TrueI held_set) simp_all

lemma endpoint_new_held:
  assumes "endpoint_new config_ok remote st = (ret, h, res)"
  shows "held h = mset res" "h_confice h = None"
proof -
  let ?h = "blank_handles\<lparr>h_cfg := True\<rparr>"
  have c: "held ?h = {#Configuration, CachingPool, EndpointMemory#}" "held (?h\<lparr>h_remote_creds := True\<rparr>)
      = {#RemoteUfrag, RemotePwd, Configuration, CachingPool, EndpointMemory#}"
    using held_set(1) [of blank_handles] held_set(10) [of ?h] blank_held by (simp_all add: blank_handles_def)
  have h: "held h' = held g + mset r \<and> h_confice h' = None" if "create_handles st 0 creations g = (x, h', r)" "g = ?h \<or> g = ?h\<lparr>h_remote_creds := True\<rparr>" for g x h' r
    using create_handles_held [OF that(1) creations_store] that(2) by (auto simp: blank_handles_def)
  show "held h = mset res" "h_confice h = None"
    using assms c blank_held h
    by (auto simp: endpoint_new_def Let_def blank_handles_def [THEN arg_cong [where f = h_confice]] split: if_split_asm prod.split_asm option.split_asm)
qed

text \<open>The creation is the one of \<open>Eice.eice_new\<close>: it ends with the same status.\<close>

lemma create_status: "fst (create_handles st 0 creations h) = (case find (\<lambda>k. st k \<noteq> 0) [0 ..< 6] of None \<Rightarrow> 0 | Some k \<Rightarrow> st k)"
  by (simp add: creations_def eval_nat_numeral Let_def case_prod_beta)

lemma endpoint_new_status:
  assumes "eice_new E config rl remote = Inr x"
  shows "\<exists>config_ok rem. fst (endpoint_new config_ok rem (e_create E)) = (case x of Inl status \<Rightarrow> status | Inr _ \<Rightarrow> 0)"
proof -
  have none: "fst (endpoint_new False rem st) = -1" for rem st by (simp add: endpoint_new_def)
  have fail: "fst (endpoint_new True (Some (s, b)) st) = s" if "s \<noteq> 0" for s b st using that by (simp add: endpoint_new_def)
  have ok: "fst (endpoint_new True None st) = (case find (\<lambda>k. st k \<noteq> 0) [0 ..< 6] of None \<Rightarrow> 0 | Some k \<Rightarrow> st k)" for st
    by (simp add: endpoint_new_def Let_def case_prod_beta create_status)
  have six: "find P [0 ..< 6] = (case find P [0 ..< 5] of Some k \<Rightarrow> Some k | None \<Rightarrow> if P 5 then Some 5 else None)" for P :: "nat \<Rightarrow> bool"
    by (simp add: eval_nat_numeral)
  from assms obtain c where c: "parse_eice_config (e_lib E) (max_stun (e_pj E)) (e_tick E) config = Inr c"
    by (auto simp: eice_new_def ebind_Inr)
  show ?thesis
  proof (cases c)
    case None
    then show ?thesis using assms c none by (intro exI [of _ False]) (auto simp: eice_new_def)
  next
    case (Some cf)
    with assms c obtain s e1 where s: "(if s \<noteq> 0 then Inr (Inl s) else case find (\<lambda>k. e_create E k \<noteq> 0) [0 ..< 5] of
        Some k \<Rightarrow> Inr (Inl (e_create E k))
      | None \<Rightarrow> let (st, e2, eff) = create_strans E (convert_servers (lookup (e_conf E)) e1) in Inr (if st \<noteq> 0 then Inl st else Inr (e2, eff)))
      = (Inr x :: (int + eice \<times> eice_effect list) eres)"
      by (auto simp: eice_new_def ebind_Inr Let_def)
    show ?thesis
    proof (cases "s = 0")
      case False
      then show ?thesis using s fail [where s = s and b = False] by (intro exI [of _ True] exI [of _ "Some (s, False)"]) auto
    next
      case True
      then have "fst (endpoint_new True None (e_create E)) = (case x of Inl status \<Rightarrow> status | Inr _ \<Rightarrow> 0)"
        using s unfolding ok six by (auto simp: create_strans_def Let_def split: option.split_asm)
      then show ?thesis by blast
    qed
  qed
qed

text \<open>
  C18: Nothing leaks from an endpoint and nothing is released twice, with named exceptions. Whatever fails in
  \<open>eice_new\<close> and whatever is done with the endpoint, what has been allocated is, each object once, what
  \<open>eice_free\<close> releases, what failed relay clients have released, what an overwritten pointer has lost,
  and the four credential strings of the relay client that is there. When \<open>eice_new\<close> fails, or
  nothing else has been done, \<open>eice_free\<close> releases exactly what was allocated.
\<close>
theorem endpoint_balanced:
  assumes "endpoint_new config_ok remote st = (ret, h0, acq0)" "later_run es h0 = (h, acq, rel, lost)"
  shows "mset acq0 + mset acq = mset (eice_free h) + mset rel + mset lost
      + mset (case h_confice h of None \<Rightarrow> [] | Some r \<Rightarrow> relay_leak r)
    \<and> mset acq0 = mset (eice_free h0)"
proof
  show "mset acq0 + mset acq = mset (eice_free h) + mset rel + mset lost
      + mset (case h_confice h of None \<Rightarrow> [] | Some r \<Rightarrow> relay_leak r)"
    using later_run_held [OF assms(2)] endpoint_new_held [OF assms(1)] by (simp add: held_def ac_simps)
  show "mset acq0 = mset (eice_free h0)"
    using endpoint_new_held [OF assms(1)] by (simp add: held_def)
qed

definition no_failure :: "nat \<Rightarrow> int" where "no_failure k = 0"

theorem endpoint_balanced_witness:
  "\<exists>h0 acq0 h acq rel lost. endpoint_new True (Some (0, True)) no_failure = (0, h0, acq0)
    \<and> later_run [GetLocal AllLocal, CreateRelay 0 (\<lambda>i k. if i = 1 \<and> k = 2 then 22 else 0) 2] h0 = (h, acq, rel, lost)
    \<and> RelayActiveSocket 0 \<in> set rel \<and> RelaySocket 1 \<in> set rel
    \<and> mset acq0 + mset acq = mset (eice_free h) + mset rel + mset lost"
proof -
  obtain ret h0 acq0 where n: "endpoint_new True (Some (0, True)) no_failure = (ret, h0, acq0)"
    by (cases "endpoint_new True (Some (0, True)) no_failure") auto
  let ?es = "[GetLocal AllLocal, CreateRelay 0 (\<lambda>i k. if i = 1 \<and> k = 2 then 22 else 0) 2]"
  obtain h acq rel lost where l: "later_run ?es h0 = (h, acq, rel, lost)" by (cases "later_run ?es h0") auto
  have z: "ret = 0" "h_confice h0 = None" "h_local_content h0 = False"
    using n by (auto simp: endpoint_new_def creations_def no_failure_def blank_handles_def)
  then have "h_confice h = None" "RelayActiveSocket 0 \<in> set rel" "RelaySocket 1 \<in> set rel"
    using l by (auto simp: handles_defs relay_new_def open_channel_def confice_free_def close_channel_def eval_nat_numeral)
  then show ?thesis using endpoint_balanced [OF n l] n l z by auto
qed

text \<open>The credentials of a relay client are never released: \<open>confice_free\<close> forgets the four strings.\<close>

theorem relay_credentials_leak:
  assumes "relay_new 0 st n = (0, r, res)" "k < 4"
  shows "RelayCredential k \<in> set res" "RelayCredential k \<notin> set (confice_free r)"
proof -
  show "RelayCredential k \<in> set res" using assms by (auto simp: relay_new_def Let_def split: prod.split_asm)
  show "RelayCredential k \<notin> set (confice_free r)"
    by (auto simp: confice_free_def close_channel_def split: option.split_asm if_split_asm)
qed

text \<open>A second negotiation overwrites the relay client of the first.\<close>

theorem second_relay_loses_first:
  assumes "relay_new 0 st n = (0, r, res)" "h_confice h = Some old"
  shows "\<exists>h'. later_step (CreateRelay 0 st n) h = (h', res, [], confice_free old @ relay_leak old) \<and> h_confice h' = Some r"
  using assms by (simp add: create_relay_handles_def)

end
