(* ===== verification/Shell.thy ===== *)
theory Shell
  imports Server
begin

text \<open>
  The application around the parts: \<open>bridgeserver/AppServer.cpp\<close>, \<open>main.cc\<close> and the helpers of \<open>util.cpp\<close>.
  \<open>Server\<close> has what runs in the event loop; here are the object that owns the parts, the order in
  which it makes and destroys them, and what is left when the process ends in an orderly way. The
  members that are smart pointers are options.
\<close>

section \<open>Helpers\<close>

text \<open>
  \<open>toHexString\<close>. A negative length is an enormous one for \<open>reserve\<close>, which throws; \<open>%.2x\<close> of a byte has two
  digits, in lower case.
\<close>

datatype hex_error = LengthError | HexOverrun

definition hex_digit :: "nat \<Rightarrow> char" where
  "hex_digit d = (if d < 10 then char_of (48 + d) else char_of (87 + d))"

definition hex_byte :: "byte \<Rightarrow> string" where
  "hex_byte b = [hex_digit (unat b div 16), hex_digit (unat b mod 16)]"

definition toHexString :: "byte list \<Rightarrow> int \<Rightarrow> string \<Rightarrow> hex_error + string" where
  "toHexString buf len tok =
     (if len < 0 then Inl LengthError
      else if length buf < nat len then Inl HexOverrun
      else Inr (concat (map (\<lambda>b. hex_byte b @ tok) (take (nat len) buf))))"

text \<open>\<open>startTimer\<close>: what libevent answers, and the period of the timer that runs then.\<close>

definition startTimer :: "int \<Rightarrow> int \<Rightarrow> int \<Rightarrow> bool \<times> int option" where
  "startTimer assigned added time =
     (if assigned \<noteq> 0 then (False, None) else if added \<noteq> 0 then (False, None) else (True, Some time))"

datatype log_level = LogError | LogWarn | LogDebug

text \<open>\<open>log_eice\<close>: the line that is logged, up to its NUL.\<close>

definition log_eice :: "int \<Rightarrow> string option \<Rightarrow> int \<Rightarrow> (log_level \<times> string) option outcome" where
  "log_eice level data len =
     (if len \<le> 0 then Inr None
      else case data of
        None \<Rightarrow> Inl AssertFailed
      | Some s \<Rightarrow> Inr (Some (if level = 1 then LogError else if level = 2 then LogWarn else LogDebug, c_str s)))"

section \<open>The application object\<close>

datatype base_ptr = BaseNull | BaseLive | BaseFreed

record AppServer =
  eventBase :: base_ptr
  iceServer :: "TcpServer option"
  iceService :: "IceService option"
  forwardService :: "ForwardMap option"
  eventThreadCall :: "nat thread_call option"
  iniFile :: "Level option"

text \<open>What the object does to the world: \<open>Net\<close> is a socket or event of a forward.\<close>

datatype app_effect =
    Ice ice_effect
  | Net net_effect
  | EiceInited
  | EiceExited
  | BaseMade
  | EventBaseFreed
  | SignalAdded
  | SignalFreed
  | LoopExit
  | ListenerFreed
  | BuilderDeleted

text \<open>The constructor, and \<open>start\<close> up to the loop. The maker of connections is never null.\<close>

definition AppServer_new :: "string \<Rightarrow> (ini_error + (AppServer \<times> app_effect list))" where
  "AppServer_new config =
     map_sum (\<lambda>e. e) (\<lambda>t. (\<lparr>eventBase = BaseNull, iceServer = None, iceService = None, forwardService = None,
       eventThreadCall = None, iniFile = Some t\<rparr>, [EiceInited])) (Parser config)"

definition AppServer_start ::
  "clib \<Rightarrow> bool \<Rightarrow> bool \<Rightarrow> bool \<Rightarrow> byte list \<Rightarrow> AppServer \<Rightarrow> (AppServer \<times> app_effect list) outcome option" where
  "AppServer_start L base bound signal heap M =
     (case iniFile M of
        None \<Rightarrow> Some (Inl NullDeref)
      | Some t \<Rightarrow>
          let (port, t1) = ask ''GLOBAL'' ''local_tcp_server_port'' t;
              (cfg, t2) = ask ''GLOBAL'' ''ice_json_config'' t1;
              (ip, t3) = ask ''GLOBAL'' ''test_xmpp_ip'' t2
          in (case new_TcpServer (c_atoi port) bound True of
                Inl e \<Rightarrow> Some (Inl e)
              | Inr T \<Rightarrow>
                  (case new_IceService L cfg ip heap [] of
                     None \<Rightarrow> None
                   | Some S \<Rightarrow>
                       (case EventThreadCall base of
                          Inl e \<Rightarrow> Some (Inl e)
                        | Inr Q \<Rightarrow>
                            if \<not> signal then Some (Inl NullDeref)
                            else Some (Inr (\<lparr>eventBase = BaseLive, iceServer = Some T, iceService = Some S,
                              forwardService = Some [], eventThreadCall = Some Q, iniFile = Some t3\<rparr>,
                              [BaseMade, SignalAdded]))))))"

text \<open>\<open>call\<close>, from any thread: \<open>n\<close> bytes of the wake-up are taken.\<close>

definition AppServer_call :: "nat \<Rightarrow> nat \<Rightarrow> AppServer \<Rightarrow> AppServer outcome" where
  "AppServer_call n f M =
     (case eventThreadCall M of
        None \<Rightarrow> Inl NullDeref
      | Some Q \<Rightarrow> Inr (M\<lparr>eventThreadCall := Some (send_signal n (push_function f Q))\<rparr>))"

text \<open>\<open>stop\<close> and the handler of SIGINT: the loop ends after the events that are ready.\<close>

definition AppServer_stop :: "AppServer \<Rightarrow> app_effect list" where
  "AppServer_stop M = [LoopExit]"

definition ev_signal_cb :: "AppServer \<Rightarrow> app_effect list" where
  "ev_signal_cb M = [LoopExit]"

text \<open>The end of \<open>start\<close>, when the loop has ended.\<close>

definition start_returns :: "bool \<Rightarrow> AppServer \<Rightarrow> AppServer \<times> app_effect list" where
  "start_returns signal M =
     (if eventBase M \<noteq> BaseNull
      then (M\<lparr>eventBase := BaseFreed\<rparr>, (if signal then [SignalFreed] else []) @ [EventBaseFreed])
      else (M, if signal then [SignalFreed] else []))"


text \<open>
  The destructors. That of the service erases its sessions, that of the forwards theirs; connections
  are not deleted with the server. A trivial destructor only ends its member.
\<close>

definition delete_IceService :: "IceService \<Rightarrow> ice_effect list" where
  "delete_IceService S = concat (map (delete_IceSession \<circ> snd) (sessions S))"

definition delete_ForwardService :: "ForwardMap \<Rightarrow> net_effect list" where
  "delete_ForwardService fs = concat (map (delete_Forward \<circ> snd) fs)"

definition delete_TcpServer :: "TcpServer \<Rightarrow> app_effect list" where
  "delete_TcpServer T = (if listening T then [ListenerFreed] else []) @ [BuilderDeleted]"

definition effect_of :: "('a \<Rightarrow> app_effect list) \<Rightarrow> 'a option \<Rightarrow> app_effect list" where
  "effect_of del p = (case p of None \<Rightarrow> [] | Some x \<Rightarrow> del x)"

text \<open>\<open>~AppServer\<close>: its body, then the members, the last one first.\<close>

definition reset_iceService :: "AppServer \<Rightarrow> AppServer \<times> app_effect list" where
  "reset_iceService M = (M\<lparr>iceService := None\<rparr>, effect_of (map Ice \<circ> delete_IceService) (iceService M))"

definition delete_steps :: "(AppServer \<Rightarrow> AppServer \<times> app_effect list) list" where
  "delete_steps =
     [reset_iceService,
      \<lambda>M. (M, [EiceExited]),
      \<lambda>M. (M\<lparr>iniFile := None\<rparr>, []),
      \<lambda>M. (M\<lparr>eventThreadCall := None\<rparr>, []),
      \<lambda>M. (M\<lparr>forwardService := None\<rparr>, effect_of (map Net \<circ> delete_ForwardService) (forwardService M)),
      reset_iceService,
      \<lambda>M. (M\<lparr>iceServer := None\<rparr>, effect_of delete_TcpServer (iceServer M))]"

fun run_steps :: "(AppServer \<Rightarrow> AppServer \<times> app_effect list) list \<Rightarrow> AppServer \<Rightarrow> AppServer \<times> app_effect list" where
  "run_steps [] M = (M, [])"
| "run_steps (st # sts) M =
     (let (M1, eff1) = st M; (M2, eff2) = run_steps sts M1 in (M2, eff1 @ eff2))"

definition delete_AppServer :: "AppServer \<Rightarrow> AppServer \<times> app_effect list" where
  "delete_AppServer = run_steps delete_steps"

text \<open>\<open>main\<close> from the end of the loop on: \<open>start\<close> returns, then the global object is destroyed.\<close>

definition main_ends :: "bool \<Rightarrow> AppServer \<Rightarrow> AppServer \<times> app_effect list" where
  "main_ends signal M =
     (let (M1, eff1) = start_returns signal M; (M2, eff2) = delete_AppServer M1 in (M2, eff1 @ eff2))"

section \<open>The object and the application of the event loop\<close>

text \<open>The object in the loop, for an application of \<open>Server\<close>.\<close>

definition object_of :: "Level \<Rightarrow> App \<Rightarrow> AppServer" where
  "object_of t A = \<lparr>eventBase = BaseLive, iceServer = Some (tcp A), iceService = Some (service A),
     forwardService = Some (forwards (service A)), eventThreadCall = Some (calls A), iniFile = Some t\<rparr>"

text \<open>Construction and \<open>start\<close> make what \<open>start_app\<close> makes, and \<open>call\<close> is the push and the wake-up.\<close>

lemma start_builds_app:
  assumes "start_app L config bound heap = Inr (Some A)"
  shows "\<exists>M t. AppServer_new config = Inr (M, [EiceInited])
    \<and> AppServer_start L True bound True heap M = Some (Inr (object_of t A, [BaseMade, SignalAdded]))"
proof -
  obtain t where t: "Parser config = Inr t" using assms by (auto simp: start_app_def split: sum.splits)
  have "new_IceService L cfg ip heap [] = Some S \<Longrightarrow> forwards S = []" for cfg ip S
    by (auto simp: new_IceService_def split: option.splits)
  then show ?thesis using assms t
    by (auto simp: start_app_def AppServer_new_def AppServer_start_def object_of_def Let_def
        split: prod.splits sum.splits option.splits)
qed

lemma call_pushes:
  "AppServer_call n f (object_of t A)
    = Inr (object_of t (get_nego_result_func_callback f A\<lparr>calls := send_signal n (push_function f (calls A))\<rparr>))"
  by (simp add: AppServer_call_def object_of_def get_nego_result_func_callback_def)


section \<open>The orderly end\<close>

definition ices :: "app_effect list \<Rightarrow> ice_effect list" where
  "ices eff = List.map_filter (\<lambda>x. case x of Ice e \<Rightarrow> Some e | _ \<Rightarrow> None) eff"

definition closed_fds :: "app_effect list \<Rightarrow> int list" where
  "closed_fds eff = List.map_filter (\<lambda>x. case x of Net (Closed fd) \<Rightarrow> Some fd | _ \<Rightarrow> None) eff"

text \<open>What libevent does on the base an event belongs to, and such a thing after the base is freed.\<close>

fun on_base :: "app_effect \<Rightarrow> bool" where
  "on_base (Net (EventAdded _)) \<longleftrightarrow> True"
| "on_base (Net (EventFreed _)) \<longleftrightarrow> True"
| "on_base SignalAdded \<longleftrightarrow> True"
| "on_base SignalFreed \<longleftrightarrow> True"
| "on_base LoopExit \<longleftrightarrow> True"
| "on_base ListenerFreed \<longleftrightarrow> True"
| "on_base _ \<longleftrightarrow> False"

definition uses_freed_base :: "app_effect list \<Rightarrow> bool" where
  "uses_freed_base eff \<longleftrightarrow> (\<exists>x \<in> set (dropWhile (\<lambda>x. x \<noteq> EventBaseFreed) eff). on_base x)"

text \<open>An endpoint is at work, whose thread may make a call.\<close>

definition endpoint_alive :: "AppServer \<Rightarrow> bool" where
  "endpoint_alive M \<longleftrightarrow> (\<exists>S e. iceService M = Some S \<and> owned S e \<noteq> 0)"

lemma ices_simps [simp]:
  "ices [] = []" "ices (Ice e # eff) = e # ices eff" "ices (Net n # eff) = ices eff"
  "ices (EiceExited # eff) = ices eff" "ices (SignalFreed # eff) = ices eff" "ices (EventBaseFreed # eff) = ices eff"
  "ices (ListenerFreed # eff) = ices eff" "ices (BuilderDeleted # eff) = ices eff"
  "ices (eff @ eff') = ices eff @ ices eff'" "ices (map Ice ie) = ie" "ices (map Net ne) = []"
  by (simp_all add: ices_def List.map_filter_def comp_def)

lemma closed_fds_simps [simp]:
  "closed_fds [] = []" "closed_fds (Ice e # eff) = closed_fds eff" "closed_fds (EiceExited # eff) = closed_fds eff"
  "closed_fds (SignalFreed # eff) = closed_fds eff" "closed_fds (EventBaseFreed # eff) = closed_fds eff"
  "closed_fds (ListenerFreed # eff) = closed_fds eff" "closed_fds (BuilderDeleted # eff) = closed_fds eff"
  "closed_fds (eff @ eff') = closed_fds eff @ closed_fds eff'" "closed_fds (map Ice ie) = []"
  by (simp_all add: closed_fds_def List.map_filter_def comp_def)

lemma closed_by_forwards: "closed_fds (map Net (delete_ForwardService fs))
    = filter (\<lambda>fd. 0 < fd) (map (local_fd \<circ> iceInfo \<circ> snd) fs)"
  by (induction fs) (auto simp: delete_ForwardService_def delete_Forward_def closed_fds_def List.map_filter_def)

lemma events_of_forwards: "(\<exists>x \<in> set (map Net (delete_ForwardService fs)). on_base x) \<longleftrightarrow> fs \<noteq> []"
  by (cases fs) (auto simp: delete_ForwardService_def delete_Forward_def)

lemma main_ends_effects:
  "main_ends signal (object_of t A)
    = (\<lparr>eventBase = BaseFreed, iceServer = None, iceService = None, forwardService = None, eventThreadCall = None,
        iniFile = None\<rparr>,
       (if signal then [SignalFreed] else []) @ [EventBaseFreed] @ map Ice (delete_IceService (service A))
       @ [EiceExited] @ map Net (delete_ForwardService (forwards (service A)))
       @ (if listening (tcp A) then [ListenerFreed] else []) @ [BuilderDeleted])"
  by (simp add: main_ends_def start_returns_def delete_AppServer_def delete_steps_def reset_iceService_def
      effect_of_def object_of_def delete_TcpServer_def)

text \<open>The sessions' destructors free each endpoint that is owned once: no two sessions share one.\<close>

lemma released_by_sessions:
  "released e (delete_IceService S) = length (filter (\<lambda>is. endpoint is = Some e) (map snd (sessions S)))"
proof -
  have "released e (concat (map (delete_IceSession \<circ> snd) m)) = length (filter (\<lambda>is. endpoint is = Some e) (map snd m))"
    for m :: "(SessionID, IceSession) omap"
    by (induction m) (auto simp: released_def delete_IceSession_def split: option.splits)
  then show ?thesis by (simp add: delete_IceService_def)
qed

lemma made_by_sessions: "made e (delete_IceService S) = 0"
  by (auto simp: made_def delete_IceService_def delete_IceSession_def filter_empty_conv split: option.splits)

lemma length_at_most_one:
  assumes "distinct xs" "\<And>x y. x \<in> set xs \<Longrightarrow> y \<in> set xs \<Longrightarrow> x = y"
  shows "length xs = of_bool (xs \<noteq> [])"
proof (cases xs)
  case (Cons x ys)
  have "y = x" if "y \<in> set ys" for y using assms(2) [of y x] that Cons by simp
  then have "ys = []" using assms(1) Cons by (cases ys) auto
  then show ?thesis using Cons by simp
qed simp

lemma delete_releases:
  assumes "ice_inv S"
  shows "released e (delete_IceService S) = owned S e"
proof -
  have om: "omap_of (sessions S)" using assms by (simp add: ice_inv_def)
  let ?mine = "filter (\<lambda>p. endpoint (snd p) = Some e) (sessions S)"
  have l: "released e (delete_IceService S) = length ?mine"
    by (simp add: released_by_sessions filter_map comp_def)
  have mem: "(k, is) \<in> set ?mine \<longleftrightarrow> life_of S k = Some (curStatus is, Some e) \<and> omap_find (sessions S) k = Some is" for k "is"
    using omap_in_find [OF om] omap_find_Some_in by (fastforce simp: life_of_def)
  then have one: "p = q" if "p \<in> set ?mine" "q \<in> set ?mine" for p q
    using that holds_unique [OF assms, of e "fst p" "fst q"] by (cases p; cases q) (auto simp: holds_def)
  have "distinct ?mine" using om by (simp add: omap_of_def distinct_map strict_sorted_iff)
  then have "length ?mine = of_bool (?mine \<noteq> [])" using one by (rule length_at_most_one)
  moreover have "?mine \<noteq> [] \<longleftrightarrow> (\<exists>k st. life_of S k = Some (st, Some e))"
  proof
    assume "?mine \<noteq> []"
    then obtain k "is" where "(k, is) \<in> set ?mine" by (cases ?mine) auto
    then show "\<exists>k st. life_of S k = Some (st, Some e)" using mem by blast
  next
    assume "\<exists>k st. life_of S k = Some (st, Some e)"
    then obtain k "is" where "(k, is) \<in> set ?mine" using mem by (auto simp: life_of_def)
    then show "?mine \<noteq> []" by (metis empty_iff list.set(1))
  qed
  ultimately show ?thesis using l by (simp add: owned_def)
qed


lemma service_stays_gone:
  "set sts \<subseteq> set delete_steps \<Longrightarrow> iceService M = None \<Longrightarrow> iceService (fst (run_steps sts M)) = None"
proof (induction sts arbitrary: M)
  case (Cons st sts)
  then have "iceService (fst (st M)) = None" by (auto simp: delete_steps_def reset_iceService_def)
  with Cons show ?case by (simp add: split_beta)
qed simp

lemma call_while_alive:
  assumes "endpoint_alive (fst (run_steps (take n delete_steps) (object_of t A)))"
  shows "\<exists>M'. AppServer_call k f (fst (run_steps (take n delete_steps) (object_of t A))) = Inr M'"
proof (cases n)
  case 0
  then show ?thesis by (simp add: AppServer_call_def object_of_def)
next
  case (Suc m)
  have split: "take n delete_steps = reset_iceService # take m (tl delete_steps)"
    by (simp add: Suc delete_steps_def)
  have sub: "set (take m (tl delete_steps)) \<subseteq> set delete_steps"
    using set_take_subset [of m "tl delete_steps"] by (auto simp: delete_steps_def)
  have "iceService (fst (reset_iceService (object_of t A))) = None" by (simp add: reset_iceService_def)
  from service_stays_gone [OF sub this] show ?thesis
    using assms unfolding split by (simp add: split_beta endpoint_alive_def)
qed

text \<open>
  C13: What an orderly end leaves behind. When the loop has been ended after any run, each endpoint ever
  handed out has been freed exactly once, all of them before the ICE library is left and while the
  queue of thread calls, which their threads use, still exists; the descriptors that forwards got
  from ICE are closed once for each forward. But the event base is freed first: when the listener is
  bound or a forward runs, their destructors work on a base that is gone.
\<close>
theorem orderly_end:
  assumes "app_run tr got cmds A"
  shows "(\<forall>e. made e (tr @ ices (snd (main_ends signal (object_of t A))))
             = released e (tr @ ices (snd (main_ends signal (object_of t A)))))
    \<and> ices (dropWhile (\<lambda>x. x \<noteq> EiceExited) (snd (main_ends signal (object_of t A)))) = []
    \<and> (\<forall>n k f. endpoint_alive (fst (run_steps (take n delete_steps) (object_of t A))) \<longrightarrow>
         (\<exists>M'. AppServer_call k f (fst (run_steps (take n delete_steps) (object_of t A))) = Inr M'))
    \<and> closed_fds (snd (main_ends signal (object_of t A)))
        = filter (\<lambda>fd. 0 < fd) (map (local_fd \<circ> iceInfo \<circ> snd) (forwards (service A)))
    \<and> (uses_freed_base (snd (main_ends signal (object_of t A)))
        \<longleftrightarrow> listening (tcp A) \<or> forwards (service A) \<noteq> [])"
proof -
  have run: "ice_run tr (service A)" using app_run_inv [OF assms] by simp
  have "made e (tr @ ices (snd (main_ends signal (object_of t A))))
      = released e (tr @ ices (snd (main_ends signal (object_of t A))))" for e
    using run_balance [OF run, of e] delete_releases [OF ice_run_inv [OF run], of e]
    by (simp add: main_ends_effects made_by_sessions)
  moreover have "dropWhile (\<lambda>x. x \<noteq> EiceExited) (map Ice xs @ ys) = dropWhile (\<lambda>x. x \<noteq> EiceExited) ys" for xs ys
    by (induction xs) auto
  then have "ices (dropWhile (\<lambda>x. x \<noteq> EiceExited) (snd (main_ends signal (object_of t A)))) = []"
    by (simp add: main_ends_effects)
  moreover have "\<not> (\<exists>x \<in> set (map Ice xs). on_base x)" for xs by auto
  then have "uses_freed_base (snd (main_ends signal (object_of t A)))
      \<longleftrightarrow> listening (tcp A) \<or> forwards (service A) \<noteq> []"
    using events_of_forwards [of "forwards (service A)"]
    by (auto simp: main_ends_effects uses_freed_base_def)
  ultimately show ?thesis using call_while_alive closed_by_forwards by (simp add: main_ends_effects)
qed

theorem orderly_end_witness:
  "uses_freed_base (snd (main_ends True (object_of (Level [] [] [] [] 0) sample_app)))
    \<and> made 5 (ices (snd (main_ends True (object_of (Level [] [] [] [] 0) sample_app)))) = 0"
proof -
  have "app_run [] (\<lambda>_. []) (\<lambda>_. []) sample_app" using app_run.start [OF sample_app_start] by simp
  from orderly_end [OF this, of True "Level [] [] [] [] 0"] show ?thesis
    by (simp add: main_ends_effects sample_app_def sample_service_def delete_IceService_def)
qed

text \<open>The hexadecimal digits of the log can be read back, and the space reserved for them is exact.\<close>

definition digit_of_hex :: "char \<Rightarrow> nat" where
  "digit_of_hex c = (if of_char c < (58 :: nat) then of_char c - 48 else of_char c - 87)"

lemma hex_byte_value: "map digit_of_hex (hex_byte b) = [unat b div 16, unat b mod 16]"
proof -
  have "d < 16 \<Longrightarrow> digit_of_hex (hex_digit d) = d" for d :: nat
    by (simp add: digit_of_hex_def hex_digit_def)
  moreover have "unat b div 16 < 16" by (rule less_mult_imp_div_less) simp
  ultimately show ?thesis by (simp add: hex_byte_def)
qed

lemma toHexString_length:
  "toHexString buf len tok = Inr s \<Longrightarrow> int (length s) = len * (2 + int (length tok))"
proof -
  assume a: "toHexString buf len tok = Inr s"
  have "length (concat (map (\<lambda>b. hex_byte b @ tok) bs)) = length bs * (2 + length tok)" for bs
    by (induction bs) (simp_all add: hex_byte_def)
  then show ?thesis using a by (auto simp: toHexString_def nat_le_iff algebra_simps split: if_splits)
qed

end
