(* ===== verification/JsonErrors.thy ===== *)
theory JsonErrors
  imports JsonWriter "HOL-Library.Sublist"
begin

text \<open>
  The errors of the reader (\<open>json_reader.cpp\<close> in \<open>third/eice/src/jsoncpp.cpp\<close>): the line and column of a
  location, the formatted and the structured list, and the errors a client adds. A pointer into or
  beyond the document is its distance from \<open>begin_\<close>.
\<close>

section \<open>Lines and columns\<close>

text \<open>The scan from \<open>current\<close>, whose rest of the document is the list, up to \<open>location\<close>.\<close>

function lines_to :: "nat \<Rightarrow> nat \<Rightarrow> string \<Rightarrow> nat \<Rightarrow> int \<Rightarrow> nat \<times> int" where
  "lines_to location current [] lastLineStart line = (lastLineStart, line)"
| "lines_to location current (c # rest) lastLineStart line =
     (if current < location then
        if c = CR then
          if deref rest = LF
          then lines_to location (current + 2) (tl rest) (current + 2) (line + 1)
          else lines_to location (current + 1) rest (current + 1) (line + 1)
        else if c = LF then lines_to location (current + 1) rest (current + 1) (line + 1)
        else lines_to location (current + 1) rest lastLineStart line
      else (lastLineStart, line))"
  by pat_completeness auto
termination by (relation "measure (length \<circ> fst \<circ> snd \<circ> snd)") simp_all

definition getLocationLineAndColumn :: "string \<Rightarrow> nat \<Rightarrow> int \<times> int" where
  "getLocationLineAndColumn document location =
     (let (lastLineStart, line) = lines_to location 0 document 0 0
      in (line + 1, int location - int lastLineStart + 1))"

text \<open>\<open>snprintf\<close> into a buffer of 51 bytes.\<close>

definition location_text :: "string \<Rightarrow> nat \<Rightarrow> string" where
  "location_text document location =
     (let (line, column) = getLocationLineAndColumn document location
      in take 50 (''Line '' @ valueToString_Int line @ '', Column '' @ valueToString_Int column))"

text \<open>\<open>normalizeEOL\<close> of the writers.\<close>

function normalizeEOL :: "string \<Rightarrow> string" where
  "normalizeEOL [] = []"
| "normalizeEOL (c # rest) =
     (if c = CR then LF # normalizeEOL (if deref rest = LF then tl rest else rest)
      else c # normalizeEOL rest)"
  by pat_completeness auto
termination by (relation "measure length") auto

section \<open>Errors\<close>

record ErrorEntry =
  ent_start :: nat
  ent_limit :: nat
  ent_message :: string
  ent_extra :: "nat option"

definition entry_of :: "string \<Rightarrow> ErrorInfo \<Rightarrow> ErrorEntry" where
  "entry_of document e =
     \<lparr>ent_start = length document - length (tok_start (err_token e)),
      ent_limit = length document - length (tok_end (err_token e)),
      ent_message = err_message e,
      ent_extra = map_option (\<lambda>l. length document - length l) (err_extra e)\<rparr>"

definition getFormattedErrorMessages :: "string \<Rightarrow> ErrorEntry list \<Rightarrow> string" where
  "getFormattedErrorMessages document errors =
     fold (\<lambda>error formattedMessage.
        formattedMessage @ ''* '' @ location_text document (ent_start error) @ [LF]
        @ ''  '' @ ent_message error @ [LF]
        @ (case ent_extra error of
             None \<Rightarrow> []
           | Some extra \<Rightarrow> ''See '' @ location_text document extra @ '' for detail.'' @ [LF]))
       errors []"

record StructuredError =
  offset_start :: nat
  offset_limit :: nat
  structured_message :: string

definition getStructuredErrors :: "ErrorEntry list \<Rightarrow> StructuredError list" where
  "getStructuredErrors errors =
     map (\<lambda>error. \<lparr>offset_start = ent_start error, offset_limit = ent_limit error,
                    structured_message = ent_message error\<rparr>) errors"

text \<open>
  The two \<open>pushError\<close>s; a value is given by its offsets, start and limit. The first adds the limit to
  \<open>end_\<close>.
\<close>

definition pushError ::
  "string \<Rightarrow> nat \<times> nat \<Rightarrow> string \<Rightarrow> ErrorEntry list \<Rightarrow> bool \<times> ErrorEntry list" where
  "pushError document val message errors =
     (if fst val > length document \<or> snd val > length document then (False, errors)
      else (True, errors @ [\<lparr>ent_start = fst val, ent_limit = length document + snd val,
                             ent_message = message, ent_extra = None\<rparr>]))"

definition pushError_extra ::
  "string \<Rightarrow> nat \<times> nat \<Rightarrow> string \<Rightarrow> nat \<times> nat \<Rightarrow> ErrorEntry list \<Rightarrow> bool \<times> ErrorEntry list" where
  "pushError_extra document val message extra errors =
     (if fst val > length document \<or> snd val > length document \<or> snd extra > length document
      then (False, errors)
      else (True, errors @ [\<lparr>ent_start = fst val, ent_limit = snd val,
                             ent_message = message, ent_extra = Some (fst extra)\<rparr>]))"

definition Reader_good :: "ErrorEntry list \<Rightarrow> bool" where
  "Reader_good errors \<longleftrightarrow> errors = []"

section \<open>Lines of the text with line ends made uniform\<close>

lemma normalizeEOL_no_LF: "LF \<notin> set (normalizeEOL s) \<Longrightarrow> normalizeEOL s = s"
  by (induction s rule: normalizeEOL.induct) (auto split: if_splits)

definition last_line :: "string \<Rightarrow> string" where
  "last_line s = rev (takeWhile (\<lambda>c. c \<noteq> LF) (rev s))"

lemma last_line_Cons: "last_line (c # s) =
    (if LF \<in> set s then last_line s else if c = LF then s else c # s)"
  by (auto simp: last_line_def takeWhile_append)

lemma last_line_no_LF: "LF \<notin> set s \<Longrightarrow> last_line s = s"
proof -
  assume "LF \<notin> set s"
  then have "takeWhile (\<lambda>c. c \<noteq> LF) (rev s) = rev s" by (intro takeWhile_eq_all_conv [THEN iffD2]) auto
  then show "last_line s = s" unfolding last_line_def by (simp only: rev_rev_ident)
qed

text \<open>A location between the two characters of a DOS line end.\<close>

definition splits_line_end :: "string \<Rightarrow> nat \<Rightarrow> bool" where
  "splits_line_end s n \<longleftrightarrow> 0 < n \<and> n < length s \<and> s ! (n - 1) = CR \<and> s ! n = LF"

lemma splits_Cons [simp]:
  "splits_line_end (c # s) (Suc n) \<longleftrightarrow> n < length s \<and> (if n = 0 then c = CR \<and> s ! 0 = LF else splits_line_end s n)"
  by (cases n) (auto simp: splits_line_end_def)

lemma splits_zero [simp]: "\<not> splits_line_end s 0"
  by (simp add: splits_line_end_def)

lemma splits_beyond [simp]: "length s \<le> n \<Longrightarrow> \<not> splits_line_end s n"
  by (simp add: splits_line_end_def)

definition line_start :: "nat \<Rightarrow> nat \<Rightarrow> string \<Rightarrow> nat \<Rightarrow> nat" where
  "line_start current n s start =
     (if splits_line_end s n then current + n + 1
      else if LF \<in> set (normalizeEOL (take n s))
      then current + n - length (last_line (normalizeEOL (take n s)))
      else start)"

lemma lines_to_stop: "location \<le> current \<Longrightarrow> lines_to location current s start line = (start, line)"
  by (cases s) simp_all

lemma length_last_line: "length (last_line s) \<le> length s"
  by (metis last_line_def length_rev length_takeWhile_le)

lemma last_line_all: "LF \<notin> set (normalizeEOL (take m s)) \<Longrightarrow> m \<le> length s \<Longrightarrow>
    length (normalizeEOL (take m s)) = m"
  using normalizeEOL_no_LF [of "take m s"] by simp

lemma line_start_plain:
  "c \<noteq> CR \<Longrightarrow> c \<noteq> LF \<Longrightarrow> m \<le> length rest \<Longrightarrow>
    line_start current (Suc m) (c # rest) start = line_start (Suc current) m rest start"
  by (auto simp: line_start_def last_line_Cons)

lemma line_start_LF:
  "m \<le> length rest \<Longrightarrow>
    line_start current (Suc m) (LF # rest) start = line_start (Suc current) m rest (Suc current)"
  by (auto simp: line_start_def last_line_Cons last_line_all)

lemma deref_take: "deref (take m rest) = LF \<longleftrightarrow> m > 0 \<and> deref rest = LF"
  by (cases rest; cases m) (auto simp: deref_def NUL_def)

lemma deref_nth: "deref rest = LF \<longleftrightarrow> rest \<noteq> [] \<and> rest ! 0 = LF"
  by (cases rest) (auto simp: deref_def NUL_def)

lemma line_start_CR:
  "deref rest \<noteq> LF \<Longrightarrow> m \<le> length rest \<Longrightarrow>
    line_start current (Suc m) (CR # rest) start = line_start (Suc current) m rest (Suc current)"
  by (auto simp: line_start_def last_line_Cons last_line_all deref_take) (auto simp: deref_nth)

lemma line_start_CR_LF:
  "deref rest = LF \<Longrightarrow> m < length rest \<Longrightarrow>
    line_start current (Suc (Suc m)) (CR # rest) start
      = line_start (Suc (Suc current)) m (tl rest) (Suc (Suc current))"
  by (cases rest) (auto simp: line_start_def last_line_Cons last_line_all deref_def)

lemma lines_to_spec:
  assumes "n \<le> length s"
  shows "lines_to (current + n) current s start line =
    (line_start current n s start, line + int (count_list (normalizeEOL (take n s)) LF))"
  using assms
proof (induction "current + n" current s start line arbitrary: n rule: lines_to.induct)
  case (1 current start line)
  then show ?case by (simp add: line_start_def)
next
  case (2 current c rest start line)
  show ?case
  proof (cases n)
    case 0
    then show ?thesis by (simp add: line_start_def)
  next
    case (Suc m)
    with "2.prems" have m: "m \<le> length rest" by simp
    consider (dos) "c = CR" "deref rest = LF" | (mac) "c = CR" "deref rest \<noteq> LF"
      | (unix) "c = LF" | (plain) "c \<noteq> CR" "c \<noteq> LF" by blast
    then show ?thesis
    proof cases
      case dos
      show ?thesis
      proof (cases m)
        case 0
        with dos show ?thesis
          by (simp add: Suc lines_to_stop line_start_def deref_nth deref_take)
      next
        case (Suc k)
        with m have k: "k < length rest" "k \<le> length (tl rest)" by auto
        from "2.hyps"(1) [of k] k(2) dos \<open>n = Suc m\<close> Suc
        have "lines_to (current + n) (current + 2) (tl rest) (current + 2) (line + 1)
            = (line_start (current + 2) k (tl rest) (current + 2),
               line + 1 + int (count_list (normalizeEOL (take k (tl rest))) LF))"
          by simp
        with dos k \<open>n = Suc m\<close> Suc show ?thesis
          by (simp add: line_start_CR_LF deref_take tl_take)
      qed
    next
      case mac
      with "2.hyps"(2) [of m] m Suc show ?thesis by (simp add: line_start_CR deref_take)
    next
      case unix
      with "2.hyps"(3) [of m] m Suc show ?thesis by (simp add: line_start_LF)
    next
      case plain
      with "2.hyps"(4) [of m] m Suc show ?thesis by (simp add: line_start_plain)
    qed
  qed
qed

section \<open>Where errors are\<close>

text \<open>Every location of an error of the reader is a rest of the document.\<close>

definition in_document :: "string \<Rightarrow> ErrorInfo \<Rightarrow> bool" where
  "in_document D e \<longleftrightarrow> suffix (tok_end (err_token e)) (tok_start (err_token e))
     \<and> suffix (tok_start (err_token e)) D
     \<and> (\<forall>l. err_extra e = Some l \<longrightarrow> suffix l D)"

definition within :: "string \<Rightarrow> Reader \<Rightarrow> bool" where
  "within D R \<longleftrightarrow> suffix (rd_current R) D \<and> (\<forall>e \<in> set (rd_errors R). in_document D e)"

lemma suffix_skipSpaces: "suffix (skipSpaces cs) cs"
  by (simp add: skipSpaces_def suffix_dropWhile)

lemma suffix_readNumber: "suffix (readNumber cs) cs"
  by (simp add: readNumber_def suffix_dropWhile)

lemma suffix_match: "suffix (snd (match cs p)) cs"
  by (simp add: match_def suffix_drop)

lemma suffix_getNextChar: "suffix (snd (getNextChar cs)) cs"
  by (cases cs) (simp_all add: getNextChar_def suffix_ConsI)

lemma suffix_readCppStyleComment: "suffix (snd (readCppStyleComment cs)) cs"
proof (induction cs)
  case (Cons c cs)
  then show ?case
    by (cases "c = CR \<or> c = LF") (simp_all only: readCppStyleComment.simps if_True if_False, simp_all add: suffix_ConsI)
qed simp

lemma suffix_readCStyleComment: "suffix (snd (readCStyleComment cs)) cs"
proof (induction cs)
  case (Cons c cs)
  show ?case
  proof (cases "c = CHR ''*'' \<and> deref cs = CHR ''/''")
    case True
    then have "snd (readCStyleComment (c # cs)) = snd (getNextChar cs)"
      by (simp add: case_prod_unfold Let_def)
    with suffix_getNextChar [of cs] show ?thesis by (simp add: suffix_ConsI)
  next
    case False
    then have "readCStyleComment (c # cs) = readCStyleComment cs"
      by (simp only: readCStyleComment.simps if_False)
    with Cons show ?thesis by (simp add: suffix_ConsI)
  qed
qed simp

lemma suffix_readComment: "suffix (snd (readComment cs)) cs"
proof -
  note suffix_order.trans [OF suffix_readCStyleComment suffix_getNextChar, of cs]
    suffix_order.trans [OF suffix_readCppStyleComment suffix_getNextChar, of cs]
  with suffix_getNextChar [of cs] show ?thesis by (simp add: readComment_def case_prod_unfold Let_def)
qed

lemma suffix_readString: "suffix (snd (readString c cs)) cs"
proof (induction c cs rule: readString.induct)
  case (2 uu c cs)
  then show ?case
    by (cases "c = BACKSLASH"; cases cs; cases "c = QUOTE") (simp_all add: suffix_ConsI)
qed simp

lemma suffix_if_snd:
  "suffix (snd (snd a)) s \<Longrightarrow> suffix (snd (snd b)) s \<Longrightarrow> suffix (snd (snd (if c then a else b))) s"
  by simp

lemma suffix_token_switch: "suffix (snd (snd (token_switch c cs))) cs"
  unfolding token_switch_def
  by (intro suffix_if_snd)
     (simp_all only: suffix_readComment suffix_readString suffix_readNumber suffix_match
       snd_conv suffix_order.order_refl)

lemma suffix_readToken:
  "suffix (tok_end (readToken cs)) (tok_start (readToken cs))" "suffix (tok_start (readToken cs)) cs"
  using suffix_order.trans [OF suffix_token_switch suffix_getNextChar, of "fst (getNextChar (skipSpaces cs))" "skipSpaces cs"]
    suffix_skipSpaces [of cs]
  by (simp_all add: readToken_def Let_def case_prod_unfold)

definition token_in :: "string \<Rightarrow> Token \<Rightarrow> bool" where
  "token_in D t \<longleftrightarrow> suffix (tok_end t) (tok_start t) \<and> suffix (tok_start t) D"

lemma token_in_end: "token_in D t \<Longrightarrow> suffix (tok_end t) D"
  using suffix_order.trans by (auto simp: token_in_def)

lemma readToken_in: "suffix cs D \<Longrightarrow> token_in D (readToken cs)"
  using suffix_readToken [of cs] suffix_order.trans by (auto simp: token_in_def)

lemma skip_comments_in: "suffix cs D \<Longrightarrow> token_in D (skip_comments cs)"
proof (induction cs rule: skip_comments.induct)
  case (1 cs)
  then show ?case
    using readToken_in token_in_end by (subst skip_comments.simps) auto
qed

lemma skipCommentTokens_in: "suffix cs D \<Longrightarrow> token_in D (skipCommentTokens F cs)"
  by (simp add: skipCommentTokens_def skip_comments_in readToken_in)

lemma skip_until_in: "suffix cs D \<Longrightarrow> suffix (skip_until ty cs) D"
proof (induction ty cs rule: skip_until.induct)
  case (1 ty cs)
  then show ?case
    using readToken_in token_in_end by (subst skip_until.simps) auto
qed

text \<open>The location of a decoding error lies in what was to be decoded.\<close>

definition extra_in :: "string \<Rightarrow> decode_error \<Rightarrow> bool" where
  "extra_in D e \<longleftrightarrow> (\<forall>l. snd e = Some l \<longrightarrow> suffix l D)"

lemma extra_in_simps [simp]: "extra_in D (m, None)" "extra_in D (m, Some l) \<longleftrightarrow> suffix l D"
  by (simp_all add: extra_in_def)

lemma extra_in_mono: "extra_in D e \<Longrightarrow> suffix D D' \<Longrightarrow> extra_in D' e"
  using suffix_order.trans by (auto simp: extra_in_def)

lemma suffix_append_right: "suffix rest cs \<Longrightarrow> suffix (rest @ b) (cs @ b)"
  by (auto simp: suffix_def)

lemma suffix_hex_digits: "suffix (fst (hex_digits k cs u)) cs"
  by (induction k cs u rule: hex_digits.induct) (auto split: option.split list.split intro: suffix_ConsI)

lemma escape_sequence_in:
  "case decodeUnicodeEscapeSequence behind cs of
     Inl e \<Rightarrow> extra_in (cs @ behind) e | Inr (u, rest) \<Rightarrow> suffix rest cs"
  using suffix_hex_digits [of 4 cs 0]
  by (auto simp: decodeUnicodeEscapeSequence_def suffix_append_right split: prod.split option.split)

lemma code_point_in:
  "case decodeUnicodeCodePoint behind cs of
     Inl e \<Rightarrow> extra_in (cs @ behind) e | Inr (u, rest) \<Rightarrow> suffix rest cs"
proof (cases "decodeUnicodeEscapeSequence behind cs")
  case (Inl e)
  with escape_sequence_in [of cs behind] show ?thesis by (simp add: decodeUnicodeCodePoint_def)
next
  case (Inr r)
  obtain u cs1 where r: "r = (u, cs1)" by (cases r)
  with Inr escape_sequence_in [of cs behind] have s: "suffix cs1 cs" by simp
  have d: "suffix (drop k cs1) cs" for k using suffix_order.trans [OF suffix_drop s] .
  show ?thesis
  proof (cases "decodeUnicodeEscapeSequence behind (drop 2 cs1)")
    case (Inl e)
    with escape_sequence_in [of "drop 2 cs1" behind] have "extra_in (drop 2 cs1 @ behind) e" by simp
    then have "extra_in (cs @ behind) e" by (rule extra_in_mono) (intro suffix_append_right d)
    with Inr r Inl s d show ?thesis
      by (simp add: decodeUnicodeCodePoint_def suffix_append_right)
  next
    case (Inr q)
    obtain w cs2 where q: "q = (w, cs2)" by (cases q)
    with Inr escape_sequence_in [of "drop 2 cs1" behind] have "suffix cs2 (drop 2 cs1)" by simp
    then have "suffix cs2 cs" using d by (rule suffix_order.trans)
    with Inr q r \<open>decodeUnicodeEscapeSequence behind cs = Inr r\<close> s d show ?thesis
      by (simp add: decodeUnicodeCodePoint_def suffix_append_right)
  qed
qed

lemma decode_chars_in:
  "decode_chars behind cs decoded = Inl e \<Longrightarrow> extra_in (cs @ behind) e"
proof (induction "length cs" arbitrary: cs decoded rule: less_induct)
  case less
  show ?case
  proof (cases cs)
    case Nil
    with less.prems show ?thesis by (simp add: decode_chars.simps)
  next
    case (Cons c rest)
    have grow: "extra_in (cs @ behind) e" if "extra_in (xs @ behind) e" "suffix xs rest" for xs
      using that(1) suffix_append_right [OF suffix_ConsI [OF that(2)], of behind c]
      unfolding Cons by (rule extra_in_mono)
    have step: "extra_in (cs @ behind) e" if "decode_chars behind xs d = Inl e" "suffix xs rest" for xs d
      using less.hyps [of xs d] that suffix_length_le [OF that(2)] Cons by (intro grow [of xs]) auto
    note eq = less.prems [unfolded Cons decode_chars.simps]
    show ?thesis
    proof (cases "c = QUOTE \<or> c \<noteq> BACKSLASH")
      case True
      with eq step [of rest] show ?thesis by (auto split: if_splits)
    next
      case False
      show ?thesis
      proof (cases rest)
        case Nil
        with eq False Cons show ?thesis by (auto simp: suffix_ConsI)
      next
        case (Cons escape cs1)
        have s: "suffix cs1 rest" by (simp add: Cons suffix_ConsI)
        consider (simple) d where "simple_escape escape = Some d"
          | (unicode) "simple_escape escape = None" "escape = CHR ''u''"
          | (bad) "simple_escape escape = None" "escape \<noteq> CHR ''u''"
          by (cases "simple_escape escape"; cases "escape = CHR ''u''") simp_all
        then show ?thesis
        proof cases
          case simple
          with eq False Cons s step show ?thesis by simp
        next
          case bad
          with eq False Cons have "e = (''Bad escape sequence in string'', Some (cs1 @ behind))" by simp
          with s show ?thesis by (intro grow [of cs1]) simp_all
        next
          case unicode
          show ?thesis
          proof (cases "decodeUnicodeCodePoint behind cs1")
            case (Inl e')
            with eq False Cons unicode have "e' = e" by simp
            with Inl code_point_in [of cs1 behind] s show ?thesis by (intro grow [of cs1]) simp_all
          next
            case (Inr r)
            obtain u cs2 where r: "r = (u, cs2)" by (cases r)
            with Inr code_point_in [of cs1 behind] have "suffix cs2 cs1" by simp
            then have "suffix cs2 rest" using s by (rule suffix_order.trans)
            with eq False Cons unicode Inr r step show ?thesis by simp
          qed
        qed
      qed
    qed
  qed
qed

lemma decodeString_in:
  assumes "token_in D t" "decodeString t = Inl e"
  shows "extra_in D e"
proof -
  let ?n = "length (tok_text t)"
  have n: "tok_text t = take ?n (tok_start t)" by (simp add: tok_text_def)
  have "suffix (butlast (tl (tok_text t)) @ drop (?n - 1) (tok_start t)) (tok_start t)"
  proof (cases "?n \<le> 1")
    case True
    then have "butlast (tl (tok_text t)) = []" by (cases "tok_text t"; simp)
    then show ?thesis by (simp add: suffix_drop)
  next
    case False
    have "butlast (tl (take ?n (tok_start t))) = take (?n - 2) (tl (tok_start t))"
    proof -
      have "?n - 1 \<le> length (tl (tok_start t))" by (simp add: tok_text_def)
      then show ?thesis by (simp add: tl_take butlast_take numeral_2_eq_2)
    qed
    moreover have "drop (?n - 1) (tok_start t) = drop (?n - 2) (tl (tok_start t))"
      using False by (simp add: drop_Suc [symmetric] Suc_diff_Suc numeral_2_eq_2)
    ultimately show ?thesis using n suffix_drop [of 1 "tok_start t"] by (simp add: drop_Suc)
  qed
  with assms decode_chars_in show ?thesis
    unfolding decodeString_def token_in_def Let_def
    by (meson extra_in_mono suffix_order.trans)
qed

lemma decodeNumber_in: "decodeNumber L t = Inl e \<Longrightarrow> extra_in D e"
proof -
  have dbl: "extra_in D e" if "decodeDouble L t = Inl e" for e
    using that by (cases "scan_double L (tok_text t)") (auto simp: decodeDouble_def)
  have digits: "extra_in D e" if "(case decode_digits mx 0 s of
        Inl e \<Rightarrow> Inl (m, None) | Inr None \<Rightarrow> decodeDouble L t | Inr (Some v) \<Rightarrow> Inr (f v)) = Inl e" for mx s m f e
    using that dbl by (cases "decode_digits mx 0 s"; cases "projr (decode_digits mx 0 s)") auto
  have one_of: "a = x \<or> b = x" if "(if c then a else b) = x" for c and a b x :: "decode_error + Value"
    using that by (simp split: if_split_asm)
  assume "decodeNumber L t = Inl e"
  from one_of [OF this [unfolded decodeNumber_def Let_def]] show ?thesis
    by (elim disjE) (erule dbl, erule digits)
qed

lemma member_name_in: "token_in D t \<Longrightarrow> member_name L F t = Some (Inl e) \<Longrightarrow> extra_in D e"
  by (auto simp: member_name_def decodeString_in split: if_splits sum.splits dest: decodeNumber_in)

section \<open>The reader stays in the document\<close>

definition stays :: "string \<Rightarrow> parse_result \<Rightarrow> bool" where
  "stays D r \<longleftrightarrow> (\<forall>ok v R. r = Some (ok, v, R) \<longrightarrow> within D R)"

lemma stays_simps [simp]: "stays D None" "stays D (Some (ok, v, R)) \<longleftrightarrow> within D R"
  by (simp_all add: stays_def)

lemma stays_if [simp]: "stays D (if c then a else b) \<longleftrightarrow> (if c then stays D a else stays D b)"
  by simp

lemma within_move: "within D R \<Longrightarrow> suffix cs D \<Longrightarrow> within D (R\<lparr>rd_current := cs\<rparr>)"
  by (simp add: within_def)

lemma within_addError:
  "within D R \<Longrightarrow> token_in D t \<Longrightarrow> extra_in D (m, e) \<Longrightarrow> within D (addError m t e R)"
  by (auto simp: within_def addError_def in_document_def token_in_def extra_in_def)

lemma within_recover: "within D R \<Longrightarrow> within D (recoverFromError ty R)"
  by (auto simp: within_def recoverFromError_def skip_until_in)

lemma within_error_recover:
  "within D R \<Longrightarrow> token_in D t \<Longrightarrow> within D (addErrorAndRecover m t ty R)"
  by (simp add: addErrorAndRecover_def within_recover within_addError)

lemma within_current: "within D R \<Longrightarrow> suffix (rd_current R) D"
  by (simp add: within_def)

lemmas within_intros = within_move within_recover within_error_recover within_addError
  token_in_end skip_comments_in readToken_in within_current skipCommentTokens_in

lemma decoded_value_stays:
  "within D R \<Longrightarrow> token_in D t \<Longrightarrow> (\<And>e. r = Inl e \<Longrightarrow> extra_in D e) \<Longrightarrow> stays D (decoded_value R t cur r)"
  by (auto simp: decoded_value_def split: sum.split intro!: within_addError)

text \<open>Un-reading a comma: it is the character before the end of its token.\<close>

lemma fst_if_neq: "fst a \<noteq> x \<Longrightarrow> fst b \<noteq> x \<Longrightarrow> fst (if c then a else b) \<noteq> x"
  by simp

lemma token_switch_separator: "c \<noteq> CHR '','' \<Longrightarrow> fst (token_switch c cs) \<noteq> tokenArraySeparator"
  unfolding token_switch_def by (simp only: if_False) (intro fst_if_neq, simp_all)

lemma separator_token:
  assumes "tok_type (readToken cs) = tokenArraySeparator"
  shows "tok_start (readToken cs) = CHR '','' # tok_end (readToken cs)"
proof (cases "skipSpaces cs")
  case Nil
  with assms show ?thesis by (simp add: readToken_Nil)
next
  case (Cons c rest)
  have "c = CHR '',''"
    using assms Cons token_switch_separator [of c rest]
    by (cases "c = CHR '',''")
      (auto simp: readToken_def Let_def getNextChar_def case_prod_unfold split: if_split_asm)
  then show ?thesis
    using Cons by (simp add: readToken_def Let_def getNextChar_def token_switch_def is_digit_def NUL_def)
qed

lemma separator_comment_token:
  "tok_type (skipCommentTokens F cs) = tokenArraySeparator \<Longrightarrow>
    tok_start (skipCommentTokens F cs) = CHR '','' # tok_end (skipCommentTokens F cs)"
proof (induction cs rule: skip_comments.induct)
  case (1 cs)
  then show ?case
    using separator_token [of cs]
    by (auto simp: skipCommentTokens_def skip_comments.simps [of cs] split: if_splits)
qed

lemma readValue_body_stays:
  assumes R: "within D R"
    and ro: "\<And>R'. within D R' \<Longrightarrow> stays D (ro R')" and ra: "\<And>R'. within D R' \<Longrightarrow> stays D (ra R')"
  shows "stays D (readValue_body ro ra L F R cur)"
proof -
  let ?t = "skipCommentTokens F (rd_current R)"
  have t: "token_in D ?t" using R by (intro within_intros)
  have R1: "within D (R\<lparr>rd_current := tok_end ?t\<rparr>)" using R t by (intro within_intros)
  have comma: "within D (R\<lparr>rd_current := CHR '','' # tok_end ?t\<rparr>)"
    if "tok_type ?t = tokenArraySeparator"
    using R t separator_comment_token [OF that] by (auto simp: token_in_def intro!: within_move)
  have str: "extra_in D e" if "map_sum (\<lambda>e. e) Value_of_string (decodeString ?t) = Inl e" for e
    using that decodeString_in [OF t] by (cases "decodeString ?t") auto
  show ?thesis
    using ro [OF R1] ra [OF R1] R1 t comma str
    by (cases "tok_type ?t")
       (simp_all add: readValue_body_def Let_def decoded_value_stays within_addError decodeNumber_in)
qed

lemma readArray_begin_stays:
  assumes "within D R" "\<And>R'. within D R' \<Longrightarrow> stays D (ra R')"
  shows "stays D (readArray_begin ra R)"
proof -
  have s: "suffix (skipSpaces (rd_current R)) D"
    using suffix_skipSpaces assms(1) [THEN within_current] by (rule suffix_order.trans)
  then have "within D (R\<lparr>rd_current := tok_end (readToken (skipSpaces (rd_current R)))\<rparr>)"
    using assms(1) by (intro within_intros)
  with assms s show ?thesis by (simp add: readArray_begin_def Let_def within_move)
qed

lemma readObject_comma_stays:
  assumes R: "within D R" and more: "\<And>R'. within D R' \<Longrightarrow> stays D (ro R')"
  shows "stays D (readObject_comma ro obj R)"
proof -
  let ?c = "readToken (rd_current R)"
  have c: "token_in D ?c" using R by (intro within_intros)
  have d: "token_in D (skip_comments (tok_end ?c))" using c by (intro skip_comments_in token_in_end)
  from R c d have "within D (R\<lparr>rd_current := tok_end ?c\<rparr>)"
    "within D (R\<lparr>rd_current := tok_end (skip_comments (tok_end ?c))\<rparr>)"
    by (auto intro: within_intros)
  with c show ?thesis
    by (simp add: readObject_comma_def Let_def more within_error_recover)
qed

lemma readObject_body_stays:
  assumes R: "within D R"
    and rv: "\<And>R' c. within D R' \<Longrightarrow> stays D (rv R' c)"
    and ro: "\<And>n R' m. within D R' \<Longrightarrow> stays D (ro n R' m)"
  shows "stays D (readObject_body rv ro L F name R members)"
proof -
  let ?t = "skip_comments (rd_current R)"
  let ?c = "readToken (tok_end ?t)"
  have t: "token_in D ?t" using R by (intro within_intros)
  then have c: "token_in D ?c" by (intro readToken_in token_in_end)
  have R1: "within D (R\<lparr>rd_current := tok_end ?t\<rparr>)" using R t by (intro within_move token_in_end)
  have R2: "within D (R\<lparr>rd_current := tok_end ?c\<rparr>)" using R c by (intro within_move token_in_end)
  have v: "stays D (case rv (R\<lparr>rd_current := tok_end ?c\<rparr>) old of
        None \<Rightarrow> None
      | Some (ok, v, R3) \<Rightarrow>
          if \<not> ok then Some (False, objectValue (omap_put key v members), recoverFromError tokenObjectEnd R3)
          else readObject_comma (\<lambda>R5. ro n R5 (omap_put key v members))
            (objectValue (omap_put key v members)) R3)" for n old key
  proof (cases "rv (R\<lparr>rd_current := tok_end ?c\<rparr>) old")
    case (Some r)
    obtain ok x R3 where r: "r = (ok, x, R3)" by (cases r) auto
    with rv [OF R2, of old] Some have "within D R3" by simp
    with Some r ro show ?thesis by (simp add: within_recover readObject_comma_stays)
  qed simp
  have e: "within D (recoverFromError tokenObjectEnd (addError (fst e) ?t (snd e) (R\<lparr>rd_current := tok_end ?t\<rparr>)))"
    if "member_name L F ?t = Some (Inl e)" for e
    using R1 t member_name_in [OF t that] by (simp add: within_recover within_addError)
  show ?thesis
    using t c R1 R2 v e
    by (simp add: readObject_body_def Let_def within_error_recover split: option.split sum.split)
qed

lemma readArray_body_stays:
  assumes R: "within D R"
    and rv: "\<And>R' c. within D R' \<Longrightarrow> stays D (rv R' c)"
    and ra: "\<And>n R' m. within D R' \<Longrightarrow> stays D (ra n R' m)"
  shows "stays D (readArray_body rv ra index R items)"
proof (cases "rv R (case omap_find items index of None \<Rightarrow> nullValue | Some v \<Rightarrow> v)")
  case None
  then show ?thesis by (simp add: readArray_body_def)
next
  case (Some r)
  obtain ok v R1 where r: "r = (ok, v, R1)" by (cases r) auto
  have R1: "within D R1"
    using rv [OF R, of "case omap_find items index of None \<Rightarrow> nullValue | Some v \<Rightarrow> v"] Some r by simp
  let ?t = "skip_comments (rd_current R1)"
  have t: "token_in D ?t" using R1 by (intro within_intros)
  then have "within D (R1\<lparr>rd_current := tok_end ?t\<rparr>)" using R1 by (intro within_move token_in_end)
  with R1 t Some r ra show ?thesis
    by (simp add: readArray_body_def Let_def within_recover within_error_recover)
qed

lemma reader_stays:
  "within D R \<longrightarrow> stays D (readValue n L F R cur)"
  "within D R \<longrightarrow> stays D (readObject n L F name R members)"
  "within D R \<longrightarrow> stays D (readArray n L F index R items)"
proof (induction n arbitrary: R cur name members index items)
  case (Suc n)
  {
    case 1
    show ?case unfolding readValue.simps
      using Suc.IH by (intro impI readValue_body_stays readArray_begin_stays) blast+
  next
    case 2
    show ?case unfolding readObject.simps
      using Suc.IH by (intro impI readObject_body_stays) blast+
  next
    case 3
    show ?case unfolding readArray.simps
      using Suc.IH by (intro impI readArray_body_stays) blast+
  }
qed (simp_all add: readValue.simps(1) readObject.simps(1) readArray.simps(1))

lemma parse_errors_in:
  assumes "Reader_parse L F document root = Some (ok, v, errors)" "e \<in> set errors"
  shows "in_document document e"
proof -
  let ?R = "\<lparr>rd_current = document, rd_errors = []\<rparr>"
  obtain s w R where r: "readValue (parse_fuel document) L F ?R root = Some (s, w, R)"
    using assms(1) by (auto simp: Reader_parse_def split: option.splits)
  have "within document ?R" by (simp add: within_def)
  with reader_stays(1) [of document ?R] r have R: "within document R" by (metis stays_simps(2))
  then have "within document (addError m \<lparr>tok_type = tokenError, tok_start = document, tok_end = []\<rparr> None R)" for m
    by (simp add: within_addError token_in_def)
  with R r assms show ?thesis
    by (auto simp: Reader_parse_def within_def Let_def split: if_split_asm)
qed

section \<open>The text of a location\<close>

lemma length_uintToString: "0 < k \<Longrightarrow> n < 10 ^ k \<Longrightarrow> length (uintToString n []) \<le> k"
proof (induction k arbitrary: n)
  case (Suc k)
  show ?case
  proof (cases "n div 10 = 0")
    case True
    then show ?thesis by (subst uintToString_rec) simp
  next
    case False
    then have "k \<noteq> 0" using Suc.prems by (cases k) auto
    moreover have "n div 10 < 10 ^ k" using Suc.prems by (simp add: less_mult_imp_div_less mult.commute)
    ultimately have "length (uintToString (n div 10) []) \<le> k" by (intro Suc.IH) simp
    then show ?thesis by (subst uintToString_rec) simp
  qed
qed simp

lemma length_valueToString_Int:
  assumes "0 \<le> i" "i < 2 ^ 32"
  shows "length (valueToString_Int i) \<le> 10"
proof -
  have "nat i < 10 ^ 10" using assms by simp
  then show ?thesis using length_uintToString [of 10 "nat i"] assms(1) by (simp add: valueToString_Int_def)
qed

lemma normalizeEOL_length: "length (normalizeEOL s) \<le> length s"
proof (induction s rule: normalizeEOL.induct)
  case (2 c rest)
  then show ?case by (cases rest) (auto simp: deref_def intro: le_SucI split: if_split_asm)
qed simp

lemma getLocation_spec:
  assumes "location \<le> length document"
  shows "getLocationLineAndColumn document location =
    (1 + int (count_list (normalizeEOL (take location document)) LF),
     if splits_line_end document location then 0
     else 1 + int (length (last_line (normalizeEOL (take location document)))))"
proof -
  let ?u = "normalizeEOL (take location document)"
  have "length (last_line ?u) \<le> location"
    using length_last_line [of ?u] normalizeEOL_length [of "take location document"] assms by simp
  moreover have "LF \<notin> set ?u \<Longrightarrow> length (last_line ?u) = location"
    using assms last_line_all by (simp add: last_line_no_LF)
  ultimately show ?thesis
    using lines_to_spec [OF assms, of 0 0 0]
    by (auto simp: getLocationLineAndColumn_def line_start_def)
qed

lemma location_text_spec:
  assumes "location \<le> length document" "length document < 2 ^ 31 - 1"
  shows "location_text document location =
    (let (line, column) = getLocationLineAndColumn document location
     in ''Line '' @ valueToString_Int line @ '', Column '' @ valueToString_Int column)"
proof -
  let ?u = "normalizeEOL (take location document)"
  have "count_list ?u LF \<le> location" "length (last_line ?u) \<le> location"
    using count_le_length [of ?u LF] length_last_line [of ?u]
      normalizeEOL_length [of "take location document"] assms(1) by simp_all
  then have "length (valueToString_Int (1 + int (count_list ?u LF))) \<le> 10"
    "length (valueToString_Int (1 + int (length (last_line ?u)))) \<le> 10"
    "length (valueToString_Int 0) \<le> 10"
    using assms by (auto intro!: length_valueToString_Int)
  moreover have "take 50 (''Line '' @ a @ '', Column '' @ b) = ''Line '' @ a @ '', Column '' @ b"
    if "length a \<le> 10" "length b \<le> 10" for a b :: string
    using that by (intro take_all) simp
  ultimately show ?thesis
    unfolding location_text_def getLocation_spec [OF assms(1)] Let_def prod.case
    by (cases "splits_line_end document location") (simp_all only: if_True if_False)
qed

section \<open>Properties\<close>

text \<open>
  C35: The position of an error is what a reader of the document sees: with every line end (LF, CR LF
  or CR) made a single LF, the line is one more than the number of line ends before the location, and
  the column one more than the number of characters after the last of them. The one exception is a
  location between the CR and the LF of a DOS line end, which gets column 0.
\<close>
theorem error_position:
  assumes "location \<le> length document"
  shows "getLocationLineAndColumn document location =
    (1 + int (count_list (normalizeEOL (take location document)) LF),
     if 0 < location \<and> location < length document
        \<and> document ! (location - 1) = CR \<and> document ! location = LF then 0
     else 1 + int (length (takeWhile (\<lambda>c. c \<noteq> LF) (rev (normalizeEOL (take location document))))))"
  using getLocation_spec [OF assms] by (simp add: splits_line_end_def last_line_def)

theorem error_position_witness:
  "getLocationLineAndColumn (''{'' @ [CR, LF] @ ''  x}'') 5 = (2, 3)"
  using error_position [of 5 "''{'' @ [CR, LF] @ ''  x}''"] by (simp add: deref_def NUL_def)


definition broken_escape :: string where
  "broken_escape = [QUOTE, BACKSLASH] @ ''u0'' @ [CR, LF] @ ''1'' @ [QUOTE]"

definition broken_escape_error :: ErrorEntry where
  "broken_escape_error = \<lparr>ent_start = 0, ent_limit = 8,
     ent_message = ''Bad unicode escape sequence in string: hexadecimal digit expected.'', ent_extra = Some 5\<rparr>"

lemma broken_escape_parsed:
  "\<exists>v errors. Reader_parse no_doubles Features_all broken_escape nullValue = Some (False, v, errors)
     \<and> map (entry_of broken_escape) errors = [broken_escape_error]"
proof -
  have "map_option (\<lambda>(ok, v, errors). (ok, map (entry_of broken_escape) errors))
      (Reader_parse no_doubles Features_all broken_escape nullValue)
    = Some (False, [broken_escape_error])"
    by code_simp
  then show ?thesis by auto
qed


text \<open>
  What a client adds comes back in the structured list as it was given, with the three-argument
  \<open>pushError\<close>; the other one moves the limit behind the end of the document.
\<close>

lemma pushed_error_listed:
  assumes "fst val \<le> length document" "snd val \<le> length document"
  shows "snd extra \<le> length document \<Longrightarrow>
      getStructuredErrors (snd (pushError_extra document val message extra errors))
        = getStructuredErrors errors @
          [\<lparr>offset_start = fst val, offset_limit = snd val, structured_message = message\<rparr>]"
    and "getStructuredErrors (snd (pushError document val message errors))
        = getStructuredErrors errors @
          [\<lparr>offset_start = fst val, offset_limit = length document + snd val, structured_message = message\<rparr>]"
    and "\<not> Reader_good (snd (pushError document val message errors))"
  using assms by (simp_all add: pushError_extra_def pushError_def getStructuredErrors_def Reader_good_def)

end
