(* ===== verification/JsonComments.thy ===== *)
theory JsonComments
  imports JsonErrors
begin

text \<open>
  The reader of the embedded jsoncpp as the program calls it: \<open>Reader::parse\<close> of
  \<open>third/eice/src/jsoncpp.cpp\<close> with \<open>collectComments\<close> on, the default, and with the source offsets of the
  values. A \<open>Value*\<close> is the node it points to, its path from the root. What is collected is kept beside
  the values. An assertion that fails, a comment that \<open>setComment\<close> refuses, or a write through a
  pointer to a value that is gone sets \<open>cm_fault\<close>; the theorem is that none of them happens.
\<close>

section \<open>Comments and offsets\<close>

type_synonym node = "(string + nat) list"

datatype CommentPlacement = commentBefore | commentAfterOnSameLine | commentAfter

record Collected =
  cm_begin :: string
  cm_collect :: bool
  cm_lastValueEnd :: "Location option"
  cm_lastValue :: "node option"
  cm_lastValue_gone :: bool
  cm_commentsBefore :: string
  cm_comments :: "((node \<times> CommentPlacement) \<times> string) list"
  cm_offsets :: "node \<Rightarrow> u64 \<times> u64"
  cm_fault :: bool

definition new_Collected :: "string \<Rightarrow> bool \<Rightarrow> Collected" where
  "new_Collected document collectComments = \<lparr>cm_begin = document, cm_collect = collectComments,
     cm_lastValueEnd = None, cm_lastValue = None, cm_lastValue_gone = False, cm_commentsBefore = [],
     cm_comments = [], cm_offsets = \<lambda>_. (0, 0), cm_fault = False\<rparr>"

definition containsNewLine :: "Location \<Rightarrow> Location \<Rightarrow> bool" where
  "containsNewLine from to \<longleftrightarrow> (\<exists>c \<in> set (take (length from - length to) from). c = LF \<or> c = CR)"

text \<open>\<open>Value::setComment\<close>: a text has to be empty or to start with a slash.\<close>

definition setComment :: "node \<Rightarrow> string \<Rightarrow> CommentPlacement \<Rightarrow> Collected \<Rightarrow> Collected" where
  "setComment node text placement C =
     (let comment = c_str text
      in if comment = [] \<or> hd comment = CHR ''/''
         then C\<lparr>cm_comments := ((node, placement), comment) # filter (\<lambda>e. fst e \<noteq> (node, placement)) (cm_comments C)\<rparr>
         else C\<lparr>cm_fault := True\<rparr>)"

definition hasComment :: "Collected \<Rightarrow> node \<Rightarrow> CommentPlacement \<Rightarrow> bool" where
  "hasComment C node placement \<longleftrightarrow> map_of (cm_comments C) (node, placement) \<noteq> None"

definition getComment :: "Collected \<Rightarrow> node \<Rightarrow> CommentPlacement \<Rightarrow> string" where
  "getComment C node placement = (case map_of (cm_comments C) (node, placement) of None \<Rightarrow> [] | Some s \<Rightarrow> s)"

definition addComment :: "Location \<Rightarrow> Location \<Rightarrow> CommentPlacement \<Rightarrow> Collected \<Rightarrow> Collected" where
  "addComment from to placement C =
     (let text = take (length from - length to) from
      in if placement = commentAfterOnSameLine
         then (case cm_lastValue C of
                 None \<Rightarrow> C\<lparr>cm_fault := True\<rparr>
               | Some node \<Rightarrow>
                   if cm_lastValue_gone C then C\<lparr>cm_fault := True\<rparr> else setComment node text placement C)
         else C\<lparr>cm_commentsBefore := cm_commentsBefore C @ text\<rparr>)"

text \<open>
  What \<open>readComment\<close> does with a comment it has read; a token that is no comment adds nothing. The
  second character of the token is the \<open>c\<close> of the code.
\<close>

definition collect :: "Token \<Rightarrow> Collected \<Rightarrow> Collected" where
  "collect t C =
     (if cm_collect C \<and> tok_type t = tokenComment
      then
        let commentBegin = tok_start t;
            c = deref (tl commentBegin);
            placement =
              (case cm_lastValueEnd C of
                 None \<Rightarrow> commentBefore
               | Some lastValueEnd \<Rightarrow>
                   if \<not> containsNewLine lastValueEnd commentBegin
                      \<and> (c \<noteq> CHR ''*'' \<or> \<not> containsNewLine commentBegin (tok_end t))
                   then commentAfterOnSameLine else commentBefore)
        in addComment commentBegin (tok_end t) placement C
      else C)"

text \<open>The loops that read tokens, for what they collect.\<close>

function collect_comments :: "Location \<Rightarrow> Collected \<Rightarrow> Collected" where
  "collect_comments cs C =
     (if tok_type (readToken cs) = tokenComment
      then collect_comments (tok_end (readToken cs)) (collect (readToken cs) C)
      else collect (readToken cs) C)"
  by pat_completeness auto
termination by (relation "measure (length \<circ> fst)") (auto intro: readToken_progress)

declare collect_comments.simps [simp del]

definition collect_skipped :: "Features \<Rightarrow> Location \<Rightarrow> Collected \<Rightarrow> Collected" where
  "collect_skipped F cs C = (if allowComments F then collect_comments cs C else collect (readToken cs) C)"

function collect_until :: "TokenType \<Rightarrow> Location \<Rightarrow> Collected \<Rightarrow> Collected" where
  "collect_until ty cs C =
     (if tok_type (readToken cs) = ty \<or> tok_type (readToken cs) = tokenEndOfStream
      then collect (readToken cs) C
      else collect_until ty (tok_end (readToken cs)) (collect (readToken cs) C))"
  by pat_completeness auto
termination by (relation "measure (length \<circ> fst \<circ> snd)") (auto intro: readToken_progress)

declare collect_until.simps [simp del]

text \<open>The comments before a value, without the line ends behind them, go to the value.\<close>

definition strip_newlines :: "string \<Rightarrow> string" where
  "strip_newlines s = rev (dropWhile (\<lambda>c. c = CR \<or> c = LF) (rev s))"

definition comments_before :: "node \<Rightarrow> Collected \<Rightarrow> Collected" where
  "comments_before node C =
     (if cm_collect C \<and> cm_commentsBefore C \<noteq> []
      then (setComment node (strip_newlines (cm_commentsBefore C)) commentBefore C)\<lparr>cm_commentsBefore := []\<rparr>
      else C)"

text \<open>
  An assignment to \<open>currentValue()\<close>: what was below the node is destroyed, the offsets are swapped with
  the content, the comments are not.
\<close>

definition is_below :: "node \<Rightarrow> node \<Rightarrow> bool" where
  "is_below node n \<longleftrightarrow> length node < length n \<and> take (length node) n = node"

definition assign :: "node \<Rightarrow> Collected \<Rightarrow> Collected" where
  "assign node C =
     C\<lparr>cm_comments := filter (\<lambda>e. \<not> is_below node (fst (fst e))) (cm_comments C),
       cm_offsets := (\<lambda>n. if n = node \<or> is_below node n then (0, 0) else cm_offsets C n),
       cm_lastValue_gone := (cm_lastValue_gone C \<or> (\<exists>l \<in> set_option (cm_lastValue C). is_below node l))\<rparr>"

definition offset_at :: "Collected \<Rightarrow> Location \<Rightarrow> u64" where
  "offset_at C l = of_nat (length (cm_begin C)) - of_nat (length l)"

definition setOffsetStart :: "node \<Rightarrow> u64 \<Rightarrow> Collected \<Rightarrow> Collected" where
  "setOffsetStart node start C = C\<lparr>cm_offsets := (cm_offsets C)(node := (start, snd (cm_offsets C node)))\<rparr>"

definition setOffsetLimit :: "node \<Rightarrow> u64 \<Rightarrow> Collected \<Rightarrow> Collected" where
  "setOffsetLimit node limit C = C\<lparr>cm_offsets := (cm_offsets C)(node := (fst (cm_offsets C node), limit))\<rparr>"

definition set_offsets :: "node \<Rightarrow> Token \<Rightarrow> Collected \<Rightarrow> Collected" where
  "set_offsets node t C = setOffsetLimit node (offset_at C (tok_end t)) (setOffsetStart node (offset_at C (tok_start t)) C)"

definition value_read :: "node \<Rightarrow> Reader \<Rightarrow> Collected \<Rightarrow> Collected" where
  "value_read node R C =
     (if cm_collect C
      then C\<lparr>cm_lastValueEnd := Some (rd_current R), cm_lastValue := Some node, cm_lastValue_gone := False\<rparr>
      else C)"

section \<open>The reader\<close>

text \<open>
  The bodies of \<open>readValue\<close>, \<open>readObject\<close> and \<open>readArray\<close> as in \<open>JsonReader\<close>, with what is collected passed
  along; \<open>node\<close> is \<open>currentValue()\<close>.
\<close>

type_synonym collecting_result = "((bool \<times> Value \<times> Reader) \<times> Collected) option"

definition with_result :: "parse_result \<Rightarrow> Collected \<Rightarrow> collecting_result" where
  "with_result r C = map_option (\<lambda>x. (x, C)) r"

definition finish_value :: "node \<Rightarrow> bool \<Rightarrow> collecting_result \<Rightarrow> collecting_result" where
  "finish_value node limit r =
     (case r of
        None \<Rightarrow> None
      | Some ((ok, v, R), C) \<Rightarrow>
          Some ((ok, v, R), value_read node R
            (if limit then setOffsetLimit node (offset_at C (rd_current R)) C else C)))"

definition collected_token :: "node \<Rightarrow> Token \<Rightarrow> parse_result \<Rightarrow> Collected \<Rightarrow> collecting_result" where
  "collected_token node t r C =
     finish_value node False (with_result r
       (case r of Some (True, _, _) \<Rightarrow> set_offsets node t (assign node C) | _ \<Rightarrow> C))"

definition collect_recover :: "TokenType \<Rightarrow> Reader \<Rightarrow> Collected \<Rightarrow> Collected" where
  "collect_recover ty R C = collect_until ty (rd_current R) C"

definition c_readValue_body ::
  "(Reader \<Rightarrow> Collected \<Rightarrow> collecting_result) \<Rightarrow> (Reader \<Rightarrow> Collected \<Rightarrow> collecting_result)
    \<Rightarrow> clib \<Rightarrow> Features \<Rightarrow> node \<Rightarrow> Reader \<Rightarrow> Collected \<Rightarrow> Value \<Rightarrow> collecting_result" where
  "c_readValue_body read_object read_array L F node R0 C0 cur =
     (let t = skipCommentTokens F (rd_current R0);
          C = comments_before node (collect_skipped F (rd_current R0) C0);
          R = R0\<lparr>rd_current := tok_end t\<rparr>;
          begun = setOffsetStart node (offset_at C (tok_start t)) (assign node C);
          syntax_error = with_result (Some (False, cur,
            addError ''Syntax error: value, object or array expected.'' t None R)) (set_offsets node t C)
      in case tok_type t of
           tokenObjectBegin \<Rightarrow> finish_value node True (read_object R begun)
         | tokenArrayBegin \<Rightarrow> finish_value node True (read_array R begun)
         | tokenNumber \<Rightarrow> collected_token node t (decoded_value R t cur (decodeNumber L t)) C
         | tokenString \<Rightarrow>
             collected_token node t (decoded_value R t cur (map_sum (\<lambda>e. e) Value_of_string (decodeString t))) C
         | tokenTrue \<Rightarrow> collected_token node t (Some (True, booleanValue True, R)) C
         | tokenFalse \<Rightarrow> collected_token node t (Some (True, booleanValue False, R)) C
         | tokenNull \<Rightarrow> collected_token node t (Some (True, nullValue, R)) C
         | tokenArraySeparator \<Rightarrow>
             if allowDroppedNullPlaceholders F
             then
               let R' = R\<lparr>rd_current := CHR '','' # rd_current R\<rparr>
               in finish_value node True (with_result (Some (True, nullValue, R'))
                    (setOffsetStart node (offset_at C (rd_current R') - 1) (assign node C)))
             else syntax_error
         | _ \<Rightarrow> syntax_error)"

definition c_readObject_comma ::
  "(Reader \<Rightarrow> Collected \<Rightarrow> collecting_result) \<Rightarrow> Value \<Rightarrow> Reader \<Rightarrow> Collected \<Rightarrow> collecting_result" where
  "c_readObject_comma read_more object R3 C3 =
     (let comma0 = readToken (rd_current R3);
          C4 = collect comma0 C3;
          R4 = R3\<lparr>rd_current := tok_end comma0\<rparr>
      in if tok_type comma0 \<noteq> tokenObjectEnd \<and> tok_type comma0 \<noteq> tokenArraySeparator
            \<and> tok_type comma0 \<noteq> tokenComment
         then with_result (Some (False, object,
           addErrorAndRecover ''Missing ',' or '}' in object declaration'' comma0 tokenObjectEnd R4))
           (collect_recover tokenObjectEnd R4 C4)
         else
           let comma = (if tok_type comma0 = tokenComment then skip_comments (rd_current R4) else comma0);
               C5 = (if tok_type comma0 = tokenComment then collect_comments (rd_current R4) C4 else C4);
               R5 = R4\<lparr>rd_current := tok_end comma\<rparr>
           in if tok_type comma = tokenObjectEnd then with_result (Some (True, object, R5)) C5
              else read_more R5 C5)"

definition c_readObject_body ::
  "(node \<Rightarrow> Reader \<Rightarrow> Collected \<Rightarrow> Value \<Rightarrow> collecting_result)
    \<Rightarrow> (string \<Rightarrow> Reader \<Rightarrow> Collected \<Rightarrow> (string, Value) omap \<Rightarrow> collecting_result)
    \<Rightarrow> clib \<Rightarrow> Features \<Rightarrow> node \<Rightarrow> string \<Rightarrow> Reader \<Rightarrow> Collected \<Rightarrow> (string, Value) omap \<Rightarrow> collecting_result" where
  "c_readObject_body read_value read_more L F node name R C members =
     (let tokenName = skip_comments (rd_current R);
          C1 = collect_comments (rd_current R) C;
          R1 = R\<lparr>rd_current := tok_end tokenName\<rparr>
      in if tok_type tokenName = tokenObjectEnd \<and> name = [] then with_result (Some (True, objectValue members, R1)) C1
         else (case member_name L F tokenName of
           None \<Rightarrow> with_result (Some (False, objectValue members,
             addErrorAndRecover ''Missing '}' or object member name'' tokenName tokenObjectEnd R1))
             (collect_recover tokenObjectEnd R1 C1)
         | Some (Inl e) \<Rightarrow> with_result (Some (False, objectValue members,
             recoverFromError tokenObjectEnd (addError (fst e) tokenName (snd e) R1)))
             (collect_recover tokenObjectEnd R1 C1)
         | Some (Inr name') \<Rightarrow>
             (let colon = readToken (rd_current R1);
                  C2 = collect colon C1;
                  R2 = R1\<lparr>rd_current := tok_end colon\<rparr>
              in if tok_type colon \<noteq> tokenMemberSeparator
                 then with_result (Some (False, objectValue members,
                   addErrorAndRecover ''Missing ':' after object member name'' colon tokenObjectEnd R2))
                   (collect_recover tokenObjectEnd R2 C2)
                 else
                   let key = c_str name';
                       old = (case omap_find members key of None \<Rightarrow> nullValue | Some v \<Rightarrow> v)
                   in (case read_value (node @ [Inl key]) R2 C2 old of
                         None \<Rightarrow> None
                       | Some ((ok, v, R3), C3) \<Rightarrow>
                           if \<not> ok then with_result (Some (False, objectValue (omap_put key v members),
                             recoverFromError tokenObjectEnd R3)) (collect_recover tokenObjectEnd R3 C3)
                           else c_readObject_comma
                             (\<lambda>R5 C5. read_more name' R5 C5 (omap_put key v members))
                             (objectValue (omap_put key v members)) R3 C3))))"

definition c_readArray_body ::
  "(node \<Rightarrow> Reader \<Rightarrow> Collected \<Rightarrow> Value \<Rightarrow> collecting_result)
    \<Rightarrow> (nat \<Rightarrow> Reader \<Rightarrow> Collected \<Rightarrow> (nat, Value) omap \<Rightarrow> collecting_result)
    \<Rightarrow> node \<Rightarrow> nat \<Rightarrow> Reader \<Rightarrow> Collected \<Rightarrow> (nat, Value) omap \<Rightarrow> collecting_result" where
  "c_readArray_body read_value read_more node index R C items =
     (case read_value (node @ [Inr index]) R C (case omap_find items index of None \<Rightarrow> nullValue | Some v \<Rightarrow> v) of
        None \<Rightarrow> None
      | Some ((ok, v, R1), C1) \<Rightarrow>
          (let items' = omap_put index v items;
               token = skip_comments (rd_current R1);
               C2 = collect_comments (rd_current R1) C1;
               R2 = R1\<lparr>rd_current := tok_end token\<rparr>
           in if \<not> ok then with_result (Some (False, arrayValue items', recoverFromError tokenArrayEnd R1))
                (collect_recover tokenArrayEnd R1 C1)
              else if tok_type token \<noteq> tokenArraySeparator \<and> tok_type token \<noteq> tokenArrayEnd
              then with_result (Some (False, arrayValue items',
                addErrorAndRecover ''Missing ',' or ']' in array declaration'' token tokenArrayEnd R2))
                (collect_recover tokenArrayEnd R2 C2)
              else if tok_type token = tokenArrayEnd then with_result (Some (True, arrayValue items', R2)) C2
              else read_more (Suc index) R2 C2 items'))"

definition c_readArray_begin ::
  "(Reader \<Rightarrow> Collected \<Rightarrow> collecting_result) \<Rightarrow> Reader \<Rightarrow> Collected \<Rightarrow> collecting_result" where
  "c_readArray_begin read_items R C =
     (let R1 = R\<lparr>rd_current := skipSpaces (rd_current R)\<rparr>
      in if deref (rd_current R1) = CHR '']''
         then with_result (Some (True, arrayValue [], R1\<lparr>rd_current := tok_end (readToken (rd_current R1))\<rparr>))
                (collect (readToken (rd_current R1)) C)
         else read_items R1 C)"

function c_readValue :: "nat \<Rightarrow> clib \<Rightarrow> Features \<Rightarrow> node \<Rightarrow> Reader \<Rightarrow> Collected \<Rightarrow> Value \<Rightarrow> collecting_result"
  and c_readObject :: "nat \<Rightarrow> clib \<Rightarrow> Features \<Rightarrow> node \<Rightarrow> string \<Rightarrow> Reader \<Rightarrow> Collected \<Rightarrow> (string, Value) omap
    \<Rightarrow> collecting_result"
  and c_readArray :: "nat \<Rightarrow> clib \<Rightarrow> Features \<Rightarrow> node \<Rightarrow> nat \<Rightarrow> Reader \<Rightarrow> Collected \<Rightarrow> (nat, Value) omap
    \<Rightarrow> collecting_result" where
  "c_readValue 0 L F node R C cur = None"
| "c_readObject 0 L F node name R C members = None"
| "c_readArray 0 L F node index R C items = None"
| "c_readValue (Suc n) L F node R C cur =
     c_readValue_body (\<lambda>R C. c_readObject n L F node [] R C [])
       (c_readArray_begin (\<lambda>R C. c_readArray n L F node 0 R C [])) L F node R C cur"
| "c_readObject (Suc n) L F node name R C members =
     c_readObject_body (c_readValue n L F) (c_readObject n L F node) L F node name R C members"
| "c_readArray (Suc n) L F node index R C items =
     c_readArray_body (c_readValue n L F) (c_readArray n L F node) node index R C items"
  by pat_completeness auto
termination
  by (relation "measure (case_sum fst (case_sum fst fst))") simp_all

declare c_readValue.simps [simp del] c_readObject.simps [simp del] c_readArray.simps [simp del]

text \<open>\<open>parse\<close>: comments are collected only where they are allowed.\<close>

definition Reader_parse_collecting ::
  "clib \<Rightarrow> Features \<Rightarrow> string \<Rightarrow> Value \<Rightarrow> bool \<Rightarrow> ((bool \<times> Value \<times> ErrorInfo list) \<times> Collected) option" where
  "Reader_parse_collecting L F document root collectComments =
     (case c_readValue (parse_fuel document) L F [] \<lparr>rd_current = document, rd_errors = []\<rparr>
             (new_Collected document (collectComments \<and> allowComments F)) root of
        None \<Rightarrow> None
      | Some ((successful, v, R), C) \<Rightarrow>
          (let C1 = collect_skipped F (rd_current R) C;
               C2 = (if cm_collect C1 \<and> cm_commentsBefore C1 \<noteq> []
                     then setComment [] (cm_commentsBefore C1) commentAfter C1 else C1)
           in Some (if strictRoot F \<and> \<not> isArray v \<and> \<not> isObject v
              then (False, v, rd_errors (addError
                ''A valid JSON document must be either an array or an object value.''
                \<lparr>tok_type = tokenError, tok_start = document, tok_end = []\<rparr> None R))
              else (successful, v, rd_errors R), C2)))"

section \<open>Collecting changes nothing that is read\<close>

abbreviation plain_result :: "collecting_result \<Rightarrow> parse_result" where
  "plain_result r \<equiv> map_option fst r"

lemma plain_with_result [simp]: "plain_result (with_result r C) = r"
  by (cases r) (simp_all add: with_result_def)

lemma plain_finish [simp]: "plain_result (finish_value node limit r) = plain_result r"
  by (cases r) (auto simp: finish_value_def split: prod.split)

lemma plain_token [simp]: "plain_result (collected_token node t r C) = r"
  by (simp add: collected_token_def)

lemma readValue_body_plain:
  assumes "\<And>R C. plain_result (co R C) = ro R" "\<And>R C. plain_result (ca R C) = ra R"
  shows "plain_result (c_readValue_body co ca L F node R C cur) = readValue_body ro ra L F R cur"
  using assms by (cases "tok_type (skipCommentTokens F (rd_current R))")
    (simp_all add: c_readValue_body_def readValue_body_def Let_def)

lemma readObject_comma_plain:
  assumes "\<And>R C. plain_result (co R C) = ro R"
  shows "plain_result (c_readObject_comma co obj R C) = readObject_comma ro obj R"
  using assms by (simp add: c_readObject_comma_def readObject_comma_def Let_def)

lemma readObject_body_plain:
  assumes rv: "\<And>m R C v. plain_result (cv m R C v) = rv R v"
    and ro: "\<And>k R C m. plain_result (co k R C m) = ro k R m"
  shows "plain_result (c_readObject_body cv co L F node name R C members) = readObject_body rv ro L F name R members"
proof -
  have v: "plain_result (case cv m R' C' old of
        None \<Rightarrow> None
      | Some ((ok, v, R3), C3) \<Rightarrow> if \<not> ok then with_result (f v R3) (g R3 C3)
          else c_readObject_comma (\<lambda>R5 C5. co k R5 C5 (h v)) (obj v) R3 C3)
    = (case rv R' old of
        None \<Rightarrow> None
      | Some (ok, v, R3) \<Rightarrow> if \<not> ok then f v R3 else readObject_comma (\<lambda>R5. ro k R5 (h v)) (obj v) R3)"
    for m R' C' old f g k h obj
  proof (cases "cv m R' C' old")
    case None
    with rv [of m R' C' old, symmetric] show ?thesis by simp
  next
    case (Some r)
    obtain ok v R3 C3 where r: "r = ((ok, v, R3), C3)" by (metis prod.collapse)
    have "plain_result (c_readObject_comma (\<lambda>R5 C5. co k R5 C5 (h v)) (obj v) R3 C3)
        = readObject_comma (\<lambda>R5. ro k R5 (h v)) (obj v) R3"
      by (rule readObject_comma_plain) (rule ro)
    with Some r rv [of m R' C' old, symmetric] show ?thesis by simp
  qed
  show ?thesis unfolding c_readObject_body_def readObject_body_def Let_def
    by (simp add: v split: option.split sum.split)
qed

lemma readArray_body_plain:
  assumes rv: "\<And>m R C v. plain_result (cv m R C v) = rv R v"
    and ra: "\<And>i R C m. plain_result (ca i R C m) = ra i R m"
  shows "plain_result (c_readArray_body cv ca node index R C items) = readArray_body rv ra index R items"
proof (cases "cv (node @ [Inr index]) R C (case omap_find items index of None \<Rightarrow> nullValue | Some v \<Rightarrow> v)")
  case None
  with rv [symmetric, of R _ "node @ [Inr index]" C] show ?thesis
    by (simp add: c_readArray_body_def readArray_body_def)
next
  case (Some r)
  obtain ok v R1 C1 where r: "r = ((ok, v, R1), C1)" by (metis prod.collapse)
  from Some r rv [of "node @ [Inr index]" R C] have
    "rv R (case omap_find items index of None \<Rightarrow> nullValue | Some v \<Rightarrow> v) = Some (ok, v, R1)" by (metis fst_conv option.map(2))
  with Some r ra show ?thesis
    by (simp add: c_readArray_body_def readArray_body_def Let_def)
qed

lemma readArray_begin_plain:
  assumes "\<And>R C. plain_result (ca R C) = ra R"
  shows "plain_result (c_readArray_begin ca R C) = readArray_begin ra R"
  using assms by (simp add: c_readArray_begin_def readArray_begin_def Let_def)

lemma reader_plain:
  "plain_result (c_readValue n L F node R C cur) = readValue n L F R cur"
  "plain_result (c_readObject n L F node name R C members) = readObject n L F name R members"
  "plain_result (c_readArray n L F node index R C items) = readArray n L F index R items"
proof (induction n arbitrary: node R C cur name members index items)
  case (Suc n)
  {
    case 1
    show ?case unfolding c_readValue.simps readValue.simps
      using Suc.IH by (intro readValue_body_plain readArray_begin_plain)
  next
    case 2
    show ?case unfolding c_readObject.simps readObject.simps
      using Suc.IH by (intro readObject_body_plain)
  next
    case 3
    show ?case unfolding c_readArray.simps readArray.simps
      using Suc.IH by (intro readArray_body_plain)
  }
qed (simp_all add: c_readValue.simps(1) c_readObject.simps(1) c_readArray.simps(1)
    readValue.simps(1) readObject.simps(1) readArray.simps(1))

lemma parse_plain:
  "map_option fst (Reader_parse_collecting L F document root c) = Reader_parse L F document root"
proof -
  let ?r = "c_readValue (parse_fuel document) L F [] \<lparr>rd_current = document, rd_errors = []\<rparr>
             (new_Collected document (c \<and> allowComments F)) root"
  have "plain_result ?r = readValue (parse_fuel document) L F \<lparr>rd_current = document, rd_errors = []\<rparr> root"
    by (rule reader_plain)
  then show ?thesis
    by (cases ?r) (auto simp: Reader_parse_collecting_def Reader_parse_def Let_def simp flip: \<open>plain_result ?r = _\<close>
        split: prod.split)
qed

section \<open>No fault\<close>

definition starts_comment :: "string \<Rightarrow> bool" where
  "starts_comment s \<longleftrightarrow> s = [] \<or> hd s = CHR ''/''"

text \<open>With \<open>b\<close>, the offsets of every value lie in the document \<open>D\<close>.\<close>

definition sound :: "bool \<Rightarrow> string \<Rightarrow> Collected \<Rightarrow> bool" where
  "sound b D C \<longleftrightarrow> cm_begin C = D
     \<and> (b \<longrightarrow> (\<forall>n. fst (cm_offsets C n) \<le> of_nat (length D) \<and> snd (cm_offsets C n) \<le> of_nat (length D)))
     \<and> \<not> cm_fault C \<and> \<not> cm_lastValue_gone C \<and> (cm_lastValueEnd C \<noteq> None \<longrightarrow> cm_lastValue C \<noteq> None)
     \<and> (\<not> cm_collect C \<longrightarrow> cm_lastValue C = None) \<and> starts_comment (cm_commentsBefore C)"

text \<open>A step that only collects: it keeps the last value and what is sound.\<close>

definition keeps :: "bool \<Rightarrow> string \<Rightarrow> Collected \<Rightarrow> Collected \<Rightarrow> bool" where
  "keeps b D C C' \<longleftrightarrow> (sound b D C \<longrightarrow> sound b D C') \<and> cm_lastValue C' = cm_lastValue C"

lemma keeps_refl [simp, intro]: "keeps b D C C"
  by (simp add: keeps_def)

lemma keeps_trans [trans]: "keeps b D A B \<Longrightarrow> keeps b D B C \<Longrightarrow> keeps b D A C"
  by (simp add: keeps_def)

lemma starts_c_str: "starts_comment s \<Longrightarrow> starts_comment (c_str s)"
  by (cases s) (auto simp: starts_comment_def c_str_def)

lemma starts_append: "starts_comment s \<Longrightarrow> starts_comment t \<Longrightarrow> starts_comment (s @ t)"
  by (cases s) (auto simp: starts_comment_def)

lemma starts_strip: "starts_comment s \<Longrightarrow> starts_comment (strip_newlines s)"
  by (cases s) (auto simp: starts_comment_def strip_newlines_def dropWhile_append)

lemma keeps_setComment: "starts_comment s \<Longrightarrow> keeps b D C (setComment node s p C)"
  using starts_c_str [of s] by (auto simp: keeps_def sound_def setComment_def starts_comment_def Let_def)

lemma keeps_addComment:
  assumes "starts_comment (take (length l - length e) l)" "p = commentAfterOnSameLine \<Longrightarrow> cm_lastValue C \<noteq> None"
  shows "keeps b D C (addComment l e p C)"
proof (cases "p = commentAfterOnSameLine")
  case True
  then obtain n where "cm_lastValue C = Some n" using assms(2) by auto
  then have "addComment l e p C = (if cm_lastValue_gone C then C\<lparr>cm_fault := True\<rparr>
      else setComment n (take (length l - length e) l) p C)"
    using True by (simp add: addComment_def Let_def)
  then show ?thesis using keeps_setComment [OF assms(1), of b D C n p]
    by (simp add: keeps_def) (auto simp: sound_def)
next
  case False
  then show ?thesis using starts_append assms(1) by (auto simp: addComment_def Let_def keeps_def sound_def)
qed

lemma token_switch_comment: "c \<noteq> CHR ''/'' \<Longrightarrow> fst (token_switch c cs) \<noteq> tokenComment"
  unfolding token_switch_def by (simp only: if_False) (intro fst_if_neq, simp_all)

lemma comment_token_text:
  assumes "tok_type (readToken cs) = tokenComment"
  shows "starts_comment (take (length (tok_start (readToken cs)) - length (tok_end (readToken cs))) (tok_start (readToken cs)))"
proof (cases "skipSpaces cs")
  case Nil
  with assms show ?thesis by (simp add: readToken_Nil)
next
  case (Cons c rest)
  have "c = CHR ''/''"
    using assms Cons token_switch_comment [of c rest]
    by (cases "c = CHR ''/''") (auto simp: readToken_def Let_def getNextChar_def case_prod_unfold split: if_split_asm)
  moreover have "tok_start (readToken cs) = c # rest"
    using Cons by (simp add: readToken_def Let_def case_prod_unfold)
  ultimately show ?thesis
    by (cases "length (tok_start (readToken cs)) - length (tok_end (readToken cs))") (simp_all add: starts_comment_def)
qed

lemma keeps_collect: "sound b D C \<Longrightarrow> keeps b D C (collect (readToken cs) C)"
proof (cases "cm_collect C \<and> tok_type (readToken cs) = tokenComment")
  case True
  assume "sound b D C"
  with True comment_token_text [of cs] show ?thesis unfolding collect_def Let_def
    by (simp add: sound_def) (intro keeps_addComment; auto split: option.split_asm if_split_asm)
qed (auto simp: collect_def)

lemma keeps_collect_comments: "sound b D C \<Longrightarrow> keeps b D C (collect_comments cs C)"
proof (induction cs C rule: collect_comments.induct)
  case (1 cs C)
  have k: "keeps b D C (collect (readToken cs) C)" using 1(2) by (rule keeps_collect)
  then have "sound b D (collect (readToken cs) C)" using 1(2) by (simp add: keeps_def)
  with 1(1) k show ?case by (subst collect_comments.simps) (auto intro: keeps_trans)
qed

lemma keeps_collect_until: "sound b D C \<Longrightarrow> keeps b D C (collect_until ty cs C)"
proof (induction ty cs C rule: collect_until.induct)
  case (1 ty cs C)
  have k: "keeps b D C (collect (readToken cs) C)" using 1(2) by (rule keeps_collect)
  then have "sound b D (collect (readToken cs) C)" using 1(2) by (simp add: keeps_def)
  with 1(1) k show ?case by (subst collect_until.simps) (auto intro: keeps_trans)
qed

lemma keeps_collect_skipped: "sound b D C \<Longrightarrow> keeps b D C (collect_skipped F cs C)"
  by (simp add: collect_skipped_def keeps_collect keeps_collect_comments)

lemma keeps_recover: "sound b D C \<Longrightarrow> keeps b D C (collect_recover ty R C)"
  by (simp add: collect_recover_def keeps_collect_until)

lemma keeps_comments_before: "sound b D C \<Longrightarrow> keeps b D C (comments_before node C)"
  using keeps_setComment [OF starts_strip, of "cm_commentsBefore C" b D C node commentBefore]
  by (auto simp: comments_before_def keeps_def sound_def starts_comment_def)

lemma offset_at_in:
  assumes "sound b D C" "suffix l D" "length D < 2 ^ 64"
  shows "offset_at C l \<le> of_nat (length D)"
proof -
  have le: "length l \<le> length D" using assms(2) by (rule suffix_length_le)
  then have "offset_at C l = of_nat (length D - length l)"
    using assms(1) by (simp add: offset_at_def sound_def)
  moreover have u: "unat (of_nat k :: u64) = k" if "k \<le> length D" for k
    using that assms(3) by (simp add: unat_of_nat take_bit_eq_mod)
  ultimately show ?thesis
    unfolding word_le_nat_alt by (simp only: u [OF diff_le_self] u [OF le_refl] diff_le_self)
qed

lemma keeps_offsets:
  "(b \<Longrightarrow> s \<le> of_nat (length D)) \<Longrightarrow> keeps b D C (setOffsetStart node s C)"
  "(b \<Longrightarrow> s \<le> of_nat (length D)) \<Longrightarrow> keeps b D C (setOffsetLimit node s C)"
  by (auto simp: keeps_def sound_def setOffsetStart_def setOffsetLimit_def)

lemma offset_at_kept [simp]: "offset_at (setOffsetStart node s C) l = offset_at C l"
    "offset_at (assign node C) l = offset_at C l"
  by (simp_all add: offset_at_def setOffsetStart_def assign_def)

lemma keeps_set_offsets:
  assumes "sound b D C" "token_in D t" "length D < 2 ^ 64"
  shows "keeps b D C (set_offsets node t C)"
proof -
  have "offset_at C (tok_start t) \<le> of_nat (length D)" "offset_at C (tok_end t) \<le> of_nat (length D)"
    using assms offset_at_in token_in_end [OF assms(2)] by (auto simp: token_in_def)
  then show ?thesis unfolding set_offsets_def
    by (intro keeps_trans [OF keeps_offsets(1) keeps_offsets(2)])
qed

text \<open>Where the last value is: not below a node, or not below a child of it.\<close>

definition apart :: "node \<Rightarrow> Collected \<Rightarrow> bool" where
  "apart node C \<longleftrightarrow> (\<forall>l. cm_lastValue C = Some l \<longrightarrow> \<not> is_below node l)"

definition shallow :: "node \<Rightarrow> Collected \<Rightarrow> bool" where
  "shallow node C \<longleftrightarrow> (\<forall>step. apart (node @ [step]) C)"

lemma below_child: "is_below (node @ [k]) l \<Longrightarrow> is_below node l"
  by (auto simp: is_below_def take_Suc_conv_app_nth dest: arg_cong [of _ _ "take (length node)"])

lemma apart_shallow: "apart node C \<Longrightarrow> shallow node C"
  using below_child by (auto simp: apart_def shallow_def)

lemma child_apart: "\<not> is_below (node @ [k]) (node @ [j])"
  by (simp add: is_below_def)

lemma keeps_apart: "keeps b D C C' \<Longrightarrow> apart node C' = apart node C" "keeps b D C C' \<Longrightarrow> shallow node C' = shallow node C"
  by (simp_all add: keeps_def apart_def shallow_def)

lemma keeps_sound: "keeps b D C C' \<Longrightarrow> sound b D C \<Longrightarrow> sound b D C'"
  by (simp add: keeps_def)

lemma keeps_assign: "apart node C \<Longrightarrow> keeps b D C (assign node C)"
  by (auto simp: keeps_def sound_def assign_def apart_def)

text \<open>What a call leaves behind: a sound state, the last value in \<open>P\<close>.\<close>

definition fine :: "bool \<Rightarrow> string \<Rightarrow> (Collected \<Rightarrow> bool) \<Rightarrow> collecting_result \<Rightarrow> bool" where
  "fine b D P r \<longleftrightarrow> (\<forall>x C. r = Some (x, C) \<longrightarrow> sound b D C \<and> P C)"

lemma fine_with_result [simp]: "fine b D P (with_result r C) \<longleftrightarrow> r = None \<or> sound b D C \<and> P C"
  by (cases r) (auto simp: fine_def with_result_def)

lemma fine_None [simp]: "fine b D P None"
  by (simp add: fine_def)

lemma fine_if [simp]: "fine b D P (if c then x else y) \<longleftrightarrow> (if c then fine b D P x else fine b D P y)"
  by simp

text \<open>After \<open>readValue\<close> the last value is the one before, that node, or none.\<close>

definition moves_to :: "node \<Rightarrow> Collected \<Rightarrow> Collected \<Rightarrow> bool" where
  "moves_to node C C' \<longleftrightarrow> cm_lastValue C' \<in> {None, cm_lastValue C, Some node}"

lemma moves_shallow: "moves_to (node @ [k]) C C' \<Longrightarrow> shallow node C \<Longrightarrow> shallow node C'"
  using child_apart by (auto simp: moves_to_def shallow_def apart_def)

lemma shallow_child: "shallow node C \<Longrightarrow> apart (node @ [k]) C"
  by (simp add: shallow_def)

lemma value_read_sound:
  assumes "sound b D C"
  shows "sound b D (value_read node R C)" "moves_to node C0 (value_read node R C)"
proof -
  show "sound b D (value_read node R C)"
    using assms by (cases "cm_collect C") (auto simp: value_read_def sound_def)
  show "moves_to node C0 (value_read node R C)"
    using assms by (cases "cm_collect C") (simp_all add: value_read_def sound_def moves_to_def)
qed

lemma fine_finish:
  assumes "fine b D P r" "length D < 2 ^ 64"
    and "\<And>ok v R C. r = Some ((ok, v, R), C) \<Longrightarrow> limit \<Longrightarrow> suffix (rd_current R) D"
  shows "fine b D (moves_to node C0) (finish_value node limit r)"
proof (cases r)
  case None
  then show ?thesis by (simp add: finish_value_def)
next
  case (Some x)
  obtain ok v R C where x: "x = ((ok, v, R), C)" by (metis prod.collapse)
  have s: "sound b D C" using assms(1) Some x by (simp add: fine_def)
  have "sound b D (if limit then setOffsetLimit node (offset_at C (rd_current R)) C else C)"
  proof (cases limit)
    case True
    have "keeps b D C (setOffsetLimit node (offset_at C (rd_current R)) C)"
      using assms(3) [of ok v R C] Some x True by (intro keeps_offsets(2) offset_at_in [OF s _ assms(2)]) simp
    with s True show ?thesis by (simp add: keeps_def)
  qed (simp add: s)
  with value_read_sound show ?thesis by (simp add: finish_value_def Some x fine_def)
qed

lemma keepsD: "keeps b D C C' \<Longrightarrow> sound b D C \<Longrightarrow> P (cm_lastValue C) \<Longrightarrow> sound b D C' \<and> P (cm_lastValue C')"
  by (simp add: keeps_def)

lemma keeps_shallow: "keeps b D C C' \<Longrightarrow> sound b D C \<Longrightarrow> shallow node C \<Longrightarrow> sound b D C' \<and> shallow node C'"
  by (simp add: keeps_def shallow_def apart_def)

lemma keeps_moves: "keeps b D C0 C \<Longrightarrow> moves_to node C C' \<Longrightarrow> moves_to node C0 C'"
  by (simp add: keeps_def moves_to_def)

lemma token_fine:
  assumes "sound b D C" "apart node C" "token_in D t" "length D < 2 ^ 64" "keeps b D C0 C"
  shows "fine b D (moves_to node C0) (collected_token node t r C)"
proof -
  have "sound b D (assign node C)" using keeps_sound [OF keeps_assign [OF assms(2)] assms(1)] .
  with keeps_sound [OF keeps_set_offsets] assms(3,4) have "sound b D (set_offsets node t (assign node C))" by blast
  with assms(1) have "fine b D (\<lambda>_. True) (with_result r
      (case r of Some (True, _, _) \<Rightarrow> set_offsets node t (assign node C) | _ \<Rightarrow> C))"
    by (auto split: option.split prod.split bool.split)
  then show ?thesis unfolding collected_token_def by (rule fine_finish [OF _ assms(4)]) simp
qed

lemma readValue_body_fine:
  assumes R: "within D R" and C: "sound b D C" "apart node C" and D: "length D < 2 ^ 64"
    and b: "b \<longrightarrow> \<not> allowDroppedNullPlaceholders F"
    and co: "\<And>R C. within D R \<Longrightarrow> sound b D C \<Longrightarrow> shallow node C \<Longrightarrow>
      fine b D (shallow node) (co R C) \<and> stays D (plain_result (co R C))"
    and ca: "\<And>R C. within D R \<Longrightarrow> sound b D C \<Longrightarrow> shallow node C \<Longrightarrow>
      fine b D (shallow node) (ca R C) \<and> stays D (plain_result (ca R C))"
  shows "fine b D (moves_to node C) (c_readValue_body co ca L F node R C cur)"
proof -
  let ?t = "skipCommentTokens F (rd_current R)"
  let ?R = "R\<lparr>rd_current := tok_end ?t\<rparr>"
  let ?C = "comments_before node (collect_skipped F (rd_current R) C)"
  have k1: "keeps b D C (collect_skipped F (rd_current R) C)" using C(1) by (rule keeps_collect_skipped)
  then have "keeps b D (collect_skipped F (rd_current R) C) ?C"
    using keeps_sound C(1) by (intro keeps_comments_before) blast
  with k1 have k: "keeps b D C ?C" by (rule keeps_trans)
  have s: "sound b D ?C" "apart node ?C" using keeps_sound [OF k C(1)] keeps_apart(1) [OF k, of node] C(2) by simp_all
  have t: "token_in D ?t" using R by (intro within_intros)
  have R1: "within D ?R" using R t by (intro within_move token_in_end)
  have a: "keeps b D ?C (assign node ?C)" using s(2) by (rule keeps_assign)
  have sa: "sound b D (assign node ?C)" using keeps_sound [OF a s(1)] .
  let ?begun = "setOffsetStart node (offset_at ?C (tok_start ?t)) (assign node ?C)"
  have "offset_at ?C (tok_start ?t) \<le> of_nat (length D)"
    using t by (intro offset_at_in [OF s(1) _ D]) (simp add: token_in_def)
  then have kb: "keeps b D (assign node ?C) ?begun" by (intro keeps_offsets(1))
  have begun: "sound b D ?begun" "shallow node ?begun"
    using keeps_sound [OF kb sa] keeps_apart(1) [OF keeps_trans [OF a kb], of node] s(2) apart_shallow by blast+
  have finish: "fine b D (moves_to node C) (finish_value node True r)"
    if "fine b D (shallow node) r \<and> stays D (plain_result r)" for r
    using that by (intro fine_finish [where P = "shallow node"] D) (auto simp: within_current)
  have token: "fine b D (moves_to node C) (collected_token node ?t r ?C)" for r
    by (rule token_fine [OF s t D k])
  have "keeps b D ?C (set_offsets node ?t ?C)" using s(1) t D by (rule keeps_set_offsets)
  then have err: "sound b D (set_offsets node ?t ?C) \<and> moves_to node C (set_offsets node ?t ?C)"
    using s(1) k by (simp add: keeps_def moves_to_def)
  have dropped: "fine b D (moves_to node C) (finish_value node True (with_result
      (Some (True, nullValue, ?R\<lparr>rd_current := CHR '','' # rd_current ?R\<rparr>))
      (setOffsetStart node x (assign node ?C))))"
    if "tok_type ?t = tokenArraySeparator" "allowDroppedNullPlaceholders F" for x
  proof (intro fine_finish [where P = "\<lambda>_. True"] D)
    show "fine b D (\<lambda>_. True) (with_result (Some (True, nullValue, ?R\<lparr>rd_current := CHR '','' # rd_current ?R\<rparr>))
        (setOffsetStart node x (assign node ?C)))"
      using sa b that(2) by (simp add: sound_def setOffsetStart_def)
    fix ok v R' C' assume "with_result (Some (True, nullValue, ?R\<lparr>rd_current := CHR '','' # rd_current ?R\<rparr>))
        (setOffsetStart node x (assign node ?C)) = Some ((ok, v, R'), C')"
    then show "suffix (rd_current R') D"
      using separator_comment_token [OF that(1)] t by (auto simp: with_result_def token_in_def)
  qed
  show ?thesis
    using finish [OF co [OF R1 begun]] finish [OF ca [OF R1 begun]] token err dropped
    by (cases "tok_type ?t") (simp_all add: c_readValue_body_def Let_def)
qed

abbreviation loop_ok :: "bool \<Rightarrow> string \<Rightarrow> node \<Rightarrow> collecting_result \<Rightarrow> bool" where
  "loop_ok b D node r \<equiv> fine b D (shallow node) r"

abbreviation ready :: "bool \<Rightarrow> string \<Rightarrow> node \<Rightarrow> Collected \<Rightarrow> bool" where
  "ready b D node C \<equiv> sound b D C \<and> shallow node C"

lemma ready_steps:
  assumes "ready b D node C"
  shows "ready b D node (collect (readToken cs) C)" "ready b D node (collect_comments cs C)"
    "ready b D node (collect_recover ty R C)"
  using assms keeps_shallow keeps_collect keeps_collect_comments keeps_recover by blast+

lemma readArray_begin_fine:
  assumes "within D R" "ready b D node C"
    and "\<And>R C. within D R \<Longrightarrow> ready b D node C \<Longrightarrow> loop_ok b D node (ca R C)"
  shows "loop_ok b D node (c_readArray_begin ca R C)"
proof -
  have "suffix (skipSpaces (rd_current R)) D"
    using suffix_skipSpaces assms(1) [THEN within_current] by (rule suffix_order.trans)
  then have "within D (R\<lparr>rd_current := skipSpaces (rd_current R)\<rparr>)" using assms(1) by (intro within_move)
  with assms ready_steps(1) [OF assms(2)] show ?thesis by (simp add: c_readArray_begin_def Let_def)
qed

lemma readObject_comma_fine:
  assumes R: "within D R" and C: "ready b D node C"
    and more: "\<And>R C. within D R \<Longrightarrow> ready b D node C \<Longrightarrow> loop_ok b D node (co R C)"
  shows "loop_ok b D node (c_readObject_comma co obj R C)"
proof -
  let ?c = "readToken (rd_current R)"
  let ?C = "collect ?c C"
  have c: "token_in D ?c" using R by (intro within_intros)
  have d: "token_in D (skip_comments (tok_end ?c))" using c by (intro skip_comments_in token_in_end)
  have "within D (R\<lparr>rd_current := tok_end ?c\<rparr>)" "within D (R\<lparr>rd_current := tok_end (skip_comments (tok_end ?c))\<rparr>)"
    using R c d by (auto intro: within_move token_in_end)
  moreover note C1 = ready_steps(1) [OF C, of "rd_current R"]
  moreover note ready_steps(2) [OF C1, of "tok_end ?c"]
    ready_steps(3) [OF C1, of tokenObjectEnd "R\<lparr>rd_current := tok_end ?c\<rparr>"]
  ultimately show ?thesis by (simp add: c_readObject_comma_def Let_def more)
qed

lemma readObject_body_fine:
  assumes R: "within D R" and C: "ready b D node C"
    and rv: "\<And>m R C v. within D R \<Longrightarrow> sound b D C \<Longrightarrow> apart m C \<Longrightarrow>
      fine b D (moves_to m C) (cv m R C v) \<and> stays D (plain_result (cv m R C v))"
    and ro: "\<And>k R C ms. within D R \<Longrightarrow> ready b D node C \<Longrightarrow> loop_ok b D node (co k R C ms)"
  shows "loop_ok b D node (c_readObject_body cv co L F node name R C members)"
proof -
  let ?t = "skip_comments (rd_current R)"
  let ?c = "readToken (tok_end ?t)"
  let ?C1 = "collect_comments (rd_current R) C"
  let ?C2 = "collect ?c ?C1"
  let ?R1 = "R\<lparr>rd_current := tok_end ?t\<rparr>" and ?R2 = "R\<lparr>rd_current := tok_end ?c\<rparr>"
  have t: "token_in D ?t" using R by (intro within_intros)
  then have c: "token_in D ?c" by (intro readToken_in token_in_end)
  have R2: "within D ?R2" using R c by (intro within_move token_in_end)
  note C1 = ready_steps(2) [OF C, of "rd_current R"]
  note C2 = ready_steps(1) [OF C1, of "tok_end ?t"]
  have v: "loop_ok b D node (case cv (node @ [k]) ?R2 ?C2 old of
        None \<Rightarrow> None
      | Some ((ok, v, R3), C3) \<Rightarrow>
          if \<not> ok then with_result (f v R3) (collect_recover tokenObjectEnd R3 C3)
          else c_readObject_comma (\<lambda>R5 C5. co n R5 C5 (h v)) (obj v) R3 C3)" for k old f n h obj
  proof (cases "cv (node @ [k]) ?R2 ?C2 old")
    case (Some r)
    obtain ok v R3 C3 where r: "r = ((ok, v, R3), C3)" by (metis prod.collapse)
    have "fine b D (moves_to (node @ [k]) ?C2) (cv (node @ [k]) ?R2 ?C2 old) \<and> stays D (plain_result (cv (node @ [k]) ?R2 ?C2 old))"
      using R2 C2 by (intro rv) (simp_all add: shallow_child)
    then have "within D R3" "ready b D node C3"
      using Some r moves_shallow [of node k ?C2 C3] C2 by (simp_all add: fine_def)
    with Some r ready_steps(3) [of b D C3 node tokenObjectEnd R3] show ?thesis
      by (simp add: readObject_comma_fine ro)
  qed simp
  have rec: "ready b D node (collect_recover tokenObjectEnd ?R1 ?C1)" "ready b D node (collect_recover tokenObjectEnd ?R2 ?C2)"
    using C1 C2 ready_steps(3) by blast+
  show ?thesis
    using v C1 rec by (simp add: c_readObject_body_def Let_def split: option.split sum.split)
qed

lemma readArray_body_fine:
  assumes R: "within D R" and C: "ready b D node C"
    and rv: "\<And>m R C v. within D R \<Longrightarrow> sound b D C \<Longrightarrow> apart m C \<Longrightarrow>
      fine b D (moves_to m C) (cv m R C v) \<and> stays D (plain_result (cv m R C v))"
    and ra: "\<And>i R C ms. within D R \<Longrightarrow> ready b D node C \<Longrightarrow> loop_ok b D node (ca i R C ms)"
  shows "loop_ok b D node (c_readArray_body cv ca node index R C items)"
proof (cases "cv (node @ [Inr index]) R C (case omap_find items index of None \<Rightarrow> nullValue | Some v \<Rightarrow> v)")
  case None
  then show ?thesis by (simp add: c_readArray_body_def)
next
  case (Some r)
  obtain ok v R1 C1 where r: "r = ((ok, v, R1), C1)" by (metis prod.collapse)
  have "fine b D (moves_to (node @ [Inr index]) C) (Some r) \<and> stays D (plain_result (Some r))"
    unfolding Some [symmetric] using R C by (intro rv) (simp_all add: shallow_child)
  then have R1: "within D R1" and C1: "ready b D node C1"
    using r moves_shallow [of node "Inr index" C C1] C by (simp_all add: fine_def)
  let ?t = "skip_comments (rd_current R1)"
  have t: "token_in D ?t" using R1 by (intro within_intros)
  then have R2: "within D (R1\<lparr>rd_current := tok_end ?t\<rparr>)" using R1 by (intro within_move token_in_end)
  note C2 = ready_steps(2) [OF C1, of "rd_current R1"]
  note ready_steps(3) [OF C1, of tokenArrayEnd R1]
    ready_steps(3) [OF C2, of tokenArrayEnd "R1\<lparr>rd_current := tok_end ?t\<rparr>"]
  with R2 C2 Some r ra show ?thesis by (simp add: c_readArray_body_def Let_def)
qed

lemma reader_stays_plain:
  "within D R \<Longrightarrow> stays D (plain_result (c_readValue n L F node R C cur))"
  "within D R \<Longrightarrow> stays D (plain_result (c_readObject n L F node name R C members))"
  "within D R \<Longrightarrow> stays D (plain_result (c_readArray_begin (\<lambda>R C. c_readArray n L F node i R C items) R C))"
proof -
  show "within D R \<Longrightarrow> stays D (plain_result (c_readValue n L F node R C cur))"
    unfolding reader_plain using reader_stays(1) by blast
  show "within D R \<Longrightarrow> stays D (plain_result (c_readObject n L F node name R C members))"
    unfolding reader_plain using reader_stays(2) by blast
  assume R: "within D R"
  have "plain_result (c_readArray_begin (\<lambda>R C. c_readArray n L F node i R C items) R C)
      = readArray_begin (\<lambda>R. readArray n L F i R items) R"
    by (rule readArray_begin_plain) (rule reader_plain(3))
  moreover have "stays D (readArray_begin (\<lambda>R. readArray n L F i R items) R)"
    using R reader_stays(3) by (intro readArray_begin_stays) blast+
  ultimately show "stays D (plain_result (c_readArray_begin (\<lambda>R C. c_readArray n L F node i R C items) R C))" by simp
qed

lemma reader_fine:
  assumes D: "length D < 2 ^ 64" and b: "b \<longrightarrow> \<not> allowDroppedNullPlaceholders F"
  shows "within D R \<longrightarrow> sound b D C \<longrightarrow> apart node C \<longrightarrow> fine b D (moves_to node C) (c_readValue n L F node R C cur)"
    "within D R \<longrightarrow> ready b D node C \<longrightarrow> loop_ok b D node (c_readObject n L F node name R C members)"
    "within D R \<longrightarrow> ready b D node C \<longrightarrow> loop_ok b D node (c_readArray n L F node index R C items)"
proof (induction n arbitrary: node R C cur name members index items)
  case (Suc n)
  have v: "fine b D (moves_to m C) (c_readValue n L F m R C v) \<and> stays D (plain_result (c_readValue n L F m R C v))"
    if "within D R" "sound b D C" "apart m C" for m R C v
    using Suc.IH(1) [of R C m v] reader_stays_plain(1) that by blast
  have o: "loop_ok b D m (c_readObject n L F m k R C ms)" if "within D R" "ready b D m C" for m k R C ms
    using Suc.IH(2) [of R C m k ms] that by blast
  have a: "loop_ok b D m (c_readArray n L F m i R C is)" if "within D R" "ready b D m C" for m i R C "is"
    using Suc.IH(3) [of R C m i "is"] that by blast
  {
    case 1
    show ?case
    proof (intro impI)
      assume *: "within D R" "sound b D C" "apart node C"
      show "fine b D (moves_to node C) (c_readValue (Suc n) L F node R C cur)"
        unfolding c_readValue.simps
      proof (rule readValue_body_fine [OF * D b])
        fix R C assume **: "within D R" "sound b D C" "shallow node C"
        then show "loop_ok b D node (c_readObject n L F node [] R C [])
            \<and> stays D (plain_result (c_readObject n L F node [] R C []))"
          using o reader_stays_plain(2) by blast
        show "loop_ok b D node (c_readArray_begin (\<lambda>R C. c_readArray n L F node 0 R C []) R C)
            \<and> stays D (plain_result (c_readArray_begin (\<lambda>R C. c_readArray n L F node 0 R C []) R C))"
          using ** a reader_stays_plain(3) by (auto intro!: readArray_begin_fine)
      qed
    qed
  next
    case 2
    show ?case unfolding c_readObject.simps
      by (intro impI readObject_body_fine) (simp_all add: v o)
  next
    case 3
    show ?case unfolding c_readArray.simps
      by (intro impI readArray_body_fine) (simp_all add: v a)
  }
qed (simp_all add: c_readValue.simps(1) c_readObject.simps(1) c_readArray.simps(1))

section \<open>Properties\<close>

lemma parse_collects:
  assumes D: "length document < 2 ^ 64"
  shows "\<exists>x C. Reader_parse_collecting L F document root c = Some (x, C) \<and> Reader_parse L F document root = Some x
    \<and> sound (\<not> allowDroppedNullPlaceholders F) document C"
proof -
  let ?b = "\<not> allowDroppedNullPlaceholders F"
  let ?R = "\<lparr>rd_current = document, rd_errors = []\<rparr>" and ?C = "new_Collected document (c \<and> allowComments F)"
  let ?r = "c_readValue (parse_fuel document) L F [] ?R ?C root"
  have "sound ?b document ?C" "apart [] ?C"
    by (simp_all add: sound_def new_Collected_def starts_comment_def apart_def)
  moreover have "within document ?R" by (simp add: within_def)
  ultimately have f: "fine ?b document (moves_to [] ?C) ?r"
    using reader_fine(1) [OF D, of ?b F ?R ?C "[]" "parse_fuel document" L root] by simp
  have p: "map_option fst (Reader_parse_collecting L F document root c) = Reader_parse L F document root"
    by (rule parse_plain)
  moreover obtain ok v errors where "Reader_parse L F document root = Some (ok, v, errors)"
    using parse_returns by blast
  ultimately obtain x C where x: "Reader_parse_collecting L F document root c = Some (x, C)" by auto
  then obtain y C0 where y: "?r = Some (y, C0)" by (cases ?r) (auto simp: Reader_parse_collecting_def)
  obtain s v R where z: "y = (s, v, R)" by (cases y)
  have s0: "sound ?b document C0" using f y unfolding fine_def by blast
  let ?C1 = "collect_skipped F (rd_current R) C0"
  have s1: "sound ?b document ?C1" using keeps_sound [OF keeps_collect_skipped [OF s0] s0] .
  then have "starts_comment (cm_commentsBefore ?C1)" by (simp add: sound_def)
  with s1 have "sound ?b document (setComment [] (cm_commentsBefore ?C1) commentAfter ?C1)"
    using keeps_sound [OF keeps_setComment] by blast
  with s1 x y z have "sound ?b document C" by (auto simp: Reader_parse_collecting_def Let_def split: if_split_asm)
  with x p show ?thesis by (metis fst_conv option.map(2))
qed

text \<open>
  C20: The reader as the program calls it, collecting comments: on every document it ends with the same
  verdict, value and errors as without them, and collecting goes wrong nowhere - no assertion fails, no
  comment is refused, no comment is written through the pointer to the last value after that value has
  been destroyed by a repeated member. Unless null placeholders may be dropped, the offsets of every
  value, read or broken off, lie in the document, so that \<open>pushError\<close> accepts every value of it.
\<close>
theorem collecting_parse:
  assumes "length document < 2 ^ 64"
  shows "\<exists>x C. Reader_parse_collecting L F document root collectComments = Some (x, C)
    \<and> Reader_parse L F document root = Some x
    \<and> \<not> cm_fault C \<and> \<not> cm_lastValue_gone C
    \<and> (\<not> allowDroppedNullPlaceholders F \<longrightarrow> (\<forall>node message errors.
         fst (pushError document (unat (fst (cm_offsets C node)), unat (snd (cm_offsets C node))) message errors)))"
proof -
  obtain x C where x: "Reader_parse_collecting L F document root collectComments = Some (x, C)"
    "Reader_parse L F document root = Some x" "sound (\<not> allowDroppedNullPlaceholders F) document C"
    using parse_collects [OF assms] by blast
  have "unat (of_nat (length document) :: u64) = length document"
    using assms by (simp add: unat_of_nat take_bit_eq_mod)
  then have "unat w \<le> length document" if "w \<le> of_nat (length document)" for w :: u64
    using that by (simp add: word_le_nat_alt)
  then have "\<not> allowDroppedNullPlaceholders F \<longrightarrow> (\<forall>node message errors.
       fst (pushError document (unat (fst (cm_offsets C node)), unat (snd (cm_offsets C node))) message errors))"
    using x(3) unfolding sound_def pushError_def by (simp add: not_less)
  moreover have "\<not> cm_fault C" "\<not> cm_lastValue_gone C" using x(3) by (simp_all add: sound_def)
  ultimately show ?thesis using x(1,2) by blast
qed

definition commented :: string where
  "commented = ''// first'' @ [LF] @ ''{/*a*/'' @ [QUOTE] @ ''k'' @ [QUOTE] @ '':[true] // one'' @ [LF] @ '',''
     @ [QUOTE] @ ''k'' @ [QUOTE] @ '':null} /* last */''"

theorem collecting_parse_witness:
  "\<exists>x C. Reader_parse_collecting no_doubles Features_all commented nullValue True = Some (x, C)
    \<and> \<not> cm_fault C \<and> fst (pushError commented (unat (fst (cm_offsets C [])), unat (snd (cm_offsets C []))) ''x'' [])"
proof -
  have "length commented < 2 ^ 64" by (simp add: commented_def)
  from collecting_parse [OF this, of no_doubles Features_all nullValue True] show ?thesis
    by (fastforce simp: Features_all_def)
qed

text \<open>A comment on the line of a value belongs to it, another one to the next value.\<close>

lemma comment_placed:
  "map_option (\<lambda>(x, C). (fst x, cm_comments C))
      (Reader_parse_collecting no_doubles Features_all (''/*a*/[]//b'' @ [LF]) nullValue True)
    = Some (True, [(([], commentAfterOnSameLine), ''//b'' @ [LF]), (([], commentBefore), ''/*a*/'')])"
  by code_simp

text \<open>
  A dropped placeholder gets the offsets of the character before its comma; at the start of a document
  the start offset wraps.
\<close>

lemma placeholder_offsets:
  "map_option (\<lambda>(x, C). (fst x, cm_offsets C []))
      (Reader_parse_collecting no_doubles (Features_all\<lparr>allowDroppedNullPlaceholders := True\<rparr>) '','' nullValue True)
    = Some (True, (0xFFFFFFFFFFFFFFFF, 0))"
  by code_simp

end
