(* ===== verification/JsonPath.thy ===== *)
theory JsonPath
  imports JsonWriter
begin

text \<open>
  \<open>PathArgument\<close> and \<open>Path\<close> of the embedded jsoncpp (\<open>json_value.cpp\<close> in \<open>third/eice/src/jsoncpp.cpp\<close>):
  parsing a path, and following or making it in a value. The loop over the text need not end: it is
  a partial function into \<open>option\<close>.
\<close>

section \<open>Parsing a path\<close>

datatype PathArgument = kindNone | kindIndex u32 | kindKey string

datatype PathKind = NoneKind | IndexKind | KeyKind

fun arg_kind :: "PathArgument \<Rightarrow> PathKind" where
  "arg_kind kindNone = NoneKind"
| "arg_kind (kindIndex _) = IndexKind"
| "arg_kind (kindKey _) = KeyKind"

definition PathArgument_of_string :: "string \<Rightarrow> PathArgument" where
  "PathArgument_of_string key = kindKey (c_str key)"

text \<open>\<open>itInArg\<close> is the list of the arguments from there on; the call does not advance it.\<close>

definition addPathInArg :: "PathArgument list \<Rightarrow> PathKind \<Rightarrow> PathArgument list \<Rightarrow> PathArgument list" where
  "addPathInArg itInArg kind args =
     (case itInArg of
        [] \<Rightarrow> args
      | a # _ \<Rightarrow> if arg_kind a \<noteq> kind then args else args @ [a])"

text \<open>The digits of an index, in 32 bits, and the position behind them.\<close>

fun path_index :: "u32 \<Rightarrow> string \<Rightarrow> u32 \<times> string" where
  "path_index index [] = (index, [])"
| "path_index index (c # cs) =
     (if is_digit c then path_index (index * 10 + of_nat (of_char c - 48)) cs else (index, c # cs))"

text \<open>\<open>strchr\<close> also finds the terminating NUL.\<close>

definition ends_name :: "char \<Rightarrow> bool" where
  "ends_name c \<longleftrightarrow> c = CHR ''['' \<or> c = CHR ''.'' \<or> c = NUL"

text \<open>
  \<open>makePath\<close> from \<open>current\<close>, the rest of the path. After an opening bracket one character is taken for
  the closing one, whatever it is; after \<open>[%\<close> that character is the percent sign.
\<close>

partial_function (option) makePath ::
  "PathArgument list \<Rightarrow> string \<Rightarrow> PathArgument list \<Rightarrow> PathArgument list option" where
  "makePath inArgs current args =
     (case current of
        [] \<Rightarrow> Some args
      | c # rest \<Rightarrow>
          if c = CHR ''['' then
            if deref rest = CHR ''%''
            then makePath inArgs (tl rest) (addPathInArg inArgs IndexKind args)
            else makePath inArgs (tl (snd (path_index 0 rest))) (args @ [kindIndex (fst (path_index 0 rest))])
          else if c = CHR ''%'' then makePath inArgs rest (addPathInArg inArgs KeyKind args)
          else if c = CHR ''.'' then makePath inArgs rest args
          else makePath inArgs (dropWhile (\<lambda>c. \<not> ends_name c) current)
                 (args @ [PathArgument_of_string (takeWhile (\<lambda>c. \<not> ends_name c) current)]))"

text \<open>The constructor: five arguments, \<open>kindNone\<close> where none is given.\<close>

definition Path_new :: "string \<Rightarrow> PathArgument list \<Rightarrow> PathArgument list option" where
  "Path_new path arguments = makePath (take 5 (arguments @ replicate 5 kindNone)) path []"

section \<open>Following and making a path\<close>

text \<open>\<open>*node\<close> for the pointer a const \<open>operator[]\<close> returns: \<open>None\<close> is \<open>&Value::null\<close>.\<close>

definition pointee :: "Value option \<Rightarrow> Value" where
  "pointee node = (case node of None \<Rightarrow> nullValue | Some v \<Rightarrow> v)"

definition path_step :: "PathArgument \<Rightarrow> Value \<Rightarrow> Value option throws" where
  "path_step arg v =
     (case arg of
        kindNone \<Rightarrow> Inr (Some v)
      | kindIndex i \<Rightarrow> index_at v (unat i)
      | kindKey k \<Rightarrow> member_at v k)"

fun Path_resolve :: "PathArgument list \<Rightarrow> Value \<Rightarrow> Value throws" where
  "Path_resolve [] root = Inr root"
| "Path_resolve (arg # args) root =
     (case path_step arg root of Inl e \<Rightarrow> Inl e | Inr node \<Rightarrow> Path_resolve args (pointee node))"

fun Path_resolve_default :: "PathArgument list \<Rightarrow> Value \<Rightarrow> Value \<Rightarrow> Value throws" where
  "Path_resolve_default [] root defaultValue = Inr root"
| "Path_resolve_default (arg # args) root defaultValue =
     (case arg of
        kindNone \<Rightarrow> Path_resolve_default args root defaultValue
      | kindIndex i \<Rightarrow>
          if \<not> isArray root \<or> \<not> isValidIndex root (unat i) then Inr defaultValue
          else (case index_at root (unat i) of
                  Inl e \<Rightarrow> Inl e
                | Inr node \<Rightarrow> Path_resolve_default args (pointee node) defaultValue)
      | kindKey k \<Rightarrow>
          if \<not> isObject root then Inr defaultValue
          else (case member_at root k of
                  Inl e \<Rightarrow> Inl e
                | Inr None \<Rightarrow> Inr defaultValue
                | Inr (Some v) \<Rightarrow> Path_resolve_default args v defaultValue))"

text \<open>
  \<open>make\<close>, with what the caller then does to the value referred to, \<open>f\<close>: the identity, or an
  assignment. The results are the root afterwards and the value referred to before \<open>f\<close>, or the
  exception; what was made before an exception stays.
\<close>

definition into_child :: "(Value \<times> Value) throws \<Rightarrow> (Value \<Rightarrow> Value \<Rightarrow> Value throws)
    \<Rightarrow> (Value \<Rightarrow> Value \<times> Value throws) \<Rightarrow> Value \<Rightarrow> Value \<times> Value throws" where
  "into_child child store go v =
     (case child of
        Inl e \<Rightarrow> (v, Inl e)
      | Inr (w, x) \<Rightarrow> (case store w (fst (go x)) of Inl e \<Rightarrow> w | Inr w' \<Rightarrow> w', snd (go x)))"

fun Path_make :: "PathArgument list \<Rightarrow> (Value \<Rightarrow> Value) \<Rightarrow> Value \<Rightarrow> Value \<times> Value throws" where
  "Path_make [] f root = (f root, Inr root)"
| "Path_make (arg # args) f root =
     (case arg of
        kindNone \<Rightarrow> Path_make args f root
      | kindIndex i \<Rightarrow>
          into_child (index_ref root (unat i)) (\<lambda>w. index_set w (unat i)) (Path_make args f) root
      | kindKey k \<Rightarrow>
          into_child (member_ref root k) (\<lambda>w. member_set w k) (Path_make args f) root)"

section \<open>The contract of the two operators\<close>

text \<open>
  What \<open>Path\<close> relies on: the operator that inserts (\<open>ref\<close>), assignment through it (\<open>store\<close>) and the
  one that does not insert (\<open>at\<close>) agree.
\<close>

locale child_access =
  fixes child_at :: "Value \<Rightarrow> 'k \<Rightarrow> Value option throws"
    and child_ref :: "Value \<Rightarrow> 'k \<Rightarrow> (Value \<times> Value) throws"
    and child_store :: "Value \<Rightarrow> 'k \<Rightarrow> Value \<Rightarrow> Value throws"
    and same :: "'k \<Rightarrow> 'k \<Rightarrow> bool"
  assumes ref_reads: "child_ref v k = Inr (w, x) \<Longrightarrow> map_sum (\<lambda>e. e) pointee (child_at v k) = Inr x"
    and at_refers: "child_at v k = Inr r \<Longrightarrow> \<exists>w. child_ref v k = Inr (w, pointee r)"
    and store_returns: "child_ref v k = Inr (w, x) \<Longrightarrow> \<exists>w'. child_store w k y = Inr w'"
    and store_reads: "child_ref v k = Inr (w, x) \<Longrightarrow> child_store w k y = Inr w' \<Longrightarrow>
      child_at w' k = Inr (Some y)"
    and store_keeps: "child_ref v k = Inr (w, x) \<Longrightarrow> child_store w k y = Inr w' \<Longrightarrow> \<not> same k j \<Longrightarrow>
      child_at w' j = child_at v j"
begin

abbreviation go_into :: "'k \<Rightarrow> (Value \<Rightarrow> Value \<times> Value throws) \<Rightarrow> Value \<Rightarrow> Value \<times> Value throws" where
  "go_into k go v \<equiv> into_child (child_ref v k) (\<lambda>w. child_store w k) go v"

text \<open>Going into a child that can be read changes that child as \<open>go\<close> does, and no other.\<close>

lemma go_into_child:
  assumes "child_at v k = Inr r"
  shows "snd (go_into k go v) = snd (go (pointee r))"
    and "child_at (fst (go_into k go v)) k = Inr (Some (fst (go (pointee r))))"
    and "\<not> same k j \<Longrightarrow> child_at (fst (go_into k go v)) j = child_at v j"
proof -
  obtain w where w: "child_ref v k = Inr (w, pointee r)" using at_refers [OF assms] by blast
  obtain w' where w': "child_store w k (fst (go (pointee r))) = Inr w'" using store_returns [OF w] by blast
  have eq: "go_into k go v = (w', snd (go (pointee r)))" by (simp add: into_child_def w w')
  show "snd (go_into k go v) = snd (go (pointee r))" by (simp add: eq)
  show "child_at (fst (go_into k go v)) k = Inr (Some (fst (go (pointee r))))"
    using store_reads [OF w w'] by (simp add: eq)
  show "\<not> same k j \<Longrightarrow> child_at (fst (go_into k go v)) j = child_at v j"
    using store_keeps [OF w w'] by (simp add: eq)
qed

lemma go_into_nothing:
  assumes "child_at v k = Inl e"
  shows "\<exists>e'. go_into k go v = (v, Inl e')"
proof (cases "child_ref v k")
  case (Inl e')
  then show ?thesis by (simp add: into_child_def)
next
  case (Inr r)
  with assms ref_reads [of v k] show ?thesis by (cases r) auto
qed

end

interpretation indexed: child_access index_at index_ref index_set "(=)"
proof
  fix v w x y w' and k j :: nat and r
  show "index_ref v k = Inr (w, x) \<Longrightarrow> map_sum (\<lambda>e. e) pointee (index_at v k) = Inr x"
    by (auto simp: index_ref_def index_at_def pointee_def split: Value.splits option.splits)
  show "index_at v k = Inr r \<Longrightarrow> \<exists>w. index_ref v k = Inr (w, pointee r)"
    by (auto simp: index_ref_def index_at_def pointee_def split: Value.splits option.splits)
  show "index_ref v k = Inr (w, x) \<Longrightarrow> \<exists>w'. index_set w k y = Inr w'"
    by (auto simp: index_ref_def index_set_def split: Value.splits option.splits)
  show "index_ref v k = Inr (w, x) \<Longrightarrow> index_set w k y = Inr w' \<Longrightarrow> index_at w' k = Inr (Some y)"
    by (auto simp: index_ref_def index_set_def index_at_def split: Value.splits option.splits)
  show "index_ref v k = Inr (w, x) \<Longrightarrow> index_set w k y = Inr w' \<Longrightarrow> \<not> k = j \<Longrightarrow> index_at w' j = index_at v j"
    by (auto simp: index_ref_def index_set_def index_at_def split: Value.splits option.splits)
qed

interpretation named: child_access member_at member_ref member_set "\<lambda>k j. c_str k = c_str j"
proof
  fix v w x y w' and k j :: string and r
  show "member_ref v k = Inr (w, x) \<Longrightarrow> map_sum (\<lambda>e. e) pointee (member_at v k) = Inr x"
    by (auto simp: member_ref_def member_at_def pointee_def split: Value.splits option.splits)
  show "member_at v k = Inr r \<Longrightarrow> \<exists>w. member_ref v k = Inr (w, pointee r)"
    by (auto simp: member_ref_def member_at_def pointee_def split: Value.splits option.splits)
  show "member_ref v k = Inr (w, x) \<Longrightarrow> \<exists>w'. member_set w k y = Inr w'"
    by (auto simp: member_ref_def member_set_def split: Value.splits option.splits)
  show "member_ref v k = Inr (w, x) \<Longrightarrow> member_set w k y = Inr w' \<Longrightarrow> member_at w' k = Inr (Some y)"
    by (auto simp: member_ref_def member_set_def member_at_def split: Value.splits option.splits)
  show "member_ref v k = Inr (w, x) \<Longrightarrow> member_set w k y = Inr w' \<Longrightarrow> \<not> c_str k = c_str j \<Longrightarrow>
      member_at w' j = member_at v j"
    by (auto simp: member_ref_def member_set_def member_at_def split: Value.splits option.splits)
qed

section \<open>Making and following agree\<close>

text \<open>Two paths part where they name different elements of one array, or members of one object.\<close>

fun parts :: "PathArgument list \<Rightarrow> PathArgument list \<Rightarrow> bool" where
  "parts (kindNone # a) b = parts a b"
| "parts a (kindNone # b) = parts a b"
| "parts (kindIndex i # a) (kindIndex j # b) = (i \<noteq> j \<or> parts a b)"
| "parts (kindKey k # a) (kindKey l # b) = (c_str k \<noteq> c_str l \<or> parts a b)"
| "parts _ _ = False"

lemma parts_Nil [simp]: "\<not> parts [] b"
proof (induction b)
  case (Cons c b)
  then show ?case by (cases c) simp_all
qed simp

lemma pointee_Some [simp]: "pointee (Some v) = v"
  by (simp add: pointee_def)

lemma resolve_after_step:
  "path_step arg root = Inr node \<Longrightarrow> Path_resolve (arg # args) root = Path_resolve args (pointee node)"
  by simp

lemma path_step_member_cong: "c_str k = c_str l \<Longrightarrow> path_step (kindKey k) = path_step (kindKey l)"
  by (auto simp: path_step_def member_at_def fun_eq_iff split: Value.split)

lemma make_spec:
  "Path_resolve args root = Inr v \<Longrightarrow>
    snd (Path_make args f root) = Inr v
    \<and> Path_resolve args (fst (Path_make args f root)) = Inr (f v)
    \<and> (\<forall>other. parts args other \<longrightarrow>
         Path_resolve other (fst (Path_make args f root)) = Path_resolve other root)"
proof (induction args arbitrary: root)
  case Nil
  then show ?case by simp
next
  case (Cons arg args)
  show ?case
  proof (cases arg)
    case kindNone
    with Cons show ?thesis by (simp add: path_step_def)
  next
    case (kindIndex i)
    from Cons.prems kindIndex obtain r where r: "index_at root (unat i) = Inr r" "Path_resolve args (pointee r) = Inr v"
      by (auto simp: path_step_def split: sum.splits)
    let ?root = "fst (Path_make (arg # args) f root)" and ?child = "fst (Path_make args f (pointee r))"
    note IH = Cons.IH [OF r(2)]
    have same: "path_step (kindIndex i) ?root = Inr (Some ?child)"
      using indexed.go_into_child(2) [OF r(1)] kindIndex by (simp add: path_step_def)
    have other: "path_step (kindIndex j) ?root = path_step (kindIndex j) root" if "i \<noteq> j" for j
    proof -
      from that have "unat i \<noteq> unat j" by (simp add: word_unat_eq_iff)
      from indexed.go_into_child(3) [OF r(1) this] kindIndex show ?thesis by (simp add: path_step_def)
    qed
    have "Path_resolve b ?root = Path_resolve b root" if "parts (kindIndex i # args) b" for b
      using that
    proof (induction b)
      case (Cons c b)
      show ?case
      proof (cases c)
        case kindNone
        with Cons show ?thesis by (simp add: path_step_def)
      next
        case (kindIndex j)
        with Cons.prems IH same other r(1) show ?thesis
          by (cases "i = j") (simp_all add: path_step_def)
      next
        case (kindKey k)
        with Cons.prems show ?thesis by simp
      qed
    qed simp
    with IH indexed.go_into_child(1) [OF r(1)] same kindIndex show ?thesis by simp
  next
    case (kindKey k)
    from Cons.prems kindKey obtain r where r: "member_at root k = Inr r" "Path_resolve args (pointee r) = Inr v"
      by (auto simp: path_step_def split: sum.splits)
    let ?root = "fst (Path_make (arg # args) f root)" and ?child = "fst (Path_make args f (pointee r))"
    note IH = Cons.IH [OF r(2)]
    have same: "path_step (kindKey k) ?root = Inr (Some ?child)"
      using named.go_into_child(2) [OF r(1)] kindKey by (simp add: path_step_def)
    have other: "path_step (kindKey l) ?root = path_step (kindKey l) root" if "c_str k \<noteq> c_str l" for l
      using named.go_into_child(3) [OF r(1), of l] that kindKey by (simp add: path_step_def)
    have "Path_resolve b ?root = Path_resolve b root" if "parts (kindKey k # args) b" for b
      using that
    proof (induction b)
      case (Cons c b)
      show ?case
      proof (cases c)
        case kindNone
        with Cons show ?thesis by (simp add: path_step_def)
      next
        case (kindKey l)
        have "path_step (kindKey k) root = Inr r" using r(1) by (simp add: path_step_def)
        with kindKey Cons.prems IH same other path_step_member_cong [of k l] show ?thesis
          by (cases "c_str k = c_str l") (simp_all)
      next
        case (kindIndex j)
        with Cons.prems show ?thesis by simp
      qed
    qed simp
    with IH named.go_into_child(1) [OF r(1)] same kindKey show ?thesis by simp
  qed
qed

lemma make_throws:
  "Path_resolve args root = Inl e \<Longrightarrow> \<exists>e'. snd (Path_make args f root) = Inl e'"
proof (induction args arbitrary: root)
  case (Cons arg args)
  show ?case
  proof (cases arg)
    case kindNone
    with Cons show ?thesis by (simp add: path_step_def)
  next
    case (kindIndex i)
    show ?thesis
    proof (cases "index_at root (unat i)")
      case (Inl x)
      with kindIndex indexed.go_into_nothing [OF Inl, of "Path_make args f"] show ?thesis by auto
    next
      case (Inr r)
      with kindIndex Cons.prems have "Path_resolve args (pointee r) = Inl e" by (simp add: path_step_def)
      with kindIndex Cons.IH indexed.go_into_child(1) [OF Inr] show ?thesis by simp
    qed
  next
    case (kindKey k)
    show ?thesis
    proof (cases "member_at root k")
      case (Inl x)
      with kindKey named.go_into_nothing [OF Inl, of "Path_make args f"] show ?thesis by auto
    next
      case (Inr r)
      with kindKey Cons.prems have "Path_resolve args (pointee r) = Inl e" by (simp add: path_step_def)
      with kindKey Cons.IH named.go_into_child(1) [OF Inr] show ?thesis by simp
    qed
  qed
qed simp

section \<open>Defaults\<close>

lemma isValid_at:
  "isArray v \<Longrightarrow> \<exists>r. index_at v i = Inr r"
  by (cases v) (simp_all add: isArray_def index_at_def)

lemma member_at_object:
  "isObject v \<Longrightarrow> \<exists>r. member_at v k = Inr r"
  by (cases v) (simp_all add: isObject_def member_at_def)

lemma resolve_default_total:
  "\<exists>v. Path_resolve_default args root d = Inr v \<and> (v = d \<or> Path_resolve args root = Inr v)"
proof (induction args arbitrary: root)
  case (Cons arg args)
  show ?case
  proof (cases arg)
    case kindNone
    with Cons show ?thesis by (simp add: path_step_def)
  next
    case (kindIndex i)
    show ?thesis
    proof (cases "isArray root \<and> isValidIndex root (unat i)")
      case True
      then obtain r where r: "index_at root (unat i) = Inr r" using isValid_at by blast
      with True kindIndex Cons [of "pointee r"] show ?thesis by (auto simp: path_step_def)
    qed (use kindIndex in auto)
  next
    case (kindKey k)
    show ?thesis
    proof (cases "isObject root")
      case True
      then obtain r where r: "member_at root k = Inr r" using member_at_object by blast
      with True kindKey Cons [of "pointee r"] show ?thesis by (cases r) (auto simp: path_step_def)
    qed (use kindKey in auto)
  qed
qed simp

text \<open>A hole in an array is taken for a value: the default is not used.\<close>

lemma hole_is_no_default:
  "Path_resolve_default [kindIndex 0] (arrayValue [(1, intValue 7)]) (intValue 5) = Inr nullValue"
  by (simp add: isArray_def isValidIndex_def Value_size_def index_at_def pointee_def)

section \<open>Reading a path back\<close>

text \<open>The text of a path, and the keys that have one.\<close>

fun path_text :: "PathArgument list \<Rightarrow> string" where
  "path_text [] = []"
| "path_text (kindNone # args) = path_text args"
| "path_text (kindIndex i # args) = ''['' @ uintToString (unat i) [] @ '']'' @ path_text args"
| "path_text (kindKey k # args) = ''.'' @ k @ path_text args"

definition plain_key :: "string \<Rightarrow> bool" where
  "plain_key k \<longleftrightarrow> k \<noteq> [] \<and> hd k \<noteq> CHR ''%'' \<and> (\<forall>c \<in> set k. \<not> ends_name c)"

definition plain_path :: "PathArgument list \<Rightarrow> bool" where
  "plain_path args \<longleftrightarrow> (\<forall>a \<in> set args. case a of kindNone \<Rightarrow> False | kindIndex _ \<Rightarrow> True | kindKey k \<Rightarrow> plain_key k)"

lemma path_text_starts: "plain_path args \<Longrightarrow> path_text args = [] \<or> ends_name (hd (path_text args))"
  by (cases args rule: path_text.cases) (auto simp: plain_path_def ends_name_def)

lemma path_index_digits:
  assumes "\<forall>c \<in> set ds. is_digit c" "rest = [] \<or> \<not> is_digit (hd rest)"
  shows "path_index (of_nat n) (ds @ rest) = (of_nat (digits_value n ds), rest)"
  using assms(1)
proof (induction ds arbitrary: n)
  case Nil
  with assms(2) show ?case by (cases rest) auto
next
  case (Cons c ds)
  then show ?case using Cons.IH [of "n * 10 + (of_char c - 48)"] by simp
qed

lemma makePath_name:
  assumes "c \<noteq> CHR ''%''" "\<not> ends_name c"
  shows "makePath ins (c # cs) args =
    makePath ins (dropWhile (\<lambda>c. \<not> ends_name c) cs)
      (args @ [PathArgument_of_string (c # takeWhile (\<lambda>c. \<not> ends_name c) cs)])"
  using assms by (subst makePath.simps) (auto simp: ends_name_def)

lemma makePath_dot: "makePath ins (CHR ''.'' # cs) args = makePath ins cs args"
  by (subst makePath.simps) simp

lemma makePath_text:
  "plain_path args \<Longrightarrow> makePath ins (path_text args) acc = Some (acc @ args)"
proof (induction args arbitrary: acc)
  case Nil
  then show ?case by (subst makePath.simps) simp
next
  case (Cons arg args)
  then have plain: "plain_path args" by (simp add: plain_path_def)
  show ?case
  proof (cases arg)
    case kindNone
    with Cons.prems show ?thesis by (simp add: plain_path_def)
  next
    case (kindIndex i)
    let ?ds = "uintToString (unat i) []"
    have ds: "\<forall>c \<in> set ?ds. is_digit c" by (rule uintToString_digits)
    have "path_index (of_nat 0) (?ds @ '']'' @ path_text args)
        = (of_nat (digits_value 0 ?ds), '']'' @ path_text args)"
      by (rule path_index_digits [OF ds]) (simp add: is_digit_def)
    then have index: "path_index 0 (?ds @ '']'' @ path_text args) = (i, '']'' @ path_text args)"
      by (simp add: uintToString_value)
    have "is_digit (hd ?ds)" using ds uintToString_nonempty [of "unat i"] by simp
    then have "deref (?ds @ '']'' @ path_text args) \<noteq> CHR ''%''"
      using uintToString_nonempty [of "unat i"] by (cases ?ds) (auto simp: deref_def is_digit_def)
    with index Cons.IH [OF plain, of "acc @ [kindIndex i]"] kindIndex show ?thesis
      by (subst makePath.simps) simp
  next
    case (kindKey k)
    with Cons.prems have k: "plain_key k" by (simp add: plain_path_def)
    then obtain c cs where cs: "k = c # cs" by (cases k) (auto simp: plain_key_def)
    have tail: "takeWhile (\<lambda>c. \<not> ends_name c) (cs @ path_text args) = cs"
      "dropWhile (\<lambda>c. \<not> ends_name c) (cs @ path_text args) = path_text args"
      using k path_text_starts [OF plain]
      by (auto simp: plain_key_def cs takeWhile_append dropWhile_append takeWhile_eq_Nil_iff dropWhile_eq_self_iff)
    have "c_str k = k" unfolding c_str_def
      using k by (intro takeWhile_eq_all_conv [THEN iffD2]) (auto simp: plain_key_def ends_name_def)
    moreover have "c \<noteq> CHR ''%''" "\<not> ends_name c" using k by (simp_all add: plain_key_def cs)
    ultimately show ?thesis
      using Cons.IH [OF plain, of "acc @ [kindKey k]"] tail kindKey cs
      by (simp add: makePath_dot makePath_name PathArgument_of_string_def)
  qed
qed

section \<open>Where the parser ends\<close>

lemma path_index_rest: "length (snd (path_index n cs)) \<le> length cs" "set (snd (path_index n cs)) \<subseteq> set cs"
  by (induction n cs rule: path_index.induct) auto

lemma set_tl: "set (tl xs) \<subseteq> set xs"
  by (cases xs) auto

lemma makePath_ends: "NUL \<notin> set path \<Longrightarrow> \<exists>args'. makePath ins path args = Some args'"
proof (induction "length path" arbitrary: path args rule: less_induct)
  case less
  show ?case
  proof (cases path)
    case Nil
    then show ?thesis by (subst makePath.simps) simp
  next
    case (Cons c rest)
    have next_ends: "\<exists>args'. makePath ins p a = Some args'" if "length p \<le> length rest" "set p \<subseteq> set rest" for p a
      using less.hyps [of p a] less.prems that Cons by auto
    have index: "\<exists>args'. makePath ins (tl (snd (path_index 0 rest))) a = Some args'" for a
      using path_index_rest [of 0 rest] set_tl [of "snd (path_index 0 rest)"] by (intro next_ends) auto
    have arg: "\<exists>args'. makePath ins (tl rest) a = Some args'" for a
      using set_tl [of rest] by (intro next_ends) auto
    consider "c = CHR ''['' \<or> c = CHR ''%'' \<or> c = CHR ''.''" | "c \<noteq> CHR ''%''" "\<not> ends_name c"
      using less.prems Cons by (auto simp: ends_name_def)
    then show ?thesis
    proof cases
      case 1
      then show ?thesis unfolding Cons
        by (subst makePath.simps) (auto intro: index arg next_ends)
    next
      case 2
      then show ?thesis unfolding Cons
        by (subst makePath_name) (auto intro!: next_ends simp: length_dropWhile_le dest: set_dropWhileD)
    qed
  qed
qed

lemma makePath_stuck:
  assumes "makePath ins current args = Some r"
  shows "current = [] \<or> hd current \<noteq> NUL"
proof (rule makePath.raw_induct [where P = "\<lambda>ins current args r. current = [] \<or> hd current \<noteq> NUL",
    OF _ assms], goal_cases)
  case (1 f ins current args r)
  show ?case
  proof (cases current)
    case (Cons c rest)
    show ?thesis
    proof (cases "c = NUL")
      case True
      with 1(2) Cons have "f ins current (args @ [PathArgument_of_string []]) = Some r"
        by (simp add: NUL_def ends_name_def)
      then show ?thesis by (rule 1(1))
    qed (simp add: Cons)
  qed simp
qed

section \<open>Properties\<close>

text \<open>
  A path of indices and keys, written in the documented syntax, is parsed back exactly, whatever
  arguments come with it; an index of up to 32 bits and every key that is not empty, does not
  start with a percent sign and has no bracket, dot or NUL in it.
\<close>
theorem path_roundtrip:
  assumes "plain_path args"
  shows "Path_new (path_text args) arguments = Some args"
  using makePath_text [OF assms, of _ "[]"] by (simp add: Path_new_def)

theorem path_roundtrip_witness:
  "Path_new ''[0][12].name.x[3]'' [] = Some [kindIndex 0, kindIndex 12, kindKey ''name'', kindKey ''x'', kindIndex 3]"
proof -
  let ?args = "[kindIndex 0, kindIndex 12, kindKey ''name'', kindKey ''x'', kindIndex 3]"
  have "path_text ?args = ''[0][12].name.x[3]''" by code_simp
  moreover have "plain_path ?args" by (simp add: plain_path_def plain_key_def ends_name_def NUL_def)
  ultimately show ?thesis using path_roundtrip [of ?args "[]"] by (simp only:)
qed

text \<open>
  Following and making a path agree. Where a path can be followed in a value, \<open>make\<close> returns the
  same value, and after an assignment to it the path leads to what was assigned, while every path
  that parts from it leads where it led before; where it cannot be followed, \<open>make\<close> throws too. The
  variant with a default never throws, and returns the default or what the path leads to.
\<close>
theorem make_resolve:
  "(case Path_resolve args root of
     Inl e \<Rightarrow> \<exists>e'. snd (Path_make args f root) = Inl e'
   | Inr v \<Rightarrow> snd (Path_make args f root) = Inr v
       \<and> Path_resolve args (fst (Path_make args f root)) = Inr (f v)
       \<and> (\<forall>other. parts args other \<longrightarrow>
            Path_resolve other (fst (Path_make args f root)) = Path_resolve other root))
   \<and> (\<exists>v. Path_resolve_default args root d = Inr v \<and> (v = d \<or> Path_resolve args root = Inr v))"
  using make_spec [of args root] make_throws [of args root] resolve_default_total
  by (auto split: sum.split)

text \<open>
  Parsing ends for every path without a NUL, whatever it consists of; a NUL where a name
  begins keeps it in its loop for ever.
\<close>
theorem path_parse_ends:
  assumes "NUL \<notin> set path"
  shows "Path_new path arguments \<noteq> None \<and> Path_new (NUL # path) arguments = None"
proof
  show "Path_new path arguments \<noteq> None"
    using makePath_ends [OF assms] by (auto simp: Path_new_def)
  have "Path_new (NUL # path) arguments \<noteq> Some r" for r
    unfolding Path_new_def using makePath_stuck [of _ "NUL # path"] by fastforce
  then show "Path_new (NUL # path) arguments = None" by (metis not_None_eq)
qed

theorem path_parse_ends_witness:
  "Path_new ''[7%..['' [] \<noteq> None \<and> Path_new (NUL # ''[7%..['') [] = None"
  by (rule path_parse_ends) (simp add: NUL_def)

text \<open>
  The documented \<open>[%]\<close> takes its argument, but then the percent sign for the closing bracket: the real
  one becomes a key. Only the first argument is ever used.
\<close>

lemma percent_index_broken:
  "Path_new ''[%]'' [kindIndex 4] = Some [kindIndex 4, kindKey '']'']"
  "Path_new ''%.%'' [kindKey ''a'', kindKey ''b''] = Some [kindKey ''a'', kindKey ''a'']"
  by (simp_all add: Path_new_def, (subst makePath.simps, simp add: deref_def addPathInArg_def
      ends_name_def NUL_def PathArgument_of_string_def c_str_def)+)

end
