(* ===== verification/JsonOrder.thy ===== *)
theory JsonOrder
  imports JsonWriter Complex_Main
begin

text \<open>
  The order of values of the embedded jsoncpp (\<open>operator<\<close>, \<open>operator==\<close> and \<open>compare\<close> of class \<open>Value\<close> in
  \<open>third/eice/src/jsoncpp.cpp\<close>): on values without a NaN it is what sorting and \<open>std::map\<close> ask of a
  comparison.
\<close>

section \<open>Strict weak orders\<close>

text \<open>\<open>lt\<close> as the comparison of a container: it never holds both ways, and not being after is transitive.\<close>

definition weak_order_on :: "'a set \<Rightarrow> ('a \<Rightarrow> 'a \<Rightarrow> bool) \<Rightarrow> bool" where
  "weak_order_on A lt \<longleftrightarrow>
     (\<forall>x \<in> A. \<forall>y \<in> A. lt x y \<longrightarrow> \<not> lt y x)
     \<and> (\<forall>x \<in> A. \<forall>y \<in> A. \<forall>z \<in> A. \<not> lt y x \<longrightarrow> \<not> lt z y \<longrightarrow> \<not> lt z x)"

lemma weak_orderI:
  assumes "\<And>x y. x \<in> A \<Longrightarrow> y \<in> A \<Longrightarrow> lt x y \<Longrightarrow> \<not> lt y x"
    and "\<And>x y z. x \<in> A \<Longrightarrow> y \<in> A \<Longrightarrow> z \<in> A \<Longrightarrow> \<not> lt y x \<Longrightarrow> \<not> lt z y \<Longrightarrow> \<not> lt z x"
  shows "weak_order_on A lt"
  using assms unfolding weak_order_on_def by blast

lemma weak_order_asym: "weak_order_on A lt \<Longrightarrow> x \<in> A \<Longrightarrow> y \<in> A \<Longrightarrow> lt x y \<Longrightarrow> \<not> lt y x"
  unfolding weak_order_on_def by blast

lemma weak_order_trans:
  "weak_order_on A lt \<Longrightarrow> x \<in> A \<Longrightarrow> y \<in> A \<Longrightarrow> z \<in> A \<Longrightarrow> \<not> lt y x \<Longrightarrow> \<not> lt z y \<Longrightarrow> \<not> lt z x"
  unfolding weak_order_on_def by blast

lemma weak_order_subset: "weak_order_on A lt \<Longrightarrow> B \<subseteq> A \<Longrightarrow> weak_order_on B lt"
  unfolding weak_order_on_def by blast

text \<open>Pairs, by key and then by value, and lists of them, as \<open>std::map\<close> compares.\<close>

definition pair_lt :: "('a \<Rightarrow> 'a \<Rightarrow> bool) \<Rightarrow> 'k::linorder \<times> 'a \<Rightarrow> 'k \<times> 'a \<Rightarrow> bool" where
  "pair_lt lt p q \<longleftrightarrow> fst p < fst q \<or> \<not> fst q < fst p \<and> lt (snd p) (snd q)"

lemma pair_lt_pair: "pair_lt lt (i, a) (j, b) \<longleftrightarrow> i < j \<or> \<not> j < i \<and> lt a b"
  by (simp add: pair_lt_def)

fun lex_lt :: "('a \<Rightarrow> 'a \<Rightarrow> bool) \<Rightarrow> 'a list \<Rightarrow> 'a list \<Rightarrow> bool" where
  "lex_lt lt xs [] = False"
| "lex_lt lt [] (y # ys) = True"
| "lex_lt lt (x # xs) (y # ys) = (lt x y \<or> \<not> lt y x \<and> lex_lt lt xs ys)"

lemma weak_order_pairs:
  assumes "weak_order_on A lt"
  shows "weak_order_on (UNIV \<times> A) (pair_lt lt :: 'k::linorder \<times> 'a \<Rightarrow> _)"
proof (rule weak_orderI)
  fix p q :: "'k \<times> 'a" assume "p \<in> UNIV \<times> A" "q \<in> UNIV \<times> A" "pair_lt lt p q"
  with weak_order_asym [OF assms, of "snd p" "snd q"] show "\<not> pair_lt lt q p"
    by (auto simp: pair_lt_def mem_Times_iff)
next
  fix p q r :: "'k \<times> 'a" assume "p \<in> UNIV \<times> A" "q \<in> UNIV \<times> A" "r \<in> UNIV \<times> A"
    "\<not> pair_lt lt q p" "\<not> pair_lt lt r q"
  with weak_order_trans [OF assms, of "snd p" "snd q" "snd r"] show "\<not> pair_lt lt r p"
    by (auto simp: pair_lt_def mem_Times_iff)
qed

lemma weak_order_lists:
  assumes "weak_order_on A lt"
  shows "weak_order_on (lists A) (lex_lt lt)"
proof (rule weak_orderI)
  fix xs ys assume "xs \<in> lists A" "ys \<in> lists A" "lex_lt lt xs ys"
  then show "\<not> lex_lt lt ys xs"
  proof (induction xs arbitrary: ys rule: list.induct)
    case Nil
    then show ?case by (cases ys) simp_all
  next
    case (Cons x xs)
    obtain y ys' where y: "ys = y # ys'" using Cons.prems(3) by (cases ys) simp_all
    with Cons weak_order_asym [OF assms, of x y] show ?case by auto
  qed
next
  fix xs ys zs assume "xs \<in> lists A" "ys \<in> lists A" "zs \<in> lists A"
    "\<not> lex_lt lt ys xs" "\<not> lex_lt lt zs ys"
  then show "\<not> lex_lt lt zs xs"
  proof (induction xs arbitrary: ys zs rule: list.induct)
    case Nil
    then show ?case by simp
  next
    case (Cons x xs)
    obtain y ys' where y: "ys = y # ys'" using Cons.prems(4) by (cases ys) simp_all
    obtain z zs' where z: "zs = z # zs'" using Cons.prems(5) y by (cases zs) simp_all
    note t = weak_order_trans [OF assms] and a = weak_order_asym [OF assms]
    have in_A: "x \<in> A" "y \<in> A" "z \<in> A" using Cons.prems(1-3) y z by auto
    have le: "\<not> lt y x" "\<not> lt z y" using Cons.prems(4,5) y z by auto
    then have le': "\<not> lt z x" using t in_A by blast
    show ?case
    proof (cases "lt x z")
      case True
      with le' show ?thesis by (simp add: z)
    next
      case False
      have "\<not> lt x y" using t [OF in_A(2,3,1)] le(2) False by blast
      moreover have "\<not> lt y z" using t [OF in_A(3,1,2)] le(1) False by blast
      ultimately have "\<not> lex_lt lt ys' xs" "\<not> lex_lt lt zs' ys'"
        using Cons.prems(4,5) y z le by auto
      then have "\<not> lex_lt lt zs' xs" using Cons.IH [of ys' zs'] Cons.prems(1-3) y z by auto
      with le' show ?thesis by (simp add: z)
    qed
  qed
qed

section \<open>Doubles\<close>

definition dbl_value :: "cdouble \<Rightarrow> real" where
  "dbl_value d = of_int (dbl_mant d) * 2 powi dbl_scale d"

text \<open>Minus infinity, the finite doubles, infinity.\<close>

definition dbl_rank :: "cdouble \<Rightarrow> int" where
  "dbl_rank d = (if dbl_inf d then if dbl_sign d then - 1 else 1 else 0)"

lemma scaled_le_value:
  "scaled_le m e m' e' \<longleftrightarrow> of_int m * (2 :: real) powi e \<le> of_int m' * 2 powi e'"
proof -
  let ?k = "min e e'"
  have p: "(2 :: real) powi x = 2 powi ?k * 2 ^ nat (x - ?k)" if "?k \<le> x" for x
  proof -
    have "(2 :: real) powi x = 2 powi ?k * 2 powi (x - ?k)"
      by (subst power_int_add [symmetric]) simp_all
    with that show ?thesis by (simp add: power_int_def)
  qed
  have "of_int m * (2 :: real) powi e \<le> of_int m' * 2 powi e'
      \<longleftrightarrow> 2 powi ?k * (of_int m * 2 ^ nat (e - ?k)) \<le> (2 powi ?k * (of_int m' * 2 ^ nat (e' - ?k)) :: real)"
    using p [of e] p [of e'] by (simp add: mult.left_commute)
  also have "\<dots> \<longleftrightarrow> of_int m * 2 ^ nat (e - ?k) \<le> (of_int m' * 2 ^ nat (e' - ?k) :: real)"
    by (subst mult_le_cancel_left_pos) simp_all
  also have "\<dots> \<longleftrightarrow> (of_int (m * 2 ^ nat (e - ?k)) :: real) \<le> of_int (m' * 2 ^ nat (e' - ?k))" by simp
  also have "\<dots> \<longleftrightarrow> scaled_le m e m' e'" unfolding scaled_le_def by (rule of_int_le_iff)
  finally show ?thesis by blast
qed

lemma dbl_le_rank:
  "\<not> dbl_nan a \<Longrightarrow> \<not> dbl_nan b \<Longrightarrow> dbl_le a b \<longleftrightarrow>
    dbl_rank a < dbl_rank b \<or> dbl_rank a = dbl_rank b \<and> (dbl_rank a = 0 \<longrightarrow> dbl_value a \<le> dbl_value b)"
  by (auto simp: dbl_le_def dbl_rank_def dbl_value_def scaled_le_value)

lemma dbl_lt_rank:
  "\<not> dbl_nan a \<Longrightarrow> \<not> dbl_nan b \<Longrightarrow> dbl_lt a b \<longleftrightarrow>
    dbl_rank a < dbl_rank b \<or> dbl_rank a = dbl_rank b \<and> dbl_rank a = 0 \<and> dbl_value a < dbl_value b"
  unfolding dbl_lt_def dbl_le_rank by linarith

lemma weak_order_doubles: "weak_order_on {d. \<not> dbl_nan d} dbl_lt"
proof (rule weak_orderI)
  fix a b assume "a \<in> {d. \<not> dbl_nan d}" "b \<in> {d. \<not> dbl_nan d}" "dbl_lt a b"
  then show "\<not> dbl_lt b a" by (simp add: dbl_lt_def)
next
  fix a b c assume "a \<in> {d. \<not> dbl_nan d}" "b \<in> {d. \<not> dbl_nan d}" "c \<in> {d. \<not> dbl_nan d}"
    "\<not> dbl_lt b a" "\<not> dbl_lt c b"
  then show "\<not> dbl_lt c a" by (simp add: dbl_lt_rank) linarith
qed

lemma dbl_eq_incomparable:
  "\<not> dbl_nan a \<Longrightarrow> \<not> dbl_nan b \<Longrightarrow> dbl_eq a b \<longleftrightarrow> \<not> dbl_lt a b \<and> \<not> dbl_lt b a"
  unfolding dbl_lt_def dbl_eq_def dbl_le_rank by linarith

section \<open>Values\<close>

fun no_nan :: "Value \<Rightarrow> bool" where
  "no_nan (realValue d) = (\<not> dbl_nan d)"
| "no_nan (arrayValue m) = (\<forall>(i, x) \<in> set m. no_nan x)"
| "no_nan (objectValue m) = (\<forall>(k, x) \<in> set m. no_nan x)"
| "no_nan _ = True"

lemma array_lt_lex: "array_lt as bs \<longleftrightarrow> lex_lt (pair_lt Value_lt) as bs"
proof (induction "as" arbitrary: bs)
  case Nil
  show ?case by (subst array_lt.simps, cases bs) simp_all
next
  case (Cons a as')
  note Cons_IH = Cons.IH
  show ?case
  proof (cases bs)
    case Nil
    then show ?thesis by (subst array_lt.simps) simp
  next
    case (Cons b bs')
    obtain i x j y where "a = (i, x)" "b = (j, y)" by (cases a; cases b)
    then show ?thesis unfolding Cons
      by (subst array_lt.simps) (simp add: Cons_IH pair_lt_pair)
  qed
qed

lemma object_lt_lex: "object_lt as bs \<longleftrightarrow> lex_lt (pair_lt Value_lt) as bs"
proof (induction "as" arbitrary: bs)
  case Nil
  show ?case by (subst object_lt.simps, cases bs) simp_all
next
  case (Cons a as')
  note Cons_IH = Cons.IH
  show ?case
  proof (cases bs)
    case Nil
    then show ?thesis by (subst object_lt.simps) simp
  next
    case (Cons b bs')
    obtain i x j y where "a = (i, x)" "b = (j, y)" by (cases a; cases b)
    then show ?thesis unfolding Cons
      by (subst object_lt.simps) (simp add: Cons_IH pair_lt_pair)
  qed
qed

text \<open>Containers: by size, then element by element.\<close>

definition sized_lt :: "('k::linorder \<times> Value) list \<Rightarrow> ('k \<times> Value) list \<Rightarrow> bool" where
  "sized_lt a b \<longleftrightarrow> (if length a \<noteq> length b then length a < length b else lex_lt (pair_lt Value_lt) a b)"

lemma Value_lt_type: "Value_type v \<noteq> Value_type w \<Longrightarrow> Value_lt v w \<longleftrightarrow> Value_type v < Value_type w"
  by (subst Value_lt.simps) (auto split: Value.split)

lemma Value_lt_same:
  "\<not> Value_lt nullValue nullValue"
  "Value_lt (intValue i) (intValue j) \<longleftrightarrow> i < j"
  "Value_lt (uintValue u) (uintValue w) \<longleftrightarrow> u < w"
  "Value_lt (realValue d) (realValue e) \<longleftrightarrow> dbl_lt d e"
  "Value_lt (stringValue s) (stringValue t) \<longleftrightarrow> s < t"
  "Value_lt (booleanValue b) (booleanValue c) \<longleftrightarrow> \<not> b \<and> c"
  "Value_lt (arrayValue m) (arrayValue m') \<longleftrightarrow> sized_lt m m'"
  "Value_lt (objectValue n) (objectValue n') \<longleftrightarrow> sized_lt n n'"
  by (simp_all add: Value_lt.simps [of nullValue] Value_lt.simps [of "intValue _"] Value_lt.simps [of "uintValue _"]
      Value_lt.simps [of "realValue _"] Value_lt.simps [of "stringValue _"] Value_lt.simps [of "booleanValue _"]
      Value_lt.simps [of "arrayValue _"] Value_lt.simps [of "objectValue _"] array_lt_lex object_lt_lex sized_lt_def)

lemma same_type_cases:
  assumes "Value_type v = Value_type w"
  obtains "v = nullValue" "w = nullValue" | i j where "v = intValue i" "w = intValue j"
    | i j where "v = uintValue i" "w = uintValue j" | i j where "v = realValue i" "w = realValue j"
    | i j where "v = stringValue i" "w = stringValue j" | i j where "v = booleanValue i" "w = booleanValue j"
    | i j where "v = arrayValue i" "w = arrayValue j" | i j where "v = objectValue i" "w = objectValue j"
  using assms by (cases v; cases w) simp_all

abbreviation smaller :: "nat \<Rightarrow> Value set" where
  "smaller n \<equiv> {v. no_nan v \<and> size v < n}"

lemma weak_order_sized:
  assumes "weak_order_on (smaller n) Value_lt"
  shows "weak_order_on (lists (UNIV \<times> smaller n)) (sized_lt :: ('k::linorder \<times> Value) list \<Rightarrow> _)"
proof -
  note lists = weak_order_lists [OF weak_order_pairs [OF assms]]
  show ?thesis
  proof (rule weak_orderI)
    fix a b :: "('k \<times> Value) list"
    assume "a \<in> lists (UNIV \<times> smaller n)" "b \<in> lists (UNIV \<times> smaller n)" "sized_lt a b"
    with weak_order_asym [OF lists, of a b] show "\<not> sized_lt b a"
      by (cases "length a = length b") (simp_all add: sized_lt_def)
  next
    fix a b c :: "('k \<times> Value) list"
    assume *: "a \<in> lists (UNIV \<times> smaller n)" "b \<in> lists (UNIV \<times> smaller n)" "c \<in> lists (UNIV \<times> smaller n)"
      "\<not> sized_lt b a" "\<not> sized_lt c b"
    then have "length a \<le> length b" "length b \<le> length c" by (auto simp: sized_lt_def split: if_split_asm)
    with * weak_order_trans [OF lists *(1-3)] show "\<not> sized_lt c a"
      by (cases "length a = length b"; cases "length b = length c") (simp_all add: sized_lt_def)
  qed
qed

lemma in_container:
  assumes "\<forall>(k, x) \<in> set m. no_nan x" "size_list (\<lambda>p. Suc (size (snd p))) m < n"
  shows "m \<in> lists (UNIV \<times> smaller n)"
proof -
  have "no_nan x \<and> size x < n" if "(k, x) \<in> set m" for k x
    using assms size_in_map [OF that] that by fastforce
  then show ?thesis by auto
qed

lemma weak_order_smaller: "weak_order_on (smaller n) Value_lt"
proof (induction n)
  case 0
  show ?case by (simp add: weak_order_on_def)
next
  case (Suc n)
  note arrays = weak_order_sized [OF Suc.IH, where 'k = nat]
  note objects = weak_order_sized [OF Suc.IH, where 'k = string]
  have array_in: "m \<in> lists (UNIV \<times> smaller n)" if "arrayValue m \<in> smaller (Suc n)" for m
    using that by (intro in_container) (simp_all add: size_prod_simp)
  have object_in: "m \<in> lists (UNIV \<times> smaller n)" if "objectValue m \<in> smaller (Suc n)" for m
    using that by (intro in_container) (simp_all add: size_prod_simp)
  show ?case
  proof (rule weak_orderI)
    fix x y assume xy: "x \<in> smaller (Suc n)" "y \<in> smaller (Suc n)" "Value_lt x y"
    show "\<not> Value_lt y x"
    proof (cases "Value_type x = Value_type y")
      case False
      with xy(3) show ?thesis by (simp add: Value_lt_type)
    next
      case True
      then show ?thesis
      proof (cases rule: same_type_cases)
        case (4 i j)
        with xy weak_order_asym [OF weak_order_doubles, of i j] show ?thesis by (simp add: Value_lt_same)
      next
        case (7 i j)
        with xy weak_order_asym [OF arrays array_in array_in, of i j] show ?thesis by (simp add: Value_lt_same)
      next
        case (8 i j)
        with xy weak_order_asym [OF objects object_in object_in, of i j] show ?thesis by (simp add: Value_lt_same)
      qed (use xy in \<open>auto simp: Value_lt_same\<close>)
    qed
  next
    fix x y z assume xyz: "x \<in> smaller (Suc n)" "y \<in> smaller (Suc n)" "z \<in> smaller (Suc n)"
      "\<not> Value_lt y x" "\<not> Value_lt z y"
    have le: "Value_type x \<le> Value_type y" "Value_type y \<le> Value_type z"
      using xyz(4,5) Value_lt_type [of y x] Value_lt_type [of z y]
      by (cases "Value_type x = Value_type y"; cases "Value_type y = Value_type z"; simp)+
    show "\<not> Value_lt z x"
    proof (cases "Value_type z = Value_type x")
      case False
      with le show ?thesis by (simp add: Value_lt_type)
    next
      case True
      with le have t: "Value_type x = Value_type y" "Value_type y = Value_type z" by simp_all
      from t(1) show ?thesis
      proof (cases rule: same_type_cases)
        case 1
        then show ?thesis using xyz t(2) by (cases z) (simp_all add: Value_lt_same)
      next
        case (4 i j)
        then obtain k where "z = realValue k" using t(2) by (cases z) simp_all
        with 4 xyz weak_order_trans [OF weak_order_doubles, of i j k] show ?thesis by (simp add: Value_lt_same)
      next
        case (7 i j)
        then obtain k where "z = arrayValue k" using t(2) by (cases z) simp_all
        with 7 xyz weak_order_trans [OF arrays array_in array_in array_in, of i j k] show ?thesis
          by (simp add: Value_lt_same)
      next
        case (8 i j)
        then obtain k where "z = objectValue k" using t(2) by (cases z) simp_all
        with 8 xyz weak_order_trans [OF objects object_in object_in object_in, of i j k] show ?thesis
          by (simp add: Value_lt_same)
      next
        case (2 i j)
        then obtain k where "z = intValue k" using t(2) by (cases z) simp_all
        with 2 xyz show ?thesis by (simp add: Value_lt_same)
      next
        case (3 i j)
        then obtain k where "z = uintValue k" using t(2) by (cases z) simp_all
        with 3 xyz show ?thesis by (simp add: Value_lt_same)
      next
        case (5 i j)
        then obtain k where "z = stringValue k" using t(2) by (cases z) simp_all
        with 5 xyz show ?thesis by (simp add: Value_lt_same)
      next
        case (6 i j)
        then obtain k where "z = booleanValue k" using t(2) by (cases z) simp_all
        with 6 xyz show ?thesis by (auto simp: Value_lt_same)
      qed
    qed
  qed
qed

lemma weak_order_values: "weak_order_on {v. no_nan v} Value_lt"
proof (rule weak_orderI)
  fix x y assume "x \<in> {v. no_nan v}" "y \<in> {v. no_nan v}" "Value_lt x y"
  with weak_order_asym [OF weak_order_smaller [of "Suc (size x + size y)"], of x y] show "\<not> Value_lt y x" by simp
next
  fix x y z assume "x \<in> {v. no_nan v}" "y \<in> {v. no_nan v}" "z \<in> {v. no_nan v}" "\<not> Value_lt y x" "\<not> Value_lt z y"
  with weak_order_trans [OF weak_order_smaller [of "Suc (size x + size y + size z)"], of x y z]
  show "\<not> Value_lt z x" by simp
qed

section \<open>Equality\<close>

definition pair_eq :: "'k \<times> Value \<Rightarrow> 'k \<times> Value \<Rightarrow> bool" where
  "pair_eq p q \<longleftrightarrow> fst p = fst q \<and> Value_eq (snd p) (snd q)"

lemma pair_eq_pair: "pair_eq (i, a) (j, b) \<longleftrightarrow> i = j \<and> Value_eq a b"
  by (simp add: pair_eq_def)

lemma array_eq_list: "array_eq as bs \<longleftrightarrow> list_all2 pair_eq as bs"
proof (induction "as" arbitrary: bs)
  case Nil
  show ?case by (subst array_eq.simps, cases bs) simp_all
next
  case (Cons a as')
  note Cons_IH = Cons.IH
  show ?case
    by (subst array_eq.simps, cases bs, cases a, simp, cases a) (simp add: Cons_IH pair_eq_pair split: prod.split)
qed

lemma object_eq_list: "object_eq as bs \<longleftrightarrow> list_all2 pair_eq as bs"
proof (induction "as" arbitrary: bs)
  case Nil
  show ?case by (subst object_eq.simps, cases bs) simp_all
next
  case (Cons a as')
  note Cons_IH = Cons.IH
  show ?case
    by (subst object_eq.simps, cases bs, cases a, simp, cases a) (simp add: Cons_IH pair_eq_pair split: prod.split)
qed

lemma Value_eq_type: "Value_type v \<noteq> Value_type w \<Longrightarrow> \<not> Value_eq v w"
  by (subst Value_eq.simps) (auto split: Value.split)

lemma Value_eq_same:
  "Value_eq nullValue nullValue"
  "Value_eq (intValue i) (intValue j) \<longleftrightarrow> i = j"
  "Value_eq (uintValue u) (uintValue w) \<longleftrightarrow> u = w"
  "Value_eq (realValue d) (realValue e) \<longleftrightarrow> dbl_eq d e"
  "Value_eq (stringValue s) (stringValue t) \<longleftrightarrow> s = t"
  "Value_eq (booleanValue b) (booleanValue c) \<longleftrightarrow> b = c"
  "Value_eq (arrayValue m) (arrayValue m') \<longleftrightarrow> list_all2 pair_eq m m'"
  "Value_eq (objectValue n) (objectValue n') \<longleftrightarrow> list_all2 pair_eq n n'"
  by (auto simp: Value_eq.simps [of nullValue] Value_eq.simps [of "intValue _"] Value_eq.simps [of "uintValue _"]
      Value_eq.simps [of "realValue _"] Value_eq.simps [of "stringValue _"] Value_eq.simps [of "booleanValue _"]
      Value_eq.simps [of "arrayValue _"] Value_eq.simps [of "objectValue _"] array_eq_list object_eq_list
      dest: list_all2_lengthD)

lemma lex_incomparable:
  "length xs = length ys \<Longrightarrow> \<not> lex_lt lt xs ys \<and> \<not> lex_lt lt ys xs
    \<longleftrightarrow> list_all2 (\<lambda>x y. \<not> lt x y \<and> \<not> lt y x) xs ys"
  by (induction xs ys rule: list_induct2) auto

lemma sized_incomparable:
  assumes "\<And>x y. x \<in> snd ` set a \<Longrightarrow> y \<in> snd ` set b \<Longrightarrow> Value_eq x y \<longleftrightarrow> \<not> Value_lt x y \<and> \<not> Value_lt y x"
  shows "list_all2 pair_eq a b \<longleftrightarrow> \<not> sized_lt a b \<and> \<not> sized_lt b a"
proof (cases "length a = length b")
  case False
  then have "\<not> list_all2 pair_eq a b" by (auto dest: list_all2_lengthD)
  with False show ?thesis by (auto simp: sized_lt_def)
next
  case True
  have "list_all2 pair_eq a b \<longleftrightarrow> list_all2 (\<lambda>x y. \<not> pair_lt Value_lt x y \<and> \<not> pair_lt Value_lt y x) a b"
    using assms by (intro list.rel_cong refl) (auto simp: pair_eq_def pair_lt_def)
  with True lex_incomparable [OF True, of "pair_lt Value_lt"] show ?thesis by (simp add: sized_lt_def)
qed

lemma Value_eq_incomparable:
  "no_nan v \<Longrightarrow> no_nan w \<Longrightarrow> Value_eq v w \<longleftrightarrow> \<not> Value_lt v w \<and> \<not> Value_lt w v"
proof (induction "size v" arbitrary: v w rule: less_induct)
  case less
  show ?case
  proof (cases "Value_type v = Value_type w")
    case False
    then show ?thesis by (auto simp: Value_eq_type Value_lt_type)
  next
    case True
    then show ?thesis
    proof (cases rule: same_type_cases)
      case (4 i j)
      with less.prems show ?thesis by (simp add: Value_eq_same Value_lt_same dbl_eq_incomparable)
    next
      case (7 i j)
      have "Value_eq x y \<longleftrightarrow> \<not> Value_lt x y \<and> \<not> Value_lt y x" if "x \<in> snd ` set i" "y \<in> snd ` set j" for x y
        using less.prems 7 that size_in_map [of _ x i] by (intro less.hyps) (fastforce simp: size_prod_simp)+
      with 7 show ?thesis by (simp add: Value_eq_same Value_lt_same sized_incomparable)
    next
      case (8 i j)
      have "Value_eq x y \<longleftrightarrow> \<not> Value_lt x y \<and> \<not> Value_lt y x" if "x \<in> snd ` set i" "y \<in> snd ` set j" for x y
        using less.prems 8 that size_in_map [of _ x i] by (intro less.hyps) (fastforce simp: size_prod_simp)+
      with 8 show ?thesis by (simp add: Value_eq_same Value_lt_same sized_incomparable)
    qed (auto simp: Value_eq_same Value_lt_same)
  qed
qed

section \<open>Properties\<close>

text \<open>
  On values without a NaN \<open>operator<\<close> is a strict weak order, what \<open>std::sort\<close> and \<open>std::map\<close> need:
  no value is less than itself, less-than is transitive, and neither being less than the other
  is an equivalence; that equivalence is \<open>operator==\<close>, and \<open>compare\<close> tells the three outcomes apart.
\<close>
theorem value_order:
  assumes "no_nan u" "no_nan v" "no_nan w"
  shows "\<not> Value_lt v v
    \<and> (Value_lt u v \<longrightarrow> Value_lt v w \<longrightarrow> Value_lt u w)
    \<and> (Value_eq v w \<longleftrightarrow> \<not> Value_lt v w \<and> \<not> Value_lt w v)
    \<and> Value_eq v v \<and> (Value_eq u v \<longrightarrow> Value_eq v w \<longrightarrow> Value_eq u w)
    \<and> (Value_eq u v \<longrightarrow> Value_lt u w = Value_lt v w \<and> Value_lt w u = Value_lt w v)
    \<and> Value_compare w v = - Value_compare v w
    \<and> (Value_compare v w < 0 \<longleftrightarrow> Value_lt v w) \<and> (Value_compare v w = 0 \<longleftrightarrow> Value_eq v w)"
proof -
  have asym: "\<not> Value_lt b a" if "Value_lt a b" "no_nan a" "no_nan b" for a b
    using weak_order_asym [OF weak_order_values, of a b] that by simp
  have le: "\<not> Value_lt c a" if "\<not> Value_lt b a" "\<not> Value_lt c b" "no_nan a" "no_nan b" "no_nan c" for a b c
    using weak_order_trans [OF weak_order_values, of a b c] that by simp
  note eq = Value_eq_incomparable
  show ?thesis
  proof (intro conjI impI)
    show "\<not> Value_lt v v" using asym assms by blast
    show "Value_lt u w" if "Value_lt u v" "Value_lt v w"
      using le [of w v u] asym [of u v] asym [of v w] that assms by blast
    show "Value_eq v w \<longleftrightarrow> \<not> Value_lt v w \<and> \<not> Value_lt w v" using assms by (simp add: eq)
    show "Value_eq v v" using asym [of v v] assms by (auto simp: eq)
    show "Value_eq u w" if "Value_eq u v" "Value_eq v w"
      using le [of v w u] le [of v u w] that assms by (simp add: eq)
    show "Value_lt u w = Value_lt v w" if "Value_eq u v"
      using le [of v w u] le [of u w v] that assms by (auto simp: eq)
    show "Value_lt w u = Value_lt w v" if "Value_eq u v"
      using le [of v u w] le [of u v w] that assms by (auto simp: eq)
    show "Value_compare w v = - Value_compare v w" "Value_compare v w < 0 \<longleftrightarrow> Value_lt v w"
      "Value_compare v w = 0 \<longleftrightarrow> Value_eq v w"
      using asym [of v w] assms by (auto simp: Value_compare_def eq)
  qed
qed

theorem value_order_witness:
  "\<not> Value_lt (stringValue ''b'') (stringValue ''b'')
    \<and> Value_lt (intValue 1) (arrayValue [(0, stringValue ''b'')])"
proof -
  have "Value_lt (intValue 1) (stringValue ''b'')" "Value_lt (stringValue ''b'') (arrayValue [(0, stringValue ''b'')])"
    by (simp_all add: Value_lt_type)
  with value_order [of "intValue 1" "stringValue ''b''" "arrayValue [(0, stringValue ''b'')]"] show ?thesis by simp
qed

text \<open>A NaN is neither less nor greater than any number: \<open>compare\<close> calls it equal, \<open>operator==\<close> does not.\<close>

lemma nan_compares_equal:
  "dbl_nan d \<Longrightarrow> Value_compare (realValue d) (realValue e) = 0 \<and> \<not> Value_eq (realValue d) (realValue e)"
  by (simp add: Value_compare_def Value_lt_same Value_eq_same dbl_lt_def dbl_eq_def dbl_le_def)

end
