(* ===== verification/JsonMemory.thy ===== *)
theory JsonMemory
  imports JsonValue
begin

text \<open>
  Who owns the strings of JSON values (\<open>json_value.cpp\<close> in \<open>third/eice/src/jsoncpp.cpp\<close>). A value holds
  pointers to strings on the heap, some its own and some not; copying, assigning and destroying values
  duplicates and frees them. \<open>JsonValue\<close> and all that is built on it take values as what is read
  through those pointers; here it is proved that they can.
\<close>

section \<open>Strings on the heap\<close>

text \<open>A pointer to a string: into the program text, or to a block got from \<open>malloc\<close>, which is never null here.\<close>

datatype cptr = Literal string | Block nat

datatype mem_error = DanglingRead | BadFree | Throws string

record heap =
  blocks :: "nat \<Rightarrow> string option"
  next_block :: nat

type_synonym 'a mem = "mem_error + ('a \<times> heap)"

definition mbind :: "'a mem \<Rightarrow> ('a \<Rightarrow> heap \<Rightarrow> 'b mem) \<Rightarrow> 'b mem" where
  "mbind m f = (case m of Inl e \<Rightarrow> Inl e | Inr (x, h) \<Rightarrow> f x h)"

fun content :: "heap \<Rightarrow> cptr \<Rightarrow> string option" where
  "content h (Literal s) = Some s"
| "content h (Block b) = blocks h b"

text \<open>\<open>duplicateStringValue\<close>, with a length or, at \<open>unknown\<close>, up to the NUL; both are 32 bits wide.\<close>

definition duplicateStringValue :: "cptr \<Rightarrow> nat option \<Rightarrow> heap \<Rightarrow> nat mem" where
  "duplicateStringValue value len h =
     (case content h value of
        None \<Rightarrow> Inl DanglingRead
      | Some s \<Rightarrow>
          let n = (case len of None \<Rightarrow> length (c_str s) mod 2 ^ 32 | Some n \<Rightarrow> n mod 2 ^ 32);
              n' = (if int n \<ge> maxInt then nat maxInt - 1 else n)
          in if length s < n' then Inl DanglingRead
             else Inr (next_block h, h\<lparr>blocks := (blocks h)(next_block h := Some (take n' s)),
                                       next_block := Suc (next_block h)\<rparr>))"

definition releaseStringValue :: "cptr \<Rightarrow> heap \<Rightarrow> unit mem" where
  "releaseStringValue p h =
     (case p of
        Literal s \<Rightarrow> Inl BadFree
      | Block b \<Rightarrow> if blocks h b = None then Inl BadFree else Inr ((), h\<lparr>blocks := (blocks h)(b := None)\<rparr>))"

section \<open>Comments and keys\<close>

text \<open>\<open>comments_\<close> is null or an array with a place for each kind of comment.\<close>

type_synonym comments = "nat option list option"

definition delete_CommentInfo :: "nat option \<Rightarrow> heap \<Rightarrow> unit mem" where
  "delete_CommentInfo c h = (case c of None \<Rightarrow> Inr ((), h) | Some b \<Rightarrow> releaseStringValue (Block b) h)"

definition CommentInfo_setComment :: "nat option \<Rightarrow> cptr \<Rightarrow> heap \<Rightarrow> nat option mem" where
  "CommentInfo_setComment c text h =
     mbind (delete_CommentInfo c h) (\<lambda>_ h1.
       case content h1 text of
         None \<Rightarrow> Inl DanglingRead
       | Some s \<Rightarrow>
           if c_str s \<noteq> [] \<and> hd s \<noteq> CHR ''/''
           then Inl (Throws ''in Json_em::Value::setComment(): Comments must start with /'')
           else mbind (duplicateStringValue text None h1) (\<lambda>b h2. Inr (Some b, h2)))"

primrec copy_places :: "nat option list \<Rightarrow> heap \<Rightarrow> nat option list mem" where
  "copy_places [] h = Inr ([], h)"
| "copy_places (c # cs) h =
     mbind (case c of None \<Rightarrow> Inr (None, h) | Some b \<Rightarrow> CommentInfo_setComment None (Block b) h) (\<lambda>c' h1.
       mbind (copy_places cs h1) (\<lambda>cs' h2. Inr (c' # cs', h2)))"

primrec delete_places :: "nat option list \<Rightarrow> heap \<Rightarrow> unit mem" where
  "delete_places [] h = Inr ((), h)"
| "delete_places (c # cs) h = mbind (delete_CommentInfo c h) (\<lambda>_ h1. delete_places cs h1)"

definition copy_comments :: "comments \<Rightarrow> heap \<Rightarrow> comments mem" where
  "copy_comments c h =
     (case c of None \<Rightarrow> Inr (None, h) | Some cs \<Rightarrow> mbind (copy_places cs h) (\<lambda>cs' h1. Inr (Some cs', h1)))"

definition delete_comments :: "comments \<Rightarrow> heap \<Rightarrow> unit mem" where
  "delete_comments c h = (case c of None \<Rightarrow> Inr ((), h) | Some cs \<Rightarrow> delete_places (rev cs) h)"

text \<open>\<open>CZString\<close>: an index, or a name with what a copy of it is to do.\<close>

datatype policy = noDuplication | duplicate | duplicateOnCopy

datatype CZString = CZIndex nat | CZName cptr policy

definition CZString_copy :: "CZString \<Rightarrow> heap \<Rightarrow> CZString mem" where
  "CZString_copy k h =
     (case k of
        CZIndex i \<Rightarrow> Inr (CZIndex i, h)
      | CZName p pol \<Rightarrow>
          if pol = noDuplication then Inr (CZName p noDuplication, h)
          else mbind (duplicateStringValue p None h) (\<lambda>b h1. Inr (CZName (Block b) duplicate, h1)))"

definition CZString_delete :: "CZString \<Rightarrow> heap \<Rightarrow> unit mem" where
  "CZString_delete k h =
     (case k of
        CZName p duplicate \<Rightarrow> releaseStringValue p h
      | _ \<Rightarrow> Inr ((), h))"


section \<open>Values\<close>

text \<open>
  A value in memory: what has no pointer is as in \<open>JsonValue\<close>, a string is \<open>string_\<close> with \<open>allocated_\<close>, an
  array or an object its map in key order; each with its comments.
\<close>

datatype mvalue =
    MPlain Value comments
  | MString "cptr option" bool comments
  | MMap bool "(CZString \<times> mvalue) list" comments

fun mcomments :: "mvalue \<Rightarrow> comments" where
  "mcomments (MPlain v c) = c"
| "mcomments (MString p a c) = c"
| "mcomments (MMap o' es c) = c"

fun with_comments :: "comments \<Rightarrow> mvalue \<Rightarrow> mvalue" where
  "with_comments c (MPlain v _) = MPlain v c"
| "with_comments c (MString p a _) = MString p a c"
| "with_comments c (MMap o' es _) = MMap o' es c"

text \<open>The constructors: from a string, from a string that stays, and of a type, with its first value.\<close>

definition Value_new_string :: "string \<Rightarrow> heap \<Rightarrow> mvalue mem" where
  "Value_new_string value h =
     mbind (duplicateStringValue (Literal value) (Some (length value)) h) (\<lambda>b h1. Inr (MString (Some (Block b)) True None, h1))"

definition Value_new_static :: "string \<Rightarrow> mvalue" where
  "Value_new_static value = MString (Some (Literal value)) False None"

definition Value_new_map :: "bool \<Rightarrow> mvalue" where
  "Value_new_map is_object = MMap is_object [] None"

definition Value_new_type :: "nat \<Rightarrow> mvalue option" where
  "Value_new_type t =
     (if t = 0 then Some (MPlain nullValue None)
      else if t = 1 then Some (MPlain (intValue 0) None)
      else if t = 2 then Some (MPlain (uintValue 0) None)
      else if t = 3 then Some (MPlain (realValue 0) None)
      else if t = 4 then Some (MString None False None)
      else if t = 5 then Some (MPlain (booleanValue False) None)
      else if t = 6 then Some (Value_new_map False)
      else if t = 7 then Some (Value_new_map True)
      else None)"

text \<open>The copy constructor; a copied string is always the copy's own.\<close>

fun copy_value :: "mvalue \<Rightarrow> heap \<Rightarrow> mvalue mem"
  and copy_entries :: "(CZString \<times> mvalue) list \<Rightarrow> heap \<Rightarrow> (CZString \<times> mvalue) list mem" where
  "copy_value (MPlain v c) h = mbind (copy_comments c h) (\<lambda>c' h1. Inr (MPlain v c', h1))"
| "copy_value (MString None a c) h = mbind (copy_comments c h) (\<lambda>c' h1. Inr (MString None False c', h1))"
| "copy_value (MString (Some p) a c) h =
     mbind (duplicateStringValue p None h) (\<lambda>b h1.
       mbind (copy_comments c h1) (\<lambda>c' h2. Inr (MString (Some (Block b)) True c', h2)))"
| "copy_value (MMap o' es c) h =
     mbind (copy_entries es h) (\<lambda>es' h1. mbind (copy_comments c h1) (\<lambda>c' h2. Inr (MMap o' es' c', h2)))"
| "copy_entries [] h = Inr ([], h)"
| "copy_entries ((k, v) # es) h =
     mbind (CZString_copy k h) (\<lambda>k' h1. mbind (copy_value v h1) (\<lambda>v' h2.
       mbind (copy_entries es h2) (\<lambda>es' h3. Inr ((k', v') # es', h3))))"

text \<open>The destructor; \<open>free\<close> of a null pointer does nothing.\<close>

fun delete_value :: "mvalue \<Rightarrow> heap \<Rightarrow> unit mem"
  and delete_entries :: "(CZString \<times> mvalue) list \<Rightarrow> heap \<Rightarrow> unit mem" where
  "delete_value (MPlain v c) h = delete_comments c h"
| "delete_value (MString p a c) h =
     mbind (case p of Some q \<Rightarrow> if a then releaseStringValue q h else Inr ((), h) | None \<Rightarrow> Inr ((), h))
       (\<lambda>_ h1. delete_comments c h1)"
| "delete_value (MMap o' es c) h = mbind (delete_entries es h) (\<lambda>_ h1. delete_comments c h1)"
| "delete_entries [] h = Inr ((), h)"
| "delete_entries ((k, v) # es) h =
     mbind (delete_value v h) (\<lambda>_ h1. mbind (CZString_delete k h1) (\<lambda>_ h2. delete_entries es h2))"

text \<open>
  \<open>swap\<close> leaves the comments where they are; \<open>operator=\<close> swaps with its argument, which is then
  destroyed: a temporary object, or a copy.
\<close>

definition swap_value :: "mvalue \<Rightarrow> mvalue \<Rightarrow> mvalue \<times> mvalue" where
  "swap_value v w = (with_comments (mcomments v) w, with_comments (mcomments w) v)"

definition assign_temporary :: "mvalue \<Rightarrow> mvalue \<Rightarrow> heap \<Rightarrow> mvalue mem" where
  "assign_temporary target other h =
     (case swap_value target other of
        (target', other') \<Rightarrow> mbind (delete_value other' h) (\<lambda>_ h1. Inr (target', h1)))"

definition assign_value :: "mvalue \<Rightarrow> mvalue \<Rightarrow> heap \<Rightarrow> mvalue mem" where
  "assign_value target source h = mbind (copy_value source h) (\<lambda>other h1. assign_temporary target other h1)"

definition clear_value :: "mvalue \<Rightarrow> heap \<Rightarrow> mvalue mem" where
  "clear_value v h =
     (case v of
        MPlain nullValue c \<Rightarrow> Inr (v, h)
      | MMap o' es c \<Rightarrow> mbind (delete_entries es h) (\<lambda>_ h1. Inr (MMap o' [] c, h1))
      | _ \<Rightarrow> Inl (Throws ''in Json_em::Value::clear(): requires complex value''))"

definition comment_value :: "mvalue \<Rightarrow> nat \<Rightarrow> string \<Rightarrow> heap \<Rightarrow> mvalue mem" where
  "comment_value v placement text h =
     (let cs = (case mcomments v of None \<Rightarrow> replicate 3 None | Some cs \<Rightarrow> cs)
      in mbind (CommentInfo_setComment (cs ! placement) (Literal text) h)
           (\<lambda>c h1. Inr (with_comments (Some (cs[placement := c])) v, h1)))"

section \<open>Members and items\<close>

text \<open>
  What \<open>strcmp\<close> compares, and the index of an item. A search is taken to read the names of all entries,
  though it reads some of them only.
\<close>

definition entry_name :: "heap \<Rightarrow> CZString \<times> mvalue \<Rightarrow> string" where
  "entry_name h e = (case fst e of CZName p _ \<Rightarrow> (case content h p of Some s \<Rightarrow> c_str s | None \<Rightarrow> []) | CZIndex _ \<Rightarrow> [])"

definition entry_index :: "CZString \<times> mvalue \<Rightarrow> nat" where
  "entry_index e = (case fst e of CZIndex i \<Rightarrow> i | CZName _ _ \<Rightarrow> 0)"

definition dangling_name :: "heap \<Rightarrow> CZString \<times> mvalue \<Rightarrow> bool" where
  "dangling_name h e = (case fst e of CZName p _ \<Rightarrow> content h p = None | CZIndex _ \<Rightarrow> False)"

text \<open>
  \<open>lower_bound\<close> splits the entries; where there is none, an entry with null is made of a copied key,
  and copied again into the map.
\<close>

definition insert_null :: "CZString \<Rightarrow> heap \<Rightarrow> (CZString \<times> mvalue) mem" where
  "insert_null actualKey h =
     mbind (CZString_copy actualKey h) (\<lambda>k1 h1.
       mbind (CZString_copy k1 h1) (\<lambda>k2 h2.
         mbind (CZString_delete k1 h2) (\<lambda>_ h3. Inr ((k2, MPlain nullValue None), h3))))"

definition resolve_entry ::
  "(CZString \<times> mvalue \<Rightarrow> 'k::linorder) \<Rightarrow> 'k \<Rightarrow> CZString \<Rightarrow> (CZString \<times> mvalue) list \<Rightarrow> heap
    \<Rightarrow> ((CZString \<times> mvalue) list \<times> (CZString \<times> mvalue) \<times> (CZString \<times> mvalue) list) mem" where
  "resolve_entry key_of key actualKey es h =
     (let before = takeWhile (\<lambda>e. key_of e < key) es;
          from = dropWhile (\<lambda>e. key_of e < key) es
      in if \<exists>e \<in> set es. dangling_name h e then Inl DanglingRead
         else if from \<noteq> [] \<and> key_of (hd from) = key then Inr ((before, hd from, tl from), h)
         else mbind (insert_null actualKey h) (\<lambda>e h1. Inr ((before, e, from), h1)))"

text \<open>\<open>v[key] = source\<close> and \<open>v[index] = source\<close>, \<open>source\<close> another object; a null \<open>v\<close> becomes a map first.\<close>

definition set_in_map ::
  "bool \<Rightarrow> (heap \<Rightarrow> CZString \<times> mvalue \<Rightarrow> 'k::linorder) \<Rightarrow> 'k \<Rightarrow> CZString \<Rightarrow> string \<Rightarrow> mvalue \<Rightarrow> mvalue \<Rightarrow> heap \<Rightarrow> mvalue mem" where
  "set_in_map is_object key_of key actualKey message v source h =
     (case v of
        MMap o' es c \<Rightarrow>
          if o' \<noteq> is_object then Inl (Throws message)
          else mbind (resolve_entry (key_of h) key actualKey es h) (\<lambda>(before, e, rest) h1.
            mbind (assign_value (snd e) source h1) (\<lambda>w h2. Inr (MMap o' (before @ (fst e, w) # rest) c, h2)))
      | _ \<Rightarrow> Inl (Throws message))"

definition set_entry ::
  "bool \<Rightarrow> (heap \<Rightarrow> CZString \<times> mvalue \<Rightarrow> 'k::linorder) \<Rightarrow> 'k \<Rightarrow> CZString \<Rightarrow> string \<Rightarrow> mvalue \<Rightarrow> mvalue \<Rightarrow> heap \<Rightarrow> mvalue mem" where
  "set_entry is_object key_of key actualKey message v source h =
     mbind (case v of
              MPlain nullValue c \<Rightarrow> assign_temporary v (Value_new_map is_object) h
            | _ \<Rightarrow> Inr (v, h))
       (\<lambda>v1 h1. set_in_map is_object key_of key actualKey message v1 source h1)"

definition set_member :: "bool \<Rightarrow> mvalue \<Rightarrow> string \<Rightarrow> mvalue \<Rightarrow> heap \<Rightarrow> mvalue mem" where
  "set_member isStatic v key source =
     set_entry True entry_name (c_str key) (CZName (Literal key) (if isStatic then noDuplication else duplicateOnCopy))
       ''in Json_em::Value::resolveReference(): requires objectValue'' v source"

definition set_item :: "mvalue \<Rightarrow> nat \<Rightarrow> mvalue \<Rightarrow> heap \<Rightarrow> mvalue mem" where
  "set_item v index source =
     set_entry False (\<lambda>h. entry_index) index (CZIndex index)
       ''in Json_em::Value::operator[](ArrayIndex): requires arrayValue'' v source"

text \<open>\<open>removeMember\<close>: the value after it, and the copy that is returned.\<close>

definition remove_member :: "mvalue \<Rightarrow> string \<Rightarrow> heap \<Rightarrow> (mvalue \<times> mvalue) mem" where
  "remove_member v key h =
     (case v of
        MPlain nullValue c \<Rightarrow> Inr ((v, MPlain nullValue None), h)
      | MMap True es c \<Rightarrow>
          let before = takeWhile (\<lambda>e. entry_name h e < c_str key) es;
              from = dropWhile (\<lambda>e. entry_name h e < c_str key) es
          in if \<exists>e \<in> set es. dangling_name h e then Inl DanglingRead
             else if from \<noteq> [] \<and> entry_name h (hd from) = c_str key
             then mbind (copy_value (snd (hd from)) h) (\<lambda>old h1.
               mbind (delete_value (snd (hd from)) h1) (\<lambda>_ h2.
                 mbind (CZString_delete (fst (hd from)) h2) (\<lambda>_ h3. Inr ((MMap True (before @ tl from) c, old), h3))))
             else Inr ((v, MPlain nullValue None), h)
      | _ \<Rightarrow> Inl (Throws ''in Json_em::Value::removeMember(): requires objectValue''))"


section \<open>What a value in memory stands for, and what it owns\<close>

text \<open>
  The text at a pointer; strings of 2^31 - 1 characters and more are cut by \<open>duplicateStringValue\<close> and
  stand for nothing here. The rules of ownership are part of the reading: a string is marked as
  allocated exactly when it is a block, a key is a duplicate or is borrowed from the program text.
\<close>

definition str_at :: "heap \<Rightarrow> cptr \<Rightarrow> string option" where
  "str_at h p =
     (case content h p of
        None \<Rightarrow> None
      | Some s \<Rightarrow> if int (length (c_str s)) < maxInt then Some (c_str s) else None)"

fun is_block :: "cptr \<Rightarrow> bool" where
  "is_block (Block b) \<longleftrightarrow> True"
| "is_block (Literal s) \<longleftrightarrow> False"

definition place_ok :: "heap \<Rightarrow> nat option \<Rightarrow> bool" where
  "place_ok h c = (case c of None \<Rightarrow> True
     | Some b \<Rightarrow> (case str_at h (Block b) of None \<Rightarrow> False | Some t \<Rightarrow> t = [] \<or> hd t = CHR ''/''))"

definition comments_ok :: "heap \<Rightarrow> comments \<Rightarrow> bool" where
  "comments_ok h c = (case c of None \<Rightarrow> True | Some cs \<Rightarrow> length cs = 3 \<and> (\<forall>p \<in> set cs. place_ok h p))"

text \<open>The key of an entry of an object (\<open>is_object\<close>) or an array.\<close>

definition key_of :: "heap \<Rightarrow> bool \<Rightarrow> CZString \<Rightarrow> (string + nat) option" where
  "key_of h is_object k =
     (case k of
        CZIndex i \<Rightarrow> if is_object then None else Some (Inr i)
      | CZName p pol \<Rightarrow>
          if is_object \<and> pol = (if is_block p then duplicate else noDuplication) then map_option Inl (str_at h p)
          else None)"

definition map_value :: "bool \<Rightarrow> ((string + nat) \<times> Value) list \<Rightarrow> Value" where
  "map_value is_object m =
     (if is_object then objectValue (map (\<lambda>(k, v). (projl k, v)) m) else arrayValue (map (\<lambda>(k, v). (projr k, v)) m))"

fun pointerless :: "Value \<Rightarrow> bool" where
  "pointerless (stringValue _) \<longleftrightarrow> False"
| "pointerless (arrayValue _) \<longleftrightarrow> False"
| "pointerless (objectValue _) \<longleftrightarrow> False"
| "pointerless _ \<longleftrightarrow> True"

fun value_of :: "heap \<Rightarrow> mvalue \<Rightarrow> Value option"
  and entries_of :: "heap \<Rightarrow> bool \<Rightarrow> (CZString \<times> mvalue) list \<Rightarrow> ((string + nat) \<times> Value) list option" where
  "value_of h (MPlain v c) = (if comments_ok h c \<and> pointerless v then Some v else None)"
| "value_of h (MString None a c) = (if comments_ok h c \<and> \<not> a then Some (stringValue []) else None)"
| "value_of h (MString (Some p) a c) =
     (if comments_ok h c \<and> a = is_block p then map_option stringValue (str_at h p) else None)"
| "value_of h (MMap o' es c) = (if comments_ok h c then map_option (map_value o') (entries_of h o' es) else None)"
| "entries_of h o' [] = Some []"
| "entries_of h o' ((k, v) # es) =
     (case (key_of h o' k, value_of h v, entries_of h o' es) of
        (Some n, Some x, Some m) \<Rightarrow> Some ((n, x) # m)
      | _ \<Rightarrow> None)"

text \<open>The blocks a value frees when it is destroyed.\<close>

definition comments_own :: "comments \<Rightarrow> nat list" where
  "comments_own c = (case c of None \<Rightarrow> [] | Some cs \<Rightarrow> List.map_filter (\<lambda>p. p) cs)"

fun key_owns :: "CZString \<Rightarrow> nat list" where
  "key_owns (CZName (Block b) duplicate) = [b]"
| "key_owns _ = []"

fun owns :: "mvalue \<Rightarrow> nat list"
  and entries_own :: "(CZString \<times> mvalue) list \<Rightarrow> nat list" where
  "owns (MPlain v c) = comments_own c"
| "owns (MString p a c) = (case p of Some (Block b) \<Rightarrow> if a then [b] else [] | _ \<Rightarrow> []) @ comments_own c"
| "owns (MMap o' es c) = entries_own es @ comments_own c"
| "entries_own [] = []"
| "entries_own ((k, v) # es) = key_owns k @ owns v @ entries_own es"

lemma comments_own_simps [simp]:
  "comments_own None = []" "comments_own (Some []) = []" "comments_own (Some (None # cs)) = comments_own (Some cs)"
  "comments_own (Some (Some b # cs)) = b # comments_own (Some cs)"
  by (simp_all add: comments_own_def List.map_filter_simps)

section \<open>Changes of the heap\<close>

text \<open>
  \<open>exchanges h B h' C\<close>: from \<open>h\<close> to \<open>h'\<close> the blocks \<open>B\<close> have been given up for the blocks \<open>C\<close>, and all others are
  as they were. Changes follow one another, and what is not touched can be added on both sides.
\<close>

definition heap_ok :: "heap \<Rightarrow> bool" where
  "heap_ok h \<longleftrightarrow> (\<forall>b. next_block h \<le> b \<longrightarrow> blocks h b = None)"

definition exchanges :: "heap \<Rightarrow> nat set \<Rightarrow> heap \<Rightarrow> nat set \<Rightarrow> bool" where
  "exchanges h B h' C \<longleftrightarrow> heap_ok h' \<and> dom (blocks h') = (dom (blocks h) - B) \<union> C
     \<and> C \<inter> (dom (blocks h) - B) = {} \<and> (\<forall>b \<in> dom (blocks h) - B. blocks h' b = blocks h b)"

lemma exchanges_refl [simp]: "heap_ok h \<Longrightarrow> B \<subseteq> dom (blocks h) \<Longrightarrow> exchanges h B h B"
  by (auto simp: exchanges_def)

lemma exchanges_trans:
  assumes "exchanges h B h1 C" "exchanges h1 C h2 D"
  shows "exchanges h B h2 D"
proof -
  have "dom (blocks h1) - C = dom (blocks h) - B" using assms(1) by (auto simp: exchanges_def)
  then show ?thesis using assms by (auto simp: exchanges_def)
qed

lemma exchanges_frame:
  assumes "exchanges h B h' C" "F \<subseteq> dom (blocks h) - B"
  shows "exchanges h (B \<union> F) h' (C \<union> F)"
  using assms by (auto simp: exchanges_def)

lemma exchanges_same: "exchanges h B h' C \<Longrightarrow> F \<subseteq> dom (blocks h) - B \<Longrightarrow> b \<in> F \<Longrightarrow> blocks h' b = blocks h b"
  by (auto simp: exchanges_def)

lemma exchanges_apart: "exchanges h B h' C \<Longrightarrow> F \<subseteq> dom (blocks h) - B \<Longrightarrow> C \<inter> F = {} \<and> F \<subseteq> dom (blocks h')"
  by (auto simp: exchanges_def)

lemma exchanges_ok [simp]: "exchanges h B h' C \<Longrightarrow> heap_ok h'"
  by (simp add: exchanges_def)


section \<open>Reading depends on what is owned\<close>

lemma str_at_same: "blocks h b = blocks h' b \<Longrightarrow> str_at h (Block b) = str_at h' (Block b)"
  by (simp add: str_at_def)

lemma str_at_Literal [simp]: "str_at h (Literal s) = (if int (length (c_str s)) < maxInt then Some (c_str s) else None)"
  by (simp add: str_at_def)

lemma str_at_Block: "str_at h (Block b) = Some t \<Longrightarrow> b \<in> dom (blocks h)"
  by (auto simp: str_at_def split: option.splits)

lemma comments_ok_same:
  "(\<And>b. b \<in> set (comments_own c) \<Longrightarrow> blocks h b = blocks h' b) \<Longrightarrow> comments_ok h c = comments_ok h' c"
proof (cases c)
  case (Some cs)
  have "(\<forall>p \<in> set cs. place_ok h p) = (\<forall>p \<in> set cs. place_ok h' p)"
    if "\<And>b. b \<in> set (comments_own (Some cs)) \<Longrightarrow> blocks h b = blocks h' b"
    using that
  proof (induction cs)
    case (Cons p cs)
    then have "place_ok h p = place_ok h' p" by (cases p) (auto simp: place_ok_def str_at_def)
    moreover have "(\<forall>p \<in> set cs. place_ok h p) = (\<forall>p \<in> set cs. place_ok h' p)" using Cons by (cases p) auto
    ultimately show ?case by simp
  qed simp
  then show "(\<And>b. b \<in> set (comments_own c) \<Longrightarrow> blocks h b = blocks h' b) \<Longrightarrow> ?thesis" using Some by (simp add: comments_ok_def)
qed (simp add: comments_ok_def)

lemma comments_ok_own: "comments_ok h c \<Longrightarrow> set (comments_own c) \<subseteq> dom (blocks h)"
proof (cases c)
  case (Some cs)
  have "\<forall>p \<in> set cs. place_ok h p \<Longrightarrow> set (comments_own (Some cs)) \<subseteq> dom (blocks h)"
  proof (induction cs)
    case (Cons p cs)
    then show ?case by (cases p) (auto simp: place_ok_def str_at_def split: option.splits)
  qed simp
  then show "comments_ok h c \<Longrightarrow> ?thesis" using Some by (simp add: comments_ok_def)
qed simp

lemma key_of_same:
  assumes "\<And>b. b \<in> set (key_owns k) \<Longrightarrow> blocks h b = blocks h' b"
  shows "key_of h o' k = key_of h' o' k"
proof (cases k)
  case (CZName p pol)
  then show ?thesis using assms by (cases p; cases pol) (auto simp: key_of_def str_at_def)
qed (simp add: key_of_def)

lemma key_of_own: "key_of h o' k = Some n \<Longrightarrow> set (key_owns k) \<subseteq> dom (blocks h)"
proof (cases k)
  case (CZName p pol)
  then show "key_of h o' k = Some n \<Longrightarrow> ?thesis"
    by (cases p; cases pol) (auto simp: key_of_def str_at_def split: option.splits if_splits)
qed simp

lemma value_of_same:
  "(\<forall>b \<in> set (owns v). blocks h b = blocks h' b) \<Longrightarrow> value_of h v = value_of h' v"
  "(\<forall>b \<in> set (entries_own es). blocks h b = blocks h' b) \<Longrightarrow> entries_of h o' es = entries_of h' o' es"
proof (induction h v and h o' es rule: value_of_entries_of.induct)
  case (1 h v c)
  then show ?case using comments_ok_same [of c h h'] by simp
next
  case (2 h a c)
  then show ?case using comments_ok_same [of c h h'] by simp
next
  case (3 h p a c)
  then show ?case using comments_ok_same [of c h h'] by (cases p) (auto simp: str_at_def)
next
  case (4 h o' es c)
  then show ?case using comments_ok_same [of c h h'] by simp
next
  case (6 h o' k v es)
  then show ?case using key_of_same [of k h h'] by simp
qed simp

lemma value_of_own:
  "value_of h v = Some x \<Longrightarrow> set (owns v) \<subseteq> dom (blocks h)"
  "entries_of h o' es = Some m \<Longrightarrow> set (entries_own es) \<subseteq> dom (blocks h)"
proof (induction h v and h o' es arbitrary: x and m rule: value_of_entries_of.induct)
  case (3 h p a c)
  then show ?case using comments_ok_own [of h c] by (cases p) (auto simp: str_at_def split: if_splits option.splits)
next
  case (6 h o' k v es)
  then show ?case using key_of_own [of h o' k] by (auto split: option.splits)
qed (auto dest: comments_ok_own split: if_splits)


text \<open>What is not given up in a change keeps its meaning.\<close>

lemma exchanges_other: "exchanges h B h' C \<Longrightarrow> F \<subseteq> dom (blocks h) \<Longrightarrow> F \<inter> B = {} \<Longrightarrow> b \<in> F \<Longrightarrow> blocks h' b = blocks h b"
  by (auto simp: exchanges_def)

lemma value_kept:
  assumes "exchanges h B h' C" "value_of h v = Some x" "set (owns v) \<inter> B = {}"
  shows "value_of h' v = Some x"
  using value_of_same(1) [of v h h'] exchanges_other [OF assms(1) value_of_own(1) [OF assms(2)] assms(3)] assms(2) by simp

lemma entries_kept:
  assumes "exchanges h B h' C" "entries_of h o' es = Some m" "set (entries_own es) \<inter> B = {}"
  shows "entries_of h' o' es = Some m"
  using value_of_same(2) [of es h h' o'] exchanges_other [OF assms(1) value_of_own(2) [OF assms(2)] assms(3)] assms(2) by simp

lemma key_kept:
  assumes "exchanges h B h' C" "key_of h o' k = Some n" "set (key_owns k) \<inter> B = {}"
  shows "key_of h' o' k = Some n"
  using key_of_same [of k h h' o'] exchanges_other [OF assms(1) key_of_own [OF assms(2)] assms(3)] assms(2) by simp

lemma comments_kept:
  assumes "exchanges h B h' C" "comments_ok h c" "set (comments_own c) \<inter> B = {}"
  shows "comments_ok h' c"
  using comments_ok_same [of c h h'] exchanges_other [OF assms(1) comments_ok_own [OF assms(2)] assms(3)] assms(2) by simp

lemma place_kept:
  assumes "exchanges h B h' C" "place_ok h p" "\<forall>b. p = Some b \<longrightarrow> b \<notin> B"
  shows "place_ok h' p"
proof (cases p)
  case (Some b)
  then obtain t where t: "str_at h (Block b) = Some t" using assms(2) by (cases "str_at h (Block b)") (auto simp: place_ok_def)
  have "{b} \<subseteq> dom (blocks h)" using str_at_Block [OF t] by simp
  moreover have "{b} \<inter> B = {}" using assms(3) Some by simp
  ultimately have "blocks h' b = blocks h b" using exchanges_other [OF assms(1)] by blast
  then show ?thesis using assms(2) Some str_at_same [of h b h'] by (simp add: place_ok_def)
qed (simp add: place_ok_def)

section \<open>Copying\<close>

lemma c_str_c_str [simp]: "c_str (c_str s) = c_str s"
  by (simp add: c_str_def takeWhile_idem)

lemma length_c_str: "length (c_str s) \<le> length s"
  by (simp add: c_str_def length_takeWhile_le)

lemma take_c_str: "take (length (c_str s)) s = c_str s"
  by (simp add: c_str_def takeWhile_eq_take [symmetric])

lemma duplicate_text:
  assumes "heap_ok h" "str_at h p = Some t"
  shows "\<exists>b h'. duplicateStringValue p None h = Inr (b, h') \<and> exchanges h {} h' {b} \<and> str_at h' (Block b) = Some t"
proof -
  obtain s where s: "content h p = Some s" "int (length (c_str s)) < maxInt" "t = c_str s"
    using assms(2) by (auto simp: str_at_def split: option.splits if_splits)
  then have "length (c_str s) mod 2 ^ 32 = length (c_str s)" by (simp add: maxInt_def)
  then have d: "duplicateStringValue p None h = Inr (next_block h,
      h\<lparr>blocks := (blocks h)(next_block h := Some (c_str s)), next_block := Suc (next_block h)\<rparr>)"
    using s length_c_str [of s] by (simp add: duplicateStringValue_def Let_def take_c_str not_less)
  have "blocks h (next_block h) = None" using assms(1) by (simp add: heap_ok_def)
  then show ?thesis using assms(1) s unfolding d
    by (auto simp: exchanges_def heap_ok_def str_at_def)
qed

lemma copy_key:
  assumes "heap_ok h" "key_of h o' k = Some n"
  shows "\<exists>k' h'. CZString_copy k h = Inr (k', h') \<and> exchanges h {} h' (set (key_owns k')) \<and> key_of h' o' k' = Some n
    \<and> distinct (key_owns k')"
proof (cases k)
  case (CZIndex i)
  then show ?thesis using assms by (simp add: CZString_copy_def key_of_def)
next
  case (CZName p pol)
  then have k: "o'" "pol = (if is_block p then duplicate else noDuplication)"
    using assms(2) by (auto simp: key_of_def split: if_splits)
  show ?thesis
  proof (cases "is_block p")
    case True
    then obtain t where "str_at h p = Some t" "n = Inl t" using assms(2) CZName k by (auto simp: key_of_def)
    then show ?thesis using duplicate_text [OF assms(1), of p t] True CZName k
      by (auto simp: CZString_copy_def key_of_def mbind_def)
  next
    case False
    then have "key_owns k = []" using CZName by (cases p) auto
    then show ?thesis using assms CZName k False by (auto simp: CZString_copy_def)
  qed
qed

lemma copy_places_ok:
  "heap_ok h \<Longrightarrow> \<forall>p \<in> set cs. place_ok h p \<Longrightarrow>
    \<exists>cs' h'. copy_places cs h = Inr (cs', h') \<and> exchanges h {} h' (set (comments_own (Some cs')))
      \<and> (\<forall>p \<in> set cs'. place_ok h' p) \<and> length cs' = length cs \<and> distinct (comments_own (Some cs'))"
proof (induction cs arbitrary: h)
  case (Cons c cs)
  show ?case
  proof (cases c)
    case None
    then show ?thesis using Cons.IH [OF Cons.prems(1)] Cons.prems(2) by (auto simp: mbind_def place_ok_def)
  next
    case (Some b)
    have "place_ok h (Some b)" using Cons.prems(2) Some by simp
    then obtain t where t12: "str_at h (Block b) = Some t" "t = [] \<or> hd t = CHR ''/''"
      by (cases "str_at h (Block b)") (auto simp: place_ok_def)
    moreover obtain s where "blocks h b = Some s" "t = c_str s"
      using t12(1) by (cases "blocks h b") (auto simp: str_at_def split: if_splits)
    ultimately have t: "str_at h (Block b) = Some t" "t = [] \<or> hd t = CHR ''/''" "blocks h b = Some s" "t = c_str s"
      by simp_all
    have "c_str s \<noteq> [] \<Longrightarrow> hd (c_str s) = hd s" by (cases s) (auto simp: c_str_def)
    with t have hd: "c_str s = [] \<or> hd s = CHR ''/''" by metis
    obtain b' h1 where d: "duplicateStringValue (Block b) None h = Inr (b', h1)" "exchanges h {} h1 {b'}" "str_at h1 (Block b') = Some t"
      using duplicate_text [OF Cons.prems(1) t(1)] by blast
    have one: "CommentInfo_setComment None (Block b) h = Inr (Some b', h1)"
      using t(3) hd d(1) by (auto simp: CommentInfo_setComment_def delete_CommentInfo_def mbind_def)
    have "\<forall>p \<in> set cs. place_ok h1 p" using Cons.prems(2) place_kept [OF d(2)] by simp
    with Cons.IH [of h1] d(2) obtain cs' h2 where r: "copy_places cs h1 = Inr (cs', h2)"
      "exchanges h1 {} h2 (set (comments_own (Some cs')))" "\<forall>p \<in> set cs'. place_ok h2 p" "length cs' = length cs"
      "distinct (comments_own (Some cs'))" by auto
    have b': "{b'} \<subseteq> dom (blocks h1) - {}" using str_at_Block [OF d(3)] by auto
    have "place_ok h2 (Some b')"
      using exchanges_same [OF r(2) b'] d(3) t(2) by (simp add: place_ok_def str_at_def)
    moreover have "exchanges h {} h2 (set (comments_own (Some (Some b' # cs'))))"
      using exchanges_trans [OF d(2)] exchanges_frame [OF r(2) b'] by (simp add: insert_commute)
    ultimately show ?thesis using one r exchanges_apart [OF r(2) b'] Some by (auto simp: mbind_def)
  qed
qed simp


lemma copy_comments_ok:
  assumes "heap_ok h" "comments_ok h c"
  shows "\<exists>c' h'. copy_comments c h = Inr (c', h') \<and> exchanges h {} h' (set (comments_own c')) \<and> comments_ok h' c'
    \<and> distinct (comments_own c')"
proof (cases c)
  case None
  then show ?thesis using assms by (auto simp: copy_comments_def comments_ok_def)
next
  case (Some cs)
  then have "length cs = 3" "\<forall>p \<in> set cs. place_ok h p" using assms(2) by (simp_all add: comments_ok_def)
  with copy_places_ok [OF assms(1) this(2)] Some show ?thesis
    by (fastforce simp: copy_comments_def mbind_def comments_ok_def)
qed

text \<open>Two copies, one after the other.\<close>

lemma copies_join:
  assumes "exchanges h {} h1 B" "exchanges h1 {} h2 C"
  shows "exchanges h {} h2 (B \<union> C)" "B \<inter> C = {}"
proof -
  have B: "B \<subseteq> dom (blocks h1) - {}" using assms(1) by (auto simp: exchanges_def)
  have "exchanges h1 B h2 (C \<union> B)" using exchanges_frame [OF assms(2) B] by simp
  then show "exchanges h {} h2 (B \<union> C)" using exchanges_trans [OF assms(1)] by (simp add: Un_commute)
  show "B \<inter> C = {}" using exchanges_apart [OF assms(2) B] by blast
qed

lemma copy_value_ok:
  "heap_ok h \<Longrightarrow> value_of h v = Some x \<Longrightarrow>
    \<exists>v' h'. copy_value v h = Inr (v', h') \<and> exchanges h {} h' (set (owns v')) \<and> value_of h' v' = Some x \<and> distinct (owns v')"
  "heap_ok h \<Longrightarrow> entries_of h o' es = Some m \<Longrightarrow>
    \<exists>es' h'. copy_entries es h = Inr (es', h') \<and> exchanges h {} h' (set (entries_own es')) \<and> entries_of h' o' es' = Some m
      \<and> distinct (entries_own es')"
proof (induction v h and es h arbitrary: x and o' m rule: copy_value_copy_entries.induct)
  case (1 v c h)
  then have c: "comments_ok h c" "pointerless v" "x = v" by (auto split: if_splits)
  from copy_comments_ok [OF 1(1) c(1)] show ?case using c by (auto simp: mbind_def)
next
  case (2 a c h)
  then have c: "comments_ok h c" "x = stringValue []" by (auto split: if_splits)
  from copy_comments_ok [OF 2(1) c(1)] show ?case using c by (auto simp: mbind_def)
next
  case (3 p a c h)
  then obtain t where c: "comments_ok h c" "str_at h p = Some t" "x = stringValue t" by (auto split: if_splits)
  obtain b h1 where d: "duplicateStringValue p None h = Inr (b, h1)" "exchanges h {} h1 {b}" "str_at h1 (Block b) = Some t"
    using duplicate_text [OF 3(1) c(2)] by blast
  obtain c' h2 where e: "copy_comments c h1 = Inr (c', h2)" "exchanges h1 {} h2 (set (comments_own c'))" "comments_ok h2 c'"
    "distinct (comments_own c')"
    using copy_comments_ok [OF exchanges_ok [OF d(2)] comments_kept [OF d(2) c(1)]] by auto
  have "str_at h2 (Block b) = Some t"
    using exchanges_other [OF e(2), of "{b}" b] d(3) str_at_Block [OF d(3)] str_at_same [of h2 b h1] by simp
  then show ?case using d(1) e copies_join [OF d(2) e(2)] c(3) by (auto simp: mbind_def)
next
  case (4 o'' es c h)
  then obtain m where c: "comments_ok h c" "entries_of h o'' es = Some m" "x = map_value o'' m" by (auto split: if_splits)
  obtain es' h1 where d: "copy_entries es h = Inr (es', h1)" "exchanges h {} h1 (set (entries_own es'))"
    "entries_of h1 o'' es' = Some m" "distinct (entries_own es')" using 4(1) [OF 4(2) c(2)] by blast
  obtain c' h2 where e: "copy_comments c h1 = Inr (c', h2)" "exchanges h1 {} h2 (set (comments_own c'))" "comments_ok h2 c'"
    "distinct (comments_own c')"
    using copy_comments_ok [OF exchanges_ok [OF d(2)] comments_kept [OF d(2) c(1)]] by auto
  have "entries_of h2 o'' es' = Some m" using entries_kept [OF e(2) d(3)] by simp
  then show ?case using d e copies_join [OF d(2) e(2)] c(3) by (auto simp: mbind_def)
next
  case (5 h)
  then show ?case by auto
next
  case (6 k v es h)
  then obtain n y m' where c: "key_of h o' k = Some n" "value_of h v = Some y" "entries_of h o' es = Some m'" "m = (n, y) # m'"
    by (auto split: option.splits)
  obtain k' h1 where d: "CZString_copy k h = Inr (k', h1)" "exchanges h {} h1 (set (key_owns k'))" "key_of h1 o' k' = Some n"
    "distinct (key_owns k')" using copy_key [OF 6(3) c(1)] by blast
  note ok1 = exchanges_ok [OF d(2)]
  obtain v' h2 where e: "copy_value v h1 = Inr (v', h2)" "exchanges h1 {} h2 (set (owns v'))" "value_of h2 v' = Some y"
    "distinct (owns v')" using 6(1) [OF ok1 value_kept [OF d(2) c(2)]] by auto
  note ok2 = exchanges_ok [OF e(2)] and j = copies_join [OF d(2) e(2)]
  obtain es' h3 where f: "copy_entries es h2 = Inr (es', h3)" "exchanges h2 {} h3 (set (entries_own es'))"
    "entries_of h3 o' es' = Some m'" "distinct (entries_own es')"
    using 6(2) [OF ok2 entries_kept [OF j(1) c(3)]] by auto
  note j2 = copies_join [OF j(1) f(2)]
  have "key_of h3 o' k' = Some n" "value_of h3 v' = Some y"
    using key_kept [OF f(2) key_kept [OF e(2) d(3)]] value_kept [OF f(2) e(3)] by simp_all
  then have "entries_of h3 o' ((k', v') # es') = Some m" using f(3) c(4) by simp
  moreover have "copy_entries ((k, v) # es) h = Inr ((k', v') # es', h3)" using d(1) e(1) f(1) by (simp add: mbind_def)
  moreover have "distinct (entries_own ((k', v') # es'))" using d(4) e(4) f(4) j(2) j2(2) by auto
  moreover have "exchanges h {} h3 (set (entries_own ((k', v') # es')))" using j2(1) by (simp add: Un_assoc)
  ultimately show ?case by blast
qed


section \<open>Destroying\<close>

lemma release_block:
  assumes "heap_ok h" "b \<in> dom (blocks h)"
  shows "\<exists>h'. releaseStringValue (Block b) h = Inr ((), h') \<and> exchanges h {b} h' {}"
  using assms by (auto simp: releaseStringValue_def exchanges_def heap_ok_def)

lemma deletes_join:
  assumes "exchanges h B h1 {}" "exchanges h1 C h2 {}" "C \<subseteq> dom (blocks h)" "C \<inter> B = {}"
  shows "exchanges h (B \<union> C) h2 {}"
  using exchanges_trans [OF exchanges_frame [OF assms(1), of C]] assms(2-4) by auto

lemma delete_key:
  assumes "heap_ok h" "key_of h o' k = Some n"
  shows "\<exists>h'. CZString_delete k h = Inr ((), h') \<and> exchanges h (set (key_owns k)) h' {}"
proof (cases k)
  case (CZIndex i)
  then show ?thesis using assms by (simp add: CZString_delete_def)
next
  case (CZName p pol)
  then show ?thesis using assms release_block key_of_own [OF assms(2)]
    by (cases p; cases pol) (auto simp: CZString_delete_def key_of_def)
qed

lemma delete_places_ok:
  "heap_ok h \<Longrightarrow> set (comments_own (Some cs)) \<subseteq> dom (blocks h) \<Longrightarrow> distinct (comments_own (Some cs)) \<Longrightarrow>
    \<exists>h'. delete_places cs h = Inr ((), h') \<and> exchanges h (set (comments_own (Some cs))) h' {}"
proof (induction cs arbitrary: h)
  case (Cons c cs)
  show ?case
  proof (cases c)
    case None
    then show ?thesis using Cons by (auto simp: mbind_def delete_CommentInfo_def)
  next
    case (Some b)
    obtain h1 where d: "releaseStringValue (Block b) h = Inr ((), h1)" "exchanges h {b} h1 {}"
      using release_block [OF Cons.prems(1)] Cons.prems(2) Some by auto
    have C: "set (comments_own (Some cs)) \<subseteq> dom (blocks h)" "set (comments_own (Some cs)) \<inter> {b} = {}"
      using Cons.prems(2,3) Some by auto
    then have "set (comments_own (Some cs)) \<subseteq> dom (blocks h1)"
      using exchanges_apart [OF d(2), of "set (comments_own (Some cs))"] by auto
    then obtain h2 where e: "delete_places cs h1 = Inr ((), h2)" "exchanges h1 (set (comments_own (Some cs))) h2 {}"
      using Cons.IH [OF exchanges_ok [OF d(2)]] Cons.prems(3) Some by auto
    show ?thesis using d(1) e(1) deletes_join [OF d(2) e(2) C] Some by (auto simp: mbind_def delete_CommentInfo_def)
  qed
qed simp

lemma comments_own_rev:
  "set (comments_own (Some (rev cs))) = set (comments_own (Some cs))"
  "distinct (comments_own (Some (rev cs))) = distinct (comments_own (Some cs))"
  by (simp_all add: comments_own_def List.map_filter_def rev_filter [symmetric] rev_map [symmetric])

lemma delete_comments_ok:
  assumes "heap_ok h" "comments_ok h c" "distinct (comments_own c)"
  shows "\<exists>h'. delete_comments c h = Inr ((), h') \<and> exchanges h (set (comments_own c)) h' {}"
proof (cases c)
  case (Some cs)
  then show ?thesis using delete_places_ok [OF assms(1), of "rev cs"] comments_ok_own [OF assms(2)] assms(3)
    by (simp add: delete_comments_def comments_own_rev)
qed (use assms in \<open>simp add: delete_comments_def\<close>)

lemma delete_value_ok:
  "heap_ok h \<Longrightarrow> value_of h v = Some x \<Longrightarrow> distinct (owns v) \<Longrightarrow>
    \<exists>h'. delete_value v h = Inr ((), h') \<and> exchanges h (set (owns v)) h' {}"
  "heap_ok h \<Longrightarrow> entries_of h o' es = Some m \<Longrightarrow> distinct (entries_own es) \<Longrightarrow>
    \<exists>h'. delete_entries es h = Inr ((), h') \<and> exchanges h (set (entries_own es)) h' {}"
proof (induction v h and es h arbitrary: x and o' m rule: delete_value_delete_entries.induct)
  case (1 v c h)
  then show ?case using delete_comments_ok [of h c] by (auto split: if_splits)
next
  case (2 p a c h)
  have c: "comments_ok h c" using 2(2) by (cases p) (auto split: if_splits)
  show ?case
  proof (cases "\<exists>b. p = Some (Block b)")
    case True
    then obtain b where b: "p = Some (Block b)" "a" "b \<in> dom (blocks h)" "b \<notin> set (comments_own c)" "distinct (comments_own c)"
      using 2 value_of_own(1) [OF 2(2)] by (auto split: if_splits)
    obtain h1 where d: "releaseStringValue (Block b) h = Inr ((), h1)" "exchanges h {b} h1 {}"
      using release_block [OF 2(1) b(3)] by blast
    have "comments_ok h1 c" using comments_kept [OF d(2) c] b(4) by simp
    then obtain h2 where e: "delete_comments c h1 = Inr ((), h2)" "exchanges h1 (set (comments_own c)) h2 {}"
      using delete_comments_ok [OF exchanges_ok [OF d(2)] _ b(5)] by blast
    show ?thesis using deletes_join [OF d(2) e(2) comments_ok_own [OF c]] b d(1) e(1) by (simp add: mbind_def)
  next
    case False
    then have "delete_value (MString p a c) h = delete_comments c h" "owns (MString p a c) = comments_own c"
      using 2(2) by (cases p; simp add: mbind_def; cases "the p"; simp split: if_splits)+
    then show ?thesis using delete_comments_ok [OF 2(1) c] 2(3) by simp
  qed
next
  case (3 o'' es c h)
  then obtain m where c: "comments_ok h c" "entries_of h o'' es = Some m" by (auto split: if_splits)
  have o: "distinct (entries_own es)" "distinct (comments_own c)" "set (entries_own es) \<inter> set (comments_own c) = {}"
    using 3(4) by auto
  obtain h1 where d: "delete_entries es h = Inr ((), h1)" "exchanges h (set (entries_own es)) h1 {}"
    using 3(1) [OF 3(2) c(2) o(1)] by blast
  have "comments_ok h1 c" using comments_kept [OF d(2) c(1)] o(3) by auto
  then obtain h2 where e: "delete_comments c h1 = Inr ((), h2)" "exchanges h1 (set (comments_own c)) h2 {}"
    using delete_comments_ok [OF exchanges_ok [OF d(2)] _ o(2)] by blast
  show ?case using deletes_join [OF d(2) e(2) comments_ok_own [OF c(1)]] d(1) e(1) o(3) by (auto simp: mbind_def)
next
  case (4 h)
  then show ?case by simp
next
  case (5 k v es h)
  then obtain n y m' where c: "key_of h o' k = Some n" "value_of h v = Some y" "entries_of h o' es = Some m'" "m = (n, y) # m'"
    by (auto split: option.splits)
  note own = key_of_own [OF c(1)] value_of_own(1) [OF c(2)] value_of_own(2) [OF c(3)]
  have o: "distinct (key_owns k)" "distinct (owns v)" "distinct (entries_own es)" "set (key_owns k) \<inter> set (owns v) = {}"
    "set (key_owns k) \<inter> set (entries_own es) = {}" "set (owns v) \<inter> set (entries_own es) = {}" using 5(5) by auto
  obtain h1 where d: "delete_value v h = Inr ((), h1)" "exchanges h (set (owns v)) h1 {}"
    using 5(1) [OF 5(3) c(2) o(2)] by blast
  obtain h2 where e: "CZString_delete k h1 = Inr ((), h2)" "exchanges h1 (set (key_owns k)) h2 {}"
    using delete_key [OF exchanges_ok [OF d(2)] key_kept [OF d(2) c(1) o(4)]] by blast
  have j: "exchanges h (set (owns v) \<union> set (key_owns k)) h2 {}" using deletes_join [OF d(2) e(2) own(1) o(4)] .
  have k: "entries_of h2 o' es = Some m'" using entries_kept [OF j c(3)] o(5,6) by auto
  obtain h3 where f: "delete_entries es h2 = Inr ((), h3)" "exchanges h2 (set (entries_own es)) h3 {}"
    using 5(2) [OF exchanges_ok [OF j] k o(3)] by blast
  have "exchanges h (set (entries_own ((k, v) # es))) h3 {}"
    using deletes_join [OF j f(2) own(3)] o(5,6) by (auto simp: Un_ac)
  then show ?case using d(1) e(1) f(1) by (simp add: mbind_def)
qed


section \<open>Assigning\<close>

text \<open>A value is its payload, which \<open>swap\<close> exchanges, and its comments, which stay.\<close>

lemma with_comments_simps [simp]:
  "mcomments (with_comments c v) = c" "with_comments (mcomments v) v = v"
  "with_comments c (with_comments d v) = with_comments c v"
  by (cases v; simp)+

lemma owns_split: "owns v = owns (with_comments None v) @ comments_own (mcomments v)"
  by (cases v) simp_all

lemma owns_with_comments: "owns (with_comments c v) = owns (with_comments None v) @ comments_own c"
  using owns_split [of "with_comments c v"] by simp

lemma value_of_with_comments:
  "value_of h (with_comments c v) = (if comments_ok h c then value_of h (with_comments None v) else None)"
proof (cases v)
  case (MString p a c')
  then show ?thesis by (cases p) (simp_all add: comments_ok_def)
qed (simp_all add: comments_ok_def)

lemma value_of_comments_ok: "value_of h v = Some x \<Longrightarrow> comments_ok h (mcomments v)"
  using value_of_with_comments [of h "mcomments v" v] by (auto split: if_splits)

lemma assign_temporary_ok:
  assumes ok: "heap_ok h" and t: "value_of h t = Some y" and w: "value_of h w = Some x"
    and d: "distinct (owns t @ owns w)"
  shows "\<exists>t' h'. assign_temporary t w h = Inr (t', h') \<and> exchanges h (set (owns t) \<union> set (owns w)) h' (set (owns t'))
    \<and> value_of h' t' = Some x \<and> distinct (owns t') \<and> mcomments t' = mcomments t"
proof -
  let ?t = "with_comments (mcomments t) w" and ?w = "with_comments (mcomments w) t"
  note split = owns_split [of t] owns_split [of w] owns_with_comments [of "mcomments t" w] owns_with_comments [of "mcomments w" t]
  have vw: "value_of h ?w = Some y" and vt: "value_of h ?t = Some x"
    using t w value_of_comments_ok [OF t] value_of_comments_ok [OF w]
      value_of_with_comments [of h "mcomments w" t] value_of_with_comments [of h "mcomments t" w]
      value_of_with_comments [of h "mcomments t" t] value_of_with_comments [of h "mcomments w" w] by simp_all
  have apart: "set (owns ?t) \<inter> set (owns ?w) = {}" "distinct (owns ?t)" "distinct (owns ?w)"
    and sum: "set (owns ?w) \<union> set (owns ?t) = set (owns t) \<union> set (owns w)"
    using d unfolding split by auto
  obtain h' where h': "delete_value ?w h = Inr ((), h')" "exchanges h (set (owns ?w)) h' {}"
    using delete_value_ok(1) [OF ok vw apart(3)] by blast
  have "set (owns ?t) \<subseteq> dom (blocks h) - set (owns ?w)" using value_of_own(1) [OF vt] apart(1) by blast
  from exchanges_frame [OF h'(2) this] have "exchanges h (set (owns t) \<union> set (owns w)) h' (set (owns ?t))" unfolding sum by simp
  then show ?thesis using h'(1) value_kept [OF h'(2) vt apart(1)] apart(2)
    by (simp add: assign_temporary_def swap_value_def mbind_def)
qed

lemma assign_value_ok:
  assumes ok: "heap_ok h" and t: "value_of h t = Some y" "distinct (owns t)" and source: "value_of h source = Some x"
  shows "\<exists>t' h'. assign_value t source h = Inr (t', h') \<and> exchanges h (set (owns t)) h' (set (owns t'))
    \<and> value_of h' t' = Some x \<and> distinct (owns t') \<and> mcomments t' = mcomments t"
proof -
  obtain w h1 where w: "copy_value source h = Inr (w, h1)" "exchanges h {} h1 (set (owns w))" "value_of h1 w = Some x"
    "distinct (owns w)" using copy_value_ok(1) [OF ok source] by blast
  have sub: "set (owns t) \<subseteq> dom (blocks h) - {}" using value_of_own(1) [OF t(1)] by simp
  have t1: "value_of h1 t = Some y" using value_kept [OF w(2) t(1)] by simp
  have "distinct (owns t @ owns w)" using exchanges_apart [OF w(2) sub] t(2) w(4) by auto
  then obtain t' h' where a: "assign_temporary t w h1 = Inr (t', h')"
    "exchanges h1 (set (owns t) \<union> set (owns w)) h' (set (owns t'))" "value_of h' t' = Some x" "distinct (owns t')"
    "mcomments t' = mcomments t"
    using assign_temporary_ok [OF exchanges_ok [OF w(2)] t1 w(3)] by blast
  have "exchanges h (set (owns t)) h1 (set (owns t) \<union> set (owns w))"
    using exchanges_frame [OF w(2) sub] by (simp add: Un_commute)
  then show ?thesis using exchanges_trans [OF _ a(2)] a w(1) by (auto simp: assign_value_def mbind_def)
qed

lemma value_of_null: "value_of h v = Some nullValue \<Longrightarrow> \<exists>c. v = MPlain nullValue c"
proof (cases v)
  case (MString p a c)
  then show "value_of h v = Some nullValue \<Longrightarrow> ?thesis" by (cases p) (auto split: if_splits)
qed (auto simp: map_value_def split: if_splits)

end
