(* ===== verification/JsonStore.thy ===== *)
theory JsonStore
  imports JsonMemory
begin

text \<open>
  The operations on members, items and comments of values in memory, and programs made of all of them
  (\<open>json_value.cpp\<close> in \<open>third/eice/src/jsoncpp.cpp\<close>): what they do to the strings on the heap is what
  \<open>JsonValue\<close> says of the values, and nothing is read after it was freed, freed twice or left over.
\<close>

section \<open>Entries\<close>

text \<open>An entry and what it stands for.\<close>

definition entry_is :: "heap \<Rightarrow> bool \<Rightarrow> CZString \<times> mvalue \<Rightarrow> (string + nat) \<times> Value \<Rightarrow> bool" where
  "entry_is h o' e p \<longleftrightarrow> key_of h o' (fst e) = Some (fst p) \<and> value_of h (snd e) = Some (snd p)"

lemma entry_is_pair [simp]: "entry_is h o' (k, v) (n, x) \<longleftrightarrow> key_of h o' k = Some n \<and> value_of h v = Some x"
  by (simp add: entry_is_def)

lemma entries_of_iff: "entries_of h o' es = Some m \<longleftrightarrow> list_all2 (entry_is h o') es m"
proof (induction es arbitrary: m)
  case (Cons e es)
  obtain k v where e: "e = (k, v)" by (cases e)
  show ?case
  proof (cases m)
    case (Cons p ms)
    obtain n x where p: "p = (n, x)" by (cases p)
    have "entries_of h o' (e # es) = Some m \<longleftrightarrow> entry_is h o' e p \<and> entries_of h o' es = Some ms"
      using e Cons p by (auto split: option.splits)
    then show ?thesis using Cons.IH [of ms] Cons by simp
  qed (use e in \<open>auto split: option.splits\<close>)
qed auto

lemma entries_own_append [simp]: "entries_own (es @ fs) = entries_own es @ entries_own fs"
  by (induction es) auto

lemma list_all2_while:
  assumes "list_all2 R xs ys" "\<And>x y. R x y \<Longrightarrow> P x = Q y"
  shows "list_all2 R (takeWhile P xs) (takeWhile Q ys)" "list_all2 R (dropWhile P xs) (dropWhile Q ys)"
  using assms by (induction rule: list_all2_induct) auto

lemma omap_put_while:
  "omap_put k v m = takeWhile (\<lambda>p. fst p < k) m @ (k, v) #
     (let from = dropWhile (\<lambda>p. fst p < k) m in if from \<noteq> [] \<and> fst (hd from) = k then tl from else from)"
  by (induction m) (auto simp: Let_def)

lemma omap_find_while:
  assumes "omap_of m"
  shows "omap_find m k =
     (let from = dropWhile (\<lambda>p. fst p < k) m in if from \<noteq> [] \<and> fst (hd from) = k then Some (snd (hd from)) else None)"
  using assms
proof (induction m)
  case (Cons p m)
  show ?case
  proof (cases "fst p < k")
    case False
    then have "k \<notin> fst ` set m" using Cons.prems by (auto simp: omap_of_Cons)
    then show ?thesis using False by (auto simp: omap_find_None [symmetric])
  qed (use Cons in \<open>auto simp: omap_of_Cons\<close>)
qed simp

lemma omap_erase_while:
  "omap_of m \<Longrightarrow> dropWhile (\<lambda>p. fst p < k) m \<noteq> [] \<Longrightarrow> fst (hd (dropWhile (\<lambda>p. fst p < k) m)) = k \<Longrightarrow>
    omap_erase k m = takeWhile (\<lambda>p. fst p < k) m @ tl (dropWhile (\<lambda>p. fst p < k) m)"
  by (induction m) (auto simp: omap_of_Cons split: if_splits)


section \<open>The two kinds of maps\<close>

text \<open>
  What arrays and objects have in common: how an entry is compared, and that a key given by the caller
  becomes an entry of its own. \<open>usable\<close> is what can be given as a key.
\<close>

lemma key_not_dangling: "key_of h o' k = Some n \<Longrightarrow> \<not> dangling_name h (k, v)"
  by (cases k) (auto simp: key_of_def dangling_name_def str_at_def split: if_splits option.splits)

lemma entries_readable: "entries_of h o' es = Some m \<Longrightarrow> \<not> (\<exists>e \<in> set es. dangling_name h e)"
  using key_not_dangling [of h o' "fst e" _ "snd e" for e]
  by (fastforce simp: entries_of_iff list_all2_conv_all_nth in_set_conv_nth entry_is_def)

locale map_keys =
  fixes is_object :: bool
    and key_fun :: "heap \<Rightarrow> CZString \<times> mvalue \<Rightarrow> 'k::linorder"
    and pr :: "string + nat \<Rightarrow> 'k"
    and inj :: "'k \<Rightarrow> string + nat"
    and usable :: "CZString \<Rightarrow> 'k \<Rightarrow> bool"
    and mk :: "('k \<times> Value) list \<Rightarrow> Value"
  assumes mk: "map_value b m = mk ms \<longleftrightarrow> b = is_object \<and> ms = map (apfst pr) m"
    and mk_map: "\<not> pointerless (mk ms1)" "mk ms1 \<noteq> stringValue s"
    and key_fun: "key_of h is_object k = Some n \<Longrightarrow> key_fun h (k, v) = pr n"
    and inj_pr: "key_of h1 is_object k1 = Some n1 \<Longrightarrow> inj (pr n1) = n1"
    and pr_inj: "pr (inj key) = key"
    and insert: "heap_ok h2 \<Longrightarrow> usable a key2 \<Longrightarrow>
      \<exists>e h'. insert_null a h2 = Inr (e, h') \<and> exchanges h2 {} h' (set (key_owns (fst e))) \<and> distinct (key_owns (fst e))
        \<and> key_of h' is_object (fst e) = Some (inj key2) \<and> snd e = MPlain nullValue None"
begin

abbreviation keyed :: "((string + nat) \<times> Value) list \<Rightarrow> ('k \<times> Value) list" where
  "keyed \<equiv> map (apfst pr)"

lemma key_fun_entry: "entry_is h is_object e p \<Longrightarrow> key_fun h e = pr (fst p)"
  using key_fun [of h "fst e" "fst p" "snd e"] by (simp add: entry_is_def)

lemma entry_inj: "entry_is h is_object e p \<Longrightarrow> inj (pr (fst p)) = fst p"
  using inj_pr [of h "fst e" "fst p"] by (simp add: entry_is_def)

lemma keyed_while:
  "takeWhile (\<lambda>p. fst p < key) (keyed m) = keyed (takeWhile (\<lambda>p. pr (fst p) < key) m)"
  "dropWhile (\<lambda>p. fst p < key) (keyed m) = keyed (dropWhile (\<lambda>p. pr (fst p) < key) m)"
  by (simp_all add: takeWhile_map dropWhile_map comp_def)

lemma resolve_ok:
  assumes ok: "heap_ok h" and es: "entries_of h is_object es = Some m" "distinct (entries_own es)" and a: "usable a key"
  shows "\<exists>before e rest h' m1 z m2.
    resolve_entry (key_fun h) key a es h = Inr ((before, e, rest), h')
    \<and> exchanges h (set (entries_own es)) h' (set (entries_own (before @ e # rest)))
    \<and> distinct (entries_own (before @ e # rest))
    \<and> list_all2 (entry_is h' is_object) before m1 \<and> entry_is h' is_object e (inj key, z)
    \<and> list_all2 (entry_is h' is_object) rest m2
    \<and> (\<forall>x. omap_put key x (keyed m) = keyed (m1 @ (inj key, x) # m2))"
proof -
  let ?before = "takeWhile (\<lambda>e. key_fun h e < key) es" and ?from = "dropWhile (\<lambda>e. key_fun h e < key) es"
  let ?m1 = "takeWhile (\<lambda>p. pr (fst p) < key) m" and ?mf = "dropWhile (\<lambda>p. pr (fst p) < key) m"
  have all: "list_all2 (entry_is h is_object) es m" using es(1) by (simp add: entries_of_iff)
  have parts: "list_all2 (entry_is h is_object) ?before ?m1" "list_all2 (entry_is h is_object) ?from ?mf"
    using list_all2_while [OF all, of "\<lambda>e. key_fun h e < key" "\<lambda>p. pr (fst p) < key"] by (simp_all add: key_fun_entry)
  note read = entries_readable [OF es(1)]
  show ?thesis
  proof (cases "?from \<noteq> [] \<and> key_fun h (hd ?from) = key")
    case True
    then obtain e rest where fr: "?from = e # rest" "key_fun h e = key" by (cases ?from) auto
    with parts(2) obtain p m2 where mf: "?mf = p # m2" "entry_is h is_object e p" "list_all2 (entry_is h is_object) rest m2"
      by (cases ?mf) auto
    then have p: "pr (fst p) = key" "fst p = inj key" using fr key_fun_entry entry_inj by metis+
    have es': "es = ?before @ e # rest" using takeWhile_dropWhile_id [of "\<lambda>e. key_fun h e < key" es] fr by simp
    have "omap_put key x (keyed m) = keyed (?m1 @ (inj key, x) # m2)" for x
      by (simp add: omap_put_while [of key x "keyed m"] keyed_while mf(1) p(1) pr_inj Let_def)
    moreover have "resolve_entry (key_fun h) key a es h = Inr ((?before, e, rest), h)"
      using read fr by (simp add: resolve_entry_def)
    moreover have "entry_is h is_object e (inj key, snd p)" using mf(2) p(2) by (metis prod.collapse)
    moreover have "exchanges h (set (entries_own es)) h (set (entries_own es))"
      using ok value_of_own(2) [OF es(1)] by simp
    ultimately show ?thesis using parts(1) mf(3) es(2) es' by metis
  next
    case False
    obtain e h' where e: "insert_null a h = Inr (e, h')" "exchanges h {} h' (set (key_owns (fst e)))"
      "distinct (key_owns (fst e))" "key_of h' is_object (fst e) = Some (inj key)" "snd e = MPlain nullValue None"
      using insert [OF ok a] by blast
    have es': "entries_own es = entries_own ?before @ entries_own ?from"
      using takeWhile_dropWhile_id [of "\<lambda>e. key_fun h e < key" es] by (metis entries_own_append)
    have own: "entries_own (?before @ e # ?from) = entries_own ?before @ key_owns (fst e) @ entries_own ?from"
      using e(5) by (cases e) simp
    have sub: "set (entries_own es) \<subseteq> dom (blocks h) - {}" using value_of_own(2) [OF es(1)] by simp
    have "entries_of h' is_object ?before = Some ?m1" "entries_of h' is_object ?from = Some ?mf"
      using parts entries_kept [OF e(2)] by (simp_all add: entries_of_iff [symmetric])
    then have parts': "list_all2 (entry_is h' is_object) ?before ?m1" "list_all2 (entry_is h' is_object) ?from ?mf"
      by (simp_all add: entries_of_iff)
    have "\<not> (?mf \<noteq> [] \<and> pr (fst (hd ?mf)) = key)"
      using False parts(2) key_fun_entry by (cases ?from; cases ?mf) auto
    then have "omap_put key x (keyed m) = keyed (?m1 @ (inj key, x) # ?mf)" for x
      by (cases ?mf) (simp_all add: omap_put_while [of key x "keyed m"] keyed_while pr_inj Let_def)
    moreover have "resolve_entry (key_fun h) key a es h = Inr ((?before, e, ?from), h')"
      using read False e(1) by (auto simp: resolve_entry_def mbind_def Let_def)
    moreover have "exchanges h (set (entries_own es)) h' (set (entries_own (?before @ e # ?from)))"
      using exchanges_frame [OF e(2) sub] unfolding own es' by (simp add: Un_ac)
    moreover have "distinct (entries_own (?before @ e # ?from))"
      using es(2) e(3) exchanges_apart [OF e(2) sub] unfolding own es' by auto
    moreover have "entry_is h' is_object e (inj key, nullValue)" using e(4,5) by (simp add: entry_is_def comments_ok_def)
    ultimately show ?thesis using parts' by blast
  qed
qed

lemma entries_own_update: "entries_own (before @ (k, w) # rest)
    = entries_own before @ key_owns k @ owns w @ entries_own rest"
  by simp

lemma set_in_map_ok:
  assumes ok: "heap_ok h" and v: "value_of h v = Some (mk ms)" "distinct (owns v)"
    and source: "value_of h source = Some x" "set (owns source) \<inter> set (owns v) = {}" and a: "usable a key"
  shows "\<exists>v' h'. set_in_map is_object key_fun key a message v source h = Inr (v', h')
    \<and> exchanges h (set (owns v)) h' (set (owns v')) \<and> value_of h' v' = Some (mk (omap_put key x ms))
    \<and> distinct (owns v') \<and> mcomments v' = mcomments v"
proof -
  obtain es c where v': "v = MMap is_object es c"
  proof (cases v)
    case (MString p b c)
    with v(1) mk_map(2) [symmetric] show ?thesis by (cases p) (auto split: if_splits)
  qed (use v(1) mk_map mk in \<open>auto split: if_splits\<close>)
  then obtain m where m: "entries_of h is_object es = Some m" "mk ms = map_value is_object m" "comments_ok h c"
    using v(1) by (auto split: if_splits)
  then have ms: "ms = keyed m" using mk by metis
  have d: "distinct (entries_own es)" "distinct (comments_own c)" "set (entries_own es) \<inter> set (comments_own c) = {}"
    using v(2) v' by auto
  obtain before k e rest h1 m1 z m2 where r: "resolve_entry (key_fun h) key a es h = Inr ((before, (k, e), rest), h1)"
    "exchanges h (set (entries_own es)) h1 (set (entries_own (before @ (k, e) # rest)))"
    "distinct (entries_own (before @ (k, e) # rest))"
    "list_all2 (entry_is h1 is_object) before m1" "entry_is h1 is_object (k, e) (inj key, z)"
    "list_all2 (entry_is h1 is_object) rest m2"
    "\<forall>x. omap_put key x (keyed m) = keyed (m1 @ (inj key, x) # m2)"
    using resolve_ok [OF ok m(1) d(1) a] by (metis (no_types, lifting) prod.collapse)
  have source1: "value_of h1 source = Some x" using value_kept [OF r(2) source(1)] source(2) v' by auto
  obtain w h2 where w: "assign_value e source h1 = Inr (w, h2)" "exchanges h1 (set (owns e)) h2 (set (owns w))"
    "value_of h2 w = Some x" "distinct (owns w)"
    using assign_value_ok [OF exchanges_ok [OF r(2)] _ _ source1, of e z] r(3,5) by auto
  let ?rest = "set (entries_own before) \<union> set (key_owns k) \<union> set (entries_own rest) \<union> set (comments_own c)"
  have C: "set (comments_own c) \<subseteq> dom (blocks h) - set (entries_own es)" using comments_ok_own [OF m(3)] d(3) by auto
  note C1 = exchanges_apart [OF r(2) C]
  have own1: "set (entries_own (before @ (k, e) # rest)) \<subseteq> dom (blocks h1)" using r(2) by (auto simp: exchanges_def)
  have R: "?rest \<subseteq> dom (blocks h1) - set (owns e)" using own1 r(3) C1 by auto
  have ch1: "exchanges h (set (owns v)) h1 (set (owns e) \<union> ?rest)"
    using exchanges_frame [OF r(2) C] v' by (simp add: Un_ac)
  let ?v = "MMap is_object (before @ (k, w) # rest) c"
  have "exchanges h (set (owns v)) h2 (set (owns ?v))"
    using exchanges_trans [OF ch1 exchanges_frame [OF w(2) R]] by (simp add: Un_ac)
  then have ch: "exchanges h (set (owns v)) h2 (set (owns ?v))" .
  have "entries_of h1 is_object before = Some m1" "entries_of h1 is_object rest = Some m2"
    using r(4,6) by (simp_all add: entries_of_iff)
  moreover have "set (entries_own before) \<inter> set (owns e) = {}" "set (entries_own rest) \<inter> set (owns e) = {}"
    using r(3) by auto
  ultimately have "entries_of h2 is_object before = Some m1" "entries_of h2 is_object rest = Some m2"
    by (simp_all add: entries_kept [OF w(2)])
  moreover have "set (key_owns k) \<inter> set (owns e) = {}" using r(3) by auto
  then have "key_of h2 is_object k = Some (inj key)" using key_kept [OF w(2), of is_object k] r(5) by simp
  ultimately have "entries_of h2 is_object (before @ (k, w) # rest) = Some (m1 @ (inj key, x) # m2)"
    using w(3) by (simp add: entries_of_iff list_all2_appendI)
  moreover have "comments_ok h2 c"
    using comments_kept [OF w(2) comments_kept [OF r(2) m(3)]] d(3) C1 by (auto simp: Int_commute)
  ultimately have "value_of h2 ?v = Some (mk (omap_put key x ms))"
    using r(7) ms mk by simp
  moreover have "distinct (owns ?v)"
    using r(3) w(4) exchanges_apart [OF w(2) R] C1 d(2) by auto
  moreover have "set_in_map is_object key_fun key a message v source h = Inr (?v, h2)"
    using v' r(1) w(1) by (simp add: set_in_map_def mbind_def)
  ultimately show ?thesis using v' ch by auto
qed

lemma set_entry_ok:
  assumes ok: "heap_ok h" and v: "value_of h v = Some y" "distinct (owns v)" and y: "y = nullValue \<and> ms = [] \<or> y = mk ms"
    and source: "value_of h source = Some x" "set (owns source) \<inter> set (owns v) = {}" and a: "usable a key"
  shows "\<exists>v' h'. set_entry is_object key_fun key a message v source h = Inr (v', h')
    \<and> exchanges h (set (owns v)) h' (set (owns v')) \<and> value_of h' v' = Some (mk (omap_put key x ms))
    \<and> distinct (owns v') \<and> mcomments v' = mcomments v"
proof (cases "\<exists>c. v = MPlain nullValue c")
  case True
  then have n: "y = nullValue" using v(1) by (auto split: if_splits)
  then have "ms = []" using y mk_map(1) [of ms] by auto
  have new: "value_of h (Value_new_map is_object) = Some (mk [])"
    using mk [of is_object "[]" "[]"] by (simp add: Value_new_map_def comments_ok_def)
  have "distinct (owns v @ owns (Value_new_map is_object))" using v(2) by (simp add: Value_new_map_def)
  then obtain t h1 where t: "assign_temporary v (Value_new_map is_object) h = Inr (t, h1)"
    "exchanges h (set (owns v)) h1 (set (owns t))" "value_of h1 t = Some (mk [])" "distinct (owns t)" "mcomments t = mcomments v"
    using assign_temporary_ok [OF ok v(1) new] by (auto simp: Value_new_map_def)
  have F: "set (owns source) \<subseteq> dom (blocks h) - set (owns v)" using value_of_own(1) [OF source(1)] source(2) by auto
  have s1: "value_of h1 source = Some x" using value_kept [OF t(2) source(1,2)] .
  have s2: "set (owns source) \<inter> set (owns t) = {}" using exchanges_apart [OF t(2) F] by auto
  obtain v' h' where r: "set_in_map is_object key_fun key a message t source h1 = Inr (v', h')"
    "exchanges h1 (set (owns t)) h' (set (owns v'))" "value_of h' v' = Some (mk (omap_put key x []))" "distinct (owns v')"
    "mcomments v' = mcomments t"
    using set_in_map_ok [OF exchanges_ok [OF t(2)] t(3,4) s1 s2 a] by blast
  show ?thesis using True t(1,5) r exchanges_trans [OF t(2) r(2)] \<open>ms = []\<close>
    by (auto simp: set_entry_def mbind_def)
next
  case False
  then have "y = mk ms" using v(1) y value_of_null by blast
  moreover have "set_entry is_object key_fun key a message v source h = set_in_map is_object key_fun key a message v source h"
    using False by (auto simp: set_entry_def mbind_def split: mvalue.splits Value.splits)
  ultimately show ?thesis using set_in_map_ok [OF ok _ v(2) source a] v(1) by auto
qed

lemma set_entry_throws:
  assumes "value_of h v = Some y" "y \<noteq> nullValue" "\<And>ms. y \<noteq> mk ms"
  shows "set_entry is_object key_fun key a message v source h = Inl (Throws message)"
proof (cases v)
  case (MPlain u c)
  then show ?thesis using assms by (cases u) (auto simp: set_entry_def set_in_map_def mbind_def split: if_splits)
next
  case (MMap b es c)
  then have "b \<noteq> is_object" using assms(1,3) mk by (auto split: if_splits)
  then show ?thesis using MMap by (simp add: set_entry_def set_in_map_def mbind_def)
qed (simp add: set_entry_def set_in_map_def mbind_def)

end

text \<open>Objects compare names and own a duplicate of a name that does not stay; arrays compare indices.\<close>

definition usable_name :: "CZString \<Rightarrow> string \<Rightarrow> bool" where
  "usable_name a key \<longleftrightarrow> (\<exists>s pol. a = CZName (Literal s) pol \<and> pol \<noteq> duplicate \<and> c_str s = key \<and> int (length key) < maxInt)"

lemma map_value_object: "map_value b m = objectValue ms \<longleftrightarrow> b = True \<and> ms = map (apfst projl) m"
  by (auto simp: map_value_def apfst_def map_prod_def)

lemma map_value_array: "map_value b m = arrayValue ms \<longleftrightarrow> b = False \<and> ms = map (apfst projr) m"
  by (auto simp: map_value_def apfst_def map_prod_def)

lemma insert_null_name:
  assumes "heap_ok h" "usable_name a key"
  shows "\<exists>e h'. insert_null a h = Inr (e, h') \<and> exchanges h {} h' (set (key_owns (fst e))) \<and> distinct (key_owns (fst e))
    \<and> key_of h' True (fst e) = Some (Inl key) \<and> snd e = MPlain nullValue None"
proof -
  obtain s pol where a: "a = CZName (Literal s) pol" "pol \<noteq> duplicate" "c_str s = key" "int (length key) < maxInt"
    using assms(2) by (auto simp: usable_name_def)
  have t: "str_at h (Literal s) = Some key" using a by simp
  show ?thesis
  proof (cases "pol = noDuplication")
    case True
    then show ?thesis using a assms(1) t
      by (simp add: insert_null_def CZString_copy_def CZString_delete_def mbind_def key_of_def)
  next
    case False
    obtain b1 h1 where d1: "duplicateStringValue (Literal s) None h = Inr (b1, h1)" "exchanges h {} h1 {b1}"
      "str_at h1 (Block b1) = Some key" using duplicate_text [OF assms(1) t] by blast
    obtain b2 h2 where d2: "duplicateStringValue (Block b1) None h1 = Inr (b2, h2)" "exchanges h1 {} h2 {b2}"
      "str_at h2 (Block b2) = Some key" using duplicate_text [OF exchanges_ok [OF d1(2)] d1(3)] by blast
    have b: "{b1} \<subseteq> dom (blocks h1) - {}" using str_at_Block [OF d1(3)] by simp
    note j = copies_join [OF d1(2) d2(2)]
    have "b1 \<in> dom (blocks h2)" using exchanges_apart [OF d2(2) b] by simp
    then obtain h3 where d3: "releaseStringValue (Block b1) h2 = Inr ((), h3)" "exchanges h2 {b1} h3 {}"
      using release_block [OF exchanges_ok [OF d2(2)]] by blast
    have b2: "{b2} \<subseteq> dom (blocks h2) - {b1}" using str_at_Block [OF d2(3)] j(2) by auto
    have "exchanges h {} h3 {b2}" using exchanges_trans [OF _ exchanges_frame [OF d3(2) b2]] j(1) by simp
    moreover have "str_at h3 (Block b2) = Some key"
      using exchanges_same [OF d3(2) b2, of b2] d3 d2(3) str_at_same [of h3 b2 h2] by simp
    ultimately show ?thesis using a False d1(1) d2(1) d3(1)
      by (auto simp: insert_null_def CZString_copy_def CZString_delete_def mbind_def key_of_def)
  qed
qed

interpretation names: map_keys True entry_name projl Inl usable_name objectValue
proof unfold_locales
  show "\<And>h k n v. key_of h True k = Some n \<Longrightarrow> entry_name h (k, v) = projl n"
    by (auto simp: key_of_def entry_name_def str_at_def split: CZString.splits if_splits option.splits)
  show "\<And>h k n. key_of h True k = Some n \<Longrightarrow> Inl (projl n) = n"
    by (auto simp: key_of_def split: CZString.splits if_splits)
  show "\<And>h a key. heap_ok h \<Longrightarrow> usable_name a key \<Longrightarrow>
      \<exists>e h'. insert_null a h = Inr (e, h') \<and> exchanges h {} h' (set (key_owns (fst e))) \<and> distinct (key_owns (fst e))
        \<and> key_of h' True (fst e) = Some (Inl key) \<and> snd e = MPlain nullValue None"
    by (rule insert_null_name)
qed (auto simp: map_value_object)

interpretation indices: map_keys False "\<lambda>h. entry_index" projr Inr "\<lambda>a i. a = CZIndex i" arrayValue
proof unfold_locales
  show "\<And>h k n v. key_of h False k = Some n \<Longrightarrow> entry_index (k, v) = projr n"
    by (auto simp: key_of_def entry_index_def split: CZString.splits if_splits)
  show "\<And>h k n. key_of h False k = Some n \<Longrightarrow> Inr (projr n) = n"
    by (auto simp: key_of_def split: CZString.splits if_splits)
qed (auto simp: map_value_array insert_null_def CZString_copy_def CZString_delete_def mbind_def key_of_def)


lemma set_member_ok:
  assumes "heap_ok h" "value_of h v = Some y" "distinct (owns v)" "value_of h source = Some x"
    "set (owns source) \<inter> set (owns v) = {}" "int (length (c_str key)) < maxInt"
  shows "case member_set y key x of
      Inl e \<Rightarrow> set_member static v key source h = Inl (Throws e)
    | Inr y' \<Rightarrow> \<exists>v' h'. set_member static v key source h = Inr (v', h') \<and> exchanges h (set (owns v)) h' (set (owns v'))
        \<and> value_of h' v' = Some y' \<and> distinct (owns v') \<and> mcomments v' = mcomments v"
proof -
  have a: "usable_name (CZName (Literal key) (if static then noDuplication else duplicateOnCopy)) (c_str key)"
    using assms(6) by (simp add: usable_name_def)
  have put: "member_set y key x = Inr (objectValue (omap_put (c_str key) x ms))"
    if "y = nullValue \<and> ms = [] \<or> y = objectValue ms" for ms
    using that by (auto simp: member_set_def member_ref_def omap_put_put split: option.splits)
  show ?thesis
  proof (cases "y = nullValue \<or> (\<exists>ms. y = objectValue ms)")
    case True
    then obtain ms where ms: "y = nullValue \<and> ms = [] \<or> y = objectValue ms" by blast
    show ?thesis using names.set_entry_ok [OF assms(1-3) ms assms(4,5) a] put [OF ms] by (auto simp: set_member_def)
  next
    case False
    then have "member_set y key x = Inl ''in Json_em::Value::resolveReference(): requires objectValue''"
      by (cases y) (auto simp: member_set_def member_ref_def)
    then show ?thesis using names.set_entry_throws [OF assms(2)] False by (auto simp: set_member_def)
  qed
qed

lemma set_item_ok:
  assumes "heap_ok h" "value_of h v = Some y" "distinct (owns v)" "value_of h source = Some x"
    "set (owns source) \<inter> set (owns v) = {}"
  shows "case index_set y index x of
      Inl e \<Rightarrow> set_item v index source h = Inl (Throws e)
    | Inr y' \<Rightarrow> \<exists>v' h'. set_item v index source h = Inr (v', h') \<and> exchanges h (set (owns v)) h' (set (owns v'))
        \<and> value_of h' v' = Some y' \<and> distinct (owns v') \<and> mcomments v' = mcomments v"
proof -
  have put: "index_set y index x = Inr (arrayValue (omap_put index x ms))"
    if "y = nullValue \<and> ms = [] \<or> y = arrayValue ms" for ms
    using that by (auto simp: index_set_def index_ref_def omap_put_put split: option.splits)
  show ?thesis
  proof (cases "y = nullValue \<or> (\<exists>ms. y = arrayValue ms)")
    case True
    then obtain ms where ms: "y = nullValue \<and> ms = [] \<or> y = arrayValue ms" by blast
    show ?thesis using indices.set_entry_ok [OF assms(1-3) ms assms(4,5) refl] put [OF ms] by (auto simp: set_item_def)
  next
    case False
    then have "index_set y index x = Inl ''in Json_em::Value::operator[](ArrayIndex): requires arrayValue''"
      by (cases y) (auto simp: index_set_def index_ref_def)
    then show ?thesis using indices.set_entry_throws [OF assms(2)] False by (auto simp: set_item_def)
  qed
qed

text \<open>Maps are in order, all the way down.\<close>

fun ordered :: "Value \<Rightarrow> bool" where
  "ordered (arrayValue m) \<longleftrightarrow> omap_of m \<and> (\<forall>p \<in> set m. ordered (snd p))"
| "ordered (objectValue m) \<longleftrightarrow> omap_of m \<and> (\<forall>p \<in> set m. ordered (snd p))"
| "ordered _ \<longleftrightarrow> True"

lemma ordered_put: "omap_of m \<Longrightarrow> \<forall>p \<in> set m. ordered (snd p) \<Longrightarrow> ordered x \<Longrightarrow>
    omap_of (omap_put k x m) \<and> (\<forall>p \<in> set (omap_put k x m). ordered (snd p))"
  using set_omap_put [of k x m] by (auto intro: omap_of_put)

lemma ordered_member_set:
  assumes "ordered y" "ordered x" "member_set y key x = Inr y'"
  shows "ordered y'"
proof -
  obtain ms where ms: "y = nullValue \<and> ms = [] \<or> y = objectValue ms" "y' = objectValue (omap_put (c_str key) x ms)"
    using assms(3) by (cases y) (auto simp: member_set_def member_ref_def omap_put_put split: option.splits)
  have "omap_of ms \<and> (\<forall>p \<in> set ms. ordered (snd p))" using ms(1) assms(1) by (elim disjE) simp_all
  then show ?thesis using ms(2) ordered_put [of ms x "c_str key"] assms(2) by simp
qed

lemma ordered_index_set:
  assumes "ordered y" "ordered x" "index_set y index x = Inr y'"
  shows "ordered y'"
proof -
  obtain ms where ms: "y = nullValue \<and> ms = [] \<or> y = arrayValue ms" "y' = arrayValue (omap_put index x ms)"
    using assms(3) by (cases y) (auto simp: index_set_def index_ref_def omap_put_put split: option.splits)
  have "omap_of ms \<and> (\<forall>p \<in> set ms. ordered (snd p))" using ms(1) assms(1) by (elim disjE) simp_all
  then show ?thesis using ms(2) ordered_put [of ms x "index"] assms(2) by simp
qed

lemma ordered_removeMember:
  assumes "ordered y" "removeMember y key = Inr (y', old)"
  shows "ordered y' \<and> ordered old"
proof (cases y)
  case (objectValue m)
  note m = assms(1) [unfolded objectValue ordered.simps]
  show ?thesis
  proof (cases "omap_find m (c_str key)")
    case (Some v)
    then have "ordered v" using m omap_find_Some_in [OF Some] by fastforce
    moreover have "\<forall>p \<in> set (omap_erase (c_str key) m). ordered (snd p)" using m set_omap_erase_subset [of "c_str key" m] by blast
    ultimately show ?thesis using assms(2) objectValue Some m by (auto simp: removeMember_def omap_of_erase)
  qed (use assms objectValue in \<open>auto simp: removeMember_def\<close>)
qed (use assms in \<open>auto simp: removeMember_def\<close>)

lemma value_of_object:
  assumes "value_of h v = Some (objectValue ms)"
  obtains es c m where "v = MMap True es c" "entries_of h True es = Some m" "ms = names.keyed m" "comments_ok h c"
proof (cases v)
  case (MString p a c)
  then show thesis using assms by (cases p) (auto split: if_splits)
next
  case (MMap b es c)
  then show thesis using assms that by (auto simp: map_value_object split: if_splits)
qed (use assms in \<open>auto split: if_splits\<close>)

lemma remove_found:
  assumes ok: "heap_ok h" and v: "value_of h (MMap True (before @ (k, e) # rest) c) = Some (objectValue ms)"
    and d: "distinct (owns (MMap True (before @ (k, e) # rest) c))"
  shows "\<exists>h2 h3 m1 n z m2. delete_value e h = Inr ((), h2) \<and> CZString_delete k h2 = Inr ((), h3)
    \<and> exchanges h (set (owns (MMap True (before @ (k, e) # rest) c))) h3 (set (owns (MMap True (before @ rest) c)))
    \<and> ms = names.keyed (m1 @ (n, z) # m2) \<and> key_of h True k = Some n \<and> value_of h e = Some z
    \<and> value_of h3 (MMap True (before @ rest) c) = Some (objectValue (names.keyed (m1 @ m2)))"
proof -
  obtain m where m: "entries_of h True (before @ (k, e) # rest) = Some m" "ms = names.keyed m" "comments_ok h c"
    using v by (elim value_of_object) auto
  then obtain m1 n z m2 where parts: "m = m1 @ (n, z) # m2" "list_all2 (entry_is h True) before m1"
    "key_of h True k = Some n" "value_of h e = Some z" "list_all2 (entry_is h True) rest m2"
    by (auto simp: entries_of_iff list_all2_append1 list_all2_Cons1)
  let ?F = "set (owns (MMap True (before @ rest) c))"
  have o: "distinct (owns e)" "set (key_owns k) \<inter> set (owns e) = {}" "?F \<inter> (set (owns e) \<union> set (key_owns k)) = {}"
    using d by auto
  obtain h2 where h2: "delete_value e h = Inr ((), h2)" "exchanges h (set (owns e)) h2 {}"
    using delete_value_ok(1) [OF ok parts(4) o(1)] by blast
  obtain h3 where h3: "CZString_delete k h2 = Inr ((), h3)" "exchanges h2 (set (key_owns k)) h3 {}"
    using delete_key [OF exchanges_ok [OF h2(2)] key_kept [OF h2(2) parts(3) o(2)]] by blast
  have j: "exchanges h (set (owns e) \<union> set (key_owns k)) h3 {}"
    using deletes_join [OF h2(2) h3(2) key_of_own [OF parts(3)] o(2)] .
  have "list_all2 (entry_is h True) (before @ rest) (m1 @ m2)" using parts(2,5) by (rule list_all2_appendI)
  then have new: "value_of h (MMap True (before @ rest) c) = Some (objectValue (names.keyed (m1 @ m2)))"
    using m(3) by (simp add: entries_of_iff [symmetric] map_value_object)
  have "?F \<subseteq> dom (blocks h) - (set (owns e) \<union> set (key_owns k))" using value_of_own(1) [OF new] o(3) by blast
  from exchanges_frame [OF j this] have "exchanges h (set (owns (MMap True (before @ (k, e) # rest) c))) h3 ?F"
    by (simp add: Un_ac)
  moreover have "ms = names.keyed (m1 @ (n, z) # m2)" using parts(1) m(2) by simp
  ultimately show ?thesis using h2(1) h3(1) parts(3,4) value_kept [OF j new o(3)] by blast
qed

lemma omap_middle: "omap_of (a @ (k, z) # b) \<Longrightarrow>
    omap_find (a @ (k, z) # b) k = Some z \<and> omap_erase k (a @ (k, z) # b) = a @ b"
proof (induction a)
  case (Cons p a)
  then have "fst p < k" by (auto simp: omap_of_Cons)
  then show ?case using Cons by (auto simp: omap_of_Cons)
qed simp

lemma remove_member_ok:
  assumes ok: "heap_ok h" and v: "value_of h v = Some y" "distinct (owns v)" and y: "ordered y"
  shows "case removeMember y key of
      Inl e \<Rightarrow> remove_member v key h = Inl (Throws e)
    | Inr (y', x) \<Rightarrow> \<exists>v' old h1 h'. remove_member v key h = Inr ((v', old), h')
        \<and> exchanges h {} h1 (set (owns old)) \<and> value_of h1 old = Some x \<and> distinct (owns old)
        \<and> exchanges h1 (set (owns v)) h' (set (owns v')) \<and> value_of h' v' = Some y' \<and> distinct (owns v')"
proof -
  have same: "\<exists>h1. exchanges h {} h1 (set (owns (MPlain nullValue None))) \<and> value_of h1 (MPlain nullValue None) = Some nullValue
      \<and> exchanges h1 (set (owns v)) h (set (owns v)) \<and> value_of h v = Some y"
    using ok v value_of_own(1) [OF v(1)] by (intro exI [of _ h]) (simp add: comments_ok_def)
  show ?thesis
  proof (cases "\<exists>ms. y = objectValue ms")
    case False
    show ?thesis
    proof (cases "y = nullValue")
      case True
      then obtain c where "v = MPlain nullValue c" using v(1) value_of_null by blast
      then show ?thesis using True same v(2) by (auto simp: removeMember_def remove_member_def)
    next
      case n: False
      have "remove_member v key h = Inl (Throws ''in Json_em::Value::removeMember(): requires objectValue'')"
      proof (cases v)
        case (MPlain u c)
        then show ?thesis using v(1) n by (cases u) (auto simp: remove_member_def split: if_splits)
      next
        case (MMap b es c)
        then have "\<not> b" using v(1) False by (auto simp: map_value_def split: if_splits)
        then show ?thesis using MMap by (simp add: remove_member_def)
      qed (simp add: remove_member_def)
      then show ?thesis using n False by (cases y) (auto simp: removeMember_def)
    qed
  next
    case True
    then obtain ms where ms: "y = objectValue ms" by blast
    then obtain es c m where vs: "v = MMap True es c" "entries_of h True es = Some m" "ms = names.keyed m" "comments_ok h c"
      using v(1) value_of_object by metis
    have all: "list_all2 (entry_is h True) es m" using vs(2) by (simp add: entries_of_iff)
    note read = entries_readable [OF vs(2)]
    let ?before = "takeWhile (\<lambda>e. entry_name h e < c_str key) es" and ?from = "dropWhile (\<lambda>e. entry_name h e < c_str key) es"
    let ?mf = "dropWhile (\<lambda>p. projl (fst p) < c_str key) m"
    have parts: "list_all2 (entry_is h True) ?from ?mf"
      using list_all2_while(2) [OF all, of "\<lambda>e. entry_name h e < c_str key" "\<lambda>p. projl (fst p) < c_str key"]
      by (simp add: names.key_fun_entry)
    have om: "omap_of ms" using y ms by simp
    show ?thesis
    proof (cases "?from \<noteq> [] \<and> entry_name h (hd ?from) = c_str key")
      case False
      have "\<not> (?mf \<noteq> [] \<and> projl (fst (hd ?mf)) = c_str key)"
        using False parts names.key_fun_entry by (cases ?from; cases ?mf) auto
      then have "omap_find ms (c_str key) = None"
        using omap_find_while [OF om, of "c_str key"] by (cases ?mf) (auto simp: Let_def vs(3) names.keyed_while)
      moreover have "remove_member v key h = Inr ((v, MPlain nullValue None), h)"
        using read False vs(1) by (auto simp: remove_member_def Let_def)
      ultimately show ?thesis using same v(2) ms by (auto simp: removeMember_def)
    next
      case True
      then obtain k e rest where fr: "?from = (k, e) # rest" "entry_name h (k, e) = c_str key"
        by (cases ?from) (auto simp: split_paired_all)
      then obtain n0 z0 where e: "key_of h True k = Some n0" "value_of h e = Some z0" "projl n0 = c_str key"
        using parts names.key_fun_entry [of h "(k, e)"] by (cases ?mf) auto
      have es: "es = ?before @ (k, e) # rest"
        using takeWhile_dropWhile_id [of "\<lambda>e. entry_name h e < c_str key" es] fr(1) by simp
      obtain old h1 where old: "copy_value e h = Inr (old, h1)" "exchanges h {} h1 (set (owns old))" "value_of h1 old = Some z0"
        "distinct (owns old)" using copy_value_ok(1) [OF ok e(2)] by blast
      have v1: "value_of h1 (MMap True (?before @ (k, e) # rest) c) = Some (objectValue ms)"
        using value_kept [OF old(2) v(1)] es vs(1) ms by simp
      have d1: "distinct (owns (MMap True (?before @ (k, e) # rest) c))" using v(2) es vs(1) by simp
      from remove_found [OF exchanges_ok [OF old(2)] v1 d1] obtain h2 h3 m1 n z m2 where r:
        "delete_value e h1 = Inr ((), h2)" "CZString_delete k h2 = Inr ((), h3)"
        "exchanges h1 (set (owns (MMap True (?before @ (k, e) # rest) c))) h3 (set (owns (MMap True (?before @ rest) c)))"
        "ms = names.keyed (m1 @ (n, z) # m2)" "key_of h1 True k = Some n" "value_of h1 e = Some z"
        "value_of h3 (MMap True (?before @ rest) c) = Some (objectValue (names.keyed (m1 @ m2)))" by blast
      have "n = n0" "z = z0" using r(5,6) key_kept [OF old(2) e(1)] value_kept [OF old(2) e(2)] by simp_all
      then have "removeMember y key = Inr (objectValue (names.keyed (m1 @ m2)), z0)"
        using omap_middle [of "names.keyed m1" "c_str key" z0 "names.keyed m2"] om r(4) e(3) ms by (simp add: removeMember_def)
      moreover have "remove_member v key h = Inr ((MMap True (?before @ rest) c, old), h3)"
        using read vs(1) fr old(1) r(1,2) by (simp add: remove_member_def mbind_def)
      moreover have "distinct (owns (MMap True (?before @ rest) c))" using d1 by auto
      ultimately show ?thesis using old r(3,7) vs(1) es by auto
    qed
  qed
qed


lemma clear_value_ok:
  assumes ok: "heap_ok h" and v: "value_of h v = Some y" "distinct (owns v)"
  shows "case Value_clear y of
      Inl e \<Rightarrow> clear_value v h = Inl (Throws e)
    | Inr y' \<Rightarrow> \<exists>v' h'. clear_value v h = Inr (v', h') \<and> exchanges h (set (owns v)) h' (set (owns v'))
        \<and> value_of h' v' = Some y' \<and> distinct (owns v')"
proof (cases v)
  case (MPlain u c)
  then show ?thesis using v ok value_of_own(1) [OF v(1)]
    by (cases u) (auto simp: Value_clear_def clear_value_def split: if_splits)
next
  case (MString p a c)
  then show ?thesis using v(1) by (cases p) (auto simp: Value_clear_def clear_value_def split: if_splits)
next
  case (MMap b es c)
  then obtain m where m: "entries_of h b es = Some m" "y = map_value b m" "comments_ok h c" using v(1) by (auto split: if_splits)
  have d: "distinct (entries_own es)" "set (entries_own es) \<inter> set (comments_own c) = {}" "distinct (comments_own c)"
    using v(2) MMap by auto
  obtain h' where h': "delete_entries es h = Inr ((), h')" "exchanges h (set (entries_own es)) h' {}"
    using delete_value_ok(2) [OF ok m(1) d(1)] by blast
  have "set (comments_own c) \<subseteq> dom (blocks h) - set (entries_own es)" using comments_ok_own [OF m(3)] d(2) by auto
  from exchanges_frame [OF h'(2) this] have ch: "exchanges h (set (owns v)) h' (set (owns (MMap b [] c)))" using MMap by simp
  have "comments_ok h' c" using comments_kept [OF h'(2) m(3)] d(2) by auto
  then have "value_of h' (MMap b [] c) = Some (map_value b [])" by simp
  moreover have "Value_clear y = Inr (map_value b [])" using m(2) by (simp add: Value_clear_def map_value_def)
  ultimately show ?thesis using h'(1) ch d(3) MMap by (simp add: clear_value_def mbind_def)
qed

lemma comments_own_append [simp]: "comments_own (Some (a @ b)) = comments_own (Some a) @ comments_own (Some b)"
  by (simp add: comments_own_def List.map_filter_def)

text \<open>A comment in the place of another, or of none.\<close>

lemma set_comment_ok:
  assumes ok: "heap_ok h" and c: "place_ok h c" and t: "c_str s = [] \<or> hd s = CHR ''/''" "int (length (c_str s)) < maxInt"
  shows "\<exists>b h'. CommentInfo_setComment c (Literal s) h = Inr (Some b, h')
    \<and> exchanges h (set (comments_own (Some [c]))) h' {b} \<and> place_ok h' (Some b)"
proof -
  obtain h1 where d: "delete_CommentInfo c h = Inr ((), h1)" "exchanges h (set (comments_own (Some [c]))) h1 {}"
  proof (cases c)
    case (Some b)
    then have "b \<in> dom (blocks h)" using c by (auto simp: place_ok_def str_at_def split: option.splits)
    then show thesis using release_block [OF ok] that Some by (auto simp: delete_CommentInfo_def)
  qed (use ok that in \<open>auto simp: delete_CommentInfo_def\<close>)
  obtain b h' where b: "duplicateStringValue (Literal s) None h1 = Inr (b, h')" "exchanges h1 {} h' {b}"
    "str_at h' (Block b) = Some (c_str s)"
    using duplicate_text [OF exchanges_ok [OF d(2)], of "Literal s" "c_str s"] t(2) by auto
  have "c_str s = [] \<or> hd (c_str s) = CHR ''/''" using t(1) by (cases s) (auto simp: c_str_def)
  then have "place_ok h' (Some b)" using b(3) by (simp add: place_ok_def)
  moreover have "CommentInfo_setComment c (Literal s) h = Inr (Some b, h')"
    using d(1) b(1) t(1) by (auto simp: CommentInfo_setComment_def mbind_def)
  ultimately show ?thesis using exchanges_trans [OF d(2) b(2)] by blast
qed

lemma comment_value_ok:
  assumes ok: "heap_ok h" and v: "value_of h v = Some y" "distinct (owns v)" and p: "placement < 3"
    and t: "c_str s = [] \<or> hd s = CHR ''/''" "int (length (c_str s)) < maxInt"
  shows "\<exists>v' h'. comment_value v placement s h = Inr (v', h') \<and> exchanges h (set (owns v)) h' (set (owns v'))
    \<and> value_of h' v' = Some y \<and> distinct (owns v')"
proof -
  define cs where "cs = (case mcomments v of None \<Rightarrow> replicate 3 None | Some cs \<Rightarrow> cs)"
  have cs: "length cs = 3" "\<forall>q \<in> set cs. place_ok h q" "comments_own (Some cs) = comments_own (mcomments v)"
    using value_of_comments_ok [OF v(1)]
    by (auto simp: cs_def comments_ok_def place_ok_def numeral_3_eq_3 split: option.splits)
  let ?a = "take placement cs" and ?c = "cs ! placement" and ?b = "drop (Suc placement) cs"
  have split: "cs = ?a @ ?c # ?b" using p cs(1) by (simp add: id_take_nth_drop)
  have upd: "cs[placement := x] = ?a @ x # ?b" for x using p cs(1) by (simp add: upd_conv_take_nth_drop)
  have own: "comments_own (mcomments v) = comments_own (Some ?a) @ comments_own (Some [?c]) @ comments_own (Some ?b)"
    using cs(3) comments_own_append [of ?a "[?c] @ ?b"] comments_own_append [of "[?c]" ?b] split by simp
  let ?w = "with_comments None v" and ?old = "set (comments_own (Some [?c]))"
  let ?F = "set (owns ?w) \<union> set (comments_own (Some ?a)) \<union> set (comments_own (Some ?b))"
  have o: "owns v = owns ?w @ comments_own (Some ?a) @ comments_own (Some [?c]) @ comments_own (Some ?b)"
    using owns_split [of v] own by simp
  have "place_ok h ?c" using cs(1,2) p by simp
  from set_comment_ok [OF ok this t] obtain b h' where b: "CommentInfo_setComment ?c (Literal s) h = Inr (Some b, h')"
    "exchanges h ?old h' {b}" "place_ok h' (Some b)" by blast
  have F: "?F \<subseteq> dom (blocks h) - ?old" using value_of_own(1) [OF v(1)] v(2) unfolding o by auto
  note apart = exchanges_apart [OF b(2) F]
  let ?v = "with_comments (Some (cs[placement := Some b])) v"
  have ov: "owns ?v = owns ?w @ comments_own (Some ?a) @ b # comments_own (Some ?b)"
    using owns_with_comments [of "Some (cs[placement := Some b])" v] by (simp add: upd)
  have "exchanges h (set (owns v)) h' (set (owns ?v))"
    using exchanges_frame [OF b(2) F] unfolding o ov by (simp add: Un_ac)
  moreover have "distinct (owns ?v)" using v(2) apart unfolding o ov by auto
  moreover have w: "value_of h ?w = Some y"
    using v(1) value_of_with_comments [of h "mcomments v" v] by (simp split: if_splits)
  then have "value_of h' ?w = Some y" using value_kept [OF b(2)] F by blast
  moreover have "\<forall>q \<in> set ?a \<union> set ?b. place_ok h' q"
  proof
    fix q
    assume q: "q \<in> set ?a \<union> set ?b"
    then have "q \<in> set cs" using in_set_takeD in_set_dropD by fast
    moreover have "q = Some e \<Longrightarrow> e \<in> ?F" for e using q by (auto simp: comments_own_def List.map_filter_def image_iff)
    ultimately show "place_ok h' q" using place_kept [OF b(2)] cs(2) F by blast
  qed
  then have "comments_ok h' (Some (cs[placement := Some b]))" using b(3) cs(1) p by (auto simp: comments_ok_def upd)
  ultimately show ?thesis using b(1) value_of_with_comments [of h' _ v]
    by (auto simp: comment_value_def cs_def [symmetric] mbind_def Let_def)
qed


section \<open>Programs on values\<close>

text \<open>
  Variables that hold values, and what a program can do with them. An operation on a variable that does
  not exist, or the making of one that does, is no program (\<open>None\<close>); \<open>v[key] = w\<close> is for two variables.
\<close>

datatype json_op =
    NewPlain nat Value
  | NewString nat string
  | NewStatic nat string
  | NewType nat nat
  | CopyValue nat nat
  | AssignValue nat nat
  | SetMember bool nat string nat
  | SetItem nat nat nat
  | RemoveMember nat nat string
  | CommentValue nat nat string
  | ClearValue nat
  | Destroy nat

fun exec :: "json_op \<Rightarrow> (nat \<Rightarrow> mvalue option) \<Rightarrow> heap \<Rightarrow> (nat \<Rightarrow> mvalue option) mem option" where
  "exec (NewPlain x u) V h = (if V x \<noteq> None \<or> \<not> pointerless u then None else Some (Inr (V(x := Some (MPlain u None)), h)))"
| "exec (NewString x s) V h =
     (if V x \<noteq> None then None else Some (mbind (Value_new_string s h) (\<lambda>v h1. Inr (V(x := Some v), h1))))"
| "exec (NewStatic x s) V h = (if V x \<noteq> None then None else Some (Inr (V(x := Some (Value_new_static s)), h)))"
| "exec (NewType x t) V h =
     (if V x \<noteq> None then None else map_option (\<lambda>v. Inr (V(x := Some v), h)) (Value_new_type t))"
| "exec (CopyValue x y) V h =
     (case V y of
        None \<Rightarrow> None
      | Some w \<Rightarrow> if V x \<noteq> None then None else Some (mbind (copy_value w h) (\<lambda>v h1. Inr (V(x := Some v), h1))))"
| "exec (AssignValue x y) V h =
     (case (V x, V y) of
        (Some v, Some w) \<Rightarrow> Some (mbind (assign_value v w h) (\<lambda>v' h1. Inr (V(x := Some v'), h1)))
      | _ \<Rightarrow> None)"
| "exec (SetMember static x key y) V h =
     (if x = y then None else case (V x, V y) of
        (Some v, Some w) \<Rightarrow> Some (mbind (set_member static v key w h) (\<lambda>v' h1. Inr (V(x := Some v'), h1)))
      | _ \<Rightarrow> None)"
| "exec (SetItem x index y) V h =
     (if x = y then None else case (V x, V y) of
        (Some v, Some w) \<Rightarrow> Some (mbind (set_item v index w h) (\<lambda>v' h1. Inr (V(x := Some v'), h1)))
      | _ \<Rightarrow> None)"
| "exec (RemoveMember r x key) V h =
     (if V r \<noteq> None then None else case V x of
        None \<Rightarrow> None
      | Some v \<Rightarrow> Some (mbind (remove_member v key h) (\<lambda>(v', old) h1. Inr (V(r := Some old, x := Some v'), h1))))"
| "exec (CommentValue x placement s) V h =
     (if placement \<ge> 3 then None else case V x of
        None \<Rightarrow> None
      | Some v \<Rightarrow> Some (mbind (comment_value v placement s h) (\<lambda>v' h1. Inr (V(x := Some v'), h1))))"
| "exec (ClearValue x) V h =
     (case V x of
        None \<Rightarrow> None
      | Some v \<Rightarrow> Some (mbind (clear_value v h) (\<lambda>v' h1. Inr (V(x := Some v'), h1))))"
| "exec (Destroy x) V h =
     (case V x of
        None \<Rightarrow> None
      | Some v \<Rightarrow> Some (mbind (delete_value v h) (\<lambda>_ h1. Inr (V(x := None), h1))))"

fun exec_all :: "json_op list \<Rightarrow> (nat \<Rightarrow> mvalue option) \<Rightarrow> heap \<Rightarrow> (nat \<Rightarrow> mvalue option) mem option" where
  "exec_all [] V h = Some (Inr (V, h))"
| "exec_all (op # ops) V h =
     (case exec op V h of
        None \<Rightarrow> None
      | Some (Inl e) \<Rightarrow> Some (Inl e)
      | Some (Inr (V1, h1)) \<Rightarrow> exec_all ops V1 h1)"

text \<open>The same program on the values of \<open>JsonValue\<close>, with no memory.\<close>

definition first_values :: "Value list" where
  "first_values = [nullValue, intValue 0, uintValue 0, realValue 0, stringValue [], booleanValue False,
     arrayValue [], objectValue []]"

fun spec :: "json_op \<Rightarrow> (nat \<Rightarrow> Value option) \<Rightarrow> (nat \<Rightarrow> Value option) throws option" where
  "spec (NewPlain x u) S = (if S x \<noteq> None \<or> \<not> pointerless u then None else Some (Inr (S(x := Some u))))"
| "spec (NewString x s) S = (if S x \<noteq> None then None else Some (Inr (S(x := Some (Value_of_string s)))))"
| "spec (NewStatic x s) S = (if S x \<noteq> None then None else Some (Inr (S(x := Some (Value_of_string s)))))"
| "spec (NewType x t) S =
     (if S x \<noteq> None \<or> length first_values \<le> t then None else Some (Inr (S(x := Some (first_values ! t)))))"
| "spec (CopyValue x y) S = (case S y of None \<Rightarrow> None | Some w \<Rightarrow> if S x \<noteq> None then None else Some (Inr (S(x := Some w))))"
| "spec (AssignValue x y) S = (case (S x, S y) of (Some v, Some w) \<Rightarrow> Some (Inr (S(x := Some w))) | _ \<Rightarrow> None)"
| "spec (SetMember static x key y) S =
     (if x = y then None else case (S x, S y) of
        (Some v, Some w) \<Rightarrow> Some (map_sum (\<lambda>e. e) (\<lambda>v'. S(x := Some v')) (member_set v key w))
      | _ \<Rightarrow> None)"
| "spec (SetItem x index y) S =
     (if x = y then None else case (S x, S y) of
        (Some v, Some w) \<Rightarrow> Some (map_sum (\<lambda>e. e) (\<lambda>v'. S(x := Some v')) (index_set v index w))
      | _ \<Rightarrow> None)"
| "spec (RemoveMember r x key) S =
     (if S r \<noteq> None then None else case S x of
        None \<Rightarrow> None
      | Some v \<Rightarrow> Some (map_sum (\<lambda>e. e) (\<lambda>(v', old). S(r := Some old, x := Some v')) (removeMember v key)))"
| "spec (CommentValue x placement s) S =
     (if placement \<ge> 3 then None else case S x of
        None \<Rightarrow> None
      | Some v \<Rightarrow> Some (if c_str s = [] \<or> hd s = CHR ''/'' then Inr S
          else Inl ''in Json_em::Value::setComment(): Comments must start with /''))"
| "spec (ClearValue x) S =
     (case S x of None \<Rightarrow> None | Some v \<Rightarrow> Some (map_sum (\<lambda>e. e) (\<lambda>v'. S(x := Some v')) (Value_clear v)))"
| "spec (Destroy x) S = (case S x of None \<Rightarrow> None | Some v \<Rightarrow> Some (Inr (S(x := None))))"

fun spec_all :: "json_op list \<Rightarrow> (nat \<Rightarrow> Value option) \<Rightarrow> (nat \<Rightarrow> Value option) throws option" where
  "spec_all [] S = Some (Inr S)"
| "spec_all (op # ops) S =
     (case spec op S of
        None \<Rightarrow> None
      | Some (Inl e) \<Rightarrow> Some (Inl e)
      | Some (Inr S1) \<Rightarrow> spec_all ops S1)"

text \<open>Strings that \<open>duplicateStringValue\<close> does not cut.\<close>

fun short_op :: "json_op \<Rightarrow> bool" where
  "short_op (NewString x s) \<longleftrightarrow> int (length s) < maxInt"
| "short_op (NewStatic x s) \<longleftrightarrow> int (length s) < maxInt"
| "short_op (SetMember static x key y) \<longleftrightarrow> int (length key) < maxInt"
| "short_op (CommentValue x placement s) \<longleftrightarrow> int (length s) < maxInt"
| "short_op _ \<longleftrightarrow> True"


section \<open>Memory implements values\<close>

definition var_owns :: "mvalue option \<Rightarrow> nat set" where
  "var_owns v = (case v of None \<Rightarrow> {} | Some v \<Rightarrow> set (owns v))"

definition var_is :: "heap \<Rightarrow> mvalue option \<Rightarrow> Value option \<Rightarrow> bool" where
  "var_is h v y =
     (case (v, y) of
        (None, None) \<Rightarrow> True
      | (Some v, Some y) \<Rightarrow> value_of h v = Some y \<and> distinct (owns v) \<and> ordered y
      | _ \<Rightarrow> False)"

definition represents :: "(nat \<Rightarrow> mvalue option) \<Rightarrow> heap \<Rightarrow> (nat \<Rightarrow> Value option) \<Rightarrow> bool" where
  "represents V h S \<longleftrightarrow> heap_ok h \<and> (\<forall>x. var_is h (V x) (S x))
     \<and> (\<forall>x z. x \<noteq> z \<longrightarrow> var_owns (V x) \<inter> var_owns (V z) = {})
     \<and> dom (blocks h) = (\<Union>x. var_owns (V x))"

lemma var_is_simps [simp]:
  "var_is h None y \<longleftrightarrow> y = None" "var_is h v None \<longleftrightarrow> v = None"
  "var_is h (Some u) (Some w) \<longleftrightarrow> value_of h u = Some w \<and> distinct (owns u) \<and> ordered w"
  by (simp_all add: var_is_def split: option.splits)

lemma var_owns_simps [simp]: "var_owns None = {}" "var_owns (Some v) = set (owns v)"
  by (simp_all add: var_owns_def)

lemma var_kept: "exchanges h B h' C \<Longrightarrow> var_is h v y \<Longrightarrow> var_owns v \<inter> B = {} \<Longrightarrow> var_is h' v y"
  using value_kept by (cases v; cases y) auto

lemma representsD:
  assumes "represents V h S"
  shows "heap_ok h" "var_is h (V x) (S x)" "x \<noteq> z \<Longrightarrow> var_owns (V x) \<inter> var_owns (V z) = {}"
    "var_owns (V x) \<subseteq> dom (blocks h)" "dom (blocks h) = (\<Union>x. var_owns (V x))"
  using assms by (auto simp: represents_def)

text \<open>One variable exchanges with the blocks it owns; the others do not notice.\<close>

lemma represents_update:
  assumes R: "represents V h S" and ch: "exchanges h (var_owns (V x)) h' (var_owns v)" and v: "var_is h' v y"
  shows "represents (V(x := v)) h' (S(x := y))"
proof -
  note D = representsD [OF R]
  have F: "var_owns (V z) \<subseteq> dom (blocks h) - var_owns (V x)" if "z \<noteq> x" for z
    using D(4) [of z] D(3) [OF that] by blast
  have "var_is h' (V z) (S z)" if "z \<noteq> x" for z using var_kept [OF ch D(2) D(3) [OF that]] .
  then have 1: "\<forall>z. var_is h' ((V(x := v)) z) ((S(x := y)) z)" using v by simp
  have "var_owns v \<inter> var_owns (V z) = {}" if "z \<noteq> x" for z using exchanges_apart [OF ch F [OF that]] by blast
  then have 2: "\<forall>a b. a \<noteq> b \<longrightarrow> var_owns ((V(x := v)) a) \<inter> var_owns ((V(x := v)) b) = {}"
    using D(3) by (simp add: Int_commute)
  have "dom (blocks h) - var_owns (V x) = (\<Union>z \<in> - {x}. var_owns (V z))"
  proof
    show "dom (blocks h) - var_owns (V x) \<subseteq> (\<Union>z \<in> - {x}. var_owns (V z))" unfolding D(5) by blast
    show "(\<Union>z \<in> - {x}. var_owns (V z)) \<subseteq> dom (blocks h) - var_owns (V x)" using F by blast
  qed
  then have "dom (blocks h') = (\<Union>z \<in> - {x}. var_owns (V z)) \<union> var_owns v" using ch by (simp add: exchanges_def)
  also have "\<dots> = (\<Union>z. var_owns ((V(x := v)) z))" by (auto split: if_splits)
  finally show ?thesis using 1 2 exchanges_ok [OF ch] unfolding represents_def by blast
qed

lemma new_string_ok:
  assumes "heap_ok h" "int (length s) < maxInt"
  shows "\<exists>v h'. Value_new_string s h = Inr (v, h') \<and> exchanges h {} h' (set (owns v))
    \<and> value_of h' v = Some (Value_of_string s) \<and> distinct (owns v)"
proof -
  have "length s mod 2 ^ 32 = length s" using assms(2) by (simp add: maxInt_def)
  then have "duplicateStringValue (Literal s) (Some (length s)) h = Inr (next_block h,
      h\<lparr>blocks := (blocks h)(next_block h := Some s), next_block := Suc (next_block h)\<rparr>)"
    using assms(2) by (simp add: duplicateStringValue_def Let_def not_less)
  moreover have "int (length (c_str s)) < maxInt" using assms(2) length_c_str [of s] by linarith
  moreover have "blocks h (next_block h) = None" using assms(1) by (simp add: heap_ok_def)
  ultimately show ?thesis using assms(1)
    by (auto simp: Value_new_string_def mbind_def exchanges_def heap_ok_def str_at_def comments_ok_def Value_of_string_def)
qed

lemma refused_comment:
  assumes ok: "heap_ok h" and v: "value_of h v = Some y" "placement < 3" and s: "\<not> (c_str s = [] \<or> hd s = CHR ''/'')"
  shows "comment_value v placement s h = Inl (Throws ''in Json_em::Value::setComment(): Comments must start with /'')"
proof -
  define cs where "cs = (case mcomments v of None \<Rightarrow> replicate 3 None | Some cs \<Rightarrow> cs)"
  have "length cs = 3" "\<forall>q \<in> set cs. place_ok h q"
    using value_of_comments_ok [OF v(1)]
    by (auto simp: cs_def comments_ok_def place_ok_def numeral_3_eq_3 split: option.splits)
  then have c: "place_ok h (cs ! placement)" using v(2) by simp
  have "\<exists>h1. delete_CommentInfo (cs ! placement) h = Inr ((), h1)"
  proof (cases "cs ! placement")
    case (Some b)
    then have "b \<in> dom (blocks h)" using c by (auto simp: place_ok_def str_at_def split: option.splits)
    then show ?thesis using release_block [OF ok] Some by (auto simp: delete_CommentInfo_def)
  qed (simp add: delete_CommentInfo_def)
  then show ?thesis using s by (auto simp: comment_value_def cs_def [symmetric] CommentInfo_setComment_def mbind_def Let_def)
qed


definition matches :: "(nat \<Rightarrow> mvalue option) mem option \<Rightarrow> (nat \<Rightarrow> Value option) throws option \<Rightarrow> bool" where
  "matches r t \<longleftrightarrow>
     (case t of
        None \<Rightarrow> r = None
      | Some (Inl e) \<Rightarrow> r = Some (Inl (Throws e))
      | Some (Inr S) \<Rightarrow> \<exists>V h. r = Some (Inr (V, h)) \<and> represents V h S)"

lemma matches_simps [simp]:
  "matches r None \<longleftrightarrow> r = None" "matches r (Some (Inl e)) \<longleftrightarrow> r = Some (Inl (Throws e))"
  "matches r (Some (Inr S)) \<longleftrightarrow> (\<exists>V h. r = Some (Inr (V, h)) \<and> represents V h S)"
  by (simp_all add: matches_def)

lemma matches_update:
  assumes "represents V h S"
    and "case t of
        Inl e \<Rightarrow> m = Inl (Throws e)
      | Inr y \<Rightarrow> ordered y \<and> (\<exists>v h'. m = Inr (v, h') \<and> exchanges h (var_owns (V x)) h' (set (owns v))
          \<and> value_of h' v = Some y \<and> distinct (owns v))"
  shows "matches (Some (mbind m (\<lambda>v h'. Inr (V(x := Some v), h')))) (Some (map_sum (\<lambda>e. e) (\<lambda>y. S(x := Some y)) t))"
proof (cases t)
  case (Inr y)
  then obtain v h' where v: "m = Inr (v, h')" "exchanges h (var_owns (V x)) h' (var_owns (Some v))" "var_is h' (Some v) (Some y)"
    using assms(2) by auto
  show ?thesis using represents_update [OF assms(1) v(2,3)] v(1) Inr by (simp add: mbind_def)
qed (use assms(2) in \<open>simp add: mbind_def\<close>)

text \<open>A variable that is made.\<close>

lemma matches_new:
  assumes R: "represents V h S" and "V x = None" and "ordered y"
    and "\<exists>v h'. m = Inr (v, h') \<and> exchanges h {} h' (set (owns v)) \<and> value_of h' v = Some y \<and> distinct (owns v)"
  shows "matches (Some (mbind m (\<lambda>v h'. Inr (V(x := Some v), h')))) (Some (Inr (S(x := Some y))))"
  using matches_update [OF R, where t = "Inr y" and m = m and x = x] assms(2-4) by simp

lemma represents_defined:
  assumes "represents V h S"
  shows "V x = None \<longleftrightarrow> S x = None"
    "S x = Some y \<Longrightarrow> \<exists>v. V x = Some v \<and> value_of h v = Some y \<and> distinct (owns v) \<and> ordered y"
proof -
  note v = representsD(2) [OF assms, of x]
  show "V x = None \<longleftrightarrow> S x = None" using v by (metis var_is_simps(1,2))
  show "S x = Some y \<Longrightarrow> \<exists>v. V x = Some v \<and> value_of h v = Some y \<and> distinct (owns v) \<and> ordered y"
    using v by (cases "V x") simp_all
qed

lemma represents_two:
  assumes R: "represents V h S" and "x \<noteq> y" and S: "S x = Some a" "S y = Some b"
  shows "\<exists>v w. V x = Some v \<and> V y = Some w \<and> value_of h v = Some a \<and> distinct (owns v) \<and> ordered a
    \<and> value_of h w = Some b \<and> ordered b \<and> set (owns w) \<inter> set (owns v) = {}"
proof -
  obtain v w where "V x = Some v" "value_of h v = Some a" "distinct (owns v)" "ordered a"
    "V y = Some w" "value_of h w = Some b" "ordered b"
    using represents_defined(2) [OF R S(1)] represents_defined(2) [OF R S(2)] by blast
  then show ?thesis using representsD(3) [OF R assms(2)] by (auto simp: Int_commute)
qed

lemma exec_matches:
  assumes R: "represents V h S" and "short_op op"
  shows "matches (exec op V h) (spec op S)"
proof -
  note ok = representsD(1) [OF R] and def = represents_defined [OF R]
  have ref: "exchanges h {} h {}" using ok by simp
  have short: "int (length (c_str s)) < maxInt" if "int (length s) < maxInt" for s
    using that length_c_str [of s] by linarith
  show ?thesis
  proof (cases op)
    case (NewPlain x u)
    have "ordered u" if "pointerless u" using that by (cases u) auto
    then show ?thesis using NewPlain def(1) [of x] ref
        matches_new [OF R, of x u "Inr (MPlain u None, h)"] by (auto simp: mbind_def comments_ok_def)
  next
    case (NewString x s)
    then show ?thesis using assms(2) def(1) [of x] new_string_ok [OF ok, of s]
        matches_new [OF R, of x "Value_of_string s" "Value_new_string s h"] by (auto simp: Value_of_string_def)
  next
    case (NewStatic x s)
    then show ?thesis using assms(2) short [of s] def(1) [of x] ref
        matches_new [OF R, of x "Value_of_string s" "Inr (Value_new_static s, h)"]
      by (auto simp: mbind_def comments_ok_def Value_new_static_def Value_of_string_def)
  next
    case (NewType x t)
    show ?thesis
    proof (cases "t < 8")
      case True
      then have "Value_new_type t \<noteq> None" by (simp add: Value_new_type_def less_Suc_eq)
      then obtain v where v: "Value_new_type t = Some v" by blast
      have "value_of h v = Some (first_values ! t) \<and> owns v = [] \<and> ordered (first_values ! t)"
        using v True by (auto simp: Value_new_type_def first_values_def comments_ok_def Value_new_map_def map_value_def less_Suc_eq
            split: if_splits)
      then show ?thesis using NewType v True def(1) [of x] ref matches_new [OF R, of x "first_values ! t" "Inr (v, h)"]
        by (auto simp: mbind_def first_values_def)
    next
      case False
      then have "Value_new_type t = None" by (simp add: Value_new_type_def)
      then show ?thesis using NewType False by (simp add: first_values_def)
    qed
  next
    case (CopyValue x y)
    show ?thesis
    proof (cases "S y")
      case (Some w)
      then show ?thesis using CopyValue def(1) [of x] def(2) [OF Some] copy_value_ok(1) [OF ok]
          matches_new [OF R, of x w] by auto
    qed (use CopyValue def(1) [of y] in simp)
  next
    case (Destroy x)
    show ?thesis
    proof (cases "S x")
      case (Some y)
      then obtain v where v: "V x = Some v" "value_of h v = Some y" "distinct (owns v)" using def(2) by blast
      obtain h' where h': "delete_value v h = Inr ((), h')" "exchanges h (set (owns v)) h' {}"
        using delete_value_ok(1) [OF ok v(2,3)] by blast
      have "represents (V(x := None)) h' (S(x := None))"
        using represents_update [OF R, of x h' None None] h'(2) v(1) by simp
      then show ?thesis using Destroy Some v(1) h'(1) by (simp add: mbind_def)
    qed (use Destroy def(1) [of x] in simp)
  next
    case (ClearValue x)
    show ?thesis
    proof (cases "S x")
      case (Some y)
      then obtain v where v: "V x = Some v" "value_of h v = Some y" "distinct (owns v)" using def(2) by blast
      have o: "ordered y'" if "Value_clear y = Inr y'" for y' using that by (cases y) (auto simp: Value_clear_def)
      show ?thesis using ClearValue Some v matches_update [OF R, where t = "Value_clear y" and m = "clear_value v h" and x = x] clear_value_ok [OF ok v(2,3)] o
        by (auto split: sum.splits)
    qed (use ClearValue def(1) [of x] in simp)
  next
    case (AssignValue x y)
    show ?thesis
    proof (cases "S x = None \<or> S y = None")
      case False
      then obtain a b where ab: "S x = Some a" "S y = Some b" by auto
      obtain v where v: "V x = Some v" "value_of h v = Some a" "distinct (owns v)" using def(2) [OF ab(1)] by blast
      obtain w where w: "V y = Some w" "value_of h w = Some b" "ordered b" using def(2) [OF ab(2)] by blast
      show ?thesis using AssignValue ab v w assign_value_ok [OF ok v(2,3) w(2)] matches_update [OF R, where t = "Inr b" and m = "assign_value v w h" and x = x]
        by auto
    qed (use AssignValue def(1) [of x] def(1) [of y] in \<open>auto split: option.splits\<close>)
  next
    case (SetMember static x key y)
    show ?thesis
    proof (cases "x = y \<or> S x = None \<or> S y = None")
      case False
      then obtain a b where ab: "S x = Some a" "S y = Some b" by auto
      from represents_two [OF R _ ab] False obtain v w where vw: "V x = Some v" "V y = Some w" "value_of h v = Some a"
        "distinct (owns v)" "ordered a" "value_of h w = Some b" "ordered b" "set (owns w) \<inter> set (owns v) = {}" by blast
      have key: "int (length (c_str key)) < maxInt" using assms(2) SetMember short by simp
      have "ordered y'" if "member_set a key b = Inr y'" for y' using ordered_member_set [OF vw(5,7) that] .
      then show ?thesis using SetMember ab vw False set_member_ok [OF ok vw(3,4,6,8) key, of static]
          matches_update [OF R, where t = "member_set a key b" and m = "set_member static v key w h" and x = x]
        by (auto split: sum.splits)
    qed (use SetMember def(1) [of x] def(1) [of y] in \<open>auto split: option.splits\<close>)
  next
    case (SetItem x index y)
    show ?thesis
    proof (cases "x = y \<or> S x = None \<or> S y = None")
      case False
      then obtain a b where ab: "S x = Some a" "S y = Some b" by auto
      from represents_two [OF R _ ab] False obtain v w where vw: "V x = Some v" "V y = Some w" "value_of h v = Some a"
        "distinct (owns v)" "ordered a" "value_of h w = Some b" "ordered b" "set (owns w) \<inter> set (owns v) = {}" by blast
      have "ordered y'" if "index_set a index b = Inr y'" for y' using ordered_index_set [OF vw(5,7) that] .
      then show ?thesis using SetItem ab vw False set_item_ok [OF ok vw(3,4,6,8), of index]
          matches_update [OF R, where t = "index_set a index b" and m = "set_item v index w h" and x = x]
        by (auto split: sum.splits)
    qed (use SetItem def(1) [of x] def(1) [of y] in \<open>auto split: option.splits\<close>)
  next
    case (CommentValue x placement s)
    show ?thesis
    proof (cases "placement < 3 \<and> S x \<noteq> None")
      case True
      then obtain y where y: "S x = Some y" by auto
      obtain v where v: "V x = Some v" "value_of h v = Some y" "distinct (owns v)" "ordered y" using def(2) [OF y] by blast
      have p: "placement < 3" and s: "int (length (c_str s)) < maxInt" using True assms(2) CommentValue short by simp_all
      have same: "S(x := Some y) = S" using y by (simp add: fun_upd_idem)
      show ?thesis
      proof (cases "c_str s = [] \<or> hd s = CHR ''/''")
        case True
        then show ?thesis using CommentValue v y p comment_value_ok [OF ok v(2,3) p True s] same
            matches_update [OF R, where t = "Inr y" and m = "comment_value v placement s h" and x = x] by auto
      next
        case False
        then show ?thesis using CommentValue v y p refused_comment [OF ok v(2) p False] by (simp add: mbind_def)
      qed
    qed (use CommentValue def(1) [of x] in auto)
  next
    case (RemoveMember r x key)
    show ?thesis
    proof (cases "S r = None \<and> S x \<noteq> None")
      case True
      then obtain y where y: "S x = Some y" "S r = None" by auto
      obtain v where v: "V x = Some v" "value_of h v = Some y" "distinct (owns v)" "ordered y" using def(2) [OF y(1)] by blast
      have r: "V r = None" "r \<noteq> x" using y def(1) [of r] by auto
      show ?thesis
      proof (cases "removeMember y key")
        case (Inl e)
        then show ?thesis using RemoveMember v y r remove_member_ok [OF ok v(2-4), of key] by (simp add: mbind_def)
      next
        case (Inr q)
        obtain y' o' where q: "q = (y', o')" by (cases q)
        obtain v' old h1 h' where m: "remove_member v key h = Inr ((v', old), h')"
          "exchanges h {} h1 (set (owns old))" "value_of h1 old = Some o'" "distinct (owns old)"
          "exchanges h1 (set (owns v)) h' (set (owns v'))" "value_of h' v' = Some y'" "distinct (owns v')"
          using remove_member_ok [OF ok v(2-4), of key] Inr q by auto
        have o: "ordered y'" "ordered o'" using ordered_removeMember [OF v(4)] Inr q by auto
        have "represents (V(r := Some old)) h1 (S(r := Some o'))"
          using represents_update [OF R, of r h1 "Some old" "Some o'"] m(2-4) o(2) r(1) by simp
        from represents_update [OF this, of x h' "Some v'" "Some y'"]
        have "represents (V(r := Some old, x := Some v')) h' (S(r := Some o', x := Some y'))"
          using m(5-7) o(1) r v(1) by simp
        then show ?thesis using RemoveMember v y r m(1) Inr q by (simp add: mbind_def)
      qed
    qed (use RemoveMember def(1) [of r] def(1) [of x] in auto)
  qed
qed


lemma exec_all_matches: "represents V h S \<Longrightarrow> \<forall>op \<in> set ops. short_op op \<Longrightarrow> matches (exec_all ops V h) (spec_all ops S)"
proof (induction ops arbitrary: V h S)
  case (Cons op ops)
  have m: "matches (exec op V h) (spec op S)" using exec_matches [OF Cons.prems(1)] Cons.prems(2) by simp
  show ?case
  proof (cases "spec op S")
    case (Some t)
    show ?thesis
    proof (cases t)
      case (Inr S1)
      then obtain V1 h1 where "exec op V h = Some (Inr (V1, h1))" "represents V1 h1 S1" using m Some by auto
      then show ?thesis using Cons.IH Cons.prems(2) Some Inr by simp
    qed (use m Some in simp)
  qed (use m in simp)
qed auto

definition no_heap :: heap where
  "no_heap = \<lparr>blocks = (\<lambda>_. None), next_block = 0\<rparr>"


text \<open>A value put into two others and taken out of one, with a key that stays and a comment.\<close>

definition sample_program :: "json_op list" where
  "sample_program = [NewString 0 ''abc'', NewType 1 7, SetMember False 1 ''k'' 0, CommentValue 0 1 ''//c'', CopyValue 2 1,
     SetMember True 2 ''n'' 1, Destroy 1, RemoveMember 3 2 ''k'', AssignValue 0 3, ClearValue 2,
     Destroy 0, Destroy 2, Destroy 3]"


end
