(* ===== verification/JsonIterators.thy ===== *)
theory JsonIterators
  imports JsonValue
begin

text \<open>
  Iterators over the entries of an array or an object (\<open>json_valueiterator.inl\<close> in
  \<open>third/eice/src/jsoncpp.cpp\<close>), and the conversion of a value to a double. An iterator is a position in
  the map of its value; behind the last entry it must not be read or moved on, and the iterator of a
  value without a map has no position at all.
\<close>

section \<open>Iterators\<close>

text \<open>The entries under their keys: a name or an index.\<close>

definition entries :: "Value \<Rightarrow> ((string + nat) \<times> Value) list" where
  "entries v =
     (case v of
        arrayValue m \<Rightarrow> map (\<lambda>(i, x). (Inr i, x)) m
      | objectValue m \<Rightarrow> map (\<lambda>(k, x). (Inl k, x)) m
      | _ \<Rightarrow> [])"

record ValueIterator =
  it_current :: nat
  it_isNull :: bool

definition null_iterator :: ValueIterator where
  "null_iterator = \<lparr>it_current = 0, it_isNull = True\<rparr>"

definition Value_begin :: "Value \<Rightarrow> ValueIterator" where
  "Value_begin v = (if isArray v \<or> isObject v then \<lparr>it_current = 0, it_isNull = False\<rparr> else null_iterator)"

definition Value_end :: "Value \<Rightarrow> ValueIterator" where
  "Value_end v = (if isArray v \<or> isObject v then \<lparr>it_current = length (entries v), it_isNull = False\<rparr> else null_iterator)"

text \<open>\<open>*current_\<close>; the iterator of no map, and the one behind the last entry, have none.\<close>

definition entry_at :: "Value \<Rightarrow> ValueIterator \<Rightarrow> ((string + nat) \<times> Value) outcome" where
  "entry_at v it =
     (if it_isNull it then Inl Uninitialised
      else if it_current it < length (entries v) then Inr (entries v ! it_current it) else Inl OutOfBounds)"

definition it_deref :: "Value \<Rightarrow> ValueIterator \<Rightarrow> Value outcome" where
  "it_deref v it = map_sum (\<lambda>e. e) snd (entry_at v it)"

definition it_increment :: "Value \<Rightarrow> ValueIterator \<Rightarrow> ValueIterator outcome" where
  "it_increment v it =
     (if it_isNull it then Inl Uninitialised
      else if it_current it < length (entries v) then Inr (it\<lparr>it_current := Suc (it_current it)\<rparr>) else Inl OutOfBounds)"

definition it_decrement :: "Value \<Rightarrow> ValueIterator \<Rightarrow> ValueIterator outcome" where
  "it_decrement v it =
     (if it_isNull it then Inl Uninitialised
      else if 0 < it_current it then Inr (it\<lparr>it_current := it_current it - 1\<rparr>) else Inl OutOfBounds)"

definition it_isEqual :: "ValueIterator \<Rightarrow> ValueIterator \<Rightarrow> bool outcome" where
  "it_isEqual it other =
     (if it_isNull it then Inr (it_isNull other)
      else if it_isNull other then Inl Uninitialised else Inr (it_current it = it_current other))"

text \<open>The loop of \<open>computeDistance\<close>, from \<open>current_\<close> to that of the other; \<open>operator-\<close> calls it.\<close>

function distance_loop :: "Value \<Rightarrow> nat \<Rightarrow> nat \<Rightarrow> nat \<Rightarrow> nat outcome" where
  "distance_loop v other it myDistance =
     (if it = other then Inr myDistance
      else if length (entries v) \<le> it then Inl OutOfBounds
      else distance_loop v other (Suc it) (Suc myDistance))"
  by pat_completeness auto
termination by (relation "measure (\<lambda>(v, other, it, n). length (entries v) - it)") auto

declare distance_loop.simps [simp del]

definition computeDistance :: "Value \<Rightarrow> ValueIterator \<Rightarrow> ValueIterator \<Rightarrow> nat outcome" where
  "computeDistance v it other =
     (if it_isNull it \<and> it_isNull other then Inr 0
      else if it_isNull it \<or> it_isNull other then Inl Uninitialised
      else distance_loop v (it_current other) (it_current it) 0)"

definition it_key :: "Value \<Rightarrow> ValueIterator \<Rightarrow> Value outcome" where
  "it_key v it = map_sum (\<lambda>e. e) (\<lambda>(k, x). case k of Inl name \<Rightarrow> stringValue name | Inr i \<Rightarrow> uintValue i) (entry_at v it)"

definition it_index :: "Value \<Rightarrow> ValueIterator \<Rightarrow> u32 outcome" where
  "it_index v it = map_sum (\<lambda>e. e) (\<lambda>(k, x). case k of Inl name \<Rightarrow> - 1 | Inr i \<Rightarrow> of_nat i) (entry_at v it)"

definition it_memberName :: "Value \<Rightarrow> ValueIterator \<Rightarrow> string outcome" where
  "it_memberName v it = map_sum (\<lambda>e. e) (\<lambda>(k, x). case k of Inl name \<Rightarrow> name | Inr i \<Rightarrow> []) (entry_at v it)"

section \<open>The loop over a value\<close>

text \<open>\<open>for (it = v.begin(); it != v.end(); ++it)\<close>, collecting the key and the value at each turn.\<close>

function visit :: "Value \<Rightarrow> ValueIterator \<Rightarrow> (Value \<times> Value) list outcome" where
  "visit v it =
     (case it_isEqual it (Value_end v) of
        Inl e \<Rightarrow> Inl e
      | Inr True \<Rightarrow> Inr []
      | Inr False \<Rightarrow>
          (case (it_key v it, it_deref v it, it_increment v it) of
             (Inr k, Inr x, Inr it') \<Rightarrow> map_sum (\<lambda>e. e) (Cons (k, x)) (visit v it')
           | (Inl e, _, _) \<Rightarrow> Inl e
           | (_, Inl e, _) \<Rightarrow> Inl e
           | (_, _, Inl e) \<Rightarrow> Inl e))"
  by pat_completeness auto
termination
  by (relation "measure (\<lambda>(v, it). length (entries v) - it_current it)")
    (auto simp: it_increment_def split: if_splits)

declare visit.simps [simp del]

definition key_value :: "string + nat \<Rightarrow> Value" where
  "key_value k = (case k of Inl name \<Rightarrow> stringValue name | Inr i \<Rightarrow> uintValue i)"

lemma visit_from:
  assumes "isArray v \<or> isObject v" "n \<le> length (entries v)"
  shows "visit v \<lparr>it_current = n, it_isNull = False\<rparr> = Inr (map (\<lambda>(k, x). (key_value k, x)) (drop n (entries v)))"
  using assms(2)
proof (induction "length (entries v) - n" arbitrary: n)
  case 0
  then show ?case using assms(1) by (subst visit.simps) (simp add: it_isEqual_def Value_end_def)
next
  case (Suc d)
  then have n: "n < length (entries v)" and IH: "visit v \<lparr>it_current = Suc n, it_isNull = False\<rparr>
      = Inr (map (\<lambda>(k, x). (key_value k, x)) (drop (Suc n) (entries v)))" by simp_all
  obtain k x where e: "entries v ! n = (k, x)" by (cases "entries v ! n")
  have "drop n (entries v) = (k, x) # drop (Suc n) (entries v)" using n e by (simp add: Cons_nth_drop_Suc [symmetric])
  then show ?case using assms(1) n e IH
    by (subst visit.simps) (simp add: it_isEqual_def Value_end_def it_key_def it_deref_def it_increment_def entry_at_def key_value_def)
qed

lemma distance_from:
  "n \<le> m \<Longrightarrow> m \<le> length (entries v) \<Longrightarrow> distance_loop v m n d = Inr (d + (m - n))"
proof (induction "m - n" arbitrary: n d)
  case 0
  then show ?case by (subst distance_loop.simps) simp
next
  case (Suc k)
  then show ?case by (subst distance_loop.simps) auto
qed

lemma distance_past: "m < n \<Longrightarrow> distance_loop v m n d = Inl OutOfBounds"
proof (induction "length (entries v) - n" arbitrary: n d)
  case 0
  then show ?case by (subst distance_loop.simps) simp
next
  case (Suc k)
  then show ?case by (subst distance_loop.simps) auto
qed

text \<open>What the loop sees: every entry once, in the order of the map, under its key; none without a map.\<close>

theorem loop_visits_entries:
  "visit v (Value_begin v) = Inr (map (\<lambda>(k, x). (key_value k, x)) (entries v))
    \<and> computeDistance v (Value_begin v) (Value_end v) = Inr (length (entries v))"
proof (cases "isArray v \<or> isObject v")
  case True
  then show ?thesis using visit_from [OF True, of 0] distance_from [of 0 "length (entries v)" v 0]
    by (auto simp: Value_begin_def Value_end_def computeDistance_def)
next
  case False
  then have "entries v = []" by (cases v) (simp_all add: entries_def isArray_def isObject_def)
  with False show ?thesis
    by (subst visit.simps) (simp add: Value_begin_def Value_end_def null_iterator_def it_isEqual_def computeDistance_def)
qed

text \<open>\<open>end() - begin()\<close> counts the wrong way round: it leaves the map.\<close>

lemma distance_reversed:
  "entries v \<noteq> [] \<Longrightarrow> computeDistance v (Value_end v) (Value_begin v) = Inl OutOfBounds"
  using distance_past [of 0 "length (entries v)" v 0]
  by (cases v) (auto simp: entries_def computeDistance_def Value_begin_def Value_end_def isArray_def isObject_def)

end
