(* ===== verification/StyledWriter.thy ===== *)
theory StyledWriter
  imports JsonWriter
begin

text \<open>
  The styled writer of the embedded jsoncpp (class \<open>StyledWriter\<close> in \<open>third/eice/src/jsoncpp.cpp\<close>), which
  breaks lines and indents, and the theorem that its text means the same as that of \<open>FastWriter\<close>.
  Values carry no comments here; those that do are in \<open>CommentWriter\<close>. Sizes and lengths are those an \<open>int\<close> holds.
\<close>

section \<open>State\<close>

record StyledWriter =
  childValues :: "string list"
  document :: string
  indentString :: string
  rightMargin :: nat
  indentSize :: nat
  addChildValues :: bool

definition new_StyledWriter :: StyledWriter where
  "new_StyledWriter = \<lparr>childValues = [], document = [], indentString = [], rightMargin = 74, indentSize = 3,
     addChildValues = False\<rparr>"

definition append_text :: "string \<Rightarrow> StyledWriter \<Rightarrow> StyledWriter" where
  "append_text s W = W\<lparr>document := document W @ s\<rparr>"

definition pushValue :: "string \<Rightarrow> StyledWriter \<Rightarrow> StyledWriter" where
  "pushValue s W =
     (if addChildValues W then W\<lparr>childValues := childValues W @ [s]\<rparr> else append_text s W)"

definition writeIndent :: "StyledWriter \<Rightarrow> StyledWriter" where
  "writeIndent W =
     (if document W \<noteq> [] \<and> last (document W) = CHR '' '' then W
      else append_text ((if document W \<noteq> [] \<and> last (document W) \<noteq> LF then [LF] else []) @ indentString W) W)"

definition writeWithIndent :: "string \<Rightarrow> StyledWriter \<Rightarrow> StyledWriter" where
  "writeWithIndent s W = append_text s (writeIndent W)"

definition indent :: "StyledWriter \<Rightarrow> StyledWriter" where
  "indent W = W\<lparr>indentString := indentString W @ replicate (indentSize W) (CHR '' '')\<rparr>"

definition unindent :: "StyledWriter \<Rightarrow> StyledWriter outcome" where
  "unindent W =
     (if length (indentString W) < indentSize W then Inl AssertFailed
      else Inr (W\<lparr>indentString := take (length (indentString W) - indentSize W) (indentString W)\<rparr>))"

lemma child_bounds:
  "5 * size (item_at m i) + 4 \<le> 5 * size (arrayValue m)" "5 * size (named_at n k) + 4 \<le> 5 * size (objectValue n)"
  using size_item_at [of m i] size_named_at [of n k] by linarith+

section \<open>Writing\<close>

text \<open>An element that is a container with elements breaks the line.\<close>

definition nested :: "Value \<Rightarrow> bool" where
  "nested v \<longleftrightarrow> (isArray v \<or> isObject v) \<and> Value_size v > 0"

text \<open>
  The loops are recursions over the indices or names that are left. \<open>collect_children\<close> is the loop of
  \<open>isMultineArray\<close> that lays the elements out, with the length of the line; \<open>hasChild\<close> is what
  \<open>writeArrayValue\<close> finds before its loop.
\<close>

function styled_value :: "clib \<Rightarrow> Value \<Rightarrow> StyledWriter \<Rightarrow> StyledWriter outcome"
  and styled_members :: "clib \<Rightarrow> (string, Value) omap \<Rightarrow> string list \<Rightarrow> StyledWriter \<Rightarrow> StyledWriter outcome"
  and writeArrayValue :: "clib \<Rightarrow> (nat, Value) omap \<Rightarrow> StyledWriter \<Rightarrow> StyledWriter outcome"
  and styled_items :: "clib \<Rightarrow> (nat, Value) omap \<Rightarrow> bool \<Rightarrow> nat list \<Rightarrow> StyledWriter \<Rightarrow> StyledWriter outcome"
  and isMultineArray :: "clib \<Rightarrow> (nat, Value) omap \<Rightarrow> StyledWriter \<Rightarrow> (bool \<times> StyledWriter) outcome"
  and collect_children :: "clib \<Rightarrow> (nat, Value) omap \<Rightarrow> nat list \<Rightarrow> nat \<Rightarrow> StyledWriter \<Rightarrow> (nat \<times> StyledWriter) outcome" where
  "styled_value L v W =
     (case v of
        nullValue \<Rightarrow> Inr (pushValue ''null'' W)
      | intValue i \<Rightarrow> Inr (pushValue (valueToString_Int i) W)
      | uintValue u \<Rightarrow> Inr (pushValue (valueToString_UInt u) W)
      | realValue d \<Rightarrow> Inr (pushValue (valueToString_double (print_double L) d) W)
      | stringValue s \<Rightarrow> Inr (pushValue (valueToQuotedString s) W)
      | booleanValue b \<Rightarrow> Inr (pushValue (valueToString_bool b) W)
      | arrayValue m \<Rightarrow> writeArrayValue L m W
      | objectValue m \<Rightarrow>
          if map fst m = [] then Inr (pushValue ''{}'' W)
          else (case styled_members L m (map fst m) (indent (writeWithIndent ''{'' W)) of
                  Inl e \<Rightarrow> Inl e
                | Inr W1 \<Rightarrow> map_sum (\<lambda>e. e) (writeWithIndent ''}'') (unindent W1)))"
| "styled_members L m [] W = Inr W"
| "styled_members L m (name # names) W =
     (case styled_value L (named_at m name) (append_text '' : '' (writeWithIndent (valueToQuotedString name) W)) of
        Inl e \<Rightarrow> Inl e
      | Inr W1 \<Rightarrow> if names = [] then Inr W1 else styled_members L m names (append_text '','' W1))"
| "writeArrayValue L m W =
     (let size = Value_size (arrayValue m)
      in if size = 0 then Inr (pushValue ''[]'' W)
         else (case isMultineArray L m W of
                 Inl e \<Rightarrow> Inl e
               | Inr (isArrayMultiLine, W1) \<Rightarrow>
                   if isArrayMultiLine
                   then (case styled_items L m (childValues W1 \<noteq> []) [0 ..< size] (indent (writeWithIndent ''['' W1)) of
                           Inl e \<Rightarrow> Inl e
                         | Inr W2 \<Rightarrow> map_sum (\<lambda>e. e) (writeWithIndent '']'') (unindent W2))
                   else if length (childValues W1) \<noteq> size then Inl AssertFailed
                   else Inr (append_text (''[ '' @ separated '', '' (childValues W1) @ '' ]'') W1)))"
| "styled_items L m hasChild [] W = Inr W"
| "styled_items L m hasChild (index # rest) W =
     (case (if hasChild
            then if index < length (childValues W) then Inr (writeWithIndent (childValues W ! index) W) else Inl OutOfBounds
            else styled_value L (item_at m index) (writeIndent W)) of
        Inl e \<Rightarrow> Inl e
      | Inr W1 \<Rightarrow> if rest = [] then Inr W1 else styled_items L m hasChild rest (append_text '','' W1))"
| "isMultineArray L m W =
     (let size = Value_size (arrayValue m);
          W1 = W\<lparr>childValues := []\<rparr>
      in if size * 3 \<ge> rightMargin W \<or> (\<exists>index \<in> set [0 ..< size]. nested (item_at m index)) then Inr (True, W1)
         else (case collect_children L m [0 ..< size] (4 + (size - 1) * 2) (W1\<lparr>addChildValues := True\<rparr>) of
                 Inl e \<Rightarrow> Inl e
               | Inr (lineLength, W2) \<Rightarrow> Inr (lineLength \<ge> rightMargin W2, W2\<lparr>addChildValues := False\<rparr>)))"
| "collect_children L m [] lineLength W = Inr (lineLength, W)"
| "collect_children L m (index # rest) lineLength W =
     (case styled_value L (item_at m index) W of
        Inl e \<Rightarrow> Inl e
      | Inr W1 \<Rightarrow> if index < length (childValues W1)
                 then collect_children L m rest (lineLength + length (childValues W1 ! index)) W1
                 else Inl OutOfBounds)"
  by pat_completeness auto
termination
proof (relation "measures [\<lambda>x. case x of
      Inl (Inl (L, v, W)) \<Rightarrow> 5 * size v + 4
    | Inl (Inr (Inl (L, m, names, W))) \<Rightarrow> 5 * size (objectValue m) + 1
    | Inl (Inr (Inr (L, m, W))) \<Rightarrow> 5 * size (arrayValue m) + 3
    | Inr (Inl (L, m, c, is, W)) \<Rightarrow> 5 * size (arrayValue m) + 1
    | Inr (Inr (Inl (L, m, W))) \<Rightarrow> 5 * size (arrayValue m) + 2
    | Inr (Inr (Inr (L, m, is, n, W))) \<Rightarrow> 5 * size (arrayValue m) + 1,
    \<lambda>x. case x of
      Inl (Inl (L, v, W)) \<Rightarrow> 0
    | Inl (Inr (Inl (L, m, names, W))) \<Rightarrow> length names
    | Inl (Inr (Inr (L, m, W))) \<Rightarrow> 0
    | Inr (Inl (L, m, c, is, W)) \<Rightarrow> length is
    | Inr (Inr (Inl (L, m, W))) \<Rightarrow> 0
    | Inr (Inr (Inr (L, m, is, n, W))) \<Rightarrow> length is]", goal_cases)
qed (auto simp del: Value.size simp: less_Suc_eq_le child_bounds)

declare styled_value.simps [simp del] writeArrayValue.simps [simp del] isMultineArray.simps [simp del]

definition StyledWriter_write :: "clib \<Rightarrow> Value \<Rightarrow> string outcome" where
  "StyledWriter_write L root = map_sum (\<lambda>e. e) (\<lambda>W. document (append_text [LF] W)) (styled_value L root new_StyledWriter)"

definition toStyledString :: "clib \<Rightarrow> Value \<Rightarrow> string outcome" where
  "toStyledString L v = StyledWriter_write L v"

section \<open>The layout\<close>

text \<open>Scalars and empty containers are written on the line; \<open>flat\<close> is their text.\<close>

abbreviation flat :: "clib \<Rightarrow> Value \<Rightarrow> string" where
  "flat L v \<equiv> JsonWriter.writeValue L new_FastWriter v"

text \<open>Whether \<open>isMultineArray\<close> says so, without its state.\<close>

definition multi_line :: "clib \<Rightarrow> (nat, Value) omap \<Rightarrow> bool" where
  "multi_line L m \<longleftrightarrow>
     (let n = Value_size (arrayValue m)
      in n * 3 \<ge> 74 \<or> (\<exists>i \<in> set [0 ..< n]. nested (item_at m i))
         \<or> 4 + (n - 1) * 2 + sum_list (map (\<lambda>i. length (flat L (item_at m i))) [0 ..< n]) \<ge> 74)"

definition new_line :: "nat \<Rightarrow> string" where
  "new_line d = LF # replicate d (CHR '' '')"

text \<open>The text of a value whose container is indented by \<open>d\<close>.\<close>

function layout :: "clib \<Rightarrow> nat \<Rightarrow> Value \<Rightarrow> string" where
  "layout L d v =
     (if \<not> nested v then flat L v
      else (case v of
        arrayValue m \<Rightarrow>
          if multi_line L m
          then ''['' @ separated '','' (map (\<lambda>i. new_line (d + 3) @ layout L (d + 3) (item_at m i)) [0 ..< Value_size (arrayValue m)])
               @ new_line d @ '']''
          else ''[ '' @ separated '', '' (map (\<lambda>i. flat L (item_at m i)) [0 ..< Value_size (arrayValue m)]) @ '' ]''
      | objectValue m \<Rightarrow>
          ''{'' @ separated '','' (map (\<lambda>k. new_line (d + 3) @ valueToQuotedString k @ '' : '' @ layout L (d + 3) (named_at m k)) (map fst m))
          @ new_line d @ ''}''
      | _ \<Rightarrow> []))"
  by pat_completeness auto
termination
  by (relation "measure (\<lambda>(L, d, v). size v)") (auto simp: size_item_at size_named_at simp del: Value.size)

declare layout.simps [simp del]

lemma layout_flat: "\<not> nested v \<Longrightarrow> layout L d v = flat L v"
  by (simp add: layout.simps)

lemma layout_object: "nested (objectValue m) \<Longrightarrow> layout L d (objectValue m)
    = ''{'' @ separated '','' (map (\<lambda>k. new_line (d + 3) @ valueToQuotedString k @ '' : '' @ layout L (d + 3) (named_at m k)) (map fst m))
      @ new_line d @ ''}''"
  by (subst layout.simps) simp

lemma layout_lines: "nested (arrayValue m) \<Longrightarrow> multi_line L m \<Longrightarrow> layout L d (arrayValue m)
    = ''['' @ separated '','' (map (\<lambda>i. new_line (d + 3) @ layout L (d + 3) (item_at m i)) [0 ..< Value_size (arrayValue m)])
      @ new_line d @ '']''"
  by (subst layout.simps) simp

lemma layout_line: "nested (arrayValue m) \<Longrightarrow> \<not> multi_line L m \<Longrightarrow> layout L d (arrayValue m)
    = ''[ '' @ separated '', '' (map (\<lambda>i. flat L (item_at m i)) [0 ..< Value_size (arrayValue m)]) @ '' ]''"
  by (subst layout.simps) simp

lemmas layouts = layout_flat layout_object layout_lines layout_line

section \<open>The writer makes the layout\<close>

lemma styled_flat: "\<not> nested v \<Longrightarrow> styled_value L v W = Inr (pushValue (flat L v) W)"
  by (cases v)
    (auto simp: styled_value.simps writeArrayValue.simps JsonWriter.writeValue.simps new_FastWriter_def nested_def
      isArray_def isObject_def separated_simps Value_size_def split: if_splits)

lemma collect_flat:
  assumes "is = [length (childValues W) ..< length (childValues W) + length is]" "\<forall>i \<in> set is. \<not> nested (item_at m i)" "addChildValues W"
  shows "collect_children L m is n W
    = Inr (n + sum_list (map (\<lambda>i. length (flat L (item_at m i))) is), W\<lparr>childValues := childValues W @ map (\<lambda>i. flat L (item_at m i)) is\<rparr>)"
  using assms
proof (induction "is" arbitrary: n W)
  case (Cons i rest)
  have i: "i = length (childValues W)" "rest = [Suc (length (childValues W)) ..< Suc (length (childValues W)) + length rest]"
    using Cons.prems(1) by (simp_all add: upt_conv_Cons del: upt_Suc)
  let ?W = "W\<lparr>childValues := childValues W @ [flat L (item_at m i)]\<rparr>"
  have r: "rest = [length (childValues ?W) ..< length (childValues ?W) + length rest]"
    by (subst i(2)) (simp del: upt_Suc)
  have "collect_children L m rest (n + length (flat L (item_at m i))) ?W
    = Inr (n + length (flat L (item_at m i)) + sum_list (map (\<lambda>i. length (flat L (item_at m i))) rest),
        ?W\<lparr>childValues := childValues ?W @ map (\<lambda>i. flat L (item_at m i)) rest\<rparr>)"
    using Cons.prems(2,3) by (intro Cons.IH [OF r]) simp_all
  then show ?case using Cons.prems(2,3) i(1) by (simp add: styled_flat pushValue_def)
qed simp

lemma isMultineArray_result:
  assumes "\<not> addChildValues W" "rightMargin W = 74"
  shows "\<exists>cv. isMultineArray L m W = Inr (multi_line L m, W\<lparr>childValues := cv\<rparr>)
    \<and> (cv = [] \<or> cv = map (\<lambda>i. flat L (item_at m i)) [0 ..< Value_size (arrayValue m)]
        \<and> (\<forall>i < Value_size (arrayValue m). \<not> nested (item_at m i)))
    \<and> (\<not> multi_line L m \<longrightarrow> cv = map (\<lambda>i. flat L (item_at m i)) [0 ..< Value_size (arrayValue m)])"
proof (cases "Value_size (arrayValue m) * 3 \<ge> 74 \<or> (\<exists>i \<in> set [0 ..< Value_size (arrayValue m)]. nested (item_at m i))")
  case True
  then have "multi_line L m" by (auto simp: multi_line_def Let_def)
  with True show ?thesis using assms by (intro exI [of _ "[]"]) (auto simp: isMultineArray.simps Let_def)
next
  case False
  let ?n = "Value_size (arrayValue m)"
  let ?W = "W\<lparr>childValues := [], addChildValues := True\<rparr>"
  have c: "collect_children L m [0 ..< ?n] (4 + (?n - 1) * 2) ?W
      = Inr (4 + (?n - 1) * 2 + sum_list (map (\<lambda>i. length (flat L (item_at m i))) [0 ..< ?n]),
          ?W\<lparr>childValues := childValues ?W @ map (\<lambda>i. flat L (item_at m i)) [0 ..< ?n]\<rparr>)"
    using False by (intro collect_flat) simp_all
  have "multi_line L m \<longleftrightarrow> 4 + (?n - 1) * 2 + sum_list (map (\<lambda>i. length (flat L (item_at m i))) [0 ..< ?n]) \<ge> 74"
    using False by (auto simp: multi_line_def Let_def)
  with False c show ?thesis using assms
    by (intro exI [of _ "map (\<lambda>i. flat L (item_at m i)) [0 ..< ?n]"]) (auto simp: isMultineArray.simps Let_def)
qed

text \<open>A writer between two values, and a text behind which a new line begins.\<close>

definition at_depth :: "nat \<Rightarrow> StyledWriter \<Rightarrow> bool" where
  "at_depth d W \<longleftrightarrow> \<not> addChildValues W \<and> rightMargin W = 74 \<and> indentSize W = 3 \<and> indentString W = replicate d (CHR '' '')"

definition closes :: "string \<Rightarrow> bool" where
  "closes s \<longleftrightarrow> s \<noteq> [] \<and> last s \<noteq> CHR '' '' \<and> last s \<noteq> LF"

definition writes :: "clib \<Rightarrow> nat \<Rightarrow> Value \<Rightarrow> bool" where
  "writes L d v \<longleftrightarrow> closes (layout L d v) \<and> (\<forall>W. at_depth d W \<and> writeIndent W = W
     \<longrightarrow> (\<exists>cv. styled_value L v W = Inr (W\<lparr>document := document W @ layout L d v, childValues := cv\<rparr>)))"

lemma writesD:
  assumes "writes L d v" "at_depth d W" "writeIndent W = W"
  shows "\<exists>cv. styled_value L v W = Inr (W\<lparr>document := document W @ layout L d v, childValues := cv\<rparr>)"
  using assms by (simp add: writes_def)

lemma closes_append [simp]: "closes s \<Longrightarrow> closes (t @ s)"
  by (simp add: closes_def)

lemma at_depth_text [simp]: "at_depth d (W\<lparr>document := s\<rparr>) = at_depth d W" "at_depth d (W\<lparr>childValues := cv\<rparr>) = at_depth d W"
  by (simp_all add: at_depth_def)

lemma writeIndent_new: "closes (document W) \<Longrightarrow> at_depth d W \<Longrightarrow> writeIndent W = W\<lparr>document := document W @ new_line d\<rparr>"
  by (simp add: writeIndent_def closes_def at_depth_def append_text_def new_line_def)

lemma writeIndent_settled: "document W \<noteq> [] \<Longrightarrow> last (document W) = CHR '' '' \<Longrightarrow> writeIndent W = W"
  by (simp add: writeIndent_def)

lemma writeIndent_childValues: "writeIndent (W\<lparr>childValues := cv\<rparr>) = (writeIndent W)\<lparr>childValues := cv\<rparr>"
  by (simp add: writeIndent_def append_text_def)

lemma last_new_line: "0 < d \<Longrightarrow> last (new_line d) = CHR '' ''" "new_line d \<noteq> []"
  by (simp_all add: new_line_def)

lemma at_depth_indent: "at_depth d W \<Longrightarrow> at_depth (d + 3) (indent W)"
  by (simp add: at_depth_def indent_def replicate_add)

lemma unindent_at_depth:
  "at_depth (d + 3) W \<Longrightarrow> unindent W = Inr (W\<lparr>indentString := replicate d (CHR '' '')\<rparr>)"
  by (simp add: at_depth_def unindent_def replicate_add)

lemma styled_members_layout:
  assumes "\<forall>k \<in> set names. writes L d (named_at m k)" "names \<noteq> []" "at_depth d W" "closes (document W)"
  shows "\<exists>cv. styled_members L m names W = Inr (W\<lparr>document := document W
      @ separated '','' (map (\<lambda>k. new_line d @ valueToQuotedString k @ '' : '' @ layout L d (named_at m k)) names), childValues := cv\<rparr>)"
  using assms
proof (induction names arbitrary: W)
  case (Cons k names)
  let ?item = "\<lambda>k. new_line d @ valueToQuotedString k @ '' : '' @ layout L d (named_at m k)"
  let ?W1 = "W\<lparr>document := document W @ new_line d @ valueToQuotedString k @ '' : ''\<rparr>"
  have "writeWithIndent (valueToQuotedString k) W = W\<lparr>document := document W @ new_line d @ valueToQuotedString k\<rparr>"
    using writeIndent_new [OF Cons.prems(4,3)] by (simp add: writeWithIndent_def append_text_def)
  then have w: "append_text '' : '' (writeWithIndent (valueToQuotedString k) W) = ?W1" by (simp add: append_text_def)
  have "writeIndent ?W1 = ?W1" by (rule writeIndent_settled) simp_all
  then obtain cv where v: "styled_value L (named_at m k) ?W1 = Inr (W\<lparr>document := document W @ ?item k, childValues := cv\<rparr>)"
    using writesD [of L d "named_at m k" ?W1] Cons.prems(1,3) by auto
  show ?case
  proof (cases "names = []")
    case True
    then show ?thesis using v by (auto simp: w separated_simps)
  next
    case False
    let ?W2 = "W\<lparr>document := document W @ ?item k @ '','', childValues := cv\<rparr>"
    have "\<exists>cv. styled_members L m names ?W2 = Inr (?W2\<lparr>document := document ?W2 @ separated '','' (map ?item names), childValues := cv\<rparr>)"
      using Cons.prems False by (intro Cons.IH) (auto simp: closes_def)
    moreover have "append_text '','' (W\<lparr>document := document W @ ?item k, childValues := cv\<rparr>) = ?W2" by (simp add: append_text_def)
    ultimately show ?thesis using False by (simp add: w v separated_simps)
  qed
qed simp

lemma styled_items_layout:
  assumes "\<forall>i \<in> set is. writes L d (item_at m i)" "is \<noteq> []" "at_depth d W" "closes (document W)" "0 < d"
    and "hasChild \<longrightarrow> childValues W = map (\<lambda>i. flat L (item_at m i)) [0 ..< n] \<and> (\<forall>i \<in> set is. i < n \<and> \<not> nested (item_at m i))"
  shows "\<exists>cv. styled_items L m hasChild is W = Inr (W\<lparr>document := document W
      @ separated '','' (map (\<lambda>i. new_line d @ layout L d (item_at m i)) is), childValues := cv\<rparr>)"
  using assms
proof (induction "is" arbitrary: W)
  case (Cons i rest)
  let ?item = "\<lambda>i. new_line d @ layout L d (item_at m i)"
  have w: "writeIndent W = W\<lparr>document := document W @ new_line d\<rparr>" using Cons.prems(3,4) by (intro writeIndent_new)
  let ?step = "if hasChild
    then if i < length (childValues W) then Inr (writeWithIndent (childValues W ! i) W) else Inl OutOfBounds
    else styled_value L (item_at m i) (writeIndent W)"
  obtain cv where v: "?step = Inr (W\<lparr>document := document W @ ?item i, childValues := cv\<rparr>)" "hasChild \<longrightarrow> cv = childValues W"
  proof (cases hasChild)
    case True
    then have "?step = Inr (W\<lparr>document := document W @ ?item i, childValues := childValues W\<rparr>)"
      using Cons.prems(6) by (simp add: writeWithIndent_def w append_text_def layout_flat)
    then show thesis using that by blast
  next
    case False
    let ?W1 = "W\<lparr>document := document W @ new_line d\<rparr>"
    have "writeIndent ?W1 = ?W1" using last_new_line Cons.prems(5) by (intro writeIndent_settled) simp_all
    then have "\<exists>cv. styled_value L (item_at m i) ?W1 = Inr (W\<lparr>document := document W @ ?item i, childValues := cv\<rparr>)"
      using writesD [of L d "item_at m i" ?W1] Cons.prems(1,3) by auto
    then show thesis using that False by (auto simp: w)
  qed
  show ?case
  proof (cases "rest = []")
    case True
    then show ?thesis using v(1) by (auto simp: separated_simps)
  next
    case False
    let ?W2 = "W\<lparr>document := document W @ ?item i @ '','', childValues := cv\<rparr>"
    have "\<exists>cv. styled_items L m hasChild rest ?W2 = Inr (?W2\<lparr>document := document ?W2 @ separated '','' (map ?item rest), childValues := cv\<rparr>)"
      using Cons.prems v(2) False by (intro Cons.IH) (auto simp: closes_def)
    moreover have "append_text '','' (W\<lparr>document := document W @ ?item i, childValues := cv\<rparr>) = ?W2" by (simp add: append_text_def)
    ultimately show ?thesis using False by (simp add: v(1) separated_simps)
  qed
qed simp

lemma closes_flat: "plain v \<Longrightarrow> closes (flat L v)"
proof -
  have n: "closes (uintToString n [])" for n
  proof -
    have "is_digit (last (uintToString n []))" using uintToString_digits [of n] uintToString_nonempty [of n] by simp
    then show ?thesis using uintToString_nonempty [of n] by (auto simp: closes_def is_digit_def)
  qed
  assume "plain v"
  then show ?thesis
  proof (cases v)
    case (intValue i)
    then show ?thesis using n closes_append [of "uintToString (nat (- i)) []" "''-''"]
      by (auto simp: JsonWriter.writeValue.simps valueToString_Int_def)
  next
    case (uintValue u)
    then show ?thesis using n by (simp add: JsonWriter.writeValue.simps valueToString_UInt_def)
  next
    case (booleanValue b)
    then show ?thesis by (cases b) (simp_all add: JsonWriter.writeValue.simps valueToString_bool_def closes_def)
  qed (simp_all add: JsonWriter.writeValue.simps closes_def quote_map new_FastWriter_def)
qed

lemma closes_separated: "xs \<noteq> [] \<Longrightarrow> \<forall>x \<in> set xs. closes x \<Longrightarrow> closes (separated sep xs)"
proof (induction xs)
  case (Cons x xs)
  then show ?case by (cases "xs = []") (simp_all add: separated_simps)
qed simp

lemma indent_back: "indentString W = s \<Longrightarrow> W\<lparr>indentString := s\<rparr> = W"
  by (cases W) simp

text \<open>Opening, the elements, and closing a container over several lines.\<close>

lemma open_container:
  assumes "at_depth d W" "writeIndent W = W" "closes s"
  shows "at_depth (d + 3) (indent (writeWithIndent s W))" "document (indent (writeWithIndent s W)) = document W @ s"
    "childValues (indent (writeWithIndent s W)) = childValues W" "closes (document (indent (writeWithIndent s W)))"
  using assms at_depth_indent [of d "W\<lparr>document := document W @ s\<rparr>"] by (simp_all add: writeWithIndent_def append_text_def indent_def)

lemma close_container:
  assumes "at_depth d W" "writeIndent W = W" "closes s" "closes body"
  shows "map_sum (\<lambda>e. e) (writeWithIndent t) (unindent ((indent (writeWithIndent s W))\<lparr>document := document W @ s @ body, childValues := cv\<rparr>))
    = Inr (W\<lparr>document := document W @ s @ body @ new_line d @ t, childValues := cv\<rparr>)"
proof -
  let ?W = "(indent (writeWithIndent s W))\<lparr>document := document W @ s @ body, childValues := cv\<rparr>"
  have "indentString W = replicate d (CHR '' '')" using assms(1) by (simp add: at_depth_def)
  then have "?W\<lparr>indentString := replicate d (CHR '' '')\<rparr> = W\<lparr>document := document W @ s @ body, childValues := cv\<rparr>"
    using assms(2) by (cases W) (simp add: indent_def writeWithIndent_def append_text_def)
  moreover have "at_depth (d + 3) ?W" using open_container(1) [OF assms(1-3)] by simp
  ultimately have "unindent ?W = Inr (W\<lparr>document := document W @ s @ body, childValues := cv\<rparr>)" using unindent_at_depth by metis
  moreover have "writeIndent (W\<lparr>document := document W @ s @ body, childValues := cv\<rparr>)
      = W\<lparr>document := document W @ s @ body @ new_line d, childValues := cv\<rparr>"
    using writeIndent_new [of "W\<lparr>document := document W @ s @ body, childValues := cv\<rparr>" d] assms(1,4) by simp
  ultimately show ?thesis by (simp add: writeWithIndent_def append_text_def)
qed

lemma writes_plain: "plain v \<Longrightarrow> writes L d v"
proof (induction "size v" arbitrary: v d rule: less_induct)
  case less
  have ih: "writes L e x" if "(k, x) \<in> set m" "size x < size v" "plain x" for e k x and m :: "('k \<times> Value) list"
    using less that by blast
  show ?case
  proof (cases "nested v")
    case False
    then show ?thesis using closes_flat [OF less.prems]
      by (auto simp: writes_def layout_flat styled_flat pushValue_def append_text_def at_depth_def)
        (metis StyledWriter.surjective StyledWriter.update_convs(1) StyledWriter.update_convs(2))
  next
    case True
    then consider m where "v = objectValue m" "m \<noteq> []" | m where "v = arrayValue m" "0 < Value_size (arrayValue m)"
      by (cases v) (auto simp: nested_def isArray_def isObject_def Value_size_def)
    then show ?thesis
    proof cases
      case (1 m)
      have o: "omap_of m" using less.prems 1 by simp
      have "\<forall>(k, x) \<in> set m. writes L (d + 3) x"
        using ih less.prems 1 size_in_map [of _ _ m] by (fastforce simp: size_prod_simp)
      then have k: "\<forall>k \<in> set (map fst m). writes L (d + 3) (named_at m k)" using named_members [OF o] by fastforce
      let ?body = "separated '','' (map (\<lambda>k. new_line (d + 3) @ valueToQuotedString k @ '' : '' @ layout L (d + 3) (named_at m k)) (map fst m))"
      have l: "layout L d v = ''{'' @ ?body @ new_line d @ ''}''" using True 1 by (simp add: layouts)
      have "closes (new_line (d + 3) @ valueToQuotedString k @ '' : '' @ layout L (d + 3) (named_at m k))" if "k \<in> set (map fst m)" for k
        using bspec [OF k that] closes_append [of "layout L (d + 3) (named_at m k)" "new_line (d + 3) @ valueToQuotedString k @ '' : ''"]
        by (simp add: writes_def)
      then have b: "closes ?body"
      proof (intro closes_separated)
        assume "\<And>k. k \<in> set (map fst m) \<Longrightarrow> closes (new_line (d + 3) @ valueToQuotedString k @ '' : '' @ layout L (d + 3) (named_at m k))"
        then show "\<forall>x \<in> set (map (\<lambda>k. new_line (d + 3) @ valueToQuotedString k @ '' : '' @ layout L (d + 3) (named_at m k)) (map fst m)). closes x"
          by auto
      qed (use 1 in simp)
      show ?thesis
        unfolding writes_def
      proof (intro conjI allI impI)
        show "closes (layout L d v)" by (simp add: l closes_def)
        fix W assume W: "at_depth d W \<and> writeIndent W = W"
        have c: "closes ''{''" by (simp add: closes_def)
        let ?W = "indent (writeWithIndent ''{'' W)"
        obtain cv where s: "styled_members L m (map fst m) ?W = Inr (?W\<lparr>document := document ?W @ ?body, childValues := cv\<rparr>)"
          using styled_members_layout [OF k _ open_container(1) open_container(4), of W "''{''"] W c 1 by auto
        have "styled_value L v W = Inr (W\<lparr>document := document W @ layout L d v, childValues := cv\<rparr>)"
          unfolding l using 1 W c s close_container [of d W "''{''" ?body "''}''" cv] open_container(2) [of d W "''{''"] b
          by (simp add: styled_value.simps)
        then show "\<exists>cv. styled_value L v W = Inr (W\<lparr>document := document W @ layout L d v, childValues := cv\<rparr>)" by blast
      qed
    next
      case (2 m)
      let ?is = "[0 ..< Value_size (arrayValue m)]"
      have dense: "map fst m = [0 ..< length m]" using less.prems 2 by simp
      have "\<forall>(k, x) \<in> set m. plain x \<and> writes L e x" for e
        using ih less.prems 2 size_in_map [of _ _ m] by (fastforce simp: size_prod_simp)
      then have "\<forall>p \<in> set m. plain (snd p) \<and> writes L e (snd p)" for e by fastforce
      then have "\<forall>b \<in> set (map (\<lambda>i. plain (item_at m i) \<and> writes L e (item_at m i)) ?is). b" for e
        unfolding dense_items [OF dense, of "\<lambda>x. plain x \<and> writes L e x"] by auto
      then have i: "\<forall>i \<in> set ?is. plain (item_at m i) \<and> writes L e (item_at m i)" for e by auto
      show ?thesis
        unfolding writes_def
      proof (intro conjI allI impI)
        show "closes (layout L d v)" using 2 True by (cases "multi_line L m") (simp_all add: layouts closes_def)
        fix W assume W: "at_depth d W \<and> writeIndent W = W"
        from W obtain cv where cv: "isMultineArray L m W = Inr (multi_line L m, W\<lparr>childValues := cv\<rparr>)"
          "cv = [] \<or> cv = map (\<lambda>i. flat L (item_at m i)) ?is \<and> (\<forall>i < Value_size (arrayValue m). \<not> nested (item_at m i))"
          "\<not> multi_line L m \<Longrightarrow> cv = map (\<lambda>i. flat L (item_at m i)) ?is"
          using isMultineArray_result [of W L m] by (auto simp: at_depth_def)
        show "\<exists>cv. styled_value L v W = Inr (W\<lparr>document := document W @ layout L d v, childValues := cv\<rparr>)"
        proof (cases "multi_line L m")
          case False
          then show ?thesis using 2 True cv(1,3)
            by (intro exI [of _ cv]) (simp add: styled_value.simps writeArrayValue.simps layouts append_text_def Let_def)
        next
          case multi: True
          let ?body = "separated '','' (map (\<lambda>i. new_line (d + 3) @ layout L (d + 3) (item_at m i)) ?is)"
          have l: "layout L d v = ''['' @ ?body @ new_line d @ '']''" using True 2 multi by (simp add: layouts)
          have b: "closes ?body" using 2 i [of "d + 3"] by (intro closes_separated) (auto simp: writes_def)
          have c: "closes ''[''" by (simp add: closes_def)
          let ?V = "W\<lparr>childValues := cv\<rparr>"
          have V: "at_depth d ?V" "writeIndent ?V = ?V" using W by (simp_all add: writeIndent_childValues)
          let ?W = "indent (writeWithIndent ''['' ?V)"
          have h: "childValues ?V \<noteq> [] \<longrightarrow> childValues ?W = map (\<lambda>i. flat L (item_at m i)) ?is
              \<and> (\<forall>i \<in> set ?is. i < Value_size (arrayValue m) \<and> \<not> nested (item_at m i))"
            using cv(2) by (auto simp: open_container(3) [OF V c])
          have w: "\<forall>i \<in> set ?is. writes L (d + 3) (item_at m i)" "?is \<noteq> []" using i 2 by simp_all
          from styled_items_layout [OF w open_container(1) [OF V c] open_container(4) [OF V c] _ h]
          obtain cv' where s: "styled_items L m (childValues ?V \<noteq> []) ?is ?W = Inr (?W\<lparr>document := document ?W @ ?body, childValues := cv'\<rparr>)"
            by auto
          have "styled_value L v W = Inr (W\<lparr>document := document W @ layout L d v, childValues := cv'\<rparr>)"
            unfolding l using 2 multi cv(1) s close_container [OF V c b, of "'']''" cv'] open_container(2) [OF V c]
            by (simp add: styled_value.simps writeArrayValue.simps Let_def)
          then show ?thesis by blast
        qed
      qed
    qed
  qed
qed

section \<open>Reading the layout\<close>

lemma separated_space: "xs \<noteq> [] \<Longrightarrow> '' '' @ separated '', '' xs = separated '','' (map (\<lambda>x. '' '' @ x) xs)"
proof (induction xs)
  case (Cons x xs)
  then show ?case by (cases "xs = []") (simp_all add: separated_simps)
qed simp

lemma blank_new_line: "blank (new_line d)"
  by (simp add: new_line_def is_space_def)

text \<open>
  What the layouts of both styled writers have in common: a container over several lines differs from
  the dense text only by blanks, a new line \<open>nl\<close> before each element and at the end, and possibly one
  more, \<open>lead\<close>, before its bracket; \<open>inner\<close> is the indentation of the elements.
\<close>

locale spaced_layout =
  fixes text_of_value :: "clib \<Rightarrow> 'd \<Rightarrow> Value \<Rightarrow> string"
    and nl :: "'d \<Rightarrow> string" and lead :: "'d \<Rightarrow> string" and inner :: "'d \<Rightarrow> 'd"
    and blank_at :: "'d \<Rightarrow> bool"
  assumes flat_text: "\<not> nested v \<Longrightarrow> text_of_value L d v = flat L v"
    and object_text: "nested (objectValue n) \<Longrightarrow> text_of_value L d (objectValue n) = lead d @ ''{''
      @ separated '','' (map (\<lambda>k. nl (inner d) @ valueToQuotedString k @ '' : '' @ text_of_value L (inner d) (named_at n k)) (map fst n))
      @ nl d @ ''}''"
    and lines_text: "nested (arrayValue m) \<Longrightarrow> multi_line L m \<Longrightarrow> text_of_value L d (arrayValue m) = lead d @ ''[''
      @ separated '','' (map (\<lambda>i. nl (inner d) @ text_of_value L (inner d) (item_at m i)) [0 ..< Value_size (arrayValue m)])
      @ nl d @ '']''"
    and line_text: "nested (arrayValue m) \<Longrightarrow> \<not> multi_line L m \<Longrightarrow> text_of_value L d (arrayValue m)
      = ''[ '' @ separated '', '' (map (\<lambda>i. flat L (item_at m i)) [0 ..< Value_size (arrayValue m)]) @ '' ]''"
    and blank_nl: "blank_at d \<Longrightarrow> blank (nl d)" and blank_lead: "blank_at d \<Longrightarrow> blank (lead d)"
    and blank_inner: "blank_at d \<Longrightarrow> blank_at (inner d)"
begin

lemma opens_text:
  assumes "plain v" "blank_at d"
  shows "opens (text_of_value L d v)"
proof (cases "nested v")
  case True
  then consider (object) m where "v = objectValue m" | (array) m where "v = arrayValue m"
    by (cases v) (auto simp: nested_def isArray_def isObject_def)
  then show ?thesis
  proof cases
    case (object m)
    with True show ?thesis
      using blank_lead [OF assms(2)] by (simp add: object_text opens_blank is_space_def)
  next
    case (array m)
    with True show ?thesis
      using blank_lead [OF assms(2)] by (cases "multi_line L m") (simp_all add: lines_text line_text opens_blank is_space_def)
  qed
qed (simp add: assms(1) flat_text opens_written new_FastWriter_def)

lemma reads_text: "plain v \<Longrightarrow> blank_at d \<Longrightarrow> reads L F (text_of_value L d v) (reread v)"
proof (induction "size v" arbitrary: v d rule: less_induct)
  case less
  have w: "\<not> dropNullPlaceholders new_FastWriter" by (simp add: new_FastWriter_def)
  have ih: "reads L F (text_of_value L e x) (reread x) \<and> opens (text_of_value L e x)"
    if "(k, x) \<in> set m" "size x < size v" "plain x" "blank_at e" for e k x and m :: "('k \<times> Value) list"
    using less that opens_text by blast
  have b: "blank_at d" "blank_at (inner d)" using less.prems(2) blank_inner by simp_all
  show ?case
  proof (cases "nested v")
    case False
    then show ?thesis using reads_written [OF less.prems(1) w] by (simp add: flat_text)
  next
    case True
    then consider m where "v = objectValue m" | m where "v = arrayValue m" "0 < Value_size (arrayValue m)"
      by (cases v) (auto simp: nested_def isArray_def isObject_def)
    then show ?thesis
    proof cases
      case (1 m)
      have o: "omap_of m" using less.prems 1 by simp
      have a: "\<forall>(k, x) \<in> set m. NUL \<notin> set k \<and> reads L F (text_of_value L (inner d) x) (reread x)"
        using ih less.prems b 1 size_in_map [of _ _ m] by (fastforce simp: size_prod_simp)
      have "map (\<lambda>k. nl (inner d) @ valueToQuotedString k @ '' : '' @ text_of_value L (inner d) (named_at m k)) (map fst m)
          = map (\<lambda>(k, x). nl (inner d) @ valueToQuotedString k @ '' '' @ '':'' @ '' '' @ text_of_value L (inner d) x) m"
        using named_members [OF o] by (auto simp: case_prod_unfold)
      with reads_blank [OF blank_lead [OF b(1)] reads_object [OF o a _ _ _ passes_blank [OF blank_nl [OF b(1)]], of "\<lambda>x. nl (inner d)" "'' ''" "'' ''"]]
        passes_blank [OF blank_nl [OF b(2)], of F] show ?thesis
        using 1 True by (simp add: object_text is_space_def del: map_map)
    next
      case (2 m)
      have dense: "map fst m = [0 ..< length m]" using less.prems 2 by simp
      show ?thesis
      proof (cases "multi_line L m")
        case multi: True
        have "\<forall>(i, x) \<in> set m. reads L F (text_of_value L (inner d) x) (reread x) \<and> opens (text_of_value L (inner d) x)"
          using ih less.prems b 2 size_in_map [of _ _ m] by (fastforce simp: size_prod_simp)
        from reads_blank [OF blank_lead [OF b(1)] reads_array [OF dense this blank_nl [OF b(2)] passes_blank [OF blank_nl [OF b(1)]] blank_nl [OF b(1)]]] show ?thesis
          using 2 True multi by (simp add: lines_text dense_items [OF dense, of "\<lambda>x. nl (inner d) @ text_of_value L (inner d) x"])
      next
        case False
        have p: "\<forall>(i, x) \<in> set m. plain x" using less.prems 2 by auto
        have "\<forall>(i, x) \<in> set m. reads L F (flat L x) (reread x) \<and> opens (flat L x)"
          using p reads_written [OF _ w] opens_written [OF _ w] by fast
        from reads_array [OF dense this, of "'' ''" "'' ''"] passes_blank [of "'' ''" F] have
          "reads L F (''['' @ separated '','' (map (\<lambda>p. '' '' @ flat L (snd p)) m) @ '' '' @ '']'') (reread v)"
          using 2 by (simp add: is_space_def)
        moreover have "text_of_value L d v = ''['' @ ('' '' @ separated '', '' (map (\<lambda>i. flat L (item_at m i)) [0 ..< Value_size (arrayValue m)])) @ '' '' @ '']''"
          using 2 True False by (simp add: line_text)
        moreover have "'' '' @ separated '', '' (map (\<lambda>i. flat L (item_at m i)) [0 ..< Value_size (arrayValue m)])
            = separated '','' (map (\<lambda>p. '' '' @ flat L (snd p)) m)"
          using 2 separated_space [of "map (\<lambda>i. flat L (item_at m i)) [0 ..< Value_size (arrayValue m)]"]
          by (simp add: comp_def dense_items [OF dense, of "\<lambda>x. CHR '' '' # flat L x"])
        ultimately show ?thesis by (simp only:)
      qed
    qed
  qed
qed

end

interpretation styled: spaced_layout layout new_line "\<lambda>d. []" "\<lambda>d. d + 3" "\<lambda>d. True"
  by unfold_locales (simp_all add: layouts blank_new_line)

lemma styled_text: "plain v \<Longrightarrow> toStyledString L v = Inr (layout L 0 v @ [LF])"
proof -
  assume p: "plain v"
  have "at_depth 0 new_StyledWriter" "writeIndent new_StyledWriter = new_StyledWriter"
    by (simp_all add: at_depth_def new_StyledWriter_def writeIndent_def append_text_def)
  with writesD [OF writes_plain [OF p]] obtain cv where
    "styled_value L v new_StyledWriter = Inr (new_StyledWriter\<lparr>document := layout L 0 v, childValues := cv\<rparr>)"
    by (fastforce simp: new_StyledWriter_def)
  then show ?thesis by (simp add: toStyledString_def StyledWriter_write_def append_text_def)
qed

text \<open>A document that begins with the text of a value. What follows it is not read.\<close>

lemma parse_text:
  assumes "reads L F s (reread v)" "delim rest" "strictRoot F \<longrightarrow> isArray v \<or> isObject v"
  shows "Reader_parse L F (s @ rest) root = Some (True, reread v, [])"
proof -
  let ?doc = "s @ rest" and ?R = "\<lparr>rd_current = [], rd_errors = []\<rparr>"
  from readsE [OF assms(1,2), of ?R root] obtain n where
    "readValue n L F (?R\<lparr>rd_current := ?doc\<rparr>) root = Some (True, reread v, ?R\<lparr>rd_current := rest\<rparr>)" by blast
  then have "readValue (parse_fuel ?doc) L F \<lparr>rd_current = ?doc, rd_errors = []\<rparr> root
      = Some (True, reread v, \<lparr>rd_current = rest, rd_errors = []\<rparr>)"
    using readValue_any_bound [of n L F "\<lparr>rd_current = ?doc, rd_errors = []\<rparr>" root]
    by (simp add: parse_fuel_def)
  then show ?thesis using assms(3) by (simp add: Reader_parse_def Let_def type_reread)
qed

lemma parse_line:
  assumes "reads L F s (reread v)" "strictRoot F \<longrightarrow> isArray v \<or> isObject v"
  shows "Reader_parse L F (s @ [LF]) root = Some (True, reread v, [])"
  using assms by (intro parse_text) simp_all

text \<open>
  The styled text means the same. Whatever value without doubles the program builds, the styled
  writer finishes without failing an assertion or leaving an array, and the reader makes of its text
  what it makes of the text of \<open>FastWriter\<close>: the value that was written.
\<close>
theorem styled_text_equivalent:
  assumes "plain v" "strictRoot F \<longrightarrow> isArray v \<or> isObject v"
  shows "\<exists>s. toStyledString L v = Inr s
    \<and> Reader_parse L F s root = Reader_parse L F (FastWriter_write L new_FastWriter v) root
    \<and> Reader_parse L F s root = Some (True, reread v, [])"
proof -
  have "Reader_parse L F (layout L 0 v @ [LF]) root = Some (True, reread v, [])"
    using styled.reads_text [OF assms(1) TrueI] assms(2) by (rule parse_line)
  then show ?thesis using styled_text [OF assms(1), of L] parse_written [OF assms(1) _ assms(2), of new_FastWriter L root]
    by (simp add: new_FastWriter_def)
qed

theorem styled_text_equivalent_witness:
  "\<exists>s. toStyledString no_doubles (objectValue [(''a'', arrayValue [(0, intValue (-7)), (1, arrayValue [(0, nullValue)])])]) = Inr s
    \<and> Reader_parse no_doubles Features_strictMode s nullValue
      = Some (True, objectValue [(''a'', arrayValue [(0, intValue (-7)), (1, arrayValue [(0, nullValue)])])], [])"
  using styled_text_equivalent [of "objectValue [(''a'', arrayValue [(0, intValue (-7)), (1, arrayValue [(0, nullValue)])])]"
      Features_strictMode no_doubles nullValue]
  by (auto simp: isObject_def NUL_def omap_of_def int_limits)

end
