(* ===== verification/CommentWriter.thy ===== *)
theory CommentWriter
  imports StyledWriter JsonComments
begin

text \<open>
  The styled writer of the embedded jsoncpp (class \<open>StyledWriter\<close> in \<open>third/eice/src/jsoncpp.cpp\<close>) on
  values that carry comments. The comments are those a reader collected, each under the node of its
  value, or any others; the theorem is that the reader passes over them and reads the same value.
\<close>

section \<open>Writing comments\<close>

text \<open>
  The loop over the comment before a value. The character after the last one is the terminator of the
  string.
\<close>

primrec write_comment :: "string \<Rightarrow> StyledWriter \<Rightarrow> StyledWriter" where
  "write_comment [] W = W"
| "write_comment (c # rest) W =
     (let W1 = append_text [c] W
      in write_comment rest (if c = LF \<and> deref rest = CHR ''/'' then writeIndent W1 else W1))"

definition writeCommentBeforeValue :: "Collected \<Rightarrow> node \<Rightarrow> StyledWriter \<Rightarrow> StyledWriter" where
  "writeCommentBeforeValue C node W =
     (if \<not> hasComment C node commentBefore then W
      else append_text [LF]
             (write_comment (normalizeEOL (getComment C node commentBefore)) (writeIndent (append_text [LF] W))))"

definition writeCommentAfterValueOnSameLine :: "Collected \<Rightarrow> node \<Rightarrow> StyledWriter \<Rightarrow> StyledWriter" where
  "writeCommentAfterValueOnSameLine C node W =
     (let W1 = (if hasComment C node commentAfterOnSameLine
                then append_text ('' '' @ normalizeEOL (getComment C node commentAfterOnSameLine)) W else W)
      in if hasComment C node commentAfter
         then append_text [LF] (append_text (normalizeEOL (getComment C node commentAfter)) (append_text [LF] W1))
         else W1)"

text \<open>
  The functions of the writer, with the comments and the node of the value. \<open>isMultineArray\<close> does not ask
  for comments: the elements it lays out on one line lose theirs.
\<close>

function c_styled_value :: "clib \<Rightarrow> Collected \<Rightarrow> node \<Rightarrow> Value \<Rightarrow> StyledWriter \<Rightarrow> StyledWriter outcome"
  and c_styled_members :: "clib \<Rightarrow> Collected \<Rightarrow> node \<Rightarrow> (string, Value) omap \<Rightarrow> string list \<Rightarrow> StyledWriter \<Rightarrow> StyledWriter outcome"
  and c_writeArrayValue :: "clib \<Rightarrow> Collected \<Rightarrow> node \<Rightarrow> (nat, Value) omap \<Rightarrow> StyledWriter \<Rightarrow> StyledWriter outcome"
  and c_styled_items :: "clib \<Rightarrow> Collected \<Rightarrow> node \<Rightarrow> (nat, Value) omap \<Rightarrow> bool \<Rightarrow> nat list \<Rightarrow> StyledWriter \<Rightarrow> StyledWriter outcome"
  and c_isMultineArray :: "clib \<Rightarrow> Collected \<Rightarrow> node \<Rightarrow> (nat, Value) omap \<Rightarrow> StyledWriter \<Rightarrow> (bool \<times> StyledWriter) outcome"
  and c_collect_children :: "clib \<Rightarrow> Collected \<Rightarrow> node \<Rightarrow> (nat, Value) omap \<Rightarrow> nat list \<Rightarrow> nat \<Rightarrow> StyledWriter
    \<Rightarrow> (nat \<times> StyledWriter) outcome" where
  "c_styled_value L C node v W =
     (case v of
        nullValue \<Rightarrow> Inr (pushValue ''null'' W)
      | intValue i \<Rightarrow> Inr (pushValue (valueToString_Int i) W)
      | uintValue u \<Rightarrow> Inr (pushValue (valueToString_UInt u) W)
      | realValue d \<Rightarrow> Inr (pushValue (valueToString_double (print_double L) d) W)
      | stringValue s \<Rightarrow> Inr (pushValue (valueToQuotedString s) W)
      | booleanValue b \<Rightarrow> Inr (pushValue (valueToString_bool b) W)
      | arrayValue m \<Rightarrow> c_writeArrayValue L C node m W
      | objectValue m \<Rightarrow>
          if map fst m = [] then Inr (pushValue ''{}'' W)
          else (case c_styled_members L C node m (map fst m) (indent (writeWithIndent ''{'' W)) of
                  Inl e \<Rightarrow> Inl e
                | Inr W1 \<Rightarrow> map_sum (\<lambda>e. e) (writeWithIndent ''}'') (unindent W1)))"
| "c_styled_members L C node m [] W = Inr W"
| "c_styled_members L C node m (name # names) W =
     (let child = node @ [Inl name]
      in case c_styled_value L C child (named_at m name)
                (append_text '' : '' (writeWithIndent (valueToQuotedString name) (writeCommentBeforeValue C child W))) of
           Inl e \<Rightarrow> Inl e
         | Inr W1 \<Rightarrow>
             if names = [] then Inr (writeCommentAfterValueOnSameLine C child W1)
             else c_styled_members L C node m names (writeCommentAfterValueOnSameLine C child (append_text '','' W1)))"
| "c_writeArrayValue L C node m W =
     (let size = Value_size (arrayValue m)
      in if size = 0 then Inr (pushValue ''[]'' W)
         else (case c_isMultineArray L C node m W of
                 Inl e \<Rightarrow> Inl e
               | Inr (isArrayMultiLine, W1) \<Rightarrow>
                   if isArrayMultiLine
                   then (case c_styled_items L C node m (childValues W1 \<noteq> []) [0 ..< size] (indent (writeWithIndent ''['' W1)) of
                           Inl e \<Rightarrow> Inl e
                         | Inr W2 \<Rightarrow> map_sum (\<lambda>e. e) (writeWithIndent '']'') (unindent W2))
                   else if length (childValues W1) \<noteq> size then Inl AssertFailed
                   else Inr (append_text (''[ '' @ separated '', '' (childValues W1) @ '' ]'') W1)))"
| "c_styled_items L C node m hasChild [] W = Inr W"
| "c_styled_items L C node m hasChild (index # rest) W =
     (let child = node @ [Inr index]; W0 = writeCommentBeforeValue C child W
      in case (if hasChild
               then if index < length (childValues W0) then Inr (writeWithIndent (childValues W0 ! index) W0) else Inl OutOfBounds
               else c_styled_value L C child (item_at m index) (writeIndent W0)) of
           Inl e \<Rightarrow> Inl e
         | Inr W1 \<Rightarrow>
             if rest = [] then Inr (writeCommentAfterValueOnSameLine C child W1)
             else c_styled_items L C node m hasChild rest (writeCommentAfterValueOnSameLine C child (append_text '','' W1)))"
| "c_isMultineArray L C node m W =
     (let size = Value_size (arrayValue m);
          W1 = W\<lparr>childValues := []\<rparr>
      in if size * 3 \<ge> rightMargin W \<or> (\<exists>index \<in> set [0 ..< size]. nested (item_at m index)) then Inr (True, W1)
         else (case c_collect_children L C node m [0 ..< size] (4 + (size - 1) * 2) (W1\<lparr>addChildValues := True\<rparr>) of
                 Inl e \<Rightarrow> Inl e
               | Inr (lineLength, W2) \<Rightarrow> Inr (lineLength \<ge> rightMargin W2, W2\<lparr>addChildValues := False\<rparr>)))"
| "c_collect_children L C node m [] lineLength W = Inr (lineLength, W)"
| "c_collect_children L C node m (index # rest) lineLength W =
     (case c_styled_value L C (node @ [Inr index]) (item_at m index) W of
        Inl e \<Rightarrow> Inl e
      | Inr W1 \<Rightarrow> if index < length (childValues W1)
                 then c_collect_children L C node m rest (lineLength + length (childValues W1 ! index)) W1
                 else Inl OutOfBounds)"
  by pat_completeness auto
termination
proof (relation "measures [\<lambda>x. case x of
      Inl (Inl (L, C, p, v, W)) \<Rightarrow> 5 * size v + 4
    | Inl (Inr (Inl (L, C, p, m, names, W))) \<Rightarrow> 5 * size (objectValue m) + 1
    | Inl (Inr (Inr (L, C, p, m, W))) \<Rightarrow> 5 * size (arrayValue m) + 3
    | Inr (Inl (L, C, p, m, c, is, W)) \<Rightarrow> 5 * size (arrayValue m) + 1
    | Inr (Inr (Inl (L, C, p, m, W))) \<Rightarrow> 5 * size (arrayValue m) + 2
    | Inr (Inr (Inr (L, C, p, m, is, n, W))) \<Rightarrow> 5 * size (arrayValue m) + 1,
    \<lambda>x. case x of
      Inl (Inl (L, C, p, v, W)) \<Rightarrow> 0
    | Inl (Inr (Inl (L, C, p, m, names, W))) \<Rightarrow> length names
    | Inl (Inr (Inr (L, C, p, m, W))) \<Rightarrow> 0
    | Inr (Inl (L, C, p, m, c, is, W)) \<Rightarrow> length is
    | Inr (Inr (Inl (L, C, p, m, W))) \<Rightarrow> 0
    | Inr (Inr (Inr (L, C, p, m, is, n, W))) \<Rightarrow> length is]", goal_cases)
qed (auto simp del: Value.size simp: less_Suc_eq_le child_bounds)

declare c_styled_value.simps [simp del] c_writeArrayValue.simps [simp del] c_isMultineArray.simps [simp del]

text \<open>\<open>write\<close>, and \<open>toStyledString\<close> of a value with comments.\<close>

definition StyledWriter_write_comments :: "clib \<Rightarrow> Collected \<Rightarrow> Value \<Rightarrow> string outcome" where
  "StyledWriter_write_comments L C root =
     map_sum (\<lambda>e. e) (\<lambda>W. document (append_text [LF] (writeCommentAfterValueOnSameLine C [] W)))
       (c_styled_value L C [] root (writeCommentBeforeValue C [] new_StyledWriter))"

section \<open>Without comments\<close>

lemma no_comments [simp]:
  assumes "cm_comments C = []"
  shows "writeCommentBeforeValue C node W = W" "writeCommentAfterValueOnSameLine C node W = W"
  using assms by (simp_all add: writeCommentBeforeValue_def writeCommentAfterValueOnSameLine_def hasComment_def)

lemma uncommented:
  "cm_comments C = [] \<Longrightarrow> c_styled_value L C node v W = styled_value L v W"
  "cm_comments C = [] \<Longrightarrow> c_styled_members L C node n names W = styled_members L n names W"
  "cm_comments C = [] \<Longrightarrow> c_writeArrayValue L C node m W = StyledWriter.writeArrayValue L m W"
  "cm_comments C = [] \<Longrightarrow> c_styled_items L C node m hasChild is W = styled_items L m hasChild is W"
  "cm_comments C = [] \<Longrightarrow> c_isMultineArray L C node m W = StyledWriter.isMultineArray L m W"
  "cm_comments C = [] \<Longrightarrow> c_collect_children L C node m is k W = collect_children L m is k W"
proof (induction L C node v W and L C node n names W and L C node m W and L C node m hasChild "is" W and L C node m W
    and L C node m "is" k W rule: c_styled_value_c_styled_members_c_writeArrayValue_c_styled_items_c_isMultineArray_c_collect_children.induct)
  case (1 L C node v W)
  then show ?case
    by (subst c_styled_value.simps, subst styled_value.simps) (auto split: Value.split)
next
  case (3 L C node m name names W)
  then show ?case by (auto simp: Let_def split: sum.split)
next
  case (4 L C node m W)
  then show ?case
    by (subst c_writeArrayValue.simps, subst StyledWriter.writeArrayValue.simps) (auto simp: Let_def split: sum.split)
next
  case (6 L C node m hasChild index rest W)
  then show ?case by (auto simp: Let_def split: sum.split)
next
  case (7 L C node m W)
  then show ?case
    by (subst c_isMultineArray.simps, subst StyledWriter.isMultineArray.simps) (auto simp: Let_def split: sum.split)
next
  case (9 L C node m index rest lineLength W)
  then show ?case by (auto split: sum.split)
qed simp_all

lemma written_uncommented: "cm_comments C = [] \<Longrightarrow> StyledWriter_write_comments L C v = toStyledString L v"
  by (simp add: StyledWriter_write_comments_def toStyledString_def StyledWriter_write_def uncommented(1))

section \<open>Tidy comments\<close>

text \<open>A text of whole comments and blanks, as the reader sees it. The last comment of a line may lack its line end.\<close>

function tidy :: "string \<Rightarrow> bool" where
  "tidy [] = True"
| "tidy (c # cs) =
     (if is_space c then tidy cs else c = CHR ''/'' \<and> fst (readComment cs) \<and> tidy (snd (readComment cs)))"
  by pat_completeness auto
termination
  by (relation "measure length") (auto simp: less_Suc_eq_le length_readComment)

lemma tidy_blank: "blank ws \<Longrightarrow> tidy (ws @ s) = tidy s"
  by (induction ws) simp_all

lemma readCStyleComment_steps:
  "readCStyleComment (CHR ''*'' # CHR ''/'' # cs) = (True, cs)"
  "c \<noteq> CHR ''*'' \<or> deref cs \<noteq> CHR ''/'' \<Longrightarrow> readCStyleComment (c # cs) = readCStyleComment cs"
  by (auto simp: deref_def getNextChar_def)

declare readCStyleComment.simps(2) [simp del]

lemma deref_slash: "deref cs = CHR ''/'' \<longleftrightarrow> (\<exists>cs'. cs = CHR ''/'' # cs')"
  by (auto simp: deref_def NUL_def split: list.splits)

lemma readCStyleComment_induct [consumes 1, case_names close step]:
  assumes "readCStyleComment cs = (True, r)"
    and "P (CHR ''*'' # CHR ''/'' # r)"
    and "\<And>c cs. c \<noteq> CHR ''*'' \<or> deref cs \<noteq> CHR ''/'' \<Longrightarrow> readCStyleComment cs = (True, r) \<Longrightarrow> P cs \<Longrightarrow> P (c # cs)"
  shows "P cs"
  using assms(1)
proof (induction cs)
  case (Cons c cs)
  show ?case
  proof (cases "c = CHR ''*'' \<and> deref cs = CHR ''/''")
    case True
    then show ?thesis using Cons.prems assms(2) by (auto simp: deref_slash readCStyleComment_steps)
  next
    case False
    then show ?thesis using Cons assms(3) by (simp add: readCStyleComment_steps)
  qed
qed simp

lemma readCStyleComment_append:
  "readCStyleComment cs = (True, r) \<Longrightarrow> readCStyleComment (cs @ x) = (True, r @ x) \<and> cs \<noteq> [] \<and> (r \<noteq> [] \<longrightarrow> last r = last cs)"
proof (induction rule: readCStyleComment_induct)
  case (step c cs)
  then have "deref (cs @ x) = deref cs" by (cases cs) (simp_all add: deref_def)
  with step show ?case by (simp add: readCStyleComment_steps)
qed (simp add: readCStyleComment_steps)

lemma readCppStyleComment_append:
  "readCppStyleComment cs = (True, r) \<Longrightarrow>
     readCppStyleComment (cs @ x) = (True, r @ x) \<and> cs \<noteq> [] \<and> (r \<noteq> [] \<longrightarrow> last r = last cs)
     \<or> r = [] \<and> LF \<notin> set cs \<and> (\<forall>y. readCppStyleComment (cs @ LF # y) = (True, y))"
  by (induction cs) (auto split: if_splits)

text \<open>A comment with more behind it: only one that lacks its line end takes the next line end along.\<close>

lemma readComment_append:
  assumes "readComment cs = (True, r)"
  shows "readComment (cs @ x) = (True, r @ x) \<and> cs \<noteq> [] \<and> (r \<noteq> [] \<longrightarrow> last r = last cs)
    \<or> r = [] \<and> cs \<noteq> [] \<and> LF \<notin> set cs \<and> (\<forall>y. readComment (cs @ LF # y) = (True, y))"
proof (cases cs)
  case (Cons c cs')
  show ?thesis
  proof (cases "c = CHR ''*''")
    case True
    then have "readCStyleComment cs' = (True, r)" using assms Cons by (simp add: readComment_def getNextChar_def)
    then show ?thesis using True Cons readCStyleComment_append [of cs' r x]
      by (simp add: readComment_def getNextChar_def)
  next
    case False
    then have "c = CHR ''/''" "readCppStyleComment cs' = (True, r)"
      using assms Cons by (auto simp: readComment_def getNextChar_def split: if_splits)
    then show ?thesis using False Cons readCppStyleComment_append [of cs' r x]
      by (auto simp: readComment_def getNextChar_def)
  qed
qed (use assms in \<open>simp add: readComment_def getNextChar_def NUL_def\<close>)

lemma skip_comment:
  assumes "readComment cs = (True, r)"
  shows "skip_comments (CHR ''/'' # cs) = skip_comments r"
proof -
  have "tok_type (readToken (CHR ''/'' # cs)) = tokenComment" "tok_end (readToken (CHR ''/'' # cs)) = r"
    using assms by (simp_all add: readToken_def skipSpaces_def is_space_def getNextChar_def token_switch_def is_digit_def)
  then show ?thesis by (simp add: skip_comments.simps [of "CHR ''/'' # cs"])
qed

lemma skip_tidy:
  "tidy s \<Longrightarrow> s = [] \<or> last s = LF \<or> (\<exists>y. x = LF # y) \<Longrightarrow> skip_comments (s @ x) = skip_comments x"
proof (induction s rule: tidy.induct)
  case (2 c cs)
  show ?case
  proof (cases "is_space c")
    case True
    have "skip_comments (cs @ x) = skip_comments x"
      using 2 True by (intro "2.IH"(1)) auto
    then show ?thesis using skip_blank [of "[c]" "cs @ x"] True by simp
  next
    case False
    then obtain r where r: "c = CHR ''/''" "readComment cs = (True, r)" "tidy r"
      using 2 by (cases "readComment cs") auto
    have more: "r = [] \<or> last r = LF \<or> (\<exists>y. x = LF # y) \<Longrightarrow> skip_comments (r @ x) = skip_comments x"
      using "2.IH"(2) [OF False] r by simp
    from readComment_append [OF r(2), of x]
    have "\<exists>r'. readComment (cs @ x) = (True, r') \<and> skip_comments r' = skip_comments x"
    proof (elim disjE conjE exE, goal_cases)
      case 1
      then show ?thesis using more "2.prems"(2) by auto
    next
      case 2
      then have "last (c # cs) \<noteq> LF" by (metis last_ConsR last_in_set)
      then obtain y where y: "x = LF # y" using "2.prems"(2) by auto
      have "skip_comments (LF # y) = skip_comments y" using skip_blank [of "[LF]" y] by (simp add: is_space_def)
      with 2 y show ?thesis by simp
    qed
    then show ?thesis using r(1) skip_comment [of "cs @ x"] by auto
  qed
qed simp

lemma tidy_head: "tidy s \<Longrightarrow> s = [] \<or> is_space (hd s) \<or> hd s = CHR ''/''"
  by (cases s) (auto split: if_splits)

lemma passes_tidy:
  assumes "tidy s" "allowComments F" "s = [] \<or> last s = LF"
  shows "passes F s"
proof -
  have "delim (s @ cs)" if "delim cs" for cs
    using that tidy_head [OF assms(1)]
    by (cases s) (auto simp: delim_def is_space_def is_number_char_def is_digit_def)
  then show ?thesis using assms skip_tidy [OF assms(1)] by (auto simp: passes_def)
qed

lemma passes_line:
  assumes "tidy s" "allowComments F"
  shows "passes F (s @ [LF])"
proof -
  have "delim (s @ LF # cs)" for cs
    using tidy_head [OF assms(1)] by (cases s) (auto simp: delim_def is_space_def is_number_char_def is_digit_def)
  moreover have "skip_comments (s @ LF # cs) = skip_comments cs" for cs
    using skip_tidy [OF assms(1), of "LF # cs"] skip_blank [of "[LF]" cs] by (simp add: is_space_def)
  ultimately show ?thesis using assms(2) by (simp add: passes_def)
qed

text \<open>What the writer makes of a comment is tidy as well: line ends made uniform, later lines indented.\<close>

primrec indented :: "string \<Rightarrow> string \<Rightarrow> string" where
  "indented i [] = []"
| "indented i (c # cs) = c # (if c = LF \<and> deref cs = CHR ''/'' then i else []) @ indented i cs"

lemma deref_indented [simp]: "deref (indented i cs) = deref cs"
  by (cases cs) (simp_all add: deref_def)

lemma readCStyleComment_blank: "blank ws \<Longrightarrow> readCStyleComment (ws @ cs) = readCStyleComment cs"
  by (induction ws) (auto simp: readCStyleComment_steps is_space_def)

lemma readCStyleComment_indented:
  "readCStyleComment cs = (True, r) \<Longrightarrow> blank i \<Longrightarrow> readCStyleComment (indented i cs) = (True, indented i r)"
proof (induction rule: readCStyleComment_induct)
  case (step c cs)
  have "deref ((if c = LF \<and> deref cs = CHR ''/'' then i else []) @ indented i cs) = deref cs" if "c = CHR ''*''"
    using that by simp
  with step have "c \<noteq> CHR ''*'' \<or> deref ((if c = LF \<and> deref cs = CHR ''/'' then i else []) @ indented i cs) \<noteq> CHR ''/''" by auto
  with step show ?case by (simp add: readCStyleComment_steps readCStyleComment_blank)
qed (simp add: readCStyleComment_steps)

lemma readCppStyleComment_indented:
  "readCppStyleComment cs = (True, r) \<Longrightarrow> \<exists>ws. set ws \<subseteq> set i \<and> readCppStyleComment (indented i cs) = (True, ws @ indented i r)"
  by (induction cs) (auto split: if_splits intro: exI [of _ i] exI [of _ "[]"])

lemma tidy_indented: "tidy s \<Longrightarrow> blank i \<Longrightarrow> tidy (indented i s)"
proof (induction s rule: tidy.induct)
  case (2 c cs)
  show ?case
  proof (cases "is_space c")
    case True
    then show ?thesis using 2 by (simp add: tidy_blank)
  next
    case False
    then obtain r where r: "c = CHR ''/''" "readComment cs = (True, r)" "tidy r"
      using 2 by (cases "readComment cs") auto
    then have i: "tidy (indented i r)" using "2.IH"(2) [OF False] "2.prems"(2) by simp
    obtain d ds where cs: "cs = d # ds" using r(2) by (cases cs) (simp_all add: readComment_def getNextChar_def NUL_def)
    have "\<exists>ws. blank ws \<and> readComment (indented i cs) = (True, ws @ indented i r)"
    proof (cases "d = CHR ''*''")
      case True
      then have "readCStyleComment ds = (True, r)" using r(2) cs by (simp add: readComment_def getNextChar_def)
      then show ?thesis using True cs readCStyleComment_indented [of ds r i] "2.prems"(2)
        by (intro exI [of _ "[]"]) (simp add: readComment_def getNextChar_def)
    next
      case not_star: False
      then have d: "d = CHR ''/''" "readCppStyleComment ds = (True, r)"
        using r(2) cs by (auto simp: readComment_def getNextChar_def split: if_splits)
      obtain ws where "set ws \<subseteq> set i" "readCppStyleComment (indented i ds) = (True, ws @ indented i r)"
        using readCppStyleComment_indented [OF d(2)] by blast
      then show ?thesis using "2.prems"(2) d(1) cs by (intro exI [of _ ws]) (auto simp: readComment_def getNextChar_def blank_def)
    qed
    then obtain ws where "blank ws" "readComment (indented i cs) = (True, ws @ indented i r)" by blast
    then show ?thesis using r(1) i by (simp add: is_space_def tidy_blank)
  qed
qed simp

lemma deref_normalizeEOL: "deref (normalizeEOL cs) = CHR ''/'' \<longleftrightarrow> deref cs = CHR ''/''"
  by (cases cs) (auto simp: deref_def)

lemma readCStyleComment_normalizeEOL:
  "readCStyleComment cs = (True, r) \<Longrightarrow> readCStyleComment (normalizeEOL cs) = (True, normalizeEOL r)"
proof (induction "length cs" arbitrary: cs rule: less_induct)
  case less
  obtain c ds where cs: "cs = c # ds" using less.prems by (cases cs) auto
  show ?case
  proof (cases "c = CHR ''*'' \<and> deref ds = CHR ''/''")
    case True
    then show ?thesis using less.prems cs by (auto simp: deref_slash readCStyleComment_steps)
  next
    case False
    then have ds: "readCStyleComment ds = (True, r)" using less.prems by (simp add: cs readCStyleComment_steps)
    let ?rest = "if c = CR \<and> deref ds = LF then tl ds else ds"
    have "readCStyleComment ?rest = (True, r)"
      using ds by (cases ds) (auto simp: deref_def readCStyleComment_steps)
    moreover have "length ?rest < length cs" by (simp add: cs le_imp_less_Suc)
    ultimately have n: "readCStyleComment (normalizeEOL ?rest) = (True, normalizeEOL r)" using less.hyps by blast
    have "normalizeEOL cs = (if c = CR then LF else c) # normalizeEOL ?rest" by (simp add: cs)
    moreover have "(if c = CR then LF else c) \<noteq> CHR ''*'' \<or> deref (normalizeEOL ?rest) \<noteq> CHR ''/''"
      using False by (auto simp: deref_normalizeEOL)
    ultimately show ?thesis using n by (simp add: readCStyleComment_steps(2))
  qed
qed

lemma readCppStyleComment_normalizeEOL:
  "readCppStyleComment cs = (True, r) \<Longrightarrow>
    \<exists>r'. readCppStyleComment (normalizeEOL cs) = (True, normalizeEOL r') \<and> (r' = r \<or> r = LF # r')"
proof (induction cs)
  case (Cons c cs)
  show ?case
  proof (cases "c = CR \<and> deref cs = LF")
    case True
    then obtain cs' where "cs = LF # cs'" by (cases cs) (auto simp: deref_def NUL_def)
    then show ?thesis using Cons.prems True by (auto simp: deref_def)
  next
    case False
    then show ?thesis using Cons by auto
  qed
qed simp

lemma tidy_normalizeEOL: "tidy s \<Longrightarrow> tidy (normalizeEOL s)"
proof (induction "length s" arbitrary: s rule: less_induct)
  case less
  show ?case
  proof (cases s)
    case (Cons c cs)
    show ?thesis
    proof (cases "is_space c")
      case True
      let ?rest = "if c = CR \<and> deref cs = LF then tl cs else cs"
      have "tidy cs" using less.prems Cons True by simp
      then have "tidy ?rest" by (cases cs) (auto simp: deref_def is_space_def)
      moreover have "length ?rest < length s" by (simp add: Cons le_imp_less_Suc)
      ultimately have "tidy (normalizeEOL ?rest)" using less.hyps by blast
      moreover have "normalizeEOL s = (if c = CR then LF else c) # normalizeEOL ?rest" by (simp add: Cons)
      moreover have "is_space (if c = CR then LF else c)" using True by (auto simp: is_space_def)
      ultimately show ?thesis by (simp only: tidy.simps if_True)
    next
      case False
      then obtain r where r: "c = CHR ''/''" "readComment cs = (True, r)" "tidy r"
        using less.prems Cons by (cases "readComment cs") auto
      obtain d ds where cs: "cs = d # ds" using r(2) by (cases cs) (simp_all add: readComment_def getNextChar_def NUL_def)
      have "\<exists>r'. readComment (normalizeEOL cs) = (True, normalizeEOL r') \<and> (r' = r \<or> r = LF # r')"
      proof (cases "d = CHR ''*''")
        case True
        then have "readCStyleComment ds = (True, r)" using r(2) cs by (simp add: readComment_def getNextChar_def)
        from readCStyleComment_normalizeEOL [OF this] show ?thesis using True cs
          by (auto simp: readComment_def getNextChar_def)
      next
        case not_star: False
        then have d: "d = CHR ''/''" "readCppStyleComment ds = (True, r)"
          using r(2) cs by (auto simp: readComment_def getNextChar_def split: if_splits)
        from readCppStyleComment_normalizeEOL [OF d(2)] show ?thesis using d(1) cs
          by (auto simp: readComment_def getNextChar_def)
      qed
      then obtain r' where r': "readComment (normalizeEOL cs) = (True, normalizeEOL r')" "r' = r \<or> r = LF # r'" by blast
      have "tidy r'" using r'(2) r(3) by (auto simp: is_space_def)
      moreover have "length r' < length s" using r'(2) length_readComment [of cs] r(2) Cons by auto
      ultimately have "tidy (normalizeEOL r')" by (rule less.hyps [rotated])
      then show ?thesis using Cons r(1) r'(1) by (simp add: is_space_def)
    qed
  qed simp
qed

lemma normalizeEOL_last: "s \<noteq> [] \<Longrightarrow> normalizeEOL s \<noteq> [] \<and> (last (normalizeEOL s) = CHR '' '' \<longrightarrow> last s = CHR '' '')"
proof (induction "length s" arbitrary: s rule: less_induct)
  case less
  then obtain c cs where s: "s = c # cs" by (cases s) auto
  let ?rest = "if c = CR \<and> deref cs = LF then tl cs else cs"
  have n: "normalizeEOL s = (if c = CR then LF else c) # normalizeEOL ?rest" by (simp add: s)
  show ?case
  proof (cases "?rest = []")
    case True
    then show ?thesis by (cases "c = CR") (simp_all only: n, simp_all add: s)
  next
    case False
    have "length ?rest < length s" by (simp add: s le_imp_less_Suc)
    with less.hyps False have "normalizeEOL ?rest \<noteq> [] \<and> (last (normalizeEOL ?rest) = CHR '' '' \<longrightarrow> last ?rest = CHR '' '')" by blast
    moreover have "last ?rest = last s" using False by (cases cs) (auto simp: s last_tl split: if_splits)
    ultimately show ?thesis by (metis last_ConsR n list.discI)
  qed
qed

section \<open>What is written around a value\<close>

text \<open>
  Comments the writer can write: tidy ones, and no blank at the end of one on the line of its value, which
  \<open>writeIndent\<close> takes for an indentation.
\<close>

definition neat :: "Collected \<Rightarrow> bool" where
  "neat C \<longleftrightarrow> (\<forall>e \<in> set (cm_comments C). tidy (snd e)
     \<and> (snd (fst e) = commentAfterOnSameLine \<longrightarrow> snd e \<noteq> [] \<and> last (snd e) \<noteq> CHR '' ''))"

lemma neat_comment:
  assumes "neat C" "hasComment C node p"
  shows "tidy (normalizeEOL (getComment C node p))"
    "p = commentAfterOnSameLine \<Longrightarrow> normalizeEOL (getComment C node p) \<noteq> []
      \<and> last (normalizeEOL (getComment C node p)) \<noteq> CHR '' ''"
proof -
  obtain s where "map_of (cm_comments C) (node, p) = Some s" using assms(2) by (auto simp: hasComment_def)
  then have "getComment C node p = s" "((node, p), s) \<in> set (cm_comments C)"
    by (auto simp: getComment_def dest: map_of_SomeD)
  then show "tidy (normalizeEOL (getComment C node p))"
    "p = commentAfterOnSameLine \<Longrightarrow> normalizeEOL (getComment C node p) \<noteq> []
      \<and> last (normalizeEOL (getComment C node p)) \<noteq> CHR '' ''"
    using assms(1) tidy_normalizeEOL [of s] normalizeEOL_last [of s] by (auto simp: neat_def)
qed

text \<open>A text that waits for a line end: the reader passes over it and the line end.\<close>

definition breaks :: "Features \<Rightarrow> string \<Rightarrow> bool" where
  "breaks F a \<longleftrightarrow> passes F (a @ [LF]) \<and> (a \<noteq> [] \<longrightarrow> last a \<noteq> CHR '' '') \<and> (a = [] \<or> last a = LF \<longrightarrow> passes F a)"

lemma passes_LF: "passes F [LF]"
  by (simp add: passes_blank is_space_def)

lemma breaks_Nil [simp]: "breaks F []"
  using passes_LF by (simp add: breaks_def passes_blank)

lemma breaks_lines: "passes F a \<Longrightarrow> a \<noteq> [] \<Longrightarrow> last a = LF \<Longrightarrow> breaks F a"
  using passes_append [OF _ passes_LF] by (simp add: breaks_def)

lemma write_comment_at:
  "at_depth d W \<Longrightarrow> write_comment s W = W\<lparr>document := document W @ indented (replicate d (CHR '' '')) s\<rparr>"
  by (induction s arbitrary: W) (simp_all add: append_text_def writeIndent_def at_depth_def Let_def)

lemma comment_before:
  assumes "neat C" "allowComments F" "at_depth d W"
  shows "\<exists>b. writeCommentBeforeValue C node W = W\<lparr>document := document W @ b\<rparr> \<and> (b = [] \<or> (\<exists>x. b = LF # x \<and> passes F x \<and> x \<noteq> [] \<and> last x = LF))"
proof (cases "hasComment C node commentBefore")
  case True
  let ?s = "indented (replicate d (CHR '' '')) (normalizeEOL (getComment C node commentBefore))"
  have i: "writeIndent (append_text [LF] W) = W\<lparr>document := document W @ LF # replicate d (CHR '' '')\<rparr>"
    using assms(3) by (simp add: writeIndent_def append_text_def at_depth_def)
  have "tidy ?s" using neat_comment(1) [OF assms(1) True] by (intro tidy_indented) simp_all
  then have "passes F (replicate d (CHR '' '') @ ?s @ [LF])"
    using assms(2) by (intro passes_append [OF passes_blank] passes_line) simp_all
  moreover have "writeCommentBeforeValue C node W = W\<lparr>document := document W @ LF # replicate d (CHR '' '') @ ?s @ [LF]\<rparr>"
    using True assms(3) write_comment_at [of d "W\<lparr>document := document W @ LF # replicate d (CHR '' '')\<rparr>"]
    by (simp add: writeCommentBeforeValue_def i [unfolded append_text_def] append_text_def)
  ultimately show ?thesis
    by (intro exI [of _ "LF # replicate d (CHR '' '') @ ?s @ [LF]"]) simp
qed (auto simp: writeCommentBeforeValue_def intro!: exI [of _ "[]"])

lemma breaks_before:
  assumes "breaks F a" "b = [] \<or> (\<exists>x. b = LF # x \<and> passes F x \<and> x \<noteq> [] \<and> last x = LF)"
  shows "breaks F (a @ b)"
  using assms(2)
proof
  assume "\<exists>x. b = LF # x \<and> passes F x \<and> x \<noteq> [] \<and> last x = LF"
  then obtain x where x: "b = LF # x" "passes F x" "x \<noteq> []" "last x = LF" by blast
  have "passes F (a @ [LF])" using assms(1) by (simp add: breaks_def)
  from passes_append [OF this x(2)] show ?thesis using x by (intro breaks_lines) simp_all
qed (use assms(1) in simp)

lemma comment_after:
  assumes "neat C" "allowComments F"
  shows "\<exists>a. writeCommentAfterValueOnSameLine C node W = W\<lparr>document := document W @ a\<rparr> \<and> breaks F a"
proof -
  let ?t = "normalizeEOL (getComment C node commentAfterOnSameLine)"
  define a where "a = (if hasComment C node commentAfterOnSameLine then CHR '' '' # ?t else [])"
  have a: "breaks F a"
  proof (cases "hasComment C node commentAfterOnSameLine")
    case True
    from neat_comment [OF assms(1) True] have t: "tidy (CHR '' '' # ?t)" "?t \<noteq> []" "last ?t \<noteq> CHR '' ''" by (simp_all add: is_space_def)
    with passes_tidy [OF t(1) assms(2)] passes_line [OF t(1) assms(2)] show ?thesis
      using True by (auto simp: a_def breaks_def)
  qed (simp add: a_def)
  show ?thesis
  proof (cases "hasComment C node commentAfter")
    case True
    let ?s = "normalizeEOL (getComment C node commentAfter)"
    have "passes F (?s @ [LF])" using neat_comment(1) [OF assms(1) True] assms(2) by (rule passes_line)
    then have "breaks F (a @ LF # ?s @ [LF])" using a by (intro breaks_before) auto
    then show ?thesis using True
      by (intro exI [of _ "a @ LF # ?s @ [LF]"]) (simp add: writeCommentAfterValueOnSameLine_def append_text_def a_def Let_def)
  next
    case False
    then show ?thesis using a
      by (intro exI [of _ a]) (simp add: writeCommentAfterValueOnSameLine_def append_text_def a_def Let_def)
  qed
qed

text \<open>A new line behind a text that ends, and what waits for the line end.\<close>

lemma indent_passes:
  assumes "at_depth d W" "document W = D @ a" "closes D" "breaks F a"
  shows "\<exists>f. writeIndent W = W\<lparr>document := D @ f\<rparr> \<and> passes F f \<and> (0 < d \<longrightarrow> f \<noteq> [] \<and> last f = CHR '' '')"
proof -
  let ?n = "(if last (D @ a) \<noteq> LF then [LF] else []) @ replicate d (CHR '' '')"
  have l: "last (D @ a) \<noteq> CHR '' ''" "D @ a \<noteq> []" using assms(3,4) by (auto simp: closes_def breaks_def last_append)
  then have "writeIndent W = W\<lparr>document := D @ a @ ?n\<rparr>"
    using assms(1,2) by (simp add: writeIndent_def append_text_def at_depth_def)
  moreover have "passes F (a @ ?n)"
  proof (cases "last (D @ a) = LF")
    case True
    then have "passes F a" using assms(3,4) by (cases "a = []") (auto simp: closes_def breaks_def)
    then show ?thesis using True passes_append [of F a "replicate d (CHR '' '')"] by (simp add: passes_blank)
  next
    case False
    then show ?thesis using assms(4) passes_append [of F "a @ [LF]" "replicate d (CHR '' '')"] by (simp add: breaks_def passes_blank)
  qed
  moreover have "0 < d \<longrightarrow> a @ ?n \<noteq> [] \<and> last (a @ ?n) = CHR '' ''" by simp
  ultimately show ?thesis by blast
qed

lemma lead_passes:
  assumes "neat C" "allowComments F" "at_depth d W" "document W = D @ a" "closes D" "breaks F a"
  shows "\<exists>f. writeIndent (writeCommentBeforeValue C node W) = W\<lparr>document := D @ f\<rparr> \<and> passes F f
    \<and> (0 < d \<longrightarrow> f \<noteq> [] \<and> last f = CHR '' '')"
proof -
  obtain b where b: "writeCommentBeforeValue C node W = W\<lparr>document := document W @ b\<rparr>"
    "b = [] \<or> (\<exists>x. b = LF # x \<and> passes F x \<and> x \<noteq> [] \<and> last x = LF)"
    using comment_before [OF assms(1-3)] by blast
  show ?thesis
    using indent_passes [of d "W\<lparr>document := D @ a @ b\<rparr>" D "a @ b" F] breaks_before [OF assms(6) b(2)] assms(3,5)
    by (simp add: b(1) assms(4))
qed

lemma opens_passes:
  assumes "passes F f" "opens t"
  shows "opens (f @ t)"
proof (rule ccontr)
  assume "\<not> opens (f @ t)"
  then have "\<exists>ws cs. f = ws @ CHR '']'' # cs \<and> blank ws"
    using assms(2)
  proof (induction f)
    case (Cons c f)
    show ?case
    proof (cases "is_space c")
      case True
      with Cons obtain ws cs where "f = ws @ CHR '']'' # cs" "blank ws" by auto
      with True show ?thesis by (intro exI [of _ "c # ws"] exI [of _ cs]) simp
    next
      case False
      with Cons.prems show ?thesis by (intro exI [of _ "[]"] exI [of _ f]) auto
    qed
  qed simp
  then obtain ws cs where f: "f = ws @ CHR '']'' # cs" "blank ws" by blast
  have "skip_comments f = skip_comments []" using skip_passes [OF assms(1), of "[]"] by simp
  then have "readToken (CHR '']'' # cs) = skip_comments []" by (simp add: f skip_blank)
  then have "tok_type (skip_comments []) = tokenArrayEnd" by (metis Token.select_convs(1) readToken_punctuation)
  moreover have "tok_type (skip_comments []) = tokenEndOfStream"
    by (simp add: not_comment readToken_Nil skipSpaces_def)
  ultimately show False by simp
qed

section \<open>The writer and the reader\<close>

lemma commented_flat: "\<not> nested v \<Longrightarrow> c_styled_value L C node v W = styled_value L v W"
  by (cases v)
    (auto simp: c_styled_value.simps styled_value.simps c_writeArrayValue.simps StyledWriter.writeArrayValue.simps nested_def
      isArray_def isObject_def Value_size_def split: if_splits)

lemma commented_children:
  "\<forall>i \<in> set is. \<not> nested (item_at m i) \<Longrightarrow> c_collect_children L C node m is k W = collect_children L m is k W"
  by (induction "is" arbitrary: k W) (auto simp: commented_flat split: sum.split)

lemma commented_multi: "c_isMultineArray L C node m W = StyledWriter.isMultineArray L m W"
  by (subst c_isMultineArray.simps, subst StyledWriter.isMultineArray.simps) (auto simp: commented_children Let_def split: sum.split)

text \<open>What the writer adds for a value between two others is read as the value.\<close>

definition writes_readable :: "clib \<Rightarrow> Collected \<Rightarrow> Features \<Rightarrow> nat \<Rightarrow> node \<Rightarrow> Value \<Rightarrow> bool" where
  "writes_readable L C F d node v \<longleftrightarrow> (\<forall>W. at_depth d W \<and> writeIndent W = W
     \<longrightarrow> (\<exists>t cv. c_styled_value L C node v W = Inr (W\<lparr>document := document W @ t, childValues := cv\<rparr>)
           \<and> closes t \<and> opens t \<and> reads L F t (reread v)))"

lemma writes_readableD:
  assumes "writes_readable L C F d node v" "at_depth d W" "writeIndent W = W"
  shows "\<exists>t cv. c_styled_value L C node v W = Inr (W\<lparr>document := document W @ t, childValues := cv\<rparr>)
     \<and> closes t \<and> opens t \<and> reads L F t (reread v)"
  using assms by (simp add: writes_readable_def)

lemma update_order: "W\<lparr>childValues := cv, document := s\<rparr> = W\<lparr>document := s, childValues := cv\<rparr>"
  by simp

text \<open>The text of a member or an element: what is passed over, and the text of the value.\<close>

abbreviation member_text :: "string \<times> string \<times> string \<times> Value \<Rightarrow> string" where
  "member_text \<equiv> \<lambda>(k, x). fst x @ valueToQuotedString k @ '' '' @ '':'' @ '' '' @ fst (snd x)"

definition member_read :: "clib \<Rightarrow> Features \<Rightarrow> (string, Value) omap \<Rightarrow> string \<times> string \<times> string \<times> Value \<Rightarrow> bool" where
  "member_read L F m e \<longleftrightarrow> (case e of (k, f, t, v) \<Rightarrow> passes F f \<and> reads L F t v \<and> v = reread (named_at m k))"

lemma commented_members:
  assumes "neat C" "allowComments F" "\<forall>k \<in> set names. writes_readable L C F d (node @ [Inl k]) (named_at m k)"
    and "names \<noteq> []" "at_depth d W" "0 < d" "document W = D @ a" "closes D" "breaks F a"
  shows "\<exists>ms z cv. c_styled_members L C node m names W
      = Inr (W\<lparr>document := D @ separated '','' (map member_text ms) @ z, childValues := cv\<rparr>)
    \<and> map fst ms = names \<and> (\<forall>e \<in> set ms. member_read L F m e)
    \<and> closes (separated '','' (map member_text ms)) \<and> breaks F z"
  using assms(3-5,7-9)
proof (induction names arbitrary: W D a)
  case (Cons k names)
  let ?child = "node @ [Inl k]"
  obtain f where f: "writeIndent (writeCommentBeforeValue C ?child W) = W\<lparr>document := D @ f\<rparr>" "passes F f"
    using lead_passes [OF assms(1,2) Cons.prems(3) Cons.prems(4-6)] by blast
  let ?W1 = "W\<lparr>document := D @ f @ valueToQuotedString k @ '' : ''\<rparr>"
  have w: "append_text '' : '' (writeWithIndent (valueToQuotedString k) (writeCommentBeforeValue C ?child W)) = ?W1"
    by (simp add: writeWithIndent_def f(1) append_text_def)
  have "writeIndent ?W1 = ?W1" by (rule writeIndent_settled) simp_all
  then obtain t cv where t: "c_styled_value L C ?child (named_at m k) ?W1 = Inr (?W1\<lparr>document := document ?W1 @ t, childValues := cv\<rparr>)"
    "closes t" "reads L F t (reread (named_at m k))"
    using writes_readableD [of L C F d ?child "named_at m k" ?W1] Cons.prems(1,3) by auto
  let ?e = "(k, f, t, reread (named_at m k))"
  have e: "member_read L F m ?e" using f(2) t(3) by (simp add: member_read_def)
  have c: "closes (member_text ?e)" using t(2) closes_append [of t "f @ valueToQuotedString k @ '' : ''"] by simp
  show ?case
  proof (cases "names = []")
    case True
    obtain z where "writeCommentAfterValueOnSameLine C ?child (?W1\<lparr>document := document ?W1 @ t, childValues := cv\<rparr>)
        = W\<lparr>document := D @ member_text ?e @ z, childValues := cv\<rparr>" "breaks F z"
      using comment_after [OF assms(1,2), of ?child "?W1\<lparr>document := document ?W1 @ t, childValues := cv\<rparr>"] by (auto simp: update_order)
    then show ?thesis using True t(1) e c
      by (intro exI [of _ "[?e]"] exI [of _ z] exI [of _ cv]) (simp add: w separated_simps Let_def)
  next
    case False
    let ?D = "D @ member_text ?e @ '',''"
    obtain z where z: "writeCommentAfterValueOnSameLine C ?child (append_text '','' (?W1\<lparr>document := document ?W1 @ t, childValues := cv\<rparr>))
        = W\<lparr>document := ?D @ z, childValues := cv\<rparr>" "breaks F z"
      using comment_after [OF assms(1,2), of ?child "append_text '','' (?W1\<lparr>document := document ?W1 @ t, childValues := cv\<rparr>)"]
      by (auto simp: append_text_def update_order)
    have "closes ?D" by (simp add: closes_def)
    let ?W2 = "W\<lparr>document := ?D @ z, childValues := cv\<rparr>"
    have W2: "?W2\<lparr>document := s, childValues := cv'\<rparr> = W\<lparr>document := s, childValues := cv'\<rparr>" for s cv' by simp
    have "\<exists>ms z' cv'. c_styled_members L C node m names ?W2
        = Inr (?W2\<lparr>document := ?D @ separated '','' (map member_text ms) @ z', childValues := cv'\<rparr>)
      \<and> map fst ms = names \<and> (\<forall>e \<in> set ms. member_read L F m e)
      \<and> closes (separated '','' (map member_text ms)) \<and> breaks F z'"
      using Cons.prems(1,3) False z(2) \<open>closes ?D\<close> by (intro Cons.IH) simp_all
    then obtain ms z' cv' where r: "c_styled_members L C node m names ?W2
        = Inr (W\<lparr>document := ?D @ separated '','' (map member_text ms) @ z', childValues := cv'\<rparr>)"
      "map fst ms = names" "\<forall>e \<in> set ms. member_read L F m e" "closes (separated '','' (map member_text ms))" "breaks F z'"
      unfolding W2 by blast
    have "ms \<noteq> []" using r(2) False by auto
    then have s: "separated '','' (map member_text (?e # ms)) = member_text ?e @ '','' @ separated '','' (map member_text ms)"
      by (simp add: separated_simps)
    have "closes (separated '','' (map member_text (?e # ms)))"
      unfolding s using closes_append [OF r(4), of "member_text ?e @ '',''"] by simp
    moreover have "c_styled_members L C node m (k # names) W
        = Inr (W\<lparr>document := D @ separated '','' (map member_text (?e # ms)) @ z', childValues := cv'\<rparr>)"
      unfolding s using t(1) z(1) r(1) False by (simp add: w Let_def)
    ultimately show ?thesis using e r(2,3,5)
      by (intro exI [of _ "?e # ms"] exI [of _ z'] exI [of _ cv']) simp
  qed
qed simp

definition item_read :: "clib \<Rightarrow> Features \<Rightarrow> (nat, Value) omap \<Rightarrow> nat \<times> string \<times> Value \<Rightarrow> bool" where
  "item_read L F m e \<longleftrightarrow> (case e of (i, t, v) \<Rightarrow> reads L F t v \<and> opens t \<and> v = reread (item_at m i))"

abbreviation item_text :: "nat \<times> string \<times> Value \<Rightarrow> string" where
  "item_text \<equiv> \<lambda>e. fst (snd e)"

lemma commented_items:
  assumes "neat C" "allowComments F" "\<forall>i \<in> set is. writes_readable L C F d (node @ [Inr i]) (item_at m i)"
    and "is \<noteq> []" "at_depth d W" "0 < d" "document W = D @ a" "closes D" "breaks F a"
    and "hasChild \<longrightarrow> childValues W = map (\<lambda>i. flat L (item_at m i)) [0 ..< n]
      \<and> (\<forall>i \<in> set is. i < n \<and> \<not> nested (item_at m i) \<and> plain (item_at m i))"
  shows "\<exists>ms z cv. c_styled_items L C node m hasChild is W
      = Inr (W\<lparr>document := D @ separated '','' (map item_text ms) @ z, childValues := cv\<rparr>)
    \<and> map fst ms = is \<and> (\<forall>e \<in> set ms. item_read L F m e) \<and> closes (separated '','' (map item_text ms)) \<and> breaks F z"
  using assms(3-5,7-10)
proof (induction "is" arbitrary: W D a)
  case (Cons i rest)
  let ?child = "node @ [Inr i]"
  let ?V = "writeCommentBeforeValue C ?child W"
  obtain f where f: "writeIndent ?V = W\<lparr>document := D @ f\<rparr>" "passes F f" "f \<noteq> []" "last f = CHR '' ''"
    using lead_passes [OF assms(1,2) Cons.prems(3) Cons.prems(4-6)] assms(6) by blast
  have V: "childValues ?V = childValues W" using comment_before [OF assms(1,2) Cons.prems(3), of ?child] by auto
  let ?step = "if hasChild
    then if i < length (childValues ?V) then Inr (writeWithIndent (childValues ?V ! i) ?V) else Inl OutOfBounds
    else c_styled_value L C ?child (item_at m i) (writeIndent ?V)"
  obtain t cv where t: "?step = Inr (W\<lparr>document := D @ f @ t, childValues := cv\<rparr>)" "closes t" "opens t"
    "reads L F t (reread (item_at m i))" "hasChild \<longrightarrow> cv = childValues W"
  proof (cases hasChild)
    case True
    then have p: "\<not> nested (item_at m i)" "plain (item_at m i)" using Cons.prems(7) by simp_all
    have "?step = Inr (W\<lparr>document := D @ f @ flat L (item_at m i), childValues := childValues W\<rparr>)"
      using True Cons.prems(7) by (simp add: V writeWithIndent_def f(1) append_text_def)
    then show thesis
    proof (rule that)
      show "closes (flat L (item_at m i))" "opens (flat L (item_at m i))"
        "reads L F (flat L (item_at m i)) (reread (item_at m i))"
        using closes_flat opens_written reads_written p(2) by (simp_all add: new_FastWriter_def)
    qed simp
  next
    case False
    let ?W1 = "W\<lparr>document := D @ f\<rparr>"
    have "writeIndent ?W1 = ?W1" using f(3,4) by (intro writeIndent_settled) simp_all
    then show thesis using that writes_readableD [of L C F d ?child "item_at m i" ?W1] Cons.prems(1,3) False
      by (auto simp: f(1))
  qed
  let ?e = "(i, f @ t, reread (item_at m i))"
  have e: "item_read L F m ?e"
    using reads_passes [OF f(2) t(4)] opens_passes [OF f(2) t(3)] by (simp add: item_read_def)
  have c: "closes (item_text ?e)" using t(2) by simp
  show ?case
  proof (cases "rest = []")
    case True
    obtain z where "writeCommentAfterValueOnSameLine C ?child (W\<lparr>document := D @ f @ t, childValues := cv\<rparr>)
        = W\<lparr>document := D @ item_text ?e @ z, childValues := cv\<rparr>" "breaks F z"
      using comment_after [OF assms(1,2), of ?child "W\<lparr>document := D @ f @ t, childValues := cv\<rparr>"] by (auto simp: update_order)
    then show ?thesis using True t(1) e c
      by (intro exI [of _ "[?e]"] exI [of _ z] exI [of _ cv]) (simp add: separated_simps Let_def)
  next
    case False
    let ?D = "D @ item_text ?e @ '',''"
    obtain z where z: "writeCommentAfterValueOnSameLine C ?child (append_text '','' (W\<lparr>document := D @ f @ t, childValues := cv\<rparr>))
        = W\<lparr>document := ?D @ z, childValues := cv\<rparr>" "breaks F z"
      using comment_after [OF assms(1,2), of ?child "append_text '','' (W\<lparr>document := D @ f @ t, childValues := cv\<rparr>)"]
      by (auto simp: append_text_def update_order)
    have "closes ?D" by (simp add: closes_def)
    let ?W2 = "W\<lparr>document := ?D @ z, childValues := cv\<rparr>"
    have W2: "?W2\<lparr>document := s, childValues := cv'\<rparr> = W\<lparr>document := s, childValues := cv'\<rparr>" for s cv' by simp
    have "\<exists>ms z' cv'. c_styled_items L C node m hasChild rest ?W2
        = Inr (?W2\<lparr>document := ?D @ separated '','' (map item_text ms) @ z', childValues := cv'\<rparr>)
      \<and> map fst ms = rest \<and> (\<forall>e \<in> set ms. item_read L F m e)
      \<and> closes (separated '','' (map item_text ms)) \<and> breaks F z'"
      using Cons.prems(1,3,7) False z(2) t(5) \<open>closes ?D\<close> by (intro Cons.IH) simp_all
    then obtain ms z' cv' where r: "c_styled_items L C node m hasChild rest ?W2
        = Inr (W\<lparr>document := ?D @ separated '','' (map item_text ms) @ z', childValues := cv'\<rparr>)"
      "map fst ms = rest" "\<forall>e \<in> set ms. item_read L F m e" "closes (separated '','' (map item_text ms))" "breaks F z'"
      unfolding W2 by blast
    have "ms \<noteq> []" using r(2) False by auto
    then have s: "separated '','' (map item_text (?e # ms)) = item_text ?e @ '','' @ separated '','' (map item_text ms)"
      by (simp add: separated_simps)
    have "closes (separated '','' (map item_text (?e # ms)))"
      unfolding s using closes_append [OF r(4), of "item_text ?e @ '',''"] by simp
    moreover have "c_styled_items L C node m hasChild (i # rest) W
        = Inr (W\<lparr>document := D @ separated '','' (map item_text (?e # ms)) @ z', childValues := cv'\<rparr>)"
      unfolding s using t(1) z(1) r(1) False by (simp add: Let_def)
    ultimately show ?thesis using e r(2,3,5)
      by (intro exI [of _ "?e # ms"] exI [of _ z'] exI [of _ cv']) simp
  qed
qed simp

lemma close_commented:
  assumes "at_depth d W" "writeIndent W = W" "closes s" "closes body" "breaks F z"
  shows "\<exists>f. map_sum (\<lambda>e. e) (writeWithIndent t)
      (unindent ((indent (writeWithIndent s W))\<lparr>document := (document W @ s) @ body @ z, childValues := cv\<rparr>))
    = Inr (W\<lparr>document := document W @ s @ body @ f @ t, childValues := cv\<rparr>) \<and> passes F f"
proof -
  let ?W = "(indent (writeWithIndent s W))\<lparr>document := (document W @ s) @ body @ z, childValues := cv\<rparr>"
  let ?V = "W\<lparr>document := document W @ s @ body @ z, childValues := cv\<rparr>"
  have "indentString W = replicate d (CHR '' '')" using assms(1) by (simp add: at_depth_def)
  then have "?W\<lparr>indentString := replicate d (CHR '' '')\<rparr> = ?V"
    using assms(2) by (cases W) (simp add: indent_def writeWithIndent_def append_text_def)
  moreover have "at_depth (d + 3) ?W" using open_container(1) [OF assms(1-3)] by simp
  ultimately have "unindent ?W = Inr ?V" using unindent_at_depth by metis
  moreover obtain f where "writeIndent ?V = ?V\<lparr>document := (document W @ s @ body) @ f\<rparr>" "passes F f"
    using indent_passes [of d ?V "document W @ s @ body" z F] assms(1,4,5) by auto
  ultimately show ?thesis by (intro exI [of _ f]) (simp add: writeWithIndent_def append_text_def)
qed

lemma members_reread:
  assumes "omap_of m" "map fst ms = map fst m" "\<forall>e \<in> set ms. member_read L F m e"
  shows "map (\<lambda>(k, x). (k, snd (snd x))) ms = map (\<lambda>(k, x). (k, reread x)) m"
proof -
  have "map (\<lambda>(k, x). (k, snd (snd x))) ms = map (\<lambda>k. (k, reread (named_at m k))) (map fst ms)"
    using assms(3) by (auto simp: member_read_def)
  also have "\<dots> = map (\<lambda>(k, x). (k, reread x)) m"
    using named_members [OF assms(1)] by (auto simp: assms(2))
  finally show ?thesis .
qed

lemma members_make_object:
  assumes "plain (objectValue m)" "map fst ms = map fst m" "\<forall>e \<in> set ms. member_read L F m e" "passes F f"
  shows "reads L F (''{'' @ separated '','' (map member_text ms) @ f @ ''}'') (reread (objectValue m))"
proof -
  have o: "omap_of m" using assms(1) by simp
  have "omap_of ms" using o assms(2) by (simp add: omap_of_def)
  moreover have "\<forall>(k, x) \<in> set ms. NUL \<notin> set k \<and> reads L F (fst (snd x)) (snd (snd x))"
  proof -
    have "NUL \<notin> set k" if "k \<in> set (map fst ms)" for k using that assms(1) unfolding assms(2) by auto
    then show ?thesis using assms(3) by (fastforce simp: member_read_def)
  qed
  moreover have "\<forall>(k, x) \<in> set ms. passes F (fst x)" using assms(3) by (auto simp: member_read_def)
  ultimately have "reads L F (''{'' @ separated '','' (map member_text ms) @ f @ ''}'') (objectValue (map (\<lambda>(k, x). (k, snd (snd x))) ms))"
    using assms(4) reads_object [where m = ms and w = "\<lambda>x. fst (snd x)" and f = "\<lambda>x. snd (snd x)" and pre = fst and mid = "'' ''" and sp = "'' ''" and ws = f]
    by (simp add: is_space_def)
  then show ?thesis by (simp only: members_reread [OF o assms(2,3)] reread.simps)
qed

lemma items_reread:
  assumes "map fst m = [0 ..< length m]" "map fst ms = [0 ..< Value_size (arrayValue m)]" "\<forall>e \<in> set ms. item_read L F m e"
  shows "map (\<lambda>(i, x). (i, snd x)) ms = map (\<lambda>(i, x). (i, reread x)) m" "map fst ms = map fst m"
proof -
  have n: "Value_size (arrayValue m) = length m" using dense_items [OF assms(1), of "\<lambda>x. ()"] map_eq_imp_length_eq by fastforce
  then show f: "map fst ms = map fst m" using assms(1,2) by simp
  have "map (\<lambda>(i, x). (i, snd x)) ms = zip (map fst ms) (map (\<lambda>i. reread (item_at m i)) (map fst ms))"
    using assms(3) by (induction ms) (auto simp: item_read_def)
  also have "map (\<lambda>i. reread (item_at m i)) (map fst ms) = map (\<lambda>p. reread (snd p)) m"
    using dense_items [OF assms(1), of reread] assms(2) by simp
  also have "zip (map fst ms) (map (\<lambda>p. reread (snd p)) m) = map (\<lambda>(i, x). (i, reread x)) m"
    unfolding f by (induction m) auto
  finally show "map (\<lambda>(i, x). (i, snd x)) ms = map (\<lambda>(i, x). (i, reread x)) m" .
qed

lemma items_make_array:
  assumes "plain (arrayValue m)" "nested (arrayValue m)" "map fst ms = [0 ..< Value_size (arrayValue m)]"
    and "\<forall>e \<in> set ms. item_read L F m e" "passes F f"
  shows "reads L F (''['' @ separated '','' (map item_text ms) @ f @ '']'') (reread (arrayValue m))"
proof -
  have dense: "map fst m = [0 ..< length m]" using assms(1) by simp
  note same = items_reread [OF dense assms(3,4)]
  have l: "length ms = length m" using same(2) by (metis length_map)
  then have "map fst ms = [0 ..< length ms]" using same(2) dense by simp
  moreover have "\<forall>(i, x) \<in> set ms. reads L F (fst x) (snd x) \<and> opens (fst x)" using assms(4) by (auto simp: item_read_def)
  moreover have "ms \<noteq> []" using l assms(2) by (auto simp: nested_def Value_size_def)
  ultimately have "reads L F (''['' @ separated '','' (map item_text ms) @ f @ '']'') (arrayValue (map (\<lambda>(i, x). (i, snd x)) ms))"
    using assms(5) reads_array [where m = ms and w = fst and f = snd and pre = "[]" and ws = f] by simp
  then show ?thesis by (simp only: same(1) reread.simps)
qed

lemma writes_object:
  assumes "neat C" "allowComments F" "plain (objectValue m)" "nested (objectValue m)"
    and "\<forall>k \<in> set (map fst m). writes_readable L C F (d + 3) (node @ [Inl k]) (named_at m k)"
  shows "writes_readable L C F d node (objectValue m)"
  unfolding writes_readable_def
proof (intro allI impI)
  fix W assume "at_depth d W \<and> writeIndent W = W"
  then have W: "at_depth d W" "writeIndent W = W" by simp_all
  let ?W = "indent (writeWithIndent ''{'' W)"
  have c: "closes ''{''" "map fst m \<noteq> []" "closes (document W @ ''{'')"
    using assms(4) by (auto simp: closes_def nested_def isArray_def isObject_def Value_size_def)
  have d: "0 < d + 3" and D: "document ?W = (document W @ ''{'') @ []" by (simp_all add: open_container(2) [OF W c(1)])
  obtain ms z cv where r: "c_styled_members L C node m (map fst m) ?W
      = Inr (?W\<lparr>document := (document W @ ''{'') @ separated '','' (map member_text ms) @ z, childValues := cv\<rparr>)"
    "map fst ms = map fst m" "\<forall>e \<in> set ms. member_read L F m e" "closes (separated '','' (map member_text ms))" "breaks F z"
    using commented_members [OF assms(1,2,5) c(2) open_container(1) [OF W c(1)] d D c(3) breaks_Nil] by blast
  obtain f where f: "map_sum (\<lambda>e. e) (writeWithIndent ''}'')
      (unindent (?W\<lparr>document := (document W @ ''{'') @ separated '','' (map member_text ms) @ z, childValues := cv\<rparr>))
    = Inr (W\<lparr>document := document W @ ''{'' @ separated '','' (map member_text ms) @ f @ ''}'', childValues := cv\<rparr>)" "passes F f"
    using close_commented [OF W c(1) r(4,5), of "''}''" cv] by blast
  from members_make_object [OF assms(3) r(2,3) f(2)]
  have "reads L F (''{'' @ separated '','' (map member_text ms) @ f @ ''}'') (reread (objectValue m))" .
  moreover have "c_styled_value L C node (objectValue m) W
      = Inr (W\<lparr>document := document W @ ''{'' @ separated '','' (map member_text ms) @ f @ ''}'', childValues := cv\<rparr>)"
    using c(2) r(1) f(1) by (simp add: c_styled_value.simps)
  ultimately show "\<exists>t cv. c_styled_value L C node (objectValue m) W = Inr (W\<lparr>document := document W @ t, childValues := cv\<rparr>)
      \<and> closes t \<and> opens t \<and> reads L F t (reread (objectValue m))"
    by (intro exI [of _ "''{'' @ separated '','' (map member_text ms) @ f @ ''}''"] exI [of _ cv]) (simp add: closes_def is_space_def)
qed

lemma writes_lines:
  assumes "neat C" "allowComments F" "plain (arrayValue m)" "nested (arrayValue m)" "multi_line L m"
    and "\<forall>i \<in> set [0 ..< Value_size (arrayValue m)]. plain (item_at m i) \<and> writes_readable L C F (d + 3) (node @ [Inr i]) (item_at m i)"
  shows "writes_readable L C F d node (arrayValue m)"
  unfolding writes_readable_def
proof (intro allI impI)
  fix W assume "at_depth d W \<and> writeIndent W = W"
  then have W: "at_depth d W" "writeIndent W = W" by simp_all
  let ?is = "[0 ..< Value_size (arrayValue m)]"
  have n: "Value_size (arrayValue m) \<noteq> 0" using assms(4) by (simp add: nested_def)
  obtain cv where cv: "c_isMultineArray L C node m W = Inr (True, W\<lparr>childValues := cv\<rparr>)"
    "cv = [] \<or> cv = map (\<lambda>i. flat L (item_at m i)) ?is \<and> (\<forall>i < Value_size (arrayValue m). \<not> nested (item_at m i))"
    using isMultineArray_result [of W L m] W(1) assms(5) by (auto simp: at_depth_def commented_multi)
  let ?V = "W\<lparr>childValues := cv\<rparr>"
  have V: "at_depth d ?V" "writeIndent ?V = ?V" using W by (simp_all add: writeIndent_childValues)
  let ?W = "indent (writeWithIndent ''['' ?V)"
  have c: "closes ''[''" "?is \<noteq> []" "closes (document ?V @ ''['')" using n by (auto simp: closes_def)
  have h: "childValues ?V \<noteq> [] \<longrightarrow> childValues ?W = map (\<lambda>i. flat L (item_at m i)) ?is
      \<and> (\<forall>i \<in> set ?is. i < Value_size (arrayValue m) \<and> \<not> nested (item_at m i) \<and> plain (item_at m i))"
    using cv(2) assms(6) by (auto simp: open_container(3) [OF V c(1)])
  have w: "\<forall>i \<in> set ?is. writes_readable L C F (d + 3) (node @ [Inr i]) (item_at m i)" using assms(6) by blast
  have d: "0 < d + 3" and D: "document ?W = (document ?V @ ''['') @ []" by (simp_all add: open_container(2) [OF V c(1)])
  obtain ms z cv' where r: "c_styled_items L C node m (childValues ?V \<noteq> []) ?is ?W
      = Inr (?W\<lparr>document := (document ?V @ ''['') @ separated '','' (map item_text ms) @ z, childValues := cv'\<rparr>)"
    "map fst ms = ?is" "\<forall>e \<in> set ms. item_read L F m e" "closes (separated '','' (map item_text ms))" "breaks F z"
    using commented_items [OF assms(1,2) w c(2) open_container(1) [OF V c(1)] d D c(3) breaks_Nil h] by blast
  obtain f where f: "map_sum (\<lambda>e. e) (writeWithIndent '']'')
      (unindent (?W\<lparr>document := (document ?V @ ''['') @ separated '','' (map item_text ms) @ z, childValues := cv'\<rparr>))
    = Inr (?V\<lparr>document := document ?V @ ''['' @ separated '','' (map item_text ms) @ f @ '']'', childValues := cv'\<rparr>)" "passes F f"
    using close_commented [OF V c(1) r(4,5), of "'']''" cv'] by blast
  from items_make_array [OF assms(3,4) r(2,3) f(2)]
  have "reads L F (''['' @ separated '','' (map item_text ms) @ f @ '']'') (reread (arrayValue m))" .
  moreover have "c_styled_value L C node (arrayValue m) W
      = Inr (W\<lparr>document := document W @ ''['' @ separated '','' (map item_text ms) @ f @ '']'', childValues := cv'\<rparr>)"
    using n cv(1) r(1) f(1) by (simp add: c_styled_value.simps c_writeArrayValue.simps Let_def)
  ultimately show "\<exists>t cv. c_styled_value L C node (arrayValue m) W = Inr (W\<lparr>document := document W @ t, childValues := cv\<rparr>)
      \<and> closes t \<and> opens t \<and> reads L F t (reread (arrayValue m))"
    by (intro exI [of _ "''['' @ separated '','' (map item_text ms) @ f @ '']''"] exI [of _ cv']) (simp add: closes_def is_space_def)
qed

text \<open>What is written on one line is what is written without comments.\<close>

lemma one_line_uncommented:
  assumes "at_depth d W" "\<not> multi_line L m"
  shows "c_styled_value L C node (arrayValue m) W = styled_value L (arrayValue m) W"
proof -
  obtain cv where "StyledWriter.isMultineArray L m W = Inr (False, W\<lparr>childValues := cv\<rparr>)"
    using isMultineArray_result [of W L m] assms by (auto simp: at_depth_def)
  then show ?thesis
    by (simp add: c_styled_value.simps styled_value.simps c_writeArrayValue.simps StyledWriter.writeArrayValue.simps commented_multi Let_def)
qed

lemma writes_readable_plain: "plain v \<Longrightarrow> neat C \<Longrightarrow> allowComments F \<Longrightarrow> writes_readable L C F d node v"
proof (induction "size v" arbitrary: v d node rule: less_induct)
  case less
  have ih: "writes_readable L C F e p x" if "(k, x) \<in> set m" "size x < size v" "plain x" for e p k x and m :: "('k \<times> Value) list"
    using less that by blast
  have u: "writes_readable L C F d node v" if "\<And>W. at_depth d W \<Longrightarrow> c_styled_value L C node v W = styled_value L v W"
    using that writes_plain [OF less.prems(1), of L d] styled.opens_text [OF less.prems(1) TrueI, of L d]
      styled.reads_text [OF less.prems(1) TrueI, of L F d]
    by (fastforce simp: writes_readable_def writes_def)
  show ?case
  proof (cases "nested v")
    case False
    then show ?thesis by (intro u commented_flat)
  next
    case True
    then consider m where "v = objectValue m" | m where "v = arrayValue m" "multi_line L m" | m where "v = arrayValue m" "\<not> multi_line L m"
      by (cases v) (auto simp: nested_def isArray_def isObject_def)
    then show ?thesis
    proof cases
      case (1 m)
      have o: "omap_of m" using less.prems(1) 1 by simp
      have "\<forall>(k, x) \<in> set m. writes_readable L C F (d + 3) (node @ [Inl k]) x"
        using ih less.prems(1) 1 size_in_map [of _ _ m] by (fastforce simp: size_prod_simp)
      then have "\<forall>k \<in> set (map fst m). writes_readable L C F (d + 3) (node @ [Inl k]) (named_at m k)"
        using named_members [OF o] by fastforce
      then show ?thesis using less.prems True 1 by (simp add: writes_object)
    next
      case (2 m)
      have dense: "map fst m = [0 ..< length m]" using less.prems(1) 2 by simp
      have "\<forall>(i, x) \<in> set m. plain x \<and> (\<forall>p. writes_readable L C F (d + 3) p x)"
        using ih less.prems(1) 2 size_in_map [of _ _ m] by (fastforce simp: size_prod_simp)
      then have "\<forall>b \<in> set (map (\<lambda>i. plain (item_at m i) \<and> (\<forall>p. writes_readable L C F (d + 3) p (item_at m i)))
          [0 ..< Value_size (arrayValue m)]). b"
        unfolding dense_items [OF dense, of "\<lambda>x. plain x \<and> (\<forall>p. writes_readable L C F (d + 3) p x)"] by auto
      then show ?thesis using less.prems True 2 by (intro writes_lines [of C F m L d node, folded 2(1)]) auto
    next
      case (3 m)
      then show ?thesis using one_line_uncommented by (intro u) simp
    qed
  qed
qed

text \<open>
  C19: The styled text means the same, comments and all. Whatever value without doubles the program
  builds, and whatever neat comments its values carry, the styled writer finishes without failing an
  assertion or leaving an array; a reader that allows comments makes of the text what it makes of the
  text of \<open>FastWriter\<close>, the value that was written. Without comments the text is that of
  \<open>toStyledString\<close>, and every reader reads it so.
\<close>
theorem commented_text_equivalent:
  assumes "plain v" "neat C" "allowComments F \<or> cm_comments C = []" "strictRoot F \<longrightarrow> isArray v \<or> isObject v"
  shows "\<exists>s. StyledWriter_write_comments L C v = Inr s
    \<and> Reader_parse L F s root = Reader_parse L F (FastWriter_write L new_FastWriter v) root
    \<and> Reader_parse L F s root = Some (True, reread v, [])
    \<and> (cm_comments C = [] \<longrightarrow> toStyledString L v = Inr s)"
proof (cases "cm_comments C = []")
  case True
  then show ?thesis using styled_text_equivalent [OF assms(1,4), of L root] by (auto simp: written_uncommented)
next
  case False
  then have F: "allowComments F" using assms(3) by simp
  have n: "at_depth 0 new_StyledWriter" by (simp add: at_depth_def new_StyledWriter_def)
  obtain b where b: "writeCommentBeforeValue C [] new_StyledWriter = new_StyledWriter\<lparr>document := b\<rparr>" "b = [] \<or> last b = LF" "passes F b"
    using comment_before [OF assms(2) F n, of "[]"] passes_append [OF passes_LF]
    by (fastforce simp: new_StyledWriter_def passes_blank)
  have "at_depth 0 (new_StyledWriter\<lparr>document := b\<rparr>)" "writeIndent (new_StyledWriter\<lparr>document := b\<rparr>) = new_StyledWriter\<lparr>document := b\<rparr>"
    using n at_depth_text(1) b(2) by (auto simp: writeIndent_def append_text_def new_StyledWriter_def at_depth_def)
  then obtain t cv where t: "c_styled_value L C [] v (new_StyledWriter\<lparr>document := b\<rparr>)
      = Inr (new_StyledWriter\<lparr>document := b @ t, childValues := cv\<rparr>)" "reads L F t (reread v)"
    using writes_readableD [OF writes_readable_plain [OF assms(1,2) F, where L = L and d = 0 and node = "[]"],
        of "new_StyledWriter\<lparr>document := b\<rparr>"] by auto
  obtain a where a: "writeCommentAfterValueOnSameLine C [] (new_StyledWriter\<lparr>document := b @ t, childValues := cv\<rparr>)
      = new_StyledWriter\<lparr>document := (b @ t) @ a, childValues := cv\<rparr>" "breaks F a"
    using comment_after [OF assms(2) F, of "[]" "new_StyledWriter\<lparr>document := b @ t, childValues := cv\<rparr>"] by (auto simp: update_order)
  have "StyledWriter_write_comments L C v = Inr ((b @ t) @ a @ [LF])"
    by (simp add: StyledWriter_write_comments_def b(1) t(1) a(1) append_text_def)
  moreover have "delim (a @ [LF])" using a(2) delim_passes [of F "a @ [LF]" "[]"] by (simp add: breaks_def)
  then have "Reader_parse L F ((b @ t) @ a @ [LF]) root = Some (True, reread v, [])"
    using reads_passes [OF b(3) t(2)] assms(4) by (intro parse_text)
  ultimately show ?thesis
    using False parse_written [OF assms(1) _ assms(4), of new_FastWriter L root] by (simp add: new_FastWriter_def)
qed

text \<open>The comments that the reader itself collected from a document.\<close>

definition noted_document :: string where
  "noted_document = ''/*a*/{'' @ [QUOTE, CHR ''k'', QUOTE] @ '':[]//b'' @ [LF] @ ''}''"

lemma collected_comments:
  "map_option (\<lambda>(x, C). (x, cm_comments C)) (Reader_parse_collecting no_doubles Features_all noted_document nullValue True)
    = Some ((True, objectValue [(''k'', arrayValue [])], []),
       [(([Inl ''k''], commentAfterOnSameLine), ''//b'' @ [LF]), (([], commentBefore), ''/*a*/'')])"
  by code_simp

theorem commented_text_equivalent_witness:
  "\<exists>C s. Reader_parse_collecting no_doubles Features_all noted_document nullValue True
      = Some ((True, objectValue [(''k'', arrayValue [])], []), C)
    \<and> StyledWriter_write_comments no_doubles C (objectValue [(''k'', arrayValue [])]) = Inr s
    \<and> Reader_parse no_doubles Features_all s nullValue = Some (True, objectValue [(''k'', arrayValue [])], [])"
proof -
  obtain C where C: "Reader_parse_collecting no_doubles Features_all noted_document nullValue True
      = Some ((True, objectValue [(''k'', arrayValue [])], []), C)"
    "cm_comments C = [(([Inl ''k''], commentAfterOnSameLine), ''//b'' @ [LF]), (([], commentBefore), ''/*a*/'')]"
    using collected_comments by (auto simp del: append_Cons)
  have "tidy (''//b'' @ [LF])" "tidy ''/*a*/''" by code_simp+
  then have "neat C" by (simp add: neat_def C(2))
  then show ?thesis
    using C(1) commented_text_equivalent [of "objectValue [(''k'', arrayValue [])]" C Features_all no_doubles nullValue]
    by (auto simp: Features_all_def NUL_def omap_of_def)
qed

text \<open>
  A blank at the end of a comment on the line of its value is taken for an indentation: the next member
  becomes part of the comment, and what was written cannot be read.
\<close>

definition swallowed :: string where
  "swallowed = ''{'' @ [LF] @ ''   '' @ [QUOTE, CHR ''a'', QUOTE] @ '' : null, //x '' @ [QUOTE, CHR ''b'', QUOTE] @ '' : null''
     @ [LF] @ ''}'' @ [LF]"

lemma blank_swallows_member:
  "StyledWriter_write_comments no_doubles
      ((new_Collected [] True)\<lparr>cm_comments := [(([Inl ''a''], commentAfterOnSameLine), ''//x '')]\<rparr>)
      (objectValue [(''a'', nullValue), (''b'', nullValue)]) = Inr swallowed"
  "map_option fst (Reader_parse no_doubles Features_all swallowed nullValue) = Some False"
  by code_simp+

text \<open>An array on one line drops the comments of its elements: \<open>hasCommentForValue\<close> is never called.\<close>

lemma one_line_drops_comments:
  "StyledWriter_write_comments no_doubles
      ((new_Collected [] True)\<lparr>cm_comments := [(([Inr 0], commentBefore), ''//x'')]\<rparr>) (arrayValue [(0, nullValue)])
    = Inr (''[ null ]'' @ [LF])"
  by code_simp

text \<open>A comment in an empty array is refused, in an empty object it is not.\<close>

lemma empty_array_comment:
  "map_option fst (Reader_parse no_doubles Features_all ''[/**/]'' nullValue) = Some False"
  "map_option fst (Reader_parse no_doubles Features_all ''{/**/}'' nullValue) = Some True"
  by code_simp+

end
