(* ===== verification/StreamWriter.thy ===== *)
theory StreamWriter
  imports StyledWriter JsonErrors
begin

text \<open>
  The styled writer to a stream of the embedded jsoncpp (class \<open>StyledStreamWriter\<close> and \<open>operator<<\<close> in
  \<open>third/eice/src/jsoncpp.cpp\<close>), and the theorem that its text means the same as that of \<open>FastWriter\<close>. The
  stream is what has been written to it. Values carry no comments here; those that do are in
  \<open>CommentStream\<close>.
\<close>

section \<open>State\<close>

record StyledStreamWriter =
  sw_childValues :: "string list"
  sw_out :: string
  sw_indentString :: string
  sw_rightMargin :: nat
  sw_indentation :: string
  sw_addChildValues :: bool

definition new_StyledStreamWriter :: "string \<Rightarrow> StyledStreamWriter" where
  "new_StyledStreamWriter indentation = \<lparr>sw_childValues = [], sw_out = [], sw_indentString = [],
     sw_rightMargin = 74, sw_indentation = indentation, sw_addChildValues = False\<rparr>"

definition stream_text :: "string \<Rightarrow> StyledStreamWriter \<Rightarrow> StyledStreamWriter" where
  "stream_text s W = W\<lparr>sw_out := sw_out W @ s\<rparr>"

definition stream_pushValue :: "string \<Rightarrow> StyledStreamWriter \<Rightarrow> StyledStreamWriter" where
  "stream_pushValue s W =
     (if sw_addChildValues W then W\<lparr>sw_childValues := sw_childValues W @ [s]\<rparr> else stream_text s W)"

definition stream_writeIndent :: "StyledStreamWriter \<Rightarrow> StyledStreamWriter" where
  "stream_writeIndent W = stream_text (LF # sw_indentString W) W"

definition stream_writeWithIndent :: "string \<Rightarrow> StyledStreamWriter \<Rightarrow> StyledStreamWriter" where
  "stream_writeWithIndent s W = stream_text s (stream_writeIndent W)"

definition stream_indent :: "StyledStreamWriter \<Rightarrow> StyledStreamWriter" where
  "stream_indent W = W\<lparr>sw_indentString := sw_indentString W @ sw_indentation W\<rparr>"

definition stream_unindent :: "StyledStreamWriter \<Rightarrow> StyledStreamWriter outcome" where
  "stream_unindent W =
     (if length (sw_indentString W) < length (sw_indentation W) then Inl AssertFailed
      else Inr (W\<lparr>sw_indentString := take (length (sw_indentString W) - length (sw_indentation W)) (sw_indentString W)\<rparr>))"

section \<open>Writing\<close>

function stream_value :: "clib \<Rightarrow> Value \<Rightarrow> StyledStreamWriter \<Rightarrow> StyledStreamWriter outcome"
  and stream_members :: "clib \<Rightarrow> (string, Value) omap \<Rightarrow> string list \<Rightarrow> StyledStreamWriter \<Rightarrow> StyledStreamWriter outcome"
  and stream_writeArrayValue :: "clib \<Rightarrow> (nat, Value) omap \<Rightarrow> StyledStreamWriter \<Rightarrow> StyledStreamWriter outcome"
  and stream_items :: "clib \<Rightarrow> (nat, Value) omap \<Rightarrow> bool \<Rightarrow> nat list \<Rightarrow> StyledStreamWriter \<Rightarrow> StyledStreamWriter outcome"
  and stream_isMultineArray :: "clib \<Rightarrow> (nat, Value) omap \<Rightarrow> StyledStreamWriter \<Rightarrow> (bool \<times> StyledStreamWriter) outcome"
  and stream_collect :: "clib \<Rightarrow> (nat, Value) omap \<Rightarrow> nat list \<Rightarrow> nat \<Rightarrow> StyledStreamWriter \<Rightarrow> (nat \<times> StyledStreamWriter) outcome" where
  "stream_value L v W =
     (case v of
        nullValue \<Rightarrow> Inr (stream_pushValue ''null'' W)
      | intValue i \<Rightarrow> Inr (stream_pushValue (valueToString_Int i) W)
      | uintValue u \<Rightarrow> Inr (stream_pushValue (valueToString_UInt u) W)
      | realValue d \<Rightarrow> Inr (stream_pushValue (valueToString_double (print_double L) d) W)
      | stringValue s \<Rightarrow> Inr (stream_pushValue (valueToQuotedString s) W)
      | booleanValue b \<Rightarrow> Inr (stream_pushValue (valueToString_bool b) W)
      | arrayValue m \<Rightarrow> stream_writeArrayValue L m W
      | objectValue m \<Rightarrow>
          if map fst m = [] then Inr (stream_pushValue ''{}'' W)
          else (case stream_members L m (map fst m) (stream_indent (stream_writeWithIndent ''{'' W)) of
                  Inl e \<Rightarrow> Inl e
                | Inr W1 \<Rightarrow> map_sum (\<lambda>e. e) (stream_writeWithIndent ''}'') (stream_unindent W1)))"
| "stream_members L m [] W = Inr W"
| "stream_members L m (name # names) W =
     (case stream_value L (named_at m name)
             (stream_text '' : '' (stream_writeWithIndent (valueToQuotedString name) W)) of
        Inl e \<Rightarrow> Inl e
      | Inr W1 \<Rightarrow> if names = [] then Inr W1 else stream_members L m names (stream_text '','' W1))"
| "stream_writeArrayValue L m W =
     (let size = Value_size (arrayValue m)
      in if size = 0 then Inr (stream_pushValue ''[]'' W)
         else (case stream_isMultineArray L m W of
                 Inl e \<Rightarrow> Inl e
               | Inr (isArrayMultiLine, W1) \<Rightarrow>
                   if isArrayMultiLine
                   then (case stream_items L m (sw_childValues W1 \<noteq> []) [0 ..< size]
                                (stream_indent (stream_writeWithIndent ''['' W1)) of
                           Inl e \<Rightarrow> Inl e
                         | Inr W2 \<Rightarrow> map_sum (\<lambda>e. e) (stream_writeWithIndent '']'') (stream_unindent W2))
                   else if length (sw_childValues W1) \<noteq> size then Inl AssertFailed
                   else Inr (stream_text (''[ '' @ separated '', '' (sw_childValues W1) @ '' ]'') W1)))"
| "stream_items L m hasChild [] W = Inr W"
| "stream_items L m hasChild (index # rest) W =
     (case (if hasChild
            then if index < length (sw_childValues W)
                 then Inr (stream_writeWithIndent (sw_childValues W ! index) W) else Inl OutOfBounds
            else stream_value L (item_at m index) (stream_writeIndent W)) of
        Inl e \<Rightarrow> Inl e
      | Inr W1 \<Rightarrow> if rest = [] then Inr W1 else stream_items L m hasChild rest (stream_text '','' W1))"
| "stream_isMultineArray L m W =
     (let size = Value_size (arrayValue m);
          W1 = W\<lparr>sw_childValues := []\<rparr>
      in if size * 3 \<ge> sw_rightMargin W \<or> (\<exists>index \<in> set [0 ..< size]. nested (item_at m index)) then Inr (True, W1)
         else (case stream_collect L m [0 ..< size] (4 + (size - 1) * 2) (W1\<lparr>sw_addChildValues := True\<rparr>) of
                 Inl e \<Rightarrow> Inl e
               | Inr (lineLength, W2) \<Rightarrow>
                   Inr (lineLength \<ge> sw_rightMargin W2, W2\<lparr>sw_addChildValues := False\<rparr>)))"
| "stream_collect L m [] lineLength W = Inr (lineLength, W)"
| "stream_collect L m (index # rest) lineLength W =
     (case stream_value L (item_at m index) W of
        Inl e \<Rightarrow> Inl e
      | Inr W1 \<Rightarrow> if index < length (sw_childValues W1)
                 then stream_collect L m rest (lineLength + length (sw_childValues W1 ! index)) W1
                 else Inl OutOfBounds)"
  by pat_completeness auto
termination
proof (relation "measures [\<lambda>x. case x of
      Inl (Inl (L, v, W)) \<Rightarrow> 5 * size v + 4
    | Inl (Inr (Inl (L, m, names, W))) \<Rightarrow> 5 * size (objectValue m) + 1
    | Inl (Inr (Inr (L, m, W))) \<Rightarrow> 5 * size (arrayValue m) + 3
    | Inr (Inl (L, m, c, is, W)) \<Rightarrow> 5 * size (arrayValue m) + 1
    | Inr (Inr (Inl (L, m, W))) \<Rightarrow> 5 * size (arrayValue m) + 2
    | Inr (Inr (Inr (L, m, is, n, W))) \<Rightarrow> 5 * size (arrayValue m) + 1,
    \<lambda>x. case x of
      Inl (Inl (L, v, W)) \<Rightarrow> 0
    | Inl (Inr (Inl (L, m, names, W))) \<Rightarrow> length names
    | Inl (Inr (Inr (L, m, W))) \<Rightarrow> 0
    | Inr (Inl (L, m, c, is, W)) \<Rightarrow> length is
    | Inr (Inr (Inl (L, m, W))) \<Rightarrow> 0
    | Inr (Inr (Inr (L, m, is, n, W))) \<Rightarrow> length is]", goal_cases)
qed (auto simp del: Value.size simp: less_Suc_eq_le child_bounds)

declare stream_value.simps [simp del] stream_writeArrayValue.simps [simp del] stream_isMultineArray.simps [simp del]

text \<open>\<open>write\<close>, with an indentation; \<open>operator<<\<close> uses a tab.\<close>

definition StyledStreamWriter_write :: "clib \<Rightarrow> StyledStreamWriter \<Rightarrow> Value \<Rightarrow> StyledStreamWriter outcome" where
  "StyledStreamWriter_write L W root = map_sum (\<lambda>e. e) (stream_text [LF])
     (stream_value L root (W\<lparr>sw_addChildValues := False, sw_indentString := []\<rparr>))"

definition write_to_stream :: "clib \<Rightarrow> string \<Rightarrow> Value \<Rightarrow> string outcome" where
  "write_to_stream L sout root = map_sum (\<lambda>e. e) sw_out
     (StyledStreamWriter_write L ((new_StyledStreamWriter [TAB])\<lparr>sw_out := sout\<rparr>) root)"

section \<open>The layout\<close>

function stream_layout :: "string \<Rightarrow> clib \<Rightarrow> string \<Rightarrow> Value \<Rightarrow> string" where
  "stream_layout ind L s v =
     (if \<not> nested v then flat L v
      else (case v of
        arrayValue m \<Rightarrow>
          if multi_line L m
          then (LF # s) @ ''['' @ separated '','' (map (\<lambda>i. (LF # s @ ind) @ stream_layout ind L (s @ ind) (item_at m i))
                 [0 ..< Value_size (arrayValue m)]) @ (LF # s) @ '']''
          else ''[ '' @ separated '', '' (map (\<lambda>i. flat L (item_at m i)) [0 ..< Value_size (arrayValue m)]) @ '' ]''
      | objectValue m \<Rightarrow>
          (LF # s) @ ''{'' @ separated '','' (map (\<lambda>k. (LF # s @ ind) @ valueToQuotedString k @ '' : ''
            @ stream_layout ind L (s @ ind) (named_at m k)) (map fst m)) @ (LF # s) @ ''}''
      | _ \<Rightarrow> []))"
  by pat_completeness auto
termination
  by (relation "measure (\<lambda>(ind, L, s, v). size v)") (auto simp: size_item_at size_named_at simp del: Value.size)

declare stream_layout.simps [simp del]

lemma stream_layout_flat: "\<not> nested v \<Longrightarrow> stream_layout ind L s v = flat L v"
  by (simp add: stream_layout.simps)

lemma stream_layout_object: "nested (objectValue m) \<Longrightarrow> stream_layout ind L s (objectValue m)
    = (LF # s) @ ''{'' @ separated '','' (map (\<lambda>k. (LF # s @ ind) @ valueToQuotedString k @ '' : ''
      @ stream_layout ind L (s @ ind) (named_at m k)) (map fst m)) @ (LF # s) @ ''}''"
  by (subst stream_layout.simps) simp

lemma stream_layout_lines: "nested (arrayValue m) \<Longrightarrow> multi_line L m \<Longrightarrow> stream_layout ind L s (arrayValue m)
    = (LF # s) @ ''['' @ separated '','' (map (\<lambda>i. (LF # s @ ind) @ stream_layout ind L (s @ ind) (item_at m i))
      [0 ..< Value_size (arrayValue m)]) @ (LF # s) @ '']''"
  by (subst stream_layout.simps) simp

lemma stream_layout_line: "nested (arrayValue m) \<Longrightarrow> \<not> multi_line L m \<Longrightarrow> stream_layout ind L s (arrayValue m)
    = ''[ '' @ separated '', '' (map (\<lambda>i. flat L (item_at m i)) [0 ..< Value_size (arrayValue m)]) @ '' ]''"
  by (subst stream_layout.simps) simp

lemmas stream_layouts = stream_layout_flat stream_layout_object stream_layout_lines stream_layout_line

section \<open>The writer makes the layout\<close>

lemma stream_flat: "\<not> nested v \<Longrightarrow> stream_value L v W = Inr (stream_pushValue (flat L v) W)"
  by (cases v)
    (auto simp: stream_value.simps stream_writeArrayValue.simps JsonWriter.writeValue.simps new_FastWriter_def nested_def
      isArray_def isObject_def separated_simps Value_size_def split: if_splits)

lemma stream_collect_flat:
  assumes "is = [length (sw_childValues W) ..< length (sw_childValues W) + length is]"
    "\<forall>i \<in> set is. \<not> nested (item_at m i)" "sw_addChildValues W"
  shows "stream_collect L m is n W
    = Inr (n + sum_list (map (\<lambda>i. length (flat L (item_at m i))) is),
        W\<lparr>sw_childValues := sw_childValues W @ map (\<lambda>i. flat L (item_at m i)) is\<rparr>)"
  using assms
proof (induction "is" arbitrary: n W)
  case (Cons i rest)
  have i: "i = length (sw_childValues W)"
      "rest = [Suc (length (sw_childValues W)) ..< Suc (length (sw_childValues W)) + length rest]"
    using Cons.prems(1) by (simp_all add: upt_conv_Cons del: upt_Suc)
  let ?W = "W\<lparr>sw_childValues := sw_childValues W @ [flat L (item_at m i)]\<rparr>"
  have r: "rest = [length (sw_childValues ?W) ..< length (sw_childValues ?W) + length rest]"
    by (subst i(2)) (simp del: upt_Suc)
  have "stream_collect L m rest (n + length (flat L (item_at m i))) ?W
    = Inr (n + length (flat L (item_at m i)) + sum_list (map (\<lambda>i. length (flat L (item_at m i))) rest),
        ?W\<lparr>sw_childValues := sw_childValues ?W @ map (\<lambda>i. flat L (item_at m i)) rest\<rparr>)"
    using Cons.prems(2,3) by (intro Cons.IH [OF r]) simp_all
  then show ?case using Cons.prems(2,3) i(1) by (simp add: stream_flat stream_pushValue_def)
qed simp

text \<open>A writer between two values, at an indentation.\<close>

definition at_indent :: "string \<Rightarrow> string \<Rightarrow> StyledStreamWriter \<Rightarrow> bool" where
  "at_indent ind s W \<longleftrightarrow> \<not> sw_addChildValues W \<and> sw_rightMargin W = 74 \<and> sw_indentation W = ind \<and> sw_indentString W = s"

lemma at_indent_text [simp]: "at_indent ind s (W\<lparr>sw_out := t\<rparr>) = at_indent ind s W"
    "at_indent ind s (W\<lparr>sw_childValues := cv\<rparr>) = at_indent ind s W"
  by (simp_all add: at_indent_def)

lemma stream_multi_line:
  assumes "at_indent ind s W"
  shows "\<exists>cv. stream_isMultineArray L m W = Inr (multi_line L m, W\<lparr>sw_childValues := cv\<rparr>)
    \<and> (cv = [] \<or> cv = map (\<lambda>i. flat L (item_at m i)) [0 ..< Value_size (arrayValue m)]
        \<and> (\<forall>i < Value_size (arrayValue m). \<not> nested (item_at m i)))
    \<and> (\<not> multi_line L m \<longrightarrow> cv = map (\<lambda>i. flat L (item_at m i)) [0 ..< Value_size (arrayValue m)])"
proof (cases "Value_size (arrayValue m) * 3 \<ge> 74 \<or> (\<exists>i \<in> set [0 ..< Value_size (arrayValue m)]. nested (item_at m i))")
  case True
  then have "multi_line L m" by (auto simp: multi_line_def Let_def)
  with True show ?thesis using assms
    by (intro exI [of _ "[]"]) (auto simp: stream_isMultineArray.simps Let_def at_indent_def)
next
  case False
  let ?n = "Value_size (arrayValue m)"
  let ?W = "W\<lparr>sw_childValues := [], sw_addChildValues := True\<rparr>"
  have c: "stream_collect L m [0 ..< ?n] (4 + (?n - 1) * 2) ?W
      = Inr (4 + (?n - 1) * 2 + sum_list (map (\<lambda>i. length (flat L (item_at m i))) [0 ..< ?n]),
          ?W\<lparr>sw_childValues := sw_childValues ?W @ map (\<lambda>i. flat L (item_at m i)) [0 ..< ?n]\<rparr>)"
    using False by (intro stream_collect_flat) simp_all
  have "multi_line L m \<longleftrightarrow> 4 + (?n - 1) * 2 + sum_list (map (\<lambda>i. length (flat L (item_at m i))) [0 ..< ?n]) \<ge> 74"
    using False by (auto simp: multi_line_def Let_def)
  with False c show ?thesis using assms
    by (intro exI [of _ "map (\<lambda>i. flat L (item_at m i)) [0 ..< ?n]"])
      (auto simp: stream_isMultineArray.simps Let_def at_indent_def)
qed

definition wrote :: "StyledStreamWriter \<Rightarrow> string \<Rightarrow> string list \<Rightarrow> StyledStreamWriter" where
  "wrote W t cv = W\<lparr>sw_out := sw_out W @ t, sw_childValues := cv\<rparr>"

lemma wrote_simps [simp]:
  "at_indent ind s (wrote W t cv) = at_indent ind s W" "sw_childValues (wrote W t cv) = cv"
  "wrote (wrote W t cv) u cv' = wrote W (t @ u) cv'" "stream_text u (wrote W t cv) = wrote W (t @ u) cv"
  by (simp_all add: wrote_def at_indent_def stream_text_def)

lemma stream_text_wrote: "stream_text t W = wrote W t (sw_childValues W)"
  by (simp add: wrote_def stream_text_def)

lemma wrote_nothing: "wrote W [] (sw_childValues W) = W"
  by (simp add: wrote_def)

lemma stream_writeIndent_at: "at_indent ind s W \<Longrightarrow> stream_writeIndent W = wrote W (LF # s) (sw_childValues W)"
  by (simp add: stream_writeIndent_def stream_text_wrote at_indent_def)

lemma stream_writeWithIndent_at:
  "at_indent ind s W \<Longrightarrow> stream_writeWithIndent t W = wrote W (LF # s @ t) (sw_childValues W)"
  by (simp add: stream_writeWithIndent_def stream_writeIndent_at)

lemma stream_indent_at: "at_indent ind s W \<Longrightarrow> at_indent ind (s @ ind) (stream_indent W)"
  by (simp add: stream_indent_def at_indent_def)

lemma stream_unindent_at:
  "at_indent ind s W \<Longrightarrow> stream_unindent (wrote (stream_indent W) t cv) = Inr (wrote W t cv)"
  by (cases W) (simp add: stream_indent_def stream_unindent_def wrote_def at_indent_def)

definition stream_writes :: "string \<Rightarrow> clib \<Rightarrow> string \<Rightarrow> Value \<Rightarrow> bool" where
  "stream_writes ind L s v \<longleftrightarrow> (\<forall>W. at_indent ind s W \<longrightarrow>
     (\<exists>cv. stream_value L v W = Inr (wrote W (stream_layout ind L s v) cv)))"

lemma stream_writesD:
  "stream_writes ind L s v \<Longrightarrow> at_indent ind s W \<Longrightarrow>
    \<exists>cv. stream_value L v W = Inr (wrote W (stream_layout ind L s v) cv)"
  by (simp add: stream_writes_def)

lemma stream_members_layout:
  assumes "\<forall>k \<in> set names. stream_writes ind L s (named_at m k)" "names \<noteq> []" "at_indent ind s W"
  shows "\<exists>cv. stream_members L m names W = Inr (wrote W (separated '',''
      (map (\<lambda>k. (LF # s) @ valueToQuotedString k @ '' : '' @ stream_layout ind L s (named_at m k)) names)) cv)"
  using assms
proof (induction names arbitrary: W)
  case (Cons k names)
  let ?item = "\<lambda>k. (LF # s) @ valueToQuotedString k @ '' : '' @ stream_layout ind L s (named_at m k)"
  let ?W1 = "wrote W ((LF # s) @ valueToQuotedString k @ '' : '') (sw_childValues W)"
  have w: "stream_text '' : '' (stream_writeWithIndent (valueToQuotedString k) W) = ?W1"
    using Cons.prems(3) by (simp add: stream_writeWithIndent_at)
  obtain cv where v: "stream_value L (named_at m k) ?W1 = Inr (wrote W (?item k) cv)"
    using stream_writesD [of ind L s "named_at m k" ?W1] Cons.prems(1,3) by auto
  show ?case
  proof (cases "names = []")
    case True
    then show ?thesis using v by (auto simp: w separated_simps)
  next
    case False
    have "\<exists>cv'. stream_members L m names (wrote W (?item k @ '','') cv)
        = Inr (wrote (wrote W (?item k @ '','') cv) (separated '','' (map ?item names)) cv')"
      using Cons.prems False by (intro Cons.IH) auto
    then show ?thesis using False v by (simp add: w separated_simps)
  qed
qed simp

lemma stream_items_layout:
  assumes "\<forall>i \<in> set is. stream_writes ind L s (item_at m i)" "is \<noteq> []" "at_indent ind s W"
    and "hasChild \<longrightarrow> sw_childValues W = map (\<lambda>i. flat L (item_at m i)) [0 ..< n]
      \<and> (\<forall>i \<in> set is. i < n \<and> \<not> nested (item_at m i))"
  shows "\<exists>cv. stream_items L m hasChild is W = Inr (wrote W (separated '',''
      (map (\<lambda>i. (LF # s) @ stream_layout ind L s (item_at m i)) is)) cv)"
  using assms
proof (induction "is" arbitrary: W)
  case (Cons i rest)
  let ?item = "\<lambda>i. (LF # s) @ stream_layout ind L s (item_at m i)"
  let ?step = "if hasChild
    then if i < length (sw_childValues W) then Inr (stream_writeWithIndent (sw_childValues W ! i) W) else Inl OutOfBounds
    else stream_value L (item_at m i) (stream_writeIndent W)"
  obtain cv where v: "?step = Inr (wrote W (?item i) cv)" "hasChild \<longrightarrow> cv = sw_childValues W"
  proof (cases hasChild)
    case True
    then have "?step = Inr (wrote W (?item i) (sw_childValues W))"
      using Cons.prems(3,4) by (simp add: stream_writeWithIndent_at stream_layout_flat)
    then show thesis using that by blast
  next
    case False
    let ?W1 = "wrote W (LF # s) (sw_childValues W)"
    have "\<exists>cv. stream_value L (item_at m i) ?W1 = Inr (wrote W (?item i) cv)"
      using stream_writesD [of ind L s "item_at m i" ?W1] Cons.prems(1,3) by auto
    then show thesis using that False Cons.prems(3) by (auto simp: stream_writeIndent_at)
  qed
  show ?case
  proof (cases "rest = []")
    case True
    then show ?thesis using v(1) by (auto simp: separated_simps)
  next
    case False
    have "\<exists>cv'. stream_items L m hasChild rest (wrote W (?item i @ '','') cv)
        = Inr (wrote (wrote W (?item i @ '','') cv) (separated '','' (map ?item rest)) cv')"
      using Cons.prems v(2) False by (intro Cons.IH) auto
    then show ?thesis using False v(1) by (simp add: separated_simps)
  qed
qed simp

lemma nested_cases:
  assumes "nested v"
  obtains (object) m where "v = objectValue m" "m \<noteq> []" | (array) m where "v = arrayValue m" "0 < Value_size (arrayValue m)"
  using assms by (cases v) (auto simp: nested_def isArray_def isObject_def Value_size_def)

lemma stream_writes_object:
  assumes "nested (objectValue m)" "\<forall>k \<in> set (map fst m). stream_writes ind L (s @ ind) (named_at m k)"
  shows "stream_writes ind L s (objectValue m)"
  unfolding stream_writes_def
proof (intro allI impI)
  fix W assume W: "at_indent ind s W"
  have m: "map fst m \<noteq> []" using assms(1) by (auto simp: nested_def Value_size_def isArray_def)
  let ?W = "wrote W (LF # s @ ''{'') (sw_childValues W)"
  let ?body = "separated '','' (map (\<lambda>k. (LF # s @ ind) @ valueToQuotedString k @ '' : ''
    @ stream_layout ind L (s @ ind) (named_at m k)) (map fst m))"
  have i: "at_indent ind (s @ ind) (stream_indent ?W)" using W by (intro stream_indent_at) simp
  obtain cv where s: "stream_members L m (map fst m) (stream_indent ?W) = Inr (wrote (stream_indent ?W) ?body cv)"
    using stream_members_layout [OF assms(2) m i] by blast
  have u: "stream_unindent (wrote (stream_indent ?W) ?body cv) = Inr (wrote ?W ?body cv)"
    using W by (intro stream_unindent_at) simp
  have "stream_value L (objectValue m) W = Inr (stream_writeWithIndent ''}'' (wrote ?W ?body cv))"
    using m s u W by (simp add: stream_value.simps stream_writeWithIndent_at)
  also have "\<dots> = Inr (wrote W (stream_layout ind L s (objectValue m)) cv)"
    using W assms(1) by (simp add: stream_writeWithIndent_at stream_layout_object)
  finally show "\<exists>cv. stream_value L (objectValue m) W = Inr (wrote W (stream_layout ind L s (objectValue m)) cv)" by blast
qed

lemma stream_writes_array:
  assumes "nested (arrayValue m)"
    and i: "\<forall>i \<in> set [0 ..< Value_size (arrayValue m)]. stream_writes ind L (s @ ind) (item_at m i)"
  shows "stream_writes ind L s (arrayValue m)"
  unfolding stream_writes_def
proof (intro allI impI)
  fix W assume W: "at_indent ind s W"
  let ?is = "[0 ..< Value_size (arrayValue m)]"
  have n: "Value_size (arrayValue m) \<noteq> 0" "?is \<noteq> []" using assms(1) by (auto simp: nested_def)
  from stream_multi_line [OF W] obtain cv where
    cv: "stream_isMultineArray L m W = Inr (multi_line L m, W\<lparr>sw_childValues := cv\<rparr>)"
    "cv = [] \<or> cv = map (\<lambda>i. flat L (item_at m i)) ?is \<and> (\<forall>i < Value_size (arrayValue m). \<not> nested (item_at m i))"
    "\<not> multi_line L m \<Longrightarrow> cv = map (\<lambda>i. flat L (item_at m i)) ?is" by blast
  have V: "W\<lparr>sw_childValues := cv\<rparr> = wrote W [] cv" by (simp add: wrote_def)
  show "\<exists>cv. stream_value L (arrayValue m) W = Inr (wrote W (stream_layout ind L s (arrayValue m)) cv)"
  proof (cases "multi_line L m")
    case False
    then show ?thesis using cv(1,3) n assms(1)
      by (intro exI [of _ cv]) (simp add: stream_value.simps stream_writeArrayValue.simps stream_layout_line
        stream_text_def wrote_def Let_def)
  next
    case True
    let ?W = "wrote W (LF # s @ ''['') cv"
    let ?body = "separated '','' (map (\<lambda>i. (LF # s @ ind) @ stream_layout ind L (s @ ind) (item_at m i)) ?is)"
    have at: "at_indent ind (s @ ind) (stream_indent ?W)" using W by (intro stream_indent_at) simp
    have c: "sw_childValues (stream_indent ?W) = cv" by (simp add: stream_indent_def)
    have h: "cv \<noteq> [] \<longrightarrow> sw_childValues (stream_indent ?W) = map (\<lambda>i. flat L (item_at m i)) ?is
        \<and> (\<forall>i \<in> set ?is. i < Value_size (arrayValue m) \<and> \<not> nested (item_at m i))"
      using cv(2) by (auto simp: c)
    obtain cv' where s: "stream_items L m (cv \<noteq> []) ?is (stream_indent ?W) = Inr (wrote (stream_indent ?W) ?body cv')"
      using stream_items_layout [OF i n(2) at h] by blast
    have u: "stream_unindent (wrote (stream_indent ?W) ?body cv') = Inr (wrote ?W ?body cv')"
      using W by (intro stream_unindent_at) simp
    have "stream_value L (arrayValue m) W = Inr (stream_writeWithIndent '']'' (wrote ?W ?body cv'))"
      using True n(1) cv(1) s u W
      by (simp add: stream_value.simps stream_writeArrayValue.simps stream_writeWithIndent_at V Let_def)
    also have "\<dots> = Inr (wrote W (stream_layout ind L s (arrayValue m)) cv')"
      using W assms(1) True by (simp add: stream_writeWithIndent_at stream_layout_lines)
    finally show ?thesis by blast
  qed
qed

lemma stream_writes_any: "stream_writes ind L s v"
proof (induction "size v" arbitrary: v s rule: less_induct)
  case less
  show ?case
  proof (cases "nested v")
    case False
    have "stream_value L v W = Inr (wrote W (stream_layout ind L s v) (sw_childValues W))" if "at_indent ind s W" for W
      using that False
      by (simp add: stream_flat stream_layout_flat stream_pushValue_def stream_text_wrote at_indent_def)
    then show ?thesis by (auto simp: stream_writes_def)
  next
    case True
    then show ?thesis
    proof (cases rule: nested_cases)
      case (object m)
      have "stream_writes ind L (s @ ind) (named_at m k)" for k
        using less size_named_at [of m k] unfolding object by blast
      with True object show ?thesis by (simp add: stream_writes_object)
    next
      case (array m)
      have "stream_writes ind L (s @ ind) (item_at m i)" for i
        using less size_item_at [of m i] unfolding array by blast
      with True array show ?thesis by (simp add: stream_writes_array)
    qed
  qed
qed

lemma written_to_stream:
  assumes "sw_indentation W = ind" "sw_rightMargin W = 74"
  shows "\<exists>cv. StyledStreamWriter_write L W v
    = Inr (wrote (W\<lparr>sw_addChildValues := False, sw_indentString := []\<rparr>) (stream_layout ind L [] v @ [LF]) cv)"
proof -
  let ?W = "W\<lparr>sw_addChildValues := False, sw_indentString := []\<rparr>"
  have "at_indent ind [] ?W" using assms by (simp add: at_indent_def)
  with stream_writes_any [of ind L "[]" v] obtain cv where
    "stream_value L v ?W = Inr (wrote ?W (stream_layout ind L [] v) cv)" by (auto simp: stream_writes_def)
  then show ?thesis by (auto simp: StyledStreamWriter_write_def)
qed

section \<open>Reading the layout\<close>

interpretation stream: spaced_layout "\<lambda>L (ind, s). stream_layout ind L s" "\<lambda>(ind, s). LF # s"
  "\<lambda>(ind, s). LF # s" "\<lambda>(ind, s). (ind, s @ ind)" "\<lambda>(ind, s). blank ind \<and> blank s"
  by unfold_locales (auto simp: stream_layouts is_space_def)

lemma reads_stream: "plain v \<Longrightarrow> blank ind \<Longrightarrow> reads L F (stream_layout ind L [] v) (reread v)"
  using stream.reads_text [of v "(ind, [])"] by simp

section \<open>Properties\<close>

text \<open>
  The text on the stream means the same. Whatever is written before it, every value is written
  without failing an assertion or leaving an array; and for a value without doubles and an
  indentation of blanks, the reader makes of that text what it makes of the text of \<open>FastWriter\<close>.
\<close>
theorem stream_text_equivalent:
  assumes "plain v" "blank (sw_indentation W)" "sw_rightMargin W = 74" "strictRoot F \<longrightarrow> isArray v \<or> isObject v"
  shows "\<exists>s W'. StyledStreamWriter_write L W v = Inr W' \<and> sw_out W' = sw_out W @ s
    \<and> Reader_parse L F s root = Reader_parse L F (FastWriter_write L new_FastWriter v) root
    \<and> Reader_parse L F s root = Some (True, reread v, [])"
proof -
  let ?s = "stream_layout (sw_indentation W) L [] v @ [LF]"
  from written_to_stream [OF refl assms(3), of L v] obtain W' where
    "StyledStreamWriter_write L W v = Inr W'" "sw_out W' = sw_out W @ ?s" by (auto simp: wrote_def)
  moreover have "Reader_parse L F ?s root = Some (True, reread v, [])"
    using reads_stream [OF assms(1,2)] assms(4) by (rule parse_line)
  ultimately show ?thesis using parse_written [OF assms(1) _ assms(4), of new_FastWriter L root]
    by (auto simp: new_FastWriter_def)
qed

theorem stream_text_equivalent_witness:
  "\<exists>s. write_to_stream no_doubles ''out: '' (objectValue [(''a'', arrayValue [(0, intValue (-7)), (1, arrayValue [(0, nullValue)])])])
      = Inr (''out: '' @ s)
    \<and> Reader_parse no_doubles Features_strictMode s nullValue
      = Some (True, objectValue [(''a'', arrayValue [(0, intValue (-7)), (1, arrayValue [(0, nullValue)])])], [])"
  using stream_text_equivalent [of "objectValue [(''a'', arrayValue [(0, intValue (-7)), (1, arrayValue [(0, nullValue)])])]"
      "(new_StyledStreamWriter [TAB])\<lparr>sw_out := ''out: ''\<rparr>" Features_strictMode no_doubles nullValue]
  by (auto simp: isObject_def NUL_def omap_of_def int_limits write_to_stream_def new_StyledStreamWriter_def is_space_def)

text \<open>What it looks like: a container over several lines begins on a line of its own, after the name too.\<close>

lemma stream_text_example:
  "write_to_stream no_doubles [] (objectValue [(''a'', objectValue [(''b'', intValue 1)])])
    = Inr ([LF] @ ''{'' @ [LF, TAB] @ [CHR 0x22] @ ''a'' @ [CHR 0x22] @ '' : '' @ [LF, TAB] @ ''{''
        @ [LF, TAB, TAB] @ [CHR 0x22] @ ''b'' @ [CHR 0x22] @ '' : 1'' @ [LF, TAB] @ ''}'' @ [LF] @ ''}'' @ [LF])"
  by code_simp

end
