(* ===== verification/CommentStream.thy ===== *)
theory CommentStream
  imports CommentWriter StreamWriter
begin

text \<open>
  The styled writer to a stream of the embedded jsoncpp (class \<open>StyledStreamWriter\<close> in
  \<open>third/eice/src/jsoncpp.cpp\<close>) on values that carry comments, as \<open>CommentWriter\<close> has it for \<open>StyledWriter\<close>.
\<close>

section \<open>Writing comments\<close>

definition stream_commentBefore :: "Collected \<Rightarrow> node \<Rightarrow> StyledStreamWriter \<Rightarrow> StyledStreamWriter" where
  "stream_commentBefore C node W =
     (if \<not> hasComment C node commentBefore then W
      else stream_text [LF] (stream_text (normalizeEOL (getComment C node commentBefore)) W))"

definition stream_commentAfter :: "Collected \<Rightarrow> node \<Rightarrow> StyledStreamWriter \<Rightarrow> StyledStreamWriter" where
  "stream_commentAfter C node W =
     (let W1 = (if hasComment C node commentAfterOnSameLine
                then stream_text ('' '' @ normalizeEOL (getComment C node commentAfterOnSameLine)) W else W)
      in if hasComment C node commentAfter
         then stream_text [LF] (stream_text (normalizeEOL (getComment C node commentAfter)) (stream_text [LF] W1))
         else W1)"

function c_stream_value :: "clib \<Rightarrow> Collected \<Rightarrow> node \<Rightarrow> Value \<Rightarrow> StyledStreamWriter \<Rightarrow> StyledStreamWriter outcome"
  and c_stream_members :: "clib \<Rightarrow> Collected \<Rightarrow> node \<Rightarrow> (string, Value) omap \<Rightarrow> string list \<Rightarrow> StyledStreamWriter \<Rightarrow> StyledStreamWriter outcome"
  and c_stream_writeArrayValue :: "clib \<Rightarrow> Collected \<Rightarrow> node \<Rightarrow> (nat, Value) omap \<Rightarrow> StyledStreamWriter \<Rightarrow> StyledStreamWriter outcome"
  and c_stream_items :: "clib \<Rightarrow> Collected \<Rightarrow> node \<Rightarrow> (nat, Value) omap \<Rightarrow> bool \<Rightarrow> nat list \<Rightarrow> StyledStreamWriter \<Rightarrow> StyledStreamWriter outcome"
  and c_stream_isMultineArray :: "clib \<Rightarrow> Collected \<Rightarrow> node \<Rightarrow> (nat, Value) omap \<Rightarrow> StyledStreamWriter \<Rightarrow> (bool \<times> StyledStreamWriter) outcome"
  and c_stream_collect :: "clib \<Rightarrow> Collected \<Rightarrow> node \<Rightarrow> (nat, Value) omap \<Rightarrow> nat list \<Rightarrow> nat \<Rightarrow> StyledStreamWriter \<Rightarrow> (nat \<times> StyledStreamWriter) outcome" where
  "c_stream_value L C node v W =
     (case v of
        nullValue \<Rightarrow> Inr (stream_pushValue ''null'' W)
      | intValue i \<Rightarrow> Inr (stream_pushValue (valueToString_Int i) W)
      | uintValue u \<Rightarrow> Inr (stream_pushValue (valueToString_UInt u) W)
      | realValue d \<Rightarrow> Inr (stream_pushValue (valueToString_double (print_double L) d) W)
      | stringValue s \<Rightarrow> Inr (stream_pushValue (valueToQuotedString s) W)
      | booleanValue b \<Rightarrow> Inr (stream_pushValue (valueToString_bool b) W)
      | arrayValue m \<Rightarrow> c_stream_writeArrayValue L C node m W
      | objectValue m \<Rightarrow>
          if map fst m = [] then Inr (stream_pushValue ''{}'' W)
          else (case c_stream_members L C node m (map fst m) (stream_indent (stream_writeWithIndent ''{'' W)) of
                  Inl e \<Rightarrow> Inl e
                | Inr W1 \<Rightarrow> map_sum (\<lambda>e. e) (stream_writeWithIndent ''}'') (stream_unindent W1)))"
| "c_stream_members L C node m [] W = Inr W"
| "c_stream_members L C node m (name # names) W =
     (let child = node @ [Inl name]
      in case c_stream_value L C child (named_at m name)
                (stream_text '' : '' (stream_writeWithIndent (valueToQuotedString name) (stream_commentBefore C child W))) of
           Inl e \<Rightarrow> Inl e
         | Inr W1 \<Rightarrow>
             if names = [] then Inr (stream_commentAfter C child W1)
             else c_stream_members L C node m names (stream_commentAfter C child (stream_text '','' W1)))"
| "c_stream_writeArrayValue L C node m W =
     (let size = Value_size (arrayValue m)
      in if size = 0 then Inr (stream_pushValue ''[]'' W)
         else (case c_stream_isMultineArray L C node m W of
                 Inl e \<Rightarrow> Inl e
               | Inr (isArrayMultiLine, W1) \<Rightarrow>
                   if isArrayMultiLine
                   then (case c_stream_items L C node m (sw_childValues W1 \<noteq> []) [0 ..< size]
                                (stream_indent (stream_writeWithIndent ''['' W1)) of
                           Inl e \<Rightarrow> Inl e
                         | Inr W2 \<Rightarrow> map_sum (\<lambda>e. e) (stream_writeWithIndent '']'') (stream_unindent W2))
                   else if length (sw_childValues W1) \<noteq> size then Inl AssertFailed
                   else Inr (stream_text (''[ '' @ separated '', '' (sw_childValues W1) @ '' ]'') W1)))"
| "c_stream_items L C node m hasChild [] W = Inr W"
| "c_stream_items L C node m hasChild (index # rest) W =
     (let child = node @ [Inr index]; W0 = stream_commentBefore C child W
      in case (if hasChild
               then if index < length (sw_childValues W0)
                    then Inr (stream_writeWithIndent (sw_childValues W0 ! index) W0) else Inl OutOfBounds
               else c_stream_value L C child (item_at m index) (stream_writeIndent W0)) of
           Inl e \<Rightarrow> Inl e
         | Inr W1 \<Rightarrow>
             if rest = [] then Inr (stream_commentAfter C child W1)
             else c_stream_items L C node m hasChild rest (stream_commentAfter C child (stream_text '','' W1)))"
| "c_stream_isMultineArray L C node m W =
     (let size = Value_size (arrayValue m);
          W1 = W\<lparr>sw_childValues := []\<rparr>
      in if size * 3 \<ge> sw_rightMargin W \<or> (\<exists>index \<in> set [0 ..< size]. nested (item_at m index)) then Inr (True, W1)
         else (case c_stream_collect L C node m [0 ..< size] (4 + (size - 1) * 2) (W1\<lparr>sw_addChildValues := True\<rparr>) of
                 Inl e \<Rightarrow> Inl e
               | Inr (lineLength, W2) \<Rightarrow>
                   Inr (lineLength \<ge> sw_rightMargin W2, W2\<lparr>sw_addChildValues := False\<rparr>)))"
| "c_stream_collect L C node m [] lineLength W = Inr (lineLength, W)"
| "c_stream_collect L C node m (index # rest) lineLength W =
     (case c_stream_value L C (node @ [Inr index]) (item_at m index) W of
        Inl e \<Rightarrow> Inl e
      | Inr W1 \<Rightarrow> if index < length (sw_childValues W1)
                 then c_stream_collect L C node m rest (lineLength + length (sw_childValues W1 ! index)) W1
                 else Inl OutOfBounds)"
  by pat_completeness auto
termination
proof (relation "measures [\<lambda>x. case x of
      Inl (Inl (L, C, p, v, W)) \<Rightarrow> 5 * size v + 4
    | Inl (Inr (Inl (L, C, p, m, names, W))) \<Rightarrow> 5 * size (objectValue m) + 1
    | Inl (Inr (Inr (L, C, p, m, W))) \<Rightarrow> 5 * size (arrayValue m) + 3
    | Inr (Inl (L, C, p, m, c, is, W)) \<Rightarrow> 5 * size (arrayValue m) + 1
    | Inr (Inr (Inl (L, C, p, m, W))) \<Rightarrow> 5 * size (arrayValue m) + 2
    | Inr (Inr (Inr (L, C, p, m, is, n, W))) \<Rightarrow> 5 * size (arrayValue m) + 1,
    \<lambda>x. case x of
      Inl (Inl (L, C, p, v, W)) \<Rightarrow> 0
    | Inl (Inr (Inl (L, C, p, m, names, W))) \<Rightarrow> length names
    | Inl (Inr (Inr (L, C, p, m, W))) \<Rightarrow> 0
    | Inr (Inl (L, C, p, m, c, is, W)) \<Rightarrow> length is
    | Inr (Inr (Inl (L, C, p, m, W))) \<Rightarrow> 0
    | Inr (Inr (Inr (L, C, p, m, is, n, W))) \<Rightarrow> length is]", goal_cases)
qed (auto simp del: Value.size simp: less_Suc_eq_le child_bounds)

declare c_stream_value.simps [simp del] c_stream_writeArrayValue.simps [simp del] c_stream_isMultineArray.simps [simp del]

text \<open>\<open>write\<close> of a value with comments.\<close>

definition StyledStreamWriter_write_comments ::
  "clib \<Rightarrow> Collected \<Rightarrow> StyledStreamWriter \<Rightarrow> Value \<Rightarrow> StyledStreamWriter outcome" where
  "StyledStreamWriter_write_comments L C W root = map_sum (\<lambda>e. e) (\<lambda>W. stream_text [LF] (stream_commentAfter C [] W))
     (c_stream_value L C [] root (stream_commentBefore C [] (W\<lparr>sw_addChildValues := False, sw_indentString := []\<rparr>)))"

section \<open>Without comments\<close>

lemma no_stream_comments [simp]:
  assumes "cm_comments C = []"
  shows "stream_commentBefore C node W = W" "stream_commentAfter C node W = W"
  using assms by (simp_all add: stream_commentBefore_def stream_commentAfter_def hasComment_def)

lemma stream_uncommented:
  "cm_comments C = [] \<Longrightarrow> c_stream_value L C node v W = stream_value L v W"
  "cm_comments C = [] \<Longrightarrow> c_stream_members L C node n names W = stream_members L n names W"
  "cm_comments C = [] \<Longrightarrow> c_stream_writeArrayValue L C node m W = stream_writeArrayValue L m W"
  "cm_comments C = [] \<Longrightarrow> c_stream_items L C node m hasChild is W = stream_items L m hasChild is W"
  "cm_comments C = [] \<Longrightarrow> c_stream_isMultineArray L C node m W = stream_isMultineArray L m W"
  "cm_comments C = [] \<Longrightarrow> c_stream_collect L C node m is k W = stream_collect L m is k W"
proof (induction L C node v W and L C node n names W and L C node m W and L C node m hasChild "is" W and L C node m W
    and L C node m "is" k W rule: c_stream_value_c_stream_members_c_stream_writeArrayValue_c_stream_items_c_stream_isMultineArray_c_stream_collect.induct)
  case (1 L C node v W)
  then show ?case
    by (subst c_stream_value.simps, subst stream_value.simps) (auto split: Value.split)
next
  case (3 L C node m name names W)
  then show ?case by (auto simp: Let_def split: sum.split)
next
  case (4 L C node m W)
  then show ?case
    by (subst c_stream_writeArrayValue.simps, subst stream_writeArrayValue.simps) (auto simp: Let_def split: sum.split)
next
  case (6 L C node m hasChild index rest W)
  then show ?case by (auto simp: Let_def split: sum.split)
next
  case (7 L C node m W)
  then show ?case
    by (subst c_stream_isMultineArray.simps, subst stream_isMultineArray.simps) (auto simp: Let_def split: sum.split)
next
  case (9 L C node m index rest lineLength W)
  then show ?case by (auto split: sum.split)
qed simp_all

lemma stream_written_uncommented:
  "cm_comments C = [] \<Longrightarrow> StyledStreamWriter_write_comments L C W v = StyledStreamWriter_write L W v"
  by (simp add: StyledStreamWriter_write_comments_def StyledStreamWriter_write_def stream_uncommented(1))

section \<open>Comments the writer can write\<close>

text \<open>
  One comment as the reader collects it, with its line end unless it is of the form \<open>/* */\<close>. Nothing
  separates the comment on the line of a value from the comment before the next one.
\<close>

definition one_comment :: "string \<Rightarrow> bool" where
  "one_comment s \<longleftrightarrow> s \<noteq> [] \<and> hd s = CHR ''/'' \<and> readComment (tl s) = (True, [])
     \<and> (deref (tl s) = CHR ''*'' \<or> last s = LF \<or> last s = CR)"

definition neat_for_stream :: "Collected \<Rightarrow> bool" where
  "neat_for_stream C \<longleftrightarrow> (\<forall>((node, p), s) \<in> set (cm_comments C).
     tidy s \<and> (p = commentAfterOnSameLine \<and> node \<noteq> [] \<longrightarrow> one_comment s))"

lemma normalizeEOL_line_end: "s \<noteq> [] \<Longrightarrow> last s = LF \<or> last s = CR \<Longrightarrow> last (normalizeEOL s) = LF"
proof (induction "length s" arbitrary: s rule: less_induct)
  case less
  then obtain c cs where s: "s = c # cs" by (cases s) auto
  define r where "r = (if c = CR \<and> deref cs = LF then tl cs else cs)"
  have n: "normalizeEOL s = (if c = CR then LF else c) # normalizeEOL r" by (simp add: s r_def)
  have l: "r \<noteq> [] \<Longrightarrow> last r = last s" by (cases cs) (auto simp: r_def s last_tl split: if_splits)
  show ?case
  proof (cases "r = []")
    case True
    then have "c = CR \<or> c = LF" using less.prems(2) by (auto simp: r_def s split: if_splits)
    then show ?thesis by (auto simp: n True)
  next
    case False
    have "length r < length s" by (simp add: s r_def le_imp_less_Suc)
    then have "last (normalizeEOL r) = LF" using less.hyps False less.prems(2) l by simp
    then show ?thesis using False normalizeEOL_last [of r] by (simp add: n)
  qed
qed

lemma passes_one_comment:
  assumes "one_comment s" "allowComments F"
  shows "passes F (normalizeEOL s)"
proof -
  obtain cs where s: "s = CHR ''/'' # cs" and r: "readComment cs = (True, [])"
    using assms(1) by (cases s) (auto simp: one_comment_def)
  have t: "tidy (normalizeEOL s)" using r by (intro tidy_normalizeEOL) (simp add: s is_space_def)
  show ?thesis
  proof (cases "deref cs = CHR ''*''")
    case False
    then have "last (normalizeEOL s) = LF" using assms(1) by (intro normalizeEOL_line_end) (auto simp: one_comment_def s)
    then show ?thesis using t assms(2) by (intro passes_tidy) simp_all
  next
    case True
    then obtain ds where cs: "cs = CHR ''*'' # ds" by (cases cs) (auto simp: deref_def NUL_def)
    with r have "readCStyleComment ds = (True, [])" by (simp add: readComment_def getNextChar_def)
    from readCStyleComment_normalizeEOL [OF this] have n: "readCStyleComment (normalizeEOL ds) = (True, [])" by simp
    have e: "normalizeEOL s = CHR ''/'' # CHR ''*'' # normalizeEOL ds" by (simp add: s cs)
    have "skip_comments (normalizeEOL s @ x) = skip_comments x" for x
    proof -
      have "readComment ((CHR ''*'' # normalizeEOL ds) @ x) = (True, x)"
        using readCStyleComment_append [OF n, of x] by (simp add: readComment_def getNextChar_def)
      from skip_comment [OF this] show ?thesis by (simp add: e)
    qed
    moreover have "delim (normalizeEOL s @ x)" for x by (simp add: e delim_def is_number_char_def is_digit_def)
    ultimately show ?thesis using assms(2) by (simp add: passes_def)
  qed
qed

lemma stream_comment:
  assumes "neat_for_stream C" "hasComment C node p" "allowComments F"
  shows "passes F (normalizeEOL (getComment C node p) @ [LF])"
    "p = commentAfterOnSameLine \<Longrightarrow> node \<noteq> [] \<Longrightarrow> passes F (normalizeEOL (getComment C node p))"
proof -
  obtain s where "map_of (cm_comments C) (node, p) = Some s" using assms(2) by (auto simp: hasComment_def)
  then have "getComment C node p = s" "((node, p), s) \<in> set (cm_comments C)"
    by (auto simp: getComment_def dest: map_of_SomeD)
  then show "passes F (normalizeEOL (getComment C node p) @ [LF])"
    "p = commentAfterOnSameLine \<Longrightarrow> node \<noteq> [] \<Longrightarrow> passes F (normalizeEOL (getComment C node p))"
    using assms(1,3) passes_line [OF tidy_normalizeEOL, of s F] passes_one_comment [of s F]
    by (fastforce simp: neat_for_stream_def)+
qed

lemma passes_nothing: "passes F []"
  by (simp add: passes_blank)

lemma passes_space: "passes F a \<Longrightarrow> passes F (CHR '' '' # a)"
  using passes_append [of F "'' ''" a] by (simp add: passes_blank is_space_def)

lemma stream_before:
  assumes "neat_for_stream C" "allowComments F"
  shows "\<exists>b. stream_commentBefore C node W = wrote W b (sw_childValues W) \<and> passes F b"
proof (cases "hasComment C node commentBefore")
  case True
  then show ?thesis using stream_comment(1) [OF assms(1) True assms(2)]
    by (auto simp: stream_commentBefore_def stream_text_wrote)
qed (auto simp: stream_commentBefore_def wrote_nothing intro!: exI [of _ "[]"])

lemma stream_after:
  assumes "neat_for_stream C" "allowComments F"
  shows "\<exists>a. stream_commentAfter C node W = wrote W a (sw_childValues W) \<and> passes F (a @ [LF]) \<and> (node \<noteq> [] \<longrightarrow> passes F a)"
proof -
  define a where "a = (if hasComment C node commentAfterOnSameLine
    then CHR '' '' # normalizeEOL (getComment C node commentAfterOnSameLine) else [])"
  have a: "passes F (a @ [LF])" "node \<noteq> [] \<Longrightarrow> passes F a"
    using stream_comment [OF assms(1) _ assms(2), of node commentAfterOnSameLine] passes_space
    by (auto simp: a_def passes_blank is_space_def)
  show ?thesis
  proof (cases "hasComment C node commentAfter")
    case True
    let ?s = "normalizeEOL (getComment C node commentAfter) @ [LF]"
    have p: "passes F ((a @ [LF]) @ ?s)" by (rule passes_append [OF a(1) stream_comment(1) [OF assms(1) True assms(2)]])
    then show ?thesis using True passes_append [OF p passes_LF]
      by (intro exI [of _ "(a @ [LF]) @ ?s"]) (simp add: stream_commentAfter_def stream_text_wrote a_def Let_def)
  next
    case False
    then show ?thesis using a
      by (intro exI [of _ a]) (auto simp: stream_commentAfter_def stream_text_wrote a_def wrote_nothing Let_def)
  qed
qed

section \<open>The writer and the reader\<close>

lemma stream_commented_flat: "\<not> nested v \<Longrightarrow> c_stream_value L C node v W = stream_value L v W"
  by (cases v)
    (auto simp: c_stream_value.simps stream_value.simps c_stream_writeArrayValue.simps stream_writeArrayValue.simps nested_def
      isArray_def isObject_def Value_size_def split: if_splits)

lemma stream_commented_children:
  "\<forall>i \<in> set is. \<not> nested (item_at m i) \<Longrightarrow> c_stream_collect L C node m is k W = stream_collect L m is k W"
  by (induction "is" arbitrary: k W) (auto simp: stream_commented_flat split: sum.split)

lemma stream_commented_multi: "c_stream_isMultineArray L C node m W = stream_isMultineArray L m W"
  by (subst c_stream_isMultineArray.simps, subst stream_isMultineArray.simps)
    (auto simp: stream_commented_children Let_def split: sum.split)

definition stream_readable :: "clib \<Rightarrow> Collected \<Rightarrow> Features \<Rightarrow> string \<Rightarrow> string \<Rightarrow> node \<Rightarrow> Value \<Rightarrow> bool" where
  "stream_readable L C F ind s node v \<longleftrightarrow> (\<forall>W. at_indent ind s W
     \<longrightarrow> (\<exists>t cv. c_stream_value L C node v W = Inr (wrote W t cv) \<and> opens t \<and> reads L F t (reread v)))"

lemma stream_readableD:
  assumes "stream_readable L C F ind s node v" "at_indent ind s W"
  shows "\<exists>t cv. c_stream_value L C node v W = Inr (wrote W t cv) \<and> opens t \<and> reads L F t (reread v)"
  using assms by (simp add: stream_readable_def)

lemma stream_lead:
  assumes "neat_for_stream C" "allowComments F" "at_indent ind s W" "blank s"
  shows "\<exists>f. stream_writeIndent (stream_commentBefore C node W) = wrote W f (sw_childValues W) \<and> passes F f
    \<and> sw_childValues (stream_commentBefore C node W) = sw_childValues W"
proof -
  obtain b where b: "stream_commentBefore C node W = wrote W b (sw_childValues W)" "passes F b"
    using stream_before [OF assms(1,2)] by blast
  have "passes F (b @ LF # s)" using passes_append [OF b(2) passes_blank [of "LF # s"]] assms(4) by (simp add: is_space_def)
  then show ?thesis using assms(3) stream_writeIndent_at [of ind s "wrote W b (sw_childValues W)"] by (auto simp: b(1))
qed

lemma stream_members_read:
  assumes "neat_for_stream C" "allowComments F" "blank s"
    and "\<forall>k \<in> set names. stream_readable L C F ind s (node @ [Inl k]) (named_at m k)"
    and "names \<noteq> []" "at_indent ind s W" "passes F a"
  shows "\<exists>ms z t cv. c_stream_members L C node m names W = Inr (wrote W t cv)
    \<and> a @ t = separated '','' (map member_text ms) @ z
    \<and> map fst ms = names \<and> (\<forall>e \<in> set ms. member_read L F m e) \<and> passes F z"
  using assms(4-7)
proof (induction names arbitrary: W a)
  case (Cons k names)
  let ?child = "node @ [Inl k]"
  obtain f where f: "stream_writeIndent (stream_commentBefore C ?child W) = wrote W f (sw_childValues W)" "passes F f"
    using stream_lead [OF assms(1,2) Cons.prems(3) assms(3)] by blast
  let ?W1 = "wrote W (f @ valueToQuotedString k @ '' : '') (sw_childValues W)"
  have w: "stream_text '' : '' (stream_writeWithIndent (valueToQuotedString k) (stream_commentBefore C ?child W)) = ?W1"
    by (simp add: stream_writeWithIndent_def f(1))
  obtain t cv where t: "c_stream_value L C ?child (named_at m k) ?W1 = Inr (wrote ?W1 t cv)" "reads L F t (reread (named_at m k))"
    using stream_readableD [of L C F ind s ?child "named_at m k" ?W1] Cons.prems(1,3) wrote_simps(1) by (metis list.set_intros(1))
  let ?e = "(k, a @ f, t, reread (named_at m k))" and ?t = "f @ valueToQuotedString k @ '' : '' @ t"
  have e: "member_read L F m ?e" using passes_append [OF Cons.prems(4) f(2)] t(2) by (simp add: member_read_def)
  show ?case
  proof (cases "names = []")
    case True
    obtain z where z: "stream_commentAfter C ?child (wrote ?W1 t cv) = wrote (wrote ?W1 t cv) z cv" "passes F z"
      using stream_after [OF assms(1,2), of ?child "wrote ?W1 t cv"] by auto
    then show ?thesis using True t(1) e
      by (intro exI [of _ "[?e]"] exI [of _ z] exI [of _ "?t @ z"] exI [of _ cv]) (simp add: w separated_simps Let_def)
  next
    case False
    let ?V = "wrote W (?t @ '','') cv"
    obtain z where z: "stream_commentAfter C ?child ?V = wrote ?V z cv" "passes F z"
      using stream_after [OF assms(1,2), of ?child ?V] by auto
    have "\<exists>ms z' t' cv'. c_stream_members L C node m names (wrote ?V z cv) = Inr (wrote (wrote ?V z cv) t' cv')
      \<and> z @ t' = separated '','' (map member_text ms) @ z'
      \<and> map fst ms = names \<and> (\<forall>e \<in> set ms. member_read L F m e) \<and> passes F z'"
      using Cons.prems(1,3) False z(2) by (intro Cons.IH) simp_all
    then obtain ms z' t' cv' where r: "c_stream_members L C node m names (wrote ?V z cv) = Inr (wrote (wrote ?V z cv) t' cv')"
      "z @ t' = separated '','' (map member_text ms) @ z'" "map fst ms = names" "\<forall>e \<in> set ms. member_read L F m e" "passes F z'"
      by blast
    have "ms \<noteq> []" using r(3) False by auto
    then have "separated '','' (map member_text (?e # ms)) = member_text ?e @ '','' @ separated '','' (map member_text ms)"
      by (simp add: separated_simps)
    then have "a @ ?t @ '','' @ z @ t' = separated '','' (map member_text (?e # ms)) @ z'" using r(2) by simp
    moreover have "c_stream_members L C node m (k # names) W = Inr (wrote W (?t @ '','' @ z @ t') cv')"
      using t(1) z(1) r(1) False by (simp add: w Let_def)
    ultimately show ?thesis using e r(3-5)
      by (intro exI [of _ "?e # ms"] exI [of _ z'] exI [of _ "?t @ '','' @ z @ t'"] exI [of _ cv']) simp
  qed
qed simp

lemma stream_items_read:
  assumes "neat_for_stream C" "allowComments F" "blank s"
    and "\<forall>i \<in> set is. stream_readable L C F ind s (node @ [Inr i]) (item_at m i)"
    and "is \<noteq> []" "at_indent ind s W" "passes F a"
    and "hasChild \<longrightarrow> sw_childValues W = map (\<lambda>i. flat L (item_at m i)) [0 ..< n]
      \<and> (\<forall>i \<in> set is. i < n \<and> \<not> nested (item_at m i) \<and> plain (item_at m i))"
  shows "\<exists>ms z t cv. c_stream_items L C node m hasChild is W = Inr (wrote W t cv)
    \<and> a @ t = separated '','' (map item_text ms) @ z
    \<and> map fst ms = is \<and> (\<forall>e \<in> set ms. item_read L F m e) \<and> passes F z"
  using assms(4-8)
proof (induction "is" arbitrary: W a)
  case (Cons i rest)
  let ?child = "node @ [Inr i]"
  let ?V = "stream_commentBefore C ?child W"
  obtain f where f: "stream_writeIndent ?V = wrote W f (sw_childValues W)" "passes F f" "sw_childValues ?V = sw_childValues W"
    using stream_lead [OF assms(1,2) Cons.prems(3) assms(3)] by blast
  let ?W1 = "wrote W f (sw_childValues W)"
  let ?step = "if hasChild
    then if i < length (sw_childValues ?V) then Inr (stream_writeWithIndent (sw_childValues ?V ! i) ?V) else Inl OutOfBounds
    else c_stream_value L C ?child (item_at m i) (stream_writeIndent ?V)"
  obtain t cv where t: "?step = Inr (wrote W (f @ t) cv)" "opens t"
    "reads L F t (reread (item_at m i))" "hasChild \<longrightarrow> cv = sw_childValues W"
  proof (cases hasChild)
    case True
    then have p: "plain (item_at m i)" using Cons.prems(5) by simp
    have "?step = Inr (wrote W (f @ flat L (item_at m i)) (sw_childValues W))"
      using True Cons.prems(5) by (simp add: f stream_writeWithIndent_def)
    then show thesis
    proof (rule that)
      show "opens (flat L (item_at m i))" "reads L F (flat L (item_at m i)) (reread (item_at m i))"
        using opens_written reads_written p by (simp_all add: new_FastWriter_def)
    qed simp
  next
    case False
    obtain t cv where "c_stream_value L C ?child (item_at m i) ?W1 = Inr (wrote ?W1 t cv)" "opens t" "reads L F t (reread (item_at m i))"
      using stream_readableD [of L C F ind s ?child "item_at m i" ?W1] Cons.prems(1,3) wrote_simps(1) by (metis list.set_intros(1))
    then show thesis using that [of t cv] False by (simp add: f(1))
  qed
  let ?e = "(i, a @ f @ t, reread (item_at m i))"
  have e: "item_read L F m ?e"
    using reads_passes [OF passes_append [OF Cons.prems(4) f(2)] t(3)] opens_passes [OF passes_append [OF Cons.prems(4) f(2)] t(2)]
    by (simp add: item_read_def)
  show ?case
  proof (cases "rest = []")
    case True
    obtain z where z: "stream_commentAfter C ?child (wrote W (f @ t) cv) = wrote (wrote W (f @ t) cv) z cv" "passes F z"
      using stream_after [OF assms(1,2), of ?child "wrote W (f @ t) cv"] by auto
    then show ?thesis using True t(1) e
      by (intro exI [of _ "[?e]"] exI [of _ z] exI [of _ "f @ t @ z"] exI [of _ cv]) (simp add: separated_simps Let_def)
  next
    case False
    let ?U = "wrote W ((f @ t) @ '','') cv"
    obtain z where z: "stream_commentAfter C ?child ?U = wrote ?U z cv" "passes F z"
      using stream_after [OF assms(1,2), of ?child ?U] by auto
    have "\<exists>ms z' t' cv'. c_stream_items L C node m hasChild rest (wrote ?U z cv) = Inr (wrote (wrote ?U z cv) t' cv')
      \<and> z @ t' = separated '','' (map item_text ms) @ z'
      \<and> map fst ms = rest \<and> (\<forall>e \<in> set ms. item_read L F m e) \<and> passes F z'"
      using Cons.prems(1,3,5) False z(2) t(4) by (intro Cons.IH) simp_all
    then obtain ms z' t' cv' where r: "c_stream_items L C node m hasChild rest (wrote ?U z cv) = Inr (wrote (wrote ?U z cv) t' cv')"
      "z @ t' = separated '','' (map item_text ms) @ z'" "map fst ms = rest" "\<forall>e \<in> set ms. item_read L F m e" "passes F z'"
      by blast
    have "ms \<noteq> []" using r(3) False by auto
    then have "separated '','' (map item_text (?e # ms)) = item_text ?e @ '','' @ separated '','' (map item_text ms)"
      by (simp add: separated_simps)
    then have "a @ f @ t @ '','' @ z @ t' = separated '','' (map item_text (?e # ms)) @ z'" using r(2) by simp
    moreover have "c_stream_items L C node m hasChild (i # rest) W = Inr (wrote W (f @ t @ '','' @ z @ t') cv')"
      using t(1) z(1) r(1) False by (simp add: Let_def)
    ultimately show ?thesis using e r(3-5)
      by (intro exI [of _ "?e # ms"] exI [of _ z'] exI [of _ "f @ t @ '','' @ z @ t'"] exI [of _ cv']) simp
  qed
qed simp

lemma stream_readable_object:
  assumes "neat_for_stream C" "allowComments F" "blank s" "blank ind" "plain (objectValue m)" "nested (objectValue m)"
    and "\<forall>k \<in> set (map fst m). stream_readable L C F ind (s @ ind) (node @ [Inl k]) (named_at m k)"
  shows "stream_readable L C F ind s node (objectValue m)"
  unfolding stream_readable_def
proof (intro allI impI)
  fix W assume W: "at_indent ind s W"
  have m: "map fst m \<noteq> []" using assms(6) by (auto simp: nested_def Value_size_def isArray_def)
  have b: "blank (s @ ind)" and lead: "blank (LF # s)" using assms(3,4) by (simp_all add: is_space_def)
  let ?W = "wrote W (LF # s @ ''{'') (sw_childValues W)"
  have i: "at_indent ind (s @ ind) (stream_indent ?W)" using W by (intro stream_indent_at) simp
  obtain ms z t cv where r: "c_stream_members L C node m (map fst m) (stream_indent ?W) = Inr (wrote (stream_indent ?W) t cv)"
    "[] @ t = separated '','' (map member_text ms) @ z" "map fst ms = map fst m" "\<forall>e \<in> set ms. member_read L F m e" "passes F z"
    using stream_members_read [OF assms(1,2) b assms(7) m i passes_nothing] by blast
  let ?f = "z @ LF # s" and ?t = "separated '','' (map member_text ms) @ z"
  have u: "stream_unindent (wrote (stream_indent ?W) t cv) = Inr (wrote ?W t cv)"
    using W by (intro stream_unindent_at) simp
  have "c_stream_value L C node (objectValue m) W
      = Inr (wrote W ((LF # s) @ ''{'' @ separated '','' (map member_text ms) @ ?f @ ''}'') cv)"
    using m r(1,2) u W by (simp add: c_stream_value.simps stream_writeWithIndent_at)
  moreover have f: "passes F ?f" using passes_append [OF r(5) passes_blank [of "LF # s"]] assms(3) by (simp add: is_space_def)
  have "reads L F (''{'' @ separated '','' (map member_text ms) @ ?f @ ''}'') (reread (objectValue m))"
    by (rule members_make_object [OF assms(5) r(3,4) f])
  then have "reads L F ((LF # s) @ ''{'' @ separated '','' (map member_text ms) @ ?f @ ''}'') (reread (objectValue m))"
    by (rule reads_blank [OF lead])
  moreover have "opens ((LF # s) @ ''{'' @ separated '','' (map member_text ms) @ ?f @ ''}'')"
    by (rule opens_blank [OF lead]) (simp add: is_space_def)
  ultimately show "\<exists>t cv. c_stream_value L C node (objectValue m) W = Inr (wrote W t cv) \<and> opens t \<and> reads L F t (reread (objectValue m))"
    by blast
qed

lemma stream_readable_lines:
  assumes "neat_for_stream C" "allowComments F" "blank s" "blank ind" "plain (arrayValue m)" "nested (arrayValue m)" "multi_line L m"
    and "\<forall>i \<in> set [0 ..< Value_size (arrayValue m)].
      plain (item_at m i) \<and> stream_readable L C F ind (s @ ind) (node @ [Inr i]) (item_at m i)"
  shows "stream_readable L C F ind s node (arrayValue m)"
  unfolding stream_readable_def
proof (intro allI impI)
  fix W assume W: "at_indent ind s W"
  let ?is = "[0 ..< Value_size (arrayValue m)]"
  have n: "Value_size (arrayValue m) \<noteq> 0" "?is \<noteq> []" using assms(6) by (auto simp: nested_def)
  have b: "blank (s @ ind)" and lead: "blank (LF # s)" using assms(3,4) by (simp_all add: is_space_def)
  from stream_multi_line [OF W, of L m] assms(7) obtain cv where
    cv: "c_stream_isMultineArray L C node m W = Inr (True, W\<lparr>sw_childValues := cv\<rparr>)"
    "cv = [] \<or> cv = map (\<lambda>i. flat L (item_at m i)) ?is \<and> (\<forall>i < Value_size (arrayValue m). \<not> nested (item_at m i))"
    by (auto simp: stream_commented_multi)
  have V: "W\<lparr>sw_childValues := cv\<rparr> = wrote W [] cv" by (simp add: wrote_def)
  let ?W = "wrote W (LF # s @ ''['') cv"
  have at: "at_indent ind (s @ ind) (stream_indent ?W)" using W by (intro stream_indent_at) simp
  have h: "cv \<noteq> [] \<longrightarrow> sw_childValues (stream_indent ?W) = map (\<lambda>i. flat L (item_at m i)) ?is
      \<and> (\<forall>i \<in> set ?is. i < Value_size (arrayValue m) \<and> \<not> nested (item_at m i) \<and> plain (item_at m i))"
    using cv(2) assms(8) by (auto simp: stream_indent_def)
  have w: "\<forall>i \<in> set ?is. stream_readable L C F ind (s @ ind) (node @ [Inr i]) (item_at m i)" using assms(8) by blast
  obtain ms z t cv' where r: "c_stream_items L C node m (cv \<noteq> []) ?is (stream_indent ?W) = Inr (wrote (stream_indent ?W) t cv')"
    "[] @ t = separated '','' (map item_text ms) @ z" "map fst ms = ?is" "\<forall>e \<in> set ms. item_read L F m e" "passes F z"
    using stream_items_read [OF assms(1,2) b w n(2) at passes_nothing h] by blast
  let ?f = "z @ LF # s"
  have u: "stream_unindent (wrote (stream_indent ?W) t cv') = Inr (wrote ?W t cv')"
    using W by (intro stream_unindent_at) simp
  have "c_stream_value L C node (arrayValue m) W
      = Inr (wrote W ((LF # s) @ ''['' @ separated '','' (map item_text ms) @ ?f @ '']'') cv')"
    using n(1) cv(1) r(1,2) u W
    by (simp add: c_stream_value.simps c_stream_writeArrayValue.simps stream_writeWithIndent_at V Let_def)
  moreover have f: "passes F ?f" using passes_append [OF r(5) passes_blank [of "LF # s"]] assms(3) by (simp add: is_space_def)
  have "reads L F (''['' @ separated '','' (map item_text ms) @ ?f @ '']'') (reread (arrayValue m))"
    by (rule items_make_array [OF assms(5,6) r(3,4) f])
  then have "reads L F ((LF # s) @ ''['' @ separated '','' (map item_text ms) @ ?f @ '']'') (reread (arrayValue m))"
    by (rule reads_blank [OF lead])
  moreover have "opens ((LF # s) @ ''['' @ separated '','' (map item_text ms) @ ?f @ '']'')"
    by (rule opens_blank [OF lead]) (simp add: is_space_def)
  ultimately show "\<exists>t cv. c_stream_value L C node (arrayValue m) W = Inr (wrote W t cv) \<and> opens t \<and> reads L F t (reread (arrayValue m))"
    by blast
qed

lemma stream_one_line_uncommented:
  assumes "at_indent ind s W" "\<not> multi_line L m"
  shows "c_stream_value L C node (arrayValue m) W = stream_value L (arrayValue m) W"
proof -
  obtain cv where "stream_isMultineArray L m W = Inr (False, W\<lparr>sw_childValues := cv\<rparr>)"
    using stream_multi_line [of ind s W L m] assms by auto
  then show ?thesis
    by (simp add: c_stream_value.simps stream_value.simps c_stream_writeArrayValue.simps stream_writeArrayValue.simps
        stream_commented_multi Let_def)
qed

lemma stream_readable_plain:
  assumes "neat_for_stream C" "allowComments F" "blank ind"
  shows "plain v \<Longrightarrow> blank s \<Longrightarrow> stream_readable L C F ind s node v"
proof (induction "size v" arbitrary: v s node rule: less_induct)
  case less
  have b: "blank (s @ ind)" using less.prems(2) assms(3) by simp
  have ih: "stream_readable L C F ind (s @ ind) p x" if "(k, x) \<in> set m" "size x < size v" "plain x" for p k x and m :: "('k \<times> Value) list"
    using less that b by blast
  have u: "stream_readable L C F ind s node v" if "\<And>W. at_indent ind s W \<Longrightarrow> c_stream_value L C node v W = stream_value L v W"
    using that stream_writes_any [of ind L s v] stream.opens_text [of v "(ind, s)" L] stream.reads_text [of v "(ind, s)" L F] less.prems assms(3)
    by (fastforce simp: stream_readable_def stream_writes_def)
  show ?case
  proof (cases "nested v")
    case False
    then show ?thesis by (intro u stream_commented_flat)
  next
    case True
    then consider m where "v = objectValue m" | m where "v = arrayValue m" "multi_line L m" | m where "v = arrayValue m" "\<not> multi_line L m"
      by (cases v) (auto simp: nested_def isArray_def isObject_def)
    then show ?thesis
    proof cases
      case (1 m)
      have o: "omap_of m" using less.prems(1) 1 by simp
      have "\<forall>(k, x) \<in> set m. stream_readable L C F ind (s @ ind) (node @ [Inl k]) x"
        using ih less.prems(1) 1 size_in_map [of _ _ m] by (fastforce simp: size_prod_simp)
      then have "\<forall>k \<in> set (map fst m). stream_readable L C F ind (s @ ind) (node @ [Inl k]) (named_at m k)"
        using named_members [OF o] by fastforce
      then show ?thesis using less.prems assms True 1 by (simp add: stream_readable_object)
    next
      case (2 m)
      have dense: "map fst m = [0 ..< length m]" using less.prems(1) 2 by simp
      have "\<forall>(i, x) \<in> set m. plain x \<and> (\<forall>p. stream_readable L C F ind (s @ ind) p x)"
        using ih less.prems(1) 2 size_in_map [of _ _ m] by (fastforce simp: size_prod_simp)
      then have "\<forall>b \<in> set (map (\<lambda>i. plain (item_at m i) \<and> (\<forall>p. stream_readable L C F ind (s @ ind) p (item_at m i)))
          [0 ..< Value_size (arrayValue m)]). b"
        unfolding dense_items [OF dense, of "\<lambda>x. plain x \<and> (\<forall>p. stream_readable L C F ind (s @ ind) p x)"] by auto
      then show ?thesis using less.prems assms True 2
        by (intro stream_readable_lines [of C F s ind m L node, folded 2(1)]) auto
    next
      case (3 m)
      then show ?thesis using stream_one_line_uncommented by (intro u) simp
    qed
  qed
qed

text \<open>
  C21: The text on the stream means the same, comments and all. Whatever has been written before it,
  whatever value without doubles is written with an indentation of blanks, and whatever comments the
  values carry, if those on the line of a value are complete: no assertion fails and no array is left; a
  reader that allows comments makes of the text what it makes of the text of \<open>FastWriter\<close>. Without
  comments the text is that of the writer for values without comments, and every reader reads it so.
\<close>
theorem commented_stream_equivalent:
  assumes "plain v" "blank (sw_indentation W)" "sw_rightMargin W = 74" "neat_for_stream C"
    and "allowComments F \<or> cm_comments C = []" "strictRoot F \<longrightarrow> isArray v \<or> isObject v"
  shows "\<exists>s W'. StyledStreamWriter_write_comments L C W v = Inr W' \<and> sw_out W' = sw_out W @ s
    \<and> Reader_parse L F s root = Reader_parse L F (FastWriter_write L new_FastWriter v) root
    \<and> Reader_parse L F s root = Some (True, reread v, [])
    \<and> (cm_comments C = [] \<longrightarrow> StyledStreamWriter_write L W v = Inr W')"
proof (cases "cm_comments C = []")
  case True
  then show ?thesis using stream_text_equivalent [OF assms(1-3,6), of L root] by (auto simp: stream_written_uncommented)
next
  case False
  then have F: "allowComments F" using assms(5) by simp
  let ?W = "W\<lparr>sw_addChildValues := False, sw_indentString := []\<rparr>"
  obtain b where b: "stream_commentBefore C [] ?W = wrote ?W b (sw_childValues ?W)" "passes F b"
    using stream_before [OF assms(4) F] by blast
  let ?V = "wrote ?W b (sw_childValues ?W)"
  have "at_indent (sw_indentation W) [] ?V" using assms(3) by (simp add: at_indent_def wrote_def)
  then obtain t cv where t: "c_stream_value L C [] v ?V = Inr (wrote ?V t cv)" "reads L F t (reread v)"
    using stream_readableD [OF stream_readable_plain [OF assms(4) F assms(2,1), of "[]"]] by fastforce
  obtain a where a: "stream_commentAfter C [] (wrote ?V t cv) = wrote (wrote ?V t cv) a cv" "passes F (a @ [LF])"
    using stream_after [OF assms(4) F, of "[]" "wrote ?V t cv"] by auto
  have "StyledStreamWriter_write_comments L C W v = Inr (wrote ?W ((b @ t) @ a @ [LF]) cv)"
    using t(1) a(1) by (simp add: StyledStreamWriter_write_comments_def b(1))
  moreover have "sw_out (wrote ?W ((b @ t) @ a @ [LF]) cv) = sw_out W @ ((b @ t) @ a @ [LF])" by (simp add: wrote_def)
  moreover have "delim (a @ [LF])" using delim_passes [OF a(2), of "[]"] by simp
  then have "Reader_parse L F ((b @ t) @ a @ [LF]) root = Some (True, reread v, [])"
    using reads_passes [OF b(2) t(2)] assms(6) by (intro parse_text)
  ultimately show ?thesis
    using False parse_written [OF assms(1) _ assms(6), of new_FastWriter L root] by (auto simp: new_FastWriter_def)
qed

theorem commented_stream_equivalent_witness:
  "\<exists>s W'. StyledStreamWriter_write_comments no_doubles
        ((new_Collected [] True)\<lparr>cm_comments := [(([Inl ''a''], commentAfterOnSameLine), ''//x'' @ [LF]), (([], commentBefore), ''/*y*/'')]\<rparr>)
        ((new_StyledStreamWriter [TAB])\<lparr>sw_out := ''out: ''\<rparr>) (objectValue [(''a'', intValue (-7)), (''b'', nullValue)]) = Inr W'
    \<and> sw_out W' = ''out: '' @ s
    \<and> Reader_parse no_doubles Features_all s nullValue = Some (True, objectValue [(''a'', intValue (-7)), (''b'', nullValue)], [])"
proof -
  let ?C = "(new_Collected [] True)\<lparr>cm_comments := [(([Inl ''a''], commentAfterOnSameLine), ''//x'' @ [LF]), (([], commentBefore), ''/*y*/'')]\<rparr>"
  have "tidy (''//x'' @ [LF])" "one_comment (''//x'' @ [LF])" "tidy ''/*y*/''" by code_simp+
  then have "neat_for_stream ?C" by (simp add: neat_for_stream_def)
  then show ?thesis
    using commented_stream_equivalent [of "objectValue [(''a'', intValue (-7)), (''b'', nullValue)]"
      "(new_StyledStreamWriter [TAB])\<lparr>sw_out := ''out: ''\<rparr>" ?C Features_all no_doubles nullValue]
    by (auto simp: Features_all_def NUL_def omap_of_def int_limits new_StyledStreamWriter_def is_space_def)
qed

text \<open>
  A comment of the form \<open>//\<close> without its line end swallows the first line of the comment before the next
  value, and what was written cannot be read.
\<close>

definition merged :: string where
  "merged = [LF] @ ''{'' @ [LF, TAB] @ [QUOTE, CHR ''a'', QUOTE] @ '' : null, //x/*y'' @ [LF] @ ''*/'' @ [LF, LF, TAB] @ [QUOTE, CHR ''b'', QUOTE]
     @ '' : null'' @ [LF] @ ''}'' @ [LF]"

lemma comments_merge:
  "map_sum (\<lambda>e. e) sw_out (StyledStreamWriter_write_comments no_doubles
      ((new_Collected [] True)\<lparr>cm_comments := [(([Inl ''a''], commentAfterOnSameLine), ''//x''), (([Inl ''b''], commentBefore), ''/*y'' @ [LF] @ ''*/'')]\<rparr>)
      (new_StyledStreamWriter [TAB]) (objectValue [(''a'', nullValue), (''b'', nullValue)])) = Inr merged"
  "map_option fst (Reader_parse no_doubles Features_all merged nullValue) = Some False"
  by code_simp+

end
