(* ===== verification/Spec2Isabelle.thy ===== *)
theory Spec2Isabelle
  imports EndToEnd RelayLiveness EiceLife TesterLife Resources Shell
    JsonComments JsonPath JsonOrder JsonStore JsonIterators CommentStream
begin

text \<open>
  Verification development for bridgeserver, a server that joins a WebRTC user and an XMPP user in one
  media session. A controller sends it session commands over TCP (PREPARE, START, JOIN, RELAY, STOP); it
  has the embedded \<open>eice\<close> library find addresses through which both sides can be reached, and then
  relays RTP datagrams between them. Everything of the server runs in one event loop; \<open>eice\<close> has a thread
  of its own for each endpoint and hands results over to the loop.

  The parts, bottom up. Files are under \<open>src/bridgeserver\<close> unless they belong to \<open>src/third/eice/src\<close>.

  \<^item> \<open>Prelude\<close>: bytes, little and big endian integers at their width, C arrays read and written at an
    offset, \<open>std::map\<close> as a sorted association list, and \<open>crash\<close>, the ways in which C++ goes wrong where the
    source does not check: an access outside of an array, a null pointer, an unset pointer, a failed
    \<open>assert\<close>, a lock taken twice, a division by zero. An operation that can do so returns \<open>'a outcome\<close>.
  \<^item> \<open>Framing\<close>: the locale of a self-delimiting frame format and the theory of decoding its streams in
    pieces. \<open>Wire\<close> (\<open>IceConnection\<close>, \<open>constructCommandBuffer\<close> of \<open>IceService.cpp\<close>, \<open>Connection::readCallback\<close>):
    the command channel, an interpretation of it. Round trip of a command, and the reader as a refinement of
    decoding the whole stream.
  \<^item> \<open>MediaFilter\<close> (\<open>MediaFilter.h\<close>): the RTP filters of audio and video, byte for byte, and the cache from
    which video packets are sent again. \<open>Forward\<close> (\<open>ForwardService\<close>): the table of forwards, the datagram
    loop, the timer, with an invariant of every reachable state and the routing of every datagram.
  \<^item> \<open>JsonValue\<close>, \<open>JsonReader\<close>, \<open>JsonWriter\<close>, \<open>StyledWriter\<close>, \<open>StreamWriter\<close>, \<open>JsonBuild\<close> (\<open>jsoncpp.cpp\<close>): values, the
    parser with its error recovery, the three writers. The parser returns on every document, and it
    reads back what each writer writes. \<open>CommentWriter\<close>, \<open>CommentStream\<close>: both styled writers on values that
    carry comments, and which comments the parser passes over again. \<open>JsonErrors\<close>: line and column of an
    error, and the errors an application adds. \<open>JsonComments\<close>: the parser collecting comments and offsets, as
    it is called; it reads what the plain one reads. \<open>JsonMemory\<close>, \<open>JsonStore\<close>: the strings on the heap that
    values own, and the proof that values in memory behave as the values of \<open>JsonValue\<close>. \<open>JsonOrder\<close>: \<open>operator<\<close>
    and \<open>compare\<close> as an order. \<open>JsonPath\<close>, \<open>JsonIterators\<close>: paths into a value, iterators over one.
  \<^item> \<open>RelayPacket\<close>, \<open>Confice\<close> (\<open>confice_t\<close> of \<open>eice.cpp\<close>): the client of the relay server, its packets,
    registration, selection, timer. \<open>ConficeLife\<close>: its life cycle and all its failures.
    \<open>RelayAgreement\<close>, \<open>RelayLiveness\<close>: two clients, a server and a network; what both sides agree on, and
    that they come to it.
  \<^item> \<open>EiceConfig\<close>, \<open>Eice\<close> (\<open>eice_t\<close>): configuration, descriptions, creation, negotiation, result, sockets.
    \<open>EiceResult\<close>, \<open>EiceDescription\<close>: texts written by one side and read by the other. \<open>EiceLife\<close>: reachable
    endpoints. \<open>Shutdown\<close>: the worker thread and how it is stopped. \<open>Resources\<close>: what is allocated and released.
  \<^item> \<open>IceService\<close> (\<open>IceService.cpp\<close>): sessions, commands, results, timer. \<open>IceLife\<close>: an abstract life cycle of
    sessions, of which every step of the service is a move, and what follows for clients.
  \<^item> \<open>Ini\<close>, \<open>IniText\<close> (\<open>ini.hpp\<close>): the configuration file and its round trip. \<open>ThreadCall\<close>
    (\<open>libevent_thread_call.h\<close>): calls into the loop, under every interleaving. \<open>Server\<close> (\<open>TcpServer\<close>,
    \<open>Connection\<close>, \<open>AppServer\<close>): connections, and the application as the composition of command reader,
    service, forwards and thread calls; its runs contain the runs of each part. \<open>Shell\<close> (\<open>AppServer\<close>,
    \<open>main.cc\<close>): the object that owns the parts, and the order in which they end. \<open>EndToEnd\<close>: a whole call,
    from the bytes of PREPARE to the media datagrams of both peers, through all of these parts.
  \<^item> \<open>MsTester\<close>, \<open>TesterLife\<close> (\<open>mstester.cpp\<close>): the tester of a media server, its packets and statistics; its runs
    from creation to release.

  How state and operations correspond to the code. A class or struct is a record with the members that
  matter, under their names or with a prefix where two classes share a name. A handler is one definition
  that returns the new state and the list of its effects (packets, calls of other libraries, timers), or
  the crash. A pointer to an object of a table is its key. C strings end at the first NUL (\<open>c_str\<close>).
  Exceptions of the JSON library are a sum of their own (\<open>throws\<close>), resolved where the source catches them.
  Integers that can wrap are words; the rest are bounded where the code bounds them.

  Bounds and fuel. The parser recurses on the text; \<open>Reader_parse\<close> runs it with the fuel \<open>parse_fuel\<close>, twice
  the length of the document and three, and \<open>parse_returns\<close> proves that this is enough, whatever the
  document. The loop that answers a resend request, which counts in 16 bits, the waits (\<open>query_wait\<close>,
  \<open>mstester_waitfor_done\<close>) and the sending thread of the tester need not end: they are
  \<open>partial_function (option)\<close>, and the theorems say when they return; so is the parser of paths, which a NUL
  stops for ever. Every other recursion is total.

  What stands outside and is a parameter: the conversion of doubles from and to text (\<open>clib\<close>), libevent,
  the sockets, clocks and threads of the system, pjlib and pjnath. Their answers come with each
  step, in a record of the environment (\<open>ice_env\<close>, \<open>conf_env\<close>, \<open>eice_env\<close>, \<open>ms_env\<close>, \<open>poll_answers\<close>); hypotheses
  about them are stated where a theorem needs them and met by its witness. Locales state the
  interfaces (frames, keyed tables, the layout of a text writer, access to the children of a value, the
  keys of an array or an object); each is interpreted on the definitions of the code.

  Not modelled: logging; the conversion of JSON values to double and the batch allocator, which is not
  compiled in; the registration of threads with pjlib; memory exhaustion;
  the test programs at the end of \<open>eice.cpp\<close> and \<open>mstester.cpp\<close> and under \<open>src/test\<close>.
\<close>

end
